(* ===== verification/Prelude.thy ===== *)
theory Prelude
  imports Main "HOL-Library.Word" "HOL-Library.Multiset"
begin

text \<open>
  Shared vocabulary of the development.

  A C function of the repository becomes a HOL function into \<open>outcome\<close>: either a
  \<open>fault\<close> (the C program would run into undefined behaviour, a failed \<open>assert\<close>
  or a \<open>ZF_LOGF\<close>, which stops the component) or a value. Absence of faults is a theorem
  of the component theories, never an assumption of a definition.
  Loops whose exit depends on data carry fuel; \<open>OutOfFuel\<close> marks a loop that would not
  have left after that many rounds, and each theory proves that it is not reached.

  The second half holds the facts on lists, words and arrays that several components use.
\<close>

unbundle bit_operations_syntax

section \<open>Machine types\<close>

type_synonym u8 = "8 word"
type_synonym u16 = "16 word"
type_synonym u32 = "32 word"
type_synonym u64 = "64 word"

text \<open>A C \<open>int\<close>; its value is read with \<open>sint\<close>.\<close>

type_synonym cint = "32 word"

text \<open>\<open>BIT(n)\<close>, an \<open>unsigned long\<close>; shifting by 64 or more is undefined.\<close>

definition BIT :: "nat \<Rightarrow> u64" where
  "BIT n = push_bit n 1"

lemma bit_BIT: "bit (BIT n) k \<longleftrightarrow> k = n \<and> n < 64"
  by (auto simp: BIT_def bit_simps)

section \<open>Faults and outcomes\<close>

datatype fault =
    OutOfBounds       \<comment> \<open>access outside an array or a mapped buffer\<close>
  | NullDeref         \<comment> \<open>dereference of a null pointer\<close>
  | UseAfterFree      \<comment> \<open>dereference of freed memory\<close>
  | AssertionFailed   \<comment> \<open>\<open>assert\<close>\<close>
  | Fatal             \<comment> \<open>\<open>ZF_LOGF\<close> and \<open>ZF_LOGF_IF\<close>\<close>
  | OutOfFuel         \<comment> \<open>a loop that has not left yet\<close>

type_synonym 'a outcome = "fault + 'a"

named_theorems outcome_simps "evaluation of outcomes"

definition obind :: "'a outcome \<Rightarrow> ('a \<Rightarrow> 'b outcome) \<Rightarrow> 'b outcome" where
  "obind m f = (case m of Inl e \<Rightarrow> Inl e | Inr x \<Rightarrow> f x)"

lemma obind_Inl [simp, outcome_simps]: "obind (Inl e) f = Inl e"
  by (simp add: obind_def)

lemma obind_Inr [simp, outcome_simps]: "obind (Inr x) f = f x"
  by (simp add: obind_def)

lemma obind_cong [fundef_cong]:
  "m = m' \<Longrightarrow> (\<And>x. m' = Inr x \<Longrightarrow> f x = g x) \<Longrightarrow> obind m f = obind m' g"
  by (cases m') simp_all

lemma obind_eq_Inr: "obind m f = Inr y \<longleftrightarrow> (\<exists>x. m = Inr x \<and> f x = Inr y)"
  by (cases m) simp_all

lemma obind_eq_InrE:
  assumes "obind m f = Inr y"
  obtains x where "m = Inr x" and "f x = Inr y"
  using assms by (auto simp: obind_eq_Inr)

lemma obind_assoc: "obind (obind m f) g = obind m (\<lambda>x. obind (f x) g)"
  by (cases m) simp_all

text \<open>\<open>assert\<close> and \<open>ZF_LOGF_IF\<close> as steps of an outcome.\<close>

definition ensure :: "bool \<Rightarrow> fault \<Rightarrow> unit outcome" where
  "ensure P e = (if P then Inr () else Inl e)"

lemma ensure_True [simp, outcome_simps]: "ensure True e = Inr ()"
  by (simp add: ensure_def)

lemma ensure_False [simp, outcome_simps]: "ensure False e = Inl e"
  by (simp add: ensure_def)

lemma ensure_eq_Inr [simp]: "ensure P e = Inr u \<longleftrightarrow> P"
  by (simp add: ensure_def)

section \<open>Arrays and memory\<close>

definition nth_ok :: "'a list \<Rightarrow> nat \<Rightarrow> 'a outcome" where
  "nth_ok xs i = (if i < length xs then Inr (xs ! i) else Inl OutOfBounds)"

definition upd_ok :: "'a list \<Rightarrow> nat \<Rightarrow> 'a \<Rightarrow> 'a list outcome" where
  "upd_ok xs i x = (if i < length xs then Inr (xs[i := x]) else Inl OutOfBounds)"

lemma nth_ok_in [simp, outcome_simps]: "i < length xs \<Longrightarrow> nth_ok xs i = Inr (xs ! i)"
  by (simp add: nth_ok_def)

lemma upd_ok_in [simp, outcome_simps]: "i < length xs \<Longrightarrow> upd_ok xs i x = Inr (xs[i := x])"
  by (simp add: upd_ok_def)

lemma nth_ok_eq_Inr: "nth_ok xs i = Inr y \<longleftrightarrow> i < length xs \<and> y = xs ! i"
  by (auto simp: nth_ok_def)

lemma upd_ok_eq_Inr: "upd_ok xs i x = Inr ys \<longleftrightarrow> i < length xs \<and> ys = xs[i := x]"
  by (auto simp: upd_ok_def)

text \<open>\<open>memcpy(dst, src, n)\<close> on byte arrays of known extent.\<close>

definition memcpy :: "'a list \<Rightarrow> 'a list \<Rightarrow> nat \<Rightarrow> 'a list outcome" where
  "memcpy dst src n =
     (if n \<le> length dst \<and> n \<le> length src then Inr (take n src @ drop n dst)
      else Inl OutOfBounds)"

lemma memcpy_in [simp, outcome_simps]:
  "n \<le> length dst \<Longrightarrow> n \<le> length src \<Longrightarrow> memcpy dst src n = Inr (take n src @ drop n dst)"
  by (simp add: memcpy_def)

lemma length_memcpy: "memcpy dst src n = Inr r \<Longrightarrow> length r = length dst"
  by (auto simp: memcpy_def split: if_splits)

section \<open>Facts on lists and multisets\<close>

lemma take_Suc_update: "n < length xs \<Longrightarrow> take (Suc n) (xs[n := x]) = take n xs @ [x]"
  by (simp add: take_Suc_conv_app_nth)

lemma mset_take_Suc: "n < length xs \<Longrightarrow> mset (take (Suc n) xs) = add_mset (xs ! n) (mset (take n xs))"
  by (simp add: take_Suc_conv_app_nth)

lemma map_upd_same: "i < length xs \<Longrightarrow> f y = f (xs ! i) \<Longrightarrow> map f (xs[i := y]) = map f xs"
  by (metis list_update_id map_update)

lemma sum_list_update_mset:
  fixes f :: "'a \<Rightarrow> 'b multiset"
  assumes "i < length xs"
  shows "sum_list (map f (xs[i := y])) + f (xs ! i) = sum_list (map f xs) + f y"
  using assms
proof (induction xs arbitrary: i)
  case Nil
  then show ?case by simp
next
  case (Cons x xs)
  show ?case
  proof (cases i)
    case 0
    then show ?thesis by simp
  next
    case (Suc j)
    with Cons.prems have "j < length xs" by simp
    with Cons.IH [of j] Suc show ?thesis by (simp add: ac_simps)
  qed
qed

end
