(* ===== verification/Ring.thy ===== *)
theory Ring
  imports Prelude
begin

text \<open>
  Bounded cyclic queues. The repository keeps the same structure three times: an array with
  a \<open>head\<close> and a \<open>tail\<close> index, one slot always free (the per-client receive queue of the
  Ethernet driver, and the character buffers of the serial server). \<open>ring_items\<close> reads
  such an array as the list of its pending entries, oldest first. The locale \<open>fifo\<close> is the
  contract the users of a queue rely on; the component theories interpret it on their own
  enqueue and dequeue code.
\<close>

section \<open>A cyclic array as a list\<close>

text \<open>
  \<open>ring_items arr out inn\<close>: entries are taken out at index \<open>out\<close> and put in at index \<open>inn\<close>.
\<close>

definition ring_count :: "nat \<Rightarrow> nat \<Rightarrow> nat \<Rightarrow> nat" where
  "ring_count n out inn = (inn + n - out) mod n"

definition ring_items :: "'a list \<Rightarrow> nat \<Rightarrow> nat \<Rightarrow> 'a list" where
  "ring_items arr out inn =
     map (\<lambda>k. arr ! ((out + k) mod length arr)) [0..<ring_count (length arr) out inn]"

lemma mod_once: "a < 2 * n \<Longrightarrow> a mod n = (if a < n then a else a - n)" for a n :: nat
  by (simp add: mod_if [of a])

lemma length_ring_items [simp]: "length (ring_items arr out inn) = ring_count (length arr) out inn"
  by (simp add: ring_items_def)

lemma ring_count_alt:
  "out < n \<Longrightarrow> inn < n \<Longrightarrow> ring_count n out inn = (if out \<le> inn then inn - out else inn + n - out)"
  by (auto simp: ring_count_def mod_if)

lemma ring_count_less: "0 < n \<Longrightarrow> ring_count n out inn < n"
  by (simp add: ring_count_def)

lemma ring_count_0_iff: "out < n \<Longrightarrow> inn < n \<Longrightarrow> ring_count n out inn = 0 \<longleftrightarrow> inn = out"
  by (auto simp: ring_count_alt)

lemma ring_succ_neq:
  "out < n \<Longrightarrow> inn < n \<Longrightarrow> (inn + 1) mod n = out \<longleftrightarrow> ring_count n out inn = n - 1"
  by (auto simp: ring_count_alt mod_if)

lemma ring_count_push:
  "out < n \<Longrightarrow> inn < n \<Longrightarrow> (inn + 1) mod n \<noteq> out \<Longrightarrow>
   ring_count n out ((inn + 1) mod n) = Suc (ring_count n out inn)"
  by (auto simp: ring_count_alt mod_if split: if_splits)

lemma ring_count_pop:
  "out < n \<Longrightarrow> inn < n \<Longrightarrow> inn \<noteq> out \<Longrightarrow>
   ring_count n out inn = Suc (ring_count n ((out + 1) mod n) inn)"
  by (auto simp: ring_count_alt mod_if split: if_splits)

lemma ring_items_Nil_iff:
  "out < length arr \<Longrightarrow> inn < length arr \<Longrightarrow> ring_items arr out inn = [] \<longleftrightarrow> inn = out"
  by (metis length_0_conv length_ring_items ring_count_0_iff)

lemma ring_items_push:
  assumes "out < length arr" and "inn < length arr" and "(inn + 1) mod length arr \<noteq> out"
  shows "ring_items (arr[inn := x]) out ((inn + 1) mod length arr) = ring_items arr out inn @ [x]"
proof -
  let ?n = "length arr" and ?c = "ring_count (length arr) out inn"
  have lt: "?c < ?n"
    using assms(1) by (auto intro!: ring_count_less)
  have slot: "inn \<noteq> (out + k) mod ?n" if "k < ?c" for k
    using that lt assms(1,2) by (auto simp: ring_count_alt mod_once split: if_splits)
  have new: "(out + ?c) mod ?n = inn"
    using lt assms(1,2) by (auto simp: ring_count_alt mod_once split: if_splits)
  have "ring_items (arr[inn := x]) out ((inn + 1) mod ?n) =
        map (\<lambda>k. arr[inn := x] ! ((out + k) mod ?n)) [0..<Suc ?c]"
    using ring_count_push [OF assms] by (simp add: ring_items_def)
  also have "\<dots> = map (\<lambda>k. arr ! ((out + k) mod ?n)) [0..<?c] @ [x]"
    using slot new assms(2) by simp
  finally show ?thesis by (simp add: ring_items_def)
qed

lemma ring_items_pop:
  assumes "out < length arr" and "inn < length arr" and "inn \<noteq> out"
  shows "ring_items arr out inn = arr ! out # ring_items arr ((out + 1) mod length arr) inn"
proof -
  let ?n = "length arr"
  have shift: "(out + Suc k) mod ?n = ((out + 1) mod ?n + k) mod ?n" for k
    by (metis Suc_eq_plus1 add.assoc add.commute mod_add_left_eq)
  have "ring_items arr out inn =
        map (\<lambda>k. arr ! ((out + k) mod ?n)) [0..<Suc (ring_count ?n ((out + 1) mod ?n) inn)]"
    using ring_count_pop [OF assms] by (simp add: ring_items_def)
  also have "\<dots> = arr ! (out mod ?n) #
        map (\<lambda>k. arr ! ((out + Suc k) mod ?n)) [0..<ring_count ?n ((out + 1) mod ?n) inn]"
    by (simp only: upt_conv_Cons [OF zero_less_Suc] list.map map_Suc_upt [symmetric] map_map
        comp_def add_0_right One_nat_def)
  finally show ?thesis
    using assms(1) shift by (simp add: ring_items_def)
qed

section \<open>The contract of a bounded queue\<close>

locale fifo =
  fixes wf :: "'q \<Rightarrow> bool"
    and items :: "'q \<Rightarrow> 'a list"
    and push :: "'a \<Rightarrow> 'q \<Rightarrow> 'q"
    and pop :: "'q \<Rightarrow> 'a \<times> 'q"
    and full :: "'q \<Rightarrow> bool"
    and empty :: "'q \<Rightarrow> bool"
  assumes wf_push: "wf q \<Longrightarrow> \<not> full q \<Longrightarrow> wf (push x q)"
    and items_push: "wf q \<Longrightarrow> \<not> full q \<Longrightarrow> items (push x q) = items q @ [x]"
    and wf_pop: "wf q \<Longrightarrow> \<not> empty q \<Longrightarrow> wf (snd (pop q))"
    and items_pop: "wf q \<Longrightarrow> \<not> empty q \<Longrightarrow> items q = fst (pop q) # items (snd (pop q))"
    and empty_iff: "wf q \<Longrightarrow> empty q \<longleftrightarrow> items q = []"
begin

lemma push_not_empty: "wf q \<Longrightarrow> \<not> full q \<Longrightarrow> \<not> empty (push x q)"
  by (simp add: empty_iff wf_push items_push)

lemma pop_items: "wf q \<Longrightarrow> items q = x # xs \<Longrightarrow> fst (pop q) = x \<and> items (snd (pop q)) = xs"
  using empty_iff items_pop by fastforce

lemma wf_pops:
  assumes "wf q" and "k \<le> length (items q)"
  shows "wf (((snd \<circ> pop) ^^ k) q) \<and> items (((snd \<circ> pop) ^^ k) q) = drop k (items q)"
  using assms(2)
proof (induction k)
  case 0
  then show ?case using assms(1) by simp
next
  case (Suc k)
  let ?r = "((snd \<circ> pop) ^^ k) q"
  have "wf ?r \<and> items ?r = drop k (items q)"
    by (rule Suc.IH) (use Suc.prems in simp)
  then have r: "wf ?r" "items ?r = drop k (items q)"
    by blast+
  then have ne: "\<not> empty ?r"
    using Suc.prems by (simp add: empty_iff)
  have "items ?r = items q ! k # drop (Suc k) (items q)"
    using r(2) Suc.prems by (simp add: Cons_nth_drop_Suc)
  then have "items (snd (pop ?r)) = drop (Suc k) (items q)"
    using pop_items [OF r(1)] by blast
  with wf_pop [OF r(1) ne] show ?case
    by (simp add: comp_def)
qed

text \<open>Entries leave in the order they entered, and nothing but what entered leaves.\<close>

lemma pop_nth:
  assumes "wf q" and "k < length (items q)"
  shows "fst (pop (((snd \<circ> pop) ^^ k) q)) = items q ! k"
proof -
  have "wf (((snd \<circ> pop) ^^ k) q)" and "items (((snd \<circ> pop) ^^ k) q) = drop k (items q)"
    using wf_pops [OF assms(1)] assms(2) by simp_all
  then show ?thesis
    using pop_items assms(2) by (metis Cons_nth_drop_Suc)
qed

end

end
