(* ===== verification/EthDriver.thy ===== *)
theory EthDriver
  imports Ring
begin

text \<open>
  \<open>components/Ethdriver/src/ethdriver.c\<close>: one Ethernet device shared by several clients.

  Receive buffers are shared: each of the 256 entries of \<open>rx_bufs\<close> is in the free pool
  \<open>rx_buf_pool[0 .. num_rx_bufs)\<close>, in the receive queue of one client, or lent to the
  device driver. A pointer to \<open>rx_bufs[i]\<close> is the index \<open>i\<close>, and the DMA memory an
  entry points to is kept in the entry (\<open>eb_data\<close>).
  Transmit frames belong to a client: a pointer to \<open>clients[c].tx_mem[j]\<close> is the pair
  \<open>(c, j)\<close>; \<open>pending_tx[0 .. num_tx)\<close> are the free ones.

  The device driver (\<open>struct eth_driver\<close>, libethdrivers) and the connector functions
  (\<open>client_get_sender_id\<close>, \<open>client_has_mac\<close>, the DMA allocator) are not part of the
  repository: their answers are arguments of the operations. Packets written by a client are
  the contents of its \<open>dataport\<close>. \<open>client_emit\<close> is recorded in \<open>eth_emitted\<close>.
\<close>

section \<open>Data\<close>

abbreviation RX_BUFS :: nat where "RX_BUFS \<equiv> 256"
abbreviation CLIENT_RX_BUFS :: nat where "CLIENT_RX_BUFS \<equiv> 128"
abbreviation CLIENT_TX_BUFS :: nat where "CLIENT_TX_BUFS \<equiv> 128"
abbreviation BUF_SIZE :: nat where "BUF_SIZE \<equiv> 2048"

record eth_buf =
  eb_data :: "u8 list"
  eb_phys :: u64

record rx_frame =
  rxf_buf :: nat
  rxf_len :: u32
  rxf_client :: nat

record tx_frame =
  txf_buf :: eth_buf
  txf_len :: nat
  txf_client :: nat

type_synonym tx_ref = "nat \<times> nat"

record client =
  should_notify :: bool
  pending_rx_head :: nat
  pending_rx_tail :: nat
  pending_rx :: "rx_frame list"
  num_tx :: nat
  tx_mem :: "tx_frame list"
  pending_tx :: "tx_ref list"
  mac :: "u8 list"
  client_id :: u64
  dataport :: "u8 list"

record eth_state =
  eth_clients :: "client list"
  num_rx_bufs :: nat
  rx_bufs :: "eth_buf list"
  rx_buf_pool :: "nat list"
  done_init :: bool
  eth_emitted :: "u64 list"

text \<open>The codes of \<open>raw_tx\<close> (\<open>ethdrivers/raw.h\<close>); \<open>client_tx\<close> passes them on.\<close>

record ethif_codes =
  ETHIF_TX_FAILED :: int
  ETHIF_TX_ENQUEUED :: int
  ETHIF_TX_COMPLETE :: int

definition upd_client :: "nat \<Rightarrow> (client \<Rightarrow> client) \<Rightarrow> eth_state \<Rightarrow> eth_state" where
  "upd_client i f st = st\<lparr>eth_clients := (eth_clients st)[i := f (eth_clients st ! i)]\<rparr>"

section \<open>The receive queue of a client\<close>

definition rx_full :: "client \<Rightarrow> bool" where
  "rx_full c \<longleftrightarrow> (pending_rx_head c + 1) mod CLIENT_RX_BUFS = pending_rx_tail c"

definition rx_empty :: "client \<Rightarrow> bool" where
  "rx_empty c \<longleftrightarrow> pending_rx_head c = pending_rx_tail c"

definition rx_push :: "rx_frame \<Rightarrow> client \<Rightarrow> client" where
  "rx_push f c = c\<lparr>pending_rx := (pending_rx c)[pending_rx_head c := f],
                   pending_rx_head := (pending_rx_head c + 1) mod CLIENT_RX_BUFS\<rparr>"

definition rx_pop :: "client \<Rightarrow> rx_frame \<times> client" where
  "rx_pop c = (pending_rx c ! pending_rx_tail c,
               c\<lparr>pending_rx_tail := (pending_rx_tail c + 1) mod CLIENT_RX_BUFS\<rparr>)"

section \<open>Finding the client\<close>

text \<open>\<open>eth_get_client\<close>: the loop has no \<open>break\<close>, so the last match wins.\<close>

fun eth_get_client_loop :: "client list \<Rightarrow> nat \<Rightarrow> u64 \<Rightarrow> nat option \<Rightarrow> nat option" where
  "eth_get_client_loop [] i sender acc = acc"
| "eth_get_client_loop (c # cs) i sender acc =
     eth_get_client_loop cs (Suc i) sender (if client_id c = sender then Some i else acc)"

definition eth_get_client :: "u32 \<Rightarrow> eth_state \<Rightarrow> nat option" where
  "eth_get_client sender_id st =
     eth_get_client_loop (eth_clients st) 0 (scast sender_id) None"

text \<open>\<open>memcmp(a, buf, 6) == 0\<close>, for arrays of at least six bytes.\<close>

definition mac_matches :: "u8 list \<Rightarrow> u8 list \<Rightarrow> bool" where
  "mac_matches m buf \<longleftrightarrow> take 6 m = take 6 buf"

fun detect_client_loop :: "client list \<Rightarrow> nat \<Rightarrow> u8 list \<Rightarrow> nat option" where
  "detect_client_loop [] i buf = None"
| "detect_client_loop (c # cs) i buf =
     (if mac_matches (mac c) buf then Some i else detect_client_loop cs (Suc i) buf)"

definition detect_client :: "u8 list \<Rightarrow> u32 \<Rightarrow> eth_state \<Rightarrow> nat option" where
  "detect_client buf len st =
     (if len < 6 then None else detect_client_loop (eth_clients st) 0 buf)"

definition broadcast :: "u8 list" where
  "broadcast = replicate 6 0xff"

definition is_broadcast :: "u8 list \<Rightarrow> u32 \<Rightarrow> bool" where
  "is_broadcast buf len = (if len < 6 then False else mac_matches broadcast buf)"

text \<open>
  \<open>is_multicast\<close> gathers the destination address byte by byte into a \<open>uint32_t\<close> (the
  supported platforms are little endian) and tests the high nibble of its first byte.
\<close>

definition is_multicast :: "u8 list \<Rightarrow> u32 \<Rightarrow> bool" where
  "is_multicast buf len =
     (let eth_header_len = 14; ip_hdr_dest_offset = 16 in
      if len < of_nat (eth_header_len + ip_hdr_dest_offset + 4) then False
      else (let b = (\<lambda>i. ucast (buf ! (eth_header_len + ip_hdr_dest_offset + i)) :: u32);
                addr = b 0 OR push_bit 8 (b 1) OR push_bit 16 (b 2) OR push_bit 24 (b 3)
            in addr AND 0xf0 = 0xe0))"

section \<open>Callbacks of the device driver\<close>

definition eth_tx_complete :: "tx_ref \<Rightarrow> eth_state \<Rightarrow> eth_state outcome" where
  "eth_tx_complete buf st =
     obind (nth_ok (eth_clients st) (fst buf)) (\<lambda>owner.
     obind (nth_ok (tx_mem owner) (snd buf)) (\<lambda>frame.
     let i = txf_client frame in
     obind (nth_ok (eth_clients st) i) (\<lambda>client.
     obind (upd_ok (pending_tx client) (num_tx client) buf) (\<lambda>ptx.
       Inr (upd_client i (\<lambda>c. c\<lparr>pending_tx := ptx, num_tx := num_tx c + 1\<rparr>) st)))))"

text \<open>
  \<open>eth_allocate_rx_buf\<close>: the physical address (0 for failure), the cookie written through
  the out parameter, and the new state.
\<close>

definition eth_allocate_rx_buf :: "nat \<Rightarrow> eth_state \<Rightarrow> (u64 \<times> nat option \<times> eth_state) outcome" where
  "eth_allocate_rx_buf buf_size st =
     (if BUF_SIZE < buf_size then Inr (0, None, st)
      else if num_rx_bufs st = 0 then Inr (0, None, st)
      else
        let n = num_rx_bufs st - 1 in
        obind (nth_ok (rx_buf_pool st) n) (\<lambda>b.
        obind (nth_ok (rx_bufs st) b) (\<lambda>buf.
          Inr (eb_phys buf, Some b, st\<lparr>num_rx_bufs := n\<rparr>))))"

definition give_client_buf :: "nat \<Rightarrow> nat \<Rightarrow> u32 \<Rightarrow> eth_state \<Rightarrow> eth_state outcome" where
  "give_client_buf i buf len st =
     obind (nth_ok (eth_clients st) i) (\<lambda>client.
     obind (ensure (pending_rx_head client < length (pending_rx client)) OutOfBounds) (\<lambda>_.
     let st1 = upd_client i (rx_push \<lparr>rxf_buf = buf, rxf_len = len, rxf_client = 0\<rparr>) st in
     if should_notify client then
       Inr ((upd_client i (\<lambda>c. c\<lparr>should_notify := False\<rparr>) st1)
              \<lparr>eth_emitted := eth_emitted st1 @ [client_id client]\<rparr>)
     else Inr st1))"

text \<open>The \<open>error:\<close> label of \<open>eth_rx_complete\<close>: all buffers go back to the pool.\<close>

fun return_bufs :: "nat list \<Rightarrow> eth_state \<Rightarrow> eth_state outcome" where
  "return_bufs [] st = Inr st"
| "return_bufs (c # cs) st =
     obind (upd_ok (rx_buf_pool st) (num_rx_bufs st) c) (\<lambda>pool.
       return_bufs cs (st\<lparr>rx_buf_pool := pool, num_rx_bufs := num_rx_bufs st + 1\<rparr>))"

text \<open>The loop that duplicates a broadcast frame for the clients \<open>1 .. num_clients - 1\<close>.\<close>

fun duplicate_loop :: "nat list \<Rightarrow> nat \<Rightarrow> u32 \<Rightarrow> eth_state \<Rightarrow> eth_state outcome" where
  "duplicate_loop [] cur len st = Inr st"
| "duplicate_loop (i # is) cur len st =
     obind (nth_ok (eth_clients st) i) (\<lambda>client.
     if rx_full client then duplicate_loop is cur len st
     else
       obind (eth_allocate_rx_buf (unat len) st) (\<lambda>(phys, cookie, st1).
       case cookie of
         Some new_buf \<Rightarrow>
           if phys \<noteq> 0 then
             obind (nth_ok (rx_bufs st1) new_buf) (\<lambda>nb.
             obind (nth_ok (rx_bufs st1) cur) (\<lambda>cb.
             obind (memcpy (eb_data nb) (eb_data cb) (unat len)) (\<lambda>d.
             obind (give_client_buf i new_buf len
                      (st1\<lparr>rx_bufs := (rx_bufs st1)[new_buf := nb\<lparr>eb_data := d\<rparr>]\<rparr>)) (\<lambda>st2.
               duplicate_loop is cur len st2))))
           else duplicate_loop is cur len st1
       | None \<Rightarrow> duplicate_loop is cur len st1))"

text \<open>The tail of \<open>eth_rx_complete\<close>: hand the frame to one client, or give it back.\<close>

definition deliver :: "nat \<Rightarrow> nat \<Rightarrow> u32 \<Rightarrow> eth_state \<Rightarrow> eth_state outcome" where
  "deliver i cur len st =
     obind (nth_ok (eth_clients st) i) (\<lambda>client.
     if rx_full client then return_bufs [cur] st
     else give_client_buf i cur len st)"

definition eth_rx_complete :: "nat list \<Rightarrow> u32 list \<Rightarrow> eth_state \<Rightarrow> eth_state outcome" where
  "eth_rx_complete cookies lens st =
     (if length cookies \<noteq> 1 then return_bufs cookies st
      else
        let cur = cookies ! 0 in
        obind (nth_ok lens 0) (\<lambda>len.
        obind (nth_ok (rx_bufs st) cur) (\<lambda>curr_buf.
        case detect_client (eb_data curr_buf) len st of
          Some i \<Rightarrow> deliver i cur len st
        | None \<Rightarrow>
            if is_broadcast (eb_data curr_buf) len \<or> is_multicast (eb_data curr_buf) len then
              obind (duplicate_loop [1..<length (eth_clients st)] cur len st) (\<lambda>st1.
                deliver 0 cur len st1)
            else return_bufs cookies st)))"

section \<open>Remote procedures of the clients\<close>

definition client_rx :: "u32 \<Rightarrow> eth_state \<Rightarrow> (int \<times> u32 option \<times> eth_state) outcome" where
  "client_rx sender st =
     (if \<not> done_init st then Inr (-1, None, st)
      else case eth_get_client sender st of
        None \<Rightarrow> Inl AssertionFailed
      | Some i \<Rightarrow>
          let client = eth_clients st ! i in
          if rx_empty client then
            Inr (-1, None, upd_client i (\<lambda>c. c\<lparr>should_notify := True\<rparr>) st)
          else
            obind (ensure (pending_rx_tail client < length (pending_rx client)) OutOfBounds) (\<lambda>_.
            let (rx, client1) = rx_pop client in
            obind (nth_ok (rx_bufs st) (rxf_buf rx)) (\<lambda>buf.
            obind (memcpy (dataport client1) (eb_data buf) (unat (rxf_len rx))) (\<lambda>packet.
            let client2 = client1\<lparr>dataport := packet\<rparr>;
                last = rx_empty client2;
                client3 = (if last then client2\<lparr>should_notify := True\<rparr> else client2);
                ret = (if last then 0 else 1)
            in obind (upd_ok (rx_buf_pool st) (num_rx_bufs st) (rxf_buf rx)) (\<lambda>pool.
                 Inr (ret, Some (rxf_len rx),
                   st\<lparr>eth_clients := (eth_clients st)[i := client3],
                      rx_buf_pool := pool, num_rx_bufs := num_rx_bufs st + 1\<rparr>))))))"

text \<open>
  \<open>raw_tx\<close> answers with a code; while it runs it may report frames that the device has
  finished with (\<open>eth_tx_complete\<close>), which is the argument \<open>completed\<close>.
\<close>

fun tx_completions :: "tx_ref list \<Rightarrow> eth_state \<Rightarrow> eth_state outcome" where
  "tx_completions [] st = Inr st"
| "tx_completions (b # bs) st = obind (eth_tx_complete b st) (tx_completions bs)"

text \<open>
  The six bytes at offset 6 of a frame are overwritten by the client's own address.
\<close>

definition set_source_mac :: "u8 list \<Rightarrow> u8 list \<Rightarrow> u8 list" where
  "set_source_mac m data = take 6 data @ take 6 m @ drop 12 data"

definition client_tx ::
    "ethif_codes \<Rightarrow> u32 \<Rightarrow> int \<Rightarrow> tx_ref list \<Rightarrow> int \<Rightarrow> eth_state \<Rightarrow>
     (int \<times> (tx_ref \<times> nat) option \<times> eth_state) outcome" where
  "client_tx codes sender len completed answer st =
     (if \<not> done_init st then Inr (-1, None, st)
      else
        let len = (if int BUF_SIZE < len then int BUF_SIZE else len) in
        if len < 12 then Inr (-1, None, st)
        else case eth_get_client sender st of
          None \<Rightarrow> Inl AssertionFailed
        | Some i \<Rightarrow>
            let client = eth_clients st ! i in
            if num_tx client \<noteq> 0 then
              let n = num_tx client - 1 in
              obind (nth_ok (pending_tx client) n) (\<lambda>ref.
              obind (nth_ok (eth_clients st) (fst ref)) (\<lambda>owner.
              obind (nth_ok (tx_mem owner) (snd ref)) (\<lambda>tx_buf.
              obind (memcpy (eb_data (txf_buf tx_buf)) (dataport client) (nat len)) (\<lambda>d.
              let buf = (txf_buf tx_buf)\<lparr>eb_data := set_source_mac (mac client) d\<rparr>;
                  st1 = upd_client i (\<lambda>c. c\<lparr>num_tx := n\<rparr>) st;
                  st2 = upd_client (fst ref)
                          (\<lambda>c. c\<lparr>tx_mem := (tx_mem c)[snd ref := tx_buf\<lparr>txf_buf := buf\<rparr>]\<rparr>) st1
              in obind (tx_completions completed st2) (\<lambda>st3.
                 if answer \<noteq> ETHIF_TX_ENQUEUED codes then
                   Inr (answer, Some (ref, nat len),
                     upd_client i (\<lambda>c. c\<lparr>num_tx := num_tx c + 1\<rparr>) st3)
                 else Inr (answer, Some (ref, nat len), st3))))))
            else Inr (ETHIF_TX_COMPLETE codes, None, st))"

definition client_mac :: "u32 \<Rightarrow> eth_state \<Rightarrow> u8 list outcome" where
  "client_mac sender st =
     (case eth_get_client sender st of
        None \<Rightarrow> Inl AssertionFailed
      | Some i \<Rightarrow>
          obind (ensure (done_init st) AssertionFailed) (\<lambda>_.
            Inr (map (\<lambda>k. mac (eth_clients st ! i) ! k) [0..<6])))"

section \<open>Initialisation\<close>

text \<open>
  What \<open>server_init\<close> obtains from outside: the physical address of each DMA buffer
  (\<open>None\<close> when both attempts of \<open>ps_dma_alloc\<close> fail), the badge, dataport and
  configured address of each client, and the address of the device.
\<close>

record client_config =
  cfg_badge :: u32
  cfg_dataport :: "u8 list"
  cfg_tx_dma :: "u64 option list"
  cfg_mac :: "u8 list option"

record eth_config =
  cfg_found :: bool
  cfg_rx_dma :: "u64 option list"
  cfg_clients :: "client_config list"
  cfg_hw_mac :: "u8 list"

definition eth_static :: eth_state where
  "eth_static =
     \<lparr>eth_clients = [], num_rx_bufs = 0,
      rx_bufs = replicate RX_BUFS \<lparr>eb_data = [], eb_phys = 0\<rparr>,
      rx_buf_pool = replicate RX_BUFS 0, done_init = False, eth_emitted = []\<rparr>"

text \<open>A fresh zeroed DMA buffer; \<open>assert(buf)\<close> when there is none.\<close>

definition dma_buf :: "u64 option \<Rightarrow> eth_buf outcome" where
  "dma_buf a = (case a of None \<Rightarrow> Inl AssertionFailed
     | Some phys \<Rightarrow> Inr \<lparr>eb_data = replicate BUF_SIZE 0, eb_phys = phys\<rparr>)"

fun init_rx_bufs :: "u64 option list \<Rightarrow> eth_state \<Rightarrow> eth_state outcome" where
  "init_rx_bufs [] st = Inr st"
| "init_rx_bufs (a # as) st =
     obind (dma_buf a) (\<lambda>buf.
     obind (upd_ok (rx_bufs st) (num_rx_bufs st) buf) (\<lambda>bufs.
     obind (upd_ok (rx_buf_pool st) (num_rx_bufs st) (num_rx_bufs st)) (\<lambda>pool.
       init_rx_bufs as (st\<lparr>rx_bufs := bufs, rx_buf_pool := pool,
                           num_rx_bufs := num_rx_bufs st + 1\<rparr>))))"

definition null_tx_frame :: tx_frame where
  "null_tx_frame = \<lparr>txf_buf = \<lparr>eb_data = [], eb_phys = 0\<rparr>, txf_len = 0, txf_client = 0\<rparr>"

definition null_client :: client where
  "null_client =
     \<lparr>should_notify = False, pending_rx_head = 0, pending_rx_tail = 0,
      pending_rx = replicate CLIENT_RX_BUFS \<lparr>rxf_buf = 0, rxf_len = 0, rxf_client = 0\<rparr>,
      num_tx = 0, tx_mem = replicate CLIENT_TX_BUFS null_tx_frame,
      pending_tx = replicate CLIENT_TX_BUFS (0, 0), mac = replicate 6 0, client_id = 0,
      dataport = []\<rparr>"

fun init_tx_bufs :: "nat \<Rightarrow> u64 option list \<Rightarrow> client \<Rightarrow> client outcome" where
  "init_tx_bufs k [] c = Inr c"
| "init_tx_bufs k (a # as) c =
     obind (dma_buf a) (\<lambda>buf.
     obind (upd_ok (tx_mem c) (num_tx c)
              \<lparr>txf_buf = buf, txf_len = BUF_SIZE, txf_client = k\<rparr>) (\<lambda>mem.
     obind (upd_ok (pending_tx c) (num_tx c) (k, num_tx c)) (\<lambda>ptx.
       init_tx_bufs k as (c\<lparr>tx_mem := mem, pending_tx := ptx, num_tx := num_tx c + 1\<rparr>))))"

fun init_clients :: "nat \<Rightarrow> client_config list \<Rightarrow> client list outcome" where
  "init_clients k [] = Inr []"
| "init_clients k (cfg # cfgs) =
     obind (init_tx_bufs k (cfg_tx_dma cfg)
        (null_client\<lparr>should_notify := True, client_id := ucast (cfg_badge cfg),
                     dataport := cfg_dataport cfg\<rparr>)) (\<lambda>c.
     obind (init_clients (Suc k) cfgs) (\<lambda>cs. Inr (c # cs)))"

fun init_macs :: "u8 list \<Rightarrow> nat \<Rightarrow> client_config list \<Rightarrow> client list \<Rightarrow> client list outcome" where
  "init_macs hw num_defaults (cfg # cfgs) (c # cs) =
     (case cfg_mac cfg of
        Some m \<Rightarrow>
          obind (memcpy (mac c) m (length m)) (\<lambda>m'.
          obind (init_macs hw num_defaults cfgs cs) (\<lambda>cs'. Inr (c\<lparr>mac := m'\<rparr> # cs')))
      | None \<Rightarrow>
          obind (memcpy (mac c) hw 6) (\<lambda>m'.
          obind (ensure (\<not> 1 < num_defaults + 1) Fatal) (\<lambda>_.
          obind (init_macs hw (num_defaults + 1) cfgs cs) (\<lambda>cs'. Inr (c\<lparr>mac := m'\<rparr> # cs')))))"
| "init_macs hw num_defaults cfgs cs = Inr cs"

text \<open>\<open>poll\<close> stands for \<open>raw_poll\<close>, which runs callbacks of this component.\<close>

definition server_init ::
    "eth_config \<Rightarrow> (eth_state \<Rightarrow> eth_state outcome) \<Rightarrow> eth_state outcome" where
  "server_init cfg poll =
     obind (ensure (cfg_found cfg) Fatal) (\<lambda>_.
     obind (init_rx_bufs (cfg_rx_dma cfg) eth_static) (\<lambda>st.
     obind (init_clients 0 (cfg_clients cfg)) (\<lambda>cs.
     obind (poll (st\<lparr>eth_clients := cs\<rparr>)) (\<lambda>st1.
     obind (init_macs (cfg_hw_mac cfg) 0 (cfg_clients cfg) (eth_clients st1)) (\<lambda>cs1.
       Inr (st1\<lparr>eth_clients := cs1, done_init := True\<rparr>))))))"

section \<open>The receive queues are FIFO queues\<close>

definition rxq_wf :: "client \<Rightarrow> bool" where
  "rxq_wf c \<longleftrightarrow> length (pending_rx c) = CLIENT_RX_BUFS \<and>
     pending_rx_head c < CLIENT_RX_BUFS \<and> pending_rx_tail c < CLIENT_RX_BUFS"

definition rxq_items :: "client \<Rightarrow> rx_frame list" where
  "rxq_items c = ring_items (pending_rx c) (pending_rx_tail c) (pending_rx_head c)"

interpretation rxq: fifo rxq_wf rxq_items rx_push rx_pop rx_full rx_empty
proof unfold_locales
  fix c :: client and f
  assume wf: "rxq_wf c"
  show "rx_empty c \<longleftrightarrow> rxq_items c = []"
    using wf by (auto simp: rxq_wf_def rx_empty_def rxq_items_def ring_items_Nil_iff)
  show "rxq_wf (rx_push f c)" 
    using wf by (simp add: rxq_wf_def rx_push_def)
  show "rxq_wf (snd (rx_pop c))"
    using wf by (simp add: rxq_wf_def rx_pop_def)
  show "rxq_items (rx_push f c) = rxq_items c @ [f]" if "\<not> rx_full c"
    using wf that ring_items_push [of "pending_rx_tail c" "pending_rx c" "pending_rx_head c" f]
    by (simp add: rxq_wf_def rxq_items_def rx_push_def rx_full_def)
  show "rxq_items c = fst (rx_pop c) # rxq_items (snd (rx_pop c))" if "\<not> rx_empty c"
    using wf that ring_items_pop [of "pending_rx_tail c" "pending_rx c" "pending_rx_head c"]
    by (simp add: rxq_wf_def rxq_items_def rx_pop_def rx_empty_def)
qed

lemma rx_pop_fields [simp]:
  "should_notify (snd (rx_pop c)) = should_notify c" "num_tx (snd (rx_pop c)) = num_tx c"
  "tx_mem (snd (rx_pop c)) = tx_mem c" "pending_tx (snd (rx_pop c)) = pending_tx c"
  "mac (snd (rx_pop c)) = mac c" "client_id (snd (rx_pop c)) = client_id c"
  "dataport (snd (rx_pop c)) = dataport c"
  by (simp_all add: rx_pop_def)

lemma rx_push_fields [simp]:
  "should_notify (rx_push f c) = should_notify c" "num_tx (rx_push f c) = num_tx c"
  "tx_mem (rx_push f c) = tx_mem c" "pending_tx (rx_push f c) = pending_tx c"
  "mac (rx_push f c) = mac c" "client_id (rx_push f c) = client_id c"
  "dataport (rx_push f c) = dataport c"
  by (simp_all add: rx_push_def)

lemma rxq_indep [simp]:
  "rxq_wf (c\<lparr>should_notify := b\<rparr>) = rxq_wf c" "rxq_wf (c\<lparr>num_tx := n\<rparr>) = rxq_wf c"
  "rxq_wf (c\<lparr>dataport := d\<rparr>) = rxq_wf c" "rxq_wf (c\<lparr>pending_tx := t\<rparr>) = rxq_wf c"
  "rxq_wf (c\<lparr>tx_mem := m\<rparr>) = rxq_wf c" "rxq_wf (c\<lparr>mac := a\<rparr>) = rxq_wf c"
  "rxq_items (c\<lparr>should_notify := b\<rparr>) = rxq_items c" "rxq_items (c\<lparr>num_tx := n\<rparr>) = rxq_items c"
  "rxq_items (c\<lparr>dataport := d\<rparr>) = rxq_items c" "rxq_items (c\<lparr>pending_tx := t\<rparr>) = rxq_items c"
  "rxq_items (c\<lparr>tx_mem := m\<rparr>) = rxq_items c" "rxq_items (c\<lparr>mac := a\<rparr>) = rxq_items c"
  by (simp_all add: rxq_wf_def rxq_items_def)

section \<open>Ownership of buffers\<close>

text \<open>
  \<open>client_ok txd i c\<close>: client number \<open>i\<close> is well formed, where \<open>txd\<close> are the transmit
  frames lent to the device. The flag \<open>should_notify\<close> is set exactly when the receive
  queue is empty, so a frame that arrives in an empty queue always wakes the client.
\<close>

definition client_ok :: "tx_ref multiset \<Rightarrow> nat \<Rightarrow> client \<Rightarrow> bool" where
  "client_ok txd i c \<longleftrightarrow>
     rxq_wf c \<and> (should_notify c \<longleftrightarrow> rxq_items c = []) \<and>
     (\<forall>f \<in> set (rxq_items c). unat (rxf_len f) \<le> BUF_SIZE) \<and>
     BUF_SIZE \<le> length (dataport c) \<and> length (mac c) = 6 \<and>
     length (tx_mem c) = CLIENT_TX_BUFS \<and> length (pending_tx c) = CLIENT_TX_BUFS \<and>
     num_tx c \<le> CLIENT_TX_BUFS \<and>
     (\<forall>t \<in> set (tx_mem c). txf_client t = i \<and> length (eb_data (txf_buf t)) = BUF_SIZE) \<and>
     mset (take (num_tx c) (pending_tx c)) + filter_mset (\<lambda>r. fst r = i) txd =
       mset (map (Pair i) [0..<CLIENT_TX_BUFS])"

definition queued_bufs :: "client list \<Rightarrow> nat multiset" where
  "queued_bufs cs = sum_list (map (\<lambda>c. mset (map rxf_buf (rxq_items c))) cs)"

text \<open>
  \<open>eth_inv st rxd txd\<close>: every receive buffer is in exactly one place (the pool, one
  client's queue, or \<open>rxd\<close>, the buffers lent to the device), and so is every transmit
  frame of every client.
\<close>

definition eth_inv :: "eth_state \<Rightarrow> nat multiset \<Rightarrow> tx_ref multiset \<Rightarrow> bool" where
  "eth_inv st rxd txd \<longleftrightarrow>
     eth_clients st \<noteq> [] \<and> length (rx_bufs st) = RX_BUFS \<and> length (rx_buf_pool st) = RX_BUFS \<and>
     num_rx_bufs st \<le> RX_BUFS \<and>
     (\<forall>b \<in> set (rx_bufs st). length (eb_data b) = BUF_SIZE \<and> eb_phys b \<noteq> 0) \<and>
     (\<forall>i < length (eth_clients st). client_ok txd i (eth_clients st ! i)) \<and>
     (\<forall>r \<in># txd. fst r < length (eth_clients st)) \<and>
     mset (take (num_rx_bufs st) (rx_buf_pool st)) + queued_bufs (eth_clients st) + rxd =
       mset [0..<RX_BUFS]"

subsection \<open>Bookkeeping lemmas\<close>

lemma queued_bufs_update:
  "i < length cs \<Longrightarrow>
   queued_bufs (cs[i := c]) + mset (map rxf_buf (rxq_items (cs ! i))) =
   queued_bufs cs + mset (map rxf_buf (rxq_items c))"
  unfolding queued_bufs_def by (rule sum_list_update_mset)

lemma eth_inv_ghost [simp]:
  "eth_inv (st\<lparr>eth_emitted := e\<rparr>) rxd txd = eth_inv st rxd txd"
  "eth_inv (st\<lparr>done_init := d\<rparr>) rxd txd = eth_inv st rxd txd"
  by (simp_all add: eth_inv_def)

lemma eth_inv_clientD:
  "eth_inv st rxd txd \<Longrightarrow> i < length (eth_clients st) \<Longrightarrow> client_ok txd i (eth_clients st ! i)"
  by (simp add: eth_inv_def)

text \<open>Replacing one client, when its new queue and the lent buffers balance the old ones.\<close>

lemma eth_inv_set_client:
  assumes inv: "eth_inv st rxd txd" and i: "i < length (eth_clients st)"
    and ok: "client_ok txd i c"
    and bal: "mset (map rxf_buf (rxq_items c)) + rxd' =
              mset (map rxf_buf (rxq_items (eth_clients st ! i))) + rxd"
  shows "eth_inv (st\<lparr>eth_clients := (eth_clients st)[i := c]\<rparr>) rxd' txd"
proof -
  let ?cs = "eth_clients st" and ?P = "mset (take (num_rx_bufs st) (rx_buf_pool st))"
  let ?old = "mset (map rxf_buf (rxq_items (?cs ! i)))" and ?new = "mset (map rxf_buf (rxq_items c))"
  have "(?P + queued_bufs (?cs[i := c]) + rxd') + ?old = ?P + rxd' + (queued_bufs ?cs + ?new)"
    using queued_bufs_update [OF i, of c] by (simp add: ac_simps)
  also have "\<dots> = (?P + queued_bufs ?cs + rxd) + ?old"
    using bal by (metis (no_types, lifting) union_assoc union_commute)
  finally have "?P + queued_bufs (?cs[i := c]) + rxd' = ?P + queued_bufs ?cs + rxd"
    by (rule add_right_imp_eq)
  also have "\<dots> = mset [0..<RX_BUFS]"
    using inv by (simp add: eth_inv_def)
  finally show ?thesis
    using inv ok i by (simp add: eth_inv_def nth_list_update)
qed

lemma eth_inv_set_buf:
  assumes "eth_inv st rxd txd" and "length (eb_data b) = BUF_SIZE" and "eb_phys b \<noteq> 0"
  shows "eth_inv (st\<lparr>rx_bufs := (rx_bufs st)[i := b]\<rparr>) rxd txd"
  using assms by (auto simp: eth_inv_def dest: set_update_subset_insert [THEN subsetD])

lemma in_bufs_less:
  assumes "eth_inv st rxd txd" and "b \<in># rxd"
  shows "b < RX_BUFS"
proof -
  have "b \<in># mset [0..<RX_BUFS]"
    using assms unfolding eth_inv_def by (metis union_iff)
  then show ?thesis by simp
qed

lemma lent_buf_data:
  assumes "eth_inv st rxd txd" and "b \<in># rxd"
  shows "b < length (rx_bufs st)" "length (eb_data (rx_bufs st ! b)) = BUF_SIZE"
    "eb_phys (rx_bufs st ! b) \<noteq> 0"
  using in_bufs_less [OF assms] assms(1) by (auto simp: eth_inv_def)

text \<open>While a buffer is out of the pool, the pool has room for it.\<close>

lemma pool_room:
  assumes "eth_inv st rxd txd" and "rxd \<noteq> {#}"
  shows "num_rx_bufs st < RX_BUFS"
proof -
  have "mset (take (num_rx_bufs st) (rx_buf_pool st)) + queued_bufs (eth_clients st) + rxd =
        mset [0..<RX_BUFS]"
    using assms(1) by (simp add: eth_inv_def)
  from arg_cong [OF this, of size]
  have "length (take (num_rx_bufs st) (rx_buf_pool st)) + size rxd \<le> RX_BUFS"
    by (simp add: size_mset)
  moreover have "0 < size rxd"
    using assms(2) by (simp add: nonempty_has_size)
  moreover have "num_rx_bufs st \<le> length (rx_buf_pool st)"
    using assms(1) by (simp add: eth_inv_def)
  ultimately show ?thesis by simp
qed

lemma should_notify_same: "\<not> should_notify c \<Longrightarrow> c\<lparr>should_notify := False\<rparr> = c"
  by simp

section \<open>Every operation keeps the ownership invariant and does not fault\<close>

lemma eth_allocate_rx_buf_ok:
  assumes inv: "eth_inv st rxd txd"
  shows "(\<exists>b. eth_allocate_rx_buf n st =
                Inr (eb_phys (rx_bufs st ! b), Some b, st\<lparr>num_rx_bufs := num_rx_bufs st - 1\<rparr>) \<and>
              n \<le> BUF_SIZE \<and> eb_phys (rx_bufs st ! b) \<noteq> 0 \<and>
              eth_inv (st\<lparr>num_rx_bufs := num_rx_bufs st - 1\<rparr>) (add_mset b rxd) txd) \<or>
         eth_allocate_rx_buf n st = Inr (0, None, st)"
proof (cases "n \<le> BUF_SIZE \<and> num_rx_bufs st \<noteq> 0")
  case False
  then show ?thesis by (auto simp: eth_allocate_rx_buf_def)
next
  case True
  let ?n = "num_rx_bufs st - 1" and ?st = "st\<lparr>num_rx_bufs := num_rx_bufs st - 1\<rparr>"
  let ?b = "rx_buf_pool st ! ?n"
  have len: "?n < length (rx_buf_pool st)" and suc: "num_rx_bufs st = Suc ?n"
    using inv True by (auto simp: eth_inv_def)
  have pool: "mset (take (num_rx_bufs st) (rx_buf_pool st)) =
              add_mset ?b (mset (take ?n (rx_buf_pool st)))"
    using mset_take_Suc [OF len] suc by simp
  have inv': "eth_inv ?st (add_mset ?b rxd) txd"
    using inv pool by (auto simp: eth_inv_def)
  have "?b < length (rx_bufs st)" and "eb_phys (rx_bufs st ! ?b) \<noteq> 0"
    using lent_buf_data [OF inv', of ?b] by simp_all
  then have "eth_allocate_rx_buf n st = Inr (eb_phys (rx_bufs st ! ?b), Some ?b, ?st)"
    using True len by (simp add: eth_allocate_rx_buf_def Let_def)
  with inv' True \<open>eb_phys (rx_bufs st ! ?b) \<noteq> 0\<close> show ?thesis by blast
qed

lemma return_bufs_ok:
  assumes "eth_inv st (mset bs + rxd) txd"
  shows "\<exists>st'. return_bufs bs st = Inr st' \<and> eth_inv st' rxd txd \<and>
               eth_clients st' = eth_clients st \<and> rx_bufs st' = rx_bufs st \<and>
               done_init st' = done_init st \<and> eth_emitted st' = eth_emitted st"
  using assms
proof (induction bs arbitrary: st)
  case Nil
  then show ?case by simp
next
  case (Cons b bs)
  let ?n = "num_rx_bufs st"
  let ?st = "st\<lparr>rx_buf_pool := (rx_buf_pool st)[?n := b], num_rx_bufs := ?n + 1\<rparr>"
  have room: "?n < length (rx_buf_pool st)"
    using pool_room [OF Cons.prems] Cons.prems by (simp add: eth_inv_def)
  have "eth_inv ?st (mset bs + rxd) txd"
    using Cons.prems room by (simp add: eth_inv_def take_Suc_update)
  from Cons.IH [OF this] room show ?case by simp
qed

lemma give_client_buf_ok:
  assumes inv: "eth_inv st (add_mset b rxd) txd" and i: "i < length (eth_clients st)"
    and nf: "\<not> rx_full (eth_clients st ! i)" and len: "unat len \<le> BUF_SIZE"
  shows "\<exists>c'. give_client_buf i b len st =
      Inr (st\<lparr>eth_clients := (eth_clients st)[i := c'],
              eth_emitted := eth_emitted st @
                (if rxq_items (eth_clients st ! i) = [] then [client_id (eth_clients st ! i)] else [])\<rparr>) \<and>
      rxq_items c' = rxq_items (eth_clients st ! i) @ [\<lparr>rxf_buf = b, rxf_len = len, rxf_client = 0\<rparr>] \<and>
      client_ok txd i c' \<and> client_id c' = client_id (eth_clients st ! i) \<and>
      eth_inv (st\<lparr>eth_clients := (eth_clients st)[i := c']\<rparr>) rxd txd"
proof -
  let ?c = "eth_clients st ! i" and ?f = "\<lparr>rxf_buf = b, rxf_len = len, rxf_client = 0\<rparr>"
  let ?c' = "(rx_push ?f ?c)\<lparr>should_notify := False\<rparr>"
  note ok = eth_inv_clientD [OF inv i]
  have wf: "rxq_wf ?c" and sn: "should_notify ?c \<longleftrightarrow> rxq_items ?c = []"
    using ok by (auto simp: client_ok_def)
  have items: "rxq_items ?c' = rxq_items ?c @ [?f]"
    using rxq.items_push [OF wf nf] by simp
  have ok': "client_ok txd i ?c'"
    using ok len items rxq.wf_push [OF wf nf] by (auto simp: client_ok_def)
  have run: "give_client_buf i b len st =
      Inr (st\<lparr>eth_clients := (eth_clients st)[i := ?c'],
              eth_emitted := eth_emitted st @ (if rxq_items ?c = [] then [client_id ?c] else [])\<rparr>)"
    using wf i sn
    by (auto simp: give_client_buf_def upd_client_def rxq_wf_def should_notify_same)
  have "eth_inv (st\<lparr>eth_clients := (eth_clients st)[i := ?c']\<rparr>) rxd txd"
    by (rule eth_inv_set_client [OF inv i ok']) (simp add: rxq.items_push [OF wf nf])
  then show ?thesis
    by (intro exI [of _ ?c'] conjI run items ok') simp
qed

text \<open>
  \<open>frames_kept\<close>: no buffer that is queued or lent changes its contents.
  \<open>got_frame\<close>: client \<open>k\<close> has one more frame, whose bytes are those of buffer \<open>cur\<close>.
\<close>

definition frames_kept :: "nat multiset \<Rightarrow> eth_state \<Rightarrow> eth_state \<Rightarrow> bool" where
  "frames_kept rxd st st' \<longleftrightarrow>
     (\<forall>b \<in># rxd + queued_bufs (eth_clients st). rx_bufs st' ! b = rx_bufs st ! b)"

definition got_frame :: "nat \<Rightarrow> u32 \<Rightarrow> eth_state \<Rightarrow> eth_state \<Rightarrow> nat \<Rightarrow> bool" where
  "got_frame cur len st st' k \<longleftrightarrow>
     (\<exists>b. rxq_items (eth_clients st' ! k) =
            rxq_items (eth_clients st ! k) @ [\<lparr>rxf_buf = b, rxf_len = len, rxf_client = 0\<rparr>] \<and>
          take (unat len) (eb_data (rx_bufs st' ! b)) =
            take (unat len) (eb_data (rx_bufs st ! cur)))"

lemma queued_bufs_member:
  "i < length cs \<Longrightarrow> b \<in> rxf_buf ` set (rxq_items (cs ! i)) \<Longrightarrow> b \<in># queued_bufs cs"
  by (auto simp: queued_bufs_def set_mset_sum_list intro!: bexI [of _ "cs ! i"])

lemma queued_bufs_memberE:
  assumes "b \<in># queued_bufs cs"
  obtains k where "k < length cs" and "b \<in> rxf_buf ` set (rxq_items (cs ! k))"
proof -
  from assms obtain c where "c \<in> set cs" and b: "b \<in> rxf_buf ` set (rxq_items c)"
    by (auto simp: queued_bufs_def set_mset_sum_list)
  then obtain k where "k < length cs" and "c = cs ! k"
    by (auto simp: in_set_conv_nth)
  with b that show thesis by blast
qed

lemma queued_bufs_mono:
  assumes "i < length cs" and "rxq_items c = rxq_items (cs ! i) @ [f]"
  shows "queued_bufs (cs[i := c]) = add_mset (rxf_buf f) (queued_bufs cs)"
  using queued_bufs_update [OF assms(1), of c] assms(2) by simp

lemma add_mset_lent_diff:
  "eth_inv st (add_mset b rxd) txd \<Longrightarrow> x \<in># rxd + queued_bufs (eth_clients st) \<Longrightarrow> x \<noteq> b"
proof
  assume inv: "eth_inv st (add_mset b rxd) txd"
    and x: "x \<in># rxd + queued_bufs (eth_clients st)" and "x = b"
  define P where "P = mset (take (num_rx_bufs st) (rx_buf_pool st))"
  have eq: "P + queued_bufs (eth_clients st) + add_mset b rxd = mset [0..<RX_BUFS]"
    using inv by (simp add: eth_inv_def P_def)
  have "count (P + queued_bufs (eth_clients st) + add_mset b rxd) b \<ge> 2"
    using x \<open>x = b\<close> by (auto simp: not_in_iff Suc_le_eq)
  moreover have "count (mset [0..<RX_BUFS]) b \<le> 1"
    by (simp add: count_mset_set')
  ultimately show False by (simp only: eq)
qed

definition dup_post :: "nat \<Rightarrow> u32 \<Rightarrow> nat multiset \<Rightarrow> nat set \<Rightarrow> eth_state \<Rightarrow> eth_state \<Rightarrow> bool" where
  "dup_post cur len rxd S st st' \<longleftrightarrow>
     length (eth_clients st') = length (eth_clients st) \<and> done_init st' = done_init st \<and>
     frames_kept rxd st st' \<and>
     (\<forall>k < length (eth_clients st).
        eth_clients st' ! k = eth_clients st ! k \<or> (k \<in> S \<and> got_frame cur len st st' k))"

lemma dup_post_refl: "dup_post cur len rxd S st st"
  by (simp add: dup_post_def frames_kept_def)

lemma duplicate_copy:
  assumes inv: "eth_inv st (add_mset b rxd) txd" and cur: "cur \<in># rxd"
    and i: "i < length (eth_clients st)" and nf: "\<not> rx_full (eth_clients st ! i)"
    and len: "unat len \<le> BUF_SIZE"
  shows "\<exists>d st1. memcpy (eb_data (rx_bufs st ! b)) (eb_data (rx_bufs st ! cur)) (unat len) = Inr d \<and>
    give_client_buf i b len (st\<lparr>rx_bufs := (rx_bufs st)[b := (rx_bufs st ! b)\<lparr>eb_data := d\<rparr>]\<rparr>) = Inr st1 \<and>
    eth_inv st1 rxd txd \<and> dup_post cur len rxd {i} st st1 \<and>
    num_rx_bufs st1 = num_rx_bufs st \<and> got_frame cur len st st1 i"
proof -
  have cur': "cur \<in># add_mset b rxd" using cur by simp
  note nb = lent_buf_data [OF inv, of b, simplified] and cb = lent_buf_data [OF inv cur']
  define d where "d = take (unat len) (eb_data (rx_bufs st ! cur)) @ drop (unat len) (eb_data (rx_bufs st ! b))"
  have md: "memcpy (eb_data (rx_bufs st ! b)) (eb_data (rx_bufs st ! cur)) (unat len) = Inr d"
    using nb cb len by (simp add: d_def)
  have ld: "length d = BUF_SIZE"
    using length_memcpy [OF md] nb(2) by simp
  have tk: "take (unat len) d = take (unat len) (eb_data (rx_bufs st ! cur))"
    using cb(2) len by (simp add: d_def)
  let ?st = "st\<lparr>rx_bufs := (rx_bufs st)[b := (rx_bufs st ! b)\<lparr>eb_data := d\<rparr>]\<rparr>"
  have inv': "eth_inv ?st (add_mset b rxd) txd"
    using eth_inv_set_buf [OF inv] ld nb(3) by simp
  obtain c' where
      give: "give_client_buf i b len ?st =
        Inr (?st\<lparr>eth_clients := (eth_clients ?st)[i := c'], eth_emitted := eth_emitted ?st @
          (if rxq_items (eth_clients ?st ! i) = [] then [client_id (eth_clients ?st ! i)] else [])\<rparr>)"
      and items: "rxq_items c' = rxq_items (eth_clients ?st ! i) @ [\<lparr>rxf_buf = b, rxf_len = len, rxf_client = 0\<rparr>]"
      and inv1: "eth_inv (?st\<lparr>eth_clients := (eth_clients ?st)[i := c']\<rparr>) rxd txd"
    using give_client_buf_ok [OF inv', of i len] i nf len by auto
  have fresh: "x \<noteq> b" if "x \<in># rxd + queued_bufs (eth_clients st)" for x
    using add_mset_lent_diff [OF inv] that by blast
  define st1 where "st1 = ?st\<lparr>eth_clients := (eth_clients ?st)[i := c'], eth_emitted := eth_emitted ?st @
          (if rxq_items (eth_clients ?st ! i) = [] then [client_id (eth_clients ?st ! i)] else [])\<rparr>"
  have got: "got_frame cur len st st1 i"
    unfolding got_frame_def using items i nb(1) tk by (intro exI [of _ b]) (simp add: st1_def)
  have "frames_kept rxd st st1"
    unfolding frames_kept_def
  proof
    fix x assume "x \<in># rxd + queued_bufs (eth_clients st)"
    then have "b \<noteq> x" using fresh by blast
    then show "rx_bufs st1 ! x = rx_bufs st ! x" by (simp add: st1_def)
  qed
  then have "dup_post cur len rxd {i} st st1"
    using i got by (auto simp: dup_post_def st1_def nth_list_update)
  moreover have "num_rx_bufs st1 = num_rx_bufs st" by (simp add: st1_def)
  moreover have "eth_inv st1 rxd txd"
    using inv1 by (simp add: st1_def)
  ultimately show ?thesis
    using md give got unfolding st1_def by blast
qed

lemma duplicate_step:
  assumes inv: "eth_inv st rxd txd" and cur: "cur \<in># rxd"
    and i: "i < length (eth_clients st)" and len: "unat len \<le> BUF_SIZE"
  shows "\<exists>st1. duplicate_loop (i # is) cur len st = duplicate_loop is cur len st1 \<and>
               eth_inv st1 rxd txd \<and> dup_post cur len rxd {i} st st1 \<and>
               num_rx_bufs st - 1 \<le> num_rx_bufs st1 \<and>
               (0 < num_rx_bufs st \<and> \<not> rx_full (eth_clients st ! i) \<longrightarrow> got_frame cur len st st1 i)"
proof (cases "rx_full (eth_clients st ! i)")
  case True
  then show ?thesis using i inv dup_post_refl by auto
next
  case False
  let ?st = "st\<lparr>num_rx_bufs := num_rx_bufs st - 1\<rparr>"
  consider (none) "eth_allocate_rx_buf (unat len) st = Inr (0, None, st)"
    | (some) b where "eth_allocate_rx_buf (unat len) st = Inr (eb_phys (rx_bufs st ! b), Some b, ?st)"
        "eb_phys (rx_bufs st ! b) \<noteq> 0" "eth_inv ?st (add_mset b rxd) txd"
    using eth_allocate_rx_buf_ok [OF inv, of "unat len"] by blast
  then show ?thesis
  proof cases
    case none
    then have "num_rx_bufs st = 0"
      using len by (auto simp: eth_allocate_rx_buf_def Let_def obind_eq_Inr split: if_splits)
    with none show ?thesis using False i inv dup_post_refl by auto
  next
    case some
    from duplicate_copy [OF some(3) cur, of i len] False i len obtain d st1 where
      r: "memcpy (eb_data (rx_bufs ?st ! b)) (eb_data (rx_bufs ?st ! cur)) (unat len) = Inr d"
        "give_client_buf i b len (?st\<lparr>rx_bufs := (rx_bufs ?st)[b := (rx_bufs ?st ! b)\<lparr>eb_data := d\<rparr>]\<rparr>) = Inr st1"
      and post: "eth_inv st1 rxd txd" "dup_post cur len rxd {i} ?st st1"
        "num_rx_bufs st1 = num_rx_bufs ?st" "got_frame cur len ?st st1 i"
      by auto
    have "b < length (rx_bufs ?st)" "cur < length (rx_bufs ?st)"
      using lent_buf_data(1) [OF some(3)] cur by simp_all
    then have "duplicate_loop (i # is) cur len st = duplicate_loop is cur len st1"
      using some(1,2) False i r by simp
    moreover have "dup_post cur len rxd {i} st st1"
      using post(2) by (simp add: dup_post_def frames_kept_def got_frame_def)
    moreover have "got_frame cur len st st1 i"
      using post(4) by (simp add: got_frame_def)
    ultimately show ?thesis using post(1,3) by auto
  qed
qed

lemma dup_post_trans:
  assumes p: "dup_post cur len rxd {i} st st1" and q: "dup_post cur len rxd S st1 st2"
    and cur: "cur \<in># rxd" and iS: "i \<notin> S"
    and keep: "\<And>b. b \<in># queued_bufs (eth_clients st) \<Longrightarrow> b \<in># queued_bufs (eth_clients st1)"
  shows "dup_post cur len rxd (insert i S) st st2"
proof -
  have fk: "frames_kept rxd st st1" "frames_kept rxd st1 st2"
    and n: "length (eth_clients st1) = length (eth_clients st)"
      "length (eth_clients st2) = length (eth_clients st)"
    using p q by (simp_all add: dup_post_def)
  have "frames_kept rxd st st2"
    using fk keep unfolding frames_kept_def by (metis union_iff)
  moreover have "eth_clients st2 ! k = eth_clients st ! k \<or> (k \<in> insert i S \<and> got_frame cur len st st2 k)"
    if k: "k < length (eth_clients st)" for k
  proof -
    have 1: "eth_clients st1 ! k = eth_clients st ! k \<or> (k = i \<and> got_frame cur len st st1 k)"
      using p k by (auto simp: dup_post_def)
    have 2: "eth_clients st2 ! k = eth_clients st1 ! k \<or> (k \<in> S \<and> got_frame cur len st1 st2 k)"
      using q k n by (auto simp: dup_post_def)
    have curk: "rx_bufs st1 ! cur = rx_bufs st ! cur"
      using fk(1) cur by (auto simp: frames_kept_def)
    show ?thesis
    proof (cases "k = i")
      case True
      then have same: "eth_clients st2 ! k = eth_clients st1 ! k" using 2 iS by auto
      show ?thesis
      proof (cases "eth_clients st1 ! k = eth_clients st ! k")
        case True
        with same show ?thesis by simp
      next
        case False
        then have "got_frame cur len st st1 k" using 1 by blast
        then obtain b where b: "rxq_items (eth_clients st1 ! k) = rxq_items (eth_clients st ! k) @
              [\<lparr>rxf_buf = b, rxf_len = len, rxf_client = 0\<rparr>]"
            "take (unat len) (eb_data (rx_bufs st1 ! b)) = take (unat len) (eb_data (rx_bufs st ! cur))"
          by (auto simp: got_frame_def)
        have "b \<in># queued_bufs (eth_clients st1)"
          using queued_bufs_member [of k "eth_clients st1" b] k n b(1) by auto
        then have "rx_bufs st2 ! b = rx_bufs st1 ! b"
          using fk(2) by (auto simp: frames_kept_def)
        then show ?thesis using same b True by (auto simp: got_frame_def)
      qed
    next
      case False
      then show ?thesis using 1 2 curk by (auto simp: got_frame_def)
    qed
  qed
  ultimately show ?thesis using p q n by (simp add: dup_post_def)
qed

lemma dup_post_queued:
  assumes "dup_post cur len rxd S st st1" and "b \<in># queued_bufs (eth_clients st)"
  shows "b \<in># queued_bufs (eth_clients st1)"
proof -
  from assms(2) obtain k where k: "k < length (eth_clients st)"
      "b \<in> rxf_buf ` set (rxq_items (eth_clients st ! k))"
    by (rule queued_bufs_memberE)
  then have "b \<in> rxf_buf ` set (rxq_items (eth_clients st1 ! k))"
    using assms(1) by (force simp: dup_post_def got_frame_def)
  then show ?thesis
    using k(1) assms(1) by (intro queued_bufs_member) (simp_all add: dup_post_def)
qed

lemma got_frame_changed: "got_frame cur len st st' k \<Longrightarrow> eth_clients st' ! k \<noteq> eth_clients st ! k"
  by (auto simp: got_frame_def)

lemma duplicate_loop_ok:
  assumes "eth_inv st rxd txd" and "cur \<in># rxd" and "unat len \<le> BUF_SIZE"
    and "\<forall>i \<in> set is. i < length (eth_clients st)" and "distinct is"
  shows "\<exists>st'. duplicate_loop is cur len st = Inr st' \<and> eth_inv st' rxd txd \<and>
               dup_post cur len rxd (set is) st st' \<and>
               (length is \<le> num_rx_bufs st \<longrightarrow> (\<forall>k \<in> set is. \<not> rx_full (eth_clients st ! k) \<longrightarrow>
                  got_frame cur len st st' k))"
  using assms
proof (induction "is" arbitrary: st)
  case Nil
  then show ?case using dup_post_refl by auto
next
  case (Cons i "is")
  from duplicate_step [OF Cons.prems(1,2), of i len "is"] Cons.prems(3,4) obtain st1 where
    s: "duplicate_loop (i # is) cur len st = duplicate_loop is cur len st1"
      "eth_inv st1 rxd txd" "dup_post cur len rxd {i} st st1" "num_rx_bufs st - 1 \<le> num_rx_bufs st1"
      "0 < num_rx_bufs st \<and> \<not> rx_full (eth_clients st ! i) \<longrightarrow> got_frame cur len st st1 i" by auto
  have n: "length (eth_clients st1) = length (eth_clients st)"
    using s(3) by (simp add: dup_post_def)
  from Cons.IH [OF s(2) Cons.prems(2,3)] Cons.prems(4,5) n obtain st' where
    r: "duplicate_loop is cur len st1 = Inr st'" "eth_inv st' rxd txd"
      "dup_post cur len rxd (set is) st1 st'"
      "length is \<le> num_rx_bufs st1 \<longrightarrow> (\<forall>k \<in> set is. \<not> rx_full (eth_clients st1 ! k) \<longrightarrow>
         got_frame cur len st1 st' k)" by auto
  have post: "dup_post cur len rxd (set (i # is)) st st'"
    using dup_post_trans [OF s(3) r(3) Cons.prems(2)] dup_post_queued [OF s(3)] Cons.prems(5) by simp
  have "got_frame cur len st st' k"
    if len: "length (i # is) \<le> num_rx_bufs st" and k: "k \<in> set (i # is)" and nf: "\<not> rx_full (eth_clients st ! k)" for k
  proof -
    have kn: "k < length (eth_clients st)" using k Cons.prems(4) by auto
    have "eth_clients st' ! k \<noteq> eth_clients st ! k"
    proof (cases "k = i")
      case True
      then have "eth_clients st' ! k = eth_clients st1 ! k"
        using r(3) kn n Cons.prems(5) by (auto simp: dup_post_def)
      then show ?thesis
        using s(5) len nf True got_frame_changed [of cur len st st1 i] by auto
    next
      case False
      then have "eth_clients st1 ! k = eth_clients st ! k"
        using s(3) kn by (auto simp: dup_post_def)
      then show ?thesis
        using r(4) s(4) len k nf False got_frame_changed [of cur len st1 st' k] by auto
    qed
    then show ?thesis using post kn by (auto simp: dup_post_def)
  qed
  with s(1) r(1,2) post show ?case by auto
qed

lemma deliver_ok:
  assumes inv: "eth_inv st (add_mset cur rxd) txd" and i: "i < length (eth_clients st)"
    and len: "unat len \<le> BUF_SIZE"
  shows "\<exists>st'. deliver i cur len st = Inr st' \<and> eth_inv st' rxd txd \<and> done_init st' = done_init st \<and>
     rx_bufs st' = rx_bufs st \<and> length (eth_clients st') = length (eth_clients st) \<and>
     (\<forall>k < length (eth_clients st). k \<noteq> i \<longrightarrow> eth_clients st' ! k = eth_clients st ! k) \<and>
     rxq_items (eth_clients st' ! i) = rxq_items (eth_clients st ! i) @
       (if rx_full (eth_clients st ! i) then []
        else [\<lparr>rxf_buf = cur, rxf_len = len, rxf_client = 0\<rparr>]) \<and>
     eth_emitted st' = eth_emitted st @
       (if rxq_items (eth_clients st ! i) = [] \<and> \<not> rx_full (eth_clients st ! i)
        then [client_id (eth_clients st ! i)] else [])"
proof (cases "rx_full (eth_clients st ! i)")
  case True
  with return_bufs_ok [of st "[cur]" rxd txd] inv i show ?thesis
    by (auto simp: deliver_def simp del: return_bufs.simps)
next
  case False
  with give_client_buf_ok [OF inv i False len] i show ?thesis
    by (auto simp: deliver_def)
qed

lemma detect_client_loop_less:
  "detect_client_loop cs i buf = Some k \<Longrightarrow> i \<le> k \<and> k < i + length cs \<and> mac_matches (mac (cs ! (k - i))) buf"
  by (induction cs i buf rule: detect_client_loop.induct) (auto simp: nth_Cons' split: if_splits)

lemma detect_client_less:
  "detect_client buf len st = Some k \<Longrightarrow>
   k < length (eth_clients st) \<and> mac_matches (mac (eth_clients st ! k)) buf"
  using detect_client_loop_less [of "eth_clients st" 0 buf k]
  by (auto simp: detect_client_def split: if_splits)

lemma eth_rx_complete_ok:
  assumes inv: "eth_inv st (mset cookies + rxd) txd"
    and lens: "length lens = length cookies" "\<forall>len \<in> set lens. unat len \<le> BUF_SIZE"
  shows "\<exists>st'. eth_rx_complete cookies lens st = Inr st' \<and> eth_inv st' rxd txd \<and>
               done_init st' = done_init st \<and> length (eth_clients st') = length (eth_clients st)"
proof (cases "length cookies = 1")
  case False
  with return_bufs_ok [OF inv] show ?thesis by (auto simp: eth_rx_complete_def)
next
  case True
  then obtain cur len where cl: "cookies = [cur]" "lens = [len]"
    using lens(1) by (metis One_nat_def length_0_conv length_Suc_conv)
  have inv1: "eth_inv st (add_mset cur rxd) txd" and len: "unat len \<le> BUF_SIZE"
    using inv lens(2) cl by simp_all
  have n0: "0 < length (eth_clients st)"
    using inv by (simp add: eth_inv_def)
  have cur: "cur < length (rx_bufs st)"
    using lent_buf_data(1) [OF inv1] by simp
  let ?data = "eb_data (rx_bufs st ! cur)"
  consider (uni) i where "detect_client ?data len st = Some i"
    | (dup) "detect_client ?data len st = None" "is_broadcast ?data len \<or> is_multicast ?data len"
    | (drop) "detect_client ?data len st = None" "\<not> (is_broadcast ?data len \<or> is_multicast ?data len)"
    by (cases "detect_client ?data len st") auto
  then show ?thesis
  proof cases
    case uni
    with deliver_ok [OF inv1 _ len, of i] detect_client_less [OF uni] cur show ?thesis
      by (auto simp: eth_rx_complete_def cl)
  next
    case dup
    obtain st1 where 1: "duplicate_loop [1..<length (eth_clients st)] cur len st = Inr st1"
        "eth_inv st1 (add_mset cur rxd) txd"
        "dup_post cur len (add_mset cur rxd) (set [1..<length (eth_clients st)]) st st1"
      using duplicate_loop_ok [OF inv1 _ len, of cur "[1..<length (eth_clients st)]"] by auto
    have n1: "length (eth_clients st1) = length (eth_clients st)" "done_init st1 = done_init st"
      using 1(3) by (simp_all add: dup_post_def)
    with deliver_ok [OF 1(2) _ len, of 0] n0 1(1) dup cur show ?thesis
      by (auto simp: eth_rx_complete_def cl)
  next
    case drop
    with return_bufs_ok [OF inv] cur show ?thesis
      by (auto simp: eth_rx_complete_def cl simp del: return_bufs.simps)
  qed
qed

lemma eth_get_client_loop_Some:
  "eth_get_client_loop cs i s acc = Some k \<Longrightarrow>
   acc = Some k \<or> (i \<le> k \<and> k < i + length cs \<and> client_id (cs ! (k - i)) = s)"
proof (induction cs arbitrary: i acc)
  case Nil
  then show ?case by simp
next
  case (Cons c cs)
  from Cons.IH [of "Suc i" "if client_id c = s then Some i else acc"] Cons.prems show ?case
    by (auto simp: nth_Cons' split: if_splits)
qed

lemma eth_get_client_less:
  "eth_get_client s st = Some k \<Longrightarrow>
   k < length (eth_clients st) \<and> client_id (eth_clients st ! k) = scast s"
  using eth_get_client_loop_Some [of "eth_clients st" 0 "scast s" None k]
  by (auto simp: eth_get_client_def)

text \<open>
  What a call of \<open>client_rx\<close> does when the caller is client \<open>i\<close>: the oldest frame, or -1.
\<close>

lemma client_rx_ok:
  assumes inv: "eth_inv st rxd txd" and d: "done_init st" and who: "eth_get_client s st = Some i"
  shows "case rxq_items (eth_clients st ! i) of
      [] \<Rightarrow> client_rx s st = Inr (-1, None, upd_client i (\<lambda>c. c\<lparr>should_notify := True\<rparr>) st) \<and>
            eth_inv (upd_client i (\<lambda>c. c\<lparr>should_notify := True\<rparr>) st) rxd txd
    | f # fs \<Rightarrow> \<exists>st'. client_rx s st = Inr (if fs = [] then 0 else 1, Some (rxf_len f), st') \<and>
            eth_inv st' rxd txd \<and> rxq_items (eth_clients st' ! i) = fs \<and>
            take (unat (rxf_len f)) (dataport (eth_clients st' ! i)) =
              take (unat (rxf_len f)) (eb_data (rx_bufs st ! rxf_buf f)) \<and>
            (\<forall>k < length (eth_clients st). k \<noteq> i \<longrightarrow> eth_clients st' ! k = eth_clients st ! k) \<and>
            rx_bufs st' = rx_bufs st"
proof -
  let ?c = "eth_clients st ! i"
  have i: "i < length (eth_clients st)" using eth_get_client_less [OF who] by simp
  note ok = eth_inv_clientD [OF inv i]
  have wf: "rxq_wf ?c" and sn: "should_notify ?c \<longleftrightarrow> rxq_items ?c = []"
    using ok by (auto simp: client_ok_def)
  show ?thesis
  proof (cases "rxq_items ?c")
    case Nil
    then have "rx_empty ?c" using rxq.empty_iff [OF wf] by simp
    moreover have "eth_inv (upd_client i (\<lambda>c. c\<lparr>should_notify := True\<rparr>) st) rxd txd"
      unfolding upd_client_def using ok Nil
      by (intro eth_inv_set_client [OF inv i]) (auto simp: client_ok_def)
    ultimately show ?thesis using Nil d who by (simp add: client_rx_def)
  next
    case (Cons f fs)
    then have ne: "\<not> rx_empty ?c" using rxq.empty_iff [OF wf] by simp
    obtain c1 where c1: "c1 = snd (rx_pop ?c)" by blast
    have pop: "rx_pop ?c = (f, c1)" "rxq_items c1 = fs" and wf1: "rxq_wf c1"
      using rxq.pop_items [OF wf Cons] rxq.wf_pop [OF wf ne] c1 by (metis prod.collapse)+
    have last: "pending_rx_head c1 = pending_rx_tail c1 \<longleftrightarrow> fs = []"
      using rxq.empty_iff [OF wf1] pop(2) by (simp add: rx_empty_def)
    have port: "dataport c1 = dataport ?c" by (simp add: c1)
    have len: "unat (rxf_len f) \<le> BUF_SIZE" "BUF_SIZE \<le> length (dataport ?c)"
      using ok Cons by (auto simp: client_ok_def)
    have invq: "eth_inv (st\<lparr>eth_clients := (eth_clients st)[i := c]\<rparr>) (add_mset (rxf_buf f) rxd) txd"
      if "client_ok txd i c" "rxq_items c = fs" for c
      by (rule eth_inv_set_client [OF inv i that(1)]) (simp add: that(2) Cons)
    define pkt where "pkt = take (unat (rxf_len f)) (eb_data (rx_bufs st ! rxf_buf f)) @
        drop (unat (rxf_len f)) (dataport ?c)"
    define c3 where "c3 = (if fs = [] then c1\<lparr>dataport := pkt, should_notify := True\<rparr>
                           else c1\<lparr>dataport := pkt\<rparr>)"
    have q3: "rxq_items c3 = fs" by (simp add: c3_def pop(2))
    have ok1: "client_ok txd i (c3\<lparr>dataport := dataport ?c\<rparr>)"
      using ok wf1 pop(2) Cons by (auto simp: client_ok_def c3_def c1)
    note b = lent_buf_data [OF invq [OF ok1], of "rxf_buf f", simplified]
    have copy: "memcpy (dataport ?c) (eb_data (rx_bufs st ! rxf_buf f)) (unat (rxf_len f)) = Inr pkt"
      using len b(2) q3 by (simp add: pkt_def)
    have ok3: "client_ok txd i c3"
      using ok wf1 pop(2) Cons length_memcpy [OF copy] by (auto simp: client_ok_def c3_def c1)
    note inv3 = invq [OF ok3 q3]
    let ?st' = "st\<lparr>eth_clients := (eth_clients st)[i := c3],
        rx_buf_pool := (rx_buf_pool st)[num_rx_bufs st := rxf_buf f],
        num_rx_bufs := num_rx_bufs st + 1\<rparr>"
    have room: "num_rx_bufs st < length (rx_buf_pool st)"
      using pool_room [OF inv3] inv3 by (simp add: eth_inv_def)
    then have inv': "eth_inv ?st' rxd txd"
      using inv3 by (simp add: eth_inv_def take_Suc_update)
    have "client_rx s st = Inr (if fs = [] then 0 else 1, Some (rxf_len f), ?st')"
      using d who ne wf pop(1) copy b(1) q3 last room port
      by (simp add: client_rx_def rxq_wf_def c3_def rx_empty_def)
    moreover have "take (unat (rxf_len f)) (dataport c3) =
              take (unat (rxf_len f)) (eb_data (rx_bufs st ! rxf_buf f))"
      using len b(2) q3 by (simp add: c3_def pkt_def)
    ultimately show ?thesis using Cons inv' i q3 by auto
  qed
qed

subsection \<open>Transmit frames\<close>

lemma tx_lent:
  assumes inv: "eth_inv st rxd txd" and r: "r \<in># txd"
  shows "fst r < length (eth_clients st)" "snd r < CLIENT_TX_BUFS"
    "num_tx (eth_clients st ! fst r) < CLIENT_TX_BUFS"
proof -
  let ?i = "fst r" and ?c = "eth_clients st ! fst r"
  show i: "?i < length (eth_clients st)"
    using inv r by (auto simp: eth_inv_def)
  note ok = eth_inv_clientD [OF inv i]
  define T where "T = filter_mset (\<lambda>q. fst q = ?i) txd"
  have rT: "r \<in># T" using r by (simp add: T_def)
  have eq: "mset (take (num_tx ?c) (pending_tx ?c)) + T = mset (map (Pair ?i) [0..<CLIENT_TX_BUFS])"
    using ok by (simp add: client_ok_def T_def)
  then have "r \<in># mset (map (Pair ?i) [0..<CLIENT_TX_BUFS])"
    using rT by (metis union_iff)
  then show "snd r < CLIENT_TX_BUFS" by (cases r) auto
  have "size (mset (take (num_tx ?c) (pending_tx ?c))) + size T = CLIENT_TX_BUFS"
    using arg_cong [OF eq, of size] by simp
  moreover have "0 < size T" using rT by (metis nonempty_has_size empty_not_add_mset mset_add)
  ultimately show "num_tx ?c < CLIENT_TX_BUFS"
    using ok by (simp add: client_ok_def)
qed

text \<open>Replacing one client together with the set of lent frames.\<close>

lemma eth_inv_set_tx:
  assumes inv: "eth_inv st rxd txd" and i: "i < length (eth_clients st)"
    and ok: "client_ok txd' i c" and q: "rxq_items c = rxq_items (eth_clients st ! i)"
    and oth: "\<And>j. j \<noteq> i \<Longrightarrow> filter_mset (\<lambda>r. fst r = j) txd' = filter_mset (\<lambda>r. fst r = j) txd"
    and dom: "\<forall>r \<in># txd'. fst r < length (eth_clients st)"
  shows "eth_inv (st\<lparr>eth_clients := (eth_clients st)[i := c]\<rparr>) rxd txd'"
proof -
  have "queued_bufs ((eth_clients st)[i := c]) = queued_bufs (eth_clients st)"
    using queued_bufs_update [OF i, of c] q by simp
  moreover have "client_ok txd' j ((eth_clients st)[i := c] ! j)" if "j < length (eth_clients st)" for j
    using eth_inv_clientD [OF inv that] ok oth [of j] i
    by (cases "j = i") (auto simp: client_ok_def)
  ultimately show ?thesis
    using inv dom by (simp add: eth_inv_def)
qed

lemma eth_tx_complete_ok:
  assumes inv: "eth_inv st rxd (add_mset r txd)"
  shows "\<exists>c'. eth_tx_complete r st = Inr (st\<lparr>eth_clients := (eth_clients st)[fst r := c']\<rparr>) \<and>
    num_tx c' = num_tx (eth_clients st ! fst r) + 1 \<and> tx_mem c' = tx_mem (eth_clients st ! fst r) \<and>
    pending_tx c' ! num_tx (eth_clients st ! fst r) = r \<and>
    eth_inv (st\<lparr>eth_clients := (eth_clients st)[fst r := c']\<rparr>) rxd txd"
proof -
  let ?i = "fst r" let ?c = "eth_clients st ! ?i"
  let ?c' = "?c\<lparr>pending_tx := (pending_tx ?c)[num_tx ?c := r], num_tx := num_tx ?c + 1\<rparr>"
  note b = tx_lent [OF inv, of r, simplified]
  note ok = eth_inv_clientD [OF inv b(1)]
  have len: "num_tx ?c < length (pending_tx ?c)" "snd r < length (tx_mem ?c)"
    using ok b by (simp_all add: client_ok_def)
  have own: "txf_client (tx_mem ?c ! snd r) = ?i"
    using ok len(2) by (auto simp: client_ok_def)
  have "client_ok txd ?i ?c'"
    using ok len(1) b(3) by (auto simp: client_ok_def take_Suc_update)
  then have "eth_inv (st\<lparr>eth_clients := (eth_clients st)[?i := ?c']\<rparr>) rxd txd"
    using inv by (intro eth_inv_set_tx [OF inv b(1)]) (auto simp: eth_inv_def)
  moreover have "eth_tx_complete r st = Inr (st\<lparr>eth_clients := (eth_clients st)[?i := ?c']\<rparr>)"
    using b(1) len own by (simp add: eth_tx_complete_def upd_client_def Let_def)
  ultimately show ?thesis using len(1) by (intro exI [of _ ?c']) simp
qed

lemma tx_completions_ok:
  assumes "eth_inv st rxd (mset rs + txd)"
  shows "\<exists>st'. tx_completions rs st = Inr st' \<and> eth_inv st' rxd txd \<and>
    done_init st' = done_init st \<and> length (eth_clients st') = length (eth_clients st) \<and>
    map tx_mem (eth_clients st') = map tx_mem (eth_clients st)"
  using assms
proof (induction rs arbitrary: st)
  case Nil
  then show ?case by simp
next
  case (Cons r rs)
  have "eth_inv st rxd (add_mset r (mset rs + txd))" using Cons.prems by simp
  from eth_tx_complete_ok [OF this] obtain c' where
    c': "eth_tx_complete r st = Inr (st\<lparr>eth_clients := (eth_clients st)[fst r := c']\<rparr>)"
    "eth_inv (st\<lparr>eth_clients := (eth_clients st)[fst r := c']\<rparr>) rxd (mset rs + txd)"
    "tx_mem c' = tx_mem (eth_clients st ! fst r)" by blast
  then have "map tx_mem ((eth_clients st)[fst r := c']) = map tx_mem (eth_clients st)"
    by (cases "fst r < length (eth_clients st)") (simp_all add: map_upd_same list_update_beyond)
  with Cons.IH [OF c'(2)] c'(1) show ?case by auto
qed

text \<open>Taking the top frame of the free stack of client \<open>i\<close> and lending it to the device.\<close>

lemma lend_tx_ok:
  assumes inv: "eth_inv st rxd txd" and i: "i < length (eth_clients st)"
    and n: "num_tx (eth_clients st ! i) = Suc n"
  shows "\<exists>j < CLIENT_TX_BUFS. pending_tx (eth_clients st ! i) ! n = (i, j) \<and>
    (\<forall>d. length d = BUF_SIZE \<longrightarrow>
      eth_inv (st\<lparr>eth_clients := (eth_clients st)[i := (eth_clients st ! i)\<lparr>num_tx := n,
         tx_mem := (tx_mem (eth_clients st ! i))[j := (tx_mem (eth_clients st ! i) ! j)
           \<lparr>txf_buf := (txf_buf (tx_mem (eth_clients st ! i) ! j))\<lparr>eb_data := d\<rparr>\<rparr>]\<rparr>]\<rparr>)
        rxd (add_mset (i, j) txd))"
proof -
  let ?c = "eth_clients st ! i"
  note ok = eth_inv_clientD [OF inv i]
  have len: "n < length (pending_tx ?c)" using ok n by (simp add: client_ok_def)
  have tk: "mset (take (num_tx ?c) (pending_tx ?c)) = add_mset (pending_tx ?c ! n) (mset (take n (pending_tx ?c)))"
    using mset_take_Suc [OF len] n by simp
  have eq: "mset (take (num_tx ?c) (pending_tx ?c)) + filter_mset (\<lambda>r. fst r = i) txd =
       mset (map (Pair i) [0..<CLIENT_TX_BUFS])"
    using ok by (simp add: client_ok_def)
  then have "pending_tx ?c ! n \<in># mset (map (Pair i) [0..<CLIENT_TX_BUFS])"
    using tk by (metis union_iff union_single_eq_member)
  then obtain j where j: "j < CLIENT_TX_BUFS" "pending_tx ?c ! n = (i, j)" by auto
  have own: "txf_client (tx_mem ?c ! j) = i"
    using ok j(1) by (auto simp: client_ok_def)
  have "eth_inv (st\<lparr>eth_clients := (eth_clients st)[i := ?c\<lparr>num_tx := n,
         tx_mem := (tx_mem ?c)[j := (tx_mem ?c ! j)\<lparr>txf_buf := (txf_buf (tx_mem ?c ! j))\<lparr>eb_data := d\<rparr>\<rparr>]\<rparr>]\<rparr>)
        rxd (add_mset (i, j) txd)" if "length d = BUF_SIZE" for d
    using ok eq tk j own that n i inv
    by (intro eth_inv_set_tx [OF inv i])
      (auto simp: client_ok_def eth_inv_def dest: set_update_subset_insert [THEN subsetD])
  with j show ?thesis by blast
qed

text \<open>
  The device takes the frame (\<open>ETHIF_TX_ENQUEUED\<close>) or leaves it with the client. The
  driver only reports frames it holds; when it refuses a frame it has reported none
  meanwhile, which is what \<open>client_tx\<close> relies on when it undoes its decrement.
\<close>

definition tx_packet :: "client \<Rightarrow> nat \<Rightarrow> u8 list" where
  "tx_packet c n = take 6 (dataport c) @ mac c @ drop 12 (take n (dataport c))"

lemma take_set_source_mac:
  assumes "12 \<le> n" "n \<le> length (dataport c)" "length (mac c) = 6"
  shows "take n (set_source_mac (mac c) (take n (dataport c) @ d)) = tx_packet c n"
  using assms by (simp add: set_source_mac_def tx_packet_def min_def drop_take)

lemma client_tx_ok:
  assumes inv: "eth_inv st rxd (mset completed + txd)"
    and drv: "answer \<noteq> ETHIF_TX_ENQUEUED codes \<Longrightarrow> completed = []"
    and who: "eth_get_client s st = Some i"
  shows "if done_init st \<and> 12 \<le> len \<and> num_tx (eth_clients st ! i) \<noteq> 0 then
    (\<exists>j st'. client_tx codes s len completed answer st =
        Inr (answer, Some ((i, j), nat (min len (int BUF_SIZE))), st') \<and>
      take (nat (min len (int BUF_SIZE))) (eb_data (txf_buf (tx_mem (eth_clients st' ! i) ! j))) =
        tx_packet (eth_clients st ! i) (nat (min len (int BUF_SIZE))) \<and>
      eth_inv st' rxd (if answer = ETHIF_TX_ENQUEUED codes then add_mset (i, j) txd else txd) \<and>
      done_init st' = done_init st \<and> length (eth_clients st') = length (eth_clients st))
    else client_tx codes s len completed answer st =
      Inr (if done_init st \<and> 12 \<le> len then ETHIF_TX_COMPLETE codes else -1, None, st)"
proof (cases "done_init st \<and> 12 \<le> len \<and> num_tx (eth_clients st ! i) \<noteq> 0")
  case False
  then show ?thesis using who by (auto simp: client_tx_def Let_def)
next
  case True
  let ?c = "eth_clients st ! i" and ?len = "min len (int BUF_SIZE)"
  have i: "i < length (eth_clients st)" using eth_get_client_less [OF who] by simp
  obtain n where n: "num_tx ?c = Suc n" using True by (cases "num_tx ?c") auto
  from lend_tx_ok [OF inv i n] obtain j where j: "j < CLIENT_TX_BUFS" "pending_tx ?c ! n = (i, j)"
    and lend: "\<And>d. length d = BUF_SIZE \<Longrightarrow>
      eth_inv (st\<lparr>eth_clients := (eth_clients st)[i := ?c\<lparr>num_tx := n,
         tx_mem := (tx_mem ?c)[j := (tx_mem ?c ! j)\<lparr>txf_buf := (txf_buf (tx_mem ?c ! j))\<lparr>eb_data := d\<rparr>\<rparr>]\<rparr>]\<rparr>)
        rxd (add_mset (i, j) (mset completed + txd))" by blast
  note ok = eth_inv_clientD [OF inv i]
  have lens: "n < length (pending_tx ?c)" "j < length (tx_mem ?c)" "length (mac ?c) = 6"
      "BUF_SIZE \<le> length (dataport ?c)" "length (eb_data (txf_buf (tx_mem ?c ! j))) = BUF_SIZE"
    using ok n j(1) by (auto simp: client_ok_def)
  define d where "d = take (nat ?len) (dataport ?c) @ drop (nat ?len) (eb_data (txf_buf (tx_mem ?c ! j)))"
  have copy: "memcpy (eb_data (txf_buf (tx_mem ?c ! j))) (dataport ?c) (nat ?len) = Inr d"
    using lens by (simp add: d_def)
  have "length d = BUF_SIZE" using length_memcpy [OF copy] lens(5) by simp
  then have ld: "length (set_source_mac (mac ?c) d) = BUF_SIZE"
    using lens(3) by (simp add: set_source_mac_def)
  let ?c2 = "?c\<lparr>num_tx := n, tx_mem := (tx_mem ?c)[j := (tx_mem ?c ! j)
        \<lparr>txf_buf := (txf_buf (tx_mem ?c ! j))\<lparr>eb_data := set_source_mac (mac ?c) d\<rparr>\<rparr>]\<rparr>"
  let ?st2 = "st\<lparr>eth_clients := (eth_clients st)[i := ?c2]\<rparr>"
  have "eth_inv ?st2 rxd (mset completed + add_mset (i, j) txd)"
    using lend [OF ld] by simp
  from tx_completions_ok [OF this] obtain st3 where
    st3: "tx_completions completed ?st2 = Inr st3" "eth_inv st3 rxd (add_mset (i, j) txd)"
      "done_init st3 = done_init st" "length (eth_clients st3) = length (eth_clients st)"
      "map tx_mem (eth_clients st3) = map tx_mem (eth_clients ?st2)" by auto
  have "map tx_mem (eth_clients st3) ! i = map tx_mem (eth_clients ?st2) ! i"
    by (simp only: st3(5))
  then have "tx_mem (eth_clients st3 ! i) = tx_mem ?c2"
    using st3(4) i by simp
  moreover have n12: "12 \<le> nat ?len" "nat ?len \<le> length (dataport ?c)"
    using True lens(4) by linarith+
  ultimately have sent: "take (nat ?len) (eb_data (txf_buf (tx_mem (eth_clients st3 ! i) ! j))) = tx_packet ?c (nat ?len)"
    using take_set_source_mac [OF n12(1,2) lens(3)] lens(2) by (simp add: d_def)
  have ge12: "\<not> ?len < 12" using True by (simp add: min_def)
  have lenif: "(if int BUF_SIZE < len then int BUF_SIZE else len) = ?len" by simp
  have run: "client_tx codes s len completed answer st =
      Inr (answer, Some ((i, j), nat ?len),
        if answer \<noteq> ETHIF_TX_ENQUEUED codes then upd_client i (\<lambda>c. c\<lparr>num_tx := num_tx c + 1\<rparr>) st3 else st3)"
    unfolding client_tx_def lenif Let_def
    using True ge12 who i n lens(1,2) j(2) copy st3(1) by (simp add: upd_client_def nth_list_update)
  show ?thesis
  proof (cases "answer = ETHIF_TX_ENQUEUED codes")
    case True
    with run st3 sent \<open>done_init st \<and> 12 \<le> len \<and> num_tx ?c \<noteq> 0\<close> show ?thesis by auto
  next
    case False
    then have "completed = []" by (rule drv)
    then have s2: "st3 = ?st2" using st3(1) by simp
    let ?c4 = "?c2\<lparr>num_tx := Suc n\<rparr>"
    have "client_ok txd i ?c4"
      using ok n \<open>completed = []\<close> lens ld by (auto simp: client_ok_def dest: set_update_subset_insert [THEN subsetD])
    then have "eth_inv (st\<lparr>eth_clients := (eth_clients st)[i := ?c4]\<rparr>) rxd txd"
      using inv i \<open>completed = []\<close> by (intro eth_inv_set_tx [OF inv i]) (auto simp: eth_inv_def)
    moreover have "upd_client i (\<lambda>c. c\<lparr>num_tx := num_tx c + 1\<rparr>) st3 =
        st\<lparr>eth_clients := (eth_clients st)[i := ?c4]\<rparr>"
      using i by (simp add: s2 upd_client_def)
    moreover have "tx_mem ?c4 = tx_mem (eth_clients st3 ! i)" using i by (simp add: s2)
    ultimately show ?thesis
      using run False sent i \<open>done_init st \<and> 12 \<le> len \<and> num_tx ?c \<noteq> 0\<close> by auto
  qed
qed

section \<open>Initialisation establishes the invariant\<close>

definition valid_config :: "eth_config \<Rightarrow> bool" where
  "valid_config cfg \<longleftrightarrow>
     cfg_found cfg \<and> length (cfg_rx_dma cfg) = RX_BUFS \<and>
     (\<forall>a \<in> set (cfg_rx_dma cfg). a \<noteq> None \<and> a \<noteq> Some 0) \<and>
     length (cfg_hw_mac cfg) = 6 \<and> cfg_clients cfg \<noteq> [] \<and>
     (\<forall>c \<in> set (cfg_clients cfg). length (cfg_tx_dma c) = CLIENT_TX_BUFS \<and>
        None \<notin> set (cfg_tx_dma c) \<and> BUF_SIZE \<le> length (cfg_dataport c) \<and>
        (\<forall>m. cfg_mac c = Some m \<longrightarrow> length m = 6)) \<and>
     length (filter (\<lambda>c. cfg_mac c = None) (cfg_clients cfg)) \<le> 1"

definition rx_filled :: "eth_state \<Rightarrow> bool" where
  "rx_filled st \<longleftrightarrow>
     length (rx_bufs st) = RX_BUFS \<and> length (rx_buf_pool st) = RX_BUFS \<and>
     num_rx_bufs st \<le> RX_BUFS \<and> take (num_rx_bufs st) (rx_buf_pool st) = [0..<num_rx_bufs st] \<and>
     (\<forall>k < num_rx_bufs st. length (eb_data (rx_bufs st ! k)) = BUF_SIZE \<and> eb_phys (rx_bufs st ! k) \<noteq> 0)"

lemma init_rx_bufs_ok:
  assumes "rx_filled st" and "num_rx_bufs st + length as = RX_BUFS"
    and "\<forall>a \<in> set as. a \<noteq> None \<and> a \<noteq> Some 0"
  shows "\<exists>st'. init_rx_bufs as st = Inr st' \<and> rx_filled st' \<and> num_rx_bufs st' = RX_BUFS \<and>
    eth_clients st' = eth_clients st \<and> done_init st' = done_init st \<and> eth_emitted st' = eth_emitted st"
  using assms
proof (induction "as" arbitrary: st)
  case Nil
  then show ?case by simp
next
  case (Cons a "as")
  then obtain phys where a: "a = Some phys" "phys \<noteq> 0" by auto
  let ?n = "num_rx_bufs st" and ?b = "\<lparr>eb_data = replicate BUF_SIZE 0, eb_phys = phys\<rparr>"
  let ?st = "st\<lparr>rx_bufs := (rx_bufs st)[?n := ?b], rx_buf_pool := (rx_buf_pool st)[?n := ?n], num_rx_bufs := ?n + 1\<rparr>"
  have n: "?n < RX_BUFS" using Cons.prems(2) by simp
  then have "rx_filled ?st"
    using Cons.prems(1) a(2) by (auto simp: rx_filled_def take_Suc_update nth_list_update less_Suc_eq)
  from Cons.IH [OF this] Cons.prems obtain st' where
    st': "init_rx_bufs as ?st = Inr st'" "rx_filled st'" "num_rx_bufs st' = RX_BUFS"
      "eth_clients st' = eth_clients st" "done_init st' = done_init st" "eth_emitted st' = eth_emitted st"
    by auto
  have "?n < length (rx_bufs st)" "?n < length (rx_buf_pool st)"
    using n Cons.prems(1) by (simp_all add: rx_filled_def)
  then have "init_rx_bufs (a # as) st = init_rx_bufs as ?st"
    using a by (simp add: dma_buf_def)
  with st' show ?case by metis
qed

definition tx_filled :: "nat \<Rightarrow> client \<Rightarrow> bool" where
  "tx_filled k c \<longleftrightarrow>
     length (tx_mem c) = CLIENT_TX_BUFS \<and> length (pending_tx c) = CLIENT_TX_BUFS \<and>
     num_tx c \<le> CLIENT_TX_BUFS \<and> take (num_tx c) (pending_tx c) = map (Pair k) [0..<num_tx c] \<and>
     (\<forall>j < num_tx c. txf_client (tx_mem c ! j) = k \<and> length (eb_data (txf_buf (tx_mem c ! j))) = BUF_SIZE)"

lemma init_tx_bufs_ok:
  assumes "tx_filled k c" and "num_tx c + length as = CLIENT_TX_BUFS" and "None \<notin> set as"
  shows "\<exists>c'. init_tx_bufs k as c = Inr c' \<and> tx_filled k c' \<and> num_tx c' = CLIENT_TX_BUFS \<and>
    should_notify c' = should_notify c \<and> rxq_wf c' = rxq_wf c \<and> rxq_items c' = rxq_items c \<and>
    mac c' = mac c \<and> client_id c' = client_id c \<and> dataport c' = dataport c"
  using assms
proof (induction "as" arbitrary: c)
  case Nil
  then show ?case by simp
next
  case (Cons a "as")
  then obtain phys where a: "a = Some phys" by (cases a) auto
  let ?n = "num_tx c"
  let ?f = "\<lparr>txf_buf = \<lparr>eb_data = replicate BUF_SIZE 0, eb_phys = phys\<rparr>, txf_len = BUF_SIZE, txf_client = k\<rparr>"
  let ?c = "c\<lparr>tx_mem := (tx_mem c)[?n := ?f], pending_tx := (pending_tx c)[?n := (k, ?n)], num_tx := ?n + 1\<rparr>"
  have n: "?n < CLIENT_TX_BUFS" using Cons.prems(2) by simp
  then have "tx_filled k ?c"
    using Cons.prems(1) by (auto simp: tx_filled_def take_Suc_update nth_list_update less_Suc_eq)
  from Cons.IH [OF this] Cons.prems obtain c' where
    c': "init_tx_bufs k as ?c = Inr c'" "tx_filled k c'" "num_tx c' = CLIENT_TX_BUFS"
      "should_notify c' = should_notify c" "rxq_wf c' = rxq_wf c" "rxq_items c' = rxq_items c"
      "mac c' = mac c" "client_id c' = client_id c" "dataport c' = dataport c"
    by auto
  have "init_tx_bufs k (a # as) c = init_tx_bufs k as ?c"
    using a n Cons.prems(1) by (simp add: dma_buf_def tx_filled_def)
  with c' show ?case by metis
qed

lemma tx_filled_client_ok:
  assumes "tx_filled k c" and "num_tx c = CLIENT_TX_BUFS" and "rxq_wf c" and "rxq_items c = []"
    and "should_notify c" and "BUF_SIZE \<le> length (dataport c)" and "length (mac c) = 6"
  shows "client_ok {#} k c"
  using assms by (auto simp: client_ok_def tx_filled_def in_set_conv_nth)

lemma rxq_null_client: "rxq_wf null_client" "rxq_items null_client = []"
  by (simp_all add: rxq_wf_def rxq_items_def null_client_def ring_items_def ring_count_def)

lemma init_clients_ok:
  assumes "\<forall>c \<in> set cfgs. length (cfg_tx_dma c) = CLIENT_TX_BUFS \<and> None \<notin> set (cfg_tx_dma c) \<and>
      BUF_SIZE \<le> length (cfg_dataport c)"
  shows "\<exists>cs. init_clients k cfgs = Inr cs \<and> length cs = length cfgs \<and> queued_bufs cs = {#} \<and>
    (\<forall>i < length cs. client_ok {#} (k + i) (cs ! i) \<and> client_id (cs ! i) = ucast (cfg_badge (cfgs ! i)))"
  using assms
proof (induction cfgs arbitrary: k)
  case Nil
  then show ?case by (simp add: queued_bufs_def)
next
  case (Cons cfg cfgs)
  let ?c0 = "null_client\<lparr>should_notify := True, client_id := ucast (cfg_badge cfg), dataport := cfg_dataport cfg\<rparr>"
  have wf0: "rxq_wf ?c0" "rxq_items ?c0 = []"
    using rxq_null_client by (simp_all add: rxq_wf_def rxq_items_def)
  have "tx_filled k ?c0"
    by (simp add: tx_filled_def null_client_def)
  from init_tx_bufs_ok [OF this, of "cfg_tx_dma cfg"] Cons.prems wf0 obtain c where
    c: "init_tx_bufs k (cfg_tx_dma cfg) ?c0 = Inr c" "tx_filled k c" "num_tx c = CLIENT_TX_BUFS"
      "should_notify c" "rxq_wf c" "rxq_items c = []" "mac c = mac null_client"
      "client_id c = ucast (cfg_badge cfg)" "dataport c = cfg_dataport cfg"
    by (auto simp: null_client_def)
  have ok: "client_ok {#} k c"
    using c Cons.prems by (intro tx_filled_client_ok) (auto simp: null_client_def)
  from Cons.IH [of "Suc k"] Cons.prems obtain cs where
    cs: "init_clients (Suc k) cfgs = Inr cs" "length cs = length cfgs" "queued_bufs cs = {#}"
      "\<forall>i < length cs. client_ok {#} (Suc k + i) (cs ! i) \<and> client_id (cs ! i) = ucast (cfg_badge (cfgs ! i))"
    by auto
  have "init_clients k (cfg # cfgs) = Inr (c # cs)"
    using c(1) cs(1) by simp
  moreover have "queued_bufs (c # cs) = {#}"
    using cs(3) c(6) by (simp add: queued_bufs_def)
  moreover have "client_ok {#} (k + i) ((c # cs) ! i) \<and> client_id ((c # cs) ! i) = ucast (cfg_badge ((cfg # cfgs) ! i))"
    if "i < length (c # cs)" for i
    using that ok c(8) cs(4) by (cases i) auto
  ultimately show ?case using cs(2) by auto
qed

text \<open>Setting the addresses changes nothing else.\<close>

lemma init_macs_ok:
  assumes "length cfgs = length cs" and "length hw = 6"
    and "\<forall>c \<in> set cs. length (mac c) = 6"
    and "\<forall>c \<in> set cfgs. \<forall>m. cfg_mac c = Some m \<longrightarrow> length m = 6"
    and "num_defaults + length (filter (\<lambda>c. cfg_mac c = None) cfgs) \<le> 1"
  shows "\<exists>cs'. init_macs hw num_defaults cfgs cs = Inr cs' \<and> length cs' = length cs \<and>
    (\<forall>i < length cs. cs' ! i = (cs ! i)
       \<lparr>mac := (case cfg_mac (cfgs ! i) of Some m \<Rightarrow> m | None \<Rightarrow> hw)\<rparr>)"
  using assms
proof (induction hw num_defaults cfgs cs rule: init_macs.induct)
  case (1 hw num_defaults cfg cfgs c cs)
  show ?case
  proof (cases "cfg_mac cfg")
    case None
    with 1 obtain cs' where cs': "init_macs hw (num_defaults + 1) cfgs cs = Inr cs'"
      "length cs' = length cs" "\<forall>i < length cs. cs' ! i = (cs ! i)
         \<lparr>mac := (case cfg_mac (cfgs ! i) of Some m \<Rightarrow> m | None \<Rightarrow> hw)\<rparr>" by auto
    have "init_macs hw num_defaults (cfg # cfgs) (c # cs) = Inr (c\<lparr>mac := hw\<rparr> # cs')"
      using None 1 cs' by simp
    with cs' None show ?thesis by (auto simp: nth_Cons')
  next
    case (Some m)
    have "length m = 6" "length (mac c) = 6" using 1 Some by auto
    then have mc: "memcpy (mac c) m (length m) = Inr m" by simp
    from "1.IH"(2) [OF Some mc] 1 Some obtain cs' where cs': "init_macs hw num_defaults cfgs cs = Inr cs'"
      "length cs' = length cs" "\<forall>i < length cs. cs' ! i = (cs ! i)
         \<lparr>mac := (case cfg_mac (cfgs ! i) of Some m \<Rightarrow> m | None \<Rightarrow> hw)\<rparr>" by auto
    have "init_macs hw num_defaults (cfg # cfgs) (c # cs) = Inr (c\<lparr>mac := m\<rparr> # cs')"
      using Some 1 cs' by simp
    with cs' Some show ?thesis by (auto simp: nth_Cons')
  qed
qed auto

lemma eth_inv_set_macs:
  assumes "eth_inv st rxd txd" and "length cs = length (eth_clients st)"
    and "\<forall>i < length cs. \<exists>m. length m = 6 \<and> cs ! i = (eth_clients st ! i)\<lparr>mac := m\<rparr>"
  shows "eth_inv (st\<lparr>eth_clients := cs\<rparr>) rxd txd"
proof -
  have "map (\<lambda>c. mset (map rxf_buf (rxq_items c))) cs =
        map (\<lambda>c. mset (map rxf_buf (rxq_items c))) (eth_clients st)"
    using assms(2,3) by (intro nth_equalityI) auto
  then have "queued_bufs cs = queued_bufs (eth_clients st)"
    by (simp add: queued_bufs_def)
  moreover have "client_ok txd i (cs ! i)" if "i < length cs" for i
    using assms that by (auto simp: eth_inv_def client_ok_def)
  ultimately show ?thesis
    using assms(1,2) by (auto simp: eth_inv_def)
qed

lemma init_rx_inv:
  assumes "valid_config cfg"
  shows "\<exists>st cs. init_rx_bufs (cfg_rx_dma cfg) eth_static = Inr st \<and>
    init_clients 0 (cfg_clients cfg) = Inr cs \<and> length cs = length (cfg_clients cfg) \<and>
    (\<forall>i < length cs. client_id (cs ! i) = ucast (cfg_badge (cfg_clients cfg ! i))) \<and>
    queued_bufs cs = {#} \<and> \<not> done_init st \<and> num_rx_bufs st = RX_BUFS \<and>
    rx_buf_pool st = [0..<RX_BUFS] \<and> eth_inv (st\<lparr>eth_clients := cs\<rparr>) {#} {#}"
proof -
  have "rx_filled eth_static" by (simp add: rx_filled_def eth_static_def)
  from init_rx_bufs_ok [OF this, of "cfg_rx_dma cfg"] assms obtain st where
    st: "init_rx_bufs (cfg_rx_dma cfg) eth_static = Inr st" "rx_filled st" "num_rx_bufs st = RX_BUFS"
      "\<not> done_init st"
    by (auto simp: valid_config_def eth_static_def)
  from init_clients_ok [of "cfg_clients cfg" 0] assms obtain cs where
    cs: "init_clients 0 (cfg_clients cfg) = Inr cs" "length cs = length (cfg_clients cfg)"
      "queued_bufs cs = {#}" "\<forall>i < length cs. client_ok {#} i (cs ! i)"
      "\<forall>i < length cs. client_id (cs ! i) = ucast (cfg_badge (cfg_clients cfg ! i))"
    by (auto simp: valid_config_def)
  have "eth_inv (st\<lparr>eth_clients := cs\<rparr>) {#} {#}"
    using st cs assms by (auto simp: eth_inv_def rx_filled_def valid_config_def in_set_conv_nth)
  moreover have "rx_buf_pool st = [0..<RX_BUFS]"
    using st(2,3) unfolding rx_filled_def by (metis order_refl take_all)
  ultimately show ?thesis using st cs by blast
qed

section \<open>Executions\<close>

text \<open>
  The component runs callbacks of the device driver and remote procedures of clients, one
  at a time, in any order. A state carries the receive buffers \<open>rxd\<close> and transmit frames
  \<open>txd\<close> that are with the device; the device only reports what it holds, and frames it
  received fit a buffer. It writes received data into the buffers it holds.
\<close>

type_synonym eth_global = "eth_state \<times> nat multiset \<times> tx_ref multiset"

definition device_writes :: "nat \<Rightarrow> u8 list \<Rightarrow> eth_state \<Rightarrow> eth_state" where
  "device_writes b d st = st\<lparr>rx_bufs := (rx_bufs st)[b := (rx_bufs st ! b)\<lparr>eb_data := d\<rparr>]\<rparr>"

inductive eth_step :: "ethif_codes \<Rightarrow> eth_global \<Rightarrow> eth_global \<Rightarrow> bool" for codes where
  allocate: "eth_allocate_rx_buf n st = Inr (phys, Some b, st') \<Longrightarrow>
    eth_step codes (st, rxd, txd) (st', add_mset b rxd, txd)"
| allocate_fail: "eth_allocate_rx_buf n st = Inr (phys, None, st') \<Longrightarrow>
    eth_step codes (st, rxd, txd) (st', rxd, txd)"
| dma: "b \<in># rxd \<Longrightarrow> length d = BUF_SIZE \<Longrightarrow>
    eth_step codes (st, rxd, txd) (device_writes b d st, rxd, txd)"
| receive: "mset cookies \<subseteq># rxd \<Longrightarrow> length lens = length cookies \<Longrightarrow>
    list_all (\<lambda>len. unat len \<le> BUF_SIZE) lens \<Longrightarrow> eth_rx_complete cookies lens st = Inr st' \<Longrightarrow>
    eth_step codes (st, rxd, txd) (st', rxd - mset cookies, txd)"
| sent: "r \<in># txd \<Longrightarrow> eth_tx_complete r st = Inr st' \<Longrightarrow>
    eth_step codes (st, rxd, txd) (st', rxd, txd - {#r#})"
| client_reads: "client_rx s st = Inr (v, len, st') \<Longrightarrow>
    eth_step codes (st, rxd, txd) (st', rxd, txd)"
| client_sends: "mset completed \<subseteq># txd \<Longrightarrow> (answer \<noteq> ETHIF_TX_ENQUEUED codes \<Longrightarrow> completed = []) \<Longrightarrow>
    client_tx codes s len completed answer st = Inr (v, Some (r, n), st') \<Longrightarrow>
    eth_step codes (st, rxd, txd)
      (st', rxd, if answer = ETHIF_TX_ENQUEUED codes then add_mset r (txd - mset completed) else txd)"
| client_drops: "client_tx codes s len [] answer st = Inr (v, None, st') \<Longrightarrow>
    eth_step codes (st, rxd, txd) (st', rxd, txd)"
| client_writes: "i < length (eth_clients st) \<Longrightarrow> length d = length (dataport (eth_clients st ! i)) \<Longrightarrow>
    eth_step codes (st, rxd, txd) (upd_client i (\<lambda>c. c\<lparr>dataport := d\<rparr>) st, rxd, txd)"

inductive eth_run :: "ethif_codes \<Rightarrow> eth_global \<Rightarrow> eth_global \<Rightarrow> bool" for codes where
  eth_run_refl: "eth_run codes g g"
| eth_run_step: "eth_run codes g g1 \<Longrightarrow> eth_step codes g1 g2 \<Longrightarrow> eth_run codes g g2"

fun eth_global_inv :: "eth_global \<Rightarrow> bool" where
  "eth_global_inv (st, rxd, txd) = eth_inv st rxd txd"

lemma eth_step_inv:
  assumes "eth_step codes g g'" and "eth_global_inv g"
  shows "eth_global_inv g'"
  using assms
proof (induction rule: eth_step.induct)
  case (allocate n st phys b st' rxd txd)
  then show ?case using eth_allocate_rx_buf_ok [of st rxd txd n] by auto
next
  case (allocate_fail n st phys st' rxd txd)
  then show ?case using eth_allocate_rx_buf_ok [of st rxd txd n] by auto
next
  case (dma b rxd d st txd)
  then show ?case
    using eth_inv_set_buf [of st rxd txd "(rx_bufs st ! b)\<lparr>eb_data := d\<rparr>" b]
      lent_buf_data(3) [of st rxd txd b]
    by (simp add: device_writes_def)
next
  case (receive cookies rxd lens st st' txd)
  then have "eth_inv st (mset cookies + (rxd - mset cookies)) txd" by simp
  from eth_rx_complete_ok [OF this receive.hyps(2)] receive.hyps show ?case
    by (auto simp: list_all_iff)
next
  case (sent r txd st st' rxd)
  then have "eth_inv st rxd (add_mset r (txd - {#r#}))" by simp
  from eth_tx_complete_ok [OF this] sent.hyps show ?case by auto
next
  case (client_reads s st v len st' rxd txd)
  then obtain i where "done_init st \<longrightarrow> eth_get_client s st = Some i"
    by (auto simp: client_rx_def split: option.splits if_splits)
  then show ?case
    using client_rx_ok [of st rxd txd s i] client_reads
    by (cases "done_init st") (auto simp: client_rx_def split: list.splits)
next
  case (client_sends completed txd answer s len st v r n st' rxd)
  then have inv: "eth_inv st rxd (mset completed + (txd - mset completed))" by simp
  from client_sends obtain i where who: "eth_get_client s st = Some i"
    by (auto simp: client_tx_def Let_def split: option.splits if_splits)
  from client_tx_ok [where len = len and answer = answer and codes = codes, OF inv _ who]
    client_sends.hyps(2,3) show ?case by (auto split: if_split_asm)
next
  case (client_drops s len answer st v st' rxd txd)
  have "st' = st"
    using client_drops.hyps
    by (auto simp: client_tx_def Let_def obind_eq_Inr split: option.splits if_splits)
  with client_drops show ?case by simp
next
  case (client_writes i st d rxd txd)
  then have inv: "eth_inv st rxd txd" by simp
  have "client_ok txd i ((eth_clients st ! i)\<lparr>dataport := d\<rparr>)"
    using eth_inv_clientD [OF inv client_writes.hyps(1)] client_writes.hyps(2)
    by (auto simp: client_ok_def)
  then show ?case
    using eth_inv_set_client [OF inv client_writes.hyps(1)] by (simp add: upd_client_def)
qed

lemma eth_step_clients:
  assumes "eth_step codes g g'" and "eth_global_inv g"
  shows "length (eth_clients (fst g')) = length (eth_clients (fst g))"
  using assms
proof (induction rule: eth_step.induct)
  case (receive cookies rxd lens st st' txd)
  then have "eth_inv st (mset cookies + (rxd - mset cookies)) txd" by simp
  from eth_rx_complete_ok [OF this receive.hyps(2)] receive.hyps show ?case
    by (auto simp: list_all_iff)
next
  case (client_sends completed txd answer s len st v r n st' rxd)
  then have inv: "eth_inv st rxd (mset completed + (txd - mset completed))" by simp
  from client_sends obtain i where who: "eth_get_client s st = Some i"
    by (auto simp: client_tx_def Let_def split: option.splits if_splits)
  from client_tx_ok [where len = len and answer = answer and codes = codes, OF inv _ who]
    client_sends.hyps(2,3) show ?case by (auto split: if_split_asm)
qed (auto simp: eth_allocate_rx_buf_def eth_tx_complete_def client_rx_def client_tx_def Let_def
       upd_client_def device_writes_def obind_eq_Inr split: option.splits if_splits prod.splits)

lemma eth_run_inv: "eth_run codes g g' \<Longrightarrow> eth_global_inv g \<Longrightarrow> eth_global_inv g'"
  by (induction rule: eth_run.induct) (auto intro: eth_step_inv)

lemma eth_run_clients:
  "eth_run codes g g' \<Longrightarrow> eth_global_inv g \<Longrightarrow>
   length (eth_clients (fst g')) = length (eth_clients (fst g))"
  by (induction rule: eth_run.induct) (auto dest: eth_step_clients eth_run_inv)

text \<open>
  The whole of \<open>server_init\<close>, when the callbacks run by \<open>raw_poll\<close> are steps of the
  component.
\<close>

definition poll_ok :: "ethif_codes \<Rightarrow> (eth_state \<Rightarrow> eth_state outcome) \<Rightarrow> bool" where
  "poll_ok codes poll \<longleftrightarrow> (\<forall>st0. eth_inv st0 {#} {#} \<longrightarrow>
     (\<exists>st1 rxd txd. poll st0 = Inr st1 \<and> eth_run codes (st0, {#}, {#}) (st1, rxd, txd)))"

lemma poll_ok_quiet: "poll_ok codes Inr"
  by (auto simp: poll_ok_def intro: eth_run_refl)

lemma set_macs_shape:
  assumes "length cfgs = length cs" and "length hw = 6"
    and "\<forall>c \<in> set cfgs. \<forall>m. cfg_mac c = Some m \<longrightarrow> length m = 6"
    and "\<forall>i < length cs. cs' ! i = (cs ! i)
       \<lparr>mac := (case cfg_mac (cfgs ! i) of Some m \<Rightarrow> m | None \<Rightarrow> hw)\<rparr>"
  shows "\<forall>i < length cs. \<exists>m. length m = 6 \<and> cs' ! i = (cs ! i)\<lparr>mac := m\<rparr>"
proof (intro allI impI)
  fix i assume i: "i < length cs"
  let ?m = "case cfg_mac (cfgs ! i) of Some m \<Rightarrow> m | None \<Rightarrow> hw"
  have "length ?m = 6"
    using assms(1-3) i by (auto split: option.split)
  with assms(4) i show "\<exists>m. length m = 6 \<and> cs' ! i = (cs ! i)\<lparr>mac := m\<rparr>" by blast
qed

lemma server_init_macs:
  assumes cfg: "valid_config cfg" and inv: "eth_inv st1 rxd txd"
    and n: "length (eth_clients st1) = length (cfg_clients cfg)"
  shows "\<exists>cs1. init_macs (cfg_hw_mac cfg) 0 (cfg_clients cfg) (eth_clients st1) = Inr cs1 \<and>
    length cs1 = length (eth_clients st1) \<and>
    (\<forall>i < length cs1. cs1 ! i = (eth_clients st1 ! i)
       \<lparr>mac := (case cfg_mac (cfg_clients cfg ! i) of Some m \<Rightarrow> m | None \<Rightarrow> cfg_hw_mac cfg)\<rparr>) \<and>
    eth_inv (st1\<lparr>eth_clients := cs1, done_init := True\<rparr>) rxd txd"
proof -
  have mac6: "\<forall>c \<in> set (eth_clients st1). length (mac c) = 6"
    using inv by (auto simp: eth_inv_def client_ok_def in_set_conv_nth)
  have cfg': "length (cfg_hw_mac cfg) = 6"
    "\<forall>c \<in> set (cfg_clients cfg). \<forall>m. cfg_mac c = Some m \<longrightarrow> length m = 6"
    "0 + length (filter (\<lambda>c. cfg_mac c = None) (cfg_clients cfg)) \<le> 1"
    using cfg by (auto simp: valid_config_def)
  from init_macs_ok [OF n [symmetric] cfg'(1) mac6 cfg'(2,3)] obtain cs1 where
    cs1: "init_macs (cfg_hw_mac cfg) 0 (cfg_clients cfg) (eth_clients st1) = Inr cs1"
      "length cs1 = length (eth_clients st1)"
      "\<forall>i < length (eth_clients st1). cs1 ! i = (eth_clients st1 ! i)
        \<lparr>mac := (case cfg_mac (cfg_clients cfg ! i) of Some m \<Rightarrow> m | None \<Rightarrow> cfg_hw_mac cfg)\<rparr>"
    by blast
  note shape = set_macs_shape [OF n [symmetric] cfg'(1,2) cs1(3), folded cs1(2)]
  from eth_inv_set_macs [OF inv cs1(2) shape]
  have "eth_inv (st1\<lparr>eth_clients := cs1, done_init := True\<rparr>) rxd txd" by (simp add: eth_inv_def)
  with cs1(1,2) cs1(3) [folded cs1(2)] show ?thesis by blast
qed

lemma server_init_ok:
  assumes cfg: "valid_config cfg" and poll: "poll_ok codes poll"
  shows "\<exists>st rxd txd. server_init cfg poll = Inr st \<and> done_init st \<and>
    length (eth_clients st) = length (cfg_clients cfg) \<and> eth_inv st rxd txd"
proof -
  from init_rx_inv [OF cfg] obtain st cs where
    0: "init_rx_bufs (cfg_rx_dma cfg) eth_static = Inr st"
      "init_clients 0 (cfg_clients cfg) = Inr cs" "length cs = length (cfg_clients cfg)"
      "eth_inv (st\<lparr>eth_clients := cs\<rparr>) {#} {#}" by blast
  from poll 0(4) obtain st1 rxd txd where
    1: "poll (st\<lparr>eth_clients := cs\<rparr>) = Inr st1" "eth_run codes (st\<lparr>eth_clients := cs\<rparr>, {#}, {#}) (st1, rxd, txd)"
    unfolding poll_ok_def by blast
  have inv: "eth_inv st1 rxd txd" and n: "length (eth_clients st1) = length (cfg_clients cfg)"
    using eth_run_inv [OF 1(2)] eth_run_clients [OF 1(2)] 0(3,4) by simp_all
  from server_init_macs [OF cfg inv n] obtain cs1 where
    2: "init_macs (cfg_hw_mac cfg) 0 (cfg_clients cfg) (eth_clients st1) = Inr cs1"
      "length cs1 = length (eth_clients st1)" "eth_inv (st1\<lparr>eth_clients := cs1, done_init := True\<rparr>) rxd txd"
    by blast
  have "server_init cfg poll = Inr (st1\<lparr>eth_clients := cs1, done_init := True\<rparr>)"
    using cfg 0(1,2) 1(1) 2(1) by (simp add: server_init_def valid_config_def)
  with 2 n show ?thesis by (intro exI [of _ "st1\<lparr>eth_clients := cs1, done_init := True\<rparr>"]) auto
qed

subsection \<open>A concrete system\<close>

text \<open>
  Two clients on one device; the state after initialisation, and the state when the device
  holds one receive buffer into which it wrote a given frame.
\<close>

definition demo_config :: eth_config where
  "demo_config =
     \<lparr>cfg_found = True, cfg_rx_dma = replicate RX_BUFS (Some 0x100000),
      cfg_clients =
        [\<lparr>cfg_badge = 1, cfg_dataport = replicate BUF_SIZE 7,
          cfg_tx_dma = replicate CLIENT_TX_BUFS (Some 0x200000), cfg_mac = None\<rparr>,
         \<lparr>cfg_badge = 2, cfg_dataport = replicate BUF_SIZE 9,
          cfg_tx_dma = replicate CLIENT_TX_BUFS (Some 0x300000), cfg_mac = Some [2, 0, 0, 0, 0, 5]\<rparr>],
      cfg_hw_mac = [2, 0, 0, 0, 0, 4]\<rparr>"

definition demo_state :: eth_state where
  "demo_state = projr (server_init demo_config Inr)"

definition demo_lent :: "u8 list \<Rightarrow> eth_state" where
  "demo_lent d = device_writes 255 d (demo_state\<lparr>num_rx_bufs := 255\<rparr>)"

lemma demo_valid: "valid_config demo_config"
  by (auto simp: valid_config_def demo_config_def)

lemma demo_state_ok:
  "eth_inv demo_state {#} {#}" "done_init demo_state" "num_rx_bufs demo_state = RX_BUFS"
  "rx_buf_pool demo_state = [0..<RX_BUFS]" "queued_bufs (eth_clients demo_state) = {#}"
  "map mac (eth_clients demo_state) = [[2, 0, 0, 0, 0, 4], [2, 0, 0, 0, 0, 5]]"
  "map client_id (eth_clients demo_state) = [1, 2]"
proof -
  from init_rx_inv [OF demo_valid] obtain st cs where
    0: "init_rx_bufs (cfg_rx_dma demo_config) eth_static = Inr st"
      "init_clients 0 (cfg_clients demo_config) = Inr cs" "length cs = length (cfg_clients demo_config)"
      "\<forall>i < length cs. client_id (cs ! i) = ucast (cfg_badge (cfg_clients demo_config ! i))"
      "queued_bufs cs = {#}" "num_rx_bufs st = RX_BUFS" "rx_buf_pool st = [0..<RX_BUFS]"
      "eth_inv (st\<lparr>eth_clients := cs\<rparr>) {#} {#}" by blast
  from server_init_macs [OF demo_valid 0(8)] 0(3) obtain cs1 where
    1: "init_macs (cfg_hw_mac demo_config) 0 (cfg_clients demo_config) cs = Inr cs1"
      "length cs1 = length cs"
      "\<forall>i < length cs1. cs1 ! i = (cs ! i)
       \<lparr>mac := (case cfg_mac (cfg_clients demo_config ! i) of Some m \<Rightarrow> m | None \<Rightarrow> cfg_hw_mac demo_config)\<rparr>"
      "eth_inv (st\<lparr>eth_clients := cs1, done_init := True\<rparr>) {#} {#}" by auto
  have "server_init demo_config Inr = Inr (st\<lparr>eth_clients := cs1, done_init := True\<rparr>)"
    using 0(1,2) 1(1) by (simp add: server_init_def) (simp add: demo_config_def)
  then have st: "demo_state = st\<lparr>eth_clients := cs1, done_init := True\<rparr>"
    by (simp add: demo_state_def)
  have two: "length cs = 2" using 0(3) by (simp add: demo_config_def)
  then obtain a b where ab: "cs = [a, b]" by (metis (no_types) Suc_length_conv length_0_conv numeral_2_eq_2)
  have cs1: "cs1 = [a\<lparr>mac := [2, 0, 0, 0, 0, 4]\<rparr>, b\<lparr>mac := [2, 0, 0, 0, 0, 5]\<rparr>]"
    using 1(2,3) ab by (intro nth_equalityI) (auto simp: demo_config_def less_Suc_eq)
  show "eth_inv demo_state {#} {#}" "done_init demo_state" "num_rx_bufs demo_state = RX_BUFS"
    "rx_buf_pool demo_state = [0..<RX_BUFS]" "queued_bufs (eth_clients demo_state) = {#}"
    "map mac (eth_clients demo_state) = [[2, 0, 0, 0, 0, 4], [2, 0, 0, 0, 0, 5]]"
    "map client_id (eth_clients demo_state) = [1, 2]"
    using 1(4) 0(4-7) by (simp_all add: st cs1 ab queued_bufs_def demo_config_def less_Suc_eq all_conj_distrib)
qed

lemma empty_not_full:
  assumes "rxq_wf c" and "rxq_items c = []"
  shows "\<not> rx_full c"
  using assms rxq.empty_iff [OF assms(1)]
  by (cases "pending_rx_tail c = 127") (auto simp: rx_empty_def rx_full_def rxq_wf_def)

lemma demo_client0:
  "length (eth_clients demo_state) = 2" "eth_get_client 1 demo_state = Some 0"
  "rxq_items (eth_clients demo_state ! 0) = []" "rxq_items (eth_clients demo_state ! 1) = []"
  "\<not> rx_full (eth_clients demo_state ! 0)" "\<not> rx_full (eth_clients demo_state ! 1)"
proof -
  show two: "length (eth_clients demo_state) = 2"
    using arg_cong [OF demo_state_ok(6), of length] by simp
  then obtain a b where ab: "eth_clients demo_state = [a, b]"
    by (metis (no_types) Suc_length_conv length_0_conv numeral_2_eq_2)
  show "eth_get_client 1 demo_state = Some 0"
    using demo_state_ok(7) ab by (simp add: eth_get_client_def)
  show q: "rxq_items (eth_clients demo_state ! 0) = []" "rxq_items (eth_clients demo_state ! 1) = []"
    using demo_state_ok(5) ab by (simp_all add: queued_bufs_def)
  have "rxq_wf (eth_clients demo_state ! 0)" "rxq_wf (eth_clients demo_state ! 1)"
    using demo_state_ok(1) two by (auto simp: eth_inv_def client_ok_def)
  with q show "\<not> rx_full (eth_clients demo_state ! 0)" "\<not> rx_full (eth_clients demo_state ! 1)"
    by (simp_all only: empty_not_full not_False_eq_True)
qed

lemma demo_tx_free: "num_tx (eth_clients demo_state ! 0) = CLIENT_TX_BUFS"
proof -
  let ?c = "eth_clients demo_state ! 0"
  have ok: "client_ok {#} 0 ?c"
    using demo_state_ok(1) demo_client0(1) by (intro eth_inv_clientD) auto
  then have "mset (take (num_tx ?c) (pending_tx ?c)) = mset (map (Pair 0) [0..<CLIENT_TX_BUFS])"
    by (simp add: client_ok_def del: upt_rec_numeral)
  from arg_cong [OF this, of size] ok show ?thesis
    by (simp add: client_ok_def del: upt_rec_numeral)
qed

lemma demo_lent_ok:
  assumes "length d = BUF_SIZE"
  shows "eth_inv (demo_lent d) {#255#} {#}" "eth_clients (demo_lent d) = eth_clients demo_state"
    "eb_data (rx_bufs (demo_lent d) ! 255) = d" "num_rx_bufs (demo_lent d) = 255"
proof -
  have pool: "[0..<RX_BUFS] = [0..<255] @ [255]"
    using upt_Suc_append [of 0 255] by (simp del: upt_rec_numeral upt_Suc)
  have inv: "eth_inv (demo_state\<lparr>num_rx_bufs := 255\<rparr>) {#255#} {#}"
    using demo_state_ok(1,3-5) pool by (simp add: eth_inv_def del: upt_rec_numeral upt_Suc)
  note dma = eth_inv_set_buf [OF inv, of "(rx_bufs demo_state ! 255)\<lparr>eb_data := d\<rparr>" 255]
  show "eth_inv (demo_lent d) {#255#} {#}"
    using dma assms lent_buf_data(3) [OF inv, of 255] by (simp add: demo_lent_def device_writes_def)
  show "eth_clients (demo_lent d) = eth_clients demo_state" "num_rx_bufs (demo_lent d) = 255"
    by (simp_all add: demo_lent_def device_writes_def)
  have "length (rx_bufs demo_state) = RX_BUFS" using demo_state_ok(1) by (simp add: eth_inv_def)
  then show "eb_data (rx_bufs (demo_lent d) ! 255) = d"
    by (simp add: demo_lent_def device_writes_def)
qed

section \<open>Properties\<close>

text \<open>
  C1. From a valid configuration \<open>server_init\<close> succeeds, and after every sequence of device
  callbacks, device writes and client calls, each of the 256 receive buffers is in exactly
  one place (free pool, one client's queue, or the device) and each of the 128 transmit
  frames of every client is either free or with the device; every queue index and stack
  pointer stays in range, and \<open>should_notify\<close> holds exactly of the clients with an empty
  queue (\<open>eth_inv\<close>).
\<close>

theorem eth_buffers_never_lost:
  assumes "valid_config cfg" and "poll_ok codes poll"
  shows "\<exists>st rxd txd. server_init cfg poll = Inr st \<and>
    (\<forall>st' rxd' txd'. eth_run codes (st, rxd, txd) (st', rxd', txd') \<longrightarrow> eth_inv st' rxd' txd')"
proof -
  from server_init_ok [OF assms] obtain st rxd txd where
    st: "server_init cfg poll = Inr st" "eth_inv st rxd txd" by blast
  then have "eth_inv st' rxd' txd'" if "eth_run codes (st, rxd, txd) (st', rxd', txd')" for st' rxd' txd'
    using eth_run_inv [OF that] by simp
  with st(1) show ?thesis by blast
qed

theorem eth_buffers_never_lost_witness:
  "\<exists>st rxd txd. server_init demo_config Inr = Inr st \<and>
    (\<forall>st' rxd' txd'. eth_run \<lparr>ETHIF_TX_FAILED = -1, ETHIF_TX_ENQUEUED = 0, ETHIF_TX_COMPLETE = 1\<rparr>
       (st, rxd, txd) (st', rxd', txd') \<longrightarrow> eth_inv st' rxd' txd')"
  by (rule eth_buffers_never_lost [OF demo_valid poll_ok_quiet])



text \<open>
  C3. A received frame whose destination address is that of client \<open>i\<close> is appended to the
  queue of client \<open>i\<close> (or, when that queue is full, its buffer goes back to the pool); no
  other client changes, no buffer content changes, and the client is woken exactly when its
  queue was empty.
\<close>

theorem eth_rx_unicast:
  assumes inv: "eth_inv st (add_mset cur rxd) txd" and len: "unat len \<le> BUF_SIZE"
    and dst: "detect_client (eb_data (rx_bufs st ! cur)) len st = Some i"
  shows "i < length (eth_clients st) \<and> mac_matches (mac (eth_clients st ! i)) (eb_data (rx_bufs st ! cur)) \<and>
    (\<exists>st'. eth_rx_complete [cur] [len] st = Inr st' \<and> eth_inv st' rxd txd \<and> rx_bufs st' = rx_bufs st \<and>
      rxq_items (eth_clients st' ! i) = rxq_items (eth_clients st ! i) @
        (if rx_full (eth_clients st ! i) then [] else [\<lparr>rxf_buf = cur, rxf_len = len, rxf_client = 0\<rparr>]) \<and>
      (\<forall>k < length (eth_clients st). k \<noteq> i \<longrightarrow> eth_clients st' ! k = eth_clients st ! k) \<and>
      eth_emitted st' = eth_emitted st @
        (if rxq_items (eth_clients st ! i) = [] then [client_id (eth_clients st ! i)] else []))"
proof -
  note i = detect_client_less [OF dst]
  have cur: "cur < length (rx_bufs st)" using lent_buf_data(1) [OF inv] by simp
  have wf: "rxq_wf (eth_clients st ! i)"
    using eth_inv_clientD [OF inv] i by (simp add: client_ok_def)
  then have "rxq_items (eth_clients st ! i) = [] \<Longrightarrow> \<not> rx_full (eth_clients st ! i)"
    by (rule empty_not_full)
  with deliver_ok [OF inv _ len, of i] i dst cur show ?thesis
    by (auto simp: eth_rx_complete_def)
qed

theorem eth_rx_unicast_witness:
  "\<exists>st'. eth_rx_complete [255] [64] (demo_lent (2 # 0 # 0 # 0 # 0 # 5 # replicate 2042 1)) = Inr st' \<and>
     rxq_items (eth_clients st' ! 1) = [\<lparr>rxf_buf = 255, rxf_len = 64, rxf_client = 0\<rparr>] \<and>
     rxq_items (eth_clients st' ! 0) = []"
proof -
  let ?d = "(2 :: u8) # 0 # 0 # 0 # 0 # 5 # replicate 2042 1"
  have d: "length ?d = BUF_SIZE" by simp
  obtain a b where ab: "eth_clients demo_state = [a, b]"
    using demo_client0(1) by (metis (no_types) Suc_length_conv length_0_conv numeral_2_eq_2)
  have dst: "detect_client (eb_data (rx_bufs (demo_lent ?d) ! 255)) 64 (demo_lent ?d) = Some 1"
    unfolding demo_lent_ok(3) [OF d] using demo_state_ok(6)
    by (simp add: detect_client_def demo_lent_ok(2) [OF d] ab mac_matches_def)
  from eth_rx_unicast [OF demo_lent_ok(1) [OF d] _ dst] demo_client0 demo_lent_ok(2) [OF d] show ?thesis
    by fastforce
qed

text \<open>
  A broadcast or multicast frame for no particular client goes to client 0 in its own
  buffer, and every other client either is left as it was or gets, at the end of its queue, a
  buffer with a copy of the frame; while the pool has a buffer for each of them, every client
  whose queue has room gets one.
\<close>

theorem eth_rx_broadcast:
  assumes inv: "eth_inv st (add_mset cur rxd) txd" and len: "unat len \<le> BUF_SIZE"
    and dst: "detect_client (eb_data (rx_bufs st ! cur)) len st = None"
    and bc: "is_broadcast (eb_data (rx_bufs st ! cur)) len \<or> is_multicast (eb_data (rx_bufs st ! cur)) len"
  shows "\<exists>st'. eth_rx_complete [cur] [len] st = Inr st' \<and> eth_inv st' rxd txd \<and>
      rxq_items (eth_clients st' ! 0) = rxq_items (eth_clients st ! 0) @
        (if rx_full (eth_clients st ! 0) then [] else [\<lparr>rxf_buf = cur, rxf_len = len, rxf_client = 0\<rparr>]) \<and>
      eb_data (rx_bufs st' ! cur) = eb_data (rx_bufs st ! cur) \<and>
      (\<forall>k \<in> {1..<length (eth_clients st)}. eth_clients st' ! k = eth_clients st ! k \<or> got_frame cur len st st' k) \<and>
      (length (eth_clients st) - 1 \<le> num_rx_bufs st \<longrightarrow>
        (\<forall>k \<in> {1..<length (eth_clients st)}. \<not> rx_full (eth_clients st ! k) \<longrightarrow> got_frame cur len st st' k))"
proof -
  let ?n = "length (eth_clients st)" and ?R = "add_mset cur rxd"
  have n0: "0 < ?n" using inv by (simp add: eth_inv_def)
  have cur: "cur < length (rx_bufs st)" using lent_buf_data(1) [OF inv] by simp
  from duplicate_loop_ok [OF inv _ len, of cur "[1..<?n]"] obtain st1 where
    1: "duplicate_loop [1..<?n] cur len st = Inr st1" "eth_inv st1 ?R txd"
       "dup_post cur len ?R {1..<?n} st st1"
    and all: "?n - 1 \<le> num_rx_bufs st \<Longrightarrow> k \<in> {1..<?n} \<Longrightarrow> \<not> rx_full (eth_clients st ! k) \<Longrightarrow>
       got_frame cur len st st1 k" for k
    by auto
  have n1: "length (eth_clients st1) = ?n" and c0: "eth_clients st1 ! 0 = eth_clients st ! 0"
    and kept: "rx_bufs st1 ! cur = rx_bufs st ! cur"
    using 1(3) n0 by (auto simp: dup_post_def frames_kept_def)
  from deliver_ok [OF 1(2) _ len, of 0] n0 n1 obtain st' where
    2: "deliver 0 cur len st1 = Inr st'" "eth_inv st' rxd txd" "rx_bufs st' = rx_bufs st1"
       "\<forall>k < ?n. k \<noteq> 0 \<longrightarrow> eth_clients st' ! k = eth_clients st1 ! k"
       "rxq_items (eth_clients st' ! 0) = rxq_items (eth_clients st1 ! 0) @
         (if rx_full (eth_clients st1 ! 0) then [] else [\<lparr>rxf_buf = cur, rxf_len = len, rxf_client = 0\<rparr>])"
    by auto
  have got: "got_frame cur len st st' k = got_frame cur len st st1 k" if "k \<in> {1..<?n}" for k
    using that 2(3,4) by (simp add: got_frame_def)
  have "eth_rx_complete [cur] [len] st = Inr st'"
    using dst bc cur 1(1) 2(1) by (auto simp: eth_rx_complete_def)
  moreover have "eth_clients st' ! k = eth_clients st ! k \<or> got_frame cur len st st' k" if "k \<in> {1..<?n}" for k
    using that 1(3) 2(4) got [OF that] by (auto simp: dup_post_def)
  ultimately show ?thesis
    using 2(2,3,5) c0 kept all got by (intro exI [of _ st']) auto
qed

theorem eth_rx_broadcast_witness:
  "\<exists>st'. eth_rx_complete [255] [64] (demo_lent (replicate 2048 0xff)) = Inr st' \<and>
     rxq_items (eth_clients st' ! 0) = [\<lparr>rxf_buf = 255, rxf_len = 64, rxf_client = 0\<rparr>] \<and>
     got_frame 255 64 (demo_lent (replicate 2048 0xff)) st' 1"
proof -
  let ?d = "replicate 2048 0xff :: u8 list"
  have d: "length ?d = BUF_SIZE" by simp
  obtain a b where ab: "eth_clients demo_state = [a, b]"
    using demo_client0(1) by (metis (no_types) Suc_length_conv length_0_conv numeral_2_eq_2)
  have r6: "replicate 6 (255 :: u8) = [255, 255, 255, 255, 255, 255]"
    by (simp add: numeral_eq_Suc)
  have dst: "detect_client (eb_data (rx_bufs (demo_lent ?d) ! 255)) 64 (demo_lent ?d) = None"
    unfolding demo_lent_ok(3) [OF d] using demo_state_ok(6)
    by (simp add: detect_client_def demo_lent_ok(2) [OF d] ab mac_matches_def r6)
  have bc: "is_broadcast (eb_data (rx_bufs (demo_lent ?d) ! 255)) 64"
    unfolding demo_lent_ok(3) [OF d] by (simp add: is_broadcast_def broadcast_def mac_matches_def)
  from eth_rx_broadcast [OF demo_lent_ok(1) [OF d] _ dst disjI1 [OF bc]] demo_client0
    demo_lent_ok(2,4) [OF d] show ?thesis by fastforce
qed

text \<open>
  \<open>client_rx\<close> of client \<open>i\<close> takes the oldest frame of its queue: the reported length and
  the bytes in the dataport are those of the frame, the buffer is freed, the result is 0 when
  it was the last frame and 1 otherwise; on an empty queue it is -1 and nothing is consumed.
\<close>

theorem client_rx_takes_oldest:
  assumes "eth_inv st rxd txd" and "done_init st" and "eth_get_client s st = Some i"
  shows "case rxq_items (eth_clients st ! i) of
      [] \<Rightarrow> client_rx s st = Inr (-1, None, upd_client i (\<lambda>c. c\<lparr>should_notify := True\<rparr>) st) \<and>
            eth_inv (upd_client i (\<lambda>c. c\<lparr>should_notify := True\<rparr>) st) rxd txd
    | f # fs \<Rightarrow> \<exists>st'. client_rx s st = Inr (if fs = [] then 0 else 1, Some (rxf_len f), st') \<and>
            eth_inv st' rxd txd \<and> rxq_items (eth_clients st' ! i) = fs \<and>
            take (unat (rxf_len f)) (dataport (eth_clients st' ! i)) =
              take (unat (rxf_len f)) (eb_data (rx_bufs st ! rxf_buf f)) \<and>
            (\<forall>k < length (eth_clients st). k \<noteq> i \<longrightarrow> eth_clients st' ! k = eth_clients st ! k) \<and>
            rx_bufs st' = rx_bufs st"
  using assms by (rule client_rx_ok)

theorem client_rx_takes_oldest_witness:
  "client_rx 1 demo_state = Inr (-1, None, upd_client 0 (\<lambda>c. c\<lparr>should_notify := True\<rparr>) demo_state)"
  using client_rx_takes_oldest [OF demo_state_ok(1,2) demo_client0(2)] demo_client0(3) by simp

text \<open>
  \<open>client_tx\<close> either changes nothing (before initialisation, a frame shorter than the two
  addresses, no free transmit frame) or hands the device one free frame of the caller that
  holds the first \<open>min len 2048\<close> bytes of the caller's dataport, with the source address
  replaced by the caller's own: a client cannot send under another address. The frame is
  lent exactly when the device enqueued it.
\<close>

theorem client_tx_own_address:
  assumes "eth_inv st rxd (mset completed + txd)"
    and "answer \<noteq> ETHIF_TX_ENQUEUED codes \<Longrightarrow> completed = []"
    and "eth_get_client s st = Some i"
  shows "if done_init st \<and> 12 \<le> len \<and> num_tx (eth_clients st ! i) \<noteq> 0 then
    (\<exists>j st'. client_tx codes s len completed answer st =
        Inr (answer, Some ((i, j), nat (min len (int BUF_SIZE))), st') \<and>
      take (nat (min len (int BUF_SIZE))) (eb_data (txf_buf (tx_mem (eth_clients st' ! i) ! j))) =
        tx_packet (eth_clients st ! i) (nat (min len (int BUF_SIZE))) \<and>
      eth_inv st' rxd (if answer = ETHIF_TX_ENQUEUED codes then add_mset (i, j) txd else txd) \<and>
      done_init st' = done_init st \<and> length (eth_clients st') = length (eth_clients st))
    else client_tx codes s len completed answer st =
      Inr (if done_init st \<and> 12 \<le> len then ETHIF_TX_COMPLETE codes else -1, None, st)"
  using assms by (rule client_tx_ok)

theorem client_tx_own_address_witness:
  "\<exists>j st'. client_tx \<lparr>ETHIF_TX_FAILED = -1, ETHIF_TX_ENQUEUED = 0, ETHIF_TX_COMPLETE = 1\<rparr> 1 60 [] 0 demo_state =
     Inr (0, Some ((0, j), 60), st') \<and> eth_inv st' {#} {#(0, j)#}"
  using client_tx_own_address [of demo_state "{#}" "[]" "{#}" 0
      "\<lparr>ETHIF_TX_FAILED = -1, ETHIF_TX_ENQUEUED = 0, ETHIF_TX_COMPLETE = 1\<rparr>" 1 0 60]
    demo_state_ok(1,2) demo_client0(2) demo_tx_free by auto

end
