(* ===== verification/EthInterface.thy ===== *)
theory EthInterface
  imports EthDriver
begin

text \<open>
  The synchronous Ethernet device of the TCP/IP server, \<open>components/PicoServer/src/eth_interface.c\<close>, on
  top of the shared Ethernet driver: \<open>ethdriver_tx\<close>, \<open>ethdriver_rx\<close> and \<open>ethdriver_mac\<close> are the calls
  \<open>client_tx\<close>, \<open>client_rx\<close> and \<open>client_mac\<close> of \<open>ethdriver.c\<close>, and \<open>ethdriver_buf\<close> is the caller's dataport.
  \<open>s\<close> is the server's badge and \<open>i\<close> the place of its client record in the driver.
\<close>

section \<open>Operations\<close>

definition ETHER_MTU :: int where "ETHER_MTU = 1500"

definition fill_dataport :: "nat \<Rightarrow> u8 list \<Rightarrow> eth_state \<Rightarrow> eth_state outcome" where
  "fill_dataport i bytes st =
     obind (nth_ok (eth_clients st) i) (\<lambda>c.
     obind (memcpy (dataport c) bytes (length bytes)) (\<lambda>d.
       Inr (upd_client i (\<lambda>c. c\<lparr>dataport := d\<rparr>) st)))"

text \<open>The second component is what the device was given.\<close>

definition pico_eth_send ::
  "ethif_codes \<Rightarrow> u32 \<Rightarrow> nat \<Rightarrow> tx_ref list \<Rightarrow> int \<Rightarrow> u8 list \<Rightarrow> eth_state \<Rightarrow>
   (int \<times> (tx_ref \<times> nat) option \<times> eth_state) outcome" where
  "pico_eth_send codes s i completed answer input st =
     (let len = int (length input)
      in obind (ensure (len \<le> ETHER_MTU) AssertionFailed) (\<lambda>_.
         obind (fill_dataport i input st) (\<lambda>st1.
         obind (client_tx codes s len completed answer st1) (\<lambda>(status, given, st2).
           Inr (if status = ETHIF_TX_FAILED codes then 0 else len, given, st2)))))"

text \<open>The loop of \<open>pico_eth_poll\<close>: \<open>delivered\<close> are the frames passed to \<open>pico_stack_recv\<close>.\<close>

fun poll_loop :: "u32 \<Rightarrow> nat \<Rightarrow> nat \<Rightarrow> u8 list list \<Rightarrow> eth_state \<Rightarrow> (nat \<times> u8 list list \<times> eth_state) outcome" where
  "poll_loop s i 0 delivered st = Inr (0, delivered, st)"
| "poll_loop s i (Suc n) delivered st =
     obind (client_rx s st) (\<lambda>(status, len, st1).
       if status = -1 then Inr (Suc n, delivered, st1)
       else
         let frame = take (case len of None \<Rightarrow> 0 | Some l \<Rightarrow> unat l) (dataport (eth_clients st1 ! i))
         in if status = 0 then Inr (n, delivered @ [frame], st1)
            else poll_loop s i n (delivered @ [frame]) st1)"

definition pico_eth_poll :: "u32 \<Rightarrow> nat \<Rightarrow> int \<Rightarrow> eth_state \<Rightarrow> (int \<times> u8 list list \<times> eth_state) outcome" where
  "pico_eth_poll s i loop_score st =
     (if 0 < loop_score then
        obind (poll_loop s i (nat loop_score) [] st) (\<lambda>(n, delivered, st'). Inr (int n, delivered, st'))
      else Inr (loop_score, [], st))"

text \<open>\<open>eth_init\<close>: the address and the MTU of the device, or a fault when the stack refuses it.\<close>

definition low_level_init :: "u32 \<Rightarrow> eth_state \<Rightarrow> (u8 list \<times> int) outcome" where
  "low_level_init s st = obind (client_mac s st) (\<lambda>m. Inr (m, ETHER_MTU))"

definition eth_init :: "(u8 list \<Rightarrow> int) \<Rightarrow> u32 \<Rightarrow> eth_state \<Rightarrow> (int \<times> u8 list \<times> int) outcome" where
  "eth_init pico_device_init s st =
     obind (low_level_init s st) (\<lambda>(m, mtu).
       if pico_device_init m \<noteq> 0 then Inl Fatal else Inr (0, m, mtu))"

section \<open>Clients keep their place\<close>

lemma eth_get_client_loop_cong:
  "map client_id cs = map client_id cs' \<Longrightarrow> eth_get_client_loop cs i s acc = eth_get_client_loop cs' i s acc"
proof (induction cs arbitrary: cs' i acc)
  case (Cons c cs)
  then obtain c' cs2 where "cs' = c' # cs2" "client_id c = client_id c'" "map client_id cs = map client_id cs2"
    by (cases cs') auto
  with Cons.IH [of cs2] show ?case by simp
qed simp

lemma eth_get_client_cong:
  "map client_id (eth_clients st) = map client_id (eth_clients st') \<Longrightarrow> eth_get_client s st = eth_get_client s st'"
  unfolding eth_get_client_def by (rule eth_get_client_loop_cong)

lemma client_rx_keeps:
  assumes "client_rx s st = Inr (r, l, st')" "eth_get_client s st = Some i"
  shows "map client_id (eth_clients st') = map client_id (eth_clients st)" "done_init st' = done_init st"
proof -
  have i: "i < length (eth_clients st)" using eth_get_client_less [OF assms(2)] by simp
  show "map client_id (eth_clients st') = map client_id (eth_clients st)" "done_init st' = done_init st"
    using assms i
    by (auto simp: client_rx_def upd_client_def obind_eq_Inr Let_def rx_pop_def map_upd_same split: if_splits)
qed

section \<open>Receiving\<close>

definition frame_of :: "eth_state \<Rightarrow> rx_frame \<Rightarrow> u8 list" where
  "frame_of st f = take (unat (rxf_len f)) (eb_data (rx_bufs st ! rxf_buf f))"

lemma poll_loop_ok:
  "eth_inv st rxd txd \<Longrightarrow> done_init st \<Longrightarrow> eth_get_client s st = Some i \<Longrightarrow>
   \<exists>st'. poll_loop s i n delivered st =
       Inr (n - min n (length (rxq_items (eth_clients st ! i))),
            delivered @ map (frame_of st) (take n (rxq_items (eth_clients st ! i))), st') \<and>
     eth_inv st' rxd txd \<and> rxq_items (eth_clients st' ! i) = drop n (rxq_items (eth_clients st ! i)) \<and>
     (\<forall>k < length (eth_clients st). k \<noteq> i \<longrightarrow> eth_clients st' ! k = eth_clients st ! k)"
proof (induction n arbitrary: st delivered)
  case 0
  then show ?case by simp
next
  case (Suc n)
  note rx = client_rx_ok [OF Suc.prems]
  have i: "i < length (eth_clients st)" using eth_get_client_less [OF Suc.prems(3)] by simp
  show ?case
  proof (cases "rxq_items (eth_clients st ! i)")
    case Nil
    with rx i show ?thesis
      by (intro exI [of _ "upd_client i (\<lambda>c. c\<lparr>should_notify := True\<rparr>) st"])
        (simp add: upd_client_def)
  next
    case (Cons f fs)
    with rx obtain st1 where 1: "client_rx s st = Inr (if fs = [] then 0 else 1, Some (rxf_len f), st1)"
      "eth_inv st1 rxd txd" "rxq_items (eth_clients st1 ! i) = fs"
      "take (unat (rxf_len f)) (dataport (eth_clients st1 ! i)) = frame_of st f"
      "\<forall>k < length (eth_clients st). k \<noteq> i \<longrightarrow> eth_clients st1 ! k = eth_clients st ! k" "rx_bufs st1 = rx_bufs st"
      by (auto simp: frame_of_def)
    note keeps = client_rx_keeps [OF 1(1) Suc.prems(3)]
    have n1: "length (eth_clients st1) = length (eth_clients st)" using arg_cong [OF keeps(1), of length] by simp
    show ?thesis
    proof (cases "fs = []")
      case True
      with Cons 1 show ?thesis by (intro exI [of _ st1]) simp
    next
      case False
      have "eth_get_client s st1 = Some i" using eth_get_client_cong [OF keeps(1)] Suc.prems(3) by simp
      from Suc.IH [OF 1(2) _ this, of "delivered @ [frame_of st f]"] keeps(2) Suc.prems(2) obtain st' where
        2: "poll_loop s i n (delivered @ [frame_of st f]) st1 =
            Inr (n - min n (length fs), (delivered @ [frame_of st f]) @ map (frame_of st1) (take n fs), st')"
          "eth_inv st' rxd txd" "rxq_items (eth_clients st' ! i) = drop n fs"
          "\<forall>k < length (eth_clients st1). k \<noteq> i \<longrightarrow> eth_clients st' ! k = eth_clients st1 ! k"
        unfolding 1(3) by blast
      have "frame_of st1 = frame_of st" using 1(6) by (simp add: frame_of_def fun_eq_iff)
      with 2 1 Cons False n1 show ?thesis by (intro exI [of _ st']) simp
    qed
  qed
qed

section \<open>Sending\<close>

lemma fill_dataport_ok:
  assumes inv: "eth_inv st rxd txd" and i: "i < length (eth_clients st)" and len: "length bytes \<le> BUF_SIZE"
  obtains st1 where "fill_dataport i bytes st = Inr st1" "eth_inv st1 rxd txd" "done_init st1 = done_init st"
    "take (length bytes) (dataport (eth_clients st1 ! i)) = bytes" "map client_id (eth_clients st1) = map client_id (eth_clients st)"
    "num_tx (eth_clients st1 ! i) = num_tx (eth_clients st ! i)" "mac (eth_clients st1 ! i) = mac (eth_clients st ! i)"
proof -
  let ?c = "eth_clients st ! i"
  note ok = eth_inv_clientD [OF inv i]
  have port: "BUF_SIZE \<le> length (dataport ?c)" using ok by (simp add: client_ok_def)
  let ?d = "bytes @ drop (length bytes) (dataport ?c)"
  let ?st1 = "upd_client i (\<lambda>c. c\<lparr>dataport := ?d\<rparr>) st"
  have "fill_dataport i bytes st = Inr ?st1" using i len port by (simp add: fill_dataport_def)
  moreover have "client_ok txd i (?c\<lparr>dataport := ?d\<rparr>)" using ok len port by (simp add: client_ok_def)
  then have "eth_inv ?st1 rxd txd" unfolding upd_client_def by (rule eth_inv_set_client [OF inv i]) simp
  ultimately show thesis
    by (rule that) (use i in \<open>simp_all add: upd_client_def map_upd_same\<close>)
qed

text \<open>A send hands the device the given bytes with the client's own source address. When the client has
  no free transmit frame the driver answers \<open>ETHIF_TX_COMPLETE\<close>, so the frame is reported as sent and
  lost.\<close>

lemma pico_eth_send_ok:
  assumes inv: "eth_inv st rxd (mset completed + txd)" and drv: "answer \<noteq> ETHIF_TX_ENQUEUED codes \<Longrightarrow> completed = []"
    and who: "eth_get_client s st = Some i" and d: "done_init st"
    and len: "12 \<le> length input" "length input \<le> 1500" and codes: "ETHIF_TX_FAILED codes \<noteq> ETHIF_TX_COMPLETE codes"
  shows "if num_tx (eth_clients st ! i) \<noteq> 0 then
      (\<exists>j st'. pico_eth_send codes s i completed answer input st =
          Inr (if answer = ETHIF_TX_FAILED codes then 0 else int (length input), Some ((i, j), length input), st') \<and>
        take (length input) (eb_data (txf_buf (tx_mem (eth_clients st' ! i) ! j))) =
          take 6 input @ mac (eth_clients st ! i) @ drop 12 input \<and>
        eth_inv st' rxd (if answer = ETHIF_TX_ENQUEUED codes then add_mset (i, j) txd else txd))
    else (\<exists>st'. pico_eth_send codes s i completed answer input st = Inr (int (length input), None, st'))"
proof -
  have i: "i < length (eth_clients st)" using eth_get_client_less [OF who] by simp
  have len2: "length input \<le> BUF_SIZE" using len(2) by simp
  obtain st1 where 1: "fill_dataport i input st = Inr st1" "eth_inv st1 rxd (mset completed + txd)"
    "done_init st1 = done_init st" "take (length input) (dataport (eth_clients st1 ! i)) = input"
    "map client_id (eth_clients st1) = map client_id (eth_clients st)"
    "num_tx (eth_clients st1 ! i) = num_tx (eth_clients st ! i)" "mac (eth_clients st1 ! i) = mac (eth_clients st ! i)"
    by (rule fill_dataport_ok [OF inv i len2])
  have who1: "eth_get_client s st1 = Some i" using eth_get_client_cong [OF 1(5)] who by simp
  have mtu: "int (length input) \<le> ETHER_MTU" using len(2) by (simp add: ETHER_MTU_def)
  have unf: "pico_eth_send codes s i completed answer input st =
      obind (client_tx codes s (int (length input)) completed answer st1) (\<lambda>(status, given, st2).
        Inr (if status = ETHIF_TX_FAILED codes then 0 else int (length input), given, st2))"
    using mtu 1(1) by (simp add: pico_eth_send_def Let_def)
  have mn: "min (int (length input)) (int BUF_SIZE) = int (length input)" using len2 by simp
  have "take 6 (take (length input) (dataport (eth_clients st1 ! i))) = take 6 (dataport (eth_clients st1 ! i))"
    unfolding take_take using len(1) by (simp add: min_def)
  then have "take 6 (dataport (eth_clients st1 ! i)) = take 6 input" unfolding 1(4) by simp
  then have pk: "tx_packet (eth_clients st1 ! i) (length input) = take 6 input @ mac (eth_clients st ! i) @ drop 12 input"
    by (simp add: tx_packet_def 1(4,7))
  note tx = client_tx_ok [where codes = codes and answer = answer and len = "int (length input)",
      OF 1(2) drv who1, unfolded mn nat_int pk 1(3,6)]
  have ready: "done_init st \<and> 12 \<le> int (length input)" using d len(1) by simp
  show ?thesis
  proof (cases "num_tx (eth_clients st ! i) = 0")
    case True
    with tx ready codes unf show ?thesis by simp
  next
    case False
    with tx ready obtain j st' where "client_tx codes s (int (length input)) completed answer st1 =
        Inr (answer, Some ((i, j), length input), st')"
      "take (length input) (eb_data (txf_buf (tx_mem (eth_clients st' ! i) ! j))) =
        take 6 input @ mac (eth_clients st ! i) @ drop 12 input"
      "eth_inv st' rxd (if answer = ETHIF_TX_ENQUEUED codes then add_mset (i, j) txd else txd)" by auto
    with False unf show ?thesis by (auto intro!: exI [of _ j] exI [of _ st'])
  qed
qed

section \<open>Properties\<close>

text \<open>
  C4. A poll of the Ethernet device passes the frames that the driver holds for this client to the stack,
  oldest first and with the driver's bytes and lengths, until the score is used up or none is left; it
  takes them off the client's queue, keeps the driver's invariant and touches no other client.
\<close>
theorem iface_poll_in_order:
  assumes "eth_inv st rxd txd" and "done_init st" and "eth_get_client s st = Some i" and "0 < loop_score"
  shows "let frames = rxq_items (eth_clients st ! i); k = min (nat loop_score) (length frames)
    in \<exists>st'. pico_eth_poll s i loop_score st = Inr (loop_score - int k, map (frame_of st) (take k frames), st') \<and>
      eth_inv st' rxd txd \<and> rxq_items (eth_clients st' ! i) = drop k frames \<and>
      (\<forall>j < length (eth_clients st). j \<noteq> i \<longrightarrow> eth_clients st' ! j = eth_clients st ! j)"
proof -
  let ?fs = "rxq_items (eth_clients st ! i)" and ?n = "nat loop_score"
  have tk: "take (min ?n (length ?fs)) ?fs = take ?n ?fs" "drop (min ?n (length ?fs)) ?fs = drop ?n ?fs"
    by (simp_all add: min_def)
  from poll_loop_ok [OF assms(1-3), of ?n "[]"] obtain st' where
    "poll_loop s i ?n [] st = Inr (?n - min ?n (length ?fs), [] @ map (frame_of st) (take ?n ?fs), st')"
    "eth_inv st' rxd txd" "rxq_items (eth_clients st' ! i) = drop ?n ?fs"
    "\<forall>j < length (eth_clients st). j \<noteq> i \<longrightarrow> eth_clients st' ! j = eth_clients st ! j" by blast
  then show ?thesis
    using assms(4) unfolding Let_def tk by (intro exI [of _ st']) (simp add: pico_eth_poll_def of_nat_diff)
qed

definition one_frame :: "u8 list" where
  "one_frame = 2 # 0 # 0 # 0 # 0 # 4 # replicate 2042 1"

lemma one_frame_state:
  obtains st where "eth_inv st {#} {#}" "done_init st" "eth_get_client 1 st = Some 0"
    "rxq_items (eth_clients st ! 0) = [\<lparr>rxf_buf = 255, rxf_len = 64, rxf_client = 0\<rparr>]"
    "deliver 0 255 64 (demo_lent one_frame) = Inr st"
proof -
  have d: "length one_frame = BUF_SIZE" by (simp add: one_frame_def)
  note lent = demo_lent_ok [OF d]
  have two: "0 < length (eth_clients (demo_lent one_frame))" using lent(2) demo_client0(1) by simp
  from deliver_ok [OF lent(1) two, of 64] obtain st where
    1: "deliver 0 255 64 (demo_lent one_frame) = Inr st" "eth_inv st {#} {#}" "done_init st = done_init (demo_lent one_frame)"
      "rxq_items (eth_clients st ! 0) = rxq_items (eth_clients (demo_lent one_frame) ! 0) @
        (if rx_full (eth_clients (demo_lent one_frame) ! 0) then [] else [\<lparr>rxf_buf = 255, rxf_len = 64, rxf_client = 0\<rparr>])"
    by auto
  have ids: "map client_id (eth_clients st) = map client_id (eth_clients (demo_lent one_frame))"
    using 1(1) two demo_client0(5) lent(2)
    by (auto simp: deliver_def give_client_buf_def obind_eq_Inr nth_ok_eq_Inr upd_client_def Let_def map_upd_same split: if_splits)
  have "eth_get_client 1 st = Some 0"
    using eth_get_client_cong [OF ids] eth_get_client_cong [of "demo_lent one_frame" demo_state] lent(2) demo_client0(2) by simp
  moreover have "done_init st" using 1(3) demo_state_ok(2) by (simp add: demo_lent_def device_writes_def)
  ultimately show thesis using that 1 lent(2) demo_client0(3,5) by simp
qed

theorem iface_poll_in_order_witness:
  "\<exists>st frame st'. deliver 0 255 64 (demo_lent one_frame) = Inr st \<and> pico_eth_poll 1 0 5 st = Inr (4, [frame], st')"
proof -
  obtain st where st: "eth_inv st {#} {#}" "done_init st" "eth_get_client 1 st = Some 0"
    "rxq_items (eth_clients st ! 0) = [\<lparr>rxf_buf = 255, rxf_len = 64, rxf_client = 0\<rparr>]"
    "deliver 0 255 64 (demo_lent one_frame) = Inr st"
    by (rule one_frame_state)
  from iface_poll_in_order [OF st(1-3), of 5] st(4,5) show ?thesis by (auto simp: Let_def)
qed

end
