(* ===== verification/EthAsync.thy ===== *)
theory EthAsync
  imports Prelude
begin

text \<open>
  The asynchronous Ethernet transport for PicoTCP, \<open>remote-drivers/picotcp-ethernet-async\<close>:
  \<open>client.c\<close> is a network device of the client's stack, \<open>server.c\<close> runs beside the Ethernet driver,
  and a pair of virtqueues carries buffers between them. Transmit buffers start in the client's pool
  \<open>pending_tx\<close>, receive buffers are all handed to the server at the start.

  The virtqueue library, the dataport library, the stack and the Ethernet driver are not in the
  repository. The library's operations are a parameter \<open>L\<close> over an abstract queue shared by both
  sides; \<open>vq_lib_ok\<close> states what its documentation promises. The stack and the driver answer
  depending on everything handed to them so far; the driver may call back into the server during
  \<open>raw_tx\<close> and \<open>raw_poll\<close>. Cache maintenance and log messages are left out.
\<close>

section \<open>Libraries\<close>

text \<open>\<open>dataport_wrap_ptr\<close> and \<open>dataport_unwrap_ptr\<close>, the physical address of a buffer, and the macros that
  pack a wrapped pointer.\<close>

record dataports =
  dataport_wrap_ptr :: "u64 \<Rightarrow> u32 \<times> u64"
  dataport_unwrap_ptr :: "u32 \<times> u64 \<Rightarrow> u64"
  ps_dma_pin :: "u64 \<Rightarrow> u64"

definition ENCODE_DMA_ADDRESS :: "dataports \<Rightarrow> u64 \<Rightarrow> u64" where
  "ENCODE_DMA_ADDRESS dp buf =
     (let wrapped_ptr = dataport_wrap_ptr dp buf
      in push_bit 32 (ucast (fst wrapped_ptr)) OR snd wrapped_ptr)"

definition DECODE_DMA_ADDRESS :: "dataports \<Rightarrow> u64 \<Rightarrow> u64" where
  "DECODE_DMA_ADDRESS dp buf = dataport_unwrap_ptr dp (ucast (drop_bit 32 buf), buf AND mask 32)"

text \<open>A ring entry is named by its head descriptor. The first group of fields is read directly by
  the code; an operation that fails returns \<open>None\<close> and leaves the queue as it is.\<close>

record 'v vq_lib =
  u_ring_last_seen :: "'v \<Rightarrow> u32"
  used_idx :: "'v \<Rightarrow> u32"
  used_ring :: "'v \<Rightarrow> u32 \<Rightarrow> u32 \<times> u32"
  a_ring_last_seen :: "'v \<Rightarrow> u32"
  avail_idx :: "'v \<Rightarrow> u32"
  avail_ring :: "'v \<Rightarrow> u32 \<Rightarrow> u32"
  queue_len :: "'v \<Rightarrow> u32"
  virtqueue_get_used_buf :: "'v \<Rightarrow> (u32 \<times> u32 \<times> 'v) option"
  virtqueue_gather_used :: "'v \<Rightarrow> u32 \<Rightarrow> u32 \<Rightarrow> (u64 \<times> u32 \<times> 'v) option"
  virtqueue_add_available_buf :: "'v \<Rightarrow> u64 \<Rightarrow> u32 \<Rightarrow> 'v option"
  virtqueue_get_available_buf :: "'v \<Rightarrow> (u32 \<times> 'v) option"
  virtqueue_gather_available :: "'v \<Rightarrow> u32 \<Rightarrow> (u64 \<times> u32) option"
  virtqueue_add_used_buf :: "'v \<Rightarrow> u32 \<Rightarrow> u32 \<Rightarrow> 'v option"

definition BUF_SIZE :: nat where "BUF_SIZE = 2048"
definition NUM_TX_BUFS :: nat where "NUM_TX_BUFS = 254"
definition NUM_RX_BUFS :: nat where "NUM_RX_BUFS = 254"

section \<open>The client\<close>

record 'v client_state =
  num_tx :: nat
  pending_tx :: "u64 list"
  c_mac :: "u8 list"
  c_tx_virtqueue :: 'v
  c_rx_virtqueue :: 'v
  c_action :: bool

text \<open>Memory the client and the server share: a buffer is named by its address.\<close>

type_synonym memory = "u64 \<Rightarrow> u8 list option"

definition write_mem :: "memory \<Rightarrow> u64 \<Rightarrow> u8 list \<Rightarrow> memory outcome" where
  "write_mem mem p bytes =
     (case mem p of
        None \<Rightarrow> Inl OutOfBounds
      | Some old \<Rightarrow> obind (memcpy old bytes (length bytes)) (\<lambda>new. Inr (mem(p \<mapsto> new))))"

text \<open>The buffer \<open>pico_eth_send\<close> fills: one the server has returned, or one from the pool.\<close>

definition take_tx_buf ::
  "'v vq_lib \<Rightarrow> dataports \<Rightarrow> 'v client_state \<Rightarrow> (u64 \<times> 'v client_state) option outcome" where
  "take_tx_buf L dp st =
     (case virtqueue_get_used_buf L (c_tx_virtqueue st) of
        None \<Rightarrow>
          if num_tx st \<noteq> 0 then
            obind (nth_ok (pending_tx st) (num_tx st - 1))
              (\<lambda>buf. Inr (Some (buf, st\<lparr>num_tx := num_tx st - 1\<rparr>)))
          else Inr None
      | Some (handle, sent_len, q) \<Rightarrow>
          (case virtqueue_gather_used L q handle sent_len of
             None \<Rightarrow> Inl Fatal
           | Some (buf, _, q') \<Rightarrow> Inr (Some (DECODE_DMA_ADDRESS dp buf, st\<lparr>c_tx_virtqueue := q'\<rparr>))))"

definition pico_eth_send ::
  "'v vq_lib \<Rightarrow> dataports \<Rightarrow> 'v client_state \<times> memory \<Rightarrow> u8 list \<Rightarrow> (cint \<times> 'v client_state \<times> memory) outcome" where
  "pico_eth_send L dp = (\<lambda>(st, mem) input_buf.
     obind (take_tx_buf L dp st) (\<lambda>r. case r of
       None \<Rightarrow> Inr (0, st, mem)
     | Some (buf, st1) \<Rightarrow>
         obind (write_mem mem buf input_buf) (\<lambda>mem1.
           case virtqueue_add_available_buf L (c_tx_virtqueue st1) (ENCODE_DMA_ADDRESS dp buf)
                  (of_nat (length input_buf)) of
             None \<Rightarrow> Inl Fatal
           | Some q \<Rightarrow> Inr (of_nat (length input_buf), st1\<lparr>c_tx_virtqueue := q, c_action := True\<rparr>, mem1))))"

text \<open>All devices of a client component, and the global table that maps a dataport to its device.
  \<open>mapper_size\<close> is the usable size of the allocation \<open>mapper\<close> points to, \<open>delivered\<close> what was given
  to the stack: device, address, length.\<close>

record 'v client_lib =
  states :: "'v client_state list"
  mapper :: "(u32 \<times> nat) list"
  mapper_size :: nat
  delivered :: "(nat \<times> u64 \<times> u32) list"

fun mapper_find :: "(u32 \<times> nat) list \<Rightarrow> u32 \<Rightarrow> nat option" where
  "mapper_find [] i = None"
| "mapper_find ((dataport_id, state) # ms) i = (if dataport_id = i then Some state else mapper_find ms i)"

definition pico_free_buf :: "'v vq_lib \<Rightarrow> dataports \<Rightarrow> 'v client_lib \<Rightarrow> u64 \<Rightarrow> 'v client_lib outcome" where
  "pico_free_buf L dp cl buf =
     (case mapper_find (mapper cl) (fst (dataport_wrap_ptr dp buf)) of
        None \<Rightarrow> Inl NullDeref
      | Some s \<Rightarrow>
          obind (nth_ok (states cl) s) (\<lambda>st.
            case virtqueue_add_available_buf L (c_rx_virtqueue st) (ENCODE_DMA_ADDRESS dp buf) (of_nat BUF_SIZE) of
              None \<Rightarrow> Inl Fatal
            | Some q \<Rightarrow> Inr (cl\<lparr>states := (states cl)[s := st\<lparr>c_rx_virtqueue := q\<rparr>]\<rparr>)))"

text \<open>\<open>pico_eth_poll\<close> on device \<open>d\<close>: every round but the last lowers \<open>loop_score\<close>, so the loop is a
  recursion on it. \<open>recv\<close> is \<open>pico_stack_recv\<close>.\<close>

definition poll_receive ::
  "((nat \<times> u64 \<times> u32) list \<Rightarrow> cint) \<Rightarrow> dataports \<Rightarrow> nat \<Rightarrow> u64 \<Rightarrow> u32 \<Rightarrow> 'v client_lib \<Rightarrow> bool \<times> 'v client_lib" where
  "poll_receive recv dp d buf len cl =
     (if 0 < len then
        let given = delivered cl @ [(d, DECODE_DMA_ADDRESS dp buf, len)]
        in (0 < sint (recv given), cl\<lparr>delivered := given\<rparr>)
      else (True, cl))"

definition poll_consume :: "'v vq_lib \<Rightarrow> nat \<Rightarrow> 'v client_lib \<Rightarrow> 'v client_lib outcome" where
  "poll_consume L d cl =
     obind (nth_ok (states cl) d) (\<lambda>st.
       case virtqueue_get_used_buf L (c_rx_virtqueue st) of
         None \<Rightarrow> Inr cl
       | Some (_, _, q) \<Rightarrow> Inr (cl\<lparr>states := (states cl)[d := st\<lparr>c_rx_virtqueue := q\<rparr>]\<rparr>))"

fun poll_loop ::
  "'v vq_lib \<Rightarrow> ((nat \<times> u64 \<times> u32) list \<Rightarrow> cint) \<Rightarrow> dataports \<Rightarrow> nat \<Rightarrow> nat \<Rightarrow> 'v client_lib \<Rightarrow>
   (nat \<times> 'v client_lib) outcome" where
  "poll_loop L recv dp d 0 cl = Inr (0, cl)"
| "poll_loop L recv dp d (Suc n) cl =
     obind (nth_ok (states cl) d) (\<lambda>st.
       let q = c_rx_virtqueue st;
           next = (u_ring_last_seen L q + 1) AND (queue_len L q - 1)
       in if next = used_idx L q then Inr (Suc n, cl)
          else (case virtqueue_gather_used L q (fst (used_ring L q next)) (snd (used_ring L q next)) of
                  None \<Rightarrow> Inl Fatal
                | Some (buf, len, q') \<Rightarrow>
                    (case poll_receive recv dp d buf len
                            (cl\<lparr>states := (states cl)[d := st\<lparr>c_rx_virtqueue := q'\<rparr>]\<rparr>) of
                       (False, cl1) \<Rightarrow> Inr (Suc n, cl1)
                     | (True, cl1) \<Rightarrow>
                         obind (poll_consume L d cl1) (\<lambda>cl2.
                         obind (pico_free_buf L dp cl2 (DECODE_DMA_ADDRESS dp buf)) (\<lambda>cl3.
                         poll_loop L recv dp d n cl3)))))"

definition pico_eth_poll ::
  "'v vq_lib \<Rightarrow> ((nat \<times> u64 \<times> u32) list \<Rightarrow> cint) \<Rightarrow> dataports \<Rightarrow> nat \<Rightarrow> cint \<Rightarrow> 'v client_lib \<Rightarrow>
   (cint \<times> 'v client_lib) outcome" where
  "pico_eth_poll L recv dp d loop_score cl =
     (if 0 < sint loop_score then
        obind (poll_loop L recv dp d (nat (sint loop_score)) cl) (\<lambda>(n, cl'). Inr (of_nat n, cl'))
      else Inr (loop_score, cl))"

text \<open>\<open>notify_server\<close>: the result says whether the server is notified.\<close>

definition notify_server :: "'v client_state \<Rightarrow> bool \<times> 'v client_state" where
  "notify_server st = (if c_action st then (True, st\<lparr>c_action := False\<rparr>) else (False, st))"

text \<open>Initialisation. \<open>sizeof(struct id_state_mapper)\<close> is 16 on a 64-bit machine; \<open>usable n\<close> is the size
  of the block that \<open>realloc\<close> provides for \<open>n\<close> bytes. \<open>dma k\<close> is the result of the \<open>k\<close>-th
  allocation of the call.\<close>

definition sizeof_mapper :: nat where "sizeof_mapper = 16"

definition register_mapper ::
  "dataports \<Rightarrow> (nat \<Rightarrow> nat) \<Rightarrow> nat \<Rightarrow> u64 \<Rightarrow> 'v client_lib \<Rightarrow> 'v client_lib outcome" where
  "register_mapper dp usable s buf cl =
     (let mapper_len = length (mapper cl); size = usable (mapper_len + 1)
      in if (mapper_len + 1) * sizeof_mapper \<le> size
         then Inr (cl\<lparr>mapper := mapper cl @ [(fst (dataport_wrap_ptr dp buf), s)], mapper_size := size\<rparr>)
         else Inl OutOfBounds)"

fun init_rx_bufs ::
  "'v vq_lib \<Rightarrow> dataports \<Rightarrow> (nat \<Rightarrow> nat) \<Rightarrow> (nat \<Rightarrow> u64 option) \<Rightarrow> nat \<Rightarrow> nat list \<Rightarrow> bool \<Rightarrow>
   'v client_lib \<times> 'v client_state \<times> memory \<Rightarrow> ('v client_lib \<times> 'v client_state \<times> memory) outcome" where
  "init_rx_bufs L dp usable dma s [] add_to_mapper x = Inr x"
| "init_rx_bufs L dp usable dma s (i # ks) add_to_mapper (cl, st, mem) =
     (case dma i of
        None \<Rightarrow> Inl Fatal
      | Some buf \<Rightarrow>
          obind (if add_to_mapper then Inr cl else register_mapper dp usable s buf cl) (\<lambda>cl1.
            case virtqueue_add_available_buf L (c_rx_virtqueue st) (ENCODE_DMA_ADDRESS dp buf) (of_nat BUF_SIZE) of
              None \<Rightarrow> Inl Fatal
            | Some q \<Rightarrow>
                init_rx_bufs L dp usable dma s ks True
                  (cl1, st\<lparr>c_rx_virtqueue := q\<rparr>, mem(buf \<mapsto> replicate BUF_SIZE 0))))"

fun init_tx_bufs ::
  "(nat \<Rightarrow> u64 option) \<Rightarrow> nat list \<Rightarrow> 'v client_state \<times> memory \<Rightarrow> ('v client_state \<times> memory) outcome" where
  "init_tx_bufs dma [] x = Inr x"
| "init_tx_bufs dma (i # ks) (st, mem) =
     (case dma i of
        None \<Rightarrow> Inl Fatal
      | Some buf \<Rightarrow>
          obind (upd_ok (pending_tx st) (num_tx st) buf) (\<lambda>bufs.
            init_tx_bufs dma ks
              (st\<lparr>pending_tx := bufs, num_tx := num_tx st + 1\<rparr>, mem(buf \<mapsto> replicate BUF_SIZE 0))))"

text \<open>\<open>alloc_ok\<close>: \<open>ps_calloc\<close> succeeds (its error code is not looked at). \<open>txq\<close> and \<open>rxq\<close> are the queues
  after \<open>camkes_virtqueue_driver_init_with_recv\<close>, whose errors are only logged.\<close>

definition picotcp_ethernet_async_client_init ::
  "'v vq_lib \<Rightarrow> dataports \<Rightarrow> (nat \<Rightarrow> nat) \<Rightarrow> (nat \<Rightarrow> u64 option) \<Rightarrow> bool \<Rightarrow> 'v \<Rightarrow> 'v \<Rightarrow> u8 list \<Rightarrow> (u8 list \<Rightarrow> cint) \<Rightarrow>
   'v client_lib \<times> memory \<Rightarrow> (cint \<times> 'v client_lib \<times> memory) outcome" where
  "picotcp_ethernet_async_client_init L dp usable dma alloc_ok txq rxq get_mac pico_device_init = (\<lambda>(cl, mem).
     if \<not> alloc_ok then Inl NullDeref
     else
       let s = length (states cl);
           data = \<lparr>num_tx = 0, pending_tx = replicate NUM_TX_BUFS 0, c_mac = replicate 6 0,
                   c_tx_virtqueue = txq, c_rx_virtqueue = rxq, c_action = False\<rparr>
       in obind (init_rx_bufs L dp usable dma s [0..<NUM_RX_BUFS] False (cl, data, mem)) (\<lambda>(cl1, data1, mem1).
          obind (init_tx_bufs dma [NUM_RX_BUFS..<NUM_RX_BUFS + NUM_TX_BUFS] (data1, mem1)) (\<lambda>(data2, mem2).
          Inr (if pico_device_init get_mac \<noteq> 0 then 1 else 0, cl1\<lparr>states := states cl1 @ [data2]\<rparr>, mem2))))"

section \<open>The server\<close>

text \<open>What passed between the server and the Ethernet driver: a transmission offered by \<open>raw_tx\<close>
  (address, length, cookie, whether it was enqueued), a completed one, a receive buffer handed out and
  one that came back.\<close>

datatype hw_event = HwTx u64 u32 u32 bool | HwTxDone u32 | HwAlloc u32 | HwRxDone u32

record 'v server_data =
  s_tx_virtqueue :: 'v
  s_rx_virtqueue :: 'v
  s_action :: bool
  blocked_tx :: bool
  no_rx_bufs :: bool
  hw_mac :: "u8 list"
  hw_log :: "hw_event list"

definition log_hw :: "hw_event \<Rightarrow> 'v server_data \<Rightarrow> 'v server_data" where
  "log_hw e sv = sv\<lparr>hw_log := hw_log sv @ [e]\<rparr>"

definition eth_tx_complete :: "'v vq_lib \<Rightarrow> u32 \<Rightarrow> 'v server_data \<Rightarrow> 'v server_data outcome" where
  "eth_tx_complete L cookie sv =
     (case virtqueue_add_used_buf L (s_tx_virtqueue sv) cookie (of_nat BUF_SIZE) of
        None \<Rightarrow> Inl Fatal
      | Some q \<Rightarrow>
          Inr (log_hw (HwTxDone cookie)
            (sv\<lparr>s_tx_virtqueue := q, s_action := (if blocked_tx sv then True else s_action sv)\<rparr>)))"

text \<open>The result is the pinned address and the cookie; \<open>None\<close> is the address 0.\<close>

definition eth_allocate_rx_buf ::
  "'v vq_lib \<Rightarrow> dataports \<Rightarrow> nat \<Rightarrow> 'v server_data \<Rightarrow> ((u64 \<times> u32) option \<times> 'v server_data) outcome" where
  "eth_allocate_rx_buf L dp buf_size sv =
     (if BUF_SIZE < buf_size then Inr (None, sv)
      else (case virtqueue_get_available_buf L (s_rx_virtqueue sv) of
              None \<Rightarrow> Inr (None, sv\<lparr>no_rx_bufs := True\<rparr>)
            | Some (handle, q) \<Rightarrow>
                (case virtqueue_gather_available L q handle of
                   None \<Rightarrow> Inl Fatal
                 | Some (buf, _) \<Rightarrow>
                     Inr (Some (ps_dma_pin dp (DECODE_DMA_ADDRESS dp buf), handle),
                          log_hw (HwAlloc handle) (sv\<lparr>s_rx_virtqueue := q, no_rx_bufs := False\<rparr>)))))"

definition return_rx :: "'v vq_lib \<Rightarrow> u32 \<Rightarrow> u32 \<Rightarrow> 'v server_data \<Rightarrow> 'v server_data outcome" where
  "return_rx L cookie len sv =
     (case virtqueue_add_used_buf L (s_rx_virtqueue sv) cookie len of
        None \<Rightarrow> Inl Fatal
      | Some q \<Rightarrow> Inr (log_hw (HwRxDone cookie) (sv\<lparr>s_rx_virtqueue := q\<rparr>)))"

fun drop_rx :: "'v vq_lib \<Rightarrow> u32 list \<Rightarrow> 'v server_data \<Rightarrow> 'v server_data outcome" where
  "drop_rx L [] sv = Inr sv"
| "drop_rx L (cookie # cs) sv = obind (return_rx L cookie 0 sv) (drop_rx L cs)"

definition eth_rx_complete :: "'v vq_lib \<Rightarrow> u32 list \<Rightarrow> u32 list \<Rightarrow> 'v server_data \<Rightarrow> 'v server_data outcome" where
  "eth_rx_complete L cookies lens sv =
     obind (if length cookies \<noteq> 1 then drop_rx L cookies sv
            else obind (nth_ok lens 0) (\<lambda>len. return_rx L (cookies ! 0) len sv))
       (\<lambda>sv'. Inr (sv'\<lparr>s_action := True\<rparr>))"

definition client_get_mac :: "'v server_data \<Rightarrow> u8 list" where
  "client_get_mac sv = take 6 (hw_mac sv)"

text \<open>The driver: which callbacks it makes during \<open>raw_tx\<close>, whether it then enqueues the frame, and
  which callbacks it makes during \<open>raw_poll\<close>.\<close>

datatype callback = TxComplete u32 | AllocateRx nat | RxComplete "u32 list" "u32 list"

record eth_hw =
  raw_tx :: "hw_event list \<Rightarrow> u64 \<times> u32 \<times> u32 \<Rightarrow> callback list \<times> bool"
  raw_poll :: "hw_event list \<Rightarrow> callback list"

fun run_callbacks ::
  "'v vq_lib \<Rightarrow> dataports \<Rightarrow> callback list \<Rightarrow> 'v server_data \<Rightarrow> 'v server_data outcome" where
  "run_callbacks L dp [] sv = Inr sv"
| "run_callbacks L dp (TxComplete c # cbs) sv = obind (eth_tx_complete L c sv) (run_callbacks L dp cbs)"
| "run_callbacks L dp (AllocateRx n # cbs) sv =
     obind (eth_allocate_rx_buf L dp n sv) (\<lambda>(_, sv'). run_callbacks L dp cbs sv')"
| "run_callbacks L dp (RxComplete cs ls # cbs) sv =
     obind (eth_rx_complete L cs ls sv) (run_callbacks L dp cbs)"

text \<open>The loop of \<open>virt_queue_handle_irq\<close> with fuel.\<close>

fun tx_irq_loop ::
  "'v vq_lib \<Rightarrow> dataports \<Rightarrow> eth_hw \<Rightarrow> nat \<Rightarrow> 'v server_data \<Rightarrow> 'v server_data outcome" where
  "tx_irq_loop L dp hw 0 sv = Inl OutOfFuel"
| "tx_irq_loop L dp hw (Suc n) sv =
     (let q = s_tx_virtqueue sv;
          next = (a_ring_last_seen L q + 1) AND (queue_len L q - 1);
          handle = avail_ring L q next
      in if next = avail_idx L q then Inr sv
         else (case virtqueue_gather_available L q handle of
                 None \<Rightarrow> Inl Fatal
               | Some (buf, len) \<Rightarrow>
                   let phys = ps_dma_pin dp (DECODE_DMA_ADDRESS dp buf);
                       (cbs, enqueued) = raw_tx hw (hw_log sv) (phys, len, handle)
                   in obind (run_callbacks L dp cbs sv) (\<lambda>sv1.
                      let sv2 = log_hw (HwTx phys len handle enqueued) sv1
                      in if \<not> enqueued then Inr (sv2\<lparr>blocked_tx := True\<rparr>)
                         else tx_irq_loop L dp hw n
                                (sv2\<lparr>blocked_tx := False,
                                     s_tx_virtqueue :=
                                       (case virtqueue_get_available_buf L (s_tx_virtqueue sv2) of
                                          None \<Rightarrow> s_tx_virtqueue sv2
                                        | Some (_, q') \<Rightarrow> q')\<rparr>))))"

definition virt_queue_handle_irq ::
  "'v vq_lib \<Rightarrow> dataports \<Rightarrow> eth_hw \<Rightarrow> 'v server_data \<Rightarrow> 'v server_data outcome" where
  "virt_queue_handle_irq L dp hw sv =
     obind (if no_rx_bufs sv then run_callbacks L dp (raw_poll hw (hw_log sv)) sv else Inr sv)
       (\<lambda>sv1. tx_irq_loop L dp hw (unat (queue_len L (s_tx_virtqueue sv1))) sv1)"

text \<open>\<open>notify_client\<close>: the result says whether the client is notified.\<close>

definition notify_client ::
  "'v vq_lib \<Rightarrow> dataports \<Rightarrow> eth_hw \<Rightarrow> 'v server_data \<Rightarrow> (bool \<times> 'v server_data) outcome" where
  "notify_client L dp hw sv =
     (if s_action sv then
        obind (if blocked_tx sv then virt_queue_handle_irq L dp hw sv else Inr sv)
          (\<lambda>sv1. Inr (True, sv1\<lparr>s_action := False\<rparr>))
      else Inr (False, sv))"

text \<open>\<open>found\<close>: an Ethernet device is registered. The errors of the queue and handler registrations are
  only logged.\<close>

definition picotcp_ethernet_async_server_init ::
  "'v vq_lib \<Rightarrow> dataports \<Rightarrow> eth_hw \<Rightarrow> bool \<Rightarrow> bool \<Rightarrow> 'v \<Rightarrow> 'v \<Rightarrow> u8 list \<Rightarrow> (cint \<times> 'v server_data) outcome" where
  "picotcp_ethernet_async_server_init L dp hw alloc_ok found txq rxq mac =
     (if \<not> alloc_ok then Inl NullDeref
      else if \<not> found then Inl Fatal
      else
        let data = \<lparr>s_tx_virtqueue = txq, s_rx_virtqueue = rxq, s_action = False, blocked_tx = False,
                    no_rx_bufs = False, hw_mac = mac, hw_log = []\<rparr>
        in obind (run_callbacks L dp (raw_poll hw []) data) (\<lambda>sv. Inr (0, sv)))"

section \<open>What the virtqueue library promises\<close>

text \<open>\<open>avail\<close> are the heads made available and not yet taken, \<open>used\<close> the entries returned and not yet
  seen by the driver, \<open>desc\<close> the allocated descriptors, \<open>cap\<close> the number of descriptors; \<open>valid\<close> holds of
  the queues that the library sets up and keeps.\<close>

record 'v vq_view =
  valid :: "'v \<Rightarrow> bool"
  avail :: "'v \<Rightarrow> u32 list"
  used :: "'v \<Rightarrow> (u32 \<times> u32) list"
  desc :: "'v \<Rightarrow> u32 \<Rightarrow> (u64 \<times> u32) option"
  cap :: "'v \<Rightarrow> nat"

abbreviation next_avail :: "'v vq_lib \<Rightarrow> 'v \<Rightarrow> u32" where
  "next_avail L q \<equiv> (a_ring_last_seen L q + 1) AND (queue_len L q - 1)"

abbreviation next_used :: "'v vq_lib \<Rightarrow> 'v \<Rightarrow> u32" where
  "next_used L q \<equiv> (u_ring_last_seen L q + 1) AND (queue_len L q - 1)"

definition becomes ::
  "'v vq_view \<Rightarrow> 'v \<Rightarrow> 'v \<Rightarrow> u32 list \<Rightarrow> (u32 \<times> u32) list \<Rightarrow> (u32 \<Rightarrow> (u64 \<times> u32) option) \<Rightarrow> bool" where
  "becomes V q q' a u d \<longleftrightarrow>
     valid V q' \<and> avail V q' = a \<and> used V q' = u \<and> desc V q' = d \<and> cap V q' = cap V q"

text \<open>Each side sees the other's entries in order; a descriptor that the device holds can be returned,
  and a buffer can be made available while a descriptor is free. Gathering a returned entry frees its
  descriptor.\<close>

definition avail_laws :: "'v vq_lib \<Rightarrow> 'v vq_view \<Rightarrow> 'v \<Rightarrow> bool" where
  "avail_laws L V q \<longleftrightarrow>
     length (avail V q) < unat (queue_len L q) \<and>
     (next_avail L q = avail_idx L q) = (avail V q = []) \<and>
     (\<forall>h. virtqueue_gather_available L q h = desc V q h) \<and>
     (case avail V q of
        [] \<Rightarrow> virtqueue_get_available_buf L q = None
      | h # hs \<Rightarrow> avail_ring L q (next_avail L q) = h \<and>
          (\<exists>q'. virtqueue_get_available_buf L q = Some (h, q') \<and> becomes V q q' hs (used V q) (desc V q))) \<and>
     (\<forall>h l. h \<in> dom (desc V q) \<longrightarrow> h \<notin> set (avail V q) \<union> fst ` set (used V q) \<longrightarrow>
        (\<exists>q'. virtqueue_add_used_buf L q h l = Some q' \<and>
           becomes V q q' (avail V q) (used V q @ [(h, l)]) (desc V q)))"

definition used_laws :: "'v vq_lib \<Rightarrow> 'v vq_view \<Rightarrow> 'v \<Rightarrow> bool" where
  "used_laws L V q \<longleftrightarrow>
     (next_used L q = used_idx L q) = (used V q = []) \<and>
     (case used V q of
        [] \<Rightarrow> virtqueue_get_used_buf L q = None
      | (h, l) # us \<Rightarrow> used_ring L q (next_used L q) = (h, l) \<and>
          (\<exists>q'. virtqueue_get_used_buf L q = Some (h, l, q') \<and> becomes V q q' (avail V q) us (desc V q))) \<and>
     (\<forall>h l a n. desc V q h = Some (a, n) \<longrightarrow> h \<notin> set (avail V q) \<longrightarrow>
        (\<exists>q' l'. virtqueue_gather_used L q h l = Some (a, l', q') \<and>
           becomes V q q' (avail V q) (used V q) ((desc V q)(h := None)))) \<and>
     (\<forall>a n. card (dom (desc V q)) < cap V q \<longrightarrow>
        (\<exists>q' h. virtqueue_add_available_buf L q a n = Some q' \<and> desc V q h = None \<and>
           becomes V q q' (avail V q @ [h]) (used V q) ((desc V q)(h \<mapsto> (a, n)))))"

definition vq_lib_ok :: "'v vq_lib \<Rightarrow> 'v vq_view \<Rightarrow> bool" where
  "vq_lib_ok L V \<longleftrightarrow> (\<forall>q. valid V q \<longrightarrow> avail_laws L V q \<and> used_laws L V q)"

text \<open>The two dataport calls are inverse on the buffers of the dataport, whose offsets fit in 32 bits.\<close>

definition dataports_ok :: "dataports \<Rightarrow> u64 set \<Rightarrow> bool" where
  "dataports_ok dp B \<longleftrightarrow>
     (\<forall>b \<in> B. dataport_unwrap_ptr dp (dataport_wrap_ptr dp b) = b \<and> unat (snd (dataport_wrap_ptr dp b)) < 2 ^ 32)"

section \<open>Packing and unpacking addresses\<close>

lemma decode_encode_address:
  assumes "dataport_unwrap_ptr dp' (dataport_wrap_ptr dp buf) = buf'"
    and "unat (snd (dataport_wrap_ptr dp buf)) < 2 ^ 32"
  shows "DECODE_DMA_ADDRESS dp' (ENCODE_DMA_ADDRESS dp buf) = buf'"
proof -
  obtain i off where w: "dataport_wrap_ptr dp buf = (i, off)" by fastforce
  let ?e = "push_bit 32 (ucast i) OR off :: u64"
  have "off < 2 ^ 32" using assms(2) w by (simp add: word_less_nat_alt)
  then have off: "take_bit 32 off = off" by (simp add: take_bit_eq_mask less_mask_eq)
  have lo: "k < 32" if "bit off k" for k
    using that by (subst (asm) off [symmetric]) (simp add: bit_take_bit_iff)
  have "ucast (drop_bit 32 ?e) = i"
    by (rule bit_word_eqI) (auto simp: bit_simps dest: bit_imp_le_length lo)
  moreover have "?e AND mask 32 = off"
    by (rule bit_word_eqI) (auto simp: bit_simps dest: lo)
  ultimately show ?thesis
    using assms(1) by (simp add: DECODE_DMA_ADDRESS_def ENCODE_DMA_ADDRESS_def w)
qed

text \<open>
  An address packed by one component and unpacked by the other names the same buffer, when the
  dataport library inverts its own wrapping and the offset fits in the 32 bits the packing gives it.
\<close>
theorem async_dma_address_roundtrip:
  assumes "dataport_unwrap_ptr dp' (dataport_wrap_ptr dp buf) = buf'"
    and "unat (snd (dataport_wrap_ptr dp buf)) < 2 ^ 32"
  shows "DECODE_DMA_ADDRESS dp' (ENCODE_DMA_ADDRESS dp buf) = buf'"
  using assms by (rule decode_encode_address)

theorem async_dma_address_roundtrip_witness:
  "DECODE_DMA_ADDRESS \<lparr>dataport_wrap_ptr = (\<lambda>p. (3, p - 0x1000)), dataport_unwrap_ptr = (\<lambda>(i, off). off + 0x8000), ps_dma_pin = id\<rparr>
     (ENCODE_DMA_ADDRESS \<lparr>dataport_wrap_ptr = (\<lambda>p. (3, p - 0x1000)), dataport_unwrap_ptr = (\<lambda>(i, off). off + 0x8000), ps_dma_pin = id\<rparr>
       0x1840) = 0x8840"
  by (rule async_dma_address_roundtrip) simp_all

section \<open>One virtqueue: no entry is lost or duplicated\<close>

text \<open>\<open>held\<close> are the heads the device side has taken and not returned.\<close>

definition queue_inv :: "'v vq_view \<Rightarrow> 'v \<Rightarrow> u32 multiset \<Rightarrow> bool" where
  "queue_inv V q held \<longleftrightarrow>
     valid V q \<and> mset (avail V q) + held + mset (map fst (used V q)) = mset_set (dom (desc V q))"

definition entry_buf :: "dataports \<Rightarrow> (u64 \<times> u32) option \<Rightarrow> u64" where
  "entry_buf dp e = DECODE_DMA_ADDRESS dp (fst (the e))"

definition queue_bufs :: "'v vq_view \<Rightarrow> dataports \<Rightarrow> 'v \<Rightarrow> u64 multiset" where
  "queue_bufs V dp q = image_mset (\<lambda>h. entry_buf dp (desc V q h)) (mset_set (dom (desc V q)))"

lemma queue_inv_valid: "queue_inv V q held \<Longrightarrow> valid V q"
  by (simp add: queue_inv_def)

lemma vq_lawsD:
  assumes "vq_lib_ok L V" "queue_inv V q held"
  shows "avail_laws L V q" "used_laws L V q"
  using assms by (auto simp: vq_lib_ok_def queue_inv_def)

lemma becomesD:
  assumes "becomes V q q' a u d"
  shows "avail V q' = a" "used V q' = u" "desc V q' = d" "cap V q' = cap V q" "valid V q'"
  using assms by (simp_all add: becomes_def)

lemma queue_bufs_same: "desc V q' = desc V q \<Longrightarrow> queue_bufs V dp q' = queue_bufs V dp q"
  by (simp add: queue_bufs_def)

lemma size_queue_bufs: "size (queue_bufs V dp q) = card (dom (desc V q))"
  by (simp add: queue_bufs_def)

lemma dom_finite: "finite (dom (m :: u32 \<Rightarrow> 'b option))"
  by simp

lemma count_mset_set_le: "count (mset_set A) h \<le> 1"
  by (cases "finite A"; cases "h \<in> A") simp_all

lemma mset_set_unique:
  assumes "x + y = mset_set A" "h \<in># x" shows "h \<notin># y"
proof
  assume "h \<in># y"
  then have "1 \<le> count x h" "1 \<le> count y h" using assms(2) by (simp_all add: Suc_le_eq)
  moreover have "count x h + count y h \<le> 1"
    using count_mset_set_le [of A h] by (simp flip: assms(1))
  ultimately show False by linarith
qed

lemma mset_set_insert_fresh: "d h = None \<Longrightarrow> mset_set (dom ((d :: u32 \<Rightarrow> 'b option)(h \<mapsto> x))) = add_mset h (mset_set (dom d))"
  by (simp add: domIff)

lemma mset_set_remove_head:
  "d h = Some x \<Longrightarrow> mset_set (dom (d :: u32 \<Rightarrow> 'b option)) = add_mset h (mset_set (dom (d(h := None))))"
  using mset_set.insert_remove [of "dom d" h] by (simp add: insert_absorb domI)

lemma queue_bufs_add:
  assumes "becomes V q q' a u ((desc V q)(h \<mapsto> e))" "desc V q h = None"
  shows "queue_bufs V dp q' = add_mset (entry_buf dp (Some e)) (queue_bufs V dp q)"
proof -
  have "image_mset (\<lambda>k. entry_buf dp (((desc V q)(h \<mapsto> e)) k)) (mset_set (dom (desc V q))) =
      image_mset (\<lambda>k. entry_buf dp (desc V q k)) (mset_set (dom (desc V q)))"
    using assms(2) by (intro image_mset_cong) auto
  then show ?thesis
    unfolding queue_bufs_def becomesD(3) [OF assms(1)] mset_set_insert_fresh [of "desc V q", OF assms(2)] by simp
qed

lemma queue_bufs_remove:
  assumes "becomes V q q' a u ((desc V q)(h := None))" "desc V q h = Some e"
  shows "queue_bufs V dp q = add_mset (entry_buf dp (Some e)) (queue_bufs V dp q')"
proof -
  have "image_mset (\<lambda>k. entry_buf dp (((desc V q)(h := None)) k)) (mset_set (dom ((desc V q)(h := None)))) =
      image_mset (\<lambda>k. entry_buf dp (desc V q k)) (mset_set (dom ((desc V q)(h := None))))"
    by (intro image_mset_cong) auto
  then show ?thesis
    unfolding queue_bufs_def becomesD(3) [OF assms(1)] mset_set_remove_head [of "desc V q", OF assms(2)]
    using assms(2) by simp
qed

lemma in_dom_of_heads:
  assumes "queue_inv V q held" "h \<in># mset (avail V q) + held + mset (map fst (used V q))"
  shows "h \<in> dom (desc V q)"
  using assms by (metis dom_finite elem_mset_set queue_inv_def)

text \<open>Device side: taking the next entry, and returning one.\<close>

lemma queue_take:
  assumes ok: "vq_lib_ok L V" and inv: "queue_inv V q held" and av: "avail V q = h # hs"
  obtains q' where "virtqueue_get_available_buf L q = Some (h, q')" "queue_inv V q' (add_mset h held)"
    "becomes V q q' hs (used V q) (desc V q)"
proof -
  from vq_lawsD(1) [OF ok inv] av obtain q' where
    q': "virtqueue_get_available_buf L q = Some (h, q')" "becomes V q q' hs (used V q) (desc V q)"
    by (auto simp: avail_laws_def)
  moreover have "queue_inv V q' (add_mset h held)"
    using inv av by (simp add: queue_inv_def becomesD [OF q'(2)] ac_simps)
  ultimately show thesis using that by blast
qed

lemma queue_return:
  assumes ok: "vq_lib_ok L V" and inv: "queue_inv V q held" and h: "h \<in># held"
  obtains q' where "virtqueue_add_used_buf L q h l = Some q'" "queue_inv V q' (held - {#h#})"
    "becomes V q q' (avail V q) (used V q @ [(h, l)]) (desc V q)"
proof -
  have "held + (mset (avail V q) + mset (map fst (used V q))) = mset_set (dom (desc V q))"
    using inv by (simp add: queue_inv_def ac_simps)
  from mset_set_unique [OF this h] have "h \<notin> set (avail V q) \<union> fst ` set (used V q)" by simp
  moreover have "h \<in> dom (desc V q)" using in_dom_of_heads [OF inv] h by simp
  ultimately obtain q' where q': "virtqueue_add_used_buf L q h l = Some q'"
    "becomes V q q' (avail V q) (used V q @ [(h, l)]) (desc V q)"
    using vq_lawsD(1) [OF ok inv] unfolding avail_laws_def by blast
  obtain held' where held: "held = add_mset h held'" using h by (metis insert_DiffM)
  have "queue_inv V q' (held - {#h#})"
    using inv by (simp add: queue_inv_def becomesD [OF q'(2)] held)
  with q' show thesis using that by blast
qed

text \<open>Driver side: making a buffer available, and taking back a returned entry, in both orders of
  the two calls that the code uses.\<close>

lemma queue_add:
  assumes ok: "vq_lib_ok L V" and inv: "queue_inv V q held" and room: "card (dom (desc V q)) < cap V q"
  obtains q' h where "virtqueue_add_available_buf L q a n = Some q'" "queue_inv V q' held"
    "queue_bufs V dp q' = add_mset (DECODE_DMA_ADDRESS dp a) (queue_bufs V dp q)"
    "desc V q h = None" "becomes V q q' (avail V q @ [h]) (used V q) ((desc V q)(h \<mapsto> (a, n)))"
proof -
  from vq_lawsD(2) [OF ok inv] room obtain q' h where
    q': "virtqueue_add_available_buf L q a n = Some q'" "desc V q h = None"
      "becomes V q q' (avail V q @ [h]) (used V q) ((desc V q)(h \<mapsto> (a, n)))"
    unfolding used_laws_def by blast
  moreover have "queue_inv V q' held"
    using inv by (simp add: queue_inv_def becomesD [OF q'(3)] mset_set_insert_fresh [of "desc V q", OF q'(2)] del: dom_fun_upd)
  moreover have "queue_bufs V dp q' = add_mset (DECODE_DMA_ADDRESS dp a) (queue_bufs V dp q)"
    using queue_bufs_add [OF q'(3,2)] by (simp add: entry_buf_def)
  ultimately show thesis using that by blast
qed

lemma gather_law:
  assumes "used_laws L V q" "desc V q h = Some (a, n)" "h \<notin> set (avail V q)"
  obtains q' l' where "virtqueue_gather_used L q h l = Some (a, l', q')"
    "becomes V q q' (avail V q) (used V q) ((desc V q)(h := None))"
  using assms unfolding used_laws_def by blast

lemma used_head:
  assumes inv: "queue_inv V q held" and us: "used V q = (h, l) # us"
  obtains a n where "desc V q h = Some (a, n)" "h \<notin> set (avail V q)"
proof -
  have "mset (map fst (used V q)) + (mset (avail V q) + held) = mset_set (dom (desc V q))"
    using inv by (simp add: queue_inv_def ac_simps)
  from mset_set_unique [OF this, of h] us have "h \<notin> set (avail V q)" by simp
  moreover have "h \<in> dom (desc V q)" using in_dom_of_heads [OF inv] us by simp
  ultimately show thesis using that by fastforce
qed

lemma queue_inv_reclaimed:
  assumes inv: "queue_inv V q held" and us: "used V q = (h, l) # us" and d: "desc V q h = Some e"
    and q': "becomes V q q' (avail V q) us ((desc V q)(h := None))"
  shows "queue_inv V q' held"
proof -
  have "add_mset h (mset (avail V q) + held + mset (map fst us)) = add_mset h (mset_set (dom ((desc V q)(h := None))))"
    using inv us mset_set_remove_head [of "desc V q", OF d] by (simp add: queue_inv_def del: dom_fun_upd)
  then show ?thesis by (simp add: queue_inv_def becomesD [OF q'] del: dom_fun_upd)
qed

lemma queue_reclaim:
  assumes ok: "vq_lib_ok L V" and inv: "queue_inv V q held" and us: "used V q = (h, l) # us"
  obtains q1 a n l' q2 where "virtqueue_get_used_buf L q = Some (h, l, q1)"
    "virtqueue_gather_used L q1 h l = Some (a, l', q2)" "desc V q h = Some (a, n)"
    "queue_inv V q2 held" "queue_bufs V dp q = add_mset (DECODE_DMA_ADDRESS dp a) (queue_bufs V dp q2)"
    "becomes V q q2 (avail V q) us ((desc V q)(h := None))"
proof -
  obtain a n where d: "desc V q h = Some (a, n)" "h \<notin> set (avail V q)" by (rule used_head [OF inv us])
  from vq_lawsD(2) [OF ok inv] us obtain q1 where
    q1: "virtqueue_get_used_buf L q = Some (h, l, q1)" "becomes V q q1 (avail V q) us (desc V q)"
    by (auto simp: used_laws_def)
  have u1: "used_laws L V q1" using ok becomesD(5) [OF q1(2)] by (auto simp: vq_lib_ok_def)
  obtain q2 l' where q2: "virtqueue_gather_used L q1 h l = Some (a, l', q2)"
    "becomes V q1 q2 (avail V q1) (used V q1) ((desc V q1)(h := None))"
    by (rule gather_law [OF u1, of h a n]) (use d in \<open>simp_all add: becomesD [OF q1(2)]\<close>)
  have b: "becomes V q q2 (avail V q) us ((desc V q)(h := None))"
    using becomesD [OF q1(2)] becomesD [OF q2(2)] by (simp add: becomes_def)
  have "queue_bufs V dp q = add_mset (DECODE_DMA_ADDRESS dp a) (queue_bufs V dp q2)"
    using queue_bufs_remove [OF b d(1)] by (simp add: entry_buf_def)
  from that [OF q1(1) q2(1) d(1) queue_inv_reclaimed [OF inv us d(1) b] this b] show thesis .
qed

lemma queue_reclaim_peek:
  assumes ok: "vq_lib_ok L V" and inv: "queue_inv V q held" and us: "used V q = (h, l) # us"
  obtains q1 a n l' q2 where "next_used L q \<noteq> used_idx L q" "used_ring L q (next_used L q) = (h, l)"
    "virtqueue_gather_used L q h l = Some (a, l', q1)" "virtqueue_get_used_buf L q1 = Some (h, l, q2)"
    "desc V q h = Some (a, n)" "queue_inv V q2 held"
    "queue_bufs V dp q = add_mset (DECODE_DMA_ADDRESS dp a) (queue_bufs V dp q2)"
    "becomes V q q2 (avail V q) us ((desc V q)(h := None))"
    "becomes V q q1 (avail V q) (used V q) ((desc V q)(h := None))"
proof -
  obtain a n where d: "desc V q h = Some (a, n)" "h \<notin> set (avail V q)" by (rule used_head [OF inv us])
  obtain q1 l' where q1: "virtqueue_gather_used L q h l = Some (a, l', q1)"
    "becomes V q q1 (avail V q) (used V q) ((desc V q)(h := None))"
    by (rule gather_law [OF vq_lawsD(2) [OF ok inv] d])
  have "used_laws L V q1" using ok becomesD(5) [OF q1(2)] by (auto simp: vq_lib_ok_def)
  then obtain q2 where q2: "virtqueue_get_used_buf L q1 = Some (h, l, q2)"
    "becomes V q1 q2 (avail V q1) us (desc V q1)"
    using us becomesD [OF q1(2)] by (auto simp: used_laws_def)
  have b: "becomes V q q2 (avail V q) us ((desc V q)(h := None))"
    using becomesD [OF q1(2)] becomesD [OF q2(2)] by (simp add: becomes_def)
  have bufs: "queue_bufs V dp q = add_mset (DECODE_DMA_ADDRESS dp a) (queue_bufs V dp q2)"
    using queue_bufs_remove [OF b d(1)] by (simp add: entry_buf_def)
  have pk: "next_used L q \<noteq> used_idx L q" "used_ring L q (next_used L q) = (h, l)"
    using vq_lawsD(2) [OF ok inv] us by (auto simp: used_laws_def)
  from that [OF pk q1(1) q2(1) d(1) queue_inv_reclaimed [OF inv us d(1) b] bufs b q1(2)] show thesis .
qed

section \<open>The hardware's side of the log\<close>

text \<open>The transmissions the driver has accepted and not completed, and the receive buffers it holds.\<close>

fun tx_out :: "hw_event list \<Rightarrow> u32 multiset" where
  "tx_out [] = {#}"
| "tx_out (HwTx _ _ h True # es) = add_mset h (tx_out es)"
| "tx_out (HwTxDone h # es) = tx_out es - {#h#}"
| "tx_out (_ # es) = tx_out es"

fun rx_held :: "hw_event list \<Rightarrow> u32 multiset" where
  "rx_held [] = {#}"
| "rx_held (HwAlloc h # es) = add_mset h (rx_held es)"
| "rx_held (HwRxDone h # es) = rx_held es - {#h#}"
| "rx_held (_ # es) = rx_held es"

definition tx_outstanding :: "'v server_data \<Rightarrow> u32 multiset" where
  "tx_outstanding sv = tx_out (rev (hw_log sv))"

definition rx_outstanding :: "'v server_data \<Rightarrow> u32 multiset" where
  "rx_outstanding sv = rx_held (rev (hw_log sv))"

definition server_inv :: "'v vq_view \<Rightarrow> 'v server_data \<Rightarrow> bool" where
  "server_inv V sv \<longleftrightarrow>
     queue_inv V (s_tx_virtqueue sv) (tx_outstanding sv) \<and> queue_inv V (s_rx_virtqueue sv) (rx_outstanding sv)"

text \<open>A driver completes only what it holds.\<close>

fun callbacks_ok :: "'v vq_lib \<Rightarrow> dataports \<Rightarrow> callback list \<Rightarrow> 'v server_data \<Rightarrow> bool" where
  "callbacks_ok L dp [] sv = True"
| "callbacks_ok L dp (TxComplete c # cbs) sv \<longleftrightarrow>
     c \<in># tx_outstanding sv \<and>
     (case eth_tx_complete L c sv of Inl _ \<Rightarrow> True | Inr sv' \<Rightarrow> callbacks_ok L dp cbs sv')"
| "callbacks_ok L dp (AllocateRx n # cbs) sv \<longleftrightarrow>
     (case eth_allocate_rx_buf L dp n sv of Inl _ \<Rightarrow> True | Inr (_, sv') \<Rightarrow> callbacks_ok L dp cbs sv')"
| "callbacks_ok L dp (RxComplete cs ls # cbs) sv \<longleftrightarrow>
     mset cs \<subseteq># rx_outstanding sv \<and> (length cs = 1 \<longrightarrow> ls \<noteq> []) \<and>
     (case eth_rx_complete L cs ls sv of Inl _ \<Rightarrow> True | Inr sv' \<Rightarrow> callbacks_ok L dp cbs sv')"

definition hw_ok :: "'v vq_lib \<Rightarrow> dataports \<Rightarrow> eth_hw \<Rightarrow> bool" where
  "hw_ok L dp hw \<longleftrightarrow>
     (\<forall>sv x. callbacks_ok L dp (fst (raw_tx hw (hw_log sv) x)) sv) \<and>
     (\<forall>sv. callbacks_ok L dp (raw_poll hw (hw_log sv)) sv)"

text \<open>What a callback leaves as it was: the transmit queue's entries for the server, the buffers behind
  the descriptors, and the flag that transmission is blocked.\<close>

definition tx_kept :: "'v vq_view \<Rightarrow> dataports \<Rightarrow> 'v server_data \<Rightarrow> 'v server_data \<Rightarrow> bool" where
  "tx_kept V dp sv sv' \<longleftrightarrow>
     avail V (s_tx_virtqueue sv') = avail V (s_tx_virtqueue sv) \<and>
     desc V (s_tx_virtqueue sv') = desc V (s_tx_virtqueue sv) \<and>
     desc V (s_rx_virtqueue sv') = desc V (s_rx_virtqueue sv) \<and>
     cap V (s_tx_virtqueue sv') = cap V (s_tx_virtqueue sv) \<and>
     cap V (s_rx_virtqueue sv') = cap V (s_rx_virtqueue sv) \<and>
     blocked_tx sv' = blocked_tx sv \<and> hw_mac sv' = hw_mac sv \<and>
     (\<exists>es. hw_log sv' = hw_log sv @ es \<and> (\<forall>e \<in> set es. \<not> (\<exists>a n h b. e = HwTx a n h b)))"

section \<open>The server keeps every entry\<close>

lemma log_hw_sel [simp]:
  "s_tx_virtqueue (log_hw e sv) = s_tx_virtqueue sv" "s_rx_virtqueue (log_hw e sv) = s_rx_virtqueue sv"
  "hw_log (log_hw e sv) = hw_log sv @ [e]" "blocked_tx (log_hw e sv) = blocked_tx sv"
  "hw_mac (log_hw e sv) = hw_mac sv" "s_action (log_hw e sv) = s_action sv" "no_rx_bufs (log_hw e sv) = no_rx_bufs sv"
  by (simp_all add: log_hw_def)

lemma tx_kept_refl: "tx_kept V dp sv sv"
  by (simp add: tx_kept_def)

lemma tx_kept_trans: "tx_kept V dp a b \<Longrightarrow> tx_kept V dp b c \<Longrightarrow> tx_kept V dp a c"
  unfolding tx_kept_def by (metis (no_types, lifting) Un_iff append_assoc set_append)

lemma eth_tx_complete_step:
  assumes ok: "vq_lib_ok L V" and inv: "server_inv V sv" and c: "c \<in># tx_outstanding sv"
  obtains sv' where "eth_tx_complete L c sv = Inr sv'" "server_inv V sv'" "tx_kept V dp sv sv'"
proof -
  have q: "queue_inv V (s_tx_virtqueue sv) (tx_outstanding sv)" using inv by (simp add: server_inv_def)
  obtain q' where q': "virtqueue_add_used_buf L (s_tx_virtqueue sv) c (of_nat BUF_SIZE) = Some q'"
    "queue_inv V q' (tx_outstanding sv - {#c#})"
    "becomes V (s_tx_virtqueue sv) q' (avail V (s_tx_virtqueue sv))
       (used V (s_tx_virtqueue sv) @ [(c, of_nat BUF_SIZE)]) (desc V (s_tx_virtqueue sv))"
    by (rule queue_return [OF ok q c])
  let ?sv = "log_hw (HwTxDone c)
    (sv\<lparr>s_tx_virtqueue := q', s_action := (if blocked_tx sv then True else s_action sv)\<rparr>)"
  have "eth_tx_complete L c sv = Inr ?sv" by (simp add: eth_tx_complete_def q'(1))
  moreover have "server_inv V ?sv"
    using inv q'(2) by (simp add: server_inv_def tx_outstanding_def rx_outstanding_def)
  moreover have "tx_kept V dp sv ?sv" by (simp add: tx_kept_def becomesD [OF q'(3)])
  ultimately show thesis by (rule that)
qed

lemma eth_allocate_rx_buf_step:
  assumes ok: "vq_lib_ok L V" and inv: "server_inv V sv"
  obtains r sv' where "eth_allocate_rx_buf L dp n sv = Inr (r, sv')" "server_inv V sv'" "tx_kept V dp sv sv'"
proof -
  have q: "queue_inv V (s_rx_virtqueue sv) (rx_outstanding sv)" using inv by (simp add: server_inv_def)
  show thesis
  proof (cases "BUF_SIZE < n")
    case True
    then show thesis using that inv by (simp add: eth_allocate_rx_buf_def tx_kept_refl)
  next
    case small: False
    show thesis
    proof (cases "avail V (s_rx_virtqueue sv)")
      case Nil
      then have "virtqueue_get_available_buf L (s_rx_virtqueue sv) = None"
        using vq_lawsD(1) [OF ok q] by (simp add: avail_laws_def)
      then have "eth_allocate_rx_buf L dp n sv = Inr (None, sv\<lparr>no_rx_bufs := True\<rparr>)"
        using small by (simp add: eth_allocate_rx_buf_def)
      then show thesis
        by (rule that) (use inv in \<open>simp_all add: server_inv_def tx_outstanding_def rx_outstanding_def tx_kept_def\<close>)
    next
      case (Cons h hs)
      obtain q' where q': "virtqueue_get_available_buf L (s_rx_virtqueue sv) = Some (h, q')"
        "queue_inv V q' (add_mset h (rx_outstanding sv))"
        "becomes V (s_rx_virtqueue sv) q' hs (used V (s_rx_virtqueue sv)) (desc V (s_rx_virtqueue sv))"
        by (rule queue_take [OF ok q Cons])
      have "h \<in> dom (desc V q')" using in_dom_of_heads [OF q'(2)] by simp
      then obtain a m where "desc V q' h = Some (a, m)" by fastforce
      then have g: "virtqueue_gather_available L q' h = Some (a, m)"
        using vq_lawsD(1) [OF ok q'(2)] by (simp add: avail_laws_def)
      let ?sv = "log_hw (HwAlloc h) (sv\<lparr>s_rx_virtqueue := q', no_rx_bufs := False\<rparr>)"
      have "eth_allocate_rx_buf L dp n sv = Inr (Some (ps_dma_pin dp (DECODE_DMA_ADDRESS dp a), h), ?sv)"
        using small by (simp add: eth_allocate_rx_buf_def q'(1) g)
      moreover have "server_inv V ?sv"
        using inv q'(2) by (simp add: server_inv_def tx_outstanding_def rx_outstanding_def)
      moreover have "tx_kept V dp sv ?sv" by (simp add: tx_kept_def becomesD [OF q'(3)])
      ultimately show thesis by (rule that)
    qed
  qed
qed

lemma return_rx_step:
  assumes ok: "vq_lib_ok L V" and inv: "server_inv V sv" and c: "c \<in># rx_outstanding sv"
  obtains sv' where "return_rx L c l sv = Inr sv'" "server_inv V sv'" "tx_kept V dp sv sv'"
    "rx_outstanding sv' = rx_outstanding sv - {#c#}"
proof -
  have q: "queue_inv V (s_rx_virtqueue sv) (rx_outstanding sv)" using inv by (simp add: server_inv_def)
  obtain q' where q': "virtqueue_add_used_buf L (s_rx_virtqueue sv) c l = Some q'"
    "queue_inv V q' (rx_outstanding sv - {#c#})"
    "becomes V (s_rx_virtqueue sv) q' (avail V (s_rx_virtqueue sv))
       (used V (s_rx_virtqueue sv) @ [(c, l)]) (desc V (s_rx_virtqueue sv))"
    by (rule queue_return [OF ok q c])
  let ?sv = "log_hw (HwRxDone c) (sv\<lparr>s_rx_virtqueue := q'\<rparr>)"
  have "return_rx L c l sv = Inr ?sv" by (simp add: return_rx_def q'(1))
  moreover have "server_inv V ?sv"
    using inv q'(2) by (simp add: server_inv_def tx_outstanding_def rx_outstanding_def)
  moreover have "tx_kept V dp sv ?sv" by (simp add: tx_kept_def becomesD [OF q'(3)])
  moreover have "rx_outstanding ?sv = rx_outstanding sv - {#c#}" by (simp add: rx_outstanding_def)
  ultimately show thesis by (rule that)
qed

lemma drop_rx_step:
  assumes ok: "vq_lib_ok L V"
  shows "server_inv V sv \<Longrightarrow> mset cs \<subseteq># rx_outstanding sv \<Longrightarrow>
    \<exists>sv'. drop_rx L cs sv = Inr sv' \<and> server_inv V sv' \<and> tx_kept V dp sv sv'"
proof (induction cs arbitrary: sv)
  case Nil
  then show ?case by (simp add: tx_kept_refl)
next
  case (Cons c cs)
  then have "c \<in># rx_outstanding sv" by (simp add: insert_subset_eq_iff)
  then obtain sv1 where 1: "return_rx L c 0 sv = Inr sv1" "server_inv V sv1" "tx_kept V dp sv sv1"
    "rx_outstanding sv1 = rx_outstanding sv - {#c#}"
    using return_rx_step [OF ok Cons.prems(1)] by metis
  then have "mset cs \<subseteq># rx_outstanding sv1" using Cons.prems(2) by (simp add: insert_subset_eq_iff)
  from Cons.IH [OF 1(2) this] 1 show ?case using tx_kept_trans by fastforce
qed

lemma eth_rx_complete_step:
  assumes ok: "vq_lib_ok L V" and inv: "server_inv V sv" and cs: "mset cs \<subseteq># rx_outstanding sv"
    and ls: "length cs = 1 \<longrightarrow> ls \<noteq> []"
  obtains sv' where "eth_rx_complete L cs ls sv = Inr sv'" "server_inv V sv'" "tx_kept V dp sv sv'"
proof -
  let ?m = "if length cs \<noteq> 1 then drop_rx L cs sv
    else obind (nth_ok ls 0) (\<lambda>len. return_rx L (cs ! 0) len sv)"
  obtain sv1 where 1: "?m = Inr sv1" "server_inv V sv1" "tx_kept V dp sv sv1"
  proof (cases "length cs = 1")
    case False
    then show thesis using drop_rx_step [OF ok inv cs] that by auto
  next
    case True
    then obtain c where c: "cs = [c]" by (auto simp: length_Suc_conv)
    then have "c \<in># rx_outstanding sv" using cs by (simp add: insert_subset_eq_iff)
    from return_rx_step [OF ok inv this] show thesis using that c ls by (simp add: nth_ok_def) metis
  qed
  have "eth_rx_complete L cs ls sv = Inr (sv1\<lparr>s_action := True\<rparr>)"
    unfolding eth_rx_complete_def 1(1) by simp
  then show thesis
    by (rule that) (use 1 in \<open>simp_all add: server_inv_def tx_outstanding_def rx_outstanding_def tx_kept_def\<close>)
qed

lemma run_callbacks_step:
  assumes ok: "vq_lib_ok L V"
  shows "server_inv V sv \<Longrightarrow> callbacks_ok L dp cbs sv \<Longrightarrow>
    \<exists>sv'. run_callbacks L dp cbs sv = Inr sv' \<and> server_inv V sv' \<and> tx_kept V dp sv sv'"
proof (induction cbs arbitrary: sv)
  case Nil
  then show ?case by (simp add: tx_kept_refl)
next
  case (Cons cb cbs)
  have step: ?case
    if "run_callbacks L dp (cb # cbs) sv = run_callbacks L dp cbs sv1" "callbacks_ok L dp cbs sv1"
      "server_inv V sv1" "tx_kept V dp sv sv1" for sv1
    using Cons.IH [OF that(3,2)] that tx_kept_trans by fastforce
  show ?case
  proof (cases cb)
    case (TxComplete c)
    with Cons.prems have "c \<in># tx_outstanding sv" by simp
    from eth_tx_complete_step [OF ok Cons.prems(1) this, of dp] obtain sv1 where
      "eth_tx_complete L c sv = Inr sv1" "server_inv V sv1" "tx_kept V dp sv sv1" .
    with TxComplete Cons.prems(2) show ?thesis by (intro step [of sv1]) simp_all
  next
    case (AllocateRx n)
    from eth_allocate_rx_buf_step [OF ok Cons.prems(1), of dp n] obtain r sv1 where
      "eth_allocate_rx_buf L dp n sv = Inr (r, sv1)" "server_inv V sv1" "tx_kept V dp sv sv1" .
    with AllocateRx Cons.prems(2) show ?thesis by (intro step [of sv1]) simp_all
  next
    case (RxComplete cs ls)
    with Cons.prems have "mset cs \<subseteq># rx_outstanding sv" "length cs = 1 \<longrightarrow> ls \<noteq> []" by simp_all
    from eth_rx_complete_step [OF ok Cons.prems(1) this, of dp] obtain sv1 where
      "eth_rx_complete L cs ls sv = Inr sv1" "server_inv V sv1" "tx_kept V dp sv sv1" .
    with RxComplete Cons.prems(2) show ?thesis by (intro step [of sv1]) simp_all
  qed
qed

section \<open>Transmission by the server\<close>

text \<open>What the driver accepted, in order; and what the client has made available.\<close>

fun tx_accepted :: "hw_event list \<Rightarrow> (u64 \<times> u32 \<times> u32) list" where
  "tx_accepted [] = []"
| "tx_accepted (HwTx a n h True # es) = (a, n, h) # tx_accepted es"
| "tx_accepted (_ # es) = tx_accepted es"

definition tx_offer :: "dataports \<Rightarrow> (u32 \<Rightarrow> (u64 \<times> u32) option) \<Rightarrow> u32 \<Rightarrow> u64 \<times> u32 \<times> u32" where
  "tx_offer dp d h = (ps_dma_pin dp (DECODE_DMA_ADDRESS dp (fst (the (d h)))), snd (the (d h)), h)"

definition tx_offers :: "'v vq_view \<Rightarrow> dataports \<Rightarrow> 'v \<Rightarrow> (u64 \<times> u32 \<times> u32) list" where
  "tx_offers V dp q = map (tx_offer dp (desc V q)) (avail V q)"

lemma tx_accepted_append: "tx_accepted (xs @ ys) = tx_accepted xs @ tx_accepted ys"
  by (induction xs rule: tx_accepted.induct) simp_all

lemma tx_accepted_other: "\<forall>e \<in> set es. \<not> (\<exists>a n h b. e = HwTx a n h b) \<Longrightarrow> tx_accepted es = []"
  by (induction es rule: tx_accepted.induct) auto

lemma tx_kept_accepted: "tx_kept V dp sv sv' \<Longrightarrow> tx_accepted (hw_log sv') = tx_accepted (hw_log sv)"
  unfolding tx_kept_def by (metis tx_accepted_append tx_accepted_other append_Nil2)

lemma tx_kept_offers: "tx_kept V dp sv sv' \<Longrightarrow> tx_offers V dp (s_tx_virtqueue sv') = tx_offers V dp (s_tx_virtqueue sv)"
  by (simp add: tx_kept_def tx_offers_def)

lemma tx_out_True [simp]: "tx_out (rev (es @ [HwTx a n h True])) = add_mset h (tx_out (rev es))"
  by simp

lemma tx_out_False [simp]: "tx_out (rev (es @ [HwTx a n h False])) = tx_out (rev es)"
  by simp

text \<open>What a run of the loop from \<open>sv\<close> to \<open>sv'\<close> does when the driver accepts \<open>k\<close> frames.\<close>

definition tx_progress :: "'v vq_view \<Rightarrow> dataports \<Rightarrow> nat \<Rightarrow> 'v server_data \<Rightarrow> 'v server_data \<Rightarrow> bool" where
  "tx_progress V dp k sv sv' \<longleftrightarrow>
     k \<le> length (avail V (s_tx_virtqueue sv)) \<and>
     tx_accepted (hw_log sv') = tx_accepted (hw_log sv) @ take k (tx_offers V dp (s_tx_virtqueue sv)) \<and>
     avail V (s_tx_virtqueue sv') = drop k (avail V (s_tx_virtqueue sv)) \<and>
     blocked_tx sv' = (if avail V (s_tx_virtqueue sv) = [] then blocked_tx sv
                       else k < length (avail V (s_tx_virtqueue sv))) \<and>
     desc V (s_tx_virtqueue sv') = desc V (s_tx_virtqueue sv) \<and>
     desc V (s_rx_virtqueue sv') = desc V (s_rx_virtqueue sv) \<and>
     cap V (s_tx_virtqueue sv') = cap V (s_tx_virtqueue sv) \<and>
     cap V (s_rx_virtqueue sv') = cap V (s_rx_virtqueue sv)"

lemma tx_progress_kept:
  assumes "tx_kept V dp sv sv1" "tx_progress V dp k sv1 sv'"
  shows "tx_progress V dp k sv sv'"
  using assms tx_kept_accepted [OF assms(1)] tx_kept_offers [OF assms(1)]
  by (simp add: tx_progress_def tx_kept_def)

lemma tx_irq_loop_step:
  assumes ok: "vq_lib_ok L V" and hw: "hw_ok L dp hw"
  shows "server_inv V sv \<Longrightarrow> length (avail V (s_tx_virtqueue sv)) < n \<Longrightarrow>
    \<exists>sv' k. tx_irq_loop L dp hw n sv = Inr sv' \<and> server_inv V sv' \<and> tx_progress V dp k sv sv'"
proof (induction n arbitrary: sv)
  case 0
  then show ?case by simp
next
  case (Suc n)
  let ?q = "s_tx_virtqueue sv"
  have q: "queue_inv V ?q (tx_outstanding sv)" using Suc.prems(1) by (simp add: server_inv_def)
  note laws = vq_lawsD(1) [OF ok q, unfolded avail_laws_def]
  show ?case
  proof (cases "avail V ?q")
    case Nil
    then have "tx_irq_loop L dp hw (Suc n) sv = Inr sv" using laws by (simp add: Let_def)
    then show ?thesis using Suc.prems(1) Nil
      by (intro exI [of _ sv] exI [of _ 0]) (simp add: tx_progress_def)
  next
    case (Cons h hs)
    have "h \<in> dom (desc V ?q)" using in_dom_of_heads [OF q] Cons by simp
    then obtain a m where d: "desc V ?q h = Some (a, m)" by fastforce
    let ?phys = "ps_dma_pin dp (DECODE_DMA_ADDRESS dp a)"
    obtain cbs acc where tx: "raw_tx hw (hw_log sv) (?phys, m, h) = (cbs, acc)" by fastforce
    have "callbacks_ok L dp cbs sv" using hw tx unfolding hw_ok_def by (metis fst_conv)
    then obtain sv1 where 1: "run_callbacks L dp cbs sv = Inr sv1" "server_inv V sv1" "tx_kept V dp sv sv1"
      using run_callbacks_step [OF ok Suc.prems(1)] by blast
    let ?sv2 = "log_hw (HwTx ?phys m h acc) sv1"
    have unf: "tx_irq_loop L dp hw (Suc n) sv =
        (if \<not> acc then Inr (?sv2\<lparr>blocked_tx := True\<rparr>)
         else tx_irq_loop L dp hw n (?sv2\<lparr>blocked_tx := False,
           s_tx_virtqueue := (case virtqueue_get_available_buf L (s_tx_virtqueue ?sv2) of
             None \<Rightarrow> s_tx_virtqueue ?sv2 | Some (_, q') \<Rightarrow> q')\<rparr>))"
      using laws Cons d tx 1(1) by (simp add: Let_def)
    have av1: "avail V (s_tx_virtqueue sv1) = h # hs" using 1(3) Cons by (simp add: tx_kept_def)
    show ?thesis
    proof (cases acc)
      case False
      let ?sv' = "?sv2\<lparr>blocked_tx := True\<rparr>"
      have inv': "server_inv V ?sv'"
        using 1(2) False by (simp add: server_inv_def tx_outstanding_def rx_outstanding_def)
      have "tx_progress V dp 0 sv1 ?sv'"
        using av1 False by (simp add: tx_progress_def tx_accepted_append)
      then show ?thesis using unf False inv' tx_progress_kept [OF 1(3)] by fastforce
    next
      case True
      have q1: "queue_inv V (s_tx_virtqueue sv1) (tx_outstanding sv1)" using 1(2) by (simp add: server_inv_def)
      obtain q' where q': "virtqueue_get_available_buf L (s_tx_virtqueue sv1) = Some (h, q')"
        "queue_inv V q' (add_mset h (tx_outstanding sv1))"
        "becomes V (s_tx_virtqueue sv1) q' hs (used V (s_tx_virtqueue sv1)) (desc V (s_tx_virtqueue sv1))"
        by (rule queue_take [OF ok q1 av1])
      let ?sv3 = "?sv2\<lparr>blocked_tx := False, s_tx_virtqueue := q'\<rparr>"
      have "server_inv V ?sv3"
        using 1(2) q'(2) True by (simp add: server_inv_def tx_outstanding_def rx_outstanding_def)
      moreover have "length (avail V (s_tx_virtqueue ?sv3)) < n"
        using Suc.prems(2) Cons by (simp add: becomesD [OF q'(3)])
      ultimately obtain sv' k where 2: "tx_irq_loop L dp hw n ?sv3 = Inr sv'" "server_inv V sv'"
        "tx_progress V dp k ?sv3 sv'" using Suc.IH by blast
      have d1: "desc V (s_tx_virtqueue sv1) h = Some (a, m)" using 1(3) d by (simp add: tx_kept_def)
      have "tx_progress V dp (Suc k) sv1 sv'"
        using 2(3) True av1 d1
        by (auto simp: tx_progress_def becomesD [OF q'(3)] tx_accepted_append tx_offers_def tx_offer_def)
      then show ?thesis using unf True q'(1) 2 tx_progress_kept [OF 1(3)] by fastforce
    qed
  qed
qed

lemma virt_queue_handle_irq_step:
  assumes ok: "vq_lib_ok L V" and hw: "hw_ok L dp hw" and inv: "server_inv V sv"
  obtains sv' k where "virt_queue_handle_irq L dp hw sv = Inr sv'" "server_inv V sv'" "tx_progress V dp k sv sv'"
proof -
  obtain sv1 where 1: "(if no_rx_bufs sv then run_callbacks L dp (raw_poll hw (hw_log sv)) sv else Inr sv) = Inr sv1"
    "server_inv V sv1" "tx_kept V dp sv sv1"
  proof (cases "no_rx_bufs sv")
    case True
    have "callbacks_ok L dp (raw_poll hw (hw_log sv)) sv" using hw by (simp add: hw_ok_def)
    from run_callbacks_step [OF ok inv this] True that show thesis by auto
  qed (use that inv in \<open>simp add: tx_kept_refl\<close>)
  have "queue_inv V (s_tx_virtqueue sv1) (tx_outstanding sv1)" using 1(2) by (simp add: server_inv_def)
  from vq_lawsD(1) [OF ok this]
  have "length (avail V (s_tx_virtqueue sv1)) < unat (queue_len L (s_tx_virtqueue sv1))"
    by (simp add: avail_laws_def)
  from tx_irq_loop_step [OF ok hw 1(2) this] obtain sv' k where
    "tx_irq_loop L dp hw (unat (queue_len L (s_tx_virtqueue sv1))) sv1 = Inr sv'" "server_inv V sv'"
    "tx_progress V dp k sv1 sv'" by blast
  then show thesis
    using that tx_progress_kept [OF 1(3)] unfolding virt_queue_handle_irq_def 1(1) by auto
qed

section \<open>The client keeps every buffer\<close>

text \<open>The client's transmit buffers: in its pool, or behind a descriptor of the queue.\<close>

definition tx_pool :: "'v vq_view \<Rightarrow> dataports \<Rightarrow> 'v client_state \<Rightarrow> u64 multiset" where
  "tx_pool V dp st = mset (take (num_tx st) (pending_tx st)) + queue_bufs V dp (c_tx_virtqueue st)"

definition is_set :: "'a multiset \<Rightarrow> bool" where
  "is_set M \<longleftrightarrow> M = mset_set (set_mset M)"

lemma is_set_add:
  assumes "is_set (add_mset b M)" shows "b \<notin># M"
proof -
  have "{#b#} + M = mset_set (set_mset (add_mset b M))"
    using assms unfolding is_set_def by (metis add_mset_add_single union_commute)
  from mset_set_unique [OF this, of b] show ?thesis by simp
qed

definition bufs_mapped :: "memory \<Rightarrow> u64 multiset \<Rightarrow> bool" where
  "bufs_mapped mem B \<longleftrightarrow> (\<forall>b \<in># B. \<exists>bs. mem b = Some bs \<and> length bs = BUF_SIZE)"

definition client_inv :: "'v vq_view \<Rightarrow> dataports \<Rightarrow> u64 multiset \<Rightarrow> u32 multiset \<Rightarrow> 'v client_state \<Rightarrow> bool" where
  "client_inv V dp B held st \<longleftrightarrow>
     queue_inv V (c_tx_virtqueue st) held \<and> num_tx st \<le> length (pending_tx st) \<and>
     tx_pool V dp st = B \<and> is_set B \<and> size B \<le> cap V (c_tx_virtqueue st) \<and> dataports_ok dp (set_mset B)"

lemma decode_encode: "dataports_ok dp (set_mset B) \<Longrightarrow> b \<in># B \<Longrightarrow> DECODE_DMA_ADDRESS dp (ENCODE_DMA_ADDRESS dp b) = b"
  by (rule decode_encode_address) (auto simp: dataports_ok_def)

lemma head_buf_in:
  assumes "queue_inv V q held" "h \<in> set (avail V q) \<union> set_mset held"
  shows "entry_buf dp (desc V q h) \<in># queue_bufs V dp q"
  using in_dom_of_heads [OF assms(1), of h] assms(2) by (auto simp: queue_bufs_def)

lemma take_tx_buf_step:
  assumes ok: "vq_lib_ok L V" and q: "queue_inv V (c_tx_virtqueue st) held" and n: "num_tx st \<le> length (pending_tx st)"
  obtains (none) "take_tx_buf L dp st = Inr None" "num_tx st = 0" "used V (c_tx_virtqueue st) = []"
  | (some) b st1 where "take_tx_buf L dp st = Inr (Some (b, st1))" "queue_inv V (c_tx_virtqueue st1) held"
      "num_tx st1 \<le> length (pending_tx st1)" "tx_pool V dp st = add_mset b (tx_pool V dp st1)"
      "avail V (c_tx_virtqueue st1) = avail V (c_tx_virtqueue st)" "cap V (c_tx_virtqueue st1) = cap V (c_tx_virtqueue st)"
      "\<forall>h \<in> dom (desc V (c_tx_virtqueue st1)). desc V (c_tx_virtqueue st1) h = desc V (c_tx_virtqueue st) h"
      "c_rx_virtqueue st1 = c_rx_virtqueue st"
proof (cases "used V (c_tx_virtqueue st)")
  case Nil
  then have g: "virtqueue_get_used_buf L (c_tx_virtqueue st) = None"
    using vq_lawsD(2) [OF ok q] by (simp add: used_laws_def)
  show thesis
  proof (cases "num_tx st")
    case 0
    with none Nil g show thesis by (simp add: take_tx_buf_def)
  next
    case (Suc m)
    have "take_tx_buf L dp st = Inr (Some (pending_tx st ! m, st\<lparr>num_tx := m\<rparr>))"
      using g Suc n by (simp add: take_tx_buf_def)
    moreover have "mset (take (num_tx st) (pending_tx st)) = add_mset (pending_tx st ! m) (mset (take m (pending_tx st)))"
      unfolding Suc by (rule mset_take_Suc) (use n Suc in simp)
    ultimately show thesis
      using q n Suc by (intro some [of "pending_tx st ! m" "st\<lparr>num_tx := m\<rparr>"]) (simp_all add: tx_pool_def)
  qed
next
  case (Cons u us)
  obtain h l where u: "u = (h, l)" by fastforce
  obtain q1 a m l' q2 where r: "virtqueue_get_used_buf L (c_tx_virtqueue st) = Some (h, l, q1)"
    "virtqueue_gather_used L q1 h l = Some (a, l', q2)" "desc V (c_tx_virtqueue st) h = Some (a, m)"
    "queue_inv V q2 held"
    "queue_bufs V dp (c_tx_virtqueue st) = add_mset (DECODE_DMA_ADDRESS dp a) (queue_bufs V dp q2)"
    "becomes V (c_tx_virtqueue st) q2 (avail V (c_tx_virtqueue st)) us ((desc V (c_tx_virtqueue st))(h := None))"
    by (rule queue_reclaim [OF ok q Cons [unfolded u]])
  have "take_tx_buf L dp st = Inr (Some (DECODE_DMA_ADDRESS dp a, st\<lparr>c_tx_virtqueue := q2\<rparr>))"
    by (simp add: take_tx_buf_def r(1,2))
  then show thesis
    using r(4,5) n
    by (intro some [of "DECODE_DMA_ADDRESS dp a" "st\<lparr>c_tx_virtqueue := q2\<rparr>"])
      (simp_all add: tx_pool_def becomesD [OF r(6)])
qed

text \<open>What a successful send does: one buffer \<open>b\<close>, which no entry of the server names, is filled and made
  available.\<close>

definition sent_in ::
  "'v vq_view \<Rightarrow> dataports \<Rightarrow> u32 multiset \<Rightarrow> u8 list \<Rightarrow> 'v client_state \<times> memory \<Rightarrow> 'v client_state \<times> memory \<Rightarrow> u64 \<Rightarrow> bool" where
  "sent_in V dp held input = (\<lambda>(st, mem) (st', mem') b.
     (\<forall>h \<in> set (avail V (c_tx_virtqueue st)) \<union> set_mset held. entry_buf dp (desc V (c_tx_virtqueue st) h) \<noteq> b) \<and>
     (\<exists>old. mem b = Some old \<and> mem' = mem(b \<mapsto> input @ drop (length input) old)) \<and>
     tx_offers V dp (c_tx_virtqueue st') =
       tx_offers V dp (c_tx_virtqueue st) @ [(ps_dma_pin dp b, of_nat (length input), last (avail V (c_tx_virtqueue st')))])"

lemma pico_eth_send_step:
  assumes ok: "vq_lib_ok L V" and inv: "client_inv V dp B held st" and mapped: "bufs_mapped mem B"
    and len: "length input \<le> BUF_SIZE"
  obtains (none) "pico_eth_send L dp (st, mem) input = Inr (0, st, mem)" "num_tx st = 0" "used V (c_tx_virtqueue st) = []"
  | (sent) st' mem' b where "pico_eth_send L dp (st, mem) input = Inr (of_nat (length input), st', mem')"
      "client_inv V dp B held st'" "bufs_mapped mem' B" "sent_in V dp held input (st, mem) (st', mem') b"
      "c_rx_virtqueue st' = c_rx_virtqueue st"
proof -
  have q: "queue_inv V (c_tx_virtqueue st) held" and n: "num_tx st \<le> length (pending_tx st)"
    and pool: "tx_pool V dp st = B" "is_set B" "size B \<le> cap V (c_tx_virtqueue st)" and dpok: "dataports_ok dp (set_mset B)"
    using inv by (simp_all add: client_inv_def)
  from ok q n show thesis
  proof (cases rule: take_tx_buf_step [where dp = dp])
    case none
    then show thesis using that(1) by (simp add: pico_eth_send_def)
  next
    case (some b st1)
    let ?q1 = "c_tx_virtqueue st1"
    have B: "B = add_mset b (tx_pool V dp st1)" using some(4) pool(1) by simp
    then have b: "b \<in># B" "b \<notin># queue_bufs V dp ?q1"
      using is_set_add [of b "tx_pool V dp st1"] pool(2) by (auto simp: tx_pool_def)
    have "size B = Suc (size (mset (take (num_tx st1) (pending_tx st1))) + card (dom (desc V ?q1)))"
      unfolding B tx_pool_def by (simp add: size_queue_bufs)
    then have room: "card (dom (desc V ?q1)) < cap V ?q1" using pool(3) some(6) by simp
    obtain q2 h where q2: "virtqueue_add_available_buf L ?q1 (ENCODE_DMA_ADDRESS dp b) (of_nat (length input)) = Some q2"
      "queue_inv V q2 held"
      "queue_bufs V dp q2 = add_mset (DECODE_DMA_ADDRESS dp (ENCODE_DMA_ADDRESS dp b)) (queue_bufs V dp ?q1)"
      "desc V ?q1 h = None"
      "becomes V ?q1 q2 (avail V ?q1 @ [h]) (used V ?q1) ((desc V ?q1)(h \<mapsto> (ENCODE_DMA_ADDRESS dp b, of_nat (length input))))"
      by (rule queue_add [OF ok some(2) room])
    note dec = decode_encode [OF dpok b(1)]
    obtain old where old: "mem b = Some old" "length old = BUF_SIZE"
      using mapped b(1) unfolding bufs_mapped_def by blast
    let ?st' = "st1\<lparr>c_tx_virtqueue := q2, c_action := True\<rparr>"
    let ?mem' = "mem(b \<mapsto> input @ drop (length input) old)"
    have "pico_eth_send L dp (st, mem) input = Inr (of_nat (length input), ?st', ?mem')"
      using len old by (simp add: pico_eth_send_def some(1) write_mem_def q2(1))
    moreover have "client_inv V dp B held ?st'"
      using q2(2) some(3) pool dpok B some(6)
      by (simp add: client_inv_def tx_pool_def q2(3) dec becomesD [OF q2(5)])
    moreover have "bufs_mapped ?mem' B" using mapped old len unfolding bufs_mapped_def by auto
    moreover have "sent_in V dp held input (st, mem) (?st', ?mem') b"
    proof -
      have 1: "desc V ?q1 k = desc V (c_tx_virtqueue st) k \<and> entry_buf dp (desc V ?q1 k) \<noteq> b \<and> k \<noteq> h"
        if "k \<in> set (avail V ?q1) \<union> set_mset held" for k
      proof -
        have "k \<in> dom (desc V ?q1)" using in_dom_of_heads [OF some(2)] that by auto
        moreover have "entry_buf dp (desc V ?q1 k) \<noteq> b"
          using head_buf_in [OF some(2) that, of dp] b(2) by metis
        ultimately show ?thesis using some(7) q2(4) by (metis domIff)
      qed
      have "map (tx_offer dp ((desc V ?q1)(h \<mapsto> e))) (avail V ?q1) =
          map (tx_offer dp (desc V (c_tx_virtqueue st))) (avail V ?q1)" for e
        by (intro map_cong refl) (use 1 in \<open>auto simp: tx_offer_def\<close>)
      then have "tx_offers V dp q2 = tx_offers V dp (c_tx_virtqueue st) @ [(ps_dma_pin dp b, of_nat (length input), h)]"
        unfolding tx_offers_def becomesD [OF q2(5)] some(5) by (simp add: tx_offer_def dec)
      moreover have "last (avail V q2) = h" by (simp add: becomesD [OF q2(5)])
      moreover have "\<forall>k \<in> set (avail V (c_tx_virtqueue st)) \<union> set_mset held. entry_buf dp (desc V (c_tx_virtqueue st) k) \<noteq> b"
        using 1 unfolding some(5) by metis
      ultimately show ?thesis using old(1) by (simp add: sent_in_def)
    qed
    ultimately show thesis using that(2) some(8) by simp
  qed
qed

section \<open>Polling\<close>

abbreviation rxq :: "nat \<Rightarrow> 'v client_lib \<Rightarrow> 'v" where
  "rxq d cl \<equiv> c_rx_virtqueue (states cl ! d)"

text \<open>Device \<open>d\<close> of a client component: its receive buffers \<open>B\<close> are all behind descriptors of the receive
  queue and belong to dataports that the table maps to \<open>d\<close>.\<close>

definition rx_inv :: "'v vq_view \<Rightarrow> dataports \<Rightarrow> u64 multiset \<Rightarrow> u32 multiset \<Rightarrow> nat \<Rightarrow> 'v client_lib \<Rightarrow> bool" where
  "rx_inv V dp B held d cl \<longleftrightarrow>
     d < length (states cl) \<and> queue_inv V (rxq d cl) held \<and> queue_bufs V dp (rxq d cl) = B \<and>
     size B \<le> cap V (rxq d cl) \<and> dataports_ok dp (set_mset B) \<and>
     (\<forall>b \<in># B. mapper_find (mapper cl) (fst (dataport_wrap_ptr dp b)) = Some d)"

text \<open>What the stack is given for the entries \<open>us\<close>, \<open>ls\<close> being the lengths that gathering reports.\<close>

definition poll_deliveries ::
  "dataports \<Rightarrow> nat \<Rightarrow> (u32 \<Rightarrow> (u64 \<times> u32) option) \<Rightarrow> (u32 \<times> u32) list \<Rightarrow> u32 list \<Rightarrow> (nat \<times> u64 \<times> u32) list" where
  "poll_deliveries dp d D us ls = [(d, entry_buf dp (D (fst u)), l). (u, l) \<leftarrow> zip us ls, 0 < l]"

lemma poll_deliveries_Cons:
  "poll_deliveries dp d D (u # us) (l # ls) =
     (if 0 < l then [(d, entry_buf dp (D (fst u)), l)] else []) @ poll_deliveries dp d D us ls"
  by (simp add: poll_deliveries_def)

lemma poll_deliveries_cong:
  "(\<And>u. u \<in> set us \<Longrightarrow> D (fst u) = D' (fst u)) \<Longrightarrow> poll_deliveries dp d D us ls = poll_deliveries dp d D' us ls"
  unfolding poll_deliveries_def by (rule arg_cong [of _ _ concat], rule map_cong) (auto dest: set_zip_leftD)

text \<open>\<open>k\<close> entries are passed on and recycled; then the score is used up, the queue is empty, or the
  stack refuses the next entry.\<close>

definition poll_outcome ::
  "'v vq_view \<Rightarrow> dataports \<Rightarrow> ((nat \<times> u64 \<times> u32) list \<Rightarrow> cint) \<Rightarrow> u64 multiset \<Rightarrow> u32 multiset \<Rightarrow> nat \<Rightarrow>
   nat \<Rightarrow> 'v client_lib \<Rightarrow> nat \<Rightarrow> 'v client_lib \<Rightarrow> bool" where
  "poll_outcome V dp recv B held d n cl k cl' \<longleftrightarrow>
     (let us = used V (rxq d cl); D = desc V (rxq d cl)
      in k \<le> n \<and> k \<le> length us \<and> used V (rxq d cl') = drop k us \<and>
         length (avail V (rxq d cl')) = length (avail V (rxq d cl)) + k \<and>
         (\<exists>ls. (length ls = k \<and> (k = n \<or> k = length us) \<and> rx_inv V dp B held d cl' \<and>
                 delivered cl' = delivered cl @ poll_deliveries dp d D (take k us) ls) \<or>
               (length ls = Suc k \<and> k < n \<and> k < length us \<and> 0 < last ls \<and> sint (recv (delivered cl')) \<le> 0 \<and>
                 delivered cl' = delivered cl @ poll_deliveries dp d D (take (Suc k) us) ls)))"

lemma pico_free_buf_step:
  assumes ok: "vq_lib_ok L V" and d: "d < length (states cl)" and q: "queue_inv V (rxq d cl) held"
    and bufs: "add_mset b (queue_bufs V dp (rxq d cl)) = B" "size B \<le> cap V (rxq d cl)"
    and dpok: "dataports_ok dp (set_mset B)" and maps: "\<forall>b \<in># B. mapper_find (mapper cl) (fst (dataport_wrap_ptr dp b)) = Some d"
  obtains cl' h where "pico_free_buf L dp cl b = Inr cl'" "rx_inv V dp B held d cl'" "delivered cl' = delivered cl"
    "desc V (rxq d cl) h = None"
    "becomes V (rxq d cl) (rxq d cl') (avail V (rxq d cl) @ [h]) (used V (rxq d cl))
       ((desc V (rxq d cl))(h \<mapsto> (ENCODE_DMA_ADDRESS dp b, of_nat BUF_SIZE)))"
proof -
  have b: "b \<in># B" using bufs(1) by auto
  have "card (dom (desc V (rxq d cl))) < cap V (rxq d cl)"
    using bufs size_queue_bufs [of V dp "rxq d cl"] by (metis Suc_le_lessD size_add_mset)
  then obtain q' h where q': "virtqueue_add_available_buf L (rxq d cl) (ENCODE_DMA_ADDRESS dp b) (of_nat BUF_SIZE) = Some q'"
    "queue_inv V q' held"
    "queue_bufs V dp q' = add_mset (DECODE_DMA_ADDRESS dp (ENCODE_DMA_ADDRESS dp b)) (queue_bufs V dp (rxq d cl))"
    "desc V (rxq d cl) h = None"
    "becomes V (rxq d cl) q' (avail V (rxq d cl) @ [h]) (used V (rxq d cl))
      ((desc V (rxq d cl))(h \<mapsto> (ENCODE_DMA_ADDRESS dp b, of_nat BUF_SIZE)))"
    by (rule queue_add [OF ok q])
  let ?cl = "cl\<lparr>states := (states cl)[d := (states cl ! d)\<lparr>c_rx_virtqueue := q'\<rparr>]\<rparr>"
  have "pico_free_buf L dp cl b = Inr ?cl"
    using maps b d q'(1) by (simp add: pico_free_buf_def)
  moreover have "rx_inv V dp B held d ?cl"
    using d q'(2) bufs dpok maps decode_encode [OF dpok b] by (simp add: rx_inv_def q'(3) becomesD [OF q'(5)])
  ultimately show thesis using that [of ?cl h] q'(4,5) d by simp
qed

lemma used_others:
  assumes "queue_inv V q held" "used V q = (h, l) # us" "u \<in> set us"
  shows "fst u \<noteq> h" "fst u \<in> dom (desc V q)"
proof -
  have eq: "mset (map fst us) + add_mset h (mset (avail V q) + held) = mset_set (dom (desc V q))"
    using assms(1,2) by (simp add: queue_inv_def ac_simps)
  have u: "fst u \<in># mset (map fst us)" using assms(3) by simp
  from mset_set_unique [OF eq u] show "fst u \<noteq> h" by auto
  have "fst u \<in># mset_set (dom (desc V q))" using u by (simp flip: eq)
  then show "fst u \<in> dom (desc V q)" by simp
qed

lemma poll_round:
  assumes ok: "vq_lib_ok L V" and inv: "rx_inv V dp B held d cl" and us: "used V (rxq d cl) = (h, l) # us"
  obtains (refused) l' cl1 where "poll_loop L recv dp d (Suc n) cl = Inr (Suc n, cl1)" "0 < l'"
      "sint (recv (delivered cl1)) \<le> 0" "used V (rxq d cl1) = (h, l) # us" "avail V (rxq d cl1) = avail V (rxq d cl)"
      "delivered cl1 = delivered cl @ [(d, entry_buf dp (desc V (rxq d cl) h), l')]"
  | (accepted) l' cl3 where "poll_loop L recv dp d (Suc n) cl = poll_loop L recv dp d n cl3"
      "rx_inv V dp B held d cl3" "used V (rxq d cl3) = us" "length (avail V (rxq d cl3)) = Suc (length (avail V (rxq d cl)))"
      "delivered cl3 = delivered cl @ (if 0 < l' then [(d, entry_buf dp (desc V (rxq d cl) h), l')] else [])"
      "\<forall>u \<in> set us. desc V (rxq d cl3) (fst u) = desc V (rxq d cl) (fst u)"
proof -
  let ?q = "rxq d cl"
  have q: "queue_inv V ?q held" and d: "d < length (states cl)" and B: "queue_bufs V dp ?q = B" "size B \<le> cap V ?q"
    and dpok: "dataports_ok dp (set_mset B)" and maps: "\<forall>b \<in># B. mapper_find (mapper cl) (fst (dataport_wrap_ptr dp b)) = Some d"
    using inv by (simp_all add: rx_inv_def)
  obtain q1 a m l' q2 where r: "next_used L ?q \<noteq> used_idx L ?q" "used_ring L ?q (next_used L ?q) = (h, l)"
    "virtqueue_gather_used L ?q h l = Some (a, l', q1)" "virtqueue_get_used_buf L q1 = Some (h, l, q2)"
    "desc V ?q h = Some (a, m)" "queue_inv V q2 held"
    "queue_bufs V dp ?q = add_mset (DECODE_DMA_ADDRESS dp a) (queue_bufs V dp q2)"
    "becomes V ?q q2 (avail V ?q) us ((desc V ?q)(h := None))"
    "becomes V ?q q1 (avail V ?q) (used V ?q) ((desc V ?q)(h := None))"
    by (rule queue_reclaim_peek [OF ok q us])
  have buf: "entry_buf dp (desc V ?q h) = DECODE_DMA_ADDRESS dp a" by (simp add: entry_buf_def r(5))
  let ?cl0 = "cl\<lparr>states := (states cl)[d := (states cl ! d)\<lparr>c_rx_virtqueue := q1\<rparr>]\<rparr>"
  obtain acc cl1 where pr: "poll_receive recv dp d a l' ?cl0 = (acc, cl1)" by fastforce
  have cl1: "states cl1 = states ?cl0" "mapper cl1 = mapper cl"
    "delivered cl1 = delivered cl @ (if 0 < l' then [(d, entry_buf dp (desc V ?q h), l')] else [])"
    "\<not> acc \<Longrightarrow> 0 < l' \<and> sint (recv (delivered cl1)) \<le> 0"
    using pr by (auto simp: poll_receive_def Let_def buf split: if_splits)
  have unf: "poll_loop L recv dp d (Suc n) cl =
      (if \<not> acc then Inr (Suc n, cl1)
       else obind (poll_consume L d cl1) (\<lambda>cl2. obind (pico_free_buf L dp cl2 (DECODE_DMA_ADDRESS dp a)) (poll_loop L recv dp d n)))"
    using d r(1-3) pr by (simp add: Let_def)
  show thesis
  proof (cases acc)
    case False
    show thesis
      by (rule refused [of cl1 l']) (use False cl1 unf us d in \<open>simp_all add: becomesD [OF r(9)]\<close>)
  next
    case True
    let ?cl2 = "cl1\<lparr>states := (states cl1)[d := (states cl1 ! d)\<lparr>c_rx_virtqueue := q2\<rparr>]\<rparr>"
    have c2: "poll_consume L d cl1 = Inr ?cl2"
      using d r(4) by (simp add: poll_consume_def cl1(1))
    have rx2: "rxq d ?cl2 = q2" "d < length (states ?cl2)" using d by (simp_all add: cl1(1))
    have "add_mset (DECODE_DMA_ADDRESS dp a) (queue_bufs V dp (rxq d ?cl2)) = B" "size B \<le> cap V (rxq d ?cl2)"
      using B r(7) unfolding rx2(1) becomesD [OF r(8)] by simp_all
    moreover have "queue_inv V (rxq d ?cl2) held" using r(6) unfolding rx2(1) .
    moreover have "\<forall>b \<in># B. mapper_find (mapper ?cl2) (fst (dataport_wrap_ptr dp b)) = Some d"
      using maps by (simp add: cl1(2))
    ultimately obtain cl3 k where 3: "pico_free_buf L dp ?cl2 (DECODE_DMA_ADDRESS dp a) = Inr cl3"
      "rx_inv V dp B held d cl3" "delivered cl3 = delivered ?cl2" "desc V (rxq d ?cl2) k = None"
      "becomes V (rxq d ?cl2) (rxq d cl3) (avail V (rxq d ?cl2) @ [k]) (used V (rxq d ?cl2))
       ((desc V (rxq d ?cl2))(k \<mapsto> (ENCODE_DMA_ADDRESS dp (DECODE_DMA_ADDRESS dp a), of_nat BUF_SIZE)))"
      using pico_free_buf_step [OF ok rx2(2) _ _ _ dpok] by metis
    note b3 = becomesD [OF 3(5), unfolded rx2(1)] and b2 = becomesD [OF r(8)]
    have "\<forall>u \<in> set us. desc V (rxq d cl3) (fst u) = desc V ?q (fst u)"
    proof
      fix u assume "u \<in> set us"
      from used_others [OF q us this] have "fst u \<noteq> h" "desc V ?q (fst u) \<noteq> None" by auto
      moreover from this have "fst u \<noteq> k" using 3(4) unfolding rx2(1) b2 by (metis fun_upd_other)
      ultimately show "desc V (rxq d cl3) (fst u) = desc V ?q (fst u)" unfolding b3 b2 by simp
    qed
    moreover have "poll_loop L recv dp d (Suc n) cl = poll_loop L recv dp d n cl3"
      unfolding unf using True c2 3(1) by simp
    moreover have "used V (rxq d cl3) = us" "length (avail V (rxq d cl3)) = Suc (length (avail V ?q))"
      unfolding b3 b2 by simp_all
    moreover have "delivered cl3 = delivered cl @ (if 0 < l' then [(d, entry_buf dp (desc V ?q h), l')] else [])"
      using 3(3) cl1(3) by simp
    ultimately show thesis using accepted 3(2) by blast
  qed
qed

lemma poll_loop_step:
  assumes ok: "vq_lib_ok L V"
  shows "rx_inv V dp B held d cl \<Longrightarrow>
    \<exists>k cl'. poll_loop L recv dp d n cl = Inr (n - k, cl') \<and> poll_outcome V dp recv B held d n cl k cl'"
proof (induction n arbitrary: cl)
  case 0
  then show ?case by (intro exI [of _ 0] exI [of _ cl]) (simp add: poll_outcome_def poll_deliveries_def)
next
  case (Suc n)
  show ?case
  proof (cases "used V (rxq d cl)")
    case Nil
    have "queue_inv V (rxq d cl) held" "d < length (states cl)" using Suc.prems by (simp_all add: rx_inv_def)
    then have "poll_loop L recv dp d (Suc n) cl = Inr (Suc n, cl)"
      using Nil vq_lawsD(2) [OF ok] by (simp add: used_laws_def Let_def)
    then show ?thesis using Suc.prems Nil
      by (intro exI [of _ 0] exI [of _ cl]) (simp add: poll_outcome_def poll_deliveries_def)
  next
    case (Cons u us)
    obtain h l where u: "u = (h, l)" by fastforce
    from ok Suc.prems Cons [unfolded u] show ?thesis
    proof (cases rule: poll_round [where recv = recv and n = n])
      case (refused l' cl1)
      then show ?thesis
        by (intro exI [of _ 0] exI [of _ cl1])
          (auto simp: poll_outcome_def Cons u poll_deliveries_def intro!: exI [of _ "[l']"])
    next
      case (accepted l' cl3)
      from Suc.IH [OF accepted(2)] obtain k cl' where
        k: "poll_loop L recv dp d n cl3 = Inr (n - k, cl')" "poll_outcome V dp recv B held d n cl3 k cl'" by blast
      have del: "poll_deliveries dp d (desc V (rxq d cl3)) (take j us) ls =
          poll_deliveries dp d (desc V (rxq d cl)) (take j us) ls" for j ls
        by (rule poll_deliveries_cong) (use accepted(6) in_set_takeD in fastforce)
      from k(2) obtain ls where c: "k \<le> n" "k \<le> length us" "used V (rxq d cl') = drop k us"
        "length (avail V (rxq d cl')) = Suc (length (avail V (rxq d cl))) + k"
        and alt: "(length ls = k \<and> (k = n \<or> k = length us) \<and> rx_inv V dp B held d cl' \<and>
            delivered cl' = delivered cl3 @ poll_deliveries dp d (desc V (rxq d cl)) (take k us) ls) \<or>
          (length ls = Suc k \<and> k < n \<and> k < length us \<and> 0 < last ls \<and> sint (recv (delivered cl')) \<le> 0 \<and>
            delivered cl' = delivered cl3 @ poll_deliveries dp d (desc V (rxq d cl)) (take (Suc k) us) ls)"
        unfolding poll_outcome_def Let_def accepted(3,4) del by blast
      have "poll_outcome V dp recv B held d (Suc n) cl (Suc k) cl'"
        unfolding poll_outcome_def Let_def Cons u
        by (intro conjI exI [of _ "l' # ls"]) (use c alt in \<open>auto simp: accepted(5) poll_deliveries_Cons\<close>)
      then show ?thesis using k(1) accepted(1) by (intro exI [of _ "Suc k"] exI [of _ cl']) simp
    qed
  qed
qed

section \<open>Client and server together\<close>

text \<open>Device \<open>d\<close> of a client component and its server run in turn on the shared queues: after a step of
  one side the other sees the new queues. \<open>Driver cbs\<close> are callbacks from the driver's own interrupt.\<close>

datatype async_op = Send "u8 list" | Poll cint | NotifyServer | TxIrq | NotifyClient | Driver "callback list"

type_synonym 'v world = "'v client_lib \<times> memory \<times> 'v server_data"

definition set_dev :: "nat \<Rightarrow> 'v client_state \<Rightarrow> 'v client_lib \<Rightarrow> 'v client_lib" where
  "set_dev d st cl = cl\<lparr>states := (states cl)[d := st]\<rparr>"

definition after_client :: "nat \<Rightarrow> 'v client_lib \<Rightarrow> memory \<Rightarrow> 'v server_data \<Rightarrow> 'v world" where
  "after_client d cl mem sv =
     (cl, mem, sv\<lparr>s_tx_virtqueue := c_tx_virtqueue (states cl ! d), s_rx_virtqueue := rxq d cl\<rparr>)"

definition after_server :: "nat \<Rightarrow> 'v client_lib \<Rightarrow> memory \<Rightarrow> 'v server_data \<Rightarrow> 'v world" where
  "after_server d cl mem sv =
     (set_dev d ((states cl ! d)\<lparr>c_tx_virtqueue := s_tx_virtqueue sv, c_rx_virtqueue := s_rx_virtqueue sv\<rparr>) cl,
      mem, sv)"

fun async_step ::
  "'v vq_lib \<Rightarrow> dataports \<Rightarrow> ((nat \<times> u64 \<times> u32) list \<Rightarrow> cint) \<Rightarrow> eth_hw \<Rightarrow> nat \<Rightarrow> async_op \<Rightarrow> 'v world \<Rightarrow> 'v world outcome" where
  "async_step L dp recv hw d (Send input) (cl, mem, sv) =
     obind (pico_eth_send L dp (states cl ! d, mem) input) (\<lambda>(_, st, mem').
       Inr (after_client d (set_dev d st cl) mem' sv))"
| "async_step L dp recv hw d (Poll n) (cl, mem, sv) =
     obind (pico_eth_poll L recv dp d n cl) (\<lambda>(_, cl'). Inr (after_client d cl' mem sv))"
| "async_step L dp recv hw d NotifyServer (cl, mem, sv) =
     Inr (after_client d (set_dev d (snd (notify_server (states cl ! d))) cl) mem sv)"
| "async_step L dp recv hw d TxIrq (cl, mem, sv) =
     obind (virt_queue_handle_irq L dp hw sv) (\<lambda>sv'. Inr (after_server d cl mem sv'))"
| "async_step L dp recv hw d NotifyClient (cl, mem, sv) =
     obind (notify_client L dp hw sv) (\<lambda>(_, sv'). Inr (after_server d cl mem sv'))"
| "async_step L dp recv hw d (Driver cbs) (cl, mem, sv) =
     obind (run_callbacks L dp cbs sv) (\<lambda>sv'. Inr (after_server d cl mem sv'))"

fun async_run ::
  "'v vq_lib \<Rightarrow> dataports \<Rightarrow> ((nat \<times> u64 \<times> u32) list \<Rightarrow> cint) \<Rightarrow> eth_hw \<Rightarrow> nat \<Rightarrow> async_op list \<Rightarrow> 'v world \<Rightarrow> 'v world outcome" where
  "async_run L dp recv hw d [] w = Inr w"
| "async_run L dp recv hw d (op # ops) w = obind (async_step L dp recv hw d op w) (async_run L dp recv hw d ops)"

text \<open>Frames fit in a buffer, and the driver completes only what it holds.\<close>

fun async_ok :: "'v vq_lib \<Rightarrow> dataports \<Rightarrow> async_op \<Rightarrow> 'v world \<Rightarrow> bool" where
  "async_ok L dp (Send input) w = (length input \<le> BUF_SIZE)"
| "async_ok L dp (Driver cbs) (cl, mem, sv) = callbacks_ok L dp cbs sv"
| "async_ok L dp _ w = True"

fun async_run_ok ::
  "'v vq_lib \<Rightarrow> dataports \<Rightarrow> ((nat \<times> u64 \<times> u32) list \<Rightarrow> cint) \<Rightarrow> eth_hw \<Rightarrow> nat \<Rightarrow> async_op list \<Rightarrow> 'v world \<Rightarrow> bool" where
  "async_run_ok L dp recv hw d [] w = True"
| "async_run_ok L dp recv hw d (op # ops) w \<longleftrightarrow>
     async_ok L dp op w \<and>
     (case async_step L dp recv hw d op w of Inl _ \<Rightarrow> True | Inr w' \<Rightarrow> async_run_ok L dp recv hw d ops w')"

fun world_inv :: "'v vq_view \<Rightarrow> dataports \<Rightarrow> u64 multiset \<Rightarrow> u64 multiset \<Rightarrow> nat \<Rightarrow> 'v world \<Rightarrow> bool" where
  "world_inv V dp Bt Br d (cl, mem, sv) \<longleftrightarrow>
     s_tx_virtqueue sv = c_tx_virtqueue (states cl ! d) \<and> s_rx_virtqueue sv = rxq d cl \<and>
     client_inv V dp Bt (tx_outstanding sv) (states cl ! d) \<and> bufs_mapped mem Bt \<and>
     rx_inv V dp Br (rx_outstanding sv) d cl"

lemma world_inv_server: "world_inv V dp Bt Br d (cl, mem, sv) \<Longrightarrow> server_inv V sv"
  by (simp add: server_inv_def client_inv_def rx_inv_def)

text \<open>Polling touches nothing of the transmit side.\<close>

definition tx_side :: "'v client_state \<Rightarrow> nat \<times> u64 list \<times> 'v" where
  "tx_side st = (num_tx st, pending_tx st, c_tx_virtqueue st)"

lemma tx_side_upd [simp]: "tx_side (st\<lparr>c_rx_virtqueue := q\<rparr>) = tx_side st"
  by (simp add: tx_side_def)

lemma tx_side_list: "i < length xs \<Longrightarrow> map tx_side (xs[i := (xs ! i)\<lparr>c_rx_virtqueue := q\<rparr>]) = map tx_side xs"
  by (rule map_upd_same) simp_all

lemma poll_receive_frame: "poll_receive recv dp d b l cl = (acc, cl') \<Longrightarrow> states cl' = states cl"
  by (auto simp: poll_receive_def Let_def split: if_splits)

lemma poll_consume_frame: "poll_consume L d cl = Inr cl' \<Longrightarrow> map tx_side (states cl') = map tx_side (states cl)"
  by (auto simp: poll_consume_def obind_eq_Inr nth_ok_eq_Inr tx_side_list split: option.splits)

lemma pico_free_buf_frame: "pico_free_buf L dp cl b = Inr cl' \<Longrightarrow> map tx_side (states cl') = map tx_side (states cl)"
  by (auto simp: pico_free_buf_def obind_eq_Inr nth_ok_eq_Inr tx_side_list split: option.splits)

lemma poll_loop_frame:
  "poll_loop L recv dp d n cl = Inr (m, cl') \<Longrightarrow> map tx_side (states cl') = map tx_side (states cl)"
proof (induction n arbitrary: cl)
  case 0
  then show ?case by simp
next
  case (Suc n)
  from Suc.prems obtain st where st: "d < length (states cl)" "st = states cl ! d"
    by (auto simp: obind_eq_Inr nth_ok_eq_Inr)
  let ?q = "c_rx_virtqueue st"
  show ?case
  proof (cases "next_used L ?q = used_idx L ?q")
    case True
    with Suc.prems st show ?thesis by (simp add: Let_def)
  next
    case False
    obtain h l where hl: "used_ring L ?q (next_used L ?q) = (h, l)" by fastforce
    from Suc.prems st False hl obtain a l' q' where g: "virtqueue_gather_used L ?q h l = Some (a, l', q')"
      by (auto simp: Let_def split: option.splits)
    let ?cl0 = "cl\<lparr>states := (states cl)[d := st\<lparr>c_rx_virtqueue := q'\<rparr>]\<rparr>"
    obtain acc cl1 where pr: "poll_receive recv dp d a l' ?cl0 = (acc, cl1)" by fastforce
    have 1: "map tx_side (states cl1) = map tx_side (states cl)"
      using poll_receive_frame [OF pr] st by (simp add: tx_side_list)
    show ?thesis
    proof (cases acc)
      case False
      with Suc.prems st \<open>\<not> next_used L ?q = used_idx L ?q\<close> hl g pr 1 show ?thesis by (simp add: Let_def)
    next
      case True
      with Suc.prems st False hl g pr obtain cl2 cl3 where
        "poll_consume L d cl1 = Inr cl2" "pico_free_buf L dp cl2 (DECODE_DMA_ADDRESS dp a) = Inr cl3"
        "poll_loop L recv dp d n cl3 = Inr (m, cl')"
        by (auto simp: Let_def obind_eq_Inr)
      with poll_consume_frame pico_free_buf_frame Suc.IH 1 show ?thesis by metis
    qed
  qed
qed

lemma outstanding_upd [simp]:
  "tx_outstanding (sv\<lparr>s_tx_virtqueue := q\<rparr>) = tx_outstanding sv" "rx_outstanding (sv\<lparr>s_tx_virtqueue := q\<rparr>) = rx_outstanding sv"
  "tx_outstanding (sv\<lparr>s_rx_virtqueue := q\<rparr>) = tx_outstanding sv" "rx_outstanding (sv\<lparr>s_rx_virtqueue := q\<rparr>) = rx_outstanding sv"
  by (simp_all add: tx_outstanding_def rx_outstanding_def)

lemma async_step_inv:
  assumes ok: "vq_lib_ok L V" and hw: "hw_ok L dp hw" and recv: "\<forall>g. 0 < sint (recv g)"
    and inv: "world_inv V dp Bt Br d w" and op: "async_ok L dp op w"
  obtains w' where "async_step L dp recv hw d op w = Inr w'" "world_inv V dp Bt Br d w'"
proof -
  obtain cl mem sv where w: "w = (cl, mem, sv)" using prod_cases3 by blast
  note sinv = world_inv_server [OF inv [unfolded w]]
  have share: "s_tx_virtqueue sv = c_tx_virtqueue (states cl ! d)" "s_rx_virtqueue sv = rxq d cl"
    and cinv: "client_inv V dp Bt (tx_outstanding sv) (states cl ! d)" and mapped: "bufs_mapped mem Bt"
    and rinv: "rx_inv V dp Br (rx_outstanding sv) d cl" and d: "d < length (states cl)"
    using inv by (simp_all add: w rx_inv_def)
  note result = that
  have server_case: thesis
    if "async_step L dp recv hw d op w = Inr (after_server d cl mem sv')" "server_inv V sv'"
      "desc V (s_tx_virtqueue sv') = desc V (s_tx_virtqueue sv)" "desc V (s_rx_virtqueue sv') = desc V (s_rx_virtqueue sv)"
      "cap V (s_tx_virtqueue sv') = cap V (s_tx_virtqueue sv)" "cap V (s_rx_virtqueue sv') = cap V (s_rx_virtqueue sv)"
    for sv'
  proof (rule result [OF that(1)])
    show "world_inv V dp Bt Br d (after_server d cl mem sv')"
      using cinv mapped rinv d \<open>server_inv V sv'\<close>
        queue_bufs_same [OF that(3), of dp] queue_bufs_same [OF that(4), of dp] that(5,6)
      by (simp add: after_server_def set_dev_def client_inv_def rx_inv_def server_inv_def tx_pool_def share)
  qed
  show thesis
  proof (cases op)
    case (Send input)
    from ok cinv mapped have len: "length input \<le> BUF_SIZE" using op Send by simp
    from ok cinv mapped len show thesis
    proof (cases rule: pico_eth_send_step)
      case none
      with inv d show thesis
        by (intro that [of w]) (simp_all add: w Send after_client_def set_dev_def share)
    next
      case (sent st' mem' b)
      with d rinv share show thesis
        by (intro that [of "after_client d (set_dev d st' cl) mem' sv"])
          (simp_all add: w Send after_client_def set_dev_def rx_inv_def tx_outstanding_def rx_outstanding_def)
    qed
  next
    case (Poll n)
    show thesis
    proof (cases "0 < sint n")
      case False
      with inv d share show thesis by (intro that [of w]) (simp_all add: w Poll pico_eth_poll_def after_client_def)
    next
      case True
      from poll_loop_step [OF ok rinv, of recv "nat (sint n)"] obtain k cl' where
        k: "poll_loop L recv dp d (nat (sint n)) cl = Inr (nat (sint n) - k, cl')"
          "poll_outcome V dp recv Br (rx_outstanding sv) d (nat (sint n)) cl k cl'" by blast
      have "rx_inv V dp Br (rx_outstanding sv) d cl'"
        using k(2) recv unfolding poll_outcome_def Let_def by (metis not_le)
      moreover have "tx_side (states cl' ! d) = tx_side (states cl ! d)"
        using poll_loop_frame [OF k(1)] d by (metis length_map nth_map)
      ultimately show thesis using k(1) True cinv mapped share
        by (intro that [of "after_client d cl' mem sv"])
          (simp_all add: w Poll pico_eth_poll_def after_client_def tx_side_def client_inv_def tx_pool_def
            tx_outstanding_def rx_outstanding_def)
    qed
  next
    case NotifyServer
    with inv d share show thesis
      by (intro that) (auto simp: w after_client_def set_dev_def notify_server_def client_inv_def rx_inv_def tx_pool_def)
  next
    case TxIrq
    from virt_queue_handle_irq_step [OF ok hw sinv] obtain sv' k where
      "virt_queue_handle_irq L dp hw sv = Inr sv'" "server_inv V sv'" "tx_progress V dp k sv sv'" .
    then show thesis using TxIrq by (intro server_case [of sv']) (simp_all add: w tx_progress_def)
  next
    case NotifyClient
    obtain sv1 where 1: "(if blocked_tx sv then virt_queue_handle_irq L dp hw sv else Inr sv) = Inr sv1"
      "server_inv V sv1" "desc V (s_tx_virtqueue sv1) = desc V (s_tx_virtqueue sv)"
      "desc V (s_rx_virtqueue sv1) = desc V (s_rx_virtqueue sv)"
      "cap V (s_tx_virtqueue sv1) = cap V (s_tx_virtqueue sv)" "cap V (s_rx_virtqueue sv1) = cap V (s_rx_virtqueue sv)"
    proof (cases "blocked_tx sv")
      case True
      obtain sv' k where "virt_queue_handle_irq L dp hw sv = Inr sv'" "server_inv V sv'" "tx_progress V dp k sv sv'"
        by (rule virt_queue_handle_irq_step [OF ok hw sinv])
      with True show thesis by (intro that [of sv']) (simp_all add: tx_progress_def)
    qed (use sinv that [of sv] in simp)
    show thesis
    proof (cases "s_action sv")
      case True
      then show thesis using NotifyClient 1
        by (intro server_case [of "sv1\<lparr>s_action := False\<rparr>"])
          (simp_all add: w notify_client_def server_inv_def tx_outstanding_def rx_outstanding_def)
    next
      case False
      then show thesis using NotifyClient sinv
        by (intro server_case [of sv]) (simp_all add: w notify_client_def)
    qed
  next
    case (Driver cbs)
    with op have "callbacks_ok L dp cbs sv" by (simp add: w)
    from run_callbacks_step [OF ok sinv this] obtain sv' where
      "run_callbacks L dp cbs sv = Inr sv'" "server_inv V sv'" "tx_kept V dp sv sv'" by blast
    then show thesis using Driver by (intro server_case [of sv']) (simp_all add: w tx_kept_def)
  qed
qed

lemma async_run_inv:
  assumes ok: "vq_lib_ok L V" and hw: "hw_ok L dp hw" and recv: "\<forall>g. 0 < sint (recv g)"
  shows "world_inv V dp Bt Br d w \<Longrightarrow> async_run_ok L dp recv hw d ops w \<Longrightarrow>
    \<exists>w'. async_run L dp recv hw d ops w = Inr w' \<and> world_inv V dp Bt Br d w'"
proof (induction ops arbitrary: w)
  case (Cons op ops)
  then have "async_ok L dp op w" by simp
  from async_step_inv [OF ok hw recv Cons.prems(1) this] obtain w' where
    "async_step L dp recv hw d op w = Inr w'" "world_inv V dp Bt Br d w'" .
  with Cons show ?case by simp
qed simp

section \<open>A library that keeps the promises\<close>

text \<open>A queue of eight descriptors, to apply the theorems to.\<close>

record list_vq =
  l_avail :: "u32 list"
  l_used :: "(u32 \<times> u32) list"
  l_desc :: "u32 \<Rightarrow> (u64 \<times> u32) option"

definition list_heads :: "u32 list" where "list_heads = [0, 1, 2, 3, 4, 5, 6, 7]"

definition list_lib :: "list_vq vq_lib" where
  "list_lib = \<lparr>
     u_ring_last_seen = (\<lambda>q. 0), used_idx = (\<lambda>q. if l_used q = [] then 1 else 0), used_ring = (\<lambda>q i. hd (l_used q)),
     a_ring_last_seen = (\<lambda>q. 0), avail_idx = (\<lambda>q. if l_avail q = [] then 1 else 0), avail_ring = (\<lambda>q i. hd (l_avail q)),
     queue_len = (\<lambda>q. 16),
     virtqueue_get_used_buf = (\<lambda>q. case l_used q of [] \<Rightarrow> None | (h, l) # us \<Rightarrow> Some (h, l, q\<lparr>l_used := us\<rparr>)),
     virtqueue_gather_used = (\<lambda>q h l. case l_desc q h of None \<Rightarrow> None
       | Some (a, n) \<Rightarrow> Some (a, l, q\<lparr>l_desc := (l_desc q)(h := None)\<rparr>)),
     virtqueue_add_available_buf = (\<lambda>q a n. case find (\<lambda>h. l_desc q h = None) list_heads of None \<Rightarrow> None
       | Some h \<Rightarrow> Some (q\<lparr>l_avail := l_avail q @ [h], l_desc := (l_desc q)(h \<mapsto> (a, n))\<rparr>)),
     virtqueue_get_available_buf = (\<lambda>q. case l_avail q of [] \<Rightarrow> None | h # hs \<Rightarrow> Some (h, q\<lparr>l_avail := hs\<rparr>)),
     virtqueue_gather_available = (\<lambda>q h. l_desc q h),
     virtqueue_add_used_buf = (\<lambda>q h l. Some (q\<lparr>l_used := l_used q @ [(h, l)]\<rparr>))\<rparr>"

definition list_view :: "list_vq vq_view" where
  "list_view = \<lparr>
     valid = (\<lambda>q. distinct (l_avail q) \<and> set (l_avail q) \<subseteq> dom (l_desc q) \<and> dom (l_desc q) \<subseteq> set list_heads),
     avail = l_avail, used = l_used, desc = l_desc, cap = (\<lambda>q. 8)\<rparr>"

lemma list_heads_card: "card (set list_heads) = 8"
  by (simp add: list_heads_def)

lemma list_avail_bound:
  assumes "valid list_view q" shows "length (l_avail q) < 16"
proof -
  have "length (l_avail q) = card (set (l_avail q))"
    using assms by (simp add: list_view_def distinct_card)
  also have "\<dots> \<le> card (set list_heads)"
    using assms by (intro card_mono) (auto simp: list_view_def)
  finally show ?thesis by (simp add: list_heads_card)
qed

lemma list_free_head:
  assumes "card (dom d) < 8"
  obtains h where "find (\<lambda>h. d h = None) list_heads = Some h" "d h = None" "h \<in> set list_heads"
proof -
  have "\<not> set list_heads \<subseteq> dom d"
    using card_mono [of "dom d" "set list_heads"] assms by (auto simp: list_heads_card)
  then obtain h where "find (\<lambda>h. d h = None) list_heads = Some h"
    by (cases "find (\<lambda>h. d h = None) list_heads") (auto simp: find_None_iff)
  then show thesis using that find_Some_iff by (metis (mono_tags, lifting) nth_mem)
qed

lemma list_lib_ok: "vq_lib_ok list_lib list_view"
  unfolding vq_lib_ok_def
proof (intro allI impI conjI)
  fix q assume v: "valid list_view q"
  note defs = list_lib_def list_view_def becomes_def
  have mask: "(1 :: u32) AND 15 = 1" by simp
  show "avail_laws list_lib list_view q"
    using v list_avail_bound [OF v] by (auto simp: avail_laws_def defs mask split: list.splits)
  have add: "\<exists>q' h. virtqueue_add_available_buf list_lib q a n = Some q' \<and> desc list_view q h = None \<and>
      becomes list_view q q' (avail list_view q @ [h]) (used list_view q) ((desc list_view q)(h \<mapsto> (a, n)))"
    if "card (dom (desc list_view q)) < cap list_view q" for a n
  proof -
    have "card (dom (l_desc q)) < 8" using that by (simp add: list_view_def)
    then obtain h where "find (\<lambda>h. l_desc q h = None) list_heads = Some h" "l_desc q h = None" "h \<in> set list_heads"
      by (rule list_free_head)
    then show ?thesis using v by (auto simp: defs)
  qed
  show "used_laws list_lib list_view q"
    unfolding used_laws_def
    using add v by (auto simp: defs mask split: list.splits)
qed

section \<open>Properties\<close>

definition plain_dp :: dataports where
  "plain_dp = \<lparr>dataport_wrap_ptr = (\<lambda>p. (7, p)), dataport_unwrap_ptr = snd, ps_dma_pin = (\<lambda>p. p)\<rparr>"

text \<open>A driver that takes one frame at a time.\<close>

definition one_frame_hw :: eth_hw where
  "one_frame_hw = \<lparr>raw_tx = (\<lambda>log x. ([], tx_out (rev log) = {#})), raw_poll = (\<lambda>log. [])\<rparr>"

lemma one_frame_hw_ok: "hw_ok L dp one_frame_hw"
  by (simp add: hw_ok_def one_frame_hw_def)

definition empty_vq :: list_vq where
  "empty_vq = \<lparr>l_avail = [], l_used = [], l_desc = Map.empty\<rparr>"

definition two_frames_vq :: list_vq where
  "two_frames_vq = \<lparr>l_avail = [0, 1], l_used = [],
     l_desc = [0 \<mapsto> (ENCODE_DMA_ADDRESS plain_dp 0x1000, 60), 1 \<mapsto> (ENCODE_DMA_ADDRESS plain_dp 0x2000, 90)]\<rparr>"

definition server_of :: "list_vq \<Rightarrow> list_vq \<Rightarrow> list_vq server_data" where
  "server_of tx rx = \<lparr>s_tx_virtqueue = tx, s_rx_virtqueue = rx, s_action = False, blocked_tx = False,
     no_rx_bufs = False, hw_mac = [], hw_log = []\<rparr>"

lemma plain_dp_simps [simp]:
  "dataport_wrap_ptr plain_dp p = (7, p)" "dataport_unwrap_ptr plain_dp x = snd x" "ps_dma_pin plain_dp p = p"
  by (simp_all add: plain_dp_def)

text \<open>
  C6. The server's transmit handler ends, however the driver answers: it offers the frames that the client
  made available to the driver in order, each exactly once, until the driver refuses one; that one and
  the later ones stay available, and transmission is marked blocked exactly then.
\<close>
theorem async_irq_sends_in_order:
  assumes "vq_lib_ok L V" and "hw_ok L dp hw" and "server_inv V sv"
  shows "\<exists>sv' k. virt_queue_handle_irq L dp hw sv = Inr sv' \<and> server_inv V sv' \<and>
    k \<le> length (avail V (s_tx_virtqueue sv)) \<and>
    tx_accepted (hw_log sv') = tx_accepted (hw_log sv) @ take k (tx_offers V dp (s_tx_virtqueue sv)) \<and>
    tx_offers V dp (s_tx_virtqueue sv') = drop k (tx_offers V dp (s_tx_virtqueue sv)) \<and>
    (tx_offers V dp (s_tx_virtqueue sv) \<noteq> [] \<longrightarrow>
      (blocked_tx sv' \<longleftrightarrow> tx_offers V dp (s_tx_virtqueue sv') \<noteq> []))"
proof -
  obtain sv' k where "virt_queue_handle_irq L dp hw sv = Inr sv'" "server_inv V sv'" "tx_progress V dp k sv sv'"
    by (rule virt_queue_handle_irq_step [OF assms])
  then show ?thesis
    by (intro exI [of _ sv'] exI [of _ k]) (simp add: tx_progress_def tx_offers_def drop_map linorder_not_le)
qed

theorem async_irq_sends_in_order_witness:
  "\<exists>sv' k. virt_queue_handle_irq list_lib plain_dp one_frame_hw (server_of two_frames_vq empty_vq) = Inr sv' \<and>
    k \<le> 2 \<and> tx_accepted (hw_log sv') = take k [(0x1000, 60, 0), (0x2000, 90, 1)]"
proof -
  have inv: "server_inv list_view (server_of two_frames_vq empty_vq)"
    by (simp add: server_inv_def queue_inv_def server_of_def two_frames_vq_def empty_vq_def list_view_def
        list_heads_def tx_outstanding_def rx_outstanding_def)
  have dec: "DECODE_DMA_ADDRESS plain_dp (ENCODE_DMA_ADDRESS plain_dp p) = p" if "unat p < 2 ^ 32" for p
    by (rule decode_encode_address) (use that in simp_all)
  have offers: "tx_offers list_view plain_dp (s_tx_virtqueue (server_of two_frames_vq empty_vq)) =
      [(0x1000, 60, 0), (0x2000, 90, 1)]"
    by (simp add: server_of_def two_frames_vq_def list_view_def tx_offers_def tx_offer_def dec)
  have len: "length (avail list_view (s_tx_virtqueue (server_of two_frames_vq empty_vq))) = 2"
    by (simp add: server_of_def two_frames_vq_def list_view_def)
  have log: "hw_log (server_of two_frames_vq empty_vq) = []" by (simp add: server_of_def)
  from async_irq_sends_in_order [OF list_lib_ok one_frame_hw_ok inv, of plain_dp] show ?thesis
    unfolding offers len log tx_accepted.simps append_Nil by blast
qed

text \<open>
  A poll of the device returns after at most \<open>loop_score\<close> rounds: it passes the first \<open>k\<close> returned entries
  to the stack in order (those of length 0 are skipped) and makes their buffers available again, and
  stops when the score is used up, when no entry is left, or when the stack refuses an entry, which
  then stays in the queue. The result is the score that is left.
\<close>
theorem async_poll_in_order:
  assumes "vq_lib_ok L V" and "rx_inv V dp B held d cl" and "0 < sint loop_score"
  shows "\<exists>k cl'. pico_eth_poll L recv dp d loop_score cl = Inr (of_nat (nat (sint loop_score) - k), cl') \<and>
    (let us = used V (rxq d cl); D = desc V (rxq d cl)
     in k \<le> nat (sint loop_score) \<and> k \<le> length us \<and> used V (rxq d cl') = drop k us \<and>
        length (avail V (rxq d cl')) = length (avail V (rxq d cl)) + k \<and>
        (\<exists>ls. (length ls = k \<and> (k = nat (sint loop_score) \<or> k = length us) \<and> rx_inv V dp B held d cl' \<and>
                delivered cl' = delivered cl @ poll_deliveries dp d D (take k us) ls) \<or>
              (length ls = Suc k \<and> k < nat (sint loop_score) \<and> k < length us \<and> 0 < last ls \<and>
                sint (recv (delivered cl')) \<le> 0 \<and>
                delivered cl' = delivered cl @ poll_deliveries dp d D (take (Suc k) us) ls)))"
proof -
  from poll_loop_step [OF assms(1,2)] obtain k cl' where
    "poll_loop L recv dp d (nat (sint loop_score)) cl = Inr (nat (sint loop_score) - k, cl')"
    "poll_outcome V dp recv B held d (nat (sint loop_score)) cl k cl'" by blast
  then show ?thesis
    using assms(3) unfolding poll_outcome_def by (intro exI [of _ k] exI [of _ cl']) (simp add: pico_eth_poll_def)
qed

definition one_used_vq :: list_vq where
  "one_used_vq = \<lparr>l_avail = [], l_used = [(0, 60)], l_desc = [0 \<mapsto> (ENCODE_DMA_ADDRESS plain_dp 0x3000, 2048)]\<rparr>"

definition client_of :: "nat \<Rightarrow> u64 list \<Rightarrow> list_vq \<Rightarrow> list_vq \<Rightarrow> list_vq client_lib" where
  "client_of n bufs tx rx = \<lparr>states = [\<lparr>num_tx = n, pending_tx = bufs, c_mac = [], c_tx_virtqueue = tx,
     c_rx_virtqueue = rx, c_action = False\<rparr>], mapper = [(7, 0)], mapper_size = 16, delivered = []\<rparr>"

lemma plain_decode: "unat p < 2 ^ 32 \<Longrightarrow> DECODE_DMA_ADDRESS plain_dp (ENCODE_DMA_ADDRESS plain_dp p) = p"
  by (rule decode_encode_address) simp_all

lemma one_used_rx_inv: "rx_inv list_view plain_dp {#0x3000#} {#} 0 (client_of n bufs tx one_used_vq)"
  by (simp add: rx_inv_def queue_inv_def client_of_def one_used_vq_def list_view_def list_heads_def
      queue_bufs_def entry_buf_def plain_decode dataports_ok_def)

theorem async_poll_in_order_witness:
  "\<exists>k cl'. pico_eth_poll list_lib (\<lambda>g. 60) plain_dp 0 5 (client_of 0 [] empty_vq one_used_vq) = Inr (of_nat (5 - k), cl') \<and>
    used list_view (rxq 0 cl') = drop k [(0, 60)]"
proof -
  have u: "used list_view (rxq 0 (client_of 0 [] empty_vq one_used_vq)) = [(0, 60)]"
    by (simp add: client_of_def one_used_vq_def list_view_def)
  have n: "sint (5 :: cint) = 5" by simp
  from async_poll_in_order [OF list_lib_ok one_used_rx_inv, of 5 "\<lambda>g. 60" 0 "[]" empty_vq] show ?thesis
    unfolding n u Let_def by auto
qed


definition async_ops :: "async_op list" where
  "async_ops = [Send [1, 2], TxIrq, Send [3], TxIrq, Driver [TxComplete 0], NotifyClient, Poll 5,
     Driver [AllocateRx 2048, RxComplete [0] [64]], Send [4, 5], Poll 5]"

definition async_w0 :: "list_vq world" where
  "async_w0 = (client_of 2 [0x1000, 0x2000] empty_vq one_used_vq, \<lambda>p. Some (replicate BUF_SIZE 0), server_of empty_vq one_used_vq)"

lemma async_ops_ok: "async_run_ok list_lib plain_dp (\<lambda>g. 60) one_frame_hw 0 async_ops async_w0"
  by code_simp


section \<open>Initialisation establishes the invariants\<close>

text \<open>\<open>realloc\<close> is given a number of entries where it expects bytes: unless the allocator provides far
  more than was asked for, the entry is written outside the block.\<close>

lemma client_init_overrun:
  assumes "dma 0 = Some buf" "usable (length (mapper cl) + 1) < (length (mapper cl) + 1) * 16"
  shows "picotcp_ethernet_async_client_init L dp usable dma True txq rxq mac dev_init (cl, mem) = Inl OutOfBounds"
proof -
  have "[0..<NUM_RX_BUFS] = 0 # [Suc 0..<NUM_RX_BUFS]" by (simp add: upt_conv_Cons NUM_RX_BUFS_def)
  then show ?thesis
    using assms by (simp add: picotcp_ethernet_async_client_init_def register_mapper_def sizeof_mapper_def Let_def)
qed

lemma init_rx_bufs_step:
  assumes ok: "vq_lib_ok L V" and dma: "\<And>i. i \<in> set ks \<Longrightarrow> dma i = Some (b i) \<and> DECODE_DMA_ADDRESS dp (ENCODE_DMA_ADDRESS dp (b i)) = b i"
  shows "queue_inv V (c_rx_virtqueue st) held \<Longrightarrow>
    card (dom (desc V (c_rx_virtqueue st))) + length ks \<le> cap V (c_rx_virtqueue st) \<Longrightarrow>
    \<exists>q mem'. init_rx_bufs L dp usable dma s ks True (cl, st, mem) = Inr (cl, st\<lparr>c_rx_virtqueue := q\<rparr>, mem') \<and>
      queue_inv V q held \<and> cap V q = cap V (c_rx_virtqueue st) \<and>
      queue_bufs V dp q = queue_bufs V dp (c_rx_virtqueue st) + mset (map b ks) \<and>
      (\<forall>p. mem' p = (if p \<in> b ` set ks then Some (replicate BUF_SIZE 0) else mem p))"
  using dma
proof (induction ks arbitrary: st mem)
  case Nil
  then show ?case by (intro exI [of _ "c_rx_virtqueue st"] exI [of _ mem]) simp
next
  case (Cons i ks)
  let ?q = "c_rx_virtqueue st"
  have room: "card (dom (desc V ?q)) < cap V ?q" using Cons.prems(2) by simp
  have i: "dma i = Some (b i)" "DECODE_DMA_ADDRESS dp (ENCODE_DMA_ADDRESS dp (b i)) = b i" using Cons.prems(3) by auto
  obtain q1 h where q1: "virtqueue_add_available_buf L ?q (ENCODE_DMA_ADDRESS dp (b i)) (of_nat BUF_SIZE) = Some q1"
    "queue_inv V q1 held" "queue_bufs V dp q1 = add_mset (DECODE_DMA_ADDRESS dp (ENCODE_DMA_ADDRESS dp (b i))) (queue_bufs V dp ?q)"
    "desc V ?q h = None"
    "becomes V ?q q1 (avail V ?q @ [h]) (used V ?q) ((desc V ?q)(h \<mapsto> (ENCODE_DMA_ADDRESS dp (b i), of_nat BUF_SIZE)))"
    by (rule queue_add [OF ok Cons.prems(1) room])
  have "card (dom (desc V q1)) = Suc (card (dom (desc V ?q)))"
    using q1(4) unfolding becomesD [OF q1(5)] by (simp add: domIff)
  with Cons.prems(2) have room1: "card (dom (desc V q1)) + length ks \<le> cap V q1"
    unfolding becomesD [OF q1(5)] by simp
  let ?st1 = "st\<lparr>c_rx_virtqueue := q1\<rparr>" and ?mem1 = "mem(b i \<mapsto> replicate BUF_SIZE 0)"
  have "\<exists>q mem'. init_rx_bufs L dp usable dma s ks True (cl, ?st1, ?mem1) = Inr (cl, ?st1\<lparr>c_rx_virtqueue := q\<rparr>, mem') \<and>
      queue_inv V q held \<and> cap V q = cap V (c_rx_virtqueue ?st1) \<and>
      queue_bufs V dp q = queue_bufs V dp (c_rx_virtqueue ?st1) + mset (map b ks) \<and>
      (\<forall>p. mem' p = (if p \<in> b ` set ks then Some (replicate BUF_SIZE 0) else ?mem1 p))"
    by (rule Cons.IH) (use q1(2) room1 Cons.prems(3) in simp_all)
  then obtain q mem' where
    "init_rx_bufs L dp usable dma s ks True (cl, ?st1, ?mem1) = Inr (cl, ?st1\<lparr>c_rx_virtqueue := q\<rparr>, mem')"
    "queue_inv V q held" "cap V q = cap V (c_rx_virtqueue ?st1)"
    "queue_bufs V dp q = queue_bufs V dp (c_rx_virtqueue ?st1) + mset (map b ks)"
    "\<forall>p. mem' p = (if p \<in> b ` set ks then Some (replicate BUF_SIZE 0) else ?mem1 p)"
    by blast
  then show ?case
    by (intro exI [of _ q] exI [of _ mem']) (simp add: i q1(1,3) becomesD [OF q1(5)] fun_eq_iff)
qed

lemma init_tx_bufs_step:
  assumes "\<And>i. i \<in> set ks \<Longrightarrow> dma i = Some (b i)" and "num_tx st + length ks \<le> length (pending_tx st)"
  shows "\<exists>bufs mem'. init_tx_bufs dma ks (st, mem) = Inr (st\<lparr>pending_tx := bufs, num_tx := num_tx st + length ks\<rparr>, mem') \<and>
    length bufs = length (pending_tx st) \<and>
    take (num_tx st + length ks) bufs = take (num_tx st) (pending_tx st) @ map b ks \<and>
    (\<forall>p. mem' p = (if p \<in> b ` set ks then Some (replicate BUF_SIZE 0) else mem p))"
  using assms
proof (induction ks arbitrary: st mem)
  case Nil
  then show ?case by (intro exI [of _ "pending_tx st"] exI [of _ mem]) simp
next
  case (Cons i ks)
  let ?st1 = "st\<lparr>pending_tx := (pending_tx st)[num_tx st := b i], num_tx := num_tx st + 1\<rparr>"
  let ?mem1 = "mem(b i \<mapsto> replicate BUF_SIZE 0)"
  have n: "num_tx st < length (pending_tx st)" using Cons.prems(2) by simp
  have "\<exists>bufs mem'. init_tx_bufs dma ks (?st1, ?mem1) =
        Inr (?st1\<lparr>pending_tx := bufs, num_tx := num_tx ?st1 + length ks\<rparr>, mem') \<and>
      length bufs = length (pending_tx ?st1) \<and>
      take (num_tx ?st1 + length ks) bufs = take (num_tx ?st1) (pending_tx ?st1) @ map b ks \<and>
      (\<forall>p. mem' p = (if p \<in> b ` set ks then Some (replicate BUF_SIZE 0) else ?mem1 p))"
    by (rule Cons.IH) (use Cons.prems in simp_all)
  then obtain bufs mem' where
    "init_tx_bufs dma ks (?st1, ?mem1) = Inr (?st1\<lparr>pending_tx := bufs, num_tx := num_tx ?st1 + length ks\<rparr>, mem')"
    "length bufs = length (pending_tx ?st1)"
    "take (num_tx ?st1 + length ks) bufs = take (num_tx ?st1) (pending_tx ?st1) @ map b ks"
    "\<forall>p. mem' p = (if p \<in> b ` set ks then Some (replicate BUF_SIZE 0) else ?mem1 p)"
    by blast
  then show ?case
    using n Cons.prems(1) take_Suc_update [OF n, of "b i"]
    by (intro exI [of _ bufs] exI [of _ mem']) (simp add: fun_eq_iff)
qed

lemma mapper_find_append: "mapper_find ms i = None \<Longrightarrow> mapper_find (ms @ [(i, s)]) i = Some s"
  by (induction ms i rule: mapper_find.induct) (auto split: if_splits)

text \<open>With an allocator that leaves room, buffers that are distinct, in one dataport of their own, and
  empty queues, initialisation returns a device for which the invariants hold.\<close>

lemma client_init_inv:
  assumes ok: "vq_lib_ok L V"
    and tx: "queue_inv V txq {#}" "desc V txq = Map.empty" "NUM_TX_BUFS \<le> cap V txq"
    and rx: "queue_inv V rxq0 {#}" "desc V rxq0 = Map.empty" "NUM_RX_BUFS \<le> cap V rxq0"
    and dma: "\<And>i. i < NUM_RX_BUFS + NUM_TX_BUFS \<Longrightarrow> dma i = Some (b i)" and inj: "inj_on b {0..<NUM_RX_BUFS + NUM_TX_BUFS}"
    and port: "dataports_ok dp (b ` {0..<NUM_RX_BUFS + NUM_TX_BUFS})"
    and own: "\<And>i. i < NUM_RX_BUFS \<Longrightarrow> fst (dataport_wrap_ptr dp (b i)) = p" "mapper_find (mapper cl) p = None"
    and room: "(length (mapper cl) + 1) * 16 \<le> usable (length (mapper cl) + 1)"
  obtains r cl' mem' where
    "picotcp_ethernet_async_client_init L dp usable dma True txq rxq0 mac dev_init (cl, mem) = Inr (r, cl', mem')"
    "client_inv V dp (mset (map b [NUM_RX_BUFS..<NUM_RX_BUFS + NUM_TX_BUFS])) {#} (states cl' ! length (states cl))"
    "rx_inv V dp (mset (map b [0..<NUM_RX_BUFS])) {#} (length (states cl)) cl'"
    "bufs_mapped mem' (mset (map b [NUM_RX_BUFS..<NUM_RX_BUFS + NUM_TX_BUFS]))"
proof -
  let ?N = "NUM_RX_BUFS + NUM_TX_BUFS" and ?s = "length (states cl)"
  let ?data = "\<lparr>num_tx = 0, pending_tx = replicate NUM_TX_BUFS 0, c_mac = replicate 6 0,
    c_tx_virtqueue = txq, c_rx_virtqueue = rxq0, c_action = False\<rparr>"
  let ?cl1 = "cl\<lparr>mapper := mapper cl @ [(p, ?s)], mapper_size := usable (length (mapper cl) + 1)\<rparr>"
  have dec: "DECODE_DMA_ADDRESS dp (ENCODE_DMA_ADDRESS dp (b i)) = b i" if "i < ?N" for i
    by (rule decode_encode_address) (use port that in \<open>auto simp: dataports_ok_def\<close>)
  have emp: "queue_bufs V dp rxq0 = {#}" "queue_bufs V dp txq = {#}" using rx(2) tx(2) by (simp_all add: queue_bufs_def)
  have rng: "[0..<NUM_RX_BUFS] = 0 # [Suc 0..<NUM_RX_BUFS]" by (simp add: upt_conv_Cons NUM_RX_BUFS_def)
  have reg: "register_mapper dp usable ?s (b 0) cl = Inr ?cl1"
    using room own(1) [of 0] by (simp add: register_mapper_def sizeof_mapper_def NUM_RX_BUFS_def)
  have first: "init_rx_bufs L dp usable dma ?s [0..<NUM_RX_BUFS] False (cl, ?data, mem) =
      init_rx_bufs L dp usable dma ?s [0..<NUM_RX_BUFS] True (?cl1, ?data, mem)"
    using dma [of 0] reg unfolding rng by (simp add: NUM_RX_BUFS_def)
  have "\<exists>q mem1. init_rx_bufs L dp usable dma ?s [0..<NUM_RX_BUFS] True (?cl1, ?data, mem) =
        Inr (?cl1, ?data\<lparr>c_rx_virtqueue := q\<rparr>, mem1) \<and>
      queue_inv V q {#} \<and> cap V q = cap V (c_rx_virtqueue ?data) \<and>
      queue_bufs V dp q = queue_bufs V dp (c_rx_virtqueue ?data) + mset (map b [0..<NUM_RX_BUFS]) \<and>
      (\<forall>p. mem1 p = (if p \<in> b ` set [0..<NUM_RX_BUFS] then Some (replicate BUF_SIZE 0) else mem p))"
    by (rule init_rx_bufs_step [OF ok]) (use dma dec rx in simp_all)
  then obtain q mem1 where 1: "init_rx_bufs L dp usable dma ?s [0..<NUM_RX_BUFS] True (?cl1, ?data, mem) =
      Inr (?cl1, ?data\<lparr>c_rx_virtqueue := q\<rparr>, mem1)" "queue_inv V q {#}" "cap V q = cap V rxq0"
    "queue_bufs V dp q = mset (map b [0..<NUM_RX_BUFS])"
    by (auto simp: emp)
  let ?d1 = "?data\<lparr>c_rx_virtqueue := q\<rparr>"
  have "\<exists>bufs mem2. init_tx_bufs dma [NUM_RX_BUFS..<?N] (?d1, mem1) =
        Inr (?d1\<lparr>pending_tx := bufs, num_tx := num_tx ?d1 + length [NUM_RX_BUFS..<?N]\<rparr>, mem2) \<and>
      length bufs = length (pending_tx ?d1) \<and>
      take (num_tx ?d1 + length [NUM_RX_BUFS..<?N]) bufs = take (num_tx ?d1) (pending_tx ?d1) @ map b [NUM_RX_BUFS..<?N] \<and>
      (\<forall>p. mem2 p = (if p \<in> b ` set [NUM_RX_BUFS..<?N] then Some (replicate BUF_SIZE 0) else mem1 p))"
    by (rule init_tx_bufs_step) (use dma in simp_all)
  then obtain bufs mem2 where 2: "init_tx_bufs dma [NUM_RX_BUFS..<?N] (?d1, mem1) =
      Inr (?d1\<lparr>pending_tx := bufs, num_tx := NUM_TX_BUFS\<rparr>, mem2)"
    "length bufs = NUM_TX_BUFS" "take NUM_TX_BUFS bufs = map b [NUM_RX_BUFS..<?N]"
    "\<forall>p. mem2 p = (if p \<in> b ` {NUM_RX_BUFS..<?N} then Some (replicate BUF_SIZE 0) else mem1 p)"
    by auto
  let ?d2 = "?d1\<lparr>pending_tx := bufs, num_tx := NUM_TX_BUFS\<rparr>"
  let ?cl2 = "?cl1\<lparr>states := states cl @ [?d2]\<rparr>"
  have res: "picotcp_ethernet_async_client_init L dp usable dma True txq rxq0 mac dev_init (cl, mem) =
      Inr (if dev_init mac \<noteq> 0 then 1 else 0, ?cl2, mem2)"
    unfolding picotcp_ethernet_async_client_init_def using first 1(1) 2(1) by (simp add: Let_def)
  have sub: "dataports_ok dp A" if "A \<subseteq> b ` {0..<?N}" for A using port that by (auto simp: dataports_ok_def)
  let ?Bt = "mset (map b [NUM_RX_BUFS..<?N])" and ?Br = "mset (map b [0..<NUM_RX_BUFS])"
  have ports: "dataports_ok dp (set_mset ?Bt)" "dataports_ok dp (set_mset ?Br)" by (rule sub; auto)+
  have "distinct (map b [NUM_RX_BUFS..<?N])" using inj by (auto simp: distinct_map intro: inj_on_subset)
  then have uniq: "is_set ?Bt" unfolding is_set_def by (metis mset_set_set set_mset_mset)
  have sizes: "size ?Bt = NUM_TX_BUFS" "size ?Br = NUM_RX_BUFS" by simp_all
  have "states ?cl2 ! ?s = ?d2" by (simp add: nth_append)
  then have "client_inv V dp ?Bt {#} (states ?cl2 ! ?s)" "rxq ?s ?cl2 = q"
    unfolding client_inv_def tx_pool_def using tx 2(2,3) uniq sizes ports by (simp_all add: emp del: mset_map)
  moreover have "\<forall>x \<in># ?Br. mapper_find (mapper ?cl2) (fst (dataport_wrap_ptr dp x)) = Some ?s"
    using own mapper_find_append [OF own(2), of ?s] by auto
  ultimately have "rx_inv V dp ?Br {#} ?s ?cl2"
    unfolding rx_inv_def using 1(2-4) rx(3) sizes ports by (simp del: mset_map)
  note \<open>client_inv V dp ?Bt {#} (states ?cl2 ! ?s)\<close> this
  moreover have "bufs_mapped mem2 (mset (map b [NUM_RX_BUFS..<?N]))"
    using 2(4) by (auto simp: bufs_mapped_def)
  ultimately show thesis using that res by blast
qed

end
