(* ===== verification/SerialServer.thy ===== *)
theory SerialServer
  imports Ring
begin

text \<open>
  \<open>components/SerialServer/src/serial.c\<close>: one serial line shared by several clients.

  Output: every client writes to a processed stream (number \<open>n\<close>) or a raw stream (number
  \<open>n + 12\<close>). Characters wait in \<open>output_buffers\<close> and are printed line by line, in the
  colour of the stream; while several clients receive the same input, identical output of
  several streams is printed once. Input: \<open>handle_char\<close> routes the characters of the line
  to the ring buffer of the active client and interprets the escape character \<open>@\<close>.

  What is printed goes to \<open>out_trace\<close>: \<open>Shown bs c\<close> is a character printed from the
  buffers \<open>bs\<close> (the owners are bookkeeping of the model), \<open>Colour\<close>, \<open>Reset\<close> and
  \<open>Notice\<close> are the other uses of \<open>printf\<close>. Diagnostics that only appear in a debug mode
  are left out. The lock serialises the operations. The characters of ANSI sequences come from
  a library and are named, not spelled out.
\<close>

section \<open>Data\<close>

abbreviation MAX_CLIENTS :: nat where "MAX_CLIENTS \<equiv> 12"
abbreviation STREAMS :: nat where "STREAMS \<equiv> 24"
abbreviation CLIENT_OUTPUT_BUFFER_SIZE :: nat where "CLIENT_OUTPUT_BUFFER_SIZE \<equiv> 4096"
abbreviation GETCHAR_BUF :: nat where "GETCHAR_BUF \<equiv> 4088"

abbreviation LF :: u8 where "LF \<equiv> 10"
abbreviation CR :: u8 where "CR \<equiv> 13"
abbreviation ESCAPE_CHAR :: u8 where "ESCAPE_CHAR \<equiv> 64"
abbreviation CTRL_C :: u8 where "CTRL_C \<equiv> 3"
abbreviation CTRL_Z :: u8 where "CTRL_Z \<equiv> 0x1A"

datatype ansi_colour = RED | GREEN | BLUE | MAGENTA | YELLOW | CYAN | WHITE

datatype ansi =
    ANSI_COLOR ansi_colour
  | ANSI_COLOR_BOLD ansi_colour
  | ANSI_COLOR2 ansi_colour ansi_colour
  | ANSI_COLOR2_BOLD ansi_colour ansi_colour

datatype notice =
    MultiClientPrompt
  | DebugLevel nat
  | SchedulerDump
  | Help int
  | SwitchedTo nat
  | InvalidCommand u8
  | MultiSelected bool nat
  | MultiActive

datatype out_event =
    Shown "nat list" u8
  | Colour "ansi list"
  | Reset
  | Notice notice
  | Emit u32

record client_buffer =
  cb_head :: u32
  cb_tail :: u32
  cb_buf :: "u8 list"

record getchar_client =
  gc_client_id :: u32
  gc_buf :: client_buffer
  gc_last_head :: u32

record serial_state =
  last_out :: int
  output_buffers :: "u8 list list"
  output_buffers_used :: "nat list"
  output_buffer_bitmask :: u16
  done_output :: bool
  has_data :: bool
  getchar_present :: bool
  getchar_clients :: "getchar_client list"
  debug :: nat
  active_client :: int
  active_multiclients :: u32
  statemachine :: nat
  out_trace :: "out_event list"

definition serial_static :: serial_state where
  "serial_static =
     \<lparr>last_out = -1,
      output_buffers = replicate STREAMS (replicate CLIENT_OUTPUT_BUFFER_SIZE 0),
      output_buffers_used = replicate STREAMS 0, output_buffer_bitmask = 0,
      done_output = False, has_data = False, getchar_present = False, getchar_clients = [],
      debug = 0, active_client = 0, active_multiclients = 0, statemachine = 1, out_trace = []\<rparr>"

definition emit_out :: "out_event list \<Rightarrow> serial_state \<Rightarrow> serial_state" where
  "emit_out es st = st\<lparr>out_trace := out_trace st @ es\<rparr>"

section \<open>Colours\<close>

text \<open>
  The seventh initialiser of each row lacks its comma: the strings for bold red and bold green
  are one entry, each row has eleven initialisers and its last slot is null.
\<close>

definition all_output_colours :: "ansi list option list list" where
  "all_output_colours =
    [[Some [ANSI_COLOR RED], Some [ANSI_COLOR GREEN], Some [ANSI_COLOR BLUE],
      Some [ANSI_COLOR MAGENTA], Some [ANSI_COLOR YELLOW], Some [ANSI_COLOR CYAN],
      Some [ANSI_COLOR_BOLD RED, ANSI_COLOR_BOLD GREEN], Some [ANSI_COLOR_BOLD BLUE],
      Some [ANSI_COLOR_BOLD MAGENTA], Some [ANSI_COLOR_BOLD YELLOW], Some [ANSI_COLOR_BOLD CYAN],
      None],
     [Some [ANSI_COLOR2 RED WHITE], Some [ANSI_COLOR2 GREEN WHITE], Some [ANSI_COLOR2 BLUE WHITE],
      Some [ANSI_COLOR2 MAGENTA WHITE], Some [ANSI_COLOR2 YELLOW WHITE], Some [ANSI_COLOR2 CYAN WHITE],
      Some [ANSI_COLOR2_BOLD RED WHITE, ANSI_COLOR2_BOLD GREEN WHITE], Some [ANSI_COLOR2_BOLD BLUE WHITE],
      Some [ANSI_COLOR2_BOLD MAGENTA WHITE], Some [ANSI_COLOR2_BOLD YELLOW WHITE],
      Some [ANSI_COLOR2_BOLD CYAN WHITE], None]]"

definition COLOUR_INDEX_TO_STYLE :: "nat \<Rightarrow> nat" where
  "COLOUR_INDEX_TO_STYLE x = x div (MAX_CLIENTS - 1)"

definition COLOUR_INDEX_TO_SLOT :: "nat \<Rightarrow> nat" where
  "COLOUR_INDEX_TO_SLOT x = x mod MAX_CLIENTS"

text \<open>
  The pointer is loaded early in \<open>flush_buffer\<close>; it is followed only when it is printed,
  and that is where an index outside the table or a null entry is a fault here.
\<close>

definition colour_of :: "nat \<Rightarrow> ansi list outcome" where
  "colour_of b =
     obind (nth_ok all_output_colours (COLOUR_INDEX_TO_STYLE b)) (\<lambda>row.
     obind (nth_ok row (COLOUR_INDEX_TO_SLOT b)) (\<lambda>e.
       case e of None \<Rightarrow> Inl NullDeref | Some c \<Rightarrow> Inr c))"

definition select_colour :: "nat \<Rightarrow> serial_state \<Rightarrow> serial_state outcome" where
  "select_colour b st =
     (if int b \<noteq> last_out st then
        obind (colour_of b) (\<lambda>col. Inr ((emit_out [Reset, Colour col] st)\<lparr>last_out := int b\<rparr>))
      else Inr st)"

section \<open>Flushing\<close>

definition clear_bit :: "nat \<Rightarrow> u16 \<Rightarrow> u16" where
  "clear_bit b m = ucast (ucast m AND NOT (BIT b))"

definition set_out_bit :: "nat \<Rightarrow> u16 \<Rightarrow> u16" where
  "set_out_bit b m = ucast (ucast m OR BIT b)"

definition flush_buffer :: "nat \<Rightarrow> serial_state \<Rightarrow> serial_state outcome" where
  "flush_buffer b st =
     obind (nth_ok (output_buffers_used st) b) (\<lambda>used.
     if used = 0 then Inr st
     else
       obind (select_colour b st) (\<lambda>st1.
       obind (nth_ok (output_buffers st1) b) (\<lambda>buf.
       obind (ensure (used \<le> length buf) OutOfBounds) (\<lambda>_.
         Inr ((emit_out (map (Shown [b]) (take used buf)) st1)
               \<lparr>done_output := True,
                output_buffers_used := (output_buffers_used st1)[b := 0],
                output_buffer_bitmask := clear_bit b (output_buffer_bitmask st1)\<rparr>)))))"

text \<open>\<open>memchr(s, c, n)\<close> as the offset of the character.\<close>

definition memchr :: "u8 list \<Rightarrow> u8 \<Rightarrow> nat \<Rightarrow> nat option" where
  "memchr s c n =
     (if c \<in> set (take n s) then Some (length (takeWhile (\<lambda>x. x \<noteq> c) (take n s))) else None)"

text \<open>The loop that moves \<open>buf[n .. used)\<close> to the front of the buffer.\<close>

definition shift_down :: "nat \<Rightarrow> nat \<Rightarrow> u8 list \<Rightarrow> u8 list" where
  "shift_down n used buf = drop n (take used buf) @ drop (used - n) buf"

definition flush_buffer_line :: "nat \<Rightarrow> serial_state \<Rightarrow> (bool \<times> serial_state) outcome" where
  "flush_buffer_line b st =
     obind (nth_ok (output_buffers_used st) b) (\<lambda>used.
     if used = 0 then Inr (False, st)
     else
       obind (nth_ok (output_buffers st) b) (\<lambda>buf.
       obind (ensure (used \<le> length buf) OutOfBounds) (\<lambda>_.
       case (case memchr buf CR used of Some p \<Rightarrow> Some p | None \<Rightarrow> memchr buf LF used) of
         None \<Rightarrow> Inr (False, st)
       | Some p \<Rightarrow>
           let len1 = p + 1;
               len = (if len1 < used \<and> (buf ! len1 = LF \<or> buf ! len1 = CR) then len1 + 1 else len1)
           in if len = 0 then Inr (False, st)
           else
             obind (select_colour b st) (\<lambda>st1.
               let st2 = (emit_out (map (Shown [b]) (take len buf)) st1)
                     \<lparr>output_buffers := (output_buffers st1)[b := shift_down len used buf],
                      output_buffers_used := (output_buffers_used st1)[b := used - len]\<rparr>
               in Inr (True,
                    if used - len = 0
                    then st2\<lparr>output_buffer_bitmask := clear_bit b (output_buffer_bitmask st2)\<rparr>
                    else st2)))))"

text \<open>One round of \<open>flush_buffer_line\<close> over a list of streams, and rounds until one is idle.\<close>

fun flush_round :: "nat list \<Rightarrow> bool \<Rightarrow> serial_state \<Rightarrow> (bool \<times> serial_state) outcome" where
  "flush_round [] flushed st = Inr (flushed, st)"
| "flush_round (i # is) flushed st =
     obind (flush_buffer_line i st) (\<lambda>(r, st1). flush_round is (flushed \<or> r) st1)"

lemma sum_list_update_less:
  "i < length xs \<Longrightarrow> y < xs ! i \<Longrightarrow> sum_list (xs[i := y]) < sum_list xs" for xs :: "nat list"
proof (induction xs arbitrary: i)
  case (Cons x xs)
  then show ?case by (cases i) auto
qed simp

lemma select_colour_used:
  "select_colour b st = Inr st' \<Longrightarrow> output_buffers_used st' = output_buffers_used st"
  by (auto simp: select_colour_def emit_out_def obind_eq_Inr split: if_splits)

lemma flush_buffer_line_decreases:
  "flush_buffer_line b st = Inr (r, st') \<Longrightarrow>
   if r then sum_list (output_buffers_used st') < sum_list (output_buffers_used st) else st' = st"
  by (auto simp: flush_buffer_line_def Let_def emit_out_def obind_eq_Inr nth_ok_eq_Inr
      select_colour_used
      intro!: sum_list_update_less split: if_splits option.splits)

lemma flush_round_decreases:
  "flush_round is f st = Inr (r, st') \<Longrightarrow>
   sum_list (output_buffers_used st') \<le> sum_list (output_buffers_used st) \<and>
   (\<not> f \<and> r \<longrightarrow> sum_list (output_buffers_used st') < sum_list (output_buffers_used st)) \<and>
   (\<not> r \<longrightarrow> st' = st)"
proof (induction "is" arbitrary: f st)
  case Nil
  then show ?case by auto
next
  case (Cons i "is")
  then obtain r1 st1 where 1: "flush_buffer_line i st = Inr (r1, st1)"
    "flush_round is (f \<or> r1) st1 = Inr (r, st')"
    by (auto simp: obind_eq_Inr)
  have mono: "\<not> r \<Longrightarrow> \<not> (f \<or> r1)" 
    using 1(2) by (induction "is" "f \<or> r1" st1 arbitrary: f r1 rule: flush_round.induct)
      (fastforce simp: obind_eq_Inr)+
  from flush_buffer_line_decreases [OF 1(1)] Cons.IH [OF 1(2)] mono show ?case
    by (auto split: if_splits)
qed

function flush_all_lines :: "serial_state \<Rightarrow> (bool \<times> serial_state) outcome" where
  "flush_all_lines st =
     obind (flush_round [0..<STREAMS] False st) (\<lambda>(r, st1).
       if r then obind (flush_all_lines st1) (\<lambda>(r2, st2). Inr (True, st2))
       else Inr (False, st1))"
  by pat_completeness auto
termination
  by (relation "measure (\<lambda>st. sum_list (output_buffers_used st))")
    (auto dest: flush_round_decreases)

declare flush_all_lines.simps [simp del]

section \<open>Coalescing the output of several clients\<close>

text \<open>
  The scan of \<open>try_coalesce_output\<close>: the streams with output so far and the length of the
  shortest; \<open>None\<close> when two of them differ.
\<close>

fun coalesce_scan ::
    "u8 list list \<Rightarrow> nat list \<Rightarrow> nat list \<Rightarrow> nat \<Rightarrow> nat list \<Rightarrow> (nat \<times> nat list) option" where
  "coalesce_scan bufs useds [] len used = Some (len, used)"
| "coalesce_scan bufs useds (i # is) len used =
     (if 0 < useds ! i then
        let used' = used @ [i];
            len' = (if len = 0 \<or> useds ! i < len then useds ! i else len)
        in if 1 < length used' \<and> take len' (bufs ! (used' ! 0)) \<noteq> take len' (bufs ! i) then None
           else coalesce_scan bufs useds is len' used'
      else coalesce_scan bufs useds is len used)"

fun coalesce_shift :: "nat list \<Rightarrow> nat \<Rightarrow> serial_state \<Rightarrow> serial_state" where
  "coalesce_shift [] len st = st"
| "coalesce_shift (u # us) len st =
     (let n = output_buffers_used st ! u;
          st1 = st\<lparr>output_buffers_used := (output_buffers_used st)[u := n - len],
                   output_buffers := (output_buffers st)[u := shift_down len n (output_buffers st ! u)]\<rparr>
      in coalesce_shift us len
           (if n - len = 0 then st1\<lparr>output_buffer_bitmask := clear_bit u (output_buffer_bitmask st1)\<rparr>
            else st1))"

definition try_coalesce_output :: "serial_state \<Rightarrow> int \<times> serial_state" where
  "try_coalesce_output st =
     (case coalesce_scan (output_buffers st) (output_buffers_used st) [0..<STREAMS] 0 [] of
        None \<Rightarrow> (-1, st)
      | Some (len, used) \<Rightarrow>
          if 1 < length used \<and> 0 < len then
            let st1 = (if last_out st \<noteq> -1 then emit_out [Reset] st else st);
                st2 = (emit_out (map (Shown used) (take len (output_buffers st1 ! (used ! 0)))) st1)
                        \<lparr>last_out := -1\<rparr>;
                st3 = coalesce_shift used len st2
            in (0, if output_buffer_bitmask st3 \<noteq> 0 then st3\<lparr>has_data := True\<rparr> else st3)
          else (1, st))"

section \<open>Writing a character\<close>

fun flush_buffers :: "nat list \<Rightarrow> serial_state \<Rightarrow> serial_state outcome" where
  "flush_buffers [] st = Inr st"
| "flush_buffers (i # is) st = obind (flush_buffer i st) (flush_buffers is)"

text \<open>The branch of \<open>internal_putchar\<close> for a buffer that has just become full.\<close>

definition flush_overflow :: "nat \<Rightarrow> serial_state \<Rightarrow> serial_state outcome" where
  "flush_overflow b st =
     (let prev_client = last_out st in
      obind (if prev_client \<noteq> -1 then flush_buffer_line (nat prev_client) st else Inr (False, st)) (\<lambda>(_, st1).
      obind (flush_all_lines st1) (\<lambda>(_, st2).
      obind (if output_buffers_used st2 ! b = CLIENT_OUTPUT_BUFFER_SIZE
             then flush_buffers (filter (\<lambda>i. i \<noteq> b) [0..<STREAMS]) st2 else Inr st2) (\<lambda>st3.
        select_colour b st3))))"

definition is_newline :: "u8 list \<Rightarrow> nat \<Rightarrow> bool" where
  "is_newline s i \<longleftrightarrow> (s ! i = CR \<and> s ! (i + 1) = LF) \<or> (s ! i = LF \<and> s ! (i + 1) = CR)"

definition internal_putchar :: "nat \<Rightarrow> cint \<Rightarrow> serial_state \<Rightarrow> serial_state outcome" where
  "internal_putchar b c st =
     obind (nth_ok (output_buffers_used st) b) (\<lambda>index.
     obind (nth_ok (output_buffers st) b) (\<lambda>buffer.
     obind (upd_ok buffer index (ucast c)) (\<lambda>buffer1.
     let st1 = st\<lparr>output_buffers := (output_buffers st)[b := buffer1],
                  output_buffers_used := (output_buffers_used st)[b := index + 1]\<rparr>;
         (coalesce_status, st2) = (if active_client st1 = -1 then try_coalesce_output st1 else (-1, st1))
     in obind
          (if output_buffers_used st2 ! b = CLIENT_OUTPUT_BUFFER_SIZE then flush_overflow b st2
           else if (1 \<le> index \<and> is_newline (output_buffers st2 ! b) (index - 1) \<and> coalesce_status = -1)
                 \<or> (last_out st2 = int b \<and> output_buffer_bitmask st2 = 0 \<and> coalesce_status = -1)
           then flush_buffer b st2
           else Inr (st2\<lparr>output_buffer_bitmask := set_out_bit b (output_buffer_bitmask st2)\<rparr>))
          (\<lambda>st3. Inr (st3\<lparr>has_data := True\<rparr>)))))"

text \<open>The remote procedures; \<open>n\<close> is the badge of the sender.\<close>

definition processed_putchar_putchar :: "nat \<Rightarrow> cint \<Rightarrow> serial_state \<Rightarrow> serial_state outcome" where
  "processed_putchar_putchar n c st =
     obind (if c = 10 then internal_putchar n 13 st else Inr st) (\<lambda>st1. internal_putchar n c st1)"

definition raw_putchar_putchar :: "nat \<Rightarrow> cint \<Rightarrow> serial_state \<Rightarrow> serial_state outcome" where
  "raw_putchar_putchar n c st = internal_putchar (n + MAX_CLIENTS) c st"

text \<open>
  The batch procedures read a ring buffer shared with the client. A \<open>char\<close> is signed. The
  fuel bounds the rounds of the loop, which never ends when the client stores a \<open>tail\<close>
  outside the buffer.
\<close>

fun batch_loop ::
    "nat \<Rightarrow> (u8 \<Rightarrow> serial_state \<Rightarrow> serial_state outcome) \<Rightarrow> client_buffer \<Rightarrow> serial_state \<Rightarrow>
     (client_buffer \<times> serial_state) outcome" where
  "batch_loop 0 put cb st = (if cb_head cb = cb_tail cb then Inr (cb, st) else Inl OutOfFuel)"
| "batch_loop (Suc k) put cb st =
     (if cb_head cb = cb_tail cb then Inr (cb, st)
      else
        obind (nth_ok (cb_buf cb) (unat (cb_head cb))) (\<lambda>ch.
        obind (put ch st) (\<lambda>st1.
          batch_loop k put (cb\<lparr>cb_head := (cb_head cb + 1) mod of_nat GETCHAR_BUF\<rparr>) st1)))"

definition processed_batch_batch ::
    "nat \<Rightarrow> nat \<Rightarrow> client_buffer \<Rightarrow> serial_state \<Rightarrow> (client_buffer \<times> serial_state) outcome" where
  "processed_batch_batch fuel n cb st =
     batch_loop fuel (\<lambda>ch st. obind (if ch = LF then internal_putchar n 13 st else Inr st)
                               (internal_putchar n (scast ch))) cb st"

definition raw_batch_batch ::
    "nat \<Rightarrow> nat \<Rightarrow> client_buffer \<Rightarrow> serial_state \<Rightarrow> (client_buffer \<times> serial_state) outcome" where
  "raw_batch_batch fuel n cb st =
     batch_loop fuel (\<lambda>ch. internal_putchar (n + MAX_CLIENTS) (scast ch)) cb st"

text \<open>The heartbeat: flush what nobody has added to since the last one.\<close>

definition timer_callback :: "serial_state \<Rightarrow> serial_state outcome" where
  "timer_callback st =
     (if done_output st then Inr (st\<lparr>done_output := False\<rparr>)
      else if has_data st then
        obind (flush_all_lines st) (\<lambda>(succeeded, st1).
          if \<not> succeeded then flush_buffers [0..<STREAMS] st1 else Inr st1)
      else Inr st)"

section \<open>Input\<close>

definition cb_full :: "client_buffer \<Rightarrow> bool" where
  "cb_full cb \<longleftrightarrow> (cb_tail cb + 1) mod of_nat GETCHAR_BUF = cb_head cb"

definition cb_empty :: "client_buffer \<Rightarrow> bool" where
  "cb_empty cb \<longleftrightarrow> cb_head cb = cb_tail cb"

definition cb_put :: "u8 \<Rightarrow> client_buffer \<Rightarrow> client_buffer" where
  "cb_put c cb = cb\<lparr>cb_buf := (cb_buf cb)[unat (cb_tail cb) := c],
                    cb_tail := (cb_tail cb + 1) mod of_nat GETCHAR_BUF\<rparr>"

text \<open>What a reader of the buffer does (as the loop of the batch procedures).\<close>

definition cb_get :: "client_buffer \<Rightarrow> u8 \<times> client_buffer" where
  "cb_get cb = (cb_buf cb ! unat (cb_head cb),
                cb\<lparr>cb_head := (cb_head cb + 1) mod of_nat GETCHAR_BUF\<rparr>)"

definition internal_raw_putchar :: "nat \<Rightarrow> u8 \<Rightarrow> serial_state \<Rightarrow> serial_state outcome" where
  "internal_raw_putchar i c st =
     obind (nth_ok (getchar_clients st) i) (\<lambda>client.
     if cb_full (gc_buf client) then Inr st
     else
       let last_read_head = cb_head (gc_buf client) in
       obind (ensure (unat (cb_tail (gc_buf client)) < length (cb_buf (gc_buf client))) OutOfBounds) (\<lambda>_.
       let client1 = client\<lparr>gc_buf := cb_put c (gc_buf client)\<rparr> in
       if last_read_head \<noteq> gc_last_head client1 then
         Inr ((emit_out [Emit (gc_client_id client1)] st)
               \<lparr>getchar_clients := (getchar_clients st)[i := client1\<lparr>gc_last_head := last_read_head\<rparr>]\<rparr>)
       else Inr (st\<lparr>getchar_clients := (getchar_clients st)[i := client1]\<rparr>)))"

text \<open>\<open>active_multiclients & BIT(i)\<close>: the \<open>int\<close> is sign extended.\<close>

definition multi_selected :: "u32 \<Rightarrow> nat \<Rightarrow> bool" where
  "multi_selected m i \<longleftrightarrow> (scast m :: u64) AND BIT i = BIT i"

fun give_multi :: "nat list \<Rightarrow> u8 \<Rightarrow> serial_state \<Rightarrow> serial_state outcome" where
  "give_multi [] c st = Inr st"
| "give_multi (i # is) c st =
     obind (if multi_selected (active_multiclients st) i then internal_raw_putchar i c st else Inr st)
       (give_multi is c)"

definition give_client_char :: "u8 \<Rightarrow> serial_state \<Rightarrow> serial_state outcome" where
  "give_client_char c st =
     (if 0 \<le> active_client st then internal_raw_putchar (nat (active_client st)) c st
      else if active_client st = -1 then give_multi [0..<STREAMS] c st
      else Inr st)"

definition line_end :: "u8 \<Rightarrow> bool" where
  "line_end c \<longleftrightarrow> c = CR \<or> c = LF \<or> c = CTRL_C \<or> c = CTRL_Z"

text \<open>The digits select clients \<open>0 .. num_getchar_clients - 1\<close>.\<close>

definition client_digit :: "u8 \<Rightarrow> serial_state \<Rightarrow> bool" where
  "client_digit c st \<longleftrightarrow> 48 \<le> unat c \<and> unat c < 48 + length (getchar_clients st)"

definition handle_escape :: "u8 \<Rightarrow> serial_state \<Rightarrow> serial_state outcome" where
  "handle_escape c st =
     (if c = ESCAPE_CHAR then give_client_char c (st\<lparr>statemachine := 0\<rparr>)
      else if c = 109 then
        Inr (emit_out [Notice MultiClientPrompt]
          (st\<lparr>statemachine := 3, active_multiclients := 0, active_client := -1, last_out := -1\<rparr>))
      else if c = 100 then
        let d = (debug st + 1) mod 3 in
        Inr ((emit_out [Notice (DebugLevel d)] (st\<lparr>debug := d\<rparr>))\<lparr>last_out := -1, statemachine := 1\<rparr>)
      else if c = 115 then
        Inr ((emit_out [Reset, Notice SchedulerDump] st)\<lparr>last_out := -1, statemachine := 1\<rparr>)
      else if c = 63 then
        Inr (emit_out [Notice (Help (int (length (getchar_clients st)) - 1))]
          (st\<lparr>last_out := -1, statemachine := 1\<rparr>))
      else
        let st1 = st\<lparr>last_out := -1, statemachine := 1\<rparr> in
        if client_digit c st1 then
          Inr ((emit_out [Notice (SwitchedTo (unat c - 48))] st1)\<lparr>active_client := int (unat c - 48)\<rparr>)
        else Inr (emit_out [Notice (InvalidCommand c)] st1))"

definition handle_char :: "u8 \<Rightarrow> serial_state \<Rightarrow> serial_state outcome" where
  "handle_char c st =
     (if \<not> getchar_present st then Inr st
      else if statemachine st = 0 then
        give_client_char c (if line_end c then st\<lparr>statemachine := 1\<rparr> else st)
      else if statemachine st = 1 then
        if line_end c then give_client_char c st
        else if c = ESCAPE_CHAR then Inr (st\<lparr>statemachine := 2\<rparr>)
        else give_client_char c (st\<lparr>statemachine := 0\<rparr>)
      else if statemachine st = 2 then handle_escape c st
      else if statemachine st = 3 then
        if client_digit c st then
          obind (ensure (unat c - 48 < 64) OutOfBounds) (\<lambda>_.
            Inr ((emit_out [Notice (MultiSelected (active_multiclients st \<noteq> 0) (unat c - 48))] st)
              \<lparr>active_multiclients :=
                 ucast (scast (active_multiclients st) OR BIT (unat c - 48)), last_out := -1\<rparr>))
        else if c = 109 \<or> c = 77 \<or> c = CR \<or> c = LF then
          Inr (emit_out [Notice MultiActive] (st\<lparr>last_out := -1, statemachine := 1\<rparr>))
        else Inr st
      else Inr st)"

text \<open>The characters that the interrupt handler passes, one after the other; its loop is in \<open>SerialPlat\<close>.\<close>

fun handle_chars :: "u8 list \<Rightarrow> serial_state \<Rightarrow> serial_state outcome" where
  "handle_chars [] st = Inr st"
| "handle_chars (c # cs) st = obind (handle_char c st) (handle_chars cs)"

section \<open>Initialisation\<close>

text \<open>
  The clients of \<open>pre_init\<close>: a badge and the contents of the shared buffer each.
\<close>

fun init_getchar :: "nat \<Rightarrow> (u32 \<times> client_buffer) list \<Rightarrow> getchar_client list outcome" where
  "init_getchar n [] = Inr []"
| "init_getchar n ((badge, buf) # cs) =
     obind (ensure (badge \<le> of_nat n) AssertionFailed) (\<lambda>_.
     obind (init_getchar n cs) (\<lambda>gs.
       Inr (\<lparr>gc_client_id = badge, gc_buf = buf, gc_last_head = -1\<rparr> # gs)))"

definition pre_init :: "(u32 \<times> client_buffer) list option \<Rightarrow> serial_state outcome" where
  "pre_init getchar =
     (case getchar of
        None \<Rightarrow> Inr serial_static
      | Some cs \<Rightarrow>
          obind (init_getchar (length cs) cs) (\<lambda>gs.
            Inr (serial_static\<lparr>getchar_present := True, getchar_clients := gs\<rparr>)))"

section \<open>Streams\<close>

text \<open>
  The characters of stream \<open>b\<close> that have been printed, those still in its buffer, and
  both together. No operation but \<open>internal_putchar\<close> on \<open>b\<close> changes \<open>stream b\<close>.
\<close>

fun shown_on :: "nat \<Rightarrow> out_event list \<Rightarrow> u8 list" where
  "shown_on b [] = []"
| "shown_on b (Shown bs c # es) = (if b \<in> set bs then c # shown_on b es else shown_on b es)"
| "shown_on b (e # es) = shown_on b es"

definition pending :: "nat \<Rightarrow> serial_state \<Rightarrow> u8 list" where
  "pending b st = take (output_buffers_used st ! b) (output_buffers st ! b)"

definition stream :: "nat \<Rightarrow> serial_state \<Rightarrow> u8 list" where
  "stream b st = shown_on b (out_trace st) @ pending b st"

definition has_colour :: "nat \<Rightarrow> bool" where
  "has_colour b \<longleftrightarrow> (b < 22 \<and> b \<noteq> 11)"

text \<open>The output half of the state is well formed; only streams with a colour hold output.\<close>

definition out_wf :: "serial_state \<Rightarrow> bool" where
  "out_wf st \<longleftrightarrow>
     length (output_buffers st) = STREAMS \<and> length (output_buffers_used st) = STREAMS \<and>
     (\<forall>b < STREAMS. length (output_buffers st ! b) = CLIENT_OUTPUT_BUFFER_SIZE \<and>
        output_buffers_used st ! b \<le> CLIENT_OUTPUT_BUFFER_SIZE \<and>
        (0 < output_buffers_used st ! b \<longrightarrow> has_colour b)) \<and>
     (last_out st = -1 \<or> (0 \<le> last_out st \<and> last_out st < int STREAMS))"

text \<open>A step that only moves output from the buffers to the line.\<close>

definition kept :: "serial_state \<Rightarrow> serial_state \<Rightarrow> bool" where
  "kept st st' \<longleftrightarrow> out_wf st' \<and> (\<forall>b < STREAMS. stream b st' = stream b st) \<and>
     (\<forall>b < STREAMS. output_buffers_used st' ! b \<le> output_buffers_used st ! b) \<and>
     active_client st' = active_client st \<and> getchar_clients st' = getchar_clients st \<and>
     getchar_present st' = getchar_present st \<and> statemachine st' = statemachine st \<and>
     active_multiclients st' = active_multiclients st \<and> (has_data st \<longrightarrow> has_data st')"

lemma kept_refl: "out_wf st \<Longrightarrow> kept st st"
  by (simp add: kept_def)

lemma kept_trans: "kept a b \<Longrightarrow> kept b c \<Longrightarrow> kept a c"
  by (auto simp: kept_def intro: order_trans)

lemma shown_on_append [simp]: "shown_on b (xs @ ys) = shown_on b xs @ shown_on b ys"
  by (induction b xs rule: shown_on.induct) auto

lemma shown_on_Shown: "shown_on b (map (Shown bs) cs) = (if b \<in> set bs then cs else [])"
  by (induction cs) auto

lemma colour_of_ok: "has_colour b \<Longrightarrow> \<exists>c. colour_of b = Inr c"
proof -
  have "list_all (\<lambda>b. b = 11 \<or> \<not> isl (colour_of b)) [0..<22]"
    by code_simp
  moreover assume "has_colour b"
  ultimately have "\<not> isl (colour_of b)"
    by (auto simp: has_colour_def list_all_iff)
  then show ?thesis by (cases "colour_of b") auto
qed

lemma out_wfD:
  assumes "out_wf st" and "b < STREAMS"
  shows "b < length (output_buffers st)" "b < length (output_buffers_used st)"
    "length (output_buffers st ! b) = CLIENT_OUTPUT_BUFFER_SIZE"
    "output_buffers_used st ! b \<le> CLIENT_OUTPUT_BUFFER_SIZE"
    "0 < output_buffers_used st ! b \<Longrightarrow> has_colour b"
  using assms by (auto simp: out_wf_def)

lemma select_colour_ok:
  assumes wf: "out_wf st" and b: "b < STREAMS" "has_colour b"
  shows "\<exists>st'. select_colour b st = Inr st' \<and> kept st st' \<and> last_out st' = int b \<and>
    output_buffers st' = output_buffers st \<and> output_buffers_used st' = output_buffers_used st \<and>
    output_buffer_bitmask st' = output_buffer_bitmask st \<and> done_output st' = done_output st \<and>
    has_data st' = has_data st \<and> (\<forall>k. shown_on k (out_trace st') = shown_on k (out_trace st))"
proof (cases "int b = last_out st")
  case True
  then show ?thesis using wf by (simp add: select_colour_def kept_refl)
next
  case False
  obtain c where c: "colour_of b = Inr c" using colour_of_ok [OF b(2)] by blast
  then show ?thesis
    using wf b False by (auto simp: select_colour_def emit_out_def kept_def out_wf_def stream_def pending_def)
qed

text \<open>
  Printing the first \<open>n\<close> characters of buffer \<open>b\<close> and shifting the rest, the common core of
  the flushing operations.
\<close>

lemma take_shift_down:
  "n \<le> used \<Longrightarrow> used \<le> length buf \<Longrightarrow> take (used - n) (shift_down n used buf) = drop n (take used buf)"
  by (simp add: shift_down_def)

lemma length_shift_down: "n \<le> used \<Longrightarrow> used \<le> length buf \<Longrightarrow> length (shift_down n used buf) = length buf"
  by (simp add: shift_down_def)

lemma flush_core:
  assumes wf: "out_wf st" and b: "b < STREAMS" and n: "n \<le> output_buffers_used st ! b"
    and st': "output_buffers_used st' = (output_buffers_used st)[b := output_buffers_used st ! b - n]"
    "output_buffers st' = (output_buffers st)[b := buf]" "length buf = CLIENT_OUTPUT_BUFFER_SIZE"
    "take (output_buffers_used st ! b - n) buf = drop n (pending b st)"
    and tr: "\<forall>k. shown_on k (out_trace st') = shown_on k (out_trace st) @ (if k = b then take n (pending b st) else [])"
    and same: "last_out st' = -1 \<or> (0 \<le> last_out st' \<and> last_out st' < int STREAMS)"
      "active_client st' = active_client st" "getchar_clients st' = getchar_clients st"
      "getchar_present st' = getchar_present st" "statemachine st' = statemachine st"
      "active_multiclients st' = active_multiclients st" "has_data st \<longrightarrow> has_data st'"
  shows "kept st st'"
proof -
  note d = out_wfD [OF wf b]
  have "stream k st' = stream k st" if "k < STREAMS" for k
  proof (cases "k = b")
    case True
    then have "pending k st' = drop n (pending b st)"
      using st'(1,2,4) d(1,2) by (simp add: pending_def)
    then show ?thesis using tr True by (simp add: stream_def)
  next
    case False
    then show ?thesis using st'(1,2) tr by (simp add: stream_def pending_def)
  qed
  moreover have "output_buffers_used st' ! k \<le> output_buffers_used st ! k" if "k < STREAMS" for k
    using that st'(1) wf by (cases "k = b") (auto simp: out_wf_def)
  moreover have "out_wf st'"
    using wf b st'(1-3) same(1) d(5) by (auto simp: out_wf_def nth_list_update)
  ultimately show ?thesis using same by (simp add: kept_def)
qed

lemma flush_buffer_ok:
  assumes wf: "out_wf st" and b: "b < STREAMS"
  shows "\<exists>st'. flush_buffer b st = Inr st' \<and> kept st st' \<and> has_data st' = has_data st \<and>
    output_buffers_used st' = (output_buffers_used st)[b := 0]"
proof (cases "output_buffers_used st ! b = 0")
  case True
  then have "(output_buffers_used st)[b := 0] = output_buffers_used st"
    by (metis list_update_id)
  then show ?thesis using out_wfD [OF wf b] True wf by (auto simp: flush_buffer_def kept_refl)
next
  case False
  note d = out_wfD [OF wf b]
  from select_colour_ok [OF wf b] d(5) False obtain st1 where
    1: "select_colour b st = Inr st1" "kept st st1" "last_out st1 = int b"
      "output_buffers st1 = output_buffers st" "output_buffers_used st1 = output_buffers_used st"
      "has_data st1 = has_data st" "\<forall>k. shown_on k (out_trace st1) = shown_on k (out_trace st)" by blast
  let ?st' = "(emit_out (map (Shown [b]) (take (output_buffers_used st ! b) (output_buffers st ! b))) st1)
               \<lparr>done_output := True, output_buffers_used := (output_buffers_used st1)[b := 0],
                output_buffer_bitmask := clear_bit b (output_buffer_bitmask st1)\<rparr>"
  have run: "flush_buffer b st = Inr ?st'"
    using d False 1 by (simp add: flush_buffer_def)
  have "kept st ?st'"
    using wf b
  proof (rule flush_core [where n = "output_buffers_used st ! b" and buf = "output_buffers st ! b"])
    show "\<forall>k. shown_on k (out_trace ?st') = shown_on k (out_trace st) @
        (if k = b then take (output_buffers_used st ! b) (pending b st) else [])"
      using 1(7) by (simp add: emit_out_def shown_on_Shown pending_def)
  qed (use 1 d b in \<open>auto simp: kept_def emit_out_def pending_def\<close>)
  with run 1 show ?thesis by (auto simp: emit_out_def)
qed

lemma flush_buffers_ok:
  assumes "out_wf st" and "set is \<subseteq> {..<STREAMS}"
  shows "\<exists>st'. flush_buffers is st = Inr st' \<and> kept st st' \<and> has_data st' = has_data st \<and>
    (\<forall>b < STREAMS. output_buffers_used st' ! b = (if b \<in> set is then 0 else output_buffers_used st ! b))"
  using assms
proof (induction "is" arbitrary: st)
  case Nil
  then show ?case by (simp add: kept_refl)
next
  case (Cons i "is")
  from flush_buffer_ok [OF Cons.prems(1), of i] Cons.prems(2) obtain st1 where
    1: "flush_buffer i st = Inr st1" "kept st st1" "has_data st1 = has_data st"
      "output_buffers_used st1 = (output_buffers_used st)[i := 0]" by auto
  from Cons.IH [of st1] 1(2) Cons.prems(2) obtain st' where
    2: "flush_buffers is st1 = Inr st'" "kept st1 st'" "has_data st' = has_data st1"
      "\<forall>b < STREAMS. output_buffers_used st' ! b = (if b \<in> set is then 0 else output_buffers_used st1 ! b)"
    by (auto simp: kept_def)
  have "output_buffers_used st' ! b = (if b \<in> set (i # is) then 0 else output_buffers_used st ! b)"
    if "b < STREAMS" for b
    using 2(4) 1(4) that Cons.prems(1) by (auto simp: nth_list_update out_wf_def)
  moreover have "flush_buffers (i # is) st = Inr st'" using 1(1) 2(1) by simp
  ultimately show ?case using kept_trans [OF 1(2) 2(2)] 1(3) 2(3) by (intro exI [of _ st']) auto
qed

definition has_newline :: "u8 list \<Rightarrow> bool" where
  "has_newline s \<longleftrightarrow> CR \<in> set s \<or> LF \<in> set s"

lemma takeWhile_neq_less: "c \<in> set xs \<Longrightarrow> length (takeWhile (\<lambda>x. x \<noteq> c) xs) < length xs"
  by (induction xs) auto

lemma memchr_less: "memchr s c n = Some p \<Longrightarrow> p < n \<and> p < length s"
  using takeWhile_neq_less [of c "take n s"] by (auto simp: memchr_def split: if_splits)

lemma memchr_member: "memchr s c n = Some p \<Longrightarrow> c \<in> set (take n s)"
  by (simp add: memchr_def split: if_splits)

lemma newline_cases:
  obtains (no) "\<not> has_newline (take n buf)"
      "(case memchr buf CR n of Some p \<Rightarrow> Some p | None \<Rightarrow> memchr buf LF n) = None"
  | (yes) p where "has_newline (take n buf)" "p < n"
      "(case memchr buf CR n of Some p \<Rightarrow> Some p | None \<Rightarrow> memchr buf LF n) = Some p"
proof (cases "case memchr buf CR n of Some p \<Rightarrow> Some p | None \<Rightarrow> memchr buf LF n")
  case None
  then have "\<not> has_newline (take n buf)"
    by (auto simp: has_newline_def memchr_def split: if_splits)
  with None no show thesis by blast
next
  case (Some p)
  then have "has_newline (take n buf)" "p < n"
    by (auto simp: has_newline_def split: option.splits dest: memchr_less memchr_member)
  with Some yes show thesis by blast
qed

lemma flush_buffer_line_ok:
  assumes wf: "out_wf st" and b: "b < STREAMS"
  shows "\<exists>r st'. flush_buffer_line b st = Inr (r, st') \<and> kept st st' \<and> has_data st' = has_data st \<and> done_output st' = done_output st \<and>
    (r \<longleftrightarrow> has_newline (pending b st)) \<and> (\<not> r \<longrightarrow> st' = st)"
proof (cases "output_buffers_used st ! b = 0")
  case True
  then show ?thesis
    using out_wfD [OF wf b] wf
    by (intro exI [of _ False] exI [of _ st]) (simp add: flush_buffer_line_def kept_refl has_newline_def pending_def)
next
  case False
  note d = out_wfD [OF wf b]
  let ?used = "output_buffers_used st ! b" and ?buf = "output_buffers st ! b"
  show ?thesis
  proof (cases rule: newline_cases [where n = ?used and buf = ?buf])
    case no
    then show ?thesis
      using d False wf by (auto simp: flush_buffer_line_def kept_refl pending_def)
  next
    case (yes p)
    define len where
      "len = (if p + 1 < ?used \<and> (?buf ! (p + 1) = LF \<or> ?buf ! (p + 1) = CR) then p + 1 + 1 else p + 1)"
    have len: "0 < len" "len \<le> ?used" using yes(2) by (auto simp: len_def)
    from select_colour_ok [OF wf b] d(5) False obtain st1 where
      1: "select_colour b st = Inr st1" "kept st st1" "last_out st1 = int b"
        "output_buffers st1 = output_buffers st" "output_buffers_used st1 = output_buffers_used st"
        "has_data st1 = has_data st" "done_output st1 = done_output st" "\<forall>k. shown_on k (out_trace st1) = shown_on k (out_trace st)" by blast
    define st2 where "st2 = (emit_out (map (Shown [b]) (take len ?buf)) st1)
                     \<lparr>output_buffers := (output_buffers st1)[b := shift_down len ?used ?buf],
                      output_buffers_used := (output_buffers_used st1)[b := ?used - len]\<rparr>"
    let ?st' = "if ?used - len = 0
                then st2\<lparr>output_buffer_bitmask := clear_bit b (output_buffer_bitmask st2)\<rparr> else st2"
    have run: "flush_buffer_line b st = Inr (True, ?st')"
      using d False 1(1,4,5) yes(3)
      by (cases "p + 1 < ?used \<and> (?buf ! (p + 1) = LF \<or> ?buf ! (p + 1) = CR)")
        (auto simp: flush_buffer_line_def st2_def Let_def len_def)
    have fields: "output_buffers_used ?st' = (output_buffers_used st)[b := ?used - len]"
        "output_buffers ?st' = (output_buffers st)[b := shift_down len ?used ?buf]"
        "has_data ?st' = has_data st \<and> done_output ?st' = done_output st" "last_out ?st' = int b"
        "active_client ?st' = active_client st" "getchar_clients ?st' = getchar_clients st"
        "getchar_present ?st' = getchar_present st" "statemachine ?st' = statemachine st"
        "active_multiclients ?st' = active_multiclients st"
      using 1 by (auto simp: st2_def emit_out_def kept_def)
    have tr: "\<forall>k. shown_on k (out_trace ?st') = shown_on k (out_trace st) @
        (if k = b then take len (pending b st) else [])"
      using 1(8) len by (auto simp: st2_def emit_out_def shown_on_Shown pending_def)
    have sh: "length (shift_down len ?used ?buf) = CLIENT_OUTPUT_BUFFER_SIZE"
      "take (?used - len) (shift_down len ?used ?buf) = drop len (pending b st)"
      using d len length_shift_down [of len ?used ?buf] take_shift_down [of len ?used ?buf]
      by (simp_all add: pending_def)
    have "kept st ?st'"
      by (rule flush_core [OF wf b len(2) fields(1,2) sh tr]) (use fields b in auto)
    then show ?thesis using run fields(3) yes(1) by (auto simp: pending_def)
  qed
qed

lemma flush_round_ok:
  assumes "out_wf st" and "set is \<subseteq> {..<STREAMS}"
  shows "\<exists>r st'. flush_round is f st = Inr (r, st') \<and> kept st st' \<and> has_data st' = has_data st \<and> done_output st' = done_output st \<and>
    (r \<longleftrightarrow> f \<or> (\<exists>i \<in> set is. has_newline (pending i st))) \<and> (\<not> r \<longrightarrow> st' = st)"
  using assms
proof (induction "is" arbitrary: f st)
  case Nil
  then show ?case by (simp add: kept_refl)
next
  case (Cons i "is")
  from flush_buffer_line_ok [OF Cons.prems(1), of i] Cons.prems(2) obtain r1 st1 where
    1: "flush_buffer_line i st = Inr (r1, st1)" "kept st st1" "has_data st1 = has_data st \<and> done_output st1 = done_output st"
      "r1 \<longleftrightarrow> has_newline (pending i st)" "\<not> r1 \<longrightarrow> st1 = st" by auto
  from Cons.IH [of st1 "f \<or> r1"] 1(2) Cons.prems(2) obtain r st' where
    2: "flush_round is (f \<or> r1) st1 = Inr (r, st')" "kept st1 st'" "has_data st' = has_data st1 \<and> done_output st' = done_output st1"
      "r \<longleftrightarrow> (f \<or> r1) \<or> (\<exists>i \<in> set is. has_newline (pending i st1))" "\<not> r \<longrightarrow> st' = st1"
    by (auto simp: kept_def)
  show ?case
    using 1 2 kept_trans [OF 1(2) 2(2)] by (intro exI [of _ r] exI [of _ st']) auto
qed

lemma streams_subset: "set [0..<STREAMS] \<subseteq> {..<STREAMS}"
  by (auto simp del: upt_rec_numeral)

lemma bex_streams: "(\<exists>i \<in> set [0..<STREAMS]. P i) \<longleftrightarrow> (\<exists>i < STREAMS. P i)"
  by (auto simp del: upt_rec_numeral)

lemma flush_all_lines_ok:
  assumes "out_wf st"
  shows "\<exists>r st'. flush_all_lines st = Inr (r, st') \<and> kept st st' \<and> has_data st' = has_data st \<and> done_output st' = done_output st \<and>
    (r \<longleftrightarrow> (\<exists>i < STREAMS. has_newline (pending i st))) \<and> (\<not> r \<longrightarrow> st' = st) \<and>
    (\<forall>i < STREAMS. \<not> has_newline (pending i st'))"
  using assms
proof (induction st rule: flush_all_lines.induct)
  case (1 st)
  from flush_round_ok [OF 1(2) streams_subset, of False] obtain r st1 where
    r: "flush_round [0..<STREAMS] False st = Inr (r, st1)" "kept st st1" "has_data st1 = has_data st \<and> done_output st1 = done_output st"
      "r \<longleftrightarrow> (\<exists>i < STREAMS. has_newline (pending i st))" "\<not> r \<longrightarrow> st1 = st"
    unfolding bex_streams by blast
  show ?case
  proof (cases r)
    case False
    then have "flush_all_lines st = Inr (False, st1)"
      using r(1) by (simp add: flush_all_lines.simps del: upt_rec_numeral)
    with False r show ?thesis by auto
  next
    case True
    have "out_wf st1" using r(2) by (simp add: kept_def)
    from 1(1) [OF r(1) refl True this] obtain r2 st2 where
      2: "flush_all_lines st1 = Inr (r2, st2)" "kept st1 st2" "has_data st2 = has_data st1 \<and> done_output st2 = done_output st1"
        "\<forall>i < STREAMS. \<not> has_newline (pending i st2)" by blast
    have "flush_all_lines st = Inr (True, st2)"
      using r(1) True 2(1) by (simp add: flush_all_lines.simps [of st] del: upt_rec_numeral)
    with 2 r(3,4) True kept_trans [OF r(2) 2(2)] show ?thesis by auto
  qed
qed

subsection \<open>Coalescing\<close>

lemma coalesce_scan_Some:
  assumes "coalesce_scan bufs useds is len acc = Some (n, used)" and "distinct (acc @ is)"
    and "acc = [] \<longrightarrow> len = 0"
    and "acc \<noteq> [] \<longrightarrow> 0 < len \<and>
      (\<forall>u \<in> set acc. len \<le> useds ! u \<and> take len (bufs ! u) = take len (bufs ! (acc ! 0)))"
  shows "distinct used \<and> set used \<subseteq> set acc \<union> set is \<and>
    (used \<noteq> [] \<longrightarrow> 0 < n \<and>
      (\<forall>u \<in> set used. n \<le> useds ! u \<and> take n (bufs ! u) = take n (bufs ! (used ! 0))))"
  using assms
proof (induction bufs useds "is" len acc rule: coalesce_scan.induct)
  case (1 bufs useds len acc)
  then have eq: "n = len" "used = acc" by simp_all
  have "distinct acc" using 1(2) by simp
  then show ?case unfolding eq using 1(4) by blast
next
  case (2 bufs useds i "is" len acc)
  show ?case
  proof (cases "0 < useds ! i")
    case False
    then have "coalesce_scan bufs useds is len acc = Some (n, used)" using 2(3) by simp
    moreover have "distinct (acc @ is)" using 2(4) by simp
    ultimately have "distinct used \<and> set used \<subseteq> set acc \<union> set is \<and>
      (used \<noteq> [] \<longrightarrow> 0 < n \<and>
        (\<forall>u \<in> set used. n \<le> useds ! u \<and> take n (bufs ! u) = take n (bufs ! (used ! 0))))"
      using 2(2) [OF False] 2(5,6) by blast
    then show ?thesis unfolding list.set(2) by blast
  next
    case True
    let ?acc = "acc @ [i]" and ?len = "if len = 0 \<or> useds ! i < len then useds ! i else len"
    have eq: "\<not> (1 < length ?acc \<and> take ?len (bufs ! (?acc ! 0)) \<noteq> take ?len (bufs ! i))"
      and scan: "coalesce_scan bufs useds is ?len ?acc = Some (n, used)"
      using 2(3) True by (auto simp: Let_def split: if_splits)
    have shorter: "?len \<le> len" if "acc \<noteq> []" using that 2(6) by auto
    have acc: "?len \<le> useds ! u \<and> take ?len (bufs ! u) = take ?len (bufs ! (acc ! 0))"
      if "u \<in> set acc" for u
    proof -
      have "acc \<noteq> []" using that by auto
      then have u: "len \<le> useds ! u" "take len (bufs ! u) = take len (bufs ! (acc ! 0))"
        using 2(6) that by blast+
      have le: "?len \<le> len" using shorter \<open>acc \<noteq> []\<close> by blast
      have "take ?len (bufs ! u) = take ?len (bufs ! (acc ! 0))"
        using arg_cong [OF u(2), of "take ?len"] le by (simp add: min_def split: if_splits)
      with u(1) le show ?thesis by auto
    qed
    have i: "?len \<le> useds ! i \<and> 0 < ?len \<and> take ?len (bufs ! i) = take ?len (bufs ! (?acc ! 0))"
      using True eq by (cases acc) (auto simp: nth_append)
    have all: "\<forall>u \<in> set ?acc. ?len \<le> useds ! u \<and> take ?len (bufs ! u) = take ?len (bufs ! (?acc ! 0))"
    proof
      fix u assume "u \<in> set ?acc"
      then consider "u \<in> set acc" | "u = i" by auto
      then show "?len \<le> useds ! u \<and> take ?len (bufs ! u) = take ?len (bufs ! (?acc ! 0))"
      proof cases
        case 1
        then have "?acc ! 0 = acc ! 0" by (cases acc) auto
        with acc [OF 1] show ?thesis by metis
      next
        case 2
        with i show ?thesis by blast
      qed
    qed
    have res: "distinct used \<and> set used \<subseteq> set ?acc \<union> set is \<and>
      (used \<noteq> [] \<longrightarrow> 0 < n \<and>
        (\<forall>u \<in> set used. n \<le> useds ! u \<and> take n (bufs ! u) = take n (bufs ! (used ! 0))))"
    proof (rule 2(1) [OF True refl refl eq scan])
      show "distinct (?acc @ is)" using 2(4) by auto
      show "?acc = [] \<longrightarrow> ?len = 0" by simp
      from i have pos: "0 < ?len" by (rule conjunct2 [THEN conjunct1])
      show "?acc \<noteq> [] \<longrightarrow> 0 < ?len \<and>
          (\<forall>u \<in> set ?acc. ?len \<le> useds ! u \<and> take ?len (bufs ! u) = take ?len (bufs ! (?acc ! 0)))"
        by (rule impI, rule conjI, rule pos, rule all)
    qed
    have "set ?acc \<union> set is = set acc \<union> set (i # is)" by auto
    from res [unfolded this] show ?thesis .
  qed
qed

lemma coalesce_shift_ok:
  assumes "distinct us" and "set us \<subseteq> {..<length (output_buffers_used st)}"
    and "length (output_buffers st) = length (output_buffers_used st)"
  shows "\<exists>U B m. coalesce_shift us len st =
      st\<lparr>output_buffers_used := U, output_buffers := B, output_buffer_bitmask := m\<rparr> \<and>
    length U = length (output_buffers_used st) \<and> length B = length (output_buffers st) \<and>
    (\<forall>k < length U. if k \<in> set us
       then U ! k = output_buffers_used st ! k - len \<and>
            B ! k = shift_down len (output_buffers_used st ! k) (output_buffers st ! k)
       else U ! k = output_buffers_used st ! k \<and> B ! k = output_buffers st ! k)"
  using assms
proof (induction us arbitrary: st)
  case Nil
  then show ?case
    by (intro exI [of _ "output_buffers_used st"] exI [of _ "output_buffers st"]
        exI [of _ "output_buffer_bitmask st"]) simp
next
  case (Cons u us)
  let ?n = "output_buffers_used st ! u"
  let ?U = "(output_buffers_used st)[u := ?n - len]"
  let ?B = "(output_buffers st)[u := shift_down len ?n (output_buffers st ! u)]"
  obtain m1 where step: "coalesce_shift (u # us) len st = coalesce_shift us len
      (st\<lparr>output_buffers_used := ?U, output_buffers := ?B, output_buffer_bitmask := m1\<rparr>)"
    by (rule that [of "if ?n - len = 0 then clear_bit u (output_buffer_bitmask st)
         else output_buffer_bitmask st"]) (cases st, simp add: Let_def)
  let ?st1 = "st\<lparr>output_buffers_used := ?U, output_buffers := ?B, output_buffer_bitmask := m1\<rparr>"
  from Cons.IH [of ?st1] Cons.prems obtain U B m where
    IH: "coalesce_shift us len ?st1 =
      ?st1\<lparr>output_buffers_used := U, output_buffers := B, output_buffer_bitmask := m\<rparr>"
      "length U = length (output_buffers_used st)" "length B = length (output_buffers st)"
      "\<forall>k < length U. if k \<in> set us
       then U ! k = ?U ! k - len \<and> B ! k = shift_down len (?U ! k) (?B ! k)
       else U ! k = ?U ! k \<and> B ! k = ?B ! k" by auto
  have "coalesce_shift (u # us) len st =
      st\<lparr>output_buffers_used := U, output_buffers := B, output_buffer_bitmask := m\<rparr>"
    using step IH(1) by simp
  moreover have "if k \<in> set (u # us)
       then U ! k = output_buffers_used st ! k - len \<and>
            B ! k = shift_down len (output_buffers_used st ! k) (output_buffers st ! k)
       else U ! k = output_buffers_used st ! k \<and> B ! k = output_buffers st ! k" if "k < length U" for k
    using IH(2-4) that Cons.prems by (cases "k = u") auto
  ultimately show ?case using IH(2,3) by blast
qed

lemma try_coalesce_output_ok:
  assumes wf: "out_wf st"
  shows "\<exists>r st'. try_coalesce_output st = (r, st') \<and> kept st st'"
proof (cases "coalesce_scan (output_buffers st) (output_buffers_used st) [0..<STREAMS] 0 []")
  case None
  then show ?thesis using wf by (simp add: try_coalesce_output_def kept_refl del: upt_rec_numeral)
next
  case (Some p)
  obtain len used where p: "p = (len, used)" by (cases p)
  show ?thesis
  proof (cases "1 < length used \<and> 0 < len")
    case False
    with Some p wf show ?thesis by (auto simp: try_coalesce_output_def kept_refl simp del: upt_rec_numeral)
  next
    case True
    have "distinct used \<and> set used \<subseteq> set [] \<union> set [0..<STREAMS] \<and> (used \<noteq> [] \<longrightarrow> 0 < len \<and>
      (\<forall>u \<in> set used. len \<le> output_buffers_used st ! u \<and>
         take len (output_buffers st ! u) = take len (output_buffers st ! (used ! 0))))"
      using Some p by (intro coalesce_scan_Some [where acc = "[]"]) auto
    then have scan: "distinct used" "set used \<subseteq> {..<STREAMS}"
      "\<forall>u \<in> set used. len \<le> output_buffers_used st ! u \<and>
         take len (output_buffers st ! u) = take len (output_buffers st ! (used ! 0))"
      using streams_subset True by (auto simp del: upt_rec_numeral)
    define st1 where "st1 = (if last_out st \<noteq> -1 then emit_out [Reset] st else st)"
    define st2 where "st2 = (emit_out (map (Shown used) (take len (output_buffers st1 ! (used ! 0)))) st1)
         \<lparr>last_out := -1\<rparr>"
    have st2: "output_buffers st2 = output_buffers st" "output_buffers_used st2 = output_buffers_used st"
      by (simp_all add: st1_def st2_def emit_out_def)
    from coalesce_shift_ok [OF scan(1), of st2 len] scan(2) wf obtain U B m where
      sh: "coalesce_shift used len st2 =
          st2\<lparr>output_buffers_used := U, output_buffers := B, output_buffer_bitmask := m\<rparr>"
        "length U = STREAMS" "length B = STREAMS"
        "\<forall>k < STREAMS. if k \<in> set used
         then U ! k = output_buffers_used st ! k - len \<and>
              B ! k = shift_down len (output_buffers_used st ! k) (output_buffers st ! k)
         else U ! k = output_buffers_used st ! k \<and> B ! k = output_buffers st ! k"
      by (auto simp: out_wf_def st2)
    define st3 where "st3 = st2\<lparr>output_buffers_used := U, output_buffers := B, output_buffer_bitmask := m\<rparr>"
    let ?st' = "if output_buffer_bitmask st3 \<noteq> 0 then st3\<lparr>has_data := True\<rparr> else st3"
    have run: "try_coalesce_output st = (0, ?st')"
      unfolding try_coalesce_output_def Some p option.case prod.case Let_def st1_def [symmetric]
        st2_def [symmetric] sh(1) st3_def [symmetric]
      using True by simp
    have tr: "shown_on k (out_trace ?st') = shown_on k (out_trace st) @
        (if k \<in> set used then take len (output_buffers st ! (used ! 0)) else [])" for k
      by (auto simp: st3_def st2_def st1_def emit_out_def shown_on_Shown)
    have "stream k ?st' = stream k st" if k: "k < STREAMS" for k
    proof (cases "k \<in> set used")
      case True
      then have le: "len \<le> output_buffers_used st ! k"
        and eq: "take len (output_buffers st ! (used ! 0)) = take len (output_buffers st ! k)"
        using scan(3) by auto
      have "pending k ?st' = drop len (pending k st)"
        using sh(4) k True le out_wfD [OF wf k] take_shift_down
        by (simp add: pending_def st3_def)
      then show ?thesis
        using tr [of k] True eq le append_take_drop_id [of len "pending k st"]
        by (simp add: stream_def pending_def min_def)
    next
      case False
      then show ?thesis using sh(4) k tr [of k] by (simp add: stream_def pending_def st3_def)
    qed
    moreover have "length (B ! k) = CLIENT_OUTPUT_BUFFER_SIZE \<and> U ! k \<le> CLIENT_OUTPUT_BUFFER_SIZE \<and>
        (0 < U ! k \<longrightarrow> has_colour k)" if k: "k < STREAMS" for k
    proof (cases "k \<in> set used")
      case True
      then have "len \<le> output_buffers_used st ! k" using scan(3) by blast
      then show ?thesis
        using sh(4) k True out_wfD [OF wf k] length_shift_down by (simp add: le_diff_conv)
    next
      case False
      then show ?thesis using sh(4) k out_wfD [OF wf k] by simp
    qed
    then have "out_wf ?st'"
      using sh(2,3) by (simp add: out_wf_def st3_def st2_def st1_def emit_out_def)
    moreover have "output_buffers_used ?st' ! k \<le> output_buffers_used st ! k" if "k < STREAMS" for k
      using sh(4) that by (auto simp: st3_def split: if_splits)
    ultimately have "kept st ?st'"
      by (simp add: kept_def st3_def st2_def st1_def emit_out_def)
    with run show ?thesis by blast
  qed
qed

section \<open>Writing a character and the heartbeat\<close>

lemma flush_overflow_ok:
  assumes wf: "out_wf st" and b: "b < STREAMS" "has_colour b"
  shows "\<exists>st'. flush_overflow b st = Inr st' \<and> kept st st'"
proof -
  let ?first = "if last_out st \<noteq> -1 then flush_buffer_line (nat (last_out st)) st else Inr (False, st)"
  have "\<exists>r st1. ?first = Inr (r, st1) \<and> kept st st1"
  proof (cases "last_out st = -1")
    case True
    then show ?thesis using wf kept_refl by auto
  next
    case False
    then have "nat (last_out st) < STREAMS" using wf by (auto simp: out_wf_def)
    from flush_buffer_line_ok [OF wf this] False show ?thesis by auto
  qed
  then obtain r st1 where 1: "?first = Inr (r, st1)" "kept st st1" by blast
  from flush_all_lines_ok [of st1] 1(2) obtain r2 st2 where
    2: "flush_all_lines st1 = Inr (r2, st2)" "kept st1 st2" by (auto simp: kept_def)
  let ?third = "if output_buffers_used st2 ! b = CLIENT_OUTPUT_BUFFER_SIZE
             then flush_buffers (filter (\<lambda>i. i \<noteq> b) [0..<STREAMS]) st2 else Inr st2"
  have "\<exists>st3. ?third = Inr st3 \<and> kept st2 st3"
    using flush_buffers_ok [of st2 "filter (\<lambda>i. i \<noteq> b) [0..<STREAMS]"] 2(2) streams_subset kept_refl
    by (auto simp: kept_def simp del: upt_rec_numeral)
  then obtain st3 where 3: "?third = Inr st3" "kept st2 st3" by blast
  from select_colour_ok [of st3 b] 3(2) b obtain st' where
    4: "select_colour b st3 = Inr st'" "kept st3 st'" by (auto simp: kept_def)
  have "flush_overflow b st = Inr st'"
    using 1(1) 2(1) 3(1) 4(1) by (simp add: flush_overflow_def Let_def del: upt_rec_numeral)
  with kept_trans [OF kept_trans [OF kept_trans [OF 1(2) 2(2)] 3(2)] 4(2)] show ?thesis by blast
qed

text \<open>What writing \<open>cs\<close> to stream \<open>b\<close> does to the state.\<close>

definition put_post :: "nat \<Rightarrow> u8 list \<Rightarrow> serial_state \<Rightarrow> serial_state \<Rightarrow> bool" where
  "put_post b cs st st' \<longleftrightarrow> out_wf st' \<and> has_data st' \<and>
     (\<forall>k < STREAMS. stream k st' = stream k st @ (if k = b then cs else [])) \<and>
     (\<forall>k < STREAMS. output_buffers_used st' ! k \<le> output_buffers_used st ! k + (if k = b then length cs else 0)) \<and>
     active_client st' = active_client st \<and> getchar_clients st' = getchar_clients st \<and>
     getchar_present st' = getchar_present st \<and> statemachine st' = statemachine st \<and>
     active_multiclients st' = active_multiclients st"

lemma put_post_kept:
  assumes p: "put_post b cs st st1" and k: "kept st1 st'"
  shows "put_post b cs st st'"
proof -
  have "output_buffers_used st' ! k \<le> output_buffers_used st ! k + (if k = b then length cs else 0)"
    if "k < STREAMS" for k
    by (rule order_trans [of _ "output_buffers_used st1 ! k"])
      (use that k p in \<open>simp_all add: kept_def put_post_def\<close>)
  with p k show ?thesis by (simp add: put_post_def kept_def)
qed

lemma put_post_trans:
  assumes p: "put_post b cs st st1" and q: "put_post b ds st1 st'"
  shows "put_post b (cs @ ds) st st'"
proof -
  have "output_buffers_used st' ! k \<le> output_buffers_used st ! k + (if k = b then length (cs @ ds) else 0)"
    if k: "k < STREAMS" for k
  proof -
    have "output_buffers_used st' ! k \<le> output_buffers_used st1 ! k + (if k = b then length ds else 0)"
      "output_buffers_used st1 ! k \<le> output_buffers_used st ! k + (if k = b then length cs else 0)"
      using p q k by (simp_all add: put_post_def)
    then show ?thesis by (auto split: if_splits)
  qed
  with p q show ?thesis by (simp add: put_post_def)
qed

lemma internal_putchar_ok:
  assumes wf: "out_wf st" and b: "has_colour b"
    and room: "output_buffers_used st ! b < CLIENT_OUTPUT_BUFFER_SIZE"
  shows "\<exists>st'. internal_putchar b c st = Inr st' \<and> put_post b [ucast c] st st'"
proof -
  have bs: "b < STREAMS" using b by (auto simp: has_colour_def)
  note d = out_wfD [OF wf bs]
  let ?u = "output_buffers_used st ! b"
  have in_buf: "?u < length (output_buffers st ! b)" using d(3) room by simp
  define st1 where "st1 = st\<lparr>output_buffers := (output_buffers st)[b := (output_buffers st ! b)[?u := ucast c]],
                  output_buffers_used := (output_buffers_used st)[b := ?u + 1]\<rparr>"
  define st1' where "st1' = st1\<lparr>has_data := True\<rparr>"
  have wf1: "out_wf st1" using wf bs b room by (auto simp: st1_def out_wf_def nth_list_update)
  have post1: "put_post b [ucast c] st st1'"
    using wf1 d bs room
    by (auto simp: put_post_def out_wf_def st1_def st1'_def stream_def pending_def nth_list_update
        take_Suc_update)
  define cs where "cs = (if active_client st1 = -1 then try_coalesce_output st1 else (-1, st1))"
  obtain status st2 where cs2: "cs = (status, st2)" by (cases cs)
  have k12: "kept st1 st2"
    using try_coalesce_output_ok [OF wf1] kept_refl [OF wf1] cs2 by (auto simp: cs_def split: if_splits)
  let ?act = "if output_buffers_used st2 ! b = CLIENT_OUTPUT_BUFFER_SIZE then flush_overflow b st2
           else if (1 \<le> ?u \<and> is_newline (output_buffers st2 ! b) (?u - 1) \<and> status = -1)
                 \<or> (last_out st2 = int b \<and> output_buffer_bitmask st2 = 0 \<and> status = -1)
           then flush_buffer b st2
           else Inr (st2\<lparr>output_buffer_bitmask := set_out_bit b (output_buffer_bitmask st2)\<rparr>)"
  have wf2: "out_wf st2" using k12 by (simp add: kept_def)
  have bm: "kept st2 (st2\<lparr>output_buffer_bitmask := m\<rparr>)" for m
    using wf2 by (simp add: kept_def out_wf_def stream_def pending_def)
  have "\<exists>st3. ?act = Inr st3 \<and> kept st2 st3"
    using flush_overflow_ok [OF wf2 bs b] flush_buffer_ok [OF wf2 bs] bm by auto
  then obtain st3 where 3: "?act = Inr st3" "kept st2 st3" by blast
  have run: "internal_putchar b c st = Inr (st3\<lparr>has_data := True\<rparr>)"
    unfolding internal_putchar_def nth_ok_in [OF d(1)] nth_ok_in [OF d(2)] upd_ok_in [OF in_buf]
      obind_Inr Let_def st1_def [symmetric] cs_def [symmetric] cs2 prod.case 3(1) ..
  have "kept st1 st3" by (rule kept_trans [OF k12 3(2)])
  then have "kept st1' (st3\<lparr>has_data := True\<rparr>)"
    by (auto simp: kept_def st1'_def out_wf_def stream_def pending_def)
  with run put_post_kept [OF post1] show ?thesis by blast
qed

text \<open>A full buffer stays full, and the next character is written behind its end.\<close>

lemma internal_putchar_full:
  assumes "out_wf st" and "b < STREAMS" and "output_buffers_used st ! b = CLIENT_OUTPUT_BUFFER_SIZE"
  shows "internal_putchar b c st = Inl OutOfBounds"
  using out_wfD [OF assms(1,2)] assms(3) by (simp add: internal_putchar_def upd_ok_def)

lemma timer_callback_ok:
  assumes "out_wf st"
  shows "\<exists>st'. timer_callback st = Inr st' \<and> kept st st'"
proof -
  from flush_all_lines_ok [OF assms] obtain r st1 where
    1: "flush_all_lines st = Inr (r, st1)" "kept st st1" by blast
  from flush_buffers_ok [OF _ streams_subset, of st1] 1(2) obtain st2 where
    2: "flush_buffers [0..<STREAMS] st1 = Inr st2" "kept st1 st2" by (auto simp: kept_def)
  have "kept st (st\<lparr>done_output := False\<rparr>)"
    using assms by (simp add: kept_def out_wf_def stream_def pending_def)
  then show ?thesis
    using 1 2 kept_trans [OF 1(2) 2(2)] kept_refl [OF assms]
    by (simp add: timer_callback_def del: upt_rec_numeral)
qed

text \<open>A heartbeat that does not just note recent output either flushes all complete lines or,
  when there is none, everything.\<close>

lemma timer_callback_flushes:
  assumes wf: "out_wf st" and "\<not> done_output st" and "has_data st"
  shows "\<exists>st'. timer_callback st = Inr st' \<and> out_wf st' \<and> has_data st' \<and>
    (if \<exists>b < STREAMS. has_newline (pending b st)
     then \<not> done_output st' \<and> (\<forall>b < STREAMS. \<not> has_newline (pending b st'))
     else \<forall>b < STREAMS. output_buffers_used st' ! b = 0)"
proof -
  from flush_all_lines_ok [OF wf] obtain r st1 where
    1: "flush_all_lines st = Inr (r, st1)" "kept st st1" "has_data st1 = has_data st" "done_output st1 = done_output st"
      "r \<longleftrightarrow> (\<exists>i < STREAMS. has_newline (pending i st))"
      "\<forall>i < STREAMS. \<not> has_newline (pending i st1)" by blast
  from flush_buffers_ok [OF _ streams_subset, of st1] 1(2) obtain st2 where
    2: "flush_buffers [0..<STREAMS] st1 = Inr st2" "kept st1 st2" "has_data st2 = has_data st1"
      "\<forall>b < STREAMS. output_buffers_used st2 ! b = (if b \<in> set [0..<STREAMS] then 0 else output_buffers_used st1 ! b)"
    by (auto simp: kept_def)
  have "\<forall>b < STREAMS. output_buffers_used st2 ! b = 0"
    using 2(4) by (simp del: upt_rec_numeral)
  then show ?thesis
    using 1 2(1-3) assms by (auto simp: timer_callback_def kept_def simp del: upt_rec_numeral)
qed

section \<open>The character buffers are FIFO queues\<close>

definition cb_wf :: "client_buffer \<Rightarrow> bool" where
  "cb_wf cb \<longleftrightarrow> length (cb_buf cb) = GETCHAR_BUF \<and> unat (cb_head cb) < GETCHAR_BUF \<and>
     unat (cb_tail cb) < GETCHAR_BUF"

definition cb_items :: "client_buffer \<Rightarrow> u8 list" where
  "cb_items cb = ring_items (cb_buf cb) (unat (cb_head cb)) (unat (cb_tail cb))"

lemma unat_next: "unat t < GETCHAR_BUF \<Longrightarrow> unat ((t + 1) mod of_nat GETCHAR_BUF) = (unat t + 1) mod GETCHAR_BUF"
  for t :: u32
  by (simp add: unat_mod_distrib unat_word_ariths)

lemma unat_next_eq: "unat t < GETCHAR_BUF \<Longrightarrow>
  (t + 1) mod of_nat GETCHAR_BUF = h \<longleftrightarrow> (unat t + 1) mod GETCHAR_BUF = unat h" for t h :: u32
  using unat_next [of t] by (simp add: word_unat_eq_iff)

interpretation cbq: fifo cb_wf cb_items cb_put cb_get cb_full cb_empty
proof unfold_locales
  fix cb c
  assume wf: "cb_wf cb"
  show "cb_empty cb \<longleftrightarrow> cb_items cb = []"
    using wf by (auto simp: cb_wf_def cb_empty_def cb_items_def ring_items_Nil_iff word_unat_eq_iff)
  show "cb_wf (cb_put c cb)"
    using wf unat_next [of "cb_tail cb"] by (simp add: cb_wf_def cb_put_def)
  show "cb_wf (snd (cb_get cb))"
    using wf unat_next [of "cb_head cb"] by (simp add: cb_wf_def cb_get_def)
  show "cb_items (cb_put c cb) = cb_items cb @ [c]" if "\<not> cb_full cb"
    using wf that unat_next [of "cb_tail cb"] unat_next_eq [of "cb_tail cb"]
      ring_items_push [of "unat (cb_head cb)" "cb_buf cb" "unat (cb_tail cb)" c]
    by (simp add: cb_wf_def cb_items_def cb_put_def cb_full_def)
  show "cb_items cb = fst (cb_get cb) # cb_items (snd (cb_get cb))" if "\<not> cb_empty cb"
    using wf that unat_next [of "cb_head cb"]
      ring_items_pop [of "unat (cb_head cb)" "cb_buf cb" "unat (cb_tail cb)"]
    by (simp add: cb_wf_def cb_items_def cb_get_def cb_empty_def word_unat_eq_iff)
qed

lemma cb_items_length: "cb_wf cb \<Longrightarrow> length (cb_items cb) < GETCHAR_BUF"
  by (simp add: cb_wf_def cb_items_def ring_count_less)

lemma cb_full_iff: "cb_wf cb \<Longrightarrow> cb_full cb \<longleftrightarrow> length (cb_items cb) = GETCHAR_BUF - 1"
  using unat_next_eq [of "cb_tail cb"] ring_succ_neq [of "unat (cb_head cb)" GETCHAR_BUF "unat (cb_tail cb)"]
  by (simp add: cb_wf_def cb_items_def cb_full_def)

subsection \<open>Batches\<close>

fun put_all :: "(u8 \<Rightarrow> serial_state \<Rightarrow> serial_state outcome) \<Rightarrow> u8 list \<Rightarrow> serial_state \<Rightarrow> serial_state outcome" where
  "put_all put [] st = Inr st"
| "put_all put (c # cs) st = obind (put c st) (put_all put cs)"

text \<open>With a sound ring the loop writes the pending characters in order and empties the ring.\<close>

lemma batch_loop_ok:
  assumes "cb_wf cb" and "length (cb_items cb) \<le> fuel"
  shows "batch_loop fuel put cb st =
    obind (put_all put (cb_items cb) st) (\<lambda>st'. Inr (cb\<lparr>cb_head := cb_tail cb\<rparr>, st'))"
  using assms
proof (induction fuel arbitrary: cb st)
  case 0
  then have "cb_items cb = []" by simp
  moreover from this have "cb_head cb = cb_tail cb"
    using cbq.empty_iff [OF 0(1)] by (simp add: cb_empty_def)
  moreover from this have "cb\<lparr>cb_head := cb_tail cb\<rparr> = cb" by (cases cb) simp
  ultimately show ?case by simp
next
  case (Suc k)
  show ?case
  proof (cases "cb_head cb = cb_tail cb")
    case True
    then have "cb_items cb = []" using cbq.empty_iff [OF Suc(2)] by (simp add: cb_empty_def)
    moreover from True have "cb\<lparr>cb_head := cb_tail cb\<rparr> = cb" by (cases cb) simp
    ultimately show ?thesis using True by simp
  next
    case False
    then have ne: "\<not> cb_empty cb" by (simp add: cb_empty_def)
    let ?cb1 = "cb\<lparr>cb_head := (cb_head cb + 1) mod of_nat GETCHAR_BUF\<rparr>"
    have items: "cb_items cb = cb_buf cb ! unat (cb_head cb) # cb_items ?cb1"
      using cbq.items_pop [OF Suc(2) ne] by (simp add: cb_get_def)
    have wf1: "cb_wf ?cb1" using cbq.wf_pop [OF Suc(2) ne] by (simp add: cb_get_def)
    have "length (cb_items ?cb1) \<le> k" using Suc(3) items by simp
    note IH = Suc(1) [OF wf1 this]
    have "unat (cb_head cb) < length (cb_buf cb)" using Suc(2) by (simp add: cb_wf_def)
    then show ?thesis using False items IH
      by (cases "put (cb_buf cb ! unat (cb_head cb)) st") simp_all
  qed
qed

text \<open>With a \<open>tail\<close> outside the ring the loop never leaves.\<close>

lemma batch_loop_stuck:
  assumes "unat (cb_head cb) < GETCHAR_BUF" and "GETCHAR_BUF \<le> unat (cb_tail cb)"
  shows "batch_loop fuel put cb st \<noteq> Inr r"
  using assms
proof (induction fuel arbitrary: cb st)
  case 0
  then show ?case by auto
next
  case (Suc k)
  let ?cb1 = "cb\<lparr>cb_head := (cb_head cb + 1) mod of_nat GETCHAR_BUF\<rparr>"
  have "unat (cb_head ?cb1) < GETCHAR_BUF"
    using unat_next [OF Suc(2)] by simp
  from Suc(1) [of ?cb1, OF this] Suc(2,3) show ?case
    by (auto simp: obind_eq_Inr)
qed

section \<open>Input\<close>

definition in_wf :: "serial_state \<Rightarrow> bool" where
  "in_wf st \<longleftrightarrow>
     (\<forall>g \<in> set (getchar_clients st). cb_wf (gc_buf g)) \<and> length (getchar_clients st) \<le> MAX_CLIENTS \<and>
     (getchar_present st \<longrightarrow> getchar_clients st \<noteq> []) \<and> statemachine st \<le> 3 \<and>
     (active_client st = -1 \<or>
       (0 \<le> active_client st \<and> active_client st < max 1 (int (length (getchar_clients st))))) \<and>
     (\<forall>i < STREAMS. multi_selected (active_multiclients st) i \<longrightarrow> i < length (getchar_clients st))"

text \<open>The output side is not touched by input, except that a notice resets the colour.\<close>

definition out_same :: "serial_state \<Rightarrow> serial_state \<Rightarrow> bool" where
  "out_same st st' \<longleftrightarrow>
     output_buffers st' = output_buffers st \<and> output_buffers_used st' = output_buffers_used st \<and>
     has_data st' = has_data st \<and> (last_out st' = last_out st \<or> last_out st' = -1) \<and>
     (\<forall>k. shown_on k (out_trace st') = shown_on k (out_trace st))"

lemma out_same_refl: "out_same st st"
  by (simp add: out_same_def)

lemma out_same_trans: "out_same a b \<Longrightarrow> out_same b c \<Longrightarrow> out_same a c"
  by (auto simp: out_same_def)

lemma out_same_wf: "out_same st st' \<Longrightarrow> out_wf st \<Longrightarrow> out_wf st' \<and> (\<forall>k. stream k st' = stream k st)"
  by (auto simp: out_same_def out_wf_def stream_def pending_def)

lemma and_push_bit_1:
  fixes x :: u64
  assumes "i < 64"
  shows "x AND push_bit i 1 = push_bit i 1 \<longleftrightarrow> bit x i"
proof
  assume "x AND push_bit i 1 = push_bit i 1"
  then have "bit (x AND push_bit i 1) i = bit (push_bit i 1 :: u64) i" by simp
  then show "bit x i" using assms by (simp add: bit_simps)
next
  assume "bit x i"
  then show "x AND push_bit i 1 = push_bit i 1"
    by (intro bit_word_eqI) (auto simp: bit_simps)
qed

lemma multi_selected_bit: "i < 32 \<Longrightarrow> multi_selected m i \<longleftrightarrow> bit m i"
  unfolding multi_selected_def BIT_def by (subst and_push_bit_1) (simp_all add: bit_simps)

lemma multi_selected_set:
  "i < 32 \<Longrightarrow> d < 32 \<Longrightarrow>
   multi_selected (ucast ((scast m :: u64) OR BIT d)) i \<longleftrightarrow> multi_selected m i \<or> i = d"
  by (auto simp: multi_selected_bit BIT_def bit_simps)

text \<open>The characters waiting for client \<open>k\<close>, and the delivery of \<open>c\<close> to the clients in \<open>S\<close>.\<close>

definition client_chars :: "nat \<Rightarrow> serial_state \<Rightarrow> u8 list" where
  "client_chars k st = cb_items (gc_buf (getchar_clients st ! k))"

definition delivered :: "nat set \<Rightarrow> u8 \<Rightarrow> serial_state \<Rightarrow> serial_state \<Rightarrow> bool" where
  "delivered S c st st' \<longleftrightarrow> in_wf st' \<and> out_same st st' \<and>
     length (getchar_clients st') = length (getchar_clients st) \<and>
     getchar_present st' = getchar_present st \<and> statemachine st' = statemachine st \<and>
     active_client st' = active_client st \<and> active_multiclients st' = active_multiclients st \<and>
     (\<forall>k < length (getchar_clients st). client_chars k st' = client_chars k st @
        (if k \<in> S \<and> length (client_chars k st) < GETCHAR_BUF - 1 then [c] else []))"

lemma delivered_none: "in_wf st \<Longrightarrow> delivered {} c st st"
  by (simp add: delivered_def out_same_refl)

lemma delivered_union:
  assumes a: "delivered S c st st1" and b: "delivered T c st1 st2" and "S \<inter> T = {}"
  shows "delivered (S \<union> T) c st st2"
proof -
  have "client_chars k st2 = client_chars k st @
        (if k \<in> S \<union> T \<and> length (client_chars k st) < GETCHAR_BUF - 1 then [c] else [])"
    if "k < length (getchar_clients st)" for k
    using a b assms(3) that by (cases "k \<in> S"; cases "k \<in> T") (auto simp: delivered_def)
  with a b show ?thesis unfolding delivered_def by (simp add: out_same_trans) (metis out_same_trans)
qed

lemma internal_raw_putchar_ok:
  assumes wf: "in_wf st" and i: "i < length (getchar_clients st)"
  shows "\<exists>st'. internal_raw_putchar i c st = Inr st' \<and> delivered {i} c st st'"
proof -
  let ?g = "getchar_clients st ! i"
  have cb: "cb_wf (gc_buf ?g)" using wf i by (simp add: in_wf_def)
  show ?thesis
  proof (cases "cb_full (gc_buf ?g)")
    case True
    then have "length (client_chars i st) = GETCHAR_BUF - 1"
      using cb_full_iff [OF cb] by (simp add: client_chars_def)
    then have "delivered {i} c st st"
      using wf by (auto simp: delivered_def out_same_refl)
    then show ?thesis using True i by (simp add: internal_raw_putchar_def)
  next
    case False
    let ?h = "cb_head (gc_buf ?g)"
    let ?g1 = "?g\<lparr>gc_buf := cb_put c (gc_buf ?g)\<rparr>"
    let ?g2 = "if ?h \<noteq> gc_last_head ?g then ?g1\<lparr>gc_last_head := ?h\<rparr> else ?g1"
    let ?st' = "(if ?h \<noteq> gc_last_head ?g then emit_out [Emit (gc_client_id ?g)] st else st)
                  \<lparr>getchar_clients := (getchar_clients st)[i := ?g2]\<rparr>"
    have run: "internal_raw_putchar i c st = Inr ?st'"
      using False i cb by (simp add: internal_raw_putchar_def Let_def cb_wf_def)
    have g2: "cb_wf (gc_buf ?g2)" "cb_items (gc_buf ?g2) = cb_items (gc_buf ?g) @ [c]"
      using cbq.wf_push [OF cb False] cbq.items_push [OF cb False] by simp_all
    have len: "length (client_chars i st) < GETCHAR_BUF - 1"
      using cb_full_iff [OF cb] cb_items_length [OF cb] False by (simp add: client_chars_def)
    have "in_wf ?st'"
      using wf g2(1) by (auto simp: in_wf_def emit_out_def dest: set_update_subset_insert [THEN subsetD])
    moreover have "out_same st ?st'" by (simp add: out_same_def emit_out_def)
    moreover have "client_chars k ?st' = client_chars k st @
        (if k \<in> {i} \<and> length (client_chars k st) < GETCHAR_BUF - 1 then [c] else [])"
      if "k < length (getchar_clients st)" for k
      using g2(2) len that by (cases "k = i") (simp_all add: client_chars_def emit_out_def)
    ultimately show ?thesis using run by (simp add: delivered_def emit_out_def)
  qed
qed

definition selected :: "serial_state \<Rightarrow> nat set" where
  "selected st = {i. i < STREAMS \<and> multi_selected (active_multiclients st) i}"

lemma give_multi_ok:
  assumes "in_wf st" and "distinct is" and "set is \<subseteq> {..<STREAMS}"
  shows "\<exists>st'. give_multi is c st = Inr st' \<and> delivered (set is \<inter> selected st) c st st'"
  using assms
proof (induction "is" arbitrary: st)
  case Nil
  then show ?case by (simp add: delivered_none)
next
  case (Cons i "is")
  let ?D = "{i} \<inter> selected st"
  have "\<exists>st1. (if multi_selected (active_multiclients st) i then internal_raw_putchar i c st else Inr st) =
      Inr st1 \<and> delivered ?D c st st1"
  proof (cases "multi_selected (active_multiclients st) i")
    case True
    then have "i < length (getchar_clients st)" "?D = {i}"
      using Cons.prems(1,3) by (auto simp: in_wf_def selected_def)
    with internal_raw_putchar_ok [OF Cons.prems(1), of i c] True show ?thesis by simp
  next
    case False
    then have "?D = {}" by (auto simp: selected_def)
    with False delivered_none [OF Cons.prems(1)] show ?thesis by simp
  qed
  then obtain st1 where
    1: "(if multi_selected (active_multiclients st) i then internal_raw_putchar i c st else Inr st) = Inr st1"
      "delivered ?D c st st1" by blast
  have sel: "selected st1 = selected st" using 1(2) by (simp add: delivered_def selected_def)
  from Cons.IH [of st1] 1(2) Cons.prems obtain st' where
    2: "give_multi is c st1 = Inr st'" "delivered (set is \<inter> selected st) c st1 st'"
    by (auto simp: delivered_def sel)
  have "?D \<inter> (set is \<inter> selected st) = {}" using Cons.prems(2) by auto
  note u = delivered_union [OF 1(2) 2(2) this]
  have "?D \<union> (set is \<inter> selected st) = set (i # is) \<inter> selected st" by auto
  from u [unfolded this] have "delivered (set (i # is) \<inter> selected st) c st st'" .
  then show ?case using 1(1) 2(1) by auto
qed

definition receivers :: "serial_state \<Rightarrow> nat set" where
  "receivers st = (if 0 \<le> active_client st then {nat (active_client st)} else selected st)"

lemma give_client_char_ok:
  assumes wf: "in_wf st" and p: "getchar_present st"
  shows "\<exists>st'. give_client_char c st = Inr st' \<and> delivered (receivers st) c st st'"
proof (cases "0 \<le> active_client st")
  case True
  then have "nat (active_client st) < length (getchar_clients st)"
    using wf p by (auto simp: in_wf_def max_def split: if_splits)
  from internal_raw_putchar_ok [OF wf this, of c] True show ?thesis
    by (simp add: give_client_char_def receivers_def)
next
  case False
  then have m: "active_client st = -1" using wf by (auto simp: in_wf_def)
  have "set [0..<STREAMS] \<inter> selected st = selected st"
    by (auto simp: selected_def simp del: upt_rec_numeral)
  with give_multi_ok [OF wf distinct_upt streams_subset, of c] m show ?thesis
    by (simp add: give_client_char_def receivers_def del: upt_rec_numeral)
qed

lemma in_wf_machine: "in_wf st \<Longrightarrow> m \<le> 3 \<Longrightarrow> in_wf (st\<lparr>statemachine := m\<rparr>)"
  by (simp add: in_wf_def)

text \<open>Delivering a character after the state machine moved to state \<open>m\<close>.\<close>

lemma give_machine_ok:
  assumes "in_wf st" and "getchar_present st" and "m \<le> 3"
  shows "\<exists>st'. give_client_char c (st\<lparr>statemachine := m\<rparr>) = Inr st' \<and> statemachine st' = m \<and>
    in_wf st' \<and> out_same st st' \<and> getchar_present st' \<and> active_client st' = active_client st \<and>
    length (getchar_clients st') = length (getchar_clients st) \<and>
    (\<forall>k < length (getchar_clients st). client_chars k st' = client_chars k st @
        (if k \<in> receivers st \<and> length (client_chars k st) < GETCHAR_BUF - 1 then [c] else []))"
proof -
  have r: "receivers (st\<lparr>statemachine := m\<rparr>) = receivers st"
    by (simp add: receivers_def selected_def)
  from give_client_char_ok [OF in_wf_machine [OF assms(1,3)], of c] assms(2) show ?thesis
    unfolding r by (auto simp: delivered_def client_chars_def out_same_def)
qed

lemma in_wf_control:
  assumes "in_wf st" and "getchar_clients st' = getchar_clients st"
    and "getchar_present st' = getchar_present st" and "statemachine st' \<le> 3"
    and "active_client st' \<in> {active_client st, -1} \<or>
      (0 \<le> active_client st' \<and> active_client st' < int (length (getchar_clients st)))"
    and "\<forall>i < STREAMS. multi_selected (active_multiclients st') i \<longrightarrow>
      multi_selected (active_multiclients st) i \<or> i < length (getchar_clients st)"
  shows "in_wf st'"
  using assms by (auto simp: in_wf_def)

lemma multi_selected_0: "i < STREAMS \<Longrightarrow> \<not> multi_selected 0 i"
  by (simp add: multi_selected_bit)

text \<open>A command changes the control fields only.\<close>

definition command_post :: "serial_state \<Rightarrow> serial_state \<Rightarrow> bool" where
  "command_post st st' \<longleftrightarrow>
     getchar_clients st' = getchar_clients st \<and> getchar_present st' = getchar_present st \<and>
     statemachine st' \<le> 3 \<and>
     (active_client st' \<in> {active_client st, -1} \<or>
       (0 \<le> active_client st' \<and> active_client st' < int (length (getchar_clients st)))) \<and>
     (\<forall>i < STREAMS. multi_selected (active_multiclients st') i \<longrightarrow>
        multi_selected (active_multiclients st) i \<or> i < length (getchar_clients st)) \<and>
     out_same st st'"

lemma command_post_ok: "in_wf st \<Longrightarrow> command_post st st' \<Longrightarrow> in_wf st' \<and> out_same st st'"
  unfolding command_post_def by (blast intro: in_wf_control)

lemma handle_escape_command:
  "c \<noteq> ESCAPE_CHAR \<Longrightarrow> \<exists>st'. handle_escape c st = Inr st' \<and> command_post st st'"
  by (simp add: handle_escape_def Let_def)
    (auto simp: command_post_def emit_out_def out_same_def client_digit_def multi_selected_0
      simp del: of_nat_diff intro: of_nat_0_le_iff)

lemma handle_escape_ok:
  assumes wf: "in_wf st" and p: "getchar_present st"
  shows "\<exists>st'. handle_escape c st = Inr st' \<and> in_wf st' \<and> out_same st st'"
proof (cases "c = ESCAPE_CHAR")
  case True
  then show ?thesis using give_machine_ok [OF wf p, of 0 c] by (auto simp: handle_escape_def)
next
  case False
  from handle_escape_command [OF this] command_post_ok [OF wf] show ?thesis by blast
qed

lemma handle_multi_command:
  assumes wf: "in_wf st" and "statemachine st = 3" and "getchar_present st"
  shows "\<exists>st'. handle_char c st = Inr st' \<and> command_post st st'"
proof (cases "client_digit c st")
  case True
  then have small: "unat c - 48 < 32" "unat c - 48 < length (getchar_clients st)"
    using wf by (auto simp: client_digit_def in_wf_def)
  with True assms(2,3) show ?thesis
    by (simp add: handle_char_def) (auto simp: command_post_def emit_out_def out_same_def multi_selected_set)
next
  case False
  with assms(2,3) show ?thesis
    by (simp add: handle_char_def) (auto simp: command_post_def emit_out_def out_same_def)
qed

lemma machine_same: "statemachine st = m \<Longrightarrow> st\<lparr>statemachine := m\<rparr> = st"
  by (cases st) simp

lemma handle_char_text:
  assumes "getchar_present st" and "statemachine st \<in> {0, 1}" and "\<not> (statemachine st = 1 \<and> c = ESCAPE_CHAR)"
  shows "handle_char c st = give_client_char c (st\<lparr>statemachine := (if line_end c then 1 else 0)\<rparr>)"
proof (cases "statemachine st = 0")
  case True
  then show ?thesis using assms(1) by (simp add: handle_char_def machine_same)
next
  case False
  then have 1: "statemachine st = 1" using assms(2) by simp
  then show ?thesis using assms(1,3) by (simp add: handle_char_def machine_same)
qed

lemma handle_char_ok:
  assumes wf: "in_wf st"
  shows "\<exists>st'. handle_char c st = Inr st' \<and> in_wf st' \<and> out_same st st'"
proof (cases "getchar_present st")
  case False
  then show ?thesis using wf by (simp add: handle_char_def out_same_refl)
next
  case p: True
  have "statemachine st \<in> {0, 1, 2, 3}" using wf by (auto simp: in_wf_def)
  then consider (plain) "statemachine st \<in> {0, 1}" "\<not> (statemachine st = 1 \<and> c = ESCAPE_CHAR)"
    | (esc1) "statemachine st = 1" "c = ESCAPE_CHAR" | (esc) "statemachine st = 2" | (multi) "statemachine st = 3"
    by blast
  then show ?thesis
  proof cases
    case plain
    from give_machine_ok [OF wf p, of "if line_end c then 1 else 0" c] handle_char_text [OF p plain]
    show ?thesis by auto
  next
    case esc1
    then have "handle_char c st = Inr (st\<lparr>statemachine := 2\<rparr>)"
      using p by (simp add: handle_char_def line_end_def)
    with in_wf_machine [OF wf, of 2] show ?thesis by (simp add: out_same_def)
  next
    case esc
    then have "handle_char c st = handle_escape c st" using p by (simp add: handle_char_def)
    with handle_escape_ok [OF wf p] show ?thesis by simp
  next
    case multi
    from handle_multi_command [OF wf multi p] command_post_ok [OF wf] show ?thesis by blast
  qed
qed

section \<open>Executions\<close>

text \<open>The entry points, each run under the lock.\<close>

datatype serial_op =
    ProcessedPut nat cint
  | RawPut nat cint
  | Tick
  | Key u8

fun serial_do :: "serial_op \<Rightarrow> serial_state \<Rightarrow> serial_state outcome" where
  "serial_do (ProcessedPut n c) st = processed_putchar_putchar n c st"
| "serial_do (RawPut n c) st = raw_putchar_putchar n c st"
| "serial_do Tick st = timer_callback st"
| "serial_do (Key c) st = handle_char c st"

fun serial_run :: "serial_op list \<Rightarrow> serial_state \<Rightarrow> serial_state outcome" where
  "serial_run [] st = Inr st"
| "serial_run (op # ops) st = obind (serial_do op st) (serial_run ops)"

text \<open>The stream and the characters an operation writes.\<close>

fun op_stream :: "serial_op \<Rightarrow> nat" where
  "op_stream (ProcessedPut n c) = n"
| "op_stream (RawPut n c) = n + MAX_CLIENTS"
| "op_stream _ = 0"

fun op_chars :: "serial_op \<Rightarrow> u8 list" where
  "op_chars (ProcessedPut n c) = (if c = 10 then [CR] else []) @ [ucast c]"
| "op_chars (RawPut n c) = [ucast c]"
| "op_chars _ = []"

fun written :: "nat \<Rightarrow> serial_op list \<Rightarrow> u8 list" where
  "written b [] = []"
| "written b (op # ops) = (if op_stream op = b then op_chars op else []) @ written b ops"

definition coloured :: "serial_op \<Rightarrow> bool" where
  "coloured op \<longleftrightarrow> has_colour (op_stream op)"

definition serial_wf :: "serial_state \<Rightarrow> bool" where
  "serial_wf st \<longleftrightarrow> out_wf st \<and> in_wf st"

text \<open>What one operation does when it succeeds, and that it does when the buffer has room.\<close>

definition op_post :: "serial_op \<Rightarrow> serial_state \<Rightarrow> serial_state \<Rightarrow> bool" where
  "op_post op st st' \<longleftrightarrow> serial_wf st' \<and>
     (\<forall>b < STREAMS. stream b st' = stream b st @ (if op_stream op = b then op_chars op else []))"

lemma put_post_op:
  "serial_wf st \<Longrightarrow> put_post (op_stream op) (op_chars op) st st' \<Longrightarrow> op_post op st st'"
  by (auto simp: op_post_def put_post_def serial_wf_def in_wf_def)

lemma kept_op:
  "serial_wf st \<Longrightarrow> kept st st' \<Longrightarrow> op_chars op = [] \<Longrightarrow> op_post op st st'"
  by (auto simp: op_post_def kept_def serial_wf_def in_wf_def)

lemma internal_putchar_Inr:
  assumes "out_wf st" and "has_colour b" and "internal_putchar b c st = Inr st'"
  shows "put_post b [ucast c] st st'"
proof -
  have b: "b < STREAMS" using assms(2) by (simp add: has_colour_def)
  have "output_buffers_used st ! b < CLIENT_OUTPUT_BUFFER_SIZE"
    using internal_putchar_full [OF assms(1) b] assms(3) out_wfD(4) [OF assms(1) b]
    by (metis Inl_Inr_False le_neq_implies_less)
  from internal_putchar_ok [OF assms(1,2) this, of c] assms(3) show ?thesis by auto
qed

lemma processed_putchar_Inr:
  assumes "out_wf st" and "has_colour n" and "processed_putchar_putchar n c st = Inr st'"
  shows "put_post n (op_chars (ProcessedPut n c)) st st'"
proof (cases "c = 10")
  case True
  then obtain st1 where 1: "internal_putchar n 13 st = Inr st1" "internal_putchar n c st1 = Inr st'"
    using assms(3) by (auto simp: processed_putchar_putchar_def obind_eq_Inr)
  note p = internal_putchar_Inr [OF assms(1,2) 1(1)]
  then have "out_wf st1" by (simp add: put_post_def)
  from put_post_trans [OF p internal_putchar_Inr [OF this assms(2) 1(2)]] True show ?thesis by simp
next
  case False
  then show ?thesis
    using internal_putchar_Inr [OF assms(1,2)] assms(3) by (simp add: processed_putchar_putchar_def)
qed

lemma serial_do_post:
  assumes wf: "serial_wf st" and col: "coloured op" and run: "serial_do op st = Inr st'"
  shows "op_post op st st'"
proof -
  have o: "out_wf st" and i: "in_wf st" using wf by (simp_all add: serial_wf_def)
  show ?thesis
  proof (cases op)
    case (ProcessedPut n c)
    with processed_putchar_Inr [OF o] put_post_op [OF wf, of op] col run show ?thesis
      by (simp add: coloured_def)
  next
    case (RawPut n c)
    with internal_putchar_Inr [OF o, of "n + MAX_CLIENTS"] put_post_op [OF wf, of op] col run show ?thesis
      by (simp add: coloured_def raw_putchar_putchar_def)
  next
    case Tick
    with timer_callback_ok [OF o] kept_op [OF wf, of st' op] run show ?thesis by auto
  next
    case (Key c)
    from handle_char_ok [OF i, of c] run Key have "in_wf st'" "out_same st st'" by auto
    with out_same_wf [OF _ o] Key show ?thesis by (simp add: op_post_def serial_wf_def)
  qed
qed

lemma serial_run_post:
  assumes "serial_wf st" and "list_all coloured ops" and "serial_run ops st = Inr st'"
  shows "serial_wf st' \<and> (\<forall>b < STREAMS. stream b st' = stream b st @ written b ops)"
  using assms
proof (induction ops arbitrary: st)
  case Nil
  then show ?case by simp
next
  case (Cons op ops)
  then obtain st1 where 1: "serial_do op st = Inr st1" "serial_run ops st1 = Inr st'"
    by (auto simp: obind_eq_Inr)
  have post: "op_post op st st1" using serial_do_post [OF Cons.prems(1) _ 1(1)] Cons.prems(2) by simp
  with Cons.IH [OF _ _ 1(2)] Cons.prems(2) show ?case by (auto simp: op_post_def)
qed

lemma serial_static_wf: "serial_wf serial_static"
  using multi_selected_0
  by (auto simp: serial_wf_def out_wf_def in_wf_def serial_static_def)

subsection \<open>A stream without line breaks\<close>

text \<open>\<open>fill n st\<close>: \<open>n\<close> letters have been written to stream 0 and nothing was printed.\<close>

definition fill :: "nat \<Rightarrow> serial_state \<Rightarrow> bool" where
  "fill n st \<longleftrightarrow> out_wf st \<and> output_buffers_used st = (replicate STREAMS 0)[0 := n] \<and>
     pending 0 st = replicate n 97 \<and> active_client st = 0 \<and> last_out st \<in> {-1, 0} \<and>
     (n \<noteq> CLIENT_OUTPUT_BUFFER_SIZE \<longrightarrow> last_out st = -1)"

lemma fill_pending: "fill n st \<Longrightarrow> b < STREAMS \<Longrightarrow> \<not> has_newline (pending b st)"
  by (cases "b = 0") (auto simp: fill_def has_newline_def pending_def)

lemma fill_buf:
  assumes "fill n st" and "k < n"
  shows "output_buffers st ! 0 ! k = 97"
proof -
  have "pending 0 st = take n (output_buffers st ! 0)"
    using assms(1) by (simp add: fill_def pending_def)
  then have "take n (output_buffers st ! 0) = replicate n 97" using assms(1) by (simp add: fill_def)
  then have "take n (output_buffers st ! 0) ! k = 97" using assms(2) by simp
  with assms(2) show ?thesis by simp
qed

lemma fill_step_state:
  assumes "fill n st" and "n < CLIENT_OUTPUT_BUFFER_SIZE"
  shows "fill (n + 1) (st\<lparr>output_buffers := (output_buffers st)[0 := (output_buffers st ! 0)[n := 97]],
    output_buffers_used := (output_buffers_used st)[0 := n + 1], output_buffer_bitmask := m, has_data := h\<rparr>)"
  using assms out_wfD [of st 0]
  by (auto simp: fill_def out_wf_def pending_def nth_list_update take_Suc_update has_colour_def
      replicate_append_same [symmetric])

lemma fill_overflow:
  assumes f: "fill CLIENT_OUTPUT_BUFFER_SIZE st" and "last_out st = -1"
  shows "\<exists>st'. flush_overflow 0 st = Inr st' \<and> fill CLIENT_OUTPUT_BUFFER_SIZE (st'\<lparr>has_data := True\<rparr>)"
proof -
  have wf: "out_wf st" and used: "output_buffers_used st = (replicate STREAMS 0)[0 := CLIENT_OUTPUT_BUFFER_SIZE]"
    using f by (simp_all add: fill_def)
  have no: "\<not> (\<exists>i < STREAMS. has_newline (pending i st))" using fill_pending [OF f] by blast
  from flush_all_lines_ok [OF wf] obtain r st1 where
    "flush_all_lines st = Inr (r, st1)" "r \<longleftrightarrow> (\<exists>i < STREAMS. has_newline (pending i st))" "\<not> r \<longrightarrow> st1 = st"
    by blast
  then have 1: "flush_all_lines st = Inr (False, st)" using no by simp
  have skip: "flush_buffers is st = Inr st" if "set is \<subseteq> {1..<STREAMS}" for "is"
    using that used by (induction "is") (auto simp: flush_buffer_def)
  have 2: "flush_buffers (filter (\<lambda>i. i \<noteq> 0) [0..<STREAMS]) st = Inr st"
    by (rule skip) (auto simp del: upt_rec_numeral)
  from select_colour_ok [OF wf, of 0] obtain st' where
    3: "select_colour 0 st = Inr st'" "kept st st'" "last_out st' = 0" "output_buffers st' = output_buffers st"
      "output_buffers_used st' = output_buffers_used st"
    by (auto simp: has_colour_def)
  have "flush_overflow 0 st = Inr st'"
    using 1 2 3(1) assms(2) used by (simp add: flush_overflow_def Let_def del: upt_rec_numeral)
  moreover have "fill CLIENT_OUTPUT_BUFFER_SIZE (st'\<lparr>has_data := True\<rparr>)"
    using 3(2-5) f by (auto simp: fill_def kept_def out_wf_def pending_def)
  ultimately show ?thesis by blast
qed

lemma fill_putchar:
  assumes f: "fill n st" and n: "n < CLIENT_OUTPUT_BUFFER_SIZE"
  shows "\<exists>st'. internal_putchar 0 97 st = Inr st' \<and> fill (n + 1) st'"
proof -
  have d: "0 < length (output_buffers st)" "0 < length (output_buffers_used st)"
      "length (output_buffers st ! 0) = CLIENT_OUTPUT_BUFFER_SIZE" "output_buffers_used st ! 0 = n"
    using f by (auto simp: fill_def out_wf_def)
  define st1 where "st1 = st\<lparr>output_buffers := (output_buffers st)[0 := (output_buffers st ! 0)[n := ucast (97 :: cint)]],
                  output_buffers_used := (output_buffers_used st)[0 := n + 1]\<rparr>"
  have in_buf: "n < length (output_buffers st ! 0)" using d(3) n by simp
  have st1: "fill (n + 1) (st1\<lparr>output_buffer_bitmask := m, has_data := h\<rparr>)" for m h
    using fill_step_state [OF f n] by (simp add: st1_def)
  have f1: "fill (n + 1) st1"
    using st1 [where m = "output_buffer_bitmask st1" and h = "has_data st1"] by simp
  have last: "last_out st1 = -1" and act: "active_client st1 = 0" "output_buffers_used st1 ! 0 = n + 1"
    using f n d(2) by (auto simp: st1_def fill_def)
  have nl: "\<not> (1 \<le> n \<and> is_newline (output_buffers st1 ! 0) (n - 1))"
    using fill_buf [OF f1] by (auto simp: is_newline_def)
  have run: "internal_putchar 0 97 st =
      obind (if n + 1 = CLIENT_OUTPUT_BUFFER_SIZE then flush_overflow 0 st1
             else Inr (st1\<lparr>output_buffer_bitmask := set_out_bit 0 (output_buffer_bitmask st1)\<rparr>))
        (\<lambda>st3. Inr (st3\<lparr>has_data := True\<rparr>))"
    unfolding internal_putchar_def nth_ok_in [OF d(1)] nth_ok_in [OF d(2)] obind_Inr d(4)
      upd_ok_in [OF in_buf] Let_def st1_def [symmetric]
    using last act nl by auto
  show ?thesis
  proof (cases "n + 1 = CLIENT_OUTPUT_BUFFER_SIZE")
    case True
    with fill_overflow [of st1] f1 last run show ?thesis by auto
  next
    case False
    with run st1 show ?thesis by auto
  qed
qed

lemma fill_all:
  assumes "fill n st" and "n + k \<le> CLIENT_OUTPUT_BUFFER_SIZE"
  shows "\<exists>st'. put_all (\<lambda>c. internal_putchar 0 (ucast c)) (replicate k 97) st = Inr st' \<and> fill (n + k) st'"
  using assms
proof (induction k arbitrary: n st)
  case 0
  then show ?case by simp
next
  case (Suc k)
  from fill_putchar [OF Suc.prems(1)] Suc.prems(2) obtain st1 where
    1: "internal_putchar 0 97 st = Inr st1" "fill (n + 1) st1" by auto
  from Suc.IH [OF 1(2)] Suc.prems(2) 1(1) show ?case by simp
qed

lemma put_all_append:
  "put_all put (xs @ ys) st = obind (put_all put xs st) (put_all put ys)"
proof (induction xs arbitrary: st)
  case (Cons x xs)
  then show ?case by (cases "put x st") simp_all
qed simp

lemma put_post_used:
  assumes "put_post b cs st st'" and "k < STREAMS" and "k \<noteq> b"
  shows "output_buffers_used st' ! k \<le> output_buffers_used st ! k"
proof -
  have "output_buffers_used st' ! k \<le> output_buffers_used st ! k + (if k = b then length cs else 0)"
    using assms(1,2) by (simp add: put_post_def)
  with assms(3) show ?thesis by simp
qed

section \<open>Properties\<close>

text \<open>
  C7. No character is lost, duplicated or reordered: after any sequence of character writes,
  heartbeats and keystrokes that runs without fault, what was printed for a stream followed by
  what waits in its buffer is exactly what was written to it, in order, coalesced or not.
\<close>

theorem serial_output_conserved:
  assumes "serial_wf st" and "list_all coloured ops" and "serial_run ops st = Inr st'"
  shows "serial_wf st' \<and> (\<forall>b < STREAMS. stream b st' = stream b st @ written b ops)"
  using assms by (rule serial_run_post)

theorem serial_output_conserved_witness:
  "\<exists>st'. serial_run [ProcessedPut 0 72, Key 65, RawPut 1 73, Tick] serial_static = Inr st' \<and>
     stream 0 st' = [72] \<and> stream 13 st' = [73]"
proof -
  let ?ops = "[ProcessedPut 0 72, Key 65, RawPut 1 73, Tick]"
  have "stream b serial_static = []" if "b < STREAMS" for b
    using that by (simp add: stream_def pending_def serial_static_def)
  moreover have "\<exists>st'. serial_run ?ops serial_static = Inr st'"
  proof -
    have wf: "out_wf serial_static" using serial_static_wf by (simp add: serial_wf_def)
    have u: "output_buffers_used serial_static ! b = 0" if "b < STREAMS" for b
      using that by (simp add: serial_static_def)
    from internal_putchar_ok [OF wf, of 0 72] u obtain s1 where
      1: "internal_putchar 0 72 serial_static = Inr s1" "put_post 0 [72] serial_static s1"
      by (auto simp: has_colour_def)
    have p: "\<not> getchar_present s1" "out_wf s1" "output_buffers_used s1 ! 13 = 0"
      using 1(2) u [of 13] put_post_used [OF 1(2), of 13]
      by (simp_all add: put_post_def) (simp add: serial_static_def)
    from internal_putchar_ok [OF p(2), of 13 73] p(3) obtain s2 where
      2: "internal_putchar 13 73 s1 = Inr s2" "out_wf s2" by (auto simp: has_colour_def put_post_def)
    from timer_callback_ok [OF 2(2)] 1(1) 2(1) p(1) show ?thesis
      by (auto simp: processed_putchar_putchar_def raw_putchar_putchar_def handle_char_def)
  qed
  ultimately show ?thesis
    using serial_output_conserved [OF serial_static_wf, of ?ops] by (auto simp: coloured_def has_colour_def)
qed



text \<open>
  The buffer of a stream is not protected: after 4096 characters without a line break and
  without a heartbeat the buffer is full and stays full (only the other streams are flushed),
  and the next character is written outside it.
\<close>

theorem serial_putchar_overflows:
  "put_all (\<lambda>c. internal_putchar 0 (ucast c)) (replicate 4096 97 @ [97]) serial_static = Inl OutOfBounds"
proof -
  have "(replicate STREAMS 0)[0 := 0] = replicate STREAMS (0 :: nat)"
    by (simp add: list_update_same_conv)
  then have "fill 0 serial_static"
    using serial_static_wf by (simp add: fill_def serial_wf_def serial_static_def pending_def)
  from fill_all [OF this, of 4096] obtain st' where
    1: "put_all (\<lambda>c. internal_putchar 0 (ucast c)) (replicate 4096 97) serial_static = Inr st'" "fill 4096 st'"
    by auto
  have "output_buffers_used st' = (replicate STREAMS 0)[0 := 4096]" "out_wf st'"
    using 1(2) by (simp_all add: fill_def)
  then have "internal_putchar 0 97 st' = Inl OutOfBounds"
    by (intro internal_putchar_full) simp_all
  with 1(1) show ?thesis unfolding put_all_append by simp
qed



lemma text_delivered:
  assumes "in_wf st" and "getchar_present st" and "statemachine st \<in> {0, 1}"
    and "active_client st = int k" and "ESCAPE_CHAR \<notin> set s"
    and "length (client_chars k st) + length s < GETCHAR_BUF" and "k < length (getchar_clients st)"
  shows "\<exists>st'. handle_chars s st = Inr st' \<and> in_wf st' \<and> out_same st st' \<and>
    length (getchar_clients st') = length (getchar_clients st) \<and>
    client_chars k st' = client_chars k st @ s \<and> active_client st' = int k \<and>
    (\<forall>j < length (getchar_clients st). j \<noteq> k \<longrightarrow> client_chars j st' = client_chars j st)"
  using assms
proof (induction s arbitrary: st)
  case Nil
  then show ?case by (simp add: out_same_refl)
next
  case (Cons c s)
  let ?m = "if line_end c then 1 else 0 :: nat"
  have run: "handle_char c st = give_client_char c (st\<lparr>statemachine := ?m\<rparr>)"
    using Cons.prems(2,3,5) by (intro handle_char_text) auto
  have recv: "receivers st = {k}" using Cons.prems(4) by (simp add: receivers_def)
  have m: "?m \<le> 3" "?m \<in> {0, 1}" by auto
  obtain st1 where
    1: "give_client_char c (st\<lparr>statemachine := ?m\<rparr>) = Inr st1" "statemachine st1 = ?m" "in_wf st1"
      "out_same st st1" "getchar_present st1" "active_client st1 = active_client st"
      "length (getchar_clients st1) = length (getchar_clients st)"
      "\<forall>j < length (getchar_clients st). client_chars j st1 = client_chars j st @
        (if j \<in> receivers st \<and> length (client_chars j st) < GETCHAR_BUF - 1 then [c] else [])"
    using give_machine_ok [OF Cons.prems(1,2) m(1), of c] by blast
  have k1: "client_chars k st1 = client_chars k st @ [c]"
    using 1(8) Cons.prems(6,7) recv by simp
  have "length (client_chars k st1) + length s < GETCHAR_BUF" using k1 Cons.prems(6) by simp
  then obtain st' where
    2: "handle_chars s st1 = Inr st'" "in_wf st'" "out_same st1 st'"
      "length (getchar_clients st') = length (getchar_clients st1)"
      "client_chars k st' = client_chars k st1 @ s" "active_client st' = int k"
      "\<forall>j < length (getchar_clients st1). j \<noteq> k \<longrightarrow> client_chars j st' = client_chars j st1"
    using Cons.IH [OF 1(3,5)] 1(2,6,7) m(2) Cons.prems(4,5,7) by auto
  have "handle_chars (c # s) st = Inr st'" using run 1(1) 2(1) by simp
  then show ?case
    using 2 k1 1(7,8) recv out_same_trans [OF 1(4) 2(3)] by (intro exI [of _ st']) auto
qed

text \<open>A system with two clients that read characters, used in the examples.\<close>

definition demo_serial :: serial_state where
  "demo_serial = projr (pre_init (Some
     [(0, \<lparr>cb_head = 0, cb_tail = 0, cb_buf = replicate GETCHAR_BUF 0\<rparr>),
      (1, \<lparr>cb_head = 5, cb_tail = 5, cb_buf = replicate GETCHAR_BUF 0\<rparr>)]))"

lemma demo_serial_ok:
  "in_wf demo_serial" "getchar_present demo_serial" "statemachine demo_serial = 1"
  "active_client demo_serial = 0" "length (getchar_clients demo_serial) = 2"
  "client_chars 0 demo_serial = []" "client_chars 1 demo_serial = []"
  using multi_selected_0
  by (simp_all add: demo_serial_def pre_init_def in_wf_def serial_static_def client_chars_def cb_wf_def
      cb_items_def ring_items_def ring_count_def)

text \<open>
  Text that contains no escape character reaches the active client unchanged and in
  order, as long as its ring has room, and no other client; output is not affected.
\<close>

theorem serial_text_delivered:
  assumes "in_wf st" and "getchar_present st" and "statemachine st \<in> {0, 1}"
    and "active_client st = int k" and "k < length (getchar_clients st)" and "ESCAPE_CHAR \<notin> set s"
    and "length (client_chars k st) + length s < GETCHAR_BUF"
  shows "\<exists>st'. handle_chars s st = Inr st' \<and> in_wf st' \<and> client_chars k st' = client_chars k st @ s \<and>
    (\<forall>j < length (getchar_clients st). j \<noteq> k \<longrightarrow> client_chars j st' = client_chars j st) \<and>
    (\<forall>b. stream b st' = stream b st)"
proof -
  from text_delivered [OF assms(1-4,6,7,5)] obtain st' where
    "handle_chars s st = Inr st'" "in_wf st'" "out_same st st'" "client_chars k st' = client_chars k st @ s"
    "\<forall>j < length (getchar_clients st). j \<noteq> k \<longrightarrow> client_chars j st' = client_chars j st" by blast
  then show ?thesis by (auto simp: out_same_def stream_def pending_def)
qed

theorem serial_text_delivered_witness:
  "\<exists>st'. handle_chars [104, 105, 13] demo_serial = Inr st' \<and> client_chars 0 st' = [104, 105, 13] \<and>
     client_chars 1 st' = []"
  using serial_text_delivered [of demo_serial 0 "[104, 105, 13]"] demo_serial_ok by auto

text \<open>
  At the start of a line, the escape character followed by the digit of a client makes
  that client active and delivers nothing; followed by itself it is delivered once.
\<close>

theorem serial_escape_commands:
  assumes "in_wf st" and "getchar_present st" and "statemachine st = 1"
    and "d < length (getchar_clients st)" and "d < 10"
  shows "(\<exists>st'. handle_chars [ESCAPE_CHAR, of_nat (48 + d)] st = Inr st' \<and> active_client st' = int d \<and>
      statemachine st' = 1 \<and> getchar_clients st' = getchar_clients st) \<and>
    (\<exists>st'. handle_chars [ESCAPE_CHAR, ESCAPE_CHAR] st = Inr st' \<and> statemachine st' = 0 \<and>
      active_client st' = active_client st \<and>
      (\<forall>k < length (getchar_clients st). client_chars k st' = client_chars k st @
        (if k \<in> receivers st \<and> length (client_chars k st) < GETCHAR_BUF - 1 then [ESCAPE_CHAR] else [])))"
proof
  have c1: "handle_char ESCAPE_CHAR st = Inr (st\<lparr>statemachine := 2\<rparr>)"
    using assms(2,3) by (simp add: handle_char_def line_end_def)
  let ?c = "of_nat (48 + d) :: u8"
  have "unat ?c = 48 + d" using assms(5) by (simp only: unat_of_nat) simp
  moreover from this have "?c \<noteq> ESCAPE_CHAR" "?c \<noteq> 109" "?c \<noteq> 100" "?c \<noteq> 115" "?c \<noteq> 63"
    using assms(5) by (auto simp: word_unat_eq_iff simp del: of_nat_add)
  ultimately have "handle_escape ?c (st\<lparr>statemachine := 2\<rparr>) =
      Inr ((emit_out [Notice (SwitchedTo d)] (st\<lparr>last_out := -1, statemachine := 1\<rparr>))\<lparr>active_client := int d\<rparr>)"
    using assms(4) by (simp add: handle_escape_def client_digit_def emit_out_def Let_def del: of_nat_add)
  moreover have "handle_char ?c (st\<lparr>statemachine := 2\<rparr>) = handle_escape ?c (st\<lparr>statemachine := 2\<rparr>)"
    using assms(2) by (simp add: handle_char_def)
  ultimately have "handle_chars [ESCAPE_CHAR, ?c] st =
      Inr ((emit_out [Notice (SwitchedTo d)] (st\<lparr>last_out := -1, statemachine := 1\<rparr>))\<lparr>active_client := int d\<rparr>)"
    using c1 by (simp del: of_nat_add)
  then show "\<exists>st'. handle_chars [ESCAPE_CHAR, ?c] st = Inr st' \<and> active_client st' = int d \<and>
      statemachine st' = 1 \<and> getchar_clients st' = getchar_clients st"
    by (auto simp: emit_out_def simp del: of_nat_add)
  from give_machine_ok [OF assms(1,2), of 0 ESCAPE_CHAR] c1 assms(2)
  show "\<exists>st'. handle_chars [ESCAPE_CHAR, ESCAPE_CHAR] st = Inr st' \<and> statemachine st' = 0 \<and>
      active_client st' = active_client st \<and>
      (\<forall>k < length (getchar_clients st). client_chars k st' = client_chars k st @
        (if k \<in> receivers st \<and> length (client_chars k st) < GETCHAR_BUF - 1 then [ESCAPE_CHAR] else []))"
    by (auto simp: handle_char_def handle_escape_def)
qed

theorem serial_escape_commands_witness:
  "\<exists>st'. handle_chars [ESCAPE_CHAR, 49] demo_serial = Inr st' \<and> active_client st' = 1"
  using serial_escape_commands [OF demo_serial_ok(1,2,3), of 1] demo_serial_ok(5) by auto

text \<open>
  C10. A batch call writes the characters of a sound ring to the stream of its sender, in
  order, exactly as that many single calls would, and leaves the ring empty; with a \<open>tail\<close>
  outside the ring it never returns, however long it runs.
\<close>

theorem serial_batch_drains:
  "(cb_wf cb \<longrightarrow>
     processed_batch_batch GETCHAR_BUF n cb st =
       obind (put_all (\<lambda>ch. processed_putchar_putchar n (scast ch)) (cb_items cb) st)
         (\<lambda>st'. Inr (cb\<lparr>cb_head := cb_tail cb\<rparr>, st')) \<and>
     raw_batch_batch GETCHAR_BUF n cb st =
       obind (put_all (\<lambda>ch. raw_putchar_putchar n (scast ch)) (cb_items cb) st)
         (\<lambda>st'. Inr (cb\<lparr>cb_head := cb_tail cb\<rparr>, st'))) \<and>
   (unat (cb_head cb) < GETCHAR_BUF \<and> GETCHAR_BUF \<le> unat (cb_tail cb) \<longrightarrow>
     processed_batch_batch fuel n cb st \<noteq> Inr r \<and> raw_batch_batch fuel n cb st \<noteq> Inr r)"
proof (intro conjI impI)
  assume wf: "cb_wf cb"
  have fuel: "length (cb_items cb) \<le> GETCHAR_BUF" using cb_items_length [OF wf] by simp
  have lf: "(scast ch :: u32) = 10 \<longleftrightarrow> ch = LF" for ch :: u8
  proof
    have inj: "scast (scast ch :: u32) = ch"
    proof (rule bit_word_eqI)
      fix m assume "m < LENGTH(8)"
      then have "m = 7 \<or> m < 7" by auto
      then show "bit (scast (scast ch :: u32) :: u8) m = bit ch m" by (auto simp: bit_simps min_def)
    qed
    assume "(scast ch :: u32) = 10"
    then show "ch = LF" using inj by simp
  qed simp
  have body: "(\<lambda>ch st. obind (if ch = LF then internal_putchar n 13 st else Inr st)
      (internal_putchar n (scast ch))) = (\<lambda>ch. processed_putchar_putchar n (scast ch))"
    by (intro ext) (simp add: processed_putchar_putchar_def lf)
  have rbody: "(\<lambda>ch. internal_putchar (n + MAX_CLIENTS) (scast ch)) = (\<lambda>ch. raw_putchar_putchar n (scast ch))"
    by (intro ext) (simp add: raw_putchar_putchar_def)
  show "processed_batch_batch GETCHAR_BUF n cb st =
       obind (put_all (\<lambda>ch. processed_putchar_putchar n (scast ch)) (cb_items cb) st)
         (\<lambda>st'. Inr (cb\<lparr>cb_head := cb_tail cb\<rparr>, st'))"
    unfolding processed_batch_batch_def batch_loop_ok [OF wf fuel] body ..
  show "raw_batch_batch GETCHAR_BUF n cb st =
       obind (put_all (\<lambda>ch. raw_putchar_putchar n (scast ch)) (cb_items cb) st)
         (\<lambda>st'. Inr (cb\<lparr>cb_head := cb_tail cb\<rparr>, st'))"
    unfolding raw_batch_batch_def batch_loop_ok [OF wf fuel] rbody ..
next
  assume "unat (cb_head cb) < GETCHAR_BUF \<and> GETCHAR_BUF \<le> unat (cb_tail cb)"
  then show "processed_batch_batch fuel n cb st \<noteq> Inr r" "raw_batch_batch fuel n cb st \<noteq> Inr r"
    using batch_loop_stuck by (simp_all add: processed_batch_batch_def raw_batch_batch_def)
qed

theorem serial_batch_drains_witness:
  "processed_batch_batch GETCHAR_BUF 2 \<lparr>cb_head = 7, cb_tail = 7, cb_buf = replicate GETCHAR_BUF 0\<rparr> serial_static =
     Inr (\<lparr>cb_head = 7, cb_tail = 7, cb_buf = replicate GETCHAR_BUF 0\<rparr>, serial_static) \<and>
   isl (raw_batch_batch 100 2 \<lparr>cb_head = 0, cb_tail = 5000, cb_buf = replicate GETCHAR_BUF 0\<rparr> serial_static)"
proof -
  let ?cb = "\<lparr>cb_head = 0, cb_tail = 5000, cb_buf = replicate GETCHAR_BUF 0\<rparr> :: client_buffer"
  have "raw_batch_batch 100 2 ?cb serial_static \<noteq> Inr r" for r
    using serial_batch_drains [of ?cb 2 serial_static 100 r] by simp
  then have "isl (raw_batch_batch 100 2 ?cb serial_static)"
    by (cases "raw_batch_batch 100 2 ?cb serial_static") auto
  then show ?thesis
    using serial_batch_drains [of "\<lparr>cb_head = 7, cb_tail = 7, cb_buf = replicate GETCHAR_BUF 0\<rparr>" 2 serial_static]
    by (simp add: cb_wf_def cb_items_def ring_items_def ring_count_def)
qed

text \<open>
  Of the 24 streams, exactly 11, 22 and 23 have no usable colour: their output cannot be
  printed without following a null or a wild pointer.
\<close>

theorem serial_streams_without_colour:
  "filter (\<lambda>b. isl (colour_of b)) [0..<STREAMS] = [11, 22, 23]"
  by code_simp

end
