(* ===== verification/SerialVq.thy ===== *)
theory SerialVq
  imports Prelude
begin

text \<open>
  The asynchronous interface of the SerialServer, \<open>components/SerialServer/src/server_virtqueue.c\<close>:
  clients queue requests to read or write, the server hands a buffer of its own to the character
  device, and the device's callback completes the request. Each direction has one token for the
  request under way.

  The virtqueue library and the character device (libplatsupport) are parameters. The lock of the
  serial server is held throughout every entry point and is left out, as are log messages.
\<close>

section \<open>State\<close>

datatype virtqueue_op = VQ_SERIAL_READ | VQ_SERIAL_WRITE

record vq_token =
  tk_vq :: virtqueue_op
  virtqueue_handle :: u32
  serial_buf :: "u64 option"
  buf_size :: nat

text \<open>\<open>heap\<close> holds the allocated blocks; \<open>notified\<close> records the notifications of the queues.\<close>

record 'v vq_serial =
  read_virtqueue :: 'v
  write_virtqueue :: 'v
  write_in_progress :: int
  read_in_progress :: int
  current_read_vq_token :: vq_token
  current_write_vq_token :: vq_token
  vq_heap :: "u64 \<Rightarrow> u8 list option"
  notified :: "virtqueue_op list"

text \<open>The library on the device side of a queue: \<open>scatter_copy\<close> writes bytes into an entry, \<open>gather_copy\<close>
  reads them from it.\<close>

record 'v vq_device_lib =
  VQ_DEV_POLL :: "'v \<Rightarrow> bool"
  get_available_buf :: "'v \<Rightarrow> (u32 \<times> 'v) option"
  scattered_available_size :: "'v \<Rightarrow> u32 \<Rightarrow> nat"
  add_used_entry :: "'v \<Rightarrow> u32 \<Rightarrow> nat \<Rightarrow> 'v"
  scatter_copy_buffer :: "'v \<Rightarrow> u32 \<Rightarrow> u8 list \<Rightarrow> int \<times> 'v"
  gather_copy_buffer :: "'v \<Rightarrow> u32 \<Rightarrow> nat \<Rightarrow> u8 list \<times> 'v"

definition the_vq :: "virtqueue_op \<Rightarrow> 'v vq_serial \<Rightarrow> 'v" where
  "the_vq op sv = (case op of VQ_SERIAL_READ \<Rightarrow> read_virtqueue sv | VQ_SERIAL_WRITE \<Rightarrow> write_virtqueue sv)"

definition set_vq :: "virtqueue_op \<Rightarrow> 'v \<Rightarrow> 'v vq_serial \<Rightarrow> 'v vq_serial" where
  "set_vq op q sv =
     (case op of VQ_SERIAL_READ \<Rightarrow> sv\<lparr>read_virtqueue := q\<rparr> | VQ_SERIAL_WRITE \<Rightarrow> sv\<lparr>write_virtqueue := q\<rparr>)"

definition free :: "u64 \<Rightarrow> 'v vq_serial \<Rightarrow> 'v vq_serial outcome" where
  "free p sv = (if vq_heap sv p = None then Inl UseAfterFree else Inr (sv\<lparr>vq_heap := (vq_heap sv)(p := None)\<rparr>))"

section \<open>Completion\<close>

definition write_callback :: "'v vq_serial \<Rightarrow> 'v vq_serial outcome" where
  "write_callback sv =
     (case serial_buf (current_write_vq_token sv) of
        None \<Rightarrow> Inr sv
      | Some p \<Rightarrow>
          obind (free p (sv\<lparr>notified := notified sv @ [tk_vq (current_write_vq_token sv)]\<rparr>)) (\<lambda>sv'.
            Inr (sv'\<lparr>current_write_vq_token := (current_write_vq_token sv')\<lparr>serial_buf := None\<rparr>,
                     write_in_progress := 0\<rparr>)))"

text \<open>The bytes copied are the first \<open>buf_size\<close> of the block.\<close>

definition read_callback :: "'v vq_device_lib \<Rightarrow> 'v vq_serial \<Rightarrow> 'v vq_serial outcome" where
  "read_callback L sv =
     (let tok = current_read_vq_token sv
      in case serial_buf tok of
           None \<Rightarrow> Inr sv
         | Some p \<Rightarrow>
             (case vq_heap sv p of
                None \<Rightarrow> Inl UseAfterFree
              | Some bytes \<Rightarrow>
                  obind (ensure (buf_size tok \<le> length bytes) OutOfBounds) (\<lambda>_.
                  let (err, q) = scatter_copy_buffer L (the_vq (tk_vq tok) sv) (virtqueue_handle tok) (take (buf_size tok) bytes);
                      sv1 = set_vq (tk_vq tok) q sv
                  in obind (free p (sv1\<lparr>notified := notified sv1 @ [tk_vq tok]\<rparr>)) (\<lambda>sv2.
                       Inr (sv2\<lparr>current_read_vq_token := (current_read_vq_token sv2)\<lparr>serial_buf := None\<rparr>,
                                read_in_progress := 0\<rparr>)))))"

section \<open>Requests\<close>

text \<open>\<open>alloc\<close> is the result of \<open>calloc\<close>, \<open>plat\<close> what \<open>plat_serial_read\<close> or \<open>plat_serial_write\<close> returns, given the
  bytes to write.\<close>

definition handle_virtqueue_message ::
  "'v vq_device_lib \<Rightarrow> u64 option \<Rightarrow> (u8 list \<Rightarrow> int) \<Rightarrow> u32 \<Rightarrow> virtqueue_op \<Rightarrow> 'v vq_serial \<Rightarrow> 'v vq_serial outcome" where
  "handle_virtqueue_message L alloc plat handle op sv =
     (let vq = the_vq op sv; sz = scattered_available_size L vq handle
      in case alloc of
           None \<Rightarrow> Inr (set_vq op (add_used_entry L vq handle 0) sv)
         | Some p \<Rightarrow>
             let tok = \<lparr>tk_vq = op, virtqueue_handle = handle, serial_buf = Some p, buf_size = sz\<rparr>
             in (case op of
                   VQ_SERIAL_READ \<Rightarrow>
                     let bytes = replicate sz 0;
                         sv1 = sv\<lparr>vq_heap := (vq_heap sv)(p \<mapsto> bytes), current_read_vq_token := tok\<rparr>
                     in if plat bytes < 0 then
                          obind (free p sv1) (\<lambda>sv2. Inr (set_vq op (add_used_entry L (the_vq op sv2) handle 0) sv2))
                        else Inr sv1
                 | VQ_SERIAL_WRITE \<Rightarrow>
                     let (data, q) = gather_copy_buffer L vq handle sz;
                         bytes = take sz (data @ replicate sz 0);
                         sv1 = (set_vq op q sv)\<lparr>vq_heap := (vq_heap sv)(p \<mapsto> bytes), current_write_vq_token := tok\<rparr>
                     in if plat bytes < 0 then
                          obind (free p sv1) (\<lambda>sv2. Inr (set_vq op (add_used_entry L (the_vq op sv2) handle 0) sv2))
                        else Inr sv1))"

definition handle_virtqueue_callback ::
  "'v vq_device_lib \<Rightarrow> u64 option \<Rightarrow> (u8 list \<Rightarrow> int) \<Rightarrow> virtqueue_op \<Rightarrow> 'v vq_serial \<Rightarrow> 'v vq_serial outcome" where
  "handle_virtqueue_callback L alloc plat op sv =
     (case get_available_buf L (the_vq op sv) of
        None \<Rightarrow> Inr sv
      | Some (handle, q) \<Rightarrow> handle_virtqueue_message L alloc plat handle op (set_vq op q sv))"

definition serial_read_wait_callback ::
  "'v vq_device_lib \<Rightarrow> u64 option \<Rightarrow> (u8 list \<Rightarrow> int) \<Rightarrow> 'v vq_serial \<Rightarrow> 'v vq_serial outcome" where
  "serial_read_wait_callback L alloc plat sv =
     (if VQ_DEV_POLL L (read_virtqueue sv) then
        handle_virtqueue_callback L alloc plat VQ_SERIAL_READ (sv\<lparr>read_in_progress := 1\<rparr>)
      else Inr sv)"

definition serial_write_wait_callback ::
  "'v vq_device_lib \<Rightarrow> u64 option \<Rightarrow> (u8 list \<Rightarrow> int) \<Rightarrow> 'v vq_serial \<Rightarrow> 'v vq_serial outcome" where
  "serial_write_wait_callback L alloc plat sv =
     (if VQ_DEV_POLL L (write_virtqueue sv) then
        handle_virtqueue_callback L alloc plat VQ_SERIAL_WRITE (sv\<lparr>write_in_progress := 1\<rparr>)
      else Inr sv)"

text \<open>\<open>virtqueue_init\<close>: both queues are initialised whatever the first call returns, and the result is the
  second call's.\<close>

definition virtqueue_init :: "int \<Rightarrow> int \<Rightarrow> int" where
  "virtqueue_init read_error write_error = (let error = read_error; error = write_error in error)"

text \<open>The device stores what it received in the block it was given.\<close>

definition device_store :: "u64 \<Rightarrow> u8 list \<Rightarrow> 'v vq_serial \<Rightarrow> 'v vq_serial" where
  "device_store p bytes sv = sv\<lparr>vq_heap := (vq_heap sv)(p := map_option (\<lambda>old. bytes @ drop (length bytes) old) (vq_heap sv p))\<rparr>"

section \<open>Properties\<close>

named_theorems serial_vq_defs "the operations on requests"

lemmas [serial_vq_defs] = serial_read_wait_callback_def serial_write_wait_callback_def handle_virtqueue_callback_def
  handle_virtqueue_message_def read_callback_def write_callback_def free_def the_vq_def set_vq_def device_store_def

text \<open>A small queue to apply the theorems to: the entries made available (handle and content), the ones
  returned, and what was written into them.\<close>

definition fifo_lib :: "((u32 \<times> u8 list) list \<times> (u32 \<times> u8 list) list) vq_device_lib" where
  "fifo_lib = \<lparr>VQ_DEV_POLL = (\<lambda>(av, us). av \<noteq> []),
     get_available_buf = (\<lambda>(av, us). case av of [] \<Rightarrow> None | (h, bs) # av' \<Rightarrow> Some (h, (av', us))),
     scattered_available_size = (\<lambda>q h. 2), add_used_entry = (\<lambda>(av, us) h n. (av, us @ [(h, [])])),
     scatter_copy_buffer = (\<lambda>(av, us) h bs. (0, (av, us @ [(h, bs)]))),
     gather_copy_buffer = (\<lambda>q h n. (replicate n 65, q))\<rparr>"

definition idle_serial :: "'v \<Rightarrow> 'v \<Rightarrow> 'v vq_serial" where
  "idle_serial r w = \<lparr>read_virtqueue = r, write_virtqueue = w, write_in_progress = 0, read_in_progress = 0,
     current_read_vq_token = \<lparr>tk_vq = VQ_SERIAL_READ, virtqueue_handle = 0, serial_buf = None, buf_size = 0\<rparr>,
     current_write_vq_token = \<lparr>tk_vq = VQ_SERIAL_WRITE, virtqueue_handle = 0, serial_buf = None, buf_size = 0\<rparr>,
     vq_heap = Map.empty, notified = []\<rparr>"

text \<open>
  C11. A read request that the device accepts is completed once: what the device received is copied to the
  entry the client queued, over its whole size, the client is notified once, and the heap, the token
  and the busy flag are as before the request; a second callback changes nothing.
\<close>
theorem serial_vq_read_completes:
  assumes "VQ_DEV_POLL L (read_virtqueue sv)" and "get_available_buf L (read_virtqueue sv) = Some (handle, q)"
    and "vq_heap sv p = None" and "0 \<le> plat (replicate n 0)" and "n = scattered_available_size L q handle"
    and "length bytes = n" and "scatter_copy_buffer L q handle bytes = (err, q')"
  shows "\<exists>sv1 sv2. serial_read_wait_callback L (Some p) plat sv = Inr sv1 \<and> read_in_progress sv1 = 1 \<and>
    read_callback L (device_store p bytes sv1) = Inr sv2 \<and>
    read_virtqueue sv2 = q' \<and> notified sv2 = notified sv @ [VQ_SERIAL_READ] \<and> vq_heap sv2 = vq_heap sv \<and>
    serial_buf (current_read_vq_token sv2) = None \<and> read_in_progress sv2 = 0 \<and>
    write_virtqueue sv2 = write_virtqueue sv \<and> current_write_vq_token sv2 = current_write_vq_token sv \<and>
    read_callback L sv2 = Inr sv2"
proof -
  let ?tok = "\<lparr>tk_vq = VQ_SERIAL_READ, virtqueue_handle = handle, serial_buf = Some p, buf_size = n\<rparr>"
  let ?sv1 = "sv\<lparr>read_in_progress := 1, read_virtqueue := q, vq_heap := (vq_heap sv)(p \<mapsto> replicate n 0), current_read_vq_token := ?tok\<rparr>"
  let ?sv2 = "sv\<lparr>read_in_progress := 0, read_virtqueue := q', notified := notified sv @ [VQ_SERIAL_READ],
    current_read_vq_token := ?tok\<lparr>serial_buf := None\<rparr>\<rparr>"
  have "serial_read_wait_callback L (Some p) plat sv = Inr ?sv1"
    using assms by (simp add: serial_vq_defs Let_def)
  moreover have "(vq_heap sv)(p := None) = vq_heap sv" using assms(3) by (simp add: fun_upd_idem)
  then have "read_callback L (device_store p bytes ?sv1) = Inr ?sv2"
    using assms(6,7) by (simp add: serial_vq_defs Let_def)
  ultimately show ?thesis
    by (intro exI [of _ ?sv1] exI [of _ ?sv2]) (simp add: read_callback_def)
qed

theorem serial_vq_read_completes_witness:
  "\<exists>sv1 sv2. serial_read_wait_callback fifo_lib (Some 64) (\<lambda>_. 0) (idle_serial ([(5, [])], []) ([], [])) = Inr sv1 \<and>
    read_callback fifo_lib (device_store 64 [72, 105] sv1) = Inr sv2 \<and> read_virtqueue sv2 = ([], [(5, [72, 105])])"
proof -
  let ?sv = "idle_serial ([(5, [])], []) ([], []) :: ((u32 \<times> u8 list) list \<times> (u32 \<times> u8 list) list) vq_serial"
  have 1: "VQ_DEV_POLL fifo_lib (read_virtqueue ?sv)" "get_available_buf fifo_lib (read_virtqueue ?sv) = Some (5, ([], []))"
    "vq_heap ?sv 64 = None" "0 \<le> (\<lambda>_ :: u8 list. 0 :: int) (replicate 2 0)" "2 = scattered_available_size fifo_lib ([], []) 5"
    "length [72, 105 :: u8] = 2" "scatter_copy_buffer fifo_lib ([], []) 5 [72, 105] = (0, ([], [(5, [72, 105])]))"
    by (simp_all add: fifo_lib_def idle_serial_def)
  from serial_vq_read_completes [OF 1] show ?thesis by blast
qed

text \<open>
  Requests are not held back while one is under way. If a second read request arrives before the
  first completes and the device refuses it, the completion of the first finds the token of the second,
  whose block is already freed: the callback reads freed memory, and the block of the first request is
  never freed.
\<close>
theorem serial_vq_overlap_use_after_free:
  assumes "VQ_DEV_POLL L (read_virtqueue sv)" and "get_available_buf L (read_virtqueue sv) = Some (handle1, q1)"
    and "0 \<le> plat1 (replicate (scattered_available_size L q1 handle1) 0)"
    and "VQ_DEV_POLL L q1" and "get_available_buf L q1 = Some (handle2, q2)"
    and "plat2 (replicate (scattered_available_size L q2 handle2) 0) < 0"
    and "p1 \<noteq> p2" and "vq_heap sv p1 = None" and "vq_heap sv p2 = None"
  shows "\<exists>sv1 sv2. serial_read_wait_callback L (Some p1) plat1 sv = Inr sv1 \<and>
    serial_read_wait_callback L (Some p2) plat2 sv1 = Inr sv2 \<and>
    read_callback L sv2 = Inl UseAfterFree \<and> vq_heap sv2 p1 \<noteq> None \<and> read_in_progress sv2 = 1"
  using assms by (simp add: serial_vq_defs Let_def)

theorem serial_vq_overlap_use_after_free_witness:
  "\<exists>sv1 sv2. serial_read_wait_callback fifo_lib (Some 64) (\<lambda>_. 0) (idle_serial ([(5, []), (6, [])], []) ([], [])) = Inr sv1 \<and>
    serial_read_wait_callback fifo_lib (Some 128) (\<lambda>_. - 1) sv1 = Inr sv2 \<and> read_callback fifo_lib sv2 = Inl UseAfterFree"
proof -
  let ?sv = "idle_serial ([(5, []), (6, [])], []) ([], []) :: ((u32 \<times> u8 list) list \<times> (u32 \<times> u8 list) list) vq_serial"
  let ?q1 = "([(6, [])], []) :: (u32 \<times> u8 list) list \<times> (u32 \<times> u8 list) list"
  have 1: "VQ_DEV_POLL fifo_lib (read_virtqueue ?sv)" "get_available_buf fifo_lib (read_virtqueue ?sv) = Some (5, ?q1)"
    "0 \<le> (\<lambda>_ :: u8 list. 0 :: int) (replicate (scattered_available_size fifo_lib ?q1 5) 0)"
    "VQ_DEV_POLL fifo_lib ?q1" "get_available_buf fifo_lib ?q1 = Some (6, ([], []))"
    "(\<lambda>_ :: u8 list. - 1 :: int) (replicate (scattered_available_size fifo_lib ([], []) 6) 0) < 0"
    "(64 :: u64) \<noteq> 128" "vq_heap ?sv 64 = None" "vq_heap ?sv 128 = None"
    by (simp_all add: fifo_lib_def idle_serial_def)
  from serial_vq_overlap_use_after_free [OF 1] show ?thesis by blast
qed

end
