(* ===== verification/TimeServer.thy ===== *)
theory TimeServer
  imports Prelude "HOL-Library.Signed_Division"
begin

text \<open>
  \<open>components/TimeServer/src/time_server.c\<close>: one hardware timer shared by several clients,
  each with \<open>timers_per_client\<close> timeouts. A timeout \<open>tid\<close> of client \<open>cid\<close> is known to
  the time manager by a token; when it fires, a bit of the client's word in
  \<open>client_state\<close> is set and the client is notified.

  The time manager and the hardware timer (libplatsupport) are not part of the repository:
  \<open>tm_ops\<close> are their functions on a state \<open>'tm\<close>. \<open>tm_update\<close> answers with the tokens
  whose callback it runs. The tests for \<open>time_server_lock\<close> are left out.
\<close>

section \<open>Data\<close>

record 'tm tm_ops =
  tm_register_rel_cb :: "u64 \<Rightarrow> u32 \<Rightarrow> 'tm \<Rightarrow> int \<times> 'tm"
  tm_register_abs_cb :: "u64 \<Rightarrow> u32 \<Rightarrow> 'tm \<Rightarrow> int \<times> 'tm"
  tm_register_periodic_cb :: "u64 \<Rightarrow> u32 \<Rightarrow> 'tm \<Rightarrow> int \<times> 'tm"
  tm_deregister_cb :: "u32 \<Rightarrow> 'tm \<Rightarrow> int \<times> 'tm"
  tm_update :: "'tm \<Rightarrow> int \<times> u64 list \<times> 'tm"
  tm_alloc_id_at :: "u32 \<Rightarrow> 'tm \<Rightarrow> int \<times> 'tm"
  ltimer_get_time :: "'tm \<Rightarrow> int \<times> u64"

record 'tm time_state =
  client_state :: "u32 list option"
  time_manager :: 'tm
  timer_emitted :: "int list"

abbreviation ETIME :: int where "ETIME \<equiv> 62"

section \<open>Tokens\<close>

definition get_time_token :: "int \<Rightarrow> int \<Rightarrow> int \<Rightarrow> u32" where
  "get_time_token tpc cid tid = of_int cid * of_int tpc + of_int tid"

text \<open>The division of two \<open>int\<close>s truncates; the shift of \<open>BIT\<close> is defined below 64.\<close>

definition signal_client :: "int \<Rightarrow> u64 \<Rightarrow> 'tm time_state \<Rightarrow> 'tm time_state outcome" where
  "signal_client tpc token st =
     (let t = sint (ucast token :: cint) in
      obind (ensure (tpc \<noteq> 0) Fatal) (\<lambda>_.
      let cid = t sdiv tpc; tid = t smod tpc in
      case client_state st of
        None \<Rightarrow> Inl AssertionFailed
      | Some cs \<Rightarrow>
          obind (ensure (0 \<le> cid \<and> nat cid < length cs) OutOfBounds) (\<lambda>_.
          obind (ensure (0 \<le> tid \<and> tid < 64) OutOfBounds) (\<lambda>_.
            Inr (st\<lparr>client_state := Some (cs[nat cid := ucast (ucast (cs ! nat cid) OR BIT (nat tid))]),
                    timer_emitted := timer_emitted st @ [cid + 1]\<rparr>)))))"

section \<open>Operations\<close>

definition current_time_ns :: "'tm tm_ops \<Rightarrow> 'tm time_state \<Rightarrow> u64 outcome" where
  "current_time_ns ops st =
     (let (error, time) = ltimer_get_time ops (time_manager st)
      in obind (ensure (error = 0) Fatal) (\<lambda>_. Inr time))"

fun signal_clients :: "int \<Rightarrow> u64 list \<Rightarrow> 'tm time_state \<Rightarrow> 'tm time_state outcome" where
  "signal_clients tpc [] st = Inr st"
| "signal_clients tpc (t # ts) st = obind (signal_client tpc t st) (signal_clients tpc ts)"

definition time_server_ltimer_handle ::
    "'tm tm_ops \<Rightarrow> int \<Rightarrow> 'tm time_state \<Rightarrow> 'tm time_state outcome" where
  "time_server_ltimer_handle ops tpc st =
     (let (error, tokens, tm) = tm_update ops (time_manager st)
      in obind (signal_clients tpc tokens (st\<lparr>time_manager := tm\<rparr>)) (\<lambda>st1.
         obind (ensure (error = 0) Fatal) (\<lambda>_. Inr st1)))"

definition valid_tid :: "int \<Rightarrow> int \<Rightarrow> bool" where
  "valid_tid tpc tid \<longleftrightarrow> \<not> (tpc \<le> tid \<or> tid < 0)"

definition oneshot_relative ::
    "'tm tm_ops \<Rightarrow> int \<Rightarrow> int \<Rightarrow> int \<Rightarrow> u64 \<Rightarrow> 'tm time_state \<Rightarrow> (int \<times> 'tm time_state) outcome" where
  "oneshot_relative ops tpc cid tid ns st =
     (if \<not> valid_tid tpc tid then Inr (-1, st)
      else
        let token = get_time_token tpc cid tid;
            (error, tm) = tm_register_rel_cb ops ns token (time_manager st)
        in obind (ensure (error = 0) Fatal) (\<lambda>_. Inr (0, st\<lparr>time_manager := tm\<rparr>)))"

definition oneshot_absolute ::
    "'tm tm_ops \<Rightarrow> int \<Rightarrow> int \<Rightarrow> int \<Rightarrow> u64 \<Rightarrow> 'tm time_state \<Rightarrow> (int \<times> 'tm time_state) outcome" where
  "oneshot_absolute ops tpc cid tid ns st =
     (if \<not> valid_tid tpc tid then Inr (-1, st)
      else
        let token = get_time_token tpc cid tid;
            (error, tm) = tm_register_abs_cb ops ns token (time_manager st);
            st1 = st\<lparr>time_manager := tm\<rparr>
        in if error = ETIME then
             obind (signal_client tpc (ucast token) st1) (\<lambda>st2. Inr (0, st2))
           else obind (ensure (error = 0) Fatal) (\<lambda>_. Inr (0, st1)))"

definition periodic ::
    "'tm tm_ops \<Rightarrow> int \<Rightarrow> int \<Rightarrow> int \<Rightarrow> u64 \<Rightarrow> 'tm time_state \<Rightarrow> (int \<times> 'tm time_state) outcome" where
  "periodic ops tpc cid tid ns st =
     (if \<not> valid_tid tpc tid then Inr (-1, st)
      else
        let token = get_time_token tpc cid tid;
            (error, tm) = tm_register_periodic_cb ops ns token (time_manager st)
        in obind (ensure (error = 0) Fatal) (\<lambda>_. Inr (0, st\<lparr>time_manager := tm\<rparr>)))"

definition stop ::
    "'tm tm_ops \<Rightarrow> int \<Rightarrow> int \<Rightarrow> int \<Rightarrow> 'tm time_state \<Rightarrow> (int \<times> 'tm time_state) outcome" where
  "stop ops tpc cid tid st =
     (if \<not> valid_tid tpc tid then Inr (-1, st)
      else
        let (error, tm) = tm_deregister_cb ops (get_time_token tpc cid tid) (time_manager st)
        in obind (ensure (error = 0) Fatal) (\<lambda>_. Inr (0, st\<lparr>time_manager := tm\<rparr>)))"

definition completed :: "int \<Rightarrow> 'tm time_state \<Rightarrow> (u32 \<times> 'tm time_state) outcome" where
  "completed cid st =
     (case client_state st of
        None \<Rightarrow> Inl AssertionFailed
      | Some cs \<Rightarrow>
          obind (ensure (0 \<le> cid \<and> nat cid < length cs) OutOfBounds) (\<lambda>_.
            Inr (cs ! nat cid, st\<lparr>client_state := Some (cs[nat cid := 0])\<rparr>)))"

text \<open>The remote procedures: the badge of the caller, less one, is the client number.\<close>

definition sender_cid :: "u64 \<Rightarrow> int" where
  "sender_cid badge = sint (ucast (badge - 1) :: cint)"

definition the_timer_oneshot_relative where
  "the_timer_oneshot_relative ops tpc badge tid ns st = oneshot_relative ops tpc (sender_cid badge) tid ns st"

definition the_timer_oneshot_absolute where
  "the_timer_oneshot_absolute ops tpc badge tid ns st = oneshot_absolute ops tpc (sender_cid badge) tid ns st"

definition the_timer_periodic where
  "the_timer_periodic ops tpc badge tid ns st = periodic ops tpc (sender_cid badge) tid ns st"

definition the_timer_stop where
  "the_timer_stop ops tpc badge tid st = stop ops tpc (sender_cid badge) tid st"

definition the_timer_completed where
  "the_timer_completed badge st = completed (sender_cid badge) st"

definition the_timer_time where
  "the_timer_time ops st = current_time_ns ops st"

text \<open>
  \<open>post_init\<close>: one word per badge and one timeout identifier per timer. \<open>tm0\<close> is the
  time manager after \<open>tm_init\<close>; \<open>alloc_ok\<close> tells whether \<open>ps_calloc\<close> succeeded.
\<close>

fun alloc_ids :: "'tm tm_ops \<Rightarrow> nat list \<Rightarrow> 'tm \<Rightarrow> 'tm outcome" where
  "alloc_ids ops [] tm = Inr tm"
| "alloc_ids ops (i # is) tm =
     (let (error, tm1) = tm_alloc_id_at ops (of_nat i) tm
      in obind (ensure (error = 0) Fatal) (\<lambda>_. alloc_ids ops is tm1))"

definition post_init :: "'tm tm_ops \<Rightarrow> int \<Rightarrow> nat \<Rightarrow> bool \<Rightarrow> 'tm \<Rightarrow> 'tm time_state outcome" where
  "post_init ops tpc largest_badge alloc_ok tm0 =
     obind (ensure alloc_ok Fatal) (\<lambda>_.
     obind (alloc_ids ops [0..<nat (tpc * int largest_badge)] tm0) (\<lambda>tm.
       Inr \<lparr>client_state = Some (replicate largest_badge 0), time_manager = tm, timer_emitted = []\<rparr>))"

section \<open>Tokens name one timer of one client\<close>

definition sizes_ok :: "int \<Rightarrow> nat \<Rightarrow> bool" where
  "sizes_ok tpc n \<longleftrightarrow> 0 < tpc \<and> tpc \<le> 32 \<and> tpc * int n < 2 ^ 31"

lemma token_value:
  assumes "0 < tpc" and "tpc * int n < 2 ^ 31" and "0 \<le> cid" and "cid < int n" and "valid_tid tpc tid"
  shows "uint (get_time_token tpc cid tid) = cid * tpc + tid" "cid * tpc + tid < tpc * int n"
proof -
  have "cid + 1 \<le> int n" using assms(4) by simp
  then have "(cid + 1) * tpc \<le> int n * tpc" using assms(1) by (intro mult_right_mono) auto
  then show lt: "cid * tpc + tid < tpc * int n"
    using assms(5) by (simp add: valid_tid_def algebra_simps)
  have "get_time_token tpc cid tid = (of_int (cid * tpc + tid) :: u32)"
    by (simp add: get_time_token_def)
  moreover have "0 \<le> cid * tpc + tid" using assms(1,3,5) by (simp add: valid_tid_def)
  ultimately show "uint (get_time_token tpc cid tid) = cid * tpc + tid"
    using lt assms(2) by (simp only: uint_word_of_int_eq) (simp add: take_bit_int_eq_self)
qed

lemma token_decode:
  fixes cid tid tpc :: int
  assumes "0 < tpc" and "0 \<le> cid" and "valid_tid tpc tid"
  shows "(cid * tpc + tid) sdiv tpc = cid" "(cid * tpc + tid) smod tpc = tid"
proof -
  have "0 \<le> tid" "tid < tpc" using assms(3) by (simp_all add: valid_tid_def)
  moreover have "0 \<le> cid * tpc" using assms(1,2) by simp
  moreover have "cid = 0 \<or> 0 < cid * tpc" using assms(1,2) by (cases "cid = 0") auto
  ultimately show "(cid * tpc + tid) sdiv tpc = cid" "(cid * tpc + tid) smod tpc = tid"
    using assms(1) by (auto simp: signed_divide_int_def signed_modulo_int_def sgn_if add_nonneg_eq_0_iff)
qed

lemma signal_token:
  assumes "0 < tpc" and "tpc \<le> 64" and "tpc * int (length cs) < 2 ^ 31" and "client_state st = Some cs"
    and "0 \<le> cid" and "cid < int (length cs)" and "valid_tid tpc tid"
  shows "signal_client tpc (ucast (get_time_token tpc cid tid)) st =
    Inr (st\<lparr>client_state := Some (cs[nat cid := ucast (ucast (cs ! nat cid) OR BIT (nat tid))]),
            timer_emitted := timer_emitted st @ [cid + 1]\<rparr>)"
proof -
  note tv = token_value [OF assms(1,3,5,6,7)]
  have "0 \<le> cid * tpc + tid" using tv(1) by (metis uint_ge_0)
  then have "sint (get_time_token tpc cid tid) = cid * tpc + tid"
    using tv assms(3) by (simp add: sint_uint signed_take_bit_int_eq_self)
  moreover have "ucast (ucast (get_time_token tpc cid tid) :: u64) = get_time_token tpc cid tid"
    by (rule bit_word_eqI) (simp add: bit_simps)
  moreover have "nat cid < length cs" using assms(5,6) by (simp add: nat_less_iff)
  ultimately show ?thesis
    using assms token_decode [OF assms(1,5,7)]
    by (simp add: signal_client_def Let_def valid_tid_def)
qed

section \<open>Refinement of a set of pending timeouts\<close>

text \<open>The timeouts that have fired and that their client has not collected yet.\<close>

definition time_abs :: "'tm time_state \<Rightarrow> (nat \<times> nat) set" where
  "time_abs st = (case client_state st of None \<Rightarrow> {}
     | Some cs \<Rightarrow> {(c, t). c < length cs \<and> bit (cs ! c) t})"

definition time_wf :: "int \<Rightarrow> nat \<Rightarrow> 'tm time_state \<Rightarrow> bool" where
  "time_wf tpc n st \<longleftrightarrow> sizes_ok tpc n \<and> (\<exists>cs. client_state st = Some cs \<and> length cs = n)"

lemma bit_set_timer: "bit (ucast (ucast (w :: u32) OR BIT t) :: u32) k \<longleftrightarrow> bit w k \<or> (k = t \<and> t < 32)"
proof (cases "k < 32")
  case True
  then show ?thesis by (auto simp: bit_simps bit_BIT)
next
  case False
  then show ?thesis by (auto simp: bit_simps dest: bit_imp_le_length)
qed

lemma signal_client_refines:
  assumes wf: "time_wf tpc n st" and c: "c < n" and t: "int t < tpc"
  shows "\<exists>st'. signal_client tpc (ucast (get_time_token tpc (int c) (int t))) st = Inr st' \<and>
    time_wf tpc n st' \<and> time_abs st' = insert (c, t) (time_abs st) \<and>
    timer_emitted st' = timer_emitted st @ [int c + 1]"
proof -
  from wf obtain cs where cs: "client_state st = Some cs" "length cs = n" "sizes_ok tpc n"
    by (auto simp: time_wf_def)
  then have s: "0 < tpc" "tpc \<le> 64" "tpc * int (length cs) < 2 ^ 31" "t < 32"
    using t by (auto simp: sizes_ok_def)
  have v: "valid_tid tpc (int t)" using t by (simp add: valid_tid_def)
  note run = signal_token [OF s(1-3) cs(1) _ _ v, of "int c", simplified]
  then show ?thesis
    using c cs s(4)
    by (auto simp: time_wf_def time_abs_def nth_list_update bit_set_timer split: if_splits)
qed

lemma completed_refines:
  assumes wf: "time_wf tpc n st" and c: "c < n"
  shows "\<exists>w st'. completed (int c) st = Inr (w, st') \<and> time_wf tpc n st' \<and>
    {t. bit w t} = {t. (c, t) \<in> time_abs st} \<and> time_abs st' = {p \<in> time_abs st. fst p \<noteq> c}"
proof -
  from wf obtain cs where cs: "client_state st = Some cs" "length cs = n" "sizes_ok tpc n"
    by (auto simp: time_wf_def)
  then show ?thesis
    using c by (auto simp: completed_def time_wf_def time_abs_def nth_list_update split: if_splits)
qed

text \<open>A sequence of firing timers and collecting clients, and its specification on sets.\<close>

datatype time_event = Fire nat nat | Collect nat

fun time_run :: "int \<Rightarrow> time_event list \<Rightarrow> 'tm time_state \<Rightarrow> (u32 list \<times> 'tm time_state) outcome" where
  "time_run tpc [] st = Inr ([], st)"
| "time_run tpc (Fire c t # es) st =
     obind (signal_client tpc (ucast (get_time_token tpc (int c) (int t))) st) (time_run tpc es)"
| "time_run tpc (Collect c # es) st =
     obind (completed (int c) st) (\<lambda>(w, st1).
     obind (time_run tpc es st1) (\<lambda>(ws, st2). Inr (w # ws, st2)))"

fun time_spec :: "time_event list \<Rightarrow> (nat \<times> nat) set \<Rightarrow> nat set list" where
  "time_spec [] due = []"
| "time_spec (Fire c t # es) due = time_spec es (insert (c, t) due)"
| "time_spec (Collect c # es) due = {t. (c, t) \<in> due} # time_spec es {p \<in> due. fst p \<noteq> c}"

fun event_ok :: "int \<Rightarrow> nat \<Rightarrow> time_event \<Rightarrow> bool" where
  "event_ok tpc n (Fire c t) \<longleftrightarrow> c < n \<and> int t < tpc"
| "event_ok tpc n (Collect c) \<longleftrightarrow> c < n"

section \<open>Properties\<close>

text \<open>
  C12. With at most 32 timers per client, \<open>the_timer_completed\<close> reports to each client exactly
  the timers that fired since its last call, whatever the order in which timers of all clients
  fire and clients collect; no access leaves \<open>client_state\<close>.
\<close>

theorem time_completed_exact:
  assumes "time_wf tpc n st" and "list_all (event_ok tpc n) es"
  shows "\<exists>ws st'. time_run tpc es st = Inr (ws, st') \<and> map (\<lambda>w. {t. bit w t}) ws = time_spec es (time_abs st)"
  using assms
proof (induction es arbitrary: st)
  case Nil
  then show ?case by simp
next
  case (Cons e es)
  show ?case
  proof (cases e)
    case (Fire c t)
    with Cons.prems signal_client_refines [OF Cons.prems(1), of c t] obtain st1 where
      "signal_client tpc (ucast (get_time_token tpc (int c) (int t))) st = Inr st1" "time_wf tpc n st1"
      "time_abs st1 = insert (c, t) (time_abs st)" by auto
    with Cons.IH [of st1] Cons.prems(2) Fire show ?thesis by simp
  next
    case (Collect c)
    with Cons.prems completed_refines [OF Cons.prems(1), of c] obtain w st1 where
      1: "completed (int c) st = Inr (w, st1)" "time_wf tpc n st1"
      "{t. bit w t} = {t. (c, t) \<in> time_abs st}" "time_abs st1 = {p \<in> time_abs st. fst p \<noteq> c}" by auto
    from Cons.IH [OF 1(2)] Cons.prems(2) obtain ws st' where
      "time_run tpc es st1 = Inr (ws, st')" "map (\<lambda>w. {t. bit w t}) ws = time_spec es (time_abs st1)" by auto
    with 1 Collect show ?thesis by simp
  qed
qed

theorem time_completed_exact_witness:
  "\<exists>ws st'. time_run 4 [Fire 0 3, Fire 1 2, Collect 0, Fire 0 1, Collect 0, Collect 1]
      \<lparr>client_state = Some [0, 0], time_manager = (), timer_emitted = []\<rparr> = Inr (ws, st') \<and>
    map (\<lambda>w. {t. bit w t}) ws = [{3}, {1}, {2}]"
proof -
  let ?st = "\<lparr>client_state = Some [0, 0], time_manager = (), timer_emitted = []\<rparr> :: unit time_state"
  let ?es = "[Fire 0 3, Fire 1 2, Collect 0, Fire 0 1, Collect 0, Collect 1]"
  have abs: "time_abs ?st = {}" by (auto simp: time_abs_def less_Suc_eq nth_Cons' split: if_splits)
  have spec: "time_spec ?es {} = [{3}, {1}, {2}]" by auto
  have wf: "time_wf 4 2 ?st" by (simp add: time_wf_def sizes_ok_def)
  have ok: "list_all (event_ok 4 2) ?es" by simp
  from time_completed_exact [OF wf ok] show ?thesis unfolding abs spec .
qed

text \<open>
  The token of a timer is below the number of allocated identifiers, and no two timers of
  the clients share a token: a call of one client never touches a timeout of another.
\<close>

theorem time_tokens_distinct:
  assumes "0 < tpc" and "tpc * int n < 2 ^ 31"
    and "1 \<le> b" "b \<le> n" "valid_tid tpc t" and "1 \<le> b'" "b' \<le> n" "valid_tid tpc t'"
  shows "uint (get_time_token tpc (sender_cid (of_nat b)) t) < tpc * int n \<and>
    (get_time_token tpc (sender_cid (of_nat b)) t = get_time_token tpc (sender_cid (of_nat b')) t' \<longleftrightarrow>
     b = b' \<and> t = t')"
proof -
  have "int n \<le> tpc * int n" using assms(1) by (simp add: mult_le_cancel_right1)
  then have n: "int n < 2 ^ 31" using assms(2) by linarith
  have cid: "sender_cid (of_nat k) = int k - 1" if "1 \<le> k" "k \<le> n" for k
  proof -
    from that(1) obtain m where m: "k = Suc m" by (cases k) auto
    have "uint (of_nat m :: u64) = int m"
      using that n m by (simp only: uint_nat unat_of_nat) simp
    then have "uint (ucast (of_nat m :: u64) :: cint) = int m"
      using that n m by (simp only: unsigned_ucast_eq) (simp add: take_bit_int_eq_self)
    then have "sint (ucast (of_nat m :: u64) :: cint) = int m"
      using that n m by (simp only: sint_uint) (simp add: signed_take_bit_int_eq_self)
    then show ?thesis by (simp add: sender_cid_def m)
  qed
  note a = token_value [OF assms(1,2), of "int b - 1" t] and a' = token_value [OF assms(1,2), of "int b' - 1" t']
  have "get_time_token tpc (int b - 1) t = get_time_token tpc (int b' - 1) t' \<Longrightarrow> b = b' \<and> t = t'"
  proof -
    assume "get_time_token tpc (int b - 1) t = get_time_token tpc (int b' - 1) t'"
    then have "(int b - 1) * tpc + t = (int b' - 1) * tpc + t'"
      using a(1) a'(1) assms by simp
    then have "int b - 1 = int b' - 1" "t = t'"
      using token_decode [OF assms(1) _ assms(5), of "int b - 1"]
        token_decode [OF assms(1) _ assms(8), of "int b' - 1"] assms(3,6) by auto
    then show ?thesis by simp
  qed
  then show ?thesis using a assms(3-8) cid by auto
qed

theorem time_tokens_distinct_witness:
  "get_time_token 6 (sender_cid 2) 5 \<noteq> get_time_token 6 (sender_cid 3) 0"
  using time_tokens_distinct [of 6 3 2 5 3 0] by (simp add: valid_tid_def)

text \<open>
  With more than 32 timers per client the bit of a timer \<open>32 .. 63\<close> does not fit the
  client's word: when it fires the client is notified, but nothing is recorded.
\<close>

theorem time_high_timers_lost:
  assumes "0 < tpc" and "tpc \<le> 64" and "tpc * int (length cs) < 2 ^ 31" and "client_state st = Some cs"
    and "c < length cs" and "32 \<le> t" and "int t < tpc"
  shows "\<exists>st'. signal_client tpc (ucast (get_time_token tpc (int c) (int t))) st = Inr st' \<and>
    client_state st' = client_state st \<and> timer_emitted st' = timer_emitted st @ [int c + 1]"
proof -
  have v: "valid_tid tpc (int t)" using assms(7) by (simp add: valid_tid_def)
  have "(ucast (ucast (cs ! c) OR BIT t) :: u32) = cs ! c"
    by (rule bit_word_eqI) (use assms(6) in \<open>simp add: bit_set_timer\<close>)
  with signal_token [OF assms(1-4) _ _ v, of "int c"] assms(4,5) show ?thesis by simp
qed

theorem time_high_timers_lost_witness:
  "\<exists>st'. signal_client 40 (ucast (get_time_token 40 0 33))
      \<lparr>client_state = Some [0], time_manager = (), timer_emitted = []\<rparr> = Inr st' \<and>
    client_state st' = Some [0] \<and> timer_emitted st' = [1]"
  using time_high_timers_lost [of 40 "[0]" "\<lparr>client_state = Some [0], time_manager = (), timer_emitted = []\<rparr>" 0 33]
  by simp

end
