(* ===== verification/Ownership.thy ===== *)
theory Ownership
  imports Prelude
begin

text \<open>
  First come, first served: the clock server and the GPIO server both keep a table of
  resources, give a resource to the first client that initialises it, and never take it back.
  The locale states that contract and proves what it gives over any sequence of requests;
  the two servers interpret it on their own initialisation routines.
\<close>

text \<open>Error numbers of \<open>errno.h\<close>.\<close>

abbreviation EPERM :: int where "EPERM \<equiv> 1"
abbreviation EBUSY :: int where "EBUSY \<equiv> 16"
abbreviation ENODEV :: int where "ENODEV \<equiv> 19"
abbreviation EINVAL :: int where "EINVAL \<equiv> 22"
abbreviation ENOMEM :: int where "ENOMEM \<equiv> 12"

locale ownership =
  fixes inv :: "'st \<Rightarrow> bool"
    and client :: "u64 \<Rightarrow> bool"
    and owner :: "'st \<Rightarrow> int \<Rightarrow> u64 option"
    and claim :: "u64 \<Rightarrow> int \<times> 'a \<Rightarrow> 'st \<Rightarrow> int \<times> 'st"
  assumes inv_claim: "inv st \<Longrightarrow> client c \<Longrightarrow> inv (snd (claim c (i, a) st))"
    and claim_other: "inv st \<Longrightarrow> client c \<Longrightarrow> j \<noteq> i \<Longrightarrow> owner (snd (claim c (i, a) st)) j = owner st j"
    and claim_owned: "inv st \<Longrightarrow> client c \<Longrightarrow> owner st i = Some d \<Longrightarrow> owner (snd (claim c (i, a) st)) i = Some d"
    and claim_free: "inv st \<Longrightarrow> client c \<Longrightarrow> owner st i = None \<Longrightarrow>
      owner (snd (claim c (i, a) st)) i = (if fst (claim c (i, a) st) = 0 then Some c else None)"
begin

fun claims :: "(u64 \<times> int \<times> 'a) list \<Rightarrow> 'st \<Rightarrow> 'st" where
  "claims [] st = st"
| "claims ((c, r) # cs) st = claims cs (snd (claim c r st))"

lemma claims_inv: "inv st \<Longrightarrow> list_all (\<lambda>(c, r). client c) cs \<Longrightarrow> inv (claims cs st)"
  by (induction cs st rule: claims.induct) (auto intro: inv_claim)

text \<open>An owner keeps the resource for ever.\<close>

lemma owner_stays:
  assumes "inv st" and "list_all (\<lambda>(c, r). client c) cs" and "owner st i = Some d"
  shows "owner (claims cs st) i = Some d"
  using assms
proof (induction cs st rule: claims.induct)
  case (1 st)
  then show ?case by simp
next
  case (2 c r cs st)
  obtain k a where r: "r = (k, a)" by (cases r)
  have "owner (snd (claim c r st)) i = Some d"
    using 2(2-4) claim_owned [of st c i d a] claim_other [of st c i k a]
    unfolding r by (cases "k = i") auto
  with 2 inv_claim show ?case unfolding r by simp
qed

text \<open>Whoever owns a resource after some requests owned it before or asked for it and was answered 0.\<close>

lemma owner_asked:
  assumes "inv st" and "list_all (\<lambda>(c, r). client c) cs" and "owner (claims cs st) i = Some d"
  shows "owner st i = Some d \<or> (\<exists>pre a post. cs = pre @ (d, i, a) # post \<and> owner (claims pre st) i = None \<and>
    fst (claim d (i, a) (claims pre st)) = 0)"
  using assms
proof (induction cs st rule: claims.induct)
  case (1 st)
  then show ?case by simp
next
  case (2 c r cs st)
  obtain k a where r: "r = (k, a)" by (cases r)
  let ?st1 = "snd (claim c r st)"
  have c: "client c" using 2(3) by simp
  have inv1: "inv ?st1" using inv_claim [OF 2(2) c] r by simp
  from 2(1) [OF inv1] 2(3,4) consider "owner ?st1 i = Some d"
    | pre b post where "cs = pre @ (d, i, b) # post" "owner (claims pre ?st1) i = None"
        "fst (claim d (i, b) (claims pre ?st1)) = 0" by auto
  then show ?case
  proof cases
    case 1
    show ?thesis
    proof (cases "owner st i")
      case (Some e)
      then have "owner ?st1 i = Some e"
        using claim_owned [OF 2(2) c] claim_other [OF 2(2) c] r by (cases "k = i") auto
      with 1 Some show ?thesis by simp
    next
      case None
      with 1 have "k = i" using claim_other [OF 2(2) c, of i k a] r by auto
      with 1 None have "c = d" "fst (claim c (i, a) st) = 0"
        using claim_free [OF 2(2) c, of i a] r by (auto split: if_splits)
      then have "(c, r) # cs = [] @ (d, i, a) # cs" "owner (claims [] st) i = None"
        "fst (claim d (i, a) (claims [] st)) = 0" using None r \<open>k = i\<close> by simp_all
      then show ?thesis by blast
    qed
  next
    case 2
    then have "(c, r) # cs = ((c, r) # pre) @ (d, i, b) # post" "owner (claims ((c, r) # pre) st) i = None"
      "fst (claim d (i, b) (claims ((c, r) # pre) st)) = 0" by simp_all
    then show ?thesis by blast
  qed
qed

end

end
