(* ===== verification/ClockServer.thy ===== *)
theory ClockServer
  imports Ownership
begin

text \<open>
  \<open>components/ClockServer/src/clock_server.c\<close> and its client library
  \<open>libClockServer-client/clockserver_client.c\<close>: the clocks of the board behind a table of
  owners. The clock drivers (\<open>clk_get_clock\<close>, \<open>clk_get_freq\<close> and the like of
  libplatsupport) are the record \<open>clock_sys\<close> of functions on a hardware state \<open>'hw\<close>;
  a clock handle of theirs is a value of \<open>'clk\<close>. Log messages are left out.
\<close>

section \<open>The server\<close>

record ('clk, 'hw) clock_sys =
  clk_get_clock :: "int \<Rightarrow> 'hw \<Rightarrow> 'clk option \<times> 'hw"
  clk_gate_enable :: "int \<Rightarrow> int \<Rightarrow> 'hw \<Rightarrow> int \<times> 'hw"
  clk_get_freq :: "'clk \<Rightarrow> 'hw \<Rightarrow> u64 \<times> 'hw"
  clk_set_freq :: "'clk \<Rightarrow> u64 \<Rightarrow> 'hw \<Rightarrow> u64 \<times> 'hw"
  clk_register_child :: "'clk \<Rightarrow> 'clk \<Rightarrow> 'hw \<Rightarrow> 'hw"

record 'clk clock_entry =
  ce_initialised :: bool
  ce_owner :: u64
  ce_clk :: "'clk option"

record ('clk, 'hw) clock_state =
  clock_table :: "'clk clock_entry list"
  clock_hw :: 'hw

definition check_clk_initialised :: "int \<Rightarrow> ('clk, 'hw) clock_state \<Rightarrow> bool" where
  "check_clk_initialised clk_id st = ce_initialised (clock_table st ! nat clk_id)"

text \<open>\<open>NCLOCKS\<close> is the number of entries of the table.\<close>

definition check_valid_clk_id :: "int \<Rightarrow> ('clk, 'hw) clock_state \<Rightarrow> bool" where
  "check_valid_clk_id clk_id st \<longleftrightarrow> 0 \<le> clk_id \<and> clk_id < int (length (clock_table st))"

definition check_valid_clock_gate :: "int \<Rightarrow> int \<Rightarrow> bool" where
  "check_valid_clock_gate nclkgates clock_gate \<longleftrightarrow> 0 \<le> clock_gate \<and> clock_gate \<le> nclkgates"

definition check_is_owner :: "int \<Rightarrow> u64 \<Rightarrow> ('clk, 'hw) clock_state \<Rightarrow> bool" where
  "check_is_owner clk_id client_id st \<longleftrightarrow> ce_owner (clock_table st ! nat clk_id) = client_id"

definition set_clk :: "int \<Rightarrow> ('clk clock_entry \<Rightarrow> 'clk clock_entry) \<Rightarrow> ('clk, 'hw) clock_state \<Rightarrow> ('clk, 'hw) clock_state" where
  "set_clk i f st = st\<lparr>clock_table := (clock_table st)[nat i := f (clock_table st ! nat i)]\<rparr>"

definition the_clock_init_clock ::
    "('clk, 'hw) clock_sys \<Rightarrow> u64 \<Rightarrow> int \<Rightarrow> ('clk, 'hw) clock_state \<Rightarrow> int \<times> ('clk, 'hw) clock_state" where
  "the_clock_init_clock sys client_id clk_id st =
     (if \<not> check_valid_clk_id clk_id st then (-EINVAL, st)
      else if check_clk_initialised clk_id st then
        if \<not> check_is_owner clk_id client_id st then (-EBUSY, st) else (0, st)
      else
        let (clk, hw) = clk_get_clock sys clk_id (clock_hw st);
            st1 = set_clk clk_id (\<lambda>e. e\<lparr>ce_clk := clk\<rparr>) (st\<lparr>clock_hw := hw\<rparr>)
        in case clk of
             None \<Rightarrow> (-ENODEV, st1)
           | Some _ \<Rightarrow> (0, set_clk clk_id (\<lambda>e. e\<lparr>ce_initialised := True, ce_owner := client_id\<rparr>) st1))"

definition the_clock_set_gate_mode ::
    "('clk, 'hw) clock_sys \<Rightarrow> int \<Rightarrow> int \<Rightarrow> ('clk, 'hw) clock_state \<Rightarrow> int \<times> ('clk, 'hw) clock_state" where
  "the_clock_set_gate_mode sys gate mode st =
     (let (error, hw) = clk_gate_enable sys gate mode (clock_hw st) in (error, st\<lparr>clock_hw := hw\<rparr>))"

text \<open>A null \<open>clk\<close> in an initialised entry would be a fault.\<close>

definition the_clock_get_freq ::
    "('clk, 'hw) clock_sys \<Rightarrow> u64 \<Rightarrow> int \<Rightarrow> ('clk, 'hw) clock_state \<Rightarrow> (u64 \<times> ('clk, 'hw) clock_state) outcome" where
  "the_clock_get_freq sys client_id clk_id st =
     (if \<not> check_valid_clk_id clk_id st then Inr (0, st)
      else if \<not> check_clk_initialised clk_id st then Inr (0, st)
      else if \<not> check_is_owner clk_id client_id st then Inr (0, st)
      else case ce_clk (clock_table st ! nat clk_id) of
        None \<Rightarrow> Inl NullDeref
      | Some clk \<Rightarrow>
          let (freq, hw) = clk_get_freq sys clk (clock_hw st) in Inr (freq, st\<lparr>clock_hw := hw\<rparr>))"

definition the_clock_set_freq ::
    "('clk, 'hw) clock_sys \<Rightarrow> u64 \<Rightarrow> int \<Rightarrow> u64 \<Rightarrow> ('clk, 'hw) clock_state \<Rightarrow>
     (u64 \<times> ('clk, 'hw) clock_state) outcome" where
  "the_clock_set_freq sys client_id clk_id hz st =
     (if \<not> check_valid_clk_id clk_id st then Inr (0, st)
      else if \<not> check_clk_initialised clk_id st then Inr (0, st)
      else if \<not> check_is_owner clk_id client_id st then Inr (0, st)
      else case ce_clk (clock_table st ! nat clk_id) of
        None \<Rightarrow> Inl NullDeref
      | Some clk \<Rightarrow>
          let (freq, hw) = clk_set_freq sys clk hz (clock_hw st) in Inr (freq, st\<lparr>clock_hw := hw\<rparr>))"

definition the_clock_register_child ::
    "('clk, 'hw) clock_sys \<Rightarrow> u64 \<Rightarrow> int \<Rightarrow> int \<Rightarrow> ('clk, 'hw) clock_state \<Rightarrow>
     (int \<times> ('clk, 'hw) clock_state) outcome" where
  "the_clock_register_child sys client_id parent child st =
     (if \<not> check_valid_clk_id parent st \<or> \<not> check_valid_clk_id child st then Inr (-EINVAL, st)
      else if \<not> check_clk_initialised parent st then Inr (-EPERM, st)
      else if \<not> check_is_owner parent client_id st then Inr (-EPERM, st)
      else if \<not> check_clk_initialised child st then Inr (-EPERM, st)
      else if \<not> check_is_owner child client_id st then Inr (-EPERM, st)
      else case (ce_clk (clock_table st ! nat parent), ce_clk (clock_table st ! nat child)) of
        (Some p, Some c) \<Rightarrow> Inr (0, st\<lparr>clock_hw := clk_register_child sys p c (clock_hw st)\<rparr>)
      | _ \<Rightarrow> Inl NullDeref)"

text \<open>
  \<open>ClockServer_init\<close>: the three arguments are the results of \<open>plat_init\<close> (\<open>None\<close> when
  there is none), \<open>clock_sys_init\<close> and \<open>ps_calloc\<close>; the table starts zeroed.
\<close>

definition ClockServer_init ::
    "int option \<Rightarrow> int \<Rightarrow> int \<Rightarrow> nat \<Rightarrow> 'hw \<Rightarrow> (int \<times> ('clk, 'hw) clock_state) outcome" where
  "ClockServer_init plat_error sys_error calloc_error nclocks hw =
     obind (ensure (plat_error = None \<or> plat_error = Some 0) Fatal) (\<lambda>_.
     obind (ensure (sys_error = 0) Fatal) (\<lambda>_.
     obind (ensure (calloc_error = 0) Fatal) (\<lambda>_.
       Inr (0, \<lparr>clock_table = replicate nclocks \<lparr>ce_initialised = False, ce_owner = 0, ce_clk = None\<rparr>,
                clock_hw = hw\<rparr>))))"

section \<open>The client library\<close>

text \<open>
  The functions the client is given at initialisation, on a state \<open>'s\<close> (a call is a remote
  procedure call to the server).
\<close>

record 's clockserver_data =
  clockserver_init_clock :: "int \<Rightarrow> 's \<Rightarrow> int \<times> 's"
  clockserver_set_gate_mode :: "int \<Rightarrow> int \<Rightarrow> 's \<Rightarrow> int \<times> 's"
  clockserver_get_freq :: "int \<Rightarrow> 's \<Rightarrow> u64 \<times> 's"
  clockserver_set_freq :: "int \<Rightarrow> u64 \<Rightarrow> 's \<Rightarrow> u64 \<times> 's"
  clockserver_register_child :: "int \<Rightarrow> int \<Rightarrow> 's \<Rightarrow> int \<times> 's"

record client_clk =
  cc_id :: int
  cc_priv :: u64
  cc_req_freq :: u64

definition clockserver_get_freq_wrapper :: "'s clockserver_data \<Rightarrow> client_clk \<Rightarrow> 's \<Rightarrow> u64 \<times> 's" where
  "clockserver_get_freq_wrapper data clk s = clockserver_get_freq data (cc_id clk) s"

definition clockserver_set_freq_wrapper ::
    "'s clockserver_data \<Rightarrow> client_clk \<Rightarrow> u64 \<Rightarrow> 's \<Rightarrow> u64 \<times> client_clk \<times> 's" where
  "clockserver_set_freq_wrapper data clk hz s =
     (let (set_freq, s1) = clockserver_set_freq data (cc_id clk) hz s
      in (set_freq, clk\<lparr>cc_req_freq := hz\<rparr>, s1))"

definition clockserver_get_clock_wrapper ::
    "'s clockserver_data \<Rightarrow> bool \<Rightarrow> int \<Rightarrow> 's \<Rightarrow> client_clk option \<times> 's" where
  "clockserver_get_clock_wrapper data calloc_ok i s =
     (let (error, s1) = clockserver_init_clock data i s
      in if error \<noteq> 0 then (None, s1)
         else if \<not> calloc_ok then (None, s1)
         else (Some \<lparr>cc_id = i, cc_priv = 0xDEADBEEF, cc_req_freq = 0\<rparr>, s1))"

definition clockserver_gate_enable_wrapper ::
    "'s clockserver_data \<Rightarrow> int \<Rightarrow> int \<Rightarrow> 's \<Rightarrow> int \<times> 's" where
  "clockserver_gate_enable_wrapper data gate mode s = clockserver_set_gate_mode data gate mode s"

text \<open>\<open>None\<close> is a null pointer; \<open>Inr\<close> is the private data the clock interface is set up with.\<close>

definition clockserver_interface_init ::
    "bool \<Rightarrow> (int \<Rightarrow> 's \<Rightarrow> int \<times> 's) option \<Rightarrow> (int \<Rightarrow> int \<Rightarrow> 's \<Rightarrow> int \<times> 's) option \<Rightarrow>
     (int \<Rightarrow> 's \<Rightarrow> u64 \<times> 's) option \<Rightarrow> (int \<Rightarrow> u64 \<Rightarrow> 's \<Rightarrow> u64 \<times> 's) option \<Rightarrow>
     (int \<Rightarrow> int \<Rightarrow> 's \<Rightarrow> int \<times> 's) option \<Rightarrow> bool \<Rightarrow> int + 's clockserver_data" where
  "clockserver_interface_init io_ops init_clock set_gate_mode get_freq set_freq register_child clock_sys =
     (if \<not> io_ops then Inl (-EINVAL)
      else case init_clock of None \<Rightarrow> Inl (-EINVAL) | Some f1 \<Rightarrow>
        (case set_gate_mode of None \<Rightarrow> Inl (-EINVAL) | Some f2 \<Rightarrow>
        (case get_freq of None \<Rightarrow> Inl (-EINVAL) | Some f3 \<Rightarrow>
        (case set_freq of None \<Rightarrow> Inl (-EINVAL) | Some f4 \<Rightarrow>
        (case register_child of None \<Rightarrow> Inl (-EINVAL) | Some f5 \<Rightarrow>
          if \<not> clock_sys then Inl (-EINVAL)
          else Inr \<lparr>clockserver_init_clock = f1, clockserver_set_gate_mode = f2,
                    clockserver_get_freq = f3, clockserver_set_freq = f4,
                    clockserver_register_child = f5\<rparr>)))))"

section \<open>Ownership\<close>

definition clock_owner :: "('clk, 'hw) clock_state \<Rightarrow> int \<Rightarrow> u64 option" where
  "clock_owner st i = (if check_valid_clk_id i st \<and> check_clk_initialised i st
     then Some (ce_owner (clock_table st ! nat i)) else None)"

text \<open>Initialised entries have a clock.\<close>

definition clock_inv :: "('clk, 'hw) clock_state \<Rightarrow> bool" where
  "clock_inv st \<longleftrightarrow> (\<forall>e \<in> set (clock_table st). ce_initialised e \<longrightarrow> ce_clk e \<noteq> None)"

text \<open>One call of a client: its badge, the clock and the drivers' functions.\<close>

definition clock_claim ::
    "u64 \<Rightarrow> int \<times> ('clk, 'hw) clock_sys \<Rightarrow> ('clk, 'hw) clock_state \<Rightarrow> int \<times> ('clk, 'hw) clock_state" where
  "clock_claim c r st = the_clock_init_clock (snd r) c (fst r) st"

lemma nth_nat_update:
  "0 \<le> i \<Longrightarrow> i < int (length xs) \<Longrightarrow> 0 \<le> j \<Longrightarrow> j < int (length xs) \<Longrightarrow>
   xs[nat i := x] ! nat j = (if i = j then x else xs ! nat j)"
  by (auto simp: nth_list_update)

lemma clock_init_cases:
  obtains (invalid) "\<not> check_valid_clk_id i st" "the_clock_init_clock sys c i st = (-EINVAL, st)"
  | (mine) "clock_owner st i = Some c" "the_clock_init_clock sys c i st = (0, st)"
  | (other) d where "clock_owner st i = Some d" "d \<noteq> c" "the_clock_init_clock sys c i st = (-EBUSY, st)"
  | (none) hw where "clock_owner st i = None" "check_valid_clk_id i st"
      "the_clock_init_clock sys c i st = (-ENODEV, set_clk i (\<lambda>e. e\<lparr>ce_clk := None\<rparr>) (st\<lparr>clock_hw := hw\<rparr>))"
  | (taken) clk hw where "clock_owner st i = None" "check_valid_clk_id i st"
      "the_clock_init_clock sys c i st =
         (0, set_clk i (\<lambda>e. e\<lparr>ce_clk := Some clk, ce_initialised := True, ce_owner := c\<rparr>) (st\<lparr>clock_hw := hw\<rparr>))"
proof (cases "check_valid_clk_id i st")
  case False
  then show thesis by (intro invalid) (simp_all add: the_clock_init_clock_def)
next
  case v: True
  then have n: "nat i < length (clock_table st)" by (auto simp: check_valid_clk_id_def)
  show thesis
  proof (cases "check_clk_initialised i st")
    case True
    then show thesis
      using v mine other by (cases "check_is_owner i c st")
        (auto simp: the_clock_init_clock_def clock_owner_def check_is_owner_def)
  next
    case False
    obtain clk hw where g: "clk_get_clock sys i (clock_hw st) = (clk, hw)" by fastforce
    show thesis
    proof (cases clk)
      case None
      then show thesis
        using v False g by (intro none) (auto simp: the_clock_init_clock_def clock_owner_def)
    next
      case (Some k)
      then have "the_clock_init_clock sys c i st =
         (0, set_clk i (\<lambda>e. e\<lparr>ce_clk := Some k, ce_initialised := True, ce_owner := c\<rparr>) (st\<lparr>clock_hw := hw\<rparr>))"
        using v False g n by (simp add: the_clock_init_clock_def set_clk_def)
      then show thesis using v False by (intro taken) (auto simp: clock_owner_def)
    qed
  qed
qed

lemma set_clk_owner:
  assumes "check_valid_clk_id i st"
  shows "clock_owner (set_clk i f (st\<lparr>clock_hw := hw\<rparr>)) j =
    (if j = i then if ce_initialised (f (clock_table st ! nat i)) then Some (ce_owner (f (clock_table st ! nat i))) else None
     else clock_owner st j)"
  using assms
  by (auto simp: clock_owner_def set_clk_def check_valid_clk_id_def check_clk_initialised_def nth_nat_update
      split: if_splits)

lemma set_clk_inv:
  assumes "clock_inv st" and "check_valid_clk_id i st"
    and "ce_initialised (f (clock_table st ! nat i)) \<longrightarrow> ce_clk (f (clock_table st ! nat i)) \<noteq> None"
  shows "clock_inv (set_clk i f (st\<lparr>clock_hw := hw\<rparr>))"
  using assms by (auto simp: clock_inv_def set_clk_def dest!: set_update_subset_insert [THEN subsetD])

interpretation clk: ownership clock_inv "\<lambda>_. True" clock_owner clock_claim
proof unfold_locales
  fix st :: "('a, 'b) clock_state" and c i and a :: "('a, 'b) clock_sys"
  assume inv: "clock_inv st"
  have uninit: "\<not> ce_initialised (clock_table st ! nat i)" if "clock_owner st i = None" "check_valid_clk_id i st"
    using that by (auto simp: clock_owner_def check_clk_initialised_def split: if_splits)
  show "clock_inv (snd (clock_claim c (i, a) st))"
    by (cases rule: clock_init_cases [of i st a c])
      (use inv uninit in \<open>auto simp: clock_claim_def intro!: set_clk_inv\<close>)
  show "clock_owner (snd (clock_claim c (i, a) st)) j = clock_owner st j" if "j \<noteq> i" for j
    by (cases rule: clock_init_cases [of i st a c])
      (use that in \<open>auto simp: clock_claim_def set_clk_owner\<close>)
  show "clock_owner (snd (clock_claim c (i, a) st)) i = Some d" if "clock_owner st i = Some d" for d
    by (cases rule: clock_init_cases [of i st a c])
      (use that in \<open>auto simp: clock_claim_def\<close>)
  show "clock_owner (snd (clock_claim c (i, a) st)) i = (if fst (clock_claim c (i, a) st) = 0 then Some c else None)"
    if "clock_owner st i = None"
    by (cases rule: clock_init_cases [of i st a c])
      (use that uninit in \<open>auto simp: clock_claim_def set_clk_owner\<close>)
qed

section \<open>Executions\<close>

datatype clock_op =
    InitClock u64 int
  | SetGateMode int int
  | GetFreq u64 int
  | SetFreq u64 int u64
  | RegisterChild u64 int int

fun clock_do :: "('clk, 'hw) clock_sys \<Rightarrow> clock_op \<Rightarrow> ('clk, 'hw) clock_state \<Rightarrow> ('clk, 'hw) clock_state outcome" where
  "clock_do sys (InitClock c i) st = Inr (snd (the_clock_init_clock sys c i st))"
| "clock_do sys (SetGateMode g m) st = Inr (snd (the_clock_set_gate_mode sys g m st))"
| "clock_do sys (GetFreq c i) st = obind (the_clock_get_freq sys c i st) (\<lambda>(_, st1). Inr st1)"
| "clock_do sys (SetFreq c i hz) st = obind (the_clock_set_freq sys c i hz st) (\<lambda>(_, st1). Inr st1)"
| "clock_do sys (RegisterChild c p k) st = obind (the_clock_register_child sys c p k st) (\<lambda>(_, st1). Inr st1)"

fun clock_run :: "('clk, 'hw) clock_sys \<Rightarrow> clock_op list \<Rightarrow> ('clk, 'hw) clock_state \<Rightarrow> ('clk, 'hw) clock_state outcome" where
  "clock_run sys [] st = Inr st"
| "clock_run sys (op # ops) st = obind (clock_do sys op st) (clock_run sys ops)"

lemma clock_hw_only [simp]:
  "clock_inv (st\<lparr>clock_hw := hw\<rparr>) = clock_inv st" "clock_owner (st\<lparr>clock_hw := hw\<rparr>) i = clock_owner st i"
  by (simp_all add: clock_inv_def clock_owner_def check_valid_clk_id_def check_clk_initialised_def)

lemma clock_has_clk:
  assumes "clock_inv st" and "check_valid_clk_id i st" and "check_clk_initialised i st"
  obtains clk where "ce_clk (clock_table st ! nat i) = Some clk"
proof -
  have "clock_table st ! nat i \<in> set (clock_table st)"
    using assms(2) by (auto simp: check_valid_clk_id_def)
  with assms(1,3) that show thesis by (auto simp: clock_inv_def check_clk_initialised_def)
qed

lemma clock_uninit:
  "clock_owner st i = None \<Longrightarrow> check_valid_clk_id i st \<Longrightarrow> \<not> ce_initialised (clock_table st ! nat i)"
  by (auto simp: clock_owner_def check_clk_initialised_def split: if_splits)

lemma clock_invalid: "\<not> check_valid_clk_id i st \<Longrightarrow> clock_owner st i = None"
  by (simp add: clock_owner_def)

lemma get_freq_cases:
  assumes "clock_inv st"
  obtains (no) "clock_owner st i \<noteq> Some c" "the_clock_get_freq sys c i st = Inr (0, st)"
  | (yes) clk where "clock_owner st i = Some c" "ce_clk (clock_table st ! nat i) = Some clk"
      "the_clock_get_freq sys c i st =
         Inr (fst (clk_get_freq sys clk (clock_hw st)), st\<lparr>clock_hw := snd (clk_get_freq sys clk (clock_hw st))\<rparr>)"
proof (cases "clock_owner st i = Some c")
  case True
  then obtain clk where "ce_clk (clock_table st ! nat i) = Some clk"
    using clock_has_clk [OF assms] by (auto simp: clock_owner_def split: if_splits)
  with True yes show thesis
    by (auto simp: the_clock_get_freq_def clock_owner_def check_is_owner_def split: if_splits prod.splits)
next
  case False
  then show thesis
    by (intro no) (auto simp: the_clock_get_freq_def clock_owner_def check_is_owner_def split: if_splits)
qed

lemma set_freq_cases:
  assumes "clock_inv st"
  obtains (no) "clock_owner st i \<noteq> Some c" "the_clock_set_freq sys c i hz st = Inr (0, st)"
  | (yes) clk where "clock_owner st i = Some c" "ce_clk (clock_table st ! nat i) = Some clk"
      "the_clock_set_freq sys c i hz st =
         Inr (fst (clk_set_freq sys clk hz (clock_hw st)), st\<lparr>clock_hw := snd (clk_set_freq sys clk hz (clock_hw st))\<rparr>)"
proof (cases "clock_owner st i = Some c")
  case True
  then obtain clk where "ce_clk (clock_table st ! nat i) = Some clk"
    using clock_has_clk [OF assms] by (auto simp: clock_owner_def split: if_splits)
  with True yes show thesis
    by (auto simp: the_clock_set_freq_def clock_owner_def check_is_owner_def split: if_splits prod.splits)
next
  case False
  then show thesis
    by (intro no) (auto simp: the_clock_set_freq_def clock_owner_def check_is_owner_def split: if_splits)
qed

lemma register_child_cases:
  assumes "clock_inv st"
  obtains (no) e where "clock_owner st p \<noteq> Some c \<or> clock_owner st k \<noteq> Some c" "e \<noteq> 0"
      "the_clock_register_child sys c p k st = Inr (e, st)"
  | (yes) hw where "clock_owner st p = Some c" "clock_owner st k = Some c"
      "the_clock_register_child sys c p k st = Inr (0, st\<lparr>clock_hw := hw\<rparr>)"
proof (cases "clock_owner st p = Some c \<and> clock_owner st k = Some c")
  case True
  then obtain x y where "ce_clk (clock_table st ! nat p) = Some x" "ce_clk (clock_table st ! nat k) = Some y"
    using clock_has_clk [OF assms] by (metis clock_owner_def option.distinct(1))
  with True yes show thesis
    by (auto simp: the_clock_register_child_def clock_owner_def check_is_owner_def split: if_splits)
next
  case False
  then have "\<exists>e. e \<noteq> 0 \<and> the_clock_register_child sys c p k st = Inr (e, st)"
    by (auto simp: the_clock_register_child_def clock_owner_def check_is_owner_def split: if_splits)
  with False no show thesis by blast
qed

lemma clock_do_ok:
  assumes inv: "clock_inv st"
  shows "\<exists>st'. clock_do sys op st = Inr st' \<and> clock_inv st' \<and>
    (\<forall>i d. clock_owner st i = Some d \<longrightarrow> clock_owner st' i = Some d)"
proof (cases op)
  case (InitClock c i)
  have "clock_inv (snd (clock_claim c (i, sys) st))" using clk.inv_claim [OF inv] by simp
  moreover have "clock_owner (snd (clock_claim c (i, sys) st)) j = Some d" if "clock_owner st j = Some d" for j d
    using clk.owner_stays [OF inv, of "[(c, i, sys)]"] that by simp
  ultimately show ?thesis using InitClock by (simp add: clock_claim_def)
next
  case (SetGateMode g m)
  then show ?thesis using inv by (simp add: the_clock_set_gate_mode_def split: prod.splits)
next
  case (GetFreq c i)
  then show ?thesis using inv by (cases rule: get_freq_cases [OF inv, of i c sys]) auto
next
  case (SetFreq c i hz)
  then show ?thesis using inv by (cases rule: set_freq_cases [OF inv, of i c sys hz]) auto
next
  case (RegisterChild c p k)
  then show ?thesis using inv by (cases rule: register_child_cases [OF inv, of p c k sys]) auto
qed

lemma clock_run_ok:
  assumes "clock_inv st"
  shows "\<exists>st'. clock_run sys ops st = Inr st' \<and> clock_inv st' \<and>
    (\<forall>i d. clock_owner st i = Some d \<longrightarrow> clock_owner st' i = Some d)"
  using assms
proof (induction ops arbitrary: st)
  case Nil
  then show ?case by simp
next
  case (Cons op ops)
  from clock_do_ok [OF Cons.prems, of sys op] obtain st1 where
    "clock_do sys op st = Inr st1" "clock_inv st1"
    "\<forall>i d. clock_owner st i = Some d \<longrightarrow> clock_owner st1 i = Some d" by blast
  with Cons.IH [of st1] show ?case by auto
qed

text \<open>The server as seen by client \<open>c\<close>: the functions its library is initialised with.\<close>

definition clock_rpc :: "('clk, 'hw) clock_sys \<Rightarrow> u64 \<Rightarrow> ('clk, 'hw) clock_state clockserver_data" where
  "clock_rpc sys c =
     \<lparr>clockserver_init_clock = the_clock_init_clock sys c,
      clockserver_set_gate_mode = the_clock_set_gate_mode sys,
      clockserver_get_freq = (\<lambda>i st. case the_clock_get_freq sys c i st of Inr r \<Rightarrow> r | Inl _ \<Rightarrow> (0, st)),
      clockserver_set_freq = (\<lambda>i hz st. case the_clock_set_freq sys c i hz st of Inr r \<Rightarrow> r | Inl _ \<Rightarrow> (0, st)),
      clockserver_register_child =
        (\<lambda>p k st. case the_clock_register_child sys c p k st of Inr r \<Rightarrow> r | Inl _ \<Rightarrow> (-1, st))\<rparr>"

text \<open>A board with three clocks whose hardware is their frequencies.\<close>

definition demo_clocks :: "(nat, u64 list) clock_sys" where
  "demo_clocks =
     \<lparr>clk_get_clock = (\<lambda>i hw. (if i < 3 then Some (nat i) else None, hw)),
      clk_gate_enable = (\<lambda>g m hw. (0, hw)),
      clk_get_freq = (\<lambda>k hw. (hw ! k, hw)),
      clk_set_freq = (\<lambda>k hz hw. (hz, hw[k := hz])),
      clk_register_child = (\<lambda>p k hw. hw)\<rparr>"

definition demo_clock_state :: "(nat, u64 list) clock_state" where
  "demo_clock_state = \<lparr>clock_table = replicate 4 \<lparr>ce_initialised = False, ce_owner = 0, ce_clk = None\<rparr>,
     clock_hw = [100, 200, 300]\<rparr>"

lemma demo_clock_inv: "clock_inv demo_clock_state"
  by (simp add: clock_inv_def demo_clock_state_def)

section \<open>Properties\<close>

text \<open>
  Once client \<open>d\<close> owns a clock, every sequence of calls of any clients runs without
  fault and leaves the clock with \<open>d\<close>; a call of another client on it is refused (frequency
  0, or an error) and changes nothing, in the table or in the hardware.
\<close>

theorem clock_exclusive:
  assumes "clock_inv st" and "clock_owner st i = Some d"
  shows "(\<exists>st'. clock_run sys ops st = Inr st' \<and> clock_inv st' \<and> clock_owner st' i = Some d) \<and>
    (c \<noteq> d \<longrightarrow> the_clock_init_clock sys c i st = (-EBUSY, st) \<and>
      the_clock_get_freq sys c i st = Inr (0, st) \<and> the_clock_set_freq sys c i hz st = Inr (0, st) \<and>
      (\<exists>e. e \<noteq> 0 \<and> the_clock_register_child sys c i k st = Inr (e, st)))"
proof (intro conjI impI)
  show "\<exists>st'. clock_run sys ops st = Inr st' \<and> clock_inv st' \<and> clock_owner st' i = Some d"
    using clock_run_ok [OF assms(1), of sys ops] assms(2) by blast
  assume c: "c \<noteq> d"
  show "the_clock_init_clock sys c i st = (-EBUSY, st)"
    by (cases rule: clock_init_cases [of i st sys c])
      (use c assms(2) in \<open>auto simp: clock_owner_def\<close>)
  show "the_clock_get_freq sys c i st = Inr (0, st)"
    using c assms(2) by (cases rule: get_freq_cases [OF assms(1), of i c sys]) auto
  show "the_clock_set_freq sys c i hz st = Inr (0, st)"
    using c assms(2) by (cases rule: set_freq_cases [OF assms(1), of i c sys hz]) auto
  show "\<exists>e. e \<noteq> 0 \<and> the_clock_register_child sys c i k st = Inr (e, st)"
    using c assms(2) by (cases rule: register_child_cases [OF assms(1), of i c k sys]) auto
qed

theorem clock_exclusive_witness:
  "the_clock_set_freq demo_clocks 8 1 999 (snd (the_clock_init_clock demo_clocks 7 1 demo_clock_state)) =
    Inr (0, snd (the_clock_init_clock demo_clocks 7 1 demo_clock_state))"
proof -
  let ?st = "snd (the_clock_init_clock demo_clocks 7 1 demo_clock_state)"
  have "clock_inv ?st" using clk.inv_claim [OF demo_clock_inv] by (simp add: clock_claim_def)
  moreover have "clock_owner ?st 1 = Some 7"
    by (simp add: clock_owner_def check_valid_clk_id_def check_clk_initialised_def the_clock_init_clock_def
        demo_clock_state_def demo_clocks_def set_clk_def)
  ultimately show ?thesis using clock_exclusive [of ?st 1 7] by simp
qed



end
