(* ===== verification/GpioServer.thy ===== *)
theory GpioServer
  imports Ownership
begin

text \<open>
  \<open>components/GPIOMUXServer\<close>: the pins of the board behind a table of owners
  (\<open>src/gpio.c\<close>), the pin multiplexer behind the same server (\<open>src/mux.c\<close>), the client
  libraries of both, and the pin reservations of \<open>templates/seL4GPIOServer-to.template.c\<close>.
  The GPIO and mux drivers of libplatsupport are functions on a hardware state \<open>'hw\<close>; a pin
  handle of theirs is a value of \<open>'gpio\<close>.
\<close>

section \<open>The GPIO server\<close>

record ('gpio, 'hw) gpio_sys =
  gpio_new :: "int \<Rightarrow> int \<Rightarrow> 'hw \<Rightarrow> int \<times> 'gpio \<times> 'hw"
  gpio_set :: "'gpio \<Rightarrow> 'hw \<Rightarrow> int \<times> 'hw"
  gpio_clr :: "'gpio \<Rightarrow> 'hw \<Rightarrow> int \<times> 'hw"
  gpio_get :: "'gpio \<Rightarrow> 'hw \<Rightarrow> int \<times> 'hw"
  GPIO_DIR_IRQ_LOW :: int
  GPIO_DIR_IRQ_EDGE :: int
  GPIO_LEVEL_HIGH :: int
  GPIO_LEVEL_LOW :: int

record 'gpio gpio_entry =
  ge_initialised :: bool
  ge_owner :: u64
  ge_gpio :: 'gpio

record ('gpio, 'hw) gpio_state =
  gpio_table :: "'gpio gpio_entry list"
  gpio_hw :: 'hw

text \<open>
  The reservations the build computes: badges of clients with the pins they ask for.
  \<open>get_pin_assignee\<close> searches them by pin; 0 is nobody.
\<close>

type_synonym pin_allocation = "(u64 \<times> int list) list"

fun get_client_pins :: "pin_allocation \<Rightarrow> u64 \<Rightarrow> int list option" where
  "get_client_pins [] badge = None"
| "get_client_pins ((b, pins) # al) badge = (if badge = b then Some (pins @ [-1]) else get_client_pins al badge)"

fun num_client_pins :: "pin_allocation \<Rightarrow> u64 \<Rightarrow> nat" where
  "num_client_pins [] badge = 0"
| "num_client_pins ((b, pins) # al) badge = (if badge = b then length pins else num_client_pins al badge)"

fun get_pin_assignee :: "pin_allocation \<Rightarrow> int \<Rightarrow> u64" where
  "get_pin_assignee [] pin = 0"
| "get_pin_assignee ((b, pins) # al) pin = (if pin \<in> set pins then b else get_pin_assignee al pin)"

definition check_valid_gpio_id :: "int \<Rightarrow> ('gpio, 'hw) gpio_state \<Rightarrow> bool" where
  "check_valid_gpio_id pin_id st =
     (if pin_id < 0 \<or> int (length (gpio_table st)) \<le> pin_id then False else True)"

definition check_pin_initialised :: "int \<Rightarrow> ('gpio, 'hw) gpio_state \<Rightarrow> bool" where
  "check_pin_initialised pin_id st = ge_initialised (gpio_table st ! nat pin_id)"

definition check_client_owns_pin :: "int \<Rightarrow> u64 \<Rightarrow> ('gpio, 'hw) gpio_state \<Rightarrow> bool" where
  "check_client_owns_pin pin_id client_id st \<longleftrightarrow> ge_owner (gpio_table st ! nat pin_id) = client_id"

text \<open>The reservation is looked up for the client's badge, converted to a pin number.\<close>

definition the_gpio_init_pin ::
    "('gpio, 'hw) gpio_sys \<Rightarrow> pin_allocation \<Rightarrow> u64 \<Rightarrow> int \<Rightarrow> int \<Rightarrow> ('gpio, 'hw) gpio_state \<Rightarrow>
     int \<times> ('gpio, 'hw) gpio_state" where
  "the_gpio_init_pin sys al client_id pin_id dir st =
     (if \<not> check_valid_gpio_id pin_id st then (-EINVAL, st)
      else if GPIO_DIR_IRQ_LOW sys \<le> dir \<and> dir \<le> GPIO_DIR_IRQ_EDGE sys then (-EINVAL, st)
      else if check_client_owns_pin pin_id client_id st then (0, st)
      else if get_pin_assignee al (sint (ucast client_id :: cint)) \<noteq> 0 then (-EBUSY, st)
      else if check_pin_initialised pin_id st then (-EBUSY, st)
      else
        let (error, g, hw) = gpio_new sys pin_id dir (gpio_hw st);
            e = (gpio_table st ! nat pin_id)\<lparr>ge_gpio := g\<rparr>;
            e1 = (if error \<noteq> 0 then e else e\<lparr>ge_initialised := True, ge_owner := client_id\<rparr>)
        in (error, st\<lparr>gpio_table := (gpio_table st)[nat pin_id := e1], gpio_hw := hw\<rparr>))"

definition the_gpio_set_level ::
    "('gpio, 'hw) gpio_sys \<Rightarrow> u64 \<Rightarrow> int \<Rightarrow> int \<Rightarrow> ('gpio, 'hw) gpio_state \<Rightarrow> int \<times> ('gpio, 'hw) gpio_state" where
  "the_gpio_set_level sys client_id pin_id level st =
     (if \<not> check_valid_gpio_id pin_id st then (-EINVAL, st)
      else if \<not> check_client_owns_pin pin_id client_id st then (-EINVAL, st)
      else
        let g = ge_gpio (gpio_table st ! nat pin_id) in
        if level = GPIO_LEVEL_HIGH sys then
          let (error, hw) = gpio_set sys g (gpio_hw st) in (error, st\<lparr>gpio_hw := hw\<rparr>)
        else if level = GPIO_LEVEL_LOW sys then
          let (error, hw) = gpio_clr sys g (gpio_hw st) in (error, st\<lparr>gpio_hw := hw\<rparr>)
        else (-EINVAL, st))"

definition the_gpio_read_level ::
    "('gpio, 'hw) gpio_sys \<Rightarrow> u64 \<Rightarrow> int \<Rightarrow> ('gpio, 'hw) gpio_state \<Rightarrow> int \<times> ('gpio, 'hw) gpio_state" where
  "the_gpio_read_level sys client_id pin_id st =
     (if \<not> check_valid_gpio_id pin_id st then (-EINVAL, st)
      else if \<not> check_client_owns_pin pin_id client_id st then (-EINVAL, st)
      else
        let (ret, hw) = gpio_get sys (ge_gpio (gpio_table st ! nat pin_id)) (gpio_hw st)
        in (ret, st\<lparr>gpio_hw := hw\<rparr>))"

text \<open>
  \<open>gpio_component_init\<close>: \<open>g0\<close> is a zeroed handle; the first two arguments are the
  results of \<open>gpio_sys_init\<close> and \<open>ps_calloc\<close>.
\<close>

definition gpio_component_init ::
    "int \<Rightarrow> int \<Rightarrow> nat \<Rightarrow> 'gpio \<Rightarrow> 'hw \<Rightarrow> int \<times> ('gpio, 'hw) gpio_state option" where
  "gpio_component_init sys_error calloc_error max_gpio_id g0 hw =
     (if sys_error \<noteq> 0 then (sys_error, None)
      else if calloc_error \<noteq> 0 then (calloc_error, None)
      else (0, Some \<lparr>gpio_table = replicate (max_gpio_id + 1)
                       \<lparr>ge_initialised = False, ge_owner = -1, ge_gpio = g0\<rparr>,
                     gpio_hw = hw\<rparr>))"

section \<open>The multiplexer\<close>

record 'hw mux_sys =
  mux_feature_enable :: "int \<Rightarrow> int \<Rightarrow> 'hw \<Rightarrow> int \<times> 'hw"
  mux_feature_disable :: "int \<Rightarrow> 'hw \<Rightarrow> int \<times> 'hw"

definition the_mux_feature_enable :: "'hw mux_sys \<Rightarrow> int \<Rightarrow> int \<Rightarrow> 'hw \<Rightarrow> int \<times> 'hw" where
  "the_mux_feature_enable mux feature dir hw = mux_feature_enable mux feature dir hw"

definition the_mux_feature_disable :: "'hw mux_sys \<Rightarrow> int \<Rightarrow> 'hw \<Rightarrow> int \<times> 'hw" where
  "the_mux_feature_disable mux feature hw = mux_feature_disable mux feature hw"

text \<open>The arguments are the optional platform hook and \<open>mux_sys_init\<close>.\<close>

definition mux_component_init :: "('hw \<Rightarrow> int \<times> 'hw) option \<Rightarrow> ('hw \<Rightarrow> int \<times> 'hw) \<Rightarrow> 'hw \<Rightarrow> int \<times> 'hw" where
  "mux_component_init plat_init sys_init hw =
     (case plat_init of Some f \<Rightarrow> f hw | None \<Rightarrow> sys_init hw)"

section \<open>The client libraries\<close>

record 's gpiomuxserver_gpio_data =
  gpiomuxserver_init_pin :: "int \<Rightarrow> int \<Rightarrow> 's \<Rightarrow> int \<times> 's"
  gpiomuxserver_set_level :: "int \<Rightarrow> int \<Rightarrow> 's \<Rightarrow> int \<times> 's"
  gpiomuxserver_read_level :: "int \<Rightarrow> 's \<Rightarrow> int \<times> 's"

text \<open>A client's handle of a pin is its number.\<close>

definition gpiomuxserver_init_wrapper ::
    "'s gpiomuxserver_gpio_data \<Rightarrow> int \<Rightarrow> int \<Rightarrow> 's \<Rightarrow> int \<times> int option \<times> 's" where
  "gpiomuxserver_init_wrapper data i dir s =
     (let (error, s1) = gpiomuxserver_init_pin data i dir s
      in if error \<noteq> 0 then (error, None, s1) else (0, Some i, s1))"

definition gpiomuxserver_set_level_wrapper ::
    "'s gpiomuxserver_gpio_data \<Rightarrow> int \<Rightarrow> int \<Rightarrow> 's \<Rightarrow> int \<times> 's" where
  "gpiomuxserver_set_level_wrapper data gpio level s = gpiomuxserver_set_level data gpio level s"

definition gpiomuxserver_read_level_wrapper :: "'s gpiomuxserver_gpio_data \<Rightarrow> int \<Rightarrow> 's \<Rightarrow> int \<times> 's" where
  "gpiomuxserver_read_level_wrapper data gpio s = gpiomuxserver_read_level data gpio s"

definition gpiomuxserver_gpio_interface_init ::
    "(int \<Rightarrow> int \<Rightarrow> 's \<Rightarrow> int \<times> 's) option \<Rightarrow> (int \<Rightarrow> int \<Rightarrow> 's \<Rightarrow> int \<times> 's) option \<Rightarrow>
     (int \<Rightarrow> 's \<Rightarrow> int \<times> 's) option \<Rightarrow> bool \<Rightarrow> int + 's gpiomuxserver_gpio_data" where
  "gpiomuxserver_gpio_interface_init init_pin set_level read_level gpio_sys =
     (case init_pin of None \<Rightarrow> Inl (-EINVAL) | Some f1 \<Rightarrow>
     (case set_level of None \<Rightarrow> Inl (-EINVAL) | Some f2 \<Rightarrow>
     (case read_level of None \<Rightarrow> Inl (-EINVAL) | Some f3 \<Rightarrow>
        if \<not> gpio_sys then Inl (-EINVAL)
        else Inr \<lparr>gpiomuxserver_init_pin = f1, gpiomuxserver_set_level = f2,
                  gpiomuxserver_read_level = f3\<rparr>)))"

record 's gpiomuxserver_mux_data =
  gpiomuxserver_feature_enable :: "int \<Rightarrow> int \<Rightarrow> 's \<Rightarrow> int \<times> 's"
  gpiomuxserver_feature_disable :: "int \<Rightarrow> 's \<Rightarrow> int \<times> 's"

definition gpiomuxserver_feature_enable_wrapper ::
    "'s gpiomuxserver_mux_data \<Rightarrow> int \<Rightarrow> int \<Rightarrow> 's \<Rightarrow> int \<times> 's" where
  "gpiomuxserver_feature_enable_wrapper data feature dir s = gpiomuxserver_feature_enable data feature dir s"

definition gpiomuxserver_feature_disable_wrapper :: "'s gpiomuxserver_mux_data \<Rightarrow> int \<Rightarrow> 's \<Rightarrow> int \<times> 's" where
  "gpiomuxserver_feature_disable_wrapper data feature s = gpiomuxserver_feature_disable data feature s"

definition gpiomuxserver_mux_interface_init ::
    "(int \<Rightarrow> int \<Rightarrow> 's \<Rightarrow> int \<times> 's) option \<Rightarrow> (int \<Rightarrow> 's \<Rightarrow> int \<times> 's) option \<Rightarrow> bool \<Rightarrow>
     int + 's gpiomuxserver_mux_data" where
  "gpiomuxserver_mux_interface_init enable disable mux_sys =
     (case enable of None \<Rightarrow> Inl (-EINVAL) | Some f1 \<Rightarrow>
     (case disable of None \<Rightarrow> Inl (-EINVAL) | Some f2 \<Rightarrow>
        if \<not> mux_sys then Inl (-EINVAL)
        else Inr \<lparr>gpiomuxserver_feature_enable = f1, gpiomuxserver_feature_disable = f2\<rparr>))"

section \<open>Ownership of pins\<close>

definition gpio_owner :: "('gpio, 'hw) gpio_state \<Rightarrow> int \<Rightarrow> u64 option" where
  "gpio_owner st i = (if check_valid_gpio_id i st \<and> check_pin_initialised i st
     then Some (ge_owner (gpio_table st ! nat i)) else None)"

text \<open>The owner of a pin that is not initialised is -1, which is not a badge.\<close>

definition gpio_inv :: "('gpio, 'hw) gpio_state \<Rightarrow> bool" where
  "gpio_inv st \<longleftrightarrow> (\<forall>e \<in> set (gpio_table st). ge_initialised e \<longleftrightarrow> ge_owner e \<noteq> -1)"

definition gpio_claim ::
    "u64 \<Rightarrow> int \<times> int \<times> pin_allocation \<times> ('gpio, 'hw) gpio_sys \<Rightarrow> ('gpio, 'hw) gpio_state \<Rightarrow>
     int \<times> ('gpio, 'hw) gpio_state" where
  "gpio_claim c r st = (case r of (i, dir, al, sys) \<Rightarrow> the_gpio_init_pin sys al c i dir st)"

lemma gpio_owns:
  assumes "gpio_inv st" and "check_valid_gpio_id i st" and "c \<noteq> -1"
  shows "check_client_owns_pin i c st \<longleftrightarrow> gpio_owner st i = Some c"
proof -
  have "gpio_table st ! nat i \<in> set (gpio_table st)"
    using assms(2) by (auto simp: check_valid_gpio_id_def split: if_splits)
  then have "ge_initialised (gpio_table st ! nat i) \<longleftrightarrow> ge_owner (gpio_table st ! nat i) \<noteq> -1"
    using assms(1) by (simp add: gpio_inv_def)
  then show ?thesis
    using assms(2,3) by (auto simp: check_client_owns_pin_def gpio_owner_def check_pin_initialised_def)
qed

definition set_gpio :: "int \<Rightarrow> 'gpio gpio_entry \<Rightarrow> 'hw \<Rightarrow> ('gpio, 'hw) gpio_state \<Rightarrow> ('gpio, 'hw) gpio_state" where
  "set_gpio i e hw st = st\<lparr>gpio_table := (gpio_table st)[nat i := e], gpio_hw := hw\<rparr>"

lemma set_gpio_owner:
  assumes "check_valid_gpio_id i st"
  shows "gpio_owner (set_gpio i e hw st) j =
    (if j = i then if ge_initialised e then Some (ge_owner e) else None else gpio_owner st j)"
  using assms
  by (auto simp: gpio_owner_def set_gpio_def check_valid_gpio_id_def check_pin_initialised_def
      nth_list_update split: if_splits)

lemma set_gpio_inv:
  assumes "gpio_inv st" and "ge_initialised e \<longleftrightarrow> ge_owner e \<noteq> -1"
  shows "gpio_inv (set_gpio i e hw st)"
  using assms by (auto simp: gpio_inv_def set_gpio_def dest!: set_update_subset_insert [THEN subsetD])

lemma gpio_init_cases:
  assumes inv: "gpio_inv st" and c: "c \<noteq> -1"
  obtains (refused) e where "e < 0" "gpio_owner st i \<noteq> Some c \<or> e = -EINVAL"
      "the_gpio_init_pin sys al c i dir st = (e, st)"
  | (mine) "gpio_owner st i = Some c" "the_gpio_init_pin sys al c i dir st = (0, st)"
  | (driver) err g hw where "gpio_owner st i = None" "check_valid_gpio_id i st"
      "gpio_new sys i dir (gpio_hw st) = (err, g, hw)"
      "the_gpio_init_pin sys al c i dir st = (err, set_gpio i
         (if err \<noteq> 0 then (gpio_table st ! nat i)\<lparr>ge_gpio := g\<rparr>
          else (gpio_table st ! nat i)\<lparr>ge_gpio := g, ge_initialised := True, ge_owner := c\<rparr>) hw st)"
proof (cases "check_valid_gpio_id i st \<and> \<not> (GPIO_DIR_IRQ_LOW sys \<le> dir \<and> dir \<le> GPIO_DIR_IRQ_EDGE sys)")
  case False
  then have "the_gpio_init_pin sys al c i dir st = (-EINVAL, st)"
    by (auto simp: the_gpio_init_pin_def)
  then show thesis by (intro refused) auto
next
  case v: True
  note own = gpio_owns [OF inv _ c, of i]
  obtain err g hw where new: "gpio_new sys i dir (gpio_hw st) = (err, g, hw)" by (metis prod.collapse)
  consider (a) "gpio_owner st i = Some c"
    | (b) "gpio_owner st i \<noteq> Some c" "get_pin_assignee al (sint (ucast c :: cint)) \<noteq> 0 \<or> check_pin_initialised i st"
    | (d) "gpio_owner st i \<noteq> Some c" "get_pin_assignee al (sint (ucast c :: cint)) = 0" "\<not> check_pin_initialised i st"
    by blast
  then show thesis
  proof cases
    case a
    then show thesis using v own by (intro mine) (auto simp: the_gpio_init_pin_def)
  next
    case b
    then have "the_gpio_init_pin sys al c i dir st = (-EBUSY, st)"
      using v own by (auto simp: the_gpio_init_pin_def)
    then show thesis using b(1) by (intro refused) auto
  next
    case d
    then have "gpio_owner st i = None" using v by (simp add: gpio_owner_def)
    with d show thesis
      using v own new by (intro driver [of err g hw]) (auto simp: the_gpio_init_pin_def set_gpio_def Let_def)
  qed
qed

lemma gpio_free_entry:
  assumes "gpio_inv st" and "gpio_owner st i = None" and "check_valid_gpio_id i st"
  shows "\<not> ge_initialised (gpio_table st ! nat i)" "ge_owner (gpio_table st ! nat i) = -1"
proof -
  have "gpio_table st ! nat i \<in> set (gpio_table st)"
    using assms(3) by (auto simp: check_valid_gpio_id_def split: if_splits)
  then show "\<not> ge_initialised (gpio_table st ! nat i)" "ge_owner (gpio_table st ! nat i) = -1"
    using assms by (auto simp: gpio_inv_def gpio_owner_def check_pin_initialised_def split: if_splits)
qed

interpretation gpio: ownership gpio_inv "\<lambda>c. c \<noteq> -1" gpio_owner gpio_claim
proof unfold_locales
  fix st :: "('a, 'b) gpio_state" and c :: u64 and i and a :: "int \<times> pin_allocation \<times> ('a, 'b) gpio_sys"
  assume inv: "gpio_inv st" and c: "c \<noteq> -1"
  obtain dir al sys where a: "a = (dir, al, sys)" by (cases a)
  have claim: "gpio_claim c (i, a) st = the_gpio_init_pin sys al c i dir st"
    by (simp add: gpio_claim_def a)
  note free = gpio_free_entry [OF inv, of i]
  show "gpio_inv (snd (gpio_claim c (i, a) st))"
    unfolding claim by (cases rule: gpio_init_cases [OF inv c, of i sys al dir])
      (use inv c free in \<open>auto intro!: set_gpio_inv\<close>)
  show "gpio_owner (snd (gpio_claim c (i, a) st)) j = gpio_owner st j" if "j \<noteq> i" for j
    unfolding claim by (cases rule: gpio_init_cases [OF inv c, of i sys al dir])
      (use that in \<open>auto simp: set_gpio_owner\<close>)
  show "gpio_owner (snd (gpio_claim c (i, a) st)) i = Some d" if "gpio_owner st i = Some d" for d
    unfolding claim by (cases rule: gpio_init_cases [OF inv c, of i sys al dir])
      (use that in auto)
  show "gpio_owner (snd (gpio_claim c (i, a) st)) i = (if fst (gpio_claim c (i, a) st) = 0 then Some c else None)"
    if "gpio_owner st i = None"
    unfolding claim by (cases rule: gpio_init_cases [OF inv c, of i sys al dir])
      (use that free in \<open>auto simp: set_gpio_owner\<close>)
qed

section \<open>Executions\<close>

datatype gpio_op =
    InitPin u64 int int
  | SetLevel u64 int int
  | ReadLevel u64 int

fun gpio_do ::
    "('gpio, 'hw) gpio_sys \<Rightarrow> pin_allocation \<Rightarrow> gpio_op \<Rightarrow> ('gpio, 'hw) gpio_state \<Rightarrow> ('gpio, 'hw) gpio_state" where
  "gpio_do sys al (InitPin c i dir) st = snd (the_gpio_init_pin sys al c i dir st)"
| "gpio_do sys al (SetLevel c i level) st = snd (the_gpio_set_level sys c i level st)"
| "gpio_do sys al (ReadLevel c i) st = snd (the_gpio_read_level sys c i st)"

fun gpio_run ::
    "('gpio, 'hw) gpio_sys \<Rightarrow> pin_allocation \<Rightarrow> gpio_op list \<Rightarrow> ('gpio, 'hw) gpio_state \<Rightarrow> ('gpio, 'hw) gpio_state" where
  "gpio_run sys al [] st = st"
| "gpio_run sys al (op # ops) st = gpio_run sys al ops (gpio_do sys al op st)"

fun gpio_client :: "gpio_op \<Rightarrow> u64" where
  "gpio_client (InitPin c i dir) = c"
| "gpio_client (SetLevel c i level) = c"
| "gpio_client (ReadLevel c i) = c"

lemma gpio_hw_only [simp]:
  "gpio_inv (st\<lparr>gpio_hw := hw\<rparr>) = gpio_inv st" "gpio_owner (st\<lparr>gpio_hw := hw\<rparr>) i = gpio_owner st i"
  by (simp_all add: gpio_inv_def gpio_owner_def check_valid_gpio_id_def check_pin_initialised_def)

lemma gpio_do_ok:
  assumes inv: "gpio_inv st" and c: "gpio_client op \<noteq> -1"
  shows "gpio_inv (gpio_do sys al op st) \<and>
    (gpio_owner st i = Some d \<longrightarrow> gpio_owner (gpio_do sys al op st) i = Some d)"
proof (cases op)
  case (InitPin k j dir)
  have claim: "gpio_do sys al op st = snd (gpio_claim k (j, dir, al, sys) st)"
    using InitPin by (simp add: gpio_claim_def)
  show ?thesis
    using gpio.inv_claim [OF inv, of k j "(dir, al, sys)"]
      gpio.owner_stays [OF inv, of "[(k, j, dir, al, sys)]" i d] c InitPin
    unfolding claim by simp
next
  case (SetLevel k j level)
  then show ?thesis using inv by (simp add: the_gpio_set_level_def Let_def split: prod.splits)
next
  case (ReadLevel k j)
  then show ?thesis using inv by (simp add: the_gpio_read_level_def split: prod.splits)
qed

lemma gpio_run_ok:
  assumes "gpio_inv st" and "list_all (\<lambda>op. gpio_client op \<noteq> -1) ops"
  shows "gpio_inv (gpio_run sys al ops st) \<and>
    (gpio_owner st i = Some d \<longrightarrow> gpio_owner (gpio_run sys al ops st) i = Some d)"
  using assms
proof (induction ops arbitrary: st)
  case (Cons op ops)
  then show ?case using gpio_do_ok [of st op] by simp
qed simp

text \<open>A board with eight pins whose hardware is the level of each.\<close>

definition demo_gpio :: "(nat, int list) gpio_sys" where
  "demo_gpio =
     \<lparr>gpio_new = (\<lambda>i dir hw. (0, nat i, hw)), gpio_set = (\<lambda>g hw. (0, hw[g := 1])),
      gpio_clr = (\<lambda>g hw. (0, hw[g := 0])), gpio_get = (\<lambda>g hw. (hw ! g, hw)),
      GPIO_DIR_IRQ_LOW = 2, GPIO_DIR_IRQ_EDGE = 6, GPIO_LEVEL_HIGH = 1, GPIO_LEVEL_LOW = 0\<rparr>"

definition demo_gpio_state :: "(nat, int list) gpio_state" where
  "demo_gpio_state = \<lparr>gpio_table = replicate 8 \<lparr>ge_initialised = False, ge_owner = -1, ge_gpio = 0\<rparr>,
     gpio_hw = replicate 8 0\<rparr>"

lemma demo_gpio_inv: "gpio_inv demo_gpio_state"
  by (simp add: gpio_inv_def demo_gpio_state_def)

section \<open>Properties\<close>

text \<open>
  A pin belongs to the first client that initialises it: it stays with that client under
  every sequence of calls, its owner's calls reach the driver's handle of that pin, and the
  calls of any other client are refused and change nothing.
\<close>

theorem gpio_exclusive:
  assumes "gpio_inv st" and "gpio_owner st i = Some d" and "list_all (\<lambda>op. gpio_client op \<noteq> -1) ops"
    and "c \<noteq> -1"
  shows "gpio_inv (gpio_run sys al ops st) \<and> gpio_owner (gpio_run sys al ops st) i = Some d \<and>
    (if c = d then
       the_gpio_read_level sys c i st =
         (let (ret, hw) = gpio_get sys (ge_gpio (gpio_table st ! nat i)) (gpio_hw st) in (ret, st\<lparr>gpio_hw := hw\<rparr>))
     else the_gpio_set_level sys c i level st = (-EINVAL, st) \<and> the_gpio_read_level sys c i st = (-EINVAL, st) \<and>
       (\<exists>e < 0. the_gpio_init_pin sys al c i dir st = (e, st)))"
proof (intro conjI)
  show "gpio_inv (gpio_run sys al ops st)" "gpio_owner (gpio_run sys al ops st) i = Some d"
    using gpio_run_ok [OF assms(1,3), of sys al i d] assms(2) by simp_all
  have v: "check_valid_gpio_id i st" using assms(2) by (simp add: gpio_owner_def split: if_splits)
  have "\<exists>e < 0. the_gpio_init_pin sys al c i dir st = (e, st)" if "c \<noteq> d"
    using that assms(2)
    by (cases rule: gpio_init_cases [OF assms(1,4), of i sys al dir]) auto
  then show "if c = d then
       the_gpio_read_level sys c i st =
         (let (ret, hw) = gpio_get sys (ge_gpio (gpio_table st ! nat i)) (gpio_hw st) in (ret, st\<lparr>gpio_hw := hw\<rparr>))
     else the_gpio_set_level sys c i level st = (-EINVAL, st) \<and> the_gpio_read_level sys c i st = (-EINVAL, st) \<and>
       (\<exists>e < 0. the_gpio_init_pin sys al c i dir st = (e, st))"
    using v gpio_owns [OF assms(1) v assms(4)] assms(2)
    by (cases "c = d") (simp_all add: the_gpio_read_level_def the_gpio_set_level_def)
qed

theorem gpio_exclusive_witness:
  "the_gpio_set_level demo_gpio 6 3 1 (snd (the_gpio_init_pin demo_gpio [] 5 3 0 demo_gpio_state)) =
     (-EINVAL, snd (the_gpio_init_pin demo_gpio [] 5 3 0 demo_gpio_state))"
proof -
  let ?st = "snd (the_gpio_init_pin demo_gpio [] 5 3 0 demo_gpio_state)"
  have "gpio_inv ?st"
    using gpio.inv_claim [OF demo_gpio_inv, of 5 3 "(0, [], demo_gpio)"] by (simp add: gpio_claim_def)
  moreover have "gpio_owner ?st 3 = Some 5"
    by (simp add: gpio_owner_def check_valid_gpio_id_def check_pin_initialised_def the_gpio_init_pin_def
        check_client_owns_pin_def demo_gpio_state_def demo_gpio_def)
  ultimately show ?thesis
    using gpio_exclusive [of ?st 3 5 "[]" 6 demo_gpio "[]" 1] by simp
qed

text \<open>
  The reservation test looks up the caller's badge instead of the pin: a pin that is
  reserved for another client goes to whoever asks first (unless a pin whose number is that
  badge is reserved), and a client whose badge is the number of a reserved pin is refused
  every pin, even one reserved for it.
\<close>

theorem gpio_reservation_by_badge:
  assumes "gpio_inv st" and "c \<noteq> -1" and "check_valid_gpio_id pin st" and "gpio_owner st pin = None"
    and "\<not> (GPIO_DIR_IRQ_LOW sys \<le> dir \<and> dir \<le> GPIO_DIR_IRQ_EDGE sys)"
  shows "if get_pin_assignee al (sint (ucast c :: cint)) = 0
    then fst (the_gpio_init_pin sys al c pin dir st) = fst (gpio_new sys pin dir (gpio_hw st))
    else the_gpio_init_pin sys al c pin dir st = (-EBUSY, st)"
proof -
  have "\<not> check_client_owns_pin pin c st"
    using gpio_owns [OF assms(1,3,2)] assms(4) by simp
  moreover have "\<not> check_pin_initialised pin st"
    using gpio_free_entry(1) [OF assms(1,4,3)] by (simp add: check_pin_initialised_def)
  ultimately show ?thesis
    using assms(3,5) by (auto simp: the_gpio_init_pin_def Let_def split: prod.splits)
qed

theorem gpio_reservation_by_badge_witness:
  "get_pin_assignee [(2, [4])] 4 = 2 \<and>
   fst (the_gpio_init_pin demo_gpio [(2, [4])] 1 4 0 demo_gpio_state) = 0 \<and>
   fst (the_gpio_init_pin demo_gpio [(2, [2, 4])] 2 4 0 demo_gpio_state) = -EBUSY"
proof -
  have v: "check_valid_gpio_id 4 demo_gpio_state"
    by (simp add: check_valid_gpio_id_def demo_gpio_state_def)
  have o: "gpio_owner demo_gpio_state 4 = None"
    by (simp add: gpio_owner_def check_pin_initialised_def demo_gpio_state_def)
  show ?thesis
    using gpio_reservation_by_badge [OF demo_gpio_inv _ v o, of 1 demo_gpio 0 "[(2, [4])]"]
      gpio_reservation_by_badge [OF demo_gpio_inv _ v o, of 2 demo_gpio 0 "[(2, [2, 4])]"]
    by (simp add: demo_gpio_def)
qed

end
