(* ===== verification/FileServer.thy ===== *)
theory FileServer
  imports Prelude
begin

text \<open>
  The FileServer, \<open>components/FileServer/src/server.c\<close>, and its client library
  \<open>libFileServer-client/fsclient.c\<close>. The server serves read-only files out of a CPIO archive to several
  clients; a descriptor belongs to the client that opened it, and file data passes through a shared
  buffer of the client. The client library turns the \<open>read\<close> system calls into as many requests as the
  size of this buffer makes necessary.

  The C library (libsel4muslcsys) behind \<open>open\<close>, \<open>read\<close>, \<open>lseek\<close> and \<open>close\<close> is a parameter over an
  abstract state; \<open>posix_ok\<close> states its documented behaviour on regular files. Installing the archive
  and the system call table (\<open>pre_init\<close>, \<open>install_fileserver\<close>) is left out.
\<close>

section \<open>The server\<close>

text \<open>\<open>c_read\<close> also returns the bytes it stores. \<open>fd_open\<close> says that the descriptor is valid and of type
  \<open>FILE_TYPE_CPIO\<close>.\<close>

record 'fs posix =
  c_open :: "string \<Rightarrow> int \<Rightarrow> 'fs \<Rightarrow> int \<times> 'fs"
  c_lseek :: "int \<Rightarrow> int \<Rightarrow> int \<Rightarrow> 'fs \<Rightarrow> int \<times> 'fs"
  c_read :: "int \<Rightarrow> nat \<Rightarrow> 'fs \<Rightarrow> int \<times> u8 list \<times> 'fs"
  c_close :: "int \<Rightarrow> 'fs \<Rightarrow> int \<times> 'fs"
  valid_fd :: "int \<Rightarrow> 'fs \<Rightarrow> bool"
  cpio_fd :: "int \<Rightarrow> 'fs \<Rightarrow> bool"

definition EBADF :: int where "EBADF = 9"
definition ENOMEM :: int where "ENOMEM = 12"
definition EINVAL :: int where "EINVAL = 22"

text \<open>\<open>fd_client\<close> is the \<open>client\<close> field of a descriptor's data, \<open>ctrl_buf\<close> the buffer shared with a client.\<close>

record 'fs file_server =
  fs :: 'fs
  fd_client :: "int \<Rightarrow> u64"
  ctrl_buf :: "u64 \<Rightarrow> u8 list option"

definition validate_client_fd :: "'fs posix \<Rightarrow> int \<Rightarrow> u64 \<Rightarrow> 'fs file_server \<Rightarrow> bool" where
  "validate_client_fd C fd client st =
     (if \<not> valid_fd C fd (fs st) then False
      else if \<not> cpio_fd C fd (fs st) then False
      else if fd_client st fd \<noteq> client then False
      else True)"

text \<open>\<open>alloc_ok\<close>: \<open>realloc\<close> succeeds.\<close>

definition fs_ctrl_open ::
  "'fs posix \<Rightarrow> bool \<Rightarrow> u64 \<Rightarrow> string \<Rightarrow> int \<Rightarrow> 'fs file_server \<Rightarrow> (int \<times> 'fs file_server) outcome" where
  "fs_ctrl_open C alloc_ok sender name flags st =
     (let (fd, f) = c_open C name flags (fs st)
      in if fd < 0 then Inr (fd, st\<lparr>fs := f\<rparr>)
         else obind (ensure (valid_fd C fd f) AssertionFailed) (\<lambda>_.
           if \<not> alloc_ok then Inr (- ENOMEM, st\<lparr>fs := snd (c_close C fd f)\<rparr>)
           else Inr (fd, st\<lparr>fs := f, fd_client := (fd_client st)(fd := sender)\<rparr>)))"

definition fs_ctrl_seek ::
  "'fs posix \<Rightarrow> u64 \<Rightarrow> int \<Rightarrow> int \<Rightarrow> int \<Rightarrow> 'fs file_server \<Rightarrow> (int \<times> 'fs file_server) outcome" where
  "fs_ctrl_seek C sender fd offset whence st =
     (if \<not> validate_client_fd C fd sender st then Inr (-1, st)
      else let (r, f) = c_lseek C fd offset whence (fs st) in Inr (r, st\<lparr>fs := f\<rparr>))"

definition fs_ctrl_read ::
  "'fs posix \<Rightarrow> u64 \<Rightarrow> int \<Rightarrow> nat \<Rightarrow> 'fs file_server \<Rightarrow> (int \<times> 'fs file_server) outcome" where
  "fs_ctrl_read C sender fd size' st =
     (if \<not> validate_client_fd C fd sender st then Inr (-1, st)
      else (case ctrl_buf st sender of
              None \<Rightarrow> Inl AssertionFailed
            | Some buf \<Rightarrow>
                let (r, bytes, f) = c_read C fd (min size' (length buf)) (fs st)
                in obind (memcpy buf bytes (length bytes)) (\<lambda>buf'.
                     Inr (r, st\<lparr>fs := f, ctrl_buf := (ctrl_buf st)(sender \<mapsto> buf')\<rparr>))))"

definition fs_ctrl_close ::
  "'fs posix \<Rightarrow> u64 \<Rightarrow> int \<Rightarrow> 'fs file_server \<Rightarrow> (int \<times> 'fs file_server) outcome" where
  "fs_ctrl_close C sender fd st =
     (if \<not> validate_client_fd C fd sender st then Inr (- EBADF, st)
      else let (r, f) = c_close C fd (fs st) in Inr (r, st\<lparr>fs := f\<rparr>))"

text \<open>The requests of a client.\<close>

datatype fs_request = FsOpen bool string int | FsSeek int int int | FsRead int nat | FsClose int

fun fs_serve :: "'fs posix \<Rightarrow> u64 \<Rightarrow> fs_request \<Rightarrow> 'fs file_server \<Rightarrow> (int \<times> 'fs file_server) outcome" where
  "fs_serve C sender (FsOpen alloc_ok name flags) st = fs_ctrl_open C alloc_ok sender name flags st"
| "fs_serve C sender (FsSeek fd offset whence) st = fs_ctrl_seek C sender fd offset whence st"
| "fs_serve C sender (FsRead fd n) st = fs_ctrl_read C sender fd n st"
| "fs_serve C sender (FsClose fd) st = fs_ctrl_close C sender fd st"

fun fs_run :: "'fs posix \<Rightarrow> (u64 \<times> fs_request) list \<Rightarrow> 'fs file_server \<Rightarrow> 'fs file_server outcome" where
  "fs_run C [] st = Inr st"
| "fs_run C ((sender, r) # rs) st = obind (fs_serve C sender r st) (\<lambda>(_, st'). fs_run C rs st')"

section \<open>The client library\<close>

text \<open>The operations it is installed with; \<open>ext_read\<close> returns the result and the contents of \<open>ext_buf\<close>.\<close>

record 's file_server_interface =
  ext_open :: "string \<Rightarrow> int \<Rightarrow> 's \<Rightarrow> (int \<times> 's) outcome"
  ext_read :: "int \<Rightarrow> nat \<Rightarrow> 's \<Rightarrow> (int \<times> u8 list \<times> 's) outcome"
  ext_seek :: "int \<Rightarrow> int \<Rightarrow> int \<Rightarrow> 's \<Rightarrow> (int \<times> 's) outcome"
  ext_close :: "int \<Rightarrow> 's \<Rightarrow> (int \<times> 's) outcome"

definition AT_FDCWD :: int where "AT_FDCWD = -100"

definition fileserver_open :: "'s file_server_interface \<Rightarrow> string \<Rightarrow> int \<Rightarrow> 's \<Rightarrow> (int \<times> 's) outcome" where
  "fileserver_open E pathname flags s = ext_open E pathname flags s"

definition fileserver_openat :: "'s file_server_interface \<Rightarrow> int \<Rightarrow> string \<Rightarrow> int \<Rightarrow> 's \<Rightarrow> (int \<times> 's) outcome" where
  "fileserver_openat E dirfd pathname flags s =
     (if dirfd \<noteq> AT_FDCWD then Inr (- EINVAL, s) else ext_open E pathname flags s)"

definition fileserver_close :: "'s file_server_interface \<Rightarrow> int \<Rightarrow> 's \<Rightarrow> (int \<times> 's) outcome" where
  "fileserver_close E fd s = ext_close E fd s"

text \<open>The loop of \<open>fileserver_read\<close> and of one element of \<open>fileserver_readv\<close>: \<open>got\<close> are the bytes stored so
  far. \<open>memcpy\<close> stores \<open>result\<close> bytes of \<open>ext_buf\<close> behind them.\<close>

fun read_loop :: "'s file_server_interface \<Rightarrow> nat \<Rightarrow> int \<Rightarrow> nat \<Rightarrow> u8 list \<Rightarrow> 's \<Rightarrow> (bool \<times> u8 list \<times> 's) outcome" where
  "read_loop E 0 fd cnt got s = Inl OutOfFuel"
| "read_loop E (Suc n) fd cnt got s =
     (if length got < cnt then
        obind (ext_read E fd (cnt - length got) s) (\<lambda>(result, ext_buf, s').
          if result \<le> 0 then Inr (False, got, s')
          else if nat result \<le> length ext_buf \<and> length got + nat result \<le> cnt
          then read_loop E n fd cnt (got @ take (nat result) ext_buf) s'
          else Inl OutOfBounds)
      else Inr (True, got, s))"

definition fileserver_read :: "'s file_server_interface \<Rightarrow> int \<Rightarrow> nat \<Rightarrow> 's \<Rightarrow> (int \<times> u8 list \<times> 's) outcome" where
  "fileserver_read E fd cnt s =
     obind (read_loop E (Suc cnt) fd cnt [] s) (\<lambda>(_, got, s'). Inr (int (length got), got, s'))"

fun readv_loop :: "'s file_server_interface \<Rightarrow> int \<Rightarrow> nat list \<Rightarrow> u8 list list \<Rightarrow> 's \<Rightarrow> (u8 list list \<times> 's) outcome" where
  "readv_loop E fd [] got s = Inr (got, s)"
| "readv_loop E fd (len # iov) got s =
     obind (read_loop E (Suc len) fd len [] s) (\<lambda>(full, bytes, s').
       if full then readv_loop E fd iov (got @ [bytes]) s' else Inr (got @ [bytes], s'))"

definition fileserver_readv ::
  "'s file_server_interface \<Rightarrow> int \<Rightarrow> nat list \<Rightarrow> 's \<Rightarrow> (int \<times> u8 list list \<times> 's) outcome" where
  "fileserver_readv E fd iov s =
     obind (readv_loop E fd iov [] s) (\<lambda>(got, s'). Inr (int (length (concat got)), got, s'))"

definition fileserver_lseek :: "'s file_server_interface \<Rightarrow> int \<Rightarrow> int \<Rightarrow> int \<Rightarrow> 's \<Rightarrow> (int \<times> 's) outcome" where
  "fileserver_lseek E fd offset whence s = ext_seek E fd offset whence s"

text \<open>The result of the system call is always 0; the new offset goes to \<open>*result\<close>.\<close>

definition fileserver_llseek ::
  "'s file_server_interface \<Rightarrow> int \<Rightarrow> u32 \<Rightarrow> u32 \<Rightarrow> int \<Rightarrow> 's \<Rightarrow> (int \<times> int \<times> 's) outcome" where
  "fileserver_llseek E fd offset_high offset_low whence s =
     obind (ext_seek E fd (sint (push_bit 32 (ucast offset_high) OR ucast offset_low :: u64)) whence s)
       (\<lambda>(result, s'). Inr (0, result, s'))"

text \<open>A client \<open>A\<close> connected to the server: before each request arrives, other clients may have been
  served; \<open>others\<close> lists these requests, one list for each request of \<open>A\<close>.\<close>

type_synonym 'fs connected = "(u64 \<times> fs_request) list list \<times> 'fs file_server"

definition let_others :: "'fs posix \<Rightarrow> 'fs connected \<Rightarrow> ('fs connected) outcome" where
  "let_others C s = (case fst s of
       [] \<Rightarrow> Inr s
     | rs # others \<Rightarrow> obind (fs_run C rs (snd s)) (\<lambda>st. Inr (others, st)))"

definition connection :: "'fs posix \<Rightarrow> u64 \<Rightarrow> ('fs connected) file_server_interface" where
  "connection C A = \<lparr>
     ext_open = (\<lambda>name flags s. obind (let_others C s) (\<lambda>(o', st).
       obind (fs_ctrl_open C True A name flags st) (\<lambda>(r, st'). Inr (r, o', st')))),
     ext_read = (\<lambda>fd n s. obind (let_others C s) (\<lambda>(o', st).
       obind (fs_ctrl_read C A fd n st) (\<lambda>(r, st').
         case ctrl_buf st' A of None \<Rightarrow> Inl NullDeref | Some buf \<Rightarrow> Inr (r, buf, o', st')))),
     ext_seek = (\<lambda>fd off wh s. obind (let_others C s) (\<lambda>(o', st).
       obind (fs_ctrl_seek C A fd off wh st) (\<lambda>(r, st'). Inr (r, o', st')))),
     ext_close = (\<lambda>fd s. obind (let_others C s) (\<lambda>(o', st).
       obind (fs_ctrl_close C A fd st) (\<lambda>(r, st'). Inr (r, o', st'))))\<rparr>"

section \<open>What the C library promises\<close>

text \<open>\<open>file f fd\<close> is the content and the position of an open descriptor. An operation touches only its
  descriptor, \<open>open\<close> gives out a new one, \<open>read\<close> returns the bytes from the position on, at most as many
  as asked for, and advances it.\<close>

definition posix_ok :: "'fs posix \<Rightarrow> ('fs \<Rightarrow> int \<Rightarrow> (u8 list \<times> nat) option) \<Rightarrow> bool" where
  "posix_ok C file \<longleftrightarrow>
     (\<forall>f fd. (valid_fd C fd f \<and> cpio_fd C fd f) = (file f fd \<noteq> None)) \<and>
     (\<forall>f name flags fd f'. c_open C name flags f = (fd, f') \<longrightarrow>
        (fd < 0 \<longrightarrow> file f' = file f) \<and>
        (0 \<le> fd \<longrightarrow> file f fd = None \<and> valid_fd C fd f' \<and> (\<forall>k. k \<noteq> fd \<longrightarrow> file f' k = file f k))) \<and>
     (\<forall>f fd off wh k. k \<noteq> fd \<longrightarrow> file (snd (c_lseek C fd off wh f)) k = file f k) \<and>
     (\<forall>f fd k. k \<noteq> fd \<longrightarrow> file (snd (c_close C fd f)) k = file f k) \<and>
     (\<forall>f fd n r bs f'. c_read C fd n f = (r, bs, f') \<longrightarrow> length bs \<le> n \<and> (\<forall>k. k \<noteq> fd \<longrightarrow> file f' k = file f k) \<and>
        (\<forall>content pos. file f fd = Some (content, pos) \<longrightarrow>
           bs = take n (drop pos content) \<and> r = int (length bs) \<and> file f' fd = Some (content, pos + length bs)))"

lemma posix_okD:
  assumes "posix_ok C file"
  shows "valid_fd C fd f \<and> cpio_fd C fd f \<longleftrightarrow> file f fd \<noteq> None"
    and "c_open C name flags f = (fd, f') \<Longrightarrow> fd < 0 \<Longrightarrow> file f' = file f"
    and "c_open C name flags f = (fd, f') \<Longrightarrow> 0 \<le> fd \<Longrightarrow>
      file f fd = None \<and> valid_fd C fd f' \<and> (\<forall>k. k \<noteq> fd \<longrightarrow> file f' k = file f k)"
    and "c_lseek C fd off wh f = (r, f') \<Longrightarrow> k \<noteq> fd \<Longrightarrow> file f' k = file f k"
    and "c_close C fd f = (r, f') \<Longrightarrow> k \<noteq> fd \<Longrightarrow> file f' k = file f k"
    and "c_read C fd n f = (r, bs, f') \<Longrightarrow> length bs \<le> n \<and> (\<forall>k. k \<noteq> fd \<longrightarrow> file f' k = file f k)"
    and "c_read C fd n f = (r, bs, f') \<Longrightarrow> file f fd = Some (content, pos) \<Longrightarrow>
      bs = take n (drop pos content) \<and> r = int (length bs) \<and> file f' fd = Some (content, pos + length bs)"
proof -
  show "valid_fd C fd f \<and> cpio_fd C fd f \<longleftrightarrow> file f fd \<noteq> None"
    using assms by (simp add: posix_ok_def)
  show "c_open C name flags f = (fd, f') \<Longrightarrow> fd < 0 \<Longrightarrow> file f' = file f"
    using assms unfolding posix_ok_def by blast
  show "c_open C name flags f = (fd, f') \<Longrightarrow> 0 \<le> fd \<Longrightarrow>
      file f fd = None \<and> valid_fd C fd f' \<and> (\<forall>k. k \<noteq> fd \<longrightarrow> file f' k = file f k)"
    using assms unfolding posix_ok_def by blast
  show "c_lseek C fd off wh f = (r, f') \<Longrightarrow> k \<noteq> fd \<Longrightarrow> file f' k = file f k"
    using assms unfolding posix_ok_def by (metis snd_conv)
  show "c_close C fd f = (r, f') \<Longrightarrow> k \<noteq> fd \<Longrightarrow> file f' k = file f k"
    using assms unfolding posix_ok_def by (metis snd_conv)
  show "c_read C fd n f = (r, bs, f') \<Longrightarrow> length bs \<le> n \<and> (\<forall>k. k \<noteq> fd \<longrightarrow> file f' k = file f k)"
    using assms unfolding posix_ok_def by blast
  show "c_read C fd n f = (r, bs, f') \<Longrightarrow> file f fd = Some (content, pos) \<Longrightarrow>
      bs = take n (drop pos content) \<and> r = int (length bs) \<and> file f' fd = Some (content, pos + length bs)"
    using assms unfolding posix_ok_def by blast
qed

section \<open>Descriptors belong to their client\<close>

text \<open>Descriptor \<open>fd\<close> is open for client \<open>A\<close> at \<open>x\<close>, and clients have their buffers.\<close>

definition owns :: "('fs \<Rightarrow> int \<Rightarrow> (u8 list \<times> nat) option) \<Rightarrow> u64 \<Rightarrow> int \<Rightarrow> u8 list \<times> nat \<Rightarrow> 'fs file_server \<Rightarrow> bool" where
  "owns file A fd x st \<longleftrightarrow> file (fs st) fd = Some x \<and> fd_client st fd = A"

definition bufs_ok :: "'fs file_server \<Rightarrow> bool" where
  "bufs_ok st \<longleftrightarrow> (\<forall>c. ctrl_buf st c \<noteq> None)"

lemma validate_refuses:
  "posix_ok C file \<Longrightarrow> owns file A fd x st \<Longrightarrow> B \<noteq> A \<Longrightarrow> \<not> validate_client_fd C fd B st"
  by (simp add: validate_client_fd_def owns_def)

lemma fs_serve_other:
  assumes ok: "posix_ok C file" and own: "owns file A fd x st" and other: "B \<noteq> A" and bufs: "bufs_ok st"
  obtains r st' where "fs_serve C B q st = Inr (r, st')" "owns file A fd x st'" "bufs_ok st'" "ctrl_buf st' A = ctrl_buf st A"
proof (cases q)
  case (FsOpen alloc_ok name flags)
  obtain k f where k: "c_open C name flags (fs st) = (k, f)" by fastforce
  obtain rc f2 where c: "c_close C k f = (rc, f2)" by fastforce
  show thesis
  proof (cases "k < 0")
    case True
    with k FsOpen own bufs posix_okD(2) [OF ok k True] show thesis
      by (intro that [of k "st\<lparr>fs := f\<rparr>"]) (auto simp: fs_ctrl_open_def owns_def bufs_ok_def)
  next
    case False
    then have 1: "file (fs st) k = None" "valid_fd C k f" "\<forall>j. j \<noteq> k \<longrightarrow> file f j = file (fs st) j"
      using posix_okD(3) [OF ok k] by simp_all
    then have "fd \<noteq> k" using own by (auto simp: owns_def)
    then have 2: "file f fd = Some x" "file f2 fd = Some x"
      using 1(3) own posix_okD(5) [OF ok c] by (auto simp: owns_def)
    show thesis
    proof (cases alloc_ok)
      case True
      with k FsOpen False 1(2) 2 own bufs \<open>fd \<noteq> k\<close> show thesis
        by (intro that [of k "st\<lparr>fs := f, fd_client := (fd_client st)(k := B)\<rparr>"])
          (auto simp: fs_ctrl_open_def owns_def bufs_ok_def)
    next
      case refused: False
      with k c FsOpen False 1(2) 2 own bufs show thesis
        by (intro that [of "- ENOMEM" "st\<lparr>fs := f2\<rparr>"]) (auto simp: fs_ctrl_open_def owns_def bufs_ok_def)
    qed
  qed
next
  case (FsSeek k off wh)
  show thesis
  proof (cases "validate_client_fd C k B st")
    case True
    then have "k \<noteq> fd" using validate_refuses [OF ok own other] by auto
    obtain r f where l: "c_lseek C k off wh (fs st) = (r, f)" by fastforce
    then have "file f fd = Some x" using posix_okD(4) [OF ok l] \<open>k \<noteq> fd\<close> own by (simp add: owns_def)
    with l FsSeek True own bufs show thesis
      by (intro that [of r "st\<lparr>fs := f\<rparr>"]) (auto simp: fs_ctrl_seek_def owns_def bufs_ok_def)
  next
    case False
    with FsSeek own bufs show thesis by (intro that) (auto simp: fs_ctrl_seek_def)
  qed
next
  case (FsRead k n)
  show thesis
  proof (cases "validate_client_fd C k B st")
    case True
    then have "k \<noteq> fd" using validate_refuses [OF ok own other] by auto
    obtain buf where b: "ctrl_buf st B = Some buf" using bufs by (auto simp: bufs_ok_def)
    obtain r bs f where rd: "c_read C k (min n (length buf)) (fs st) = (r, bs, f)" using prod_cases3 by blast
    have "length bs \<le> length buf" "file f fd = Some x"
      using posix_okD(6) [OF ok rd] \<open>k \<noteq> fd\<close> own by (auto simp: owns_def)
    with b rd FsRead True own bufs other show thesis
      by (intro that [of r "st\<lparr>fs := f, ctrl_buf := (ctrl_buf st)(B \<mapsto> bs @ drop (length bs) buf)\<rparr>"])
        (auto simp: fs_ctrl_read_def owns_def bufs_ok_def)
  next
    case False
    with FsRead own bufs show thesis by (intro that) (auto simp: fs_ctrl_read_def)
  qed
next
  case (FsClose k)
  show thesis
  proof (cases "validate_client_fd C k B st")
    case True
    then have "k \<noteq> fd" using validate_refuses [OF ok own other] by auto
    obtain r f where l: "c_close C k (fs st) = (r, f)" by fastforce
    then have "file f fd = Some x" using posix_okD(5) [OF ok l] \<open>k \<noteq> fd\<close> own by (simp add: owns_def)
    with l FsClose True own bufs show thesis
      by (intro that [of r "st\<lparr>fs := f\<rparr>"]) (auto simp: fs_ctrl_close_def owns_def bufs_ok_def)
  next
    case False
    with FsClose own bufs show thesis by (intro that) (auto simp: fs_ctrl_close_def)
  qed
qed

lemma fs_run_others:
  assumes ok: "posix_ok C file"
  shows "owns file A fd x st \<Longrightarrow> bufs_ok st \<Longrightarrow> \<forall>(B, q) \<in> set rs. B \<noteq> A \<Longrightarrow>
    \<exists>st'. fs_run C rs st = Inr st' \<and> owns file A fd x st' \<and> bufs_ok st' \<and> ctrl_buf st' A = ctrl_buf st A"
proof (induction rs arbitrary: st)
  case (Cons r rs)
  obtain B q where r: "r = (B, q)" by fastforce
  with Cons.prems(3) have "B \<noteq> A" by simp
  from fs_serve_other [OF ok Cons.prems(1) this Cons.prems(2), of q] obtain v st1 where
    "fs_serve C B q st = Inr (v, st1)" "owns file A fd x st1" "bufs_ok st1" "ctrl_buf st1 A = ctrl_buf st A" .
  with Cons.IH [of st1] Cons.prems(3) r show ?case by simp
qed simp

section \<open>Reading through the buffer\<close>

lemma let_others_owns:
  assumes ok: "posix_ok C file" and own: "owns file A fd x (snd s)" and bufs: "bufs_ok (snd s)"
    and others: "\<forall>rs \<in> set (fst s). \<forall>(B, q) \<in> set rs. B \<noteq> A"
  obtains o' st where "let_others C s = Inr (o', st)" "owns file A fd x st" "bufs_ok st"
    "ctrl_buf st A = ctrl_buf (snd s) A" "set o' \<subseteq> set (fst s)"
proof (cases "fst s")
  case Nil
  then have "let_others C s = Inr (fst s, snd s)" by (simp add: let_others_def prod_eq_iff)
  then show thesis by (rule that) (use own bufs in simp_all)
next
  case (Cons rs o')
  then have "\<forall>(B, q) \<in> set rs. B \<noteq> A" using others by simp
  from fs_run_others [OF ok own bufs this] obtain st where
    "fs_run C rs (snd s) = Inr st" "owns file A fd x st" "bufs_ok st" "ctrl_buf st A = ctrl_buf (snd s) A" by blast
  with that [of o' st] Cons show thesis by (auto simp: let_others_def)
qed

text \<open>One request of \<open>A\<close>: the next bytes of the file, as many as the buffer holds.\<close>

lemma connection_read:
  assumes ok: "posix_ok C file" and own: "owns file A fd (content, pos) (snd s)" and bufs: "bufs_ok (snd s)"
    and others: "\<forall>rs \<in> set (fst s). \<forall>(B, q) \<in> set rs. B \<noteq> A" and buf: "ctrl_buf (snd s) A = Some b"
  obtains s' b' where "ext_read (connection C A) fd n s =
      Inr (int (min (min n (length b)) (length content - pos)), b', s')"
    "take (min (min n (length b)) (length content - pos)) b' = take (min n (length b)) (drop pos content)"
    "owns file A fd (content, pos + min (min n (length b)) (length content - pos)) (snd s')" "bufs_ok (snd s')"
    "ctrl_buf (snd s') A = Some b'" "length b' = length b" "set (fst s') \<subseteq> set (fst s)"
proof -
  obtain o' st where l: "let_others C s = Inr (o', st)" "owns file A fd (content, pos) st" "bufs_ok st"
    "ctrl_buf st A = Some b" "set o' \<subseteq> set (fst s)"
    using let_others_owns [OF ok own bufs others] buf by metis
  let ?m = "min n (length b)"
  obtain r bs f where rd: "c_read C fd ?m (fs st) = (r, bs, f)" using prod_cases3 by blast
  have "file (fs st) fd = Some (content, pos)" and cl: "fd_client st fd = A" using l(2) by (simp_all add: owns_def)
  with posix_okD(7) [OF ok rd] have rd2: "bs = take ?m (drop pos content)" "r = int (length bs)"
    "file f fd = Some (content, pos + length bs)" by blast+
  have len: "length bs = min ?m (length content - pos)" by (simp add: rd2(1))
  have v: "validate_client_fd C fd A st"
    using posix_okD(1) [OF ok, of fd "fs st"] \<open>file (fs st) fd = Some (content, pos)\<close> cl
    by (simp add: validate_client_fd_def)
  let ?b = "bs @ drop (length bs) b"
  have "length ?b = length b" using len by simp
  let ?st = "st\<lparr>fs := f, ctrl_buf := (ctrl_buf st)(A \<mapsto> ?b)\<rparr>"
  have "fs_ctrl_read C A fd n st = Inr (r, ?st)"
    using v l(4) rd len by (simp add: fs_ctrl_read_def)
  then have 1: "ext_read (connection C A) fd n s = Inr (r, ?b, (o', ?st))"
    by (simp add: connection_def l(1))
  have "take (length bs) ?b = bs" by simp
  then have 2: "take (length bs) ?b = take ?m (drop pos content)" unfolding rd2(1) .
  have 3: "owns file A fd (content, pos + length bs) (snd (o', ?st))" "bufs_ok (snd (o', ?st))"
    using rd2(3) cl l(3) by (simp_all add: owns_def bufs_ok_def)
  have 4: "ctrl_buf (snd (o', ?st)) A = Some ?b" "set (fst (o', ?st)) \<subseteq> set (fst s)" using l(5) by simp_all
  note res = that [of ?b "(o', ?st)", folded len, folded rd2(2)]
  show thesis by (rule res) (fact 1 2 3 4 \<open>length ?b = length b\<close>)+
qed

lemma read_loop_connected:
  assumes ok: "posix_ok C file"
  shows "owns file A fd (content, pos) (snd s) \<Longrightarrow> bufs_ok (snd s) \<Longrightarrow>
    \<forall>rs \<in> set (fst s). \<forall>(B, q) \<in> set rs. B \<noteq> A \<Longrightarrow> ctrl_buf (snd s) A = Some b \<Longrightarrow> b \<noteq> [] \<Longrightarrow>
    length got \<le> cnt \<Longrightarrow> cnt - length got < n \<Longrightarrow>
    \<exists>full s'. read_loop (connection C A) n fd cnt got s = Inr (full, got @ take (cnt - length got) (drop pos content), s') \<and>
      owns file A fd (content, pos + length (take (cnt - length got) (drop pos content))) (snd s') \<and> bufs_ok (snd s')"
proof (induction n arbitrary: got s pos b)
  case 0
  then show ?case by simp
next
  case (Suc n)
  show ?case
  proof (cases "length got < cnt")
    case False
    with Suc.prems(1,2,6) show ?thesis by (intro exI [of _ True] exI [of _ s]) simp
  next
    case True
    let ?want = "cnt - length got"
    let ?m = "min (min ?want (length b)) (length content - pos)"
    obtain s1 b1 where 1: "ext_read (connection C A) fd ?want s = Inr (int ?m, b1, s1)"
      "take ?m b1 = take (min ?want (length b)) (drop pos content)"
      "owns file A fd (content, pos + ?m) (snd s1)" "bufs_ok (snd s1)" "ctrl_buf (snd s1) A = Some b1"
      "length b1 = length b" "set (fst s1) \<subseteq> set (fst s)"
      by (rule connection_read [OF ok Suc.prems(1-4)])
    show ?thesis
    proof (cases "?m = 0")
      case end_of_file: True
      then have "length content \<le> pos" using True Suc.prems(5) by (auto simp: min_def split: if_splits)
      then show ?thesis using True 1(1,3,4) end_of_file
        by (intro exI [of _ False] exI [of _ s1]) simp
    next
      case False
      let ?got = "got @ take ?m b1"
      have len: "length ?got = length got + ?m" using 1(6) by simp
      have fits: "nat (int ?m) \<le> length b1 \<and> length got + nat (int ?m) \<le> cnt" using 1(6) True by (auto simp: min_def)
      have m: "\<not> int ?m \<le> 0" using False by linarith
      have "read_loop (connection C A) (Suc n) fd cnt got s = read_loop (connection C A) n fd cnt ?got s1"
        using True m fits unfolding read_loop.simps 1(1) obind_Inr prod.case by (simp only: if_True if_False nat_int simp_thms)
      moreover have "\<exists>full s'. read_loop (connection C A) n fd cnt ?got s1 =
            Inr (full, ?got @ take (cnt - length ?got) (drop (pos + ?m) content), s') \<and>
          owns file A fd (content, pos + ?m + length (take (cnt - length ?got) (drop (pos + ?m) content))) (snd s') \<and> bufs_ok (snd s')"
      proof (rule Suc.IH [OF 1(3,4) _ 1(5)])
        show "\<forall>rs \<in> set (fst s1). \<forall>(B, q) \<in> set rs. B \<noteq> A" using Suc.prems(3) 1(7) by blast
        show "b1 \<noteq> []" using 1(6) Suc.prems(5) by auto
        show "length ?got \<le> cnt" unfolding len using fits by simp
        show "cnt - length ?got < n" unfolding len using Suc.prems(7) True False by linarith
      qed
      moreover have "?got @ take (cnt - length ?got) (drop (pos + ?m) content) = got @ take ?want (drop pos content)"
      proof -
        have "take ?m (drop pos content) = take (min ?want (length b)) (drop pos content)"
          by (simp add: min_def)
        then have "take ?m b1 = take ?m (drop pos content)" using 1(2) by simp
        moreover have "cnt - length ?got = ?want - ?m" unfolding len by simp
        moreover have "take ?m (drop pos content) @ take (?want - ?m) (drop ?m (drop pos content)) = take ?want (drop pos content)"
          by (metis append_take_drop_id min.cobounded1 min.coboundedI1 take_drop le_add_diff_inverse take_add)
        ultimately show ?thesis by (simp only: append_assoc drop_drop add.commute [of pos])
      qed
      moreover have "pos + ?m + length (take (cnt - length ?got) (drop (pos + ?m) content)) = pos + length (take ?want (drop pos content))"
        unfolding len using True by (auto simp: min_def)
      ultimately show ?thesis by metis
    qed
  qed
qed

section \<open>Properties\<close>

text \<open>A file system to apply the theorems to: the open files by descriptor, every new one with the same
  content.\<close>

definition list_posix :: "(u8 list \<times> nat) option list posix" where
  "list_posix = \<lparr>
     c_open = (\<lambda>name flags f. (int (length f), f @ [Some ([10, 20, 30, 40, 50], 0)])),
     c_lseek = (\<lambda>fd off wh f. (-1, f)),
     c_read = (\<lambda>fd n f. if 0 \<le> fd \<and> nat fd < length f then
         (case f ! nat fd of None \<Rightarrow> (-1, [], f)
          | Some (content, pos) \<Rightarrow> let bs = take n (drop pos content)
              in (int (length bs), bs, f[nat fd := Some (content, pos + length bs)]))
       else (-1, [], f)),
     c_close = (\<lambda>fd f. (0, if 0 \<le> fd then f[nat fd := None] else f)),
     valid_fd = (\<lambda>fd f. 0 \<le> fd \<and> nat fd < length f \<and> f ! nat fd \<noteq> None), cpio_fd = (\<lambda>fd f. True)\<rparr>"

definition list_file :: "(u8 list \<times> nat) option list \<Rightarrow> int \<Rightarrow> (u8 list \<times> nat) option" where
  "list_file f fd = (if 0 \<le> fd \<and> nat fd < length f then f ! nat fd else None)"

lemma list_posix_ok: "posix_ok list_posix list_file"
  unfolding posix_ok_def list_posix_def list_file_def
  by (auto simp: Let_def nth_append nth_list_update split: if_splits option.splits)

definition files_w0 :: "(u8 list \<times> nat) option list file_server" where
  "files_w0 = \<lparr>fs = [Some ([10, 20, 30, 40, 50], 0)], fd_client = (\<lambda>_. 1), ctrl_buf = (\<lambda>_. Some [0, 0])\<rparr>"

lemma files_w0: "owns list_file 1 0 ([10, 20, 30, 40, 50], 0) files_w0" "bufs_ok files_w0"
  by (simp_all add: owns_def bufs_ok_def files_w0_def list_file_def)

text \<open>
  C14. A client that reads a file through the client library gets what a single read would give: the next
  \<open>count\<close> bytes of the file, or all that are left, in order, whatever the size of the shared buffer and
  whatever other clients ask of the server between its requests; the file's position advances by as much.
\<close>
theorem file_read_complete:
  assumes "posix_ok C file" and "owns file A fd (content, pos) (snd s)" and "bufs_ok (snd s)"
    and "\<forall>rs \<in> set (fst s). \<forall>(B, q) \<in> set rs. B \<noteq> A" and "ctrl_buf (snd s) A = Some b" and "b \<noteq> []"
  shows "\<exists>s'. fileserver_read (connection C A) fd cnt s =
      Inr (int (min cnt (length content - pos)), take cnt (drop pos content), s') \<and>
    owns file A fd (content, pos + min cnt (length content - pos)) (snd s')"
proof -
  from read_loop_connected [OF assms, of "[]" cnt "Suc cnt"] obtain full s' where
    "read_loop (connection C A) (Suc cnt) fd cnt [] s = Inr (full, take cnt (drop pos content), s')"
    "owns file A fd (content, pos + length (take cnt (drop pos content))) (snd s')" by auto
  then show ?thesis by (intro exI [of _ s']) (simp add: fileserver_read_def min.commute)
qed

theorem file_read_complete_witness:
  "\<exists>s'. fileserver_read (connection list_posix 1) 0 4 ([[(2, FsRead 0 9)], [(3, FsOpen True ''f'' 0), (3, FsRead 1 2)]], files_w0) =
      Inr (4, [10, 20, 30, 40], s') \<and> owns list_file 1 0 ([10, 20, 30, 40, 50], 4) (snd s')"
  using file_read_complete [OF list_posix_ok, of 1 0 "[10, 20, 30, 40, 50]" 0
      "([[(2, FsRead 0 9)], [(3, FsOpen True ''f'' 0), (3, FsRead 1 2)]], files_w0)" "[0, 0]" 4]
    files_w0 by (simp add: files_w0_def numeral_eq_Suc)

text \<open>
  C15. A descriptor serves only the client that opened it: requests of other clients that name it are
  refused and change nothing, and no sequence of their requests moves, closes or takes over the
  descriptor, or writes to the buffer of its client.
\<close>
theorem file_descriptor_isolated:
  assumes "posix_ok C file" and "owns file A fd x st" and "bufs_ok st" and "\<forall>(B, q) \<in> set rs. B \<noteq> A"
  shows "\<exists>st'. fs_run C rs st = Inr st' \<and> owns file A fd x st' \<and> ctrl_buf st' A = ctrl_buf st A \<and>
    (\<forall>B. B \<noteq> A \<longrightarrow> (\<forall>n. fs_serve C B (FsRead fd n) st' = Inr (-1, st')) \<and>
      (\<forall>off wh. fs_serve C B (FsSeek fd off wh) st' = Inr (-1, st')) \<and> fs_serve C B (FsClose fd) st' = Inr (- EBADF, st'))"
proof -
  from fs_run_others [OF assms] obtain st' where
    st': "fs_run C rs st = Inr st'" "owns file A fd x st'" "ctrl_buf st' A = ctrl_buf st A" by blast
  with validate_refuses [OF assms(1) st'(2)] show ?thesis
    by (intro exI [of _ st']) (simp add: fs_ctrl_read_def fs_ctrl_seek_def fs_ctrl_close_def)
qed

theorem file_descriptor_isolated_witness:
  "\<exists>st'. fs_run list_posix [(2, FsRead 0 9), (3, FsOpen True ''f'' 0), (3, FsClose 1), (2, FsClose 0)] files_w0 = Inr st' \<and>
    owns list_file 1 0 ([10, 20, 30, 40, 50], 0) st'"
  using file_descriptor_isolated [OF list_posix_ok files_w0,
      of "[(2, FsRead 0 9), (3, FsOpen True ''f'' 0), (3, FsClose 1), (2, FsClose 0)]"] by auto

text \<open>\<open>fileserver_llseek\<close> reports success whatever the server answers.\<close>

lemma llseek_ignores_error:
  "ext_seek E fd (sint (push_bit 32 (ucast hi) OR ucast lo :: u64)) whence s = Inr (-1, s') \<Longrightarrow>
   fileserver_llseek E fd hi lo whence s = Inr (0, -1, s')"
  by (simp add: fileserver_llseek_def)

end
