(* ===== verification/PciConfig.thy ===== *)
theory PciConfig
  imports Prelude
begin

text \<open>
  The PCIConfigIO component, \<open>components/PCIConfigIO/src/pci.c\<close>: access to the configuration space of PCI
  functions through the address port 0xcf8 and the data ports 0xcfc to 0xcff. The port operations of
  the platform are a parameter over an abstract state. \<open>pre_init\<close>, which only fetches them, is left out.
\<close>

section \<open>Operations\<close>

datatype iosize = IOSIZE_8 | IOSIZE_16 | IOSIZE_32

record 'h io_port_ops =
  ps_io_port_out :: "u32 \<Rightarrow> iosize \<Rightarrow> u32 \<Rightarrow> 'h \<Rightarrow> int \<times> 'h"
  ps_io_port_in :: "u32 \<Rightarrow> iosize \<Rightarrow> 'h \<Rightarrow> int \<times> u32 \<times> 'h"

definition CONFIG_ADDR :: u32 where "CONFIG_ADDR = 0xcf8"
definition CONFIG_DATA :: u32 where "CONFIG_DATA = 0xcfc"

definition config_address :: "u8 \<Rightarrow> u8 \<Rightarrow> u8 \<Rightarrow> u32 \<Rightarrow> u32" where
  "config_address bus dev fn offset =
     push_bit 16 (ucast bus) OR push_bit 11 (ucast dev) OR push_bit 8 (ucast fn) OR (offset AND 0xfc) OR 0x80000000"

definition config_select :: "'h io_port_ops \<Rightarrow> u8 \<Rightarrow> u8 \<Rightarrow> u8 \<Rightarrow> u32 \<Rightarrow> 'h \<Rightarrow> 'h" where
  "config_select io bus dev fn offset h = snd (ps_io_port_out io CONFIG_ADDR IOSIZE_32 (config_address bus dev fn offset) h)"

definition pci_config_read8 :: "'h io_port_ops \<Rightarrow> u8 \<Rightarrow> u8 \<Rightarrow> u8 \<Rightarrow> u32 \<Rightarrow> 'h \<Rightarrow> u8 \<times> 'h" where
  "pci_config_read8 io bus dev fn offset h =
     (let h1 = config_select io bus dev fn offset h;
          (error, result, h2) = ps_io_port_in io (CONFIG_DATA + (offset AND 3)) IOSIZE_8 h1
      in (if error \<noteq> 0 then 0 else ucast result, h2))"

definition pci_config_read16 :: "'h io_port_ops \<Rightarrow> u8 \<Rightarrow> u8 \<Rightarrow> u8 \<Rightarrow> u32 \<Rightarrow> 'h \<Rightarrow> u16 \<times> 'h" where
  "pci_config_read16 io bus dev fn offset h =
     (let h1 = config_select io bus dev fn offset h;
          (error, result, h2) = ps_io_port_in io (CONFIG_DATA + (offset AND 2)) IOSIZE_16 h1
      in (if error \<noteq> 0 then 0 else ucast result, h2))"

definition pci_config_read32 :: "'h io_port_ops \<Rightarrow> u8 \<Rightarrow> u8 \<Rightarrow> u8 \<Rightarrow> u32 \<Rightarrow> 'h \<Rightarrow> u32 \<times> 'h" where
  "pci_config_read32 io bus dev fn offset h =
     (let h1 = config_select io bus dev fn offset h;
          (error, result, h2) = ps_io_port_in io CONFIG_DATA IOSIZE_32 h1
      in (if error \<noteq> 0 then 0 else result, h2))"

definition pci_config_write8 :: "'h io_port_ops \<Rightarrow> u8 \<Rightarrow> u8 \<Rightarrow> u8 \<Rightarrow> u32 \<Rightarrow> u8 \<Rightarrow> 'h \<Rightarrow> 'h" where
  "pci_config_write8 io bus dev fn offset val h =
     snd (ps_io_port_out io (CONFIG_DATA + (offset AND 3)) IOSIZE_8 (ucast val) (config_select io bus dev fn offset h))"

definition pci_config_write16 :: "'h io_port_ops \<Rightarrow> u8 \<Rightarrow> u8 \<Rightarrow> u8 \<Rightarrow> u32 \<Rightarrow> u16 \<Rightarrow> 'h \<Rightarrow> 'h" where
  "pci_config_write16 io bus dev fn offset val h =
     snd (ps_io_port_out io (CONFIG_DATA + (offset AND 2)) IOSIZE_16 (ucast val) (config_select io bus dev fn offset h))"

definition pci_config_write32 :: "'h io_port_ops \<Rightarrow> u8 \<Rightarrow> u8 \<Rightarrow> u8 \<Rightarrow> u32 \<Rightarrow> u32 \<Rightarrow> 'h \<Rightarrow> 'h" where
  "pci_config_write32 io bus dev fn offset val h =
     snd (ps_io_port_out io CONFIG_DATA IOSIZE_32 val (config_select io bus dev fn offset h))"

section \<open>The host bridge\<close>

text \<open>What the ports do, by the PCI specification, for registers that hold what is written: the bridge
  remembers the selected address, and data port \<open>0xcfc + k\<close> stands for byte \<open>k\<close> of the selected double
  word. \<open>cfg\<close> is the configuration space, by address of a double word and byte.\<close>

record bridge =
  selected :: u32
  cfg :: "u32 \<Rightarrow> nat \<Rightarrow> u8"

fun io_bytes :: "iosize \<Rightarrow> nat" where
  "io_bytes IOSIZE_8 = 1" | "io_bytes IOSIZE_16 = 2" | "io_bytes IOSIZE_32 = 4"

definition byte_of :: "u32 \<Rightarrow> nat \<Rightarrow> u8" where
  "byte_of v k = ucast (drop_bit (8 * k) v)"

definition bridge_out :: "u32 \<Rightarrow> iosize \<Rightarrow> u32 \<Rightarrow> bridge \<Rightarrow> int \<times> bridge" where
  "bridge_out port n v br =
     (if port = CONFIG_ADDR then (0, br\<lparr>selected := v\<rparr>)
      else let k = unat (port - CONFIG_DATA)
           in (0, br\<lparr>cfg := (cfg br)(selected br := (\<lambda>i. if k \<le> i \<and> i < k + io_bytes n then byte_of v (i - k) else cfg br (selected br) i))\<rparr>))"

definition bridge_in :: "u32 \<Rightarrow> iosize \<Rightarrow> bridge \<Rightarrow> int \<times> u32 \<times> bridge" where
  "bridge_in port n br =
     (let k = unat (port - CONFIG_DATA); b = (\<lambda>i. if i < io_bytes n then ucast (cfg br (selected br) (k + i)) else (0 :: u32))
      in (0, b 0 OR push_bit 8 (b 1) OR push_bit 16 (b 2) OR push_bit 24 (b 3), br))"

definition bridge_io :: "bridge io_port_ops" where
  "bridge_io = \<lparr>ps_io_port_out = bridge_out, ps_io_port_in = bridge_in\<rparr>"

section \<open>Addresses\<close>

lemma small_bits:
  assumes "unat (w :: u8) < 2 ^ m" "bit w k" shows "k < m"
proof -
  have "take_bit m (unat w) = unat w" using assms(1) by (rule take_bit_nat_eq_self)
  moreover have "bit (unat w) k" using assms(2) by (simp add: bit_unsigned_iff)
  ultimately show ?thesis by (metis bit_take_bit_iff)
qed

lemma bit_0xfc: "bit (0xfc :: u32) k \<longleftrightarrow> 2 \<le> k \<and> k < 8"
proof -
  have eq: "(0xfc :: u32) = push_bit 2 (mask 6)" by (simp add: mask_eq_exp_minus_1)
  show ?thesis unfolding eq bit_push_bit_iff bit_mask_iff possible_bit_word by auto
qed

lemma bit_0x80000000: "bit (0x80000000 :: u32) k \<longleftrightarrow> k = 31"
proof -
  have eq: "(0x80000000 :: u32) = push_bit 31 1" by simp
  show ?thesis unfolding eq bit_push_bit_iff bit_1_iff possible_bit_word by auto
qed

lemma bit_config_address:
  assumes "unat dev < 32" "unat fn < 8"
  shows "bit (config_address bus dev fn offset) k \<longleftrightarrow>
    (if k < 8 then 2 \<le> k \<and> bit offset k else if k < 11 then bit fn (k - 8)
     else if k < 16 then bit dev (k - 11) else if k < 24 then bit bus (k - 16) else k = 31)"
proof -
  have lhs: "bit (config_address bus dev fn offset) k \<longleftrightarrow> k < 32 \<and>
     (16 \<le> k \<and> bit bus (k - 16) \<or> 11 \<le> k \<and> bit dev (k - 11) \<or> 8 \<le> k \<and> bit fn (k - 8) \<or>
      bit offset k \<and> 2 \<le> k \<and> k < 8 \<or> k = 31)"
    unfolding config_address_def bit_or_iff bit_and_iff bit_push_bit_iff bit_ucast_iff possible_bit_word bit_0xfc bit_0x80000000
    by auto
  have small: "bit bus (k - 16) \<Longrightarrow> k < 24" "bit dev (k - 11) \<Longrightarrow> k < 16" "bit fn (k - 8) \<Longrightarrow> k < 11"
    using bit_imp_le_length [of bus "k - 16"] small_bits [of dev 5 "k - 11"] small_bits [of fn 3 "k - 8"] assms by auto
  consider "k < 8" | "8 \<le> k" "k < 11" | "11 \<le> k" "k < 16" | "16 \<le> k" "k < 24" | "24 \<le> k" by linarith
  then show ?thesis unfolding lhs by cases (use small in auto)
qed

lemma config_address_fields:
  assumes "unat dev < 32" "unat fn < 8"
  shows "ucast (drop_bit 16 (config_address bus dev fn offset)) = bus"
    and "take_bit 5 (ucast (drop_bit 11 (config_address bus dev fn offset))) = dev"
    and "take_bit 3 (ucast (drop_bit 8 (config_address bus dev fn offset))) = fn"
    and "config_address bus dev fn offset AND 0xfc = offset AND 0xfc"
proof -
  note bits = bit_config_address [OF assms]
  show "ucast (drop_bit 16 (config_address bus dev fn offset)) = bus"
    by (rule bit_word_eqI) (simp add: bit_simps bits)
  show "take_bit 5 (ucast (drop_bit 11 (config_address bus dev fn offset))) = dev"
    by (rule bit_word_eqI) (use small_bits [of dev 5] assms in \<open>auto simp: bit_simps bits\<close>)
  show "take_bit 3 (ucast (drop_bit 8 (config_address bus dev fn offset))) = fn"
    by (rule bit_word_eqI) (use small_bits [of fn 3] assms in \<open>auto simp: bit_simps bits\<close>)
  show "config_address bus dev fn offset AND 0xfc = offset AND 0xfc"
    by (rule bit_word_eqI) (unfold bit_and_iff bits bit_0xfc, auto)
qed

lemma config_address_inj:
  assumes "unat dev < 32" "unat fn < 8" "unat dev' < 32" "unat fn' < 8"
  shows "config_address bus dev fn offset = config_address bus' dev' fn' offset' \<longleftrightarrow>
    bus = bus' \<and> dev = dev' \<and> fn = fn' \<and> offset AND 0xfc = offset' AND 0xfc"
  using config_address_fields [OF assms(1,2)] config_address_fields [OF assms(3,4)]
  by (metis config_address_def)

text \<open>A device number of 32 or more reaches into the bus number.\<close>

lemma config_address_alias: "config_address 0 32 fn offset = config_address 1 0 fn offset"
  by (simp add: config_address_def)

section \<open>Reads and writes\<close>

lemma and3_less: "unat (x AND 3 :: u32) < 4" "unat (x AND 2 :: u32) < 4"
  using word_and_le1 [of x 3] word_and_le1 [of x 2] by (simp_all add: word_le_nat_alt)

lemma data_port: "unat x < 4 \<Longrightarrow> CONFIG_DATA + x \<noteq> CONFIG_ADDR"
proof
  assume "unat x < 4" "CONFIG_DATA + x = CONFIG_ADDR"
  then have "x = CONFIG_ADDR - CONFIG_DATA" by (metis add_diff_cancel_left')
  then show False using \<open>unat x < 4\<close> by (simp add: CONFIG_ADDR_def CONFIG_DATA_def)
qed

lemma bridge_select: "config_select bridge_io bus dev fn offset br = br\<lparr>selected := config_address bus dev fn offset\<rparr>"
  by (simp add: config_select_def bridge_io_def bridge_out_def)

lemma bridge_out_data:
  assumes "unat x < 4"
  shows "snd (bridge_out (CONFIG_DATA + x) n v br) =
    br\<lparr>cfg := (cfg br)(selected br := (\<lambda>i. if unat x \<le> i \<and> i < unat x + io_bytes n then byte_of v (i - unat x) else cfg br (selected br) i))\<rparr>"
  using data_port [OF assms] by (simp add: bridge_out_def Let_def)

lemma byte_of_bits: "bit (byte_of v k) j \<longleftrightarrow> j < 8 \<and> bit v (8 * k + j)"
  by (auto simp: byte_of_def bit_simps)

lemmas pci_access_defs = pci_config_read8_def pci_config_read16_def pci_config_read32_def
  pci_config_write8_def pci_config_write16_def pci_config_write32_def bridge_select

lemmas bridge_out_ports = bridge_out_data [OF and3_less(1)] bridge_out_data [OF and3_less(2)] bridge_out_data [of 0, simplified]

lemma read8_write8: "fst (pci_config_read8 bridge_io bus dev fn off (pci_config_write8 bridge_io bus dev fn off v br)) = v"
  unfolding pci_access_defs
  by (simp add: bridge_io_def bridge_out_ports bridge_in_def Let_def, rule bit_word_eqI) (auto simp: bit_simps byte_of_bits)

lemma read16_write16: "fst (pci_config_read16 bridge_io bus dev fn off (pci_config_write16 bridge_io bus dev fn off v br)) = v"
  unfolding pci_access_defs
  by (simp add: bridge_io_def bridge_out_ports bridge_in_def Let_def, rule bit_word_eqI) (auto simp: bit_simps byte_of_bits)

lemma dword_bytes:
  "ucast (byte_of v 0) OR push_bit 8 (ucast (byte_of v 1)) OR push_bit 16 (ucast (byte_of v 2)) OR
   push_bit 24 (ucast (byte_of v 3)) = (v :: u32)"
proof (rule bit_word_eqI)
  fix n assume "n < LENGTH(32)"
  then consider "n < 8" | "8 \<le> n" "n < 16" | "16 \<le> n" "n < 24" | "24 \<le> n" "n < 32" by fastforce
  then show "bit (ucast (byte_of v 0) OR push_bit 8 (ucast (byte_of v 1)) OR push_bit 16 (ucast (byte_of v 2)) OR
      push_bit 24 (ucast (byte_of v 3)) :: u32) n = bit v n"
    by cases (auto simp: bit_simps byte_of_bits)
qed

lemma read32_write32: "fst (pci_config_read32 bridge_io bus dev fn off (pci_config_write32 bridge_io bus dev fn off v br)) = v"
  unfolding pci_access_defs
  using dword_bytes [of v] by (simp add: bridge_io_def bridge_out_ports bridge_in_def Let_def numeral_2_eq_2)

text \<open>A write changes one double word, a read sees one.\<close>

lemma writes_elsewhere:
  assumes "a \<noteq> config_address bus dev fn off"
  shows "cfg (pci_config_write8 bridge_io bus dev fn off v8 br) a = cfg br a"
    and "cfg (pci_config_write16 bridge_io bus dev fn off v16 br) a = cfg br a"
    and "cfg (pci_config_write32 bridge_io bus dev fn off v32 br) a = cfg br a"
  using assms unfolding pci_access_defs by (simp_all add: bridge_io_def bridge_out_ports)

lemma read32_cong:
  "cfg br' (config_address bus dev fn off) = cfg br (config_address bus dev fn off) \<Longrightarrow>
   fst (pci_config_read32 bridge_io bus dev fn off br') = fst (pci_config_read32 bridge_io bus dev fn off br)"
  unfolding pci_config_read32_def bridge_select by (simp add: bridge_io_def bridge_in_def Let_def)



end
