(* ===== verification/BenchUtiliz.thy ===== *)
theory BenchUtiliz
  imports Prelude
begin

text \<open>
  The utilisation benchmark, \<open>components/BenchUtiliz/src/benchUtiliz.c\<close>: a thread of lowest priority
  samples the cycle counter in a loop and adds up the short gaps between samples, which are the time
  the system was idle; two commands read from the serial server start and stop a measurement. All
  counters are 64 bits wide and wrap. The readings of the counter and the kernel's own figure are
  arguments; the memory fences and the emitted trace events are left out.
\<close>

section \<open>Operations\<close>

definition MAGIC_CYCLES :: u64 where "MAGIC_CYCLES = 150"
definition ULONG_MAX :: u64 where "ULONG_MAX = - 1"

record bench =
  flag :: bool
  ccount :: u64
  prev :: u64
  start :: u64
  overflows :: u64
  idle_ccount_start :: u64
  idle_overflow_start :: u64

definition idle_start :: "u64 \<Rightarrow> bench \<Rightarrow> bench" where
  "idle_start cycles b =
     (if \<not> flag b then
        b\<lparr>flag := True, start := cycles, idle_ccount_start := ccount b, idle_overflow_start := overflows b\<rparr>
      else b)"

text \<open>The results: total, kernel and idle time.\<close>

definition idle_stop :: "u64 \<Rightarrow> u64 \<Rightarrow> bench \<Rightarrow> (u64 \<times> u64 \<times> u64) \<times> bench" where
  "idle_stop cycles kernel_time b =
     (let total = cycles - start b;
          total = total + ULONG_MAX * (overflows b - idle_overflow_start b);
          idle_total = ccount b - idle_ccount_start b
      in ((total, kernel_time, idle_total), b\<lparr>flag := False\<rparr>))"

definition count_init :: "u64 \<Rightarrow> bench \<Rightarrow> bench" where
  "count_init cycles b = b\<lparr>prev := cycles, ccount := 0, overflows := 0\<rparr>"

definition count_step :: "u64 \<Rightarrow> bench \<Rightarrow> bench" where
  "count_step ts b =
     (let (diff, ov) = (if ts < prev b then (ULONG_MAX - prev b + ts + 1, overflows b + 1) else (ts - prev b, overflows b));
          c = (if diff < MAGIC_CYCLES then ccount b + diff else ccount b)
      in b\<lparr>overflows := ov, ccount := c, prev := ts\<rparr>)"

text \<open>Successive rounds of \<open>count_idle\<close>'s loop.\<close>

fun count_idle :: "u64 list \<Rightarrow> bench \<Rightarrow> bench" where
  "count_idle [] b = b"
| "count_idle (ts # tss) b = count_idle tss (count_step ts b)"

text \<open>A command of \<open>getchar_handler\<close>; \<open>buf\<close> is the ring shared with the serial server.\<close>

datatype bench_out = Report u64 u64 u64

definition getchar_command :: "u8 \<Rightarrow> u64 \<Rightarrow> u64 \<Rightarrow> bench \<Rightarrow> bench_out list \<times> bench" where
  "getchar_command ch cycles kernel_time b =
     (if ch = 97 then ([], idle_start cycles b)
      else if ch = 98 then (let ((total, k, idle), b') = idle_stop cycles kernel_time b in ([Report total k idle], b'))
      else ([], b))"

definition next_head :: "u32 \<Rightarrow> u32" where
  "next_head head = (head + 1) mod 0x1000"

section \<open>What is counted\<close>

text \<open>Both branches compute the distance of the two readings on the wrapping counter.\<close>

fun gaps :: "u64 \<Rightarrow> u64 list \<Rightarrow> u64 list" where
  "gaps p [] = []"
| "gaps p (ts # tss) = (ts - p) # gaps ts tss"

lemma count_step_diff:
  "count_step ts b = b\<lparr>overflows := overflows b + (if ts < prev b then 1 else 0),
     ccount := ccount b + (if ts - prev b < MAGIC_CYCLES then ts - prev b else 0), prev := ts\<rparr>"
  by (simp add: count_step_def ULONG_MAX_def)

fun wraps :: "u64 \<Rightarrow> u64 list \<Rightarrow> nat" where
  "wraps p [] = 0"
| "wraps p (ts # tss) = (if ts < p then 1 else 0) + wraps ts tss"

lemma count_idle_sums:
  "ccount (count_idle tss b) = ccount b + sum_list (filter (\<lambda>d. d < MAGIC_CYCLES) (gaps (prev b) tss))"
  "overflows (count_idle tss b) = overflows b + of_nat (wraps (prev b) tss)"
  by (induction tss arbitrary: b) (simp_all add: count_step_diff)

lemma count_idle_frame:
  "start (count_idle tss b) = start b" "idle_ccount_start (count_idle tss b) = idle_ccount_start b"
  "idle_overflow_start (count_idle tss b) = idle_overflow_start b" "flag (count_idle tss b) = flag b"
  by (induction tss arbitrary: b) (simp_all add: count_step_diff)

text \<open>A measurement: idle time is the sum of the short gaps between the samples taken meanwhile. The
  total is too small by the number of times the counter wrapped: the difference of two readings is
  already right modulo \<open>2 ^ 64\<close>, and \<open>ULONG_MAX\<close> is one less than the counter's period.\<close>

lemma bench_measures:
  assumes "\<not> flag b"
  shows "fst (idle_stop cycles kernel_time (count_idle tss (idle_start cycles0 b))) =
    (cycles - cycles0 - of_nat (wraps (prev b) tss), kernel_time,
     sum_list (filter (\<lambda>d. d < MAGIC_CYCLES) (gaps (prev b) tss)))"
  using assms by (simp add: idle_stop_def idle_start_def count_idle_sums count_idle_frame ULONG_MAX_def Let_def)

end
