(* ===== verification/BpmpServer.thy ===== *)
theory BpmpServer
  imports Prelude
begin

text \<open>
  Access to the boot and power management processor of the TX2, and to reset lines:
  \<open>plat_components/tx2/BPMPServer\<close> and \<open>components/ResetServer\<close> with their client libraries. A call of
  the BPMP passes its message and the answer through a buffer shared between client and server.

  The drivers are parameters. Buffers are byte lists; a copy that leaves its buffer is a fault.
\<close>

section \<open>The BPMP server\<close>

definition EINVAL :: int where "EINVAL = 22"

text \<open>\<open>tx2_bpmp_call\<close> gets the operation, the message and the size of the answer's buffer, and returns a
  code (the length of the answer when it is not negative), the bytes it stored, and its new state.\<close>

type_synonym 'h bpmp_driver = "int \<Rightarrow> u8 list \<Rightarrow> nat \<Rightarrow> 'h \<Rightarrow> int \<times> u8 list \<times> 'h"

record 'h bpmp_server =
  bpmp :: 'h
  bpmp_rx_buf :: "u8 list"
  client_bufs :: "u64 \<Rightarrow> u8 list option"

text \<open>\<open>badge_of\<close> is \<open>the_bpmp_enumerate_badge\<close>; the second result is \<open>*bytes_rxd\<close>.\<close>

definition the_bpmp_call ::
  "'h bpmp_driver \<Rightarrow> (u64 \<Rightarrow> u64) \<Rightarrow> u64 \<Rightarrow> int \<Rightarrow> nat \<Rightarrow> 'h bpmp_server \<Rightarrow> (int \<times> nat option \<times> 'h bpmp_server) outcome" where
  "the_bpmp_call drv badge_of client_id mrq tx_size sv =
     (case client_bufs sv (badge_of client_id) of
        None \<Rightarrow> Inl AssertionFailed
      | Some client_buf \<Rightarrow>
          if length client_buf < tx_size then Inl OutOfBounds
          else
            let (ret, answer, h) = drv mrq (take tx_size client_buf) (length (bpmp_rx_buf sv)) (bpmp sv)
            in obind (memcpy (bpmp_rx_buf sv) answer (length answer)) (\<lambda>rx.
               let sv1 = sv\<lparr>bpmp := h, bpmp_rx_buf := rx\<rparr>
               in if ret < 0 then Inr (ret, None, sv1)
                  else obind (memcpy client_buf rx (nat ret)) (\<lambda>buf.
                    Inr (0, Some (nat ret), sv1\<lparr>client_bufs := (client_bufs sv)(badge_of client_id \<mapsto> buf)\<rparr>))))"

section \<open>The BPMP client\<close>

text \<open>\<open>shared\<close> is the shared buffer, \<open>call\<close> the remote call: it returns a code and the number of bytes
  received, and changes the buffer. \<open>rx\<close> is the caller's buffer, if it gives one.\<close>

definition bpmpserver_call_wrapper ::
  "(int \<Rightarrow> nat \<Rightarrow> u8 list \<times> 's \<Rightarrow> (int \<times> nat \<times> u8 list \<times> 's) outcome) \<Rightarrow> int \<Rightarrow> u8 list option \<Rightarrow> u8 list option \<Rightarrow>
   u8 list \<times> 's \<Rightarrow> (int \<times> u8 list option \<times> u8 list \<times> 's) outcome" where
  "bpmpserver_call_wrapper call mrq tx_msg rx_msg = (\<lambda>(shared, s).
     (case tx_msg of
        None \<Rightarrow> Inr (- EINVAL, rx_msg, shared, s)
      | Some tx \<Rightarrow>
          if length shared \<le> length tx then Inr (- EINVAL, rx_msg, shared, s)
          else
            obind (memcpy (replicate (length shared) 0) tx (length tx)) (\<lambda>buf.
            obind (call mrq (length tx) (buf, s)) (\<lambda>(ret, bytes_received, buf1, s1).
              case rx_msg of
                None \<Rightarrow> Inr (ret, None, buf1, s1)
              | Some rx \<Rightarrow>
                  if 0 \<le> ret then
                    obind (memcpy rx buf1 bytes_received) (\<lambda>rx1.
                      Inr (int bytes_received, Some rx1, buf1, s1))
                  else Inr (ret, Some rx, buf1, s1)))))"

definition bpmpserver_interface_init :: "bool \<Rightarrow> bool \<Rightarrow> bool \<Rightarrow> int" where
  "bpmpserver_interface_init shared_mem_ok call_ok bpmp_ok =
     (if \<not> shared_mem_ok then - EINVAL
      else if \<not> call_ok then - EINVAL
      else if \<not> bpmp_ok then - EINVAL
      else 0)"

text \<open>A client whose remote call is the server's operation.\<close>

definition bpmp_remote ::
  "'h bpmp_driver \<Rightarrow> (u64 \<Rightarrow> u64) \<Rightarrow> u64 \<Rightarrow> int \<Rightarrow> nat \<Rightarrow> u8 list \<times> 'h bpmp_server \<Rightarrow>
   (int \<times> nat \<times> u8 list \<times> 'h bpmp_server) outcome" where
  "bpmp_remote drv badge_of client mrq tx_size = (\<lambda>(buf, sv).
     obind (the_bpmp_call drv badge_of client mrq tx_size
              (sv\<lparr>client_bufs := (client_bufs sv)(badge_of client \<mapsto> buf)\<rparr>)) (\<lambda>(ret, n, sv1).
       Inr (ret, case n of None \<Rightarrow> 0 | Some k \<Rightarrow> k, the (client_bufs sv1 (badge_of client)), sv1)))"

text \<open>A call delivers the message to the driver unchanged, and the driver's answer to the caller, while
  the answer fits in the three buffers it passes.\<close>

lemma bpmp_call_end_to_end:
  assumes "length tx < length shared" and "drv mrq tx (length (bpmp_rx_buf sv)) (bpmp sv) = (ret, answer, h)"
    and "0 \<le> ret" "nat ret = length answer"
    and "length answer \<le> length (bpmp_rx_buf sv)" "length answer \<le> length shared" "length answer \<le> length rx"
  shows "\<exists>buf sv'. bpmpserver_call_wrapper (bpmp_remote drv badge_of client) mrq (Some tx) (Some rx) (shared, sv) =
    Inr (ret, Some (answer @ drop (length answer) rx), buf, sv') \<and> bpmp sv' = h"
proof -
  have "int (length answer) = ret" using assms(3,4) by simp
  then show ?thesis using assms by (simp add: bpmpserver_call_wrapper_def bpmp_remote_def the_bpmp_call_def)
qed

text \<open>A longer answer is written past the end of the caller's buffer: the check only warns.\<close>

lemma bpmp_answer_overflows:
  assumes "length tx < length shared" and "call mrq (length tx) (tx @ replicate (length shared - length tx) 0, s) = Inr (ret, n, buf, s1)"
    and "0 \<le> ret" "length rx < n"
  shows "bpmpserver_call_wrapper call mrq (Some tx) (Some rx) (shared, s) = Inl OutOfBounds"
  using assms by (simp add: bpmpserver_call_wrapper_def memcpy_def)

section \<open>The reset server\<close>

record 'h reset_sys =
  reset_sys_assert :: "int \<Rightarrow> 'h \<Rightarrow> int \<times> 'h"
  reset_sys_deassert :: "int \<Rightarrow> 'h \<Rightarrow> int \<times> 'h"

definition the_reset_assert_reset :: "'h reset_sys \<Rightarrow> int \<Rightarrow> 'h \<Rightarrow> int \<times> 'h" where
  "the_reset_assert_reset sys i h = reset_sys_assert sys i h"

definition the_reset_deassert_reset :: "'h reset_sys \<Rightarrow> int \<Rightarrow> 'h \<Rightarrow> int \<times> 'h" where
  "the_reset_deassert_reset sys i h = reset_sys_deassert sys i h"

definition ResetServer_init :: "int \<Rightarrow> int outcome" where
  "ResetServer_init error = (if error \<noteq> 0 then Inl Fatal else Inr 0)"

text \<open>The client library: a table of the two remote calls behind the same interface.\<close>

definition resetserver_interface_init ::
  "(int \<Rightarrow> 'h \<Rightarrow> int \<times> 'h) option \<Rightarrow> (int \<Rightarrow> 'h \<Rightarrow> int \<times> 'h) option \<Rightarrow> bool \<Rightarrow> int \<times> 'h reset_sys option" where
  "resetserver_interface_init resetserver_assert resetserver_deassert reset_sys_ok =
     (case resetserver_assert of
        None \<Rightarrow> (- EINVAL, None)
      | Some a \<Rightarrow>
          (case resetserver_deassert of
             None \<Rightarrow> (- EINVAL, None)
           | Some d \<Rightarrow>
               if \<not> reset_sys_ok then (- EINVAL, None)
               else (0, Some \<lparr>reset_sys_assert = a, reset_sys_deassert = d\<rparr>)))"

text \<open>Through server and client library a caller drives the server's lines.\<close>

lemma reset_end_to_end:
  "resetserver_interface_init (Some (the_reset_assert_reset sys)) (Some (the_reset_deassert_reset sys)) True =
   (0, Some \<lparr>reset_sys_assert = reset_sys_assert sys, reset_sys_deassert = reset_sys_deassert sys\<rparr>)"
  by (simp add: resetserver_interface_init_def fun_eq_iff the_reset_assert_reset_def the_reset_deassert_reset_def)

end
