(* ===== verification/Khash.thy ===== *)
theory Khash
  imports Prelude
begin

text \<open>
  The hash table of \<open>remote-drivers/picotcp-socket-sync/server/khash.h\<close>, from which the socket
  server instantiates its tables (\<open>KHASH_MAP_INIT_INT\<close>, \<open>KHASH_MAP_INIT_INT64\<close> and
  \<open>KHASH_SET_INIT_INT\<close> in \<open>picoserver_client.h\<close>): open addressing over a power of two of buckets,
  triangular probing, two flag bits per bucket packed sixteen to a word, deletion marks, and a
  resize that rehashes in place by kicking elements out.

  \<open>khash_func\<close> is the macro parameter \<open>__hash_func\<close>. Bucket contents are \<open>option\<close>s: \<open>None\<close> is memory
  that \<open>realloc\<close> returned and nothing has written. A set (\<open>kh_is_map = 0\<close>) is the map to \<open>unit\<close>;
  then nothing reads a value. The outcome of each \<open>malloc\<close> and \<open>realloc\<close> is an argument.

  The second part shows that the table refines a finite map: \<open>kh_abs\<close> is the map it represents,
  \<open>kh_inv\<close> its invariant, and \<open>kh_get\<close>, \<open>kh_put\<close>, \<open>kh_del\<close> are lookup, insertion and removal, for
  every sequence of resizes. Loops have fuel: the probe loop is given twice \<open>n_buckets\<close> rounds and ends
  earlier, since triangular probing visits every bucket; the kick loop needs at most one per element.
\<close>

section \<open>The flag macros\<close>

definition flag_word :: "u32 list \<Rightarrow> u32 \<Rightarrow> u32 outcome" where
  "flag_word fl i = nth_ok fl (unat (drop_bit 4 i))"

definition flag_shift :: "u32 \<Rightarrow> nat" where
  "flag_shift i = unat (push_bit 1 (i AND 0xf))"

definition ac_isempty :: "u32 list \<Rightarrow> u32 \<Rightarrow> bool outcome" where
  "ac_isempty fl i = obind (flag_word fl i) (\<lambda>w. Inr (drop_bit (flag_shift i) w AND 2 \<noteq> 0))"

definition ac_isdel :: "u32 list \<Rightarrow> u32 \<Rightarrow> bool outcome" where
  "ac_isdel fl i = obind (flag_word fl i) (\<lambda>w. Inr (drop_bit (flag_shift i) w AND 1 \<noteq> 0))"

definition ac_iseither :: "u32 list \<Rightarrow> u32 \<Rightarrow> bool outcome" where
  "ac_iseither fl i = obind (flag_word fl i) (\<lambda>w. Inr (drop_bit (flag_shift i) w AND 3 \<noteq> 0))"

definition ac_set_isempty_false :: "u32 list \<Rightarrow> u32 \<Rightarrow> u32 list outcome" where
  "ac_set_isempty_false fl i = obind (flag_word fl i) (\<lambda>w.
     upd_ok fl (unat (drop_bit 4 i)) (w AND NOT (push_bit (flag_shift i) 2)))"

definition ac_set_isboth_false :: "u32 list \<Rightarrow> u32 \<Rightarrow> u32 list outcome" where
  "ac_set_isboth_false fl i = obind (flag_word fl i) (\<lambda>w.
     upd_ok fl (unat (drop_bit 4 i)) (w AND NOT (push_bit (flag_shift i) 3)))"

definition ac_set_isdel_true :: "u32 list \<Rightarrow> u32 \<Rightarrow> u32 list outcome" where
  "ac_set_isdel_true fl i = obind (flag_word fl i) (\<lambda>w.
     upd_ok fl (unat (drop_bit 4 i)) (w OR push_bit (flag_shift i) 1))"

definition ac_fsize :: "u32 \<Rightarrow> u32" where
  "ac_fsize m = (if m < 16 then 1 else drop_bit 4 m)"

section \<open>Sizes\<close>

definition kroundup32 :: "u32 \<Rightarrow> u32" where
  "kroundup32 x0 =
     (let x = x0 - 1;
          x = x OR drop_bit 1 x;
          x = x OR drop_bit 2 x;
          x = x OR drop_bit 4 x;
          x = x OR drop_bit 8 x;
          x = x OR drop_bit 16 x
      in x + 1)"

definition DIV_100 :: "u64 \<Rightarrow> u64" where
  "DIV_100 num = drop_bit 37 (num * 1374389535)"

definition COMPUTE_SIZE :: "u32 \<Rightarrow> u64" where
  "COMPUTE_SIZE num = DIV_100 (ucast num * 77 + 50)"

section \<open>The table\<close>

record ('k, 'v) khash =
  n_buckets :: u32
  kh_size :: u32
  n_occupied :: u32
  upper_bound :: u32
  kh_flags :: "u32 list"
  kh_keys :: "'k option list"
  kh_vals :: "'v option list"

definition kh_init :: "('k, 'v) khash" where
  "kh_init = \<lparr>n_buckets = 0, kh_size = 0, n_occupied = 0, upper_bound = 0,
     kh_flags = [], kh_keys = [], kh_vals = []\<rparr>"

text \<open>\<open>memset(flags, 0xaa, __ac_fsize(n) * sizeof(khint32_t))\<close>.\<close>

definition empty_flags :: "u32 \<Rightarrow> u32 list" where
  "empty_flags n = replicate (unat (ac_fsize n)) 0xaaaaaaaa"

definition kh_clear :: "('k, 'v) khash \<Rightarrow> ('k, 'v) khash" where
  "kh_clear h = (if kh_flags h = [] then h
     else h\<lparr>kh_flags := empty_flags (n_buckets h), kh_size := 0, n_occupied := 0\<rparr>)"

text \<open>Reading a key that nothing has written is a fault.\<close>

definition key_at :: "'k option list \<Rightarrow> u32 \<Rightarrow> 'k outcome" where
  "key_at ks i = obind (nth_ok ks (unat i)) (\<lambda>x.
     case x of None \<Rightarrow> Inl OutOfBounds | Some k \<Rightarrow> Inr k)"

text \<open>The condition of the probe loops of \<open>kh_get\<close> and \<open>kh_put\<close>.\<close>

definition probe_on :: "u32 list \<Rightarrow> 'k option list \<Rightarrow> 'k \<Rightarrow> u32 \<Rightarrow> bool outcome" where
  "probe_on fl ks key i = obind (ac_isempty fl i) (\<lambda>e.
     if e then Inr False
     else obind (ac_isdel fl i) (\<lambda>d.
       if d then Inr True
       else obind (key_at ks i) (\<lambda>k. Inr (k \<noteq> key))))"

definition kh_get_exit :: "('k, 'v) khash \<Rightarrow> u32 \<Rightarrow> u32 outcome" where
  "kh_get_exit h i = obind (ac_iseither (kh_flags h) i) (\<lambda>b. Inr (if b then n_buckets h else i))"

fun kh_get_loop :: "('k, 'v) khash \<Rightarrow> 'k \<Rightarrow> u32 \<Rightarrow> u32 \<Rightarrow> nat \<Rightarrow> u32 \<Rightarrow> u32 \<Rightarrow> u32 outcome" where
  "kh_get_loop h key msk start 0 i step = Inl OutOfFuel"
| "kh_get_loop h key msk start (Suc fuel) i step =
     obind (probe_on (kh_flags h) (kh_keys h) key i) (\<lambda>on.
       if \<not> on then kh_get_exit h i
       else let step = step + 1; i = (i + step) AND msk
            in if i = start then Inr (n_buckets h) else kh_get_loop h key msk start fuel i step)"

definition kh_get :: "('k \<Rightarrow> u32) \<Rightarrow> ('k, 'v) khash \<Rightarrow> 'k \<Rightarrow> u32 outcome" where
  "kh_get khash_func h key =
     (if n_buckets h = 0 then Inr 0
      else let msk = n_buckets h - 1; k = khash_func key; i = k AND msk
           in kh_get_loop h key msk i (2 * unat (n_buckets h)) i 0)"

section \<open>Resizing\<close>

text \<open>Results of the allocations of one \<open>kh_resize\<close>.\<close>

record kalloc =
  flags_ok :: bool
  keys_ok :: bool
  vals_ok :: bool

definition realloc_up :: "'a option list \<Rightarrow> u32 \<Rightarrow> 'a option list" where
  "realloc_up xs n = take (unat n) xs @ replicate (unat n - length xs) None"

definition realloc_down :: "bool \<Rightarrow> 'a option list \<Rightarrow> u32 \<Rightarrow> 'a option list" where
  "realloc_down ok xs n = (if ok then take (unat n) xs else [])"

text \<open>\<open>while (!__ac_isempty(new_flags, i)) i = (i + (++step)) & new_mask\<close>.\<close>

fun find_empty :: "u32 list \<Rightarrow> u32 \<Rightarrow> nat \<Rightarrow> u32 \<Rightarrow> u32 \<Rightarrow> u32 outcome" where
  "find_empty nf msk 0 i step = Inl OutOfFuel"
| "find_empty nf msk (Suc fuel) i step = obind (ac_isempty nf i) (\<lambda>e.
     if e then Inr i
     else let step = step + 1 in find_empty nf msk fuel ((i + step) AND msk) step)"

text \<open>The kick-out process: \<open>of\<close> and \<open>nf\<close> are the old and the new flags.\<close>

record ('k, 'v) rehash =
  r_of :: "u32 list"
  r_nf :: "u32 list"
  r_keys :: "'k option list"
  r_vals :: "'v option list"

text \<open>\<open>i < h->n_buckets && __ac_iseither(h->flags, i) == 0\<close>.\<close>

definition kick_test :: "u32 list \<Rightarrow> u32 \<Rightarrow> u32 \<Rightarrow> bool outcome" where
  "kick_test ofl onb i =
     (if i < onb then obind (ac_iseither ofl i) (\<lambda>b. Inr (\<not> b)) else Inr False)"

fun kick_loop :: "('k \<Rightarrow> u32) \<Rightarrow> u32 \<Rightarrow> u32 \<Rightarrow> nat \<Rightarrow> ('k, 'v) rehash \<Rightarrow> 'k \<Rightarrow> 'v option
    \<Rightarrow> ('k, 'v) rehash outcome" where
  "kick_loop khash_func onb nnb 0 r key val = Inl OutOfFuel"
| "kick_loop khash_func onb nnb (Suc fuel) r key val =
     (let new_mask = nnb - 1; k = khash_func key in
      obind (find_empty (r_nf r) new_mask (unat nnb) (k AND new_mask) 0) (\<lambda>i.
      obind (ac_set_isempty_false (r_nf r) i) (\<lambda>nf.
      obind (kick_test (r_of r) onb i) (\<lambda>kick.
      if kick then
        obind (key_at (r_keys r) i) (\<lambda>tmpk.
        obind (nth_ok (r_vals r) (unat i)) (\<lambda>tmpv.
        obind (ac_set_isdel_true (r_of r) i) (\<lambda>ofl.
        kick_loop khash_func onb nnb fuel
          (r\<lparr>r_of := ofl, r_nf := nf, r_keys := (r_keys r)[unat i := Some key],
             r_vals := (r_vals r)[unat i := val]\<rparr>) tmpk tmpv)))
      else
        obind (upd_ok (r_keys r) (unat i) (Some key)) (\<lambda>ks.
        obind (upd_ok (r_vals r) (unat i) val) (\<lambda>vs.
        Inr (r\<lparr>r_nf := nf, r_keys := ks, r_vals := vs\<rparr>)))))))"

text \<open>One round of \<open>for (j = 0; j != h->n_buckets; ++j)\<close>.\<close>

definition rehash_bucket :: "('k \<Rightarrow> u32) \<Rightarrow> u32 \<Rightarrow> u32 \<Rightarrow> ('k, 'v) rehash \<Rightarrow> u32
    \<Rightarrow> ('k, 'v) rehash outcome" where
  "rehash_bucket khash_func onb nnb r j =
     obind (ac_iseither (r_of r) j) (\<lambda>b.
     if b then Inr r
     else
       obind (key_at (r_keys r) j) (\<lambda>key.
       obind (nth_ok (r_vals r) (unat j)) (\<lambda>val.
       obind (ac_set_isdel_true (r_of r) j) (\<lambda>ofl.
       kick_loop khash_func onb nnb (unat onb) (r\<lparr>r_of := ofl\<rparr>) key val))))"

fun rehash_loop :: "('k \<Rightarrow> u32) \<Rightarrow> u32 \<Rightarrow> u32 \<Rightarrow> nat \<Rightarrow> ('k, 'v) rehash \<Rightarrow> u32
    \<Rightarrow> ('k, 'v) rehash outcome" where
  "rehash_loop khash_func onb nnb 0 r j = (if j = onb then Inr r else Inl OutOfFuel)"
| "rehash_loop khash_func onb nnb (Suc fuel) r j =
     (if j = onb then Inr r
      else obind (rehash_bucket khash_func onb nnb r j) (\<lambda>r.
        rehash_loop khash_func onb nnb fuel r (j + 1)))"

definition kh_rehash :: "('k \<Rightarrow> u32) \<Rightarrow> kalloc \<Rightarrow> ('k, 'v) khash \<Rightarrow> u32 \<Rightarrow> ('k, 'v) khash outcome" where
  "kh_rehash khash_func a h nnb =
     obind (rehash_loop khash_func (n_buckets h) nnb (unat (n_buckets h))
       \<lparr>r_of = kh_flags h, r_nf = empty_flags nnb, r_keys = kh_keys h, r_vals = kh_vals h\<rparr> 0) (\<lambda>r.
     let shrink = n_buckets h > nnb;
         ks = (if shrink then realloc_down (keys_ok a) (r_keys r) nnb else r_keys r);
         vs = (if shrink then realloc_down (vals_ok a) (r_vals r) nnb else r_vals r)
     in Inr (h\<lparr>kh_keys := ks, kh_vals := vs, kh_flags := r_nf r, n_buckets := nnb,
            n_occupied := kh_size h, upper_bound := ucast (COMPUTE_SIZE nnb)\<rparr>))"

text \<open>\<open>kh_resize\<close>: the table afterwards and whether it returned 0.\<close>

definition kh_resize :: "('k \<Rightarrow> u32) \<Rightarrow> kalloc \<Rightarrow> ('k, 'v) khash \<Rightarrow> u32
    \<Rightarrow> (('k, 'v) khash \<times> bool) outcome" where
  "kh_resize khash_func a h n0 =
     (let n1 = kroundup32 n0; nnb = (if n1 < 4 then 4 else n1) in
      if kh_size h \<ge> ucast (COMPUTE_SIZE nnb) then Inr (h, True)
      else if \<not> flags_ok a then Inr (h, False)
      else if n_buckets h < nnb then
        if \<not> keys_ok a then Inr (h, False)
        else let h = h\<lparr>kh_keys := realloc_up (kh_keys h) nnb\<rparr> in
          if \<not> vals_ok a then Inr (h, False)
          else let h = h\<lparr>kh_vals := realloc_up (kh_vals h) nnb\<rparr> in
            obind (kh_rehash khash_func a h nnb) (\<lambda>h. Inr (h, True))
      else obind (kh_rehash khash_func a h nnb) (\<lambda>h. Inr (h, True)))"

section \<open>Insertion and removal\<close>

text \<open>The probe loop of \<open>kh_put\<close>: the final \<open>i\<close>, \<open>site\<close> and \<open>x\<close>.\<close>

fun kh_put_loop :: "('k, 'v) khash \<Rightarrow> 'k \<Rightarrow> u32 \<Rightarrow> u32 \<Rightarrow> nat \<Rightarrow> u32 \<Rightarrow> u32 \<Rightarrow> u32
    \<Rightarrow> (u32 \<times> u32 \<times> u32) outcome" where
  "kh_put_loop h key msk start 0 i site step = Inl OutOfFuel"
| "kh_put_loop h key msk start (Suc fuel) i site step =
     obind (probe_on (kh_flags h) (kh_keys h) key i) (\<lambda>on.
       if \<not> on then Inr (i, site, n_buckets h)
       else obind (ac_isdel (kh_flags h) i) (\<lambda>d.
         let site = (if d then i else site); step = step + 1; i = (i + step) AND msk
         in if i = start then Inr (i, site, site)
            else kh_put_loop h key msk start fuel i site step))"

text \<open>The bucket \<open>x\<close> that \<open>kh_put\<close> chooses.\<close>

definition kh_put_site :: "('k \<Rightarrow> u32) \<Rightarrow> ('k, 'v) khash \<Rightarrow> 'k \<Rightarrow> u32 outcome" where
  "kh_put_site khash_func h key =
     (let msk = n_buckets h - 1; k = khash_func key; i = k AND msk in
      obind (ac_isempty (kh_flags h) i) (\<lambda>e.
      if e then Inr i
      else obind (kh_put_loop h key msk i (2 * unat (n_buckets h)) i (n_buckets h) 0) (\<lambda>(i, site, x).
        if x = n_buckets h
        then obind (ac_isempty (kh_flags h) i) (\<lambda>e.
          Inr (if e \<and> site \<noteq> n_buckets h then site else i))
        else Inr x)))"

text \<open>The value of \<open>*ret\<close>.\<close>

datatype put_ret = PutFailed | PutPresent | PutNew | PutDeleted

definition kh_put_at :: "('k, 'v) khash \<Rightarrow> 'k \<Rightarrow> u32 \<Rightarrow> (('k, 'v) khash \<times> u32 \<times> put_ret) outcome" where
  "kh_put_at h key x = obind (ac_isempty (kh_flags h) x) (\<lambda>e.
     if e then
       obind (upd_ok (kh_keys h) (unat x) (Some key)) (\<lambda>ks.
       obind (ac_set_isboth_false (kh_flags h) x) (\<lambda>fl.
       Inr (h\<lparr>kh_keys := ks, kh_flags := fl, kh_size := kh_size h + 1,
              n_occupied := n_occupied h + 1\<rparr>, x, PutNew)))
     else obind (ac_isdel (kh_flags h) x) (\<lambda>d.
       if d then
         obind (upd_ok (kh_keys h) (unat x) (Some key)) (\<lambda>ks.
         obind (ac_set_isboth_false (kh_flags h) x) (\<lambda>fl.
         Inr (h\<lparr>kh_keys := ks, kh_flags := fl, kh_size := kh_size h + 1\<rparr>, x, PutDeleted)))
       else Inr (h, x, PutPresent)))"

text \<open>The resizing step at the top of \<open>kh_put\<close>.\<close>

definition kh_make_room :: "('k \<Rightarrow> u32) \<Rightarrow> kalloc \<Rightarrow> ('k, 'v) khash
    \<Rightarrow> (('k, 'v) khash \<times> bool) outcome" where
  "kh_make_room khash_func a h =
     (if n_occupied h \<ge> upper_bound h
      then if n_buckets h > push_bit 1 (kh_size h)
           then kh_resize khash_func a h (n_buckets h - 1)
           else kh_resize khash_func a h (n_buckets h + 1)
      else Inr (h, True))"

definition kh_put :: "('k \<Rightarrow> u32) \<Rightarrow> kalloc \<Rightarrow> ('k, 'v) khash \<Rightarrow> 'k
    \<Rightarrow> (('k, 'v) khash \<times> u32 \<times> put_ret) outcome" where
  "kh_put khash_func a h key =
     obind (kh_make_room khash_func a h) (\<lambda>(h, ok).
     if \<not> ok then Inr (h, n_buckets h, PutFailed)
     else obind (kh_put_site khash_func h key) (kh_put_at h key))"

definition kh_del :: "('k, 'v) khash \<Rightarrow> u32 \<Rightarrow> ('k, 'v) khash outcome" where
  "kh_del h x =
     (if x = n_buckets h then Inr h
      else obind (ac_iseither (kh_flags h) x) (\<lambda>b.
        if b then Inr h
        else obind (ac_set_isdel_true (kh_flags h) x) (\<lambda>fl.
          Inr (h\<lparr>kh_flags := fl, kh_size := kh_size h - 1\<rparr>))))"

section \<open>Accessors\<close>

definition kh_exist :: "('k, 'v) khash \<Rightarrow> u32 \<Rightarrow> bool outcome" where
  "kh_exist h x = obind (ac_iseither (kh_flags h) x) (\<lambda>b. Inr (\<not> b))"

definition kh_key :: "('k, 'v) khash \<Rightarrow> u32 \<Rightarrow> 'k outcome" where
  "kh_key h x = key_at (kh_keys h) x"

definition kh_val :: "('k, 'v) khash \<Rightarrow> u32 \<Rightarrow> 'v outcome" where
  "kh_val h x = key_at (kh_vals h) x"

definition kh_set_val :: "('k, 'v) khash \<Rightarrow> u32 \<Rightarrow> 'v \<Rightarrow> ('k, 'v) khash outcome" where
  "kh_set_val h x v = obind (upd_ok (kh_vals h) (unat x) (Some v)) (\<lambda>vs. Inr (h\<lparr>kh_vals := vs\<rparr>))"

definition kh_begin :: u32 where
  "kh_begin = 0"

definition kh_end :: "('k, 'v) khash \<Rightarrow> u32" where
  "kh_end h = n_buckets h"

text \<open>\<open>kh_int_hash_func\<close> and \<open>kh_int64_hash_func\<close>.\<close>

definition kh_int_hash_func :: "u32 \<Rightarrow> u32" where
  "kh_int_hash_func key = key"

definition kh_int64_hash_func :: "u64 \<Rightarrow> u32" where
  "kh_int64_hash_func key = ucast (drop_bit 33 key XOR key XOR push_bit 11 key)"

section \<open>The flag macros as predicates on buckets\<close>

definition emp :: "u32 list \<Rightarrow> nat \<Rightarrow> bool" where
  "emp fl i = bit (fl ! (i div 16)) (2 * (i mod 16) + 1)"

definition del :: "u32 list \<Rightarrow> nat \<Rightarrow> bool" where
  "del fl i = bit (fl ! (i div 16)) (2 * (i mod 16))"

lemma flag_index: "unat (drop_bit 4 (i::u32)) = unat i div 16"
  unfolding unat_drop_bit_eq by (simp add: drop_bit_eq_div)

lemma flag_shift_eq: "flag_shift i = 2 * (unat i mod 16)"
proof -
  have a: "i AND 0xf = take_bit 4 i"
    by (simp add: take_bit_eq_mask mask_numeral)
  have b: "unat (i AND 0xf) = unat i mod 16"
    unfolding a unsigned_take_bit_eq by (simp add: take_bit_eq_mod)
  have c: "unat i mod 16 < 16" by simp
  have d: "unat (push_bit 1 (i AND 0xf)) = (2 * unat (i AND 0xf)) mod 2 ^ 32"
    unfolding unsigned_push_bit_eq by (simp add: take_bit_eq_mod push_bit_eq_mult mult.commute)
  show ?thesis
    using c unfolding flag_shift_def d b by simp
qed

lemma and_2_bit: "(w::u32) AND 2 \<noteq> 0 \<longleftrightarrow> bit w 1"
proof
  assume "w AND 2 \<noteq> 0"
  then obtain n where "bit (w AND 2) n" by (auto simp: bit_eq_iff)
  then show "bit w 1" by (auto simp: bit_and_iff bit_2_iff)
next
  assume "bit w 1"
  then have "bit (w AND 2) 1" by (simp add: bit_simps bit_2_iff)
  then show "w AND 2 \<noteq> 0" by (metis bit_0_eq bot_apply bot_bool_def)
qed

lemma and_1_bit: "(w::u32) AND 1 \<noteq> 0 \<longleftrightarrow> bit w 0"
  by (simp add: and_one_eq bit_0 odd_iff_mod_2_eq_one)

lemma and_3_bit: "(w::u32) AND 3 \<noteq> 0 \<longleftrightarrow> bit w 0 \<or> bit w 1"
proof -
  have three: "(3::u32) = 1 OR 2" by simp
  have "w AND 3 = (w AND 1) OR (w AND 2)"
    by (rule bit_word_eqI) (auto simp: three bit_simps simp del: or_numerals)
  then show ?thesis
    using and_1_bit [of w] and_2_bit [of w] by (metis or_eq_0_iff)
qed

definition flags_for :: "u32 list \<Rightarrow> nat \<Rightarrow> bool" where
  "flags_for fl n \<longleftrightarrow> n \<le> 16 * length fl"

lemma flag_word_ok: "flags_for fl n \<Longrightarrow> unat i < n \<Longrightarrow> flag_word fl i = Inr (fl ! (unat i div 16))"
  by (simp add: flag_word_def flag_index flags_for_def nth_ok_def)

lemma ac_isempty_ok [simp]:
  "flags_for fl n \<Longrightarrow> unat i < n \<Longrightarrow> ac_isempty fl i = Inr (emp fl (unat i))"
  by (simp add: ac_isempty_def flag_word_ok and_2_bit emp_def flag_shift_eq bit_simps)

lemma ac_isdel_ok [simp]:
  "flags_for fl n \<Longrightarrow> unat i < n \<Longrightarrow> ac_isdel fl i = Inr (del fl (unat i))"
  by (simp add: ac_isdel_def flag_word_ok and_1_bit del_def flag_shift_eq bit_simps)

lemma ac_iseither_ok [simp]:
  "flags_for fl n \<Longrightarrow> unat i < n \<Longrightarrow> ac_iseither fl i = Inr (emp fl (unat i) \<or> del fl (unat i))"
  by (auto simp: ac_iseither_def flag_word_ok and_3_bit emp_def del_def flag_shift_eq bit_simps)

lemma div_mod_16_neq: "(i::nat) \<noteq> j \<Longrightarrow> i div 16 = j div 16 \<Longrightarrow> i mod 16 \<noteq> j mod 16"
  by (metis div_mult_mod_eq)

lemma bit_2k: "bit (push_bit k (2::u32)) n \<longleftrightarrow> n = Suc k \<and> n < 32"
  by (auto simp: bit_simps bit_2_iff)

lemma bit_3k: "bit (push_bit k (3::u32)) n \<longleftrightarrow> (n = k \<or> n = Suc k) \<and> n < 32"
proof -
  have three: "(3::u32) = 1 OR 2" by simp
  show ?thesis by (auto simp: three bit_simps simp del: or_numerals)
qed

lemma bit_1k: "bit (push_bit k (1::u32)) n \<longleftrightarrow> n = k \<and> n < 32"
  by (auto simp: bit_simps)

text \<open>A write to a flag changes one bucket.\<close>

definition flags_upd :: "u32 list \<Rightarrow> nat \<Rightarrow> bool \<Rightarrow> bool \<Rightarrow> u32 list \<Rightarrow> bool" where
  "flags_upd fl i e d fl' \<longleftrightarrow> length fl' = length fl \<and> emp fl' = (emp fl)(i := e) \<and> del fl' = (del fl)(i := d)"

lemma flags_updI:
  assumes b: "\<And>k. k < 32 \<Longrightarrow> bit w k \<longleftrightarrow>
      (if k = 2 * (i mod 16) + 1 then e else if k = 2 * (i mod 16) then d else bit (fl ! (i div 16)) k)"
    and i: "i div 16 < length fl"
  shows "flags_upd fl i e d (fl[i div 16 := w])"
proof -
  have r: "2 * (j mod 16) + 1 < 32 \<and> 2 * (j mod 16) < 32" for j :: nat
    using mod_less_divisor [of 16 j] by linarith
  have par: "2 * a \<noteq> 2 * b + 1" "2 * b + 1 \<noteq> 2 * a" for a b :: nat by presburger+
  have "emp (fl[i div 16 := w]) j = ((emp fl)(i := e)) j" for j
    using b [of "2 * (j mod 16) + 1"] r [of j] i div_mod_16_neq [of j i]
    by (cases "j = i") (auto simp: emp_def nth_list_update par)
  moreover have "del (fl[i div 16 := w]) j = ((del fl)(i := d)) j" for j
    using b [of "2 * (j mod 16)"] r [of j] i div_mod_16_neq [of j i]
    by (cases "j = i") (auto simp: del_def nth_list_update par)
  ultimately show ?thesis by (auto simp: flags_upd_def)
qed

lemma ac_set_isempty_false_ok:
  assumes "flags_for fl n" "unat i < n"
  obtains fl' where "ac_set_isempty_false fl i = Inr fl'"
    and "flags_upd fl (unat i) False (del fl (unat i)) fl'"
proof -
  have l: "unat i div 16 < length fl" using assms by (auto simp: flags_for_def)
  let ?w = "fl ! (unat i div 16) AND NOT (push_bit (flag_shift i) 2)"
  have "flags_upd fl (unat i) False (del fl (unat i)) (fl[unat i div 16 := ?w])"
    by (rule flags_updI [OF _ l]) (auto simp: bit_and_iff bit_not_iff bit_2k flag_shift_eq del_def)
  moreover have "ac_set_isempty_false fl i = Inr (fl[unat i div 16 := ?w])"
    using assms l by (simp add: ac_set_isempty_false_def flag_word_ok flag_index)
  ultimately show ?thesis using that by blast
qed

lemma ac_set_isboth_false_ok:
  assumes "flags_for fl n" "unat i < n"
  obtains fl' where "ac_set_isboth_false fl i = Inr fl'" and "flags_upd fl (unat i) False False fl'"
proof -
  have l: "unat i div 16 < length fl" using assms by (auto simp: flags_for_def)
  let ?w = "fl ! (unat i div 16) AND NOT (push_bit (flag_shift i) 3)"
  have "flags_upd fl (unat i) False False (fl[unat i div 16 := ?w])"
    by (rule flags_updI [OF _ l]) (auto simp: bit_and_iff bit_not_iff bit_3k flag_shift_eq)
  moreover have "ac_set_isboth_false fl i = Inr (fl[unat i div 16 := ?w])"
    using assms l by (simp add: ac_set_isboth_false_def flag_word_ok flag_index)
  ultimately show ?thesis using that by blast
qed

lemma ac_set_isdel_true_ok:
  assumes "flags_for fl n" "unat i < n"
  obtains fl' where "ac_set_isdel_true fl i = Inr fl'"
    and "flags_upd fl (unat i) (emp fl (unat i)) True fl'"
proof -
  have l: "unat i div 16 < length fl" using assms by (auto simp: flags_for_def)
  let ?w = "fl ! (unat i div 16) OR push_bit (flag_shift i) 1"
  have "flags_upd fl (unat i) (emp fl (unat i)) True (fl[unat i div 16 := ?w])"
    by (rule flags_updI [OF _ l]) (auto simp: bit_or_iff bit_1k flag_shift_eq emp_def simp del: push_bit_of_1)
  moreover have "ac_set_isdel_true fl i = Inr (fl[unat i div 16 := ?w])"
    using assms l by (simp add: ac_set_isdel_true_def flag_word_ok flag_index)
  ultimately show ?thesis using that by blast
qed

section \<open>Triangular probing\<close>

definition probe_at :: "nat \<Rightarrow> nat \<Rightarrow> nat \<Rightarrow> nat" where
  "probe_at N h t = (h + t * (t + 1) div 2) mod N"

lemma probe_at_0: "probe_at N h 0 = h mod N"
  by (simp add: probe_at_def)

lemma probe_at_less: "0 < N \<Longrightarrow> probe_at N h t < N"
  by (simp add: probe_at_def)

lemma triangle_Suc: "Suc t * (Suc t + 1) div 2 = t * (t + 1) div 2 + Suc t"
proof -
  have "Suc t * (Suc t + 1) = t * (t + 1) + Suc t * 2" by (simp add: algebra_simps)
  then show ?thesis by simp
qed

lemma probe_at_Suc: "probe_at N h (Suc t) = (probe_at N h t + Suc t) mod N"
  unfolding probe_at_def triangle_Suc mod_add_left_eq by (simp only: add.assoc)

text \<open>The first \<open>2 ^ p\<close> probes are different buckets.\<close>

lemma odd_coprime_dvd:
  assumes "(2::nat) ^ n dvd a * b" and "odd a"
  shows "2 ^ n dvd b"
proof -
  have "coprime ((2::nat) ^ n) a" using assms(2) by simp
  then show ?thesis using assms(1) by (simp add: coprime_dvd_mult_right_iff)
qed

lemma probe_at_distinct:
  assumes "s < t" and "t < 2 ^ p"
  shows "probe_at (2 ^ p) h s \<noteq> probe_at (2 ^ p) h t"
proof
  assume e: "probe_at (2 ^ p) h s = probe_at (2 ^ p) h t"
  let ?S = "s * (s + 1) div 2" and ?T = "t * (t + 1) div 2"
  have S: "2 * ?S = s * (s + 1)" and T: "2 * ?T = t * (t + 1)" by simp_all
  have "s * (s + 1) \<le> t * (t + 1)" using assms(1) by (intro mult_le_mono) simp_all
  then have le: "?S \<le> ?T" by (rule div_le_mono)
  have "2 ^ p dvd (h + ?T) - (h + ?S)"
    using e le by (simp add: probe_at_def mod_eq_iff_dvd_symdiff_nat [symmetric])
      (metis (no_types, lifting) add_le_cancel_left diff_add_inverse2 diff_cancel2 add.commute mod_eq_dvd_iff_nat)
  then have "2 ^ Suc p dvd 2 * (?T - ?S)" by simp
  also have "2 * (?T - ?S) = (t - s) * (t + s + 1)"
  proof -
    obtain d where d: "t = s + d" using assms(1) by (metis less_imp_add_positive)
    have "t * (t + 1) = s * (s + 1) + d * (t + s + 1)" by (simp add: d algebra_simps)
    then show ?thesis using S T d by (simp add: diff_mult_distrib2)
  qed
  finally have dv: "2 ^ Suc p dvd (t - s) * (t + s + 1)" .
  have par: "odd (t - s) \<or> odd (t + s + 1)" using assms(1) by presburger
  show False
  proof (cases "odd (t - s)")
    case True
    then have "2 ^ Suc p dvd t + s + 1" using dv by (rule odd_coprime_dvd [rotated])
    then have "2 ^ Suc p \<le> t + s + 1" by (rule dvd_imp_le) simp
    with assms show False by simp
  next
    case False
    then have o: "odd (t + s + 1)" using par by blast
    have "2 ^ Suc p dvd (t + s + 1) * (t - s)" using dv by (simp only: mult.commute)
    from odd_coprime_dvd [OF this o] have "2 ^ Suc p \<le> t - s"
      by (rule dvd_imp_le) (use assms in simp)
    with assms show False by simp
  qed
qed

lemma probe_at_inj: "inj_on (probe_at (2 ^ p) h) {..<2 ^ p}"
proof (rule linorder_inj_onI)
  fix s t :: nat
  assume "s < t" "s \<in> {..<2 ^ p}" "t \<in> {..<2 ^ p}"
  then show "probe_at (2 ^ p) h s \<noteq> probe_at (2 ^ p) h t" using probe_at_distinct by simp
qed auto

lemma probe_at_surj:
  assumes "i < 2 ^ p"
  obtains t where "t < 2 ^ p" and "probe_at (2 ^ p) h t = i"
proof -
  have sub: "probe_at (2 ^ p) h ` {..<2 ^ p} \<subseteq> {..<2 ^ p}"
    using probe_at_less [of "2 ^ p"] by auto
  have "card (probe_at (2 ^ p) h ` {..<2 ^ p}) = card {..<2 ^ p :: nat}"
    using probe_at_inj by (rule card_image)
  then have "probe_at (2 ^ p) h ` {..<2 ^ p} = {..<2 ^ p}"
    using sub by (intro card_subset_eq) simp_all
  then have "i \<in> probe_at (2 ^ p) h ` {..<2 ^ p}" using assms by simp
  then show ?thesis using that by auto
qed

text \<open>Numbers of buckets: powers of two for which \<open>COMPUTE_SIZE\<close> does not wrap.\<close>

definition buckets :: "u32 \<Rightarrow> nat \<Rightarrow> bool" where
  "buckets n p \<longleftrightarrow> 2 \<le> p \<and> p \<le> 27 \<and> unat n = 2 ^ p"

lemma power_le_27: "p \<le> 27 \<Longrightarrow> (2::nat) ^ p \<le> 134217728"
  using power_increasing [of p 27 "2::nat"] by simp

lemma power_ge_2: "2 \<le> p \<Longrightarrow> (4::nat) \<le> 2 ^ p"
  using power_increasing [of 2 p "2::nat"] by simp

lemma unat_and_bucket_mask:
  assumes "buckets n p"
  shows "unat (x AND (n - 1)) = unat x mod 2 ^ p"
proof -
  have p: "p \<le> 27" "unat n = 2 ^ p" using assms by (auto simp: buckets_def)
  have "n = of_nat (unat n)" by simp
  also have "\<dots> = 2 ^ p" unfolding p(2) by simp
  finally have "n = 2 ^ p" .
  then have m: "n - 1 = mask p" by (simp add: mask_eq_exp_minus_1)
  show ?thesis
    unfolding m take_bit_eq_mask [symmetric] unsigned_take_bit_eq by (simp add: take_bit_eq_mod)
qed

lemma unat_probe_step:
  assumes n: "buckets n p" and s: "unat s < 2 ^ p" and i: "unat i = probe_at (2 ^ p) h (unat s)"
  shows "unat (s + 1) = Suc (unat s)"
    and "unat ((i + (s + 1)) AND (n - 1)) = probe_at (2 ^ p) h (Suc (unat s))"
proof -
  have p: "p \<le> 27" using n by (simp add: buckets_def)
  show ss: "unat (s + 1) = Suc (unat s)"
    using s power_le_27 [OF p] by (simp add: unat_word_ariths)
  have "unat i < 2 ^ p" unfolding i by (simp add: probe_at_less)
  then have "unat (i + (s + 1)) = unat i + Suc (unat s)"
    using s power_le_27 [OF p] unfolding ss [symmetric] by (simp only: unat_word_ariths) (simp add: ss)
  then show "unat ((i + (s + 1)) AND (n - 1)) = probe_at (2 ^ p) h (Suc (unat s))"
    unfolding unat_and_bucket_mask [OF n] probe_at_Suc by (simp add: i)
qed

section \<open>Sizes of the table\<close>

lemma sizes_evaluated:
  "\<forall>p\<in>set [2..<28]. kroundup32 (2 ^ p - 1) = 2 ^ p \<and> unat (COMPUTE_SIZE (2 ^ p)) = (77 * 2 ^ p + 50) div 100"
  by (simp add: kroundup32_def COMPUTE_SIZE_def DIV_100_def Let_def)

lemma sizes_evaluated_up:
  "\<forall>p\<in>set [2..<28]. kroundup32 (2 ^ p + 1) = 2 ^ Suc p"
  by (simp add: kroundup32_def Let_def)

lemma buckets_eq: "buckets n p \<Longrightarrow> n = 2 ^ p"
proof -
  assume n: "buckets n p"
  have "n = of_nat (unat n)" by simp
  also have "\<dots> = 2 ^ p" using n unfolding buckets_def by simp
  finally show "n = 2 ^ p" .
qed

lemma buckets_range: "buckets n p \<Longrightarrow> p \<in> set [2..<28]"
  unfolding set_upt by (simp add: buckets_def)

lemma unat_buckets: "buckets n p \<Longrightarrow> unat n = 2 ^ p"
  by (simp add: buckets_def)

lemma unat_buckets_bounds: "buckets n p \<Longrightarrow> 4 \<le> unat n \<and> unat n \<le> 134217728"
  using power_le_27 power_ge_2 by (auto simp: buckets_def)

lemma kroundup32_down: "buckets n p \<Longrightarrow> kroundup32 (n - 1) = n"
  using sizes_evaluated buckets_eq buckets_range by metis

lemma kroundup32_up: "buckets n p \<Longrightarrow> kroundup32 (n + 1) = 2 ^ Suc p"
  using sizes_evaluated_up buckets_eq buckets_range by metis

lemma buckets_Suc: "p < 27 \<Longrightarrow> buckets n p \<Longrightarrow> buckets (2 ^ Suc p) (Suc p)"
proof -
  assume p: "p < 27" and n: "buckets n p"
  have le: "(2::nat) ^ Suc p \<le> 134217728" using p by (intro power_le_27) simp
  have "unat (2 ^ Suc p :: u32) = unat (of_nat (2 ^ Suc p) :: u32)" by simp
  also have "\<dots> = 2 ^ Suc p" unfolding unat_of_nat using le by simp
  finally show ?thesis using p n by (simp add: buckets_def)
qed

definition load_limit :: "nat \<Rightarrow> nat" where
  "load_limit N = (77 * N + 50) div 100"

lemma unat_COMPUTE_SIZE:
  assumes "buckets n p"
  shows "unat (ucast (COMPUTE_SIZE n) :: u32) = load_limit (2 ^ p)"
proof -
  have c: "unat (COMPUTE_SIZE n) = load_limit (2 ^ p)"
    unfolding buckets_eq [OF assms] load_limit_def using sizes_evaluated buckets_range [OF assms] by blast
  have "load_limit (2 ^ p) < 2 ^ 32"
    using assms power_le_27 [of p] by (simp add: load_limit_def buckets_def)
  then show ?thesis
    unfolding unsigned_ucast_eq c by (simp add: take_bit_nat_eq_self)
qed

lemma load_limit_less: "4 \<le> N \<Longrightarrow> load_limit N < N"
  unfolding load_limit_def by (simp add: less_mult_imp_div_less)

lemma load_limit_half: "4 \<le> N \<Longrightarrow> N > 2 * s \<Longrightarrow> s < load_limit N"
  unfolding load_limit_def Suc_le_eq [symmetric] by (simp add: less_eq_div_iff_mult_less_eq)

lemma load_limit_double: "4 \<le> N \<Longrightarrow> s \<le> load_limit N \<Longrightarrow> s < load_limit (2 * N)"
  unfolding load_limit_def Suc_le_eq [symmetric] by (simp add: less_eq_div_iff_mult_less_eq)

lemma flags_for_empty: 
  assumes "buckets n p" 
  shows "flags_for (empty_flags n) (2 ^ p)"
proof -
  have d: "unat (drop_bit 4 n) = 2 ^ p div 16" using assms by (simp add: flag_index buckets_def)
  have lt: "n < 16 \<longleftrightarrow> (2::nat) ^ p < 16" using assms by (simp add: word_less_nat_alt buckets_def)
  have dv: "16 * ((2::nat) ^ p div 16) = 2 ^ p" if "\<not> (2::nat) ^ p < 16"
  proof -
    have "4 \<le> p" using that power_strict_increasing [of p 4 "2::nat"] by (cases "p < 4") simp_all
    then have "(2::nat) ^ 4 dvd 2 ^ p" by (rule le_imp_power_dvd)
    then show ?thesis by simp
  qed
  show ?thesis
    using dv by (auto simp: flags_for_def empty_flags_def ac_fsize_def d lt)
qed

lemma bit_aa: "bit (0xaaaaaaaa :: u32) k \<longleftrightarrow> odd k \<and> k < 32"
proof -
  have "\<forall>k\<in>set ([0, 1, 2, 3, 4, 5, 6, 7, 8, 9, 10, 11, 12, 13, 14, 15] @
      [16, 17, 18, 19, 20, 21, 22, 23, 24, 25, 26, 27, 28, 29, 30, 31]). bit (0xaaaaaaaa :: u32) k = odd k"
    by simp
  moreover have "k \<in> set ([0, 1, 2, 3, 4, 5, 6, 7, 8, 9, 10, 11, 12, 13, 14, 15] @
      [16, 17, 18, 19, 20, 21, 22, 23, 24, 25, 26, 27, 28, 29, 30, 31])" if "k < 32"
    using that by (simp add: less_Suc_eq numeral_eq_Suc)
  ultimately show ?thesis using bit_imp_le_length [of "0xaaaaaaaa :: u32" k] by auto
qed

lemma empty_flags_at:
  assumes "buckets n p" and "i < 2 ^ p"
  shows "emp (empty_flags n) i" and "\<not> del (empty_flags n) i"
proof -
  have l: "i div 16 < unat (ac_fsize n)"
    using flags_for_empty [OF assms(1)] assms(2) by (auto simp: flags_for_def empty_flags_def)
  have "i mod 16 < 16" by simp
  then show "emp (empty_flags n) i" "\<not> del (empty_flags n) i"
    using l unfolding emp_def del_def empty_flags_def nth_replicate [OF l] bit_aa by simp_all
qed

section \<open>The invariant and the map of a table\<close>

definition live :: "u32 list \<Rightarrow> nat \<Rightarrow> nat set" where
  "live fl n = {i. i < n \<and> \<not> emp fl i \<and> \<not> del fl i}"

definition occ :: "u32 list \<Rightarrow> nat \<Rightarrow> nat set" where
  "occ fl n = {i. i < n \<and> \<not> emp fl i}"

text \<open>Bucket \<open>i\<close> is on the probe sequence of \<open>k\<close>, behind buckets that are not empty.\<close>

definition reach :: "('k \<Rightarrow> u32) \<Rightarrow> u32 list \<Rightarrow> nat \<Rightarrow> 'k \<Rightarrow> nat \<Rightarrow> bool" where
  "reach hf fl N k i \<longleftrightarrow> (\<exists>t<N. probe_at N (unat (hf k)) t = i \<and>
     (\<forall>s<t. \<not> emp fl (probe_at N (unat (hf k)) s)))"

definition layout :: "('k \<Rightarrow> u32) \<Rightarrow> u32 list \<Rightarrow> 'k option list \<Rightarrow> nat \<Rightarrow> bool" where
  "layout hf fl ks N \<longleftrightarrow> (\<forall>i\<in>live fl N. \<exists>k. ks ! i = Some k \<and> reach hf fl N k i) \<and>
     inj_on ((!) ks) (live fl N)"

definition kh_wf :: "('k \<Rightarrow> u32) \<Rightarrow> ('k, 'v) khash \<Rightarrow> nat \<Rightarrow> bool" where
  "kh_wf hf h p \<longleftrightarrow> buckets (n_buckets h) p \<and> flags_for (kh_flags h) (2 ^ p) \<and>
     2 ^ p \<le> length (kh_keys h) \<and> 2 ^ p \<le> length (kh_vals h) \<and>
     unat (kh_size h) = card (live (kh_flags h) (2 ^ p)) \<and>
     unat (n_occupied h) = card (occ (kh_flags h) (2 ^ p)) \<and>
     unat (upper_bound h) = load_limit (2 ^ p) \<and>
     card (occ (kh_flags h) (2 ^ p)) \<le> load_limit (2 ^ p) \<and>
     layout hf (kh_flags h) (kh_keys h) (2 ^ p)"

definition kh_inv :: "('k \<Rightarrow> u32) \<Rightarrow> ('k, 'v) khash \<Rightarrow> bool" where
  "kh_inv hf h \<longleftrightarrow>
     n_buckets h = 0 \<and> kh_size h = 0 \<and> n_occupied h = 0 \<and> upper_bound h = 0 \<or> (\<exists>p. kh_wf hf h p)"

definition kh_live :: "('k, 'v) khash \<Rightarrow> nat list" where
  "kh_live h = filter (\<lambda>i. \<not> emp (kh_flags h) i \<and> \<not> del (kh_flags h) i) [0..<unat (n_buckets h)]"

definition kh_entries :: "('k, 'v) khash \<Rightarrow> ('k \<times> 'v option) list" where
  "kh_entries h = map (\<lambda>i. (the (kh_keys h ! i), kh_vals h ! i)) (kh_live h)"

definition kh_abs :: "('k, 'v) khash \<Rightarrow> 'k \<rightharpoonup> 'v option" where
  "kh_abs h = map_of (kh_entries h)"

lemma finite_live [simp]: "finite (live fl n)"
  by (simp add: live_def)

lemma finite_occ [simp]: "finite (occ fl n)"
  by (simp add: occ_def)

lemma live_subset_occ: "live fl n \<subseteq> occ fl n"
  by (auto simp: live_def occ_def)

lemma live_less: "i \<in> live fl n \<Longrightarrow> i < n"
  by (simp add: live_def)

lemma layout_key: "layout hf fl ks N \<Longrightarrow> i \<in> live fl N \<Longrightarrow> \<exists>k. ks ! i = Some k"
  by (auto simp: layout_def)

lemma layout_inj: "layout hf fl ks N \<Longrightarrow> i \<in> live fl N \<Longrightarrow> j \<in> live fl N \<Longrightarrow> ks ! i = ks ! j \<Longrightarrow> i = j"
  by (auto simp: layout_def dest: inj_onD)

lemma set_kh_live: "set (kh_live h) = live (kh_flags h) (unat (n_buckets h))"
  by (auto simp: kh_live_def live_def)

lemma kh_abs_Some_iff:
  assumes "layout hf (kh_flags h) (kh_keys h) (unat (n_buckets h))"
  shows "kh_abs h k = Some v \<longleftrightarrow>
    (\<exists>i\<in>live (kh_flags h) (unat (n_buckets h)). kh_keys h ! i = Some k \<and> kh_vals h ! i = v)"
proof -
  have inj: "inj_on (\<lambda>i. the (kh_keys h ! i)) (set (kh_live h))"
    unfolding set_kh_live
    by (rule inj_onI) (metis assms layout_inj layout_key option.sel)
  have "distinct (map fst (kh_entries h))"
    using inj by (simp add: kh_entries_def comp_def distinct_map) (simp add: kh_live_def)
  then have "kh_abs h k = Some v \<longleftrightarrow> (k, v) \<in> set (kh_entries h)"
    by (simp add: kh_abs_def)
  also have "\<dots> \<longleftrightarrow> (\<exists>i\<in>live (kh_flags h) (unat (n_buckets h)). kh_keys h ! i = Some k \<and> kh_vals h ! i = v)"
    using layout_key [OF assms] by (force simp: kh_entries_def set_kh_live)
  finally show ?thesis .
qed

lemma kh_abs_None_iff:
  assumes "layout hf (kh_flags h) (kh_keys h) (unat (n_buckets h))"
  shows "kh_abs h k = None \<longleftrightarrow> (\<forall>i\<in>live (kh_flags h) (unat (n_buckets h)). kh_keys h ! i \<noteq> Some k)"
  using kh_abs_Some_iff [OF assms, of k] by (metis not_None_eq)

lemma kh_wf_layout: "kh_wf hf h p \<Longrightarrow> layout hf (kh_flags h) (kh_keys h) (unat (n_buckets h))"
  by (simp add: kh_wf_def buckets_def)

lemmas kh_wf_abs = kh_abs_Some_iff [OF kh_wf_layout] kh_abs_None_iff [OF kh_wf_layout]

lemma kh_wf_nonzero: "kh_wf hf h p \<Longrightarrow> n_buckets h \<noteq> 0"
  using unat_buckets_bounds [of "n_buckets h" p] by (auto simp: kh_wf_def)

lemma kh_abs_unallocated: "n_buckets h = 0 \<Longrightarrow> kh_abs h = Map.empty"
  by (simp add: kh_abs_def kh_entries_def kh_live_def)

text \<open>There is always an empty bucket.\<close>

lemma empty_bucket:
  assumes "card (occ fl (2 ^ p)) < 2 ^ p"
  obtains t where "t < 2 ^ p" and "emp fl (probe_at (2 ^ p) h t)"
proof -
  have "\<exists>i<2 ^ p. emp fl i"
  proof (rule ccontr)
    assume "\<not> ?thesis"
    then have "occ fl (2 ^ p) = {..<2 ^ p}" unfolding occ_def by blast
    with assms show False by simp
  qed
  then obtain i where i: "i < 2 ^ p" "emp fl i" by blast
  obtain t where "t < 2 ^ p" "probe_at (2 ^ p) h t = i" by (rule probe_at_surj [OF i(1)])
  then show ?thesis using that i(2) by simp
qed

lemma kh_wf_room: "kh_wf hf h p \<Longrightarrow> card (occ (kh_flags h) (2 ^ p)) < 2 ^ p"
  using load_limit_less [of "2 ^ p"] power_ge_2 [of p] by (auto simp: kh_wf_def buckets_def)

section \<open>Lookup\<close>

text \<open>The probes before the \<open>t\<close>-th have met neither an empty bucket nor the key.\<close>

definition walked :: "u32 list \<Rightarrow> 'k option list \<Rightarrow> 'k \<Rightarrow> nat \<Rightarrow> nat \<Rightarrow> nat \<Rightarrow> bool" where
  "walked fl ks key N H t \<longleftrightarrow> (\<forall>s<t. let i = probe_at N H s in
     \<not> emp fl i \<and> (del fl i \<or> ks ! i \<noteq> Some key))"

lemma walked_0 [simp]: "walked fl ks key N H 0"
  by (simp add: walked_def)

lemma walked_Suc: "walked fl ks key N H (Suc t) \<longleftrightarrow> walked fl ks key N H t \<and>
    \<not> emp fl (probe_at N H t) \<and> (del fl (probe_at N H t) \<or> ks ! probe_at N H t \<noteq> Some key)"
  by (auto simp: walked_def less_Suc_eq Let_def)

lemma walked_miss:
  assumes lay: "layout hf fl ks N" and w: "walked fl ks key N (unat (hf key)) t"
    and e: "emp fl (probe_at N (unat (hf key)) t)"
  shows "\<forall>i\<in>live fl N. ks ! i \<noteq> Some key"
proof (intro ballI notI)
  fix i assume i: "i \<in> live fl N" and k: "ks ! i = Some key"
  then obtain u where u: "probe_at N (unat (hf key)) u = i"
    "\<forall>s<u. \<not> emp fl (probe_at N (unat (hf key)) s)"
    using lay by (auto simp: layout_def reach_def)
  have "\<not> t < u" using u(2) e by blast
  moreover have "t \<noteq> u" using u(1) e i by (auto simp: live_def)
  ultimately have "u < t" by simp
  with w u(1) i k show False by (auto simp: walked_def live_def Let_def)
qed

lemma walked_stop:
  assumes "walked fl ks key N H t" and "emp fl (probe_at N H u)"
  shows "t \<le> u"
  using assms unfolding walked_def Let_def by (meson not_le_imp_less)

lemma probe_on_ok:
  assumes "flags_for fl N" "N \<le> length ks" "layout hf fl ks N" "unat i < N"
  shows "probe_on fl ks key i =
    Inr (\<not> emp fl (unat i) \<and> (del fl (unat i) \<or> ks ! unat i \<noteq> Some key))"
proof (cases "emp fl (unat i) \<or> del fl (unat i)")
  case True
  then show ?thesis using assms by (auto simp: probe_on_def)
next
  case False
  then have "unat i \<in> live fl N" using assms(4) by (simp add: live_def)
  then obtain k where "ks ! unat i = Some k" using layout_key [OF assms(3)] by blast
  then show ?thesis using assms False by (simp add: probe_on_def key_at_def)
qed

lemma kh_get_loop_ok:
  assumes wf: "kh_wf hf h p"
    and u: "u < 2 ^ p" "emp (kh_flags h) (probe_at (2 ^ p) (unat (hf key)) u)"
    and st: "unat start = probe_at (2 ^ p) (unat (hf key)) 0"
  shows "unat i = probe_at (2 ^ p) (unat (hf key)) (unat step) \<Longrightarrow>
    walked (kh_flags h) (kh_keys h) key (2 ^ p) (unat (hf key)) (unat step) \<Longrightarrow>
    2 ^ p \<le> fuel + unat step \<Longrightarrow>
    \<exists>x. kh_get_loop h key (n_buckets h - 1) start fuel i step = Inr x \<and>
      (unat x \<in> live (kh_flags h) (2 ^ p) \<and> kh_keys h ! unat x = Some key \<or>
       x = n_buckets h \<and> (\<forall>i\<in>live (kh_flags h) (2 ^ p). kh_keys h ! i \<noteq> Some key))"
proof (induction fuel arbitrary: i step)
  case 0
  then show ?case using walked_stop [OF 0(2) u(2)] u(1) by simp
next
  case (Suc fuel)
  let ?H = "unat (hf key)"
  have b: "buckets (n_buckets h) p" and fl: "flags_for (kh_flags h) (2 ^ p)"
    and len: "2 ^ p \<le> length (kh_keys h)" and lay: "layout hf (kh_flags h) (kh_keys h) (2 ^ p)"
    using wf by (auto simp: kh_wf_def)
  have le: "unat step \<le> u" using walked_stop [OF Suc(3) u(2)] .
  have i: "unat i < 2 ^ p" unfolding Suc(2) by (simp add: probe_at_less)
  note pr = probe_on_ok [OF fl len lay i, of key]
  show ?case
  proof (cases "\<not> emp (kh_flags h) (unat i) \<and> (del (kh_flags h) (unat i) \<or> kh_keys h ! unat i \<noteq> Some key)")
    case False
    show ?thesis
    proof (cases "emp (kh_flags h) (unat i)")
      case True
      then have "\<forall>i\<in>live (kh_flags h) (2 ^ p). kh_keys h ! i \<noteq> Some key"
        using walked_miss [OF lay Suc(3)] Suc(2) by simp
      then show ?thesis using True pr fl i by (simp add: kh_get_exit_def)
    next
      case ne: False
      then show ?thesis using False pr fl i by (auto simp: kh_get_exit_def live_def)
    qed
  next
    case True
    have s: "unat step < 2 ^ p" using le u(1) by simp
    note nx = unat_probe_step [OF b s Suc(2)]
    have w: "walked (kh_flags h) (kh_keys h) key (2 ^ p) ?H (unat (step + 1))"
      unfolding nx(1) walked_Suc using Suc(3) True Suc(2) by simp
    have "Suc (unat step) \<le> u" using walked_stop [OF w u(2)] nx(1) by simp
    then have "probe_at (2 ^ p) ?H 0 \<noteq> probe_at (2 ^ p) ?H (Suc (unat step))"
      using u(1) by (intro probe_at_distinct) simp_all
    then have ns: "(i + (step + 1)) AND (n_buckets h - 1) \<noteq> start"
      using nx(2) st by metis
    have "\<exists>x. kh_get_loop h key (n_buckets h - 1) start fuel ((i + (step + 1)) AND (n_buckets h - 1)) (step + 1) = Inr x \<and>
      (unat x \<in> live (kh_flags h) (2 ^ p) \<and> kh_keys h ! unat x = Some key \<or>
       x = n_buckets h \<and> (\<forall>i\<in>live (kh_flags h) (2 ^ p). kh_keys h ! i \<noteq> Some key))"
      by (rule Suc.IH) (use nx w Suc(4) in simp_all)
    then show ?thesis using True pr ns by (simp add: Let_def)
  qed
qed

lemma kh_get_wf:
  assumes wf: "kh_wf hf h p"
  obtains x where "kh_get hf h key = Inr x"
    and "unat x \<in> live (kh_flags h) (2 ^ p) \<and> kh_keys h ! unat x = Some key \<or>
       x = n_buckets h \<and> (\<forall>i\<in>live (kh_flags h) (2 ^ p). kh_keys h ! i \<noteq> Some key)"
proof -
  have b: "buckets (n_buckets h) p" using wf by (auto simp: kh_wf_def)
  obtain u where u: "u < 2 ^ p" "emp (kh_flags h) (probe_at (2 ^ p) (unat (hf key)) u)"
    using empty_bucket [OF kh_wf_room [OF wf]] by metis
  let ?i = "hf key AND (n_buckets h - 1)"
  have i: "unat ?i = probe_at (2 ^ p) (unat (hf key)) 0"
    by (simp add: unat_and_bucket_mask [OF b] probe_at_0)
  have "\<exists>x. kh_get_loop h key (n_buckets h - 1) ?i (2 * unat (n_buckets h)) ?i 0 = Inr x \<and>
      (unat x \<in> live (kh_flags h) (2 ^ p) \<and> kh_keys h ! unat x = Some key \<or>
       x = n_buckets h \<and> (\<forall>i\<in>live (kh_flags h) (2 ^ p). kh_keys h ! i \<noteq> Some key))"
    by (rule kh_get_loop_ok [OF wf u i]) (use i b in \<open>simp_all add: buckets_def\<close>)
  then show ?thesis using that kh_wf_nonzero [OF wf] by (auto simp: kh_get_def Let_def)
qed

section \<open>Where an insertion goes\<close>

definition site_ok :: "u32 list \<Rightarrow> nat \<Rightarrow> nat \<Rightarrow> nat \<Rightarrow> u32 \<Rightarrow> u32 \<Rightarrow> bool" where
  "site_ok fl N H t nb site \<longleftrightarrow> site = nb \<or>
     \<not> emp fl (unat site) \<and> del fl (unat site) \<and> (\<exists>s<t. unat site = probe_at N H s)"

lemma site_ok_Suc: "site_ok fl N H t nb site \<Longrightarrow> site_ok fl N H (Suc t) nb site"
  by (auto simp: site_ok_def intro: less_SucI)

lemma kh_put_loop_ok:
  assumes wf: "kh_wf hf h p"
    and u: "u < 2 ^ p" "emp (kh_flags h) (probe_at (2 ^ p) (unat (hf key)) u)"
    and st: "unat start = probe_at (2 ^ p) (unat (hf key)) 0"
  shows "unat i = probe_at (2 ^ p) (unat (hf key)) (unat step) \<Longrightarrow>
    walked (kh_flags h) (kh_keys h) key (2 ^ p) (unat (hf key)) (unat step) \<Longrightarrow>
    site_ok (kh_flags h) (2 ^ p) (unat (hf key)) (unat step) (n_buckets h) site \<Longrightarrow>
    2 ^ p \<le> fuel + unat step \<Longrightarrow>
    \<exists>j site' t. kh_put_loop h key (n_buckets h - 1) start fuel i site step = Inr (j, site', n_buckets h) \<and>
      t < 2 ^ p \<and> unat j = probe_at (2 ^ p) (unat (hf key)) t \<and>
      walked (kh_flags h) (kh_keys h) key (2 ^ p) (unat (hf key)) t \<and>
      site_ok (kh_flags h) (2 ^ p) (unat (hf key)) t (n_buckets h) site' \<and>
      (emp (kh_flags h) (unat j) \<or> unat j \<in> live (kh_flags h) (2 ^ p) \<and> kh_keys h ! unat j = Some key)"
proof (induction fuel arbitrary: i site step)
  case 0
  then show ?case using walked_stop [OF 0(2) u(2)] u(1) by simp
next
  case (Suc fuel)
  let ?H = "unat (hf key)"
  let ?on = "\<not> emp (kh_flags h) (unat i) \<and> (del (kh_flags h) (unat i) \<or> kh_keys h ! unat i \<noteq> Some key)"
  have b: "buckets (n_buckets h) p" and fl: "flags_for (kh_flags h) (2 ^ p)"
    and len: "2 ^ p \<le> length (kh_keys h)" and lay: "layout hf (kh_flags h) (kh_keys h) (2 ^ p)"
    using wf by (auto simp: kh_wf_def)
  have s: "unat step < 2 ^ p" using walked_stop [OF Suc(3) u(2)] u(1) by simp
  have i: "unat i < 2 ^ p" unfolding Suc(2) by (simp add: probe_at_less)
  note pr = probe_on_ok [OF fl len lay i, of key]
  show ?case
  proof (cases ?on)
    case False
    then have "emp (kh_flags h) (unat i) \<or> unat i \<in> live (kh_flags h) (2 ^ p) \<and> kh_keys h ! unat i = Some key"
      using i by (auto simp: live_def)
    moreover have "kh_put_loop h key (n_buckets h - 1) start (Suc fuel) i site step = Inr (i, site, n_buckets h)"
      unfolding kh_put_loop.simps pr using False by simp
    ultimately show ?thesis using s Suc(2,3,4) by blast
  next
    case True
    note nx = unat_probe_step [OF b s Suc(2)]
    let ?site = "if del (kh_flags h) (unat i) then i else site"
    have w: "walked (kh_flags h) (kh_keys h) key (2 ^ p) ?H (unat (step + 1))"
      unfolding nx(1) walked_Suc using Suc(3) True Suc(2) by simp
    have "Suc (unat step) \<le> u" using walked_stop [OF w u(2)] nx(1) by simp
    then have "probe_at (2 ^ p) ?H 0 \<noteq> probe_at (2 ^ p) ?H (Suc (unat step))"
      using u(1) by (intro probe_at_distinct) simp_all
    then have ns: "(i + (step + 1)) AND (n_buckets h - 1) \<noteq> start"
      using nx(2) st by metis
    have so: "site_ok (kh_flags h) (2 ^ p) ?H (unat (step + 1)) (n_buckets h) ?site"
      unfolding nx(1) using site_ok_Suc [OF Suc(4)] True Suc(2) by (auto simp: site_ok_def)
    have st: "kh_put_loop h key (n_buckets h - 1) start (Suc fuel) i site step =
       kh_put_loop h key (n_buckets h - 1) start fuel ((i + (step + 1)) AND (n_buckets h - 1)) ?site (step + 1)"
      unfolding kh_put_loop.simps pr using True ns fl i by (simp add: Let_def)
    show ?thesis
      unfolding st by (rule Suc.IH) (use nx w so Suc(5) in simp_all)
  qed
qed

text \<open>The chosen bucket holds the key, or the key is absent and may go there.\<close>

definition put_here :: "('k \<Rightarrow> u32) \<Rightarrow> ('k, 'v) khash \<Rightarrow> nat \<Rightarrow> 'k \<Rightarrow> nat \<Rightarrow> bool" where
  "put_here hf h N key x \<longleftrightarrow> x < N \<and>
     (if x \<in> live (kh_flags h) N then kh_keys h ! x = Some key
      else (\<forall>i\<in>live (kh_flags h) N. kh_keys h ! i \<noteq> Some key) \<and> reach hf (kh_flags h) N key x)"

lemma walked_reach:
  "walked fl ks key N (unat (hf key)) t \<Longrightarrow> t < N \<Longrightarrow> s \<le> t \<Longrightarrow> reach hf fl N key (probe_at N (unat (hf key)) s)"
  unfolding reach_def walked_def Let_def by (rule exI [of _ s]) auto

lemma kh_put_site_ok:
  assumes wf: "kh_wf hf h p"
  obtains x where "kh_put_site hf h key = Inr x" and "put_here hf h (2 ^ p) key (unat x)"
proof -
  let ?H = "unat (hf key)" and ?fl = "kh_flags h"
  have b: "buckets (n_buckets h) p" and fl: "flags_for ?fl (2 ^ p)"
    and lay: "layout hf ?fl (kh_keys h) (2 ^ p)"
    using wf by (auto simp: kh_wf_def)
  obtain u where u: "u < 2 ^ p" "emp ?fl (probe_at (2 ^ p) ?H u)"
    using empty_bucket [OF kh_wf_room [OF wf]] by metis
  let ?i = "hf key AND (n_buckets h - 1)"
  have i: "unat ?i = probe_at (2 ^ p) ?H 0"
    by (simp add: unat_and_bucket_mask [OF b] probe_at_0)
  have il: "unat ?i < 2 ^ p" unfolding i by (simp add: probe_at_less)
  show ?thesis
  proof (cases "emp ?fl (unat ?i)")
    case True
    have w0: "walked ?fl (kh_keys h) key (2 ^ p) ?H 0" by simp
    have "put_here hf h (2 ^ p) key (unat ?i)"
      unfolding put_here_def
      using True il walked_miss [where hf = hf, OF lay w0] walked_reach [where hf = hf, OF w0, where s = 0] i by (auto simp: live_def)
    moreover have "kh_put_site hf h key = Inr ?i"
      using True fl il by (simp add: kh_put_site_def Let_def)
    ultimately show ?thesis using that by blast
  next
    case False
    have "\<exists>j site' t. kh_put_loop h key (n_buckets h - 1) ?i (2 * unat (n_buckets h)) ?i (n_buckets h) 0 =
        Inr (j, site', n_buckets h) \<and>
      t < 2 ^ p \<and> unat j = probe_at (2 ^ p) ?H t \<and>
      walked ?fl (kh_keys h) key (2 ^ p) ?H t \<and>
      site_ok ?fl (2 ^ p) ?H t (n_buckets h) site' \<and>
      (emp ?fl (unat j) \<or> unat j \<in> live ?fl (2 ^ p) \<and> kh_keys h ! unat j = Some key)"
      by (rule kh_put_loop_ok [OF wf u i]) (use i b in \<open>simp_all add: buckets_def site_ok_def\<close>)
    then obtain j site t where
      l: "kh_put_loop h key (n_buckets h - 1) ?i (2 * unat (n_buckets h)) ?i (n_buckets h) 0 =
          Inr (j, site, n_buckets h)"
      and t: "t < 2 ^ p" and j: "unat j = probe_at (2 ^ p) ?H t"
      and w: "walked ?fl (kh_keys h) key (2 ^ p) ?H t"
      and so: "site_ok ?fl (2 ^ p) ?H t (n_buckets h) site"
      and e: "emp ?fl (unat j) \<or> unat j \<in> live ?fl (2 ^ p) \<and> kh_keys h ! unat j = Some key"
      by blast
    have jl: "unat j < 2 ^ p" unfolding j by (simp add: probe_at_less)
    let ?x = "if emp ?fl (unat j) \<and> site \<noteq> n_buckets h then site else j"
    have r: "kh_put_site hf h key = Inr ?x"
      using False fl il jl l by (simp add: kh_put_site_def Let_def)
    have "put_here hf h (2 ^ p) key (unat ?x)"
    proof (cases "emp ?fl (unat j)")
      case True
      then have miss: "\<forall>i\<in>live ?fl (2 ^ p). kh_keys h ! i \<noteq> Some key"
        using walked_miss [OF lay w] j by simp
      show ?thesis
      proof (cases "site = n_buckets h")
        case True
        then show ?thesis using miss jl e j walked_reach [where hf = hf, OF w t order_refl]
          by (auto simp: put_here_def live_def)
      next
        case ns: False
        then obtain s where s: "s < t" "unat site = probe_at (2 ^ p) ?H s"
          and d: "del ?fl (unat site)" using so by (auto simp: site_ok_def)
        have "unat site < 2 ^ p" unfolding s(2) by (simp add: probe_at_less)
        then show ?thesis
          using miss True ns d s walked_reach [where hf = hf, OF w t, of s] by (auto simp: put_here_def live_def)
      qed
    next
      case False
      then show ?thesis using e jl by (simp add: put_here_def)
    qed
    then show ?thesis using that r by blast
  qed
qed

section \<open>Writing and deleting a bucket\<close>

lemma flags_upd_sets:
  assumes "flags_upd fl x e d fl'" and "x < N"
  shows "live fl' N = (if \<not> e \<and> \<not> d then insert x (live fl N) else live fl N - {x})"
    and "occ fl' N = (if e then occ fl N - {x} else insert x (occ fl N))"
  using assms by (auto simp: flags_upd_def live_def occ_def)

lemma flags_upd_for: "flags_upd fl x e d fl' \<Longrightarrow> flags_for fl n \<Longrightarrow> flags_for fl' n"
  by (simp add: flags_upd_def flags_for_def)

lemma reach_mono:
  "reach hf fl N k i \<Longrightarrow> (\<And>j. \<not> emp fl j \<Longrightarrow> \<not> emp fl' j) \<Longrightarrow> reach hf fl' N k i"
  by (auto simp: reach_def)

lemma layout_insert:
  assumes lay: "layout hf fl ks N" and x: "x < N" "x < length ks"
    and new: "\<forall>i\<in>live fl N. i \<noteq> x \<longrightarrow> ks ! i \<noteq> Some key" and r: "reach hf fl N key x"
    and f: "flags_upd fl x False False fl'"
  shows "layout hf fl' (ks[x := Some key]) N"
proof -
  have lv: "live fl' N = insert x (live fl N)" using flags_upd_sets [OF f x(1)] by simp
  have mono: "reach hf fl' N k i" if "reach hf fl N k i" for k i
    using that by (rule reach_mono) (use f in \<open>auto simp: flags_upd_def\<close>)
  have "inj_on ((!) (ks[x := Some key])) (insert x (live fl N))"
  proof (rule inj_onI)
    fix i j
    assume i: "i \<in> insert x (live fl N)" and j: "j \<in> insert x (live fl N)"
      and e: "ks[x := Some key] ! i = ks[x := Some key] ! j"
    show "i = j"
    proof (rule ccontr)
      assume ne: "i \<noteq> j"
      consider "i = x" "j \<in> live fl N" | "j = x" "i \<in> live fl N"
        | "i \<noteq> x" "j \<noteq> x" "i \<in> live fl N" "j \<in> live fl N" using i j ne by blast
      then show False
      proof cases
        case 1
        then show False using e new ne x(2) by auto
      next
        case 2
        then show False using e new ne x(2) by auto
      next
        case 3
        then show False using e layout_inj [OF lay] ne by simp
      qed
    qed
  qed
  moreover have "\<exists>k. ks[x := Some key] ! i = Some k \<and> reach hf fl' N k i" if "i \<in> live fl' N" for i
    using that x r mono lay by (cases "i = x") (auto simp: lv layout_def)
  ultimately show ?thesis by (simp add: layout_def lv)
qed

lemma layout_delete:
  assumes lay: "layout hf fl ks N" and x: "x < N" and f: "flags_upd fl x (emp fl x) True fl'"
  shows "layout hf fl' ks N"
proof -
  have lv: "live fl' N = live fl N - {x}"
    using flags_upd_sets [OF f x] by simp
  have mono: "reach hf fl' N k i" if "reach hf fl N k i" for k i
    using that by (rule reach_mono) (use f in \<open>auto simp: flags_upd_def\<close>)
  show ?thesis using lay mono unfolding layout_def lv by (meson Diff_iff inj_on_diff)
qed

lemma card_live_le: "card (live fl N) \<le> N" and card_occ_le: "card (occ fl N) \<le> N"
proof -
  have "live fl N \<subseteq> {..<N}" "occ fl N \<subseteq> {..<N}" by (auto simp: live_def occ_def)
  then show "card (live fl N) \<le> N" "card (occ fl N) \<le> N"
    using card_mono [of "{..<N}"] by (metis card_lessThan finite_lessThan)+
qed

lemma unat_inc: "unat (x :: u32) \<le> 134217728 \<Longrightarrow> unat (x + 1) = Suc (unat x)"
  by (simp add: unat_word_ariths)

lemma unat_dec: "0 < unat (x :: u32) \<Longrightarrow> unat (x - 1) = unat x - 1"
  by (metis less_not_refl unat_minus_one unsigned_0)

text \<open>What holds of a table in which bucket \<open>x\<close> has just been filled with \<open>key\<close>.\<close>

lemma filled_abs:
  assumes wf: "kh_wf hf h p" and wf': "kh_wf hf h' p" and x: "x < 2 ^ p"
    and ks: "kh_keys h' = (kh_keys h)[x := Some key]" and vs: "kh_vals h' = kh_vals h"
    and f: "flags_upd (kh_flags h) x False False (kh_flags h')"
    and nl: "x \<notin> live (kh_flags h) (2 ^ p)"
    and miss: "\<forall>i\<in>live (kh_flags h) (2 ^ p). kh_keys h ! i \<noteq> Some key"
  shows "kh_abs h' = (kh_abs h)(key \<mapsto> kh_vals h ! x)"
proof (rule ext)
  fix k
  let ?N = "2 ^ p :: nat"
  have nb: "unat (n_buckets h) = ?N" "unat (n_buckets h') = ?N"
    using wf wf' by (auto simp: kh_wf_def buckets_def)
  have lv: "live (kh_flags h') ?N = insert x (live (kh_flags h) ?N)"
    using flags_upd_sets(1) [OF f x] by simp
  have len: "x < length (kh_keys h)" using wf x by (auto simp: kh_wf_def)
  have "kh_abs h' k = Some v \<longleftrightarrow> ((kh_abs h)(key \<mapsto> kh_vals h ! x)) k = Some v" for v
    unfolding fun_upd_apply kh_wf_abs(1) [OF wf'] kh_wf_abs(1) [OF wf] nb lv ks vs
    using nl miss len kh_wf_abs(1) [OF wf, of k v] nb by (auto simp: nth_list_update)
  then show "kh_abs h' k = ((kh_abs h)(key \<mapsto> kh_vals h ! x)) k"
    by (metis not_None_eq)
qed

definition put_result :: "('k \<Rightarrow> u32) \<Rightarrow> ('k, 'v) khash \<Rightarrow> 'k \<Rightarrow> ('k, 'v) khash \<Rightarrow> u32 \<Rightarrow> put_ret \<Rightarrow> bool" where
  "put_result hf h key h' x r \<longleftrightarrow> kh_inv hf h' \<and> r \<noteq> PutFailed \<and>
     (r = PutPresent \<longleftrightarrow> kh_abs h key \<noteq> None) \<and> kh_key h' x = Inr key \<and> kh_exist h' x = Inr True \<and>
     kh_abs h' = (if r = PutPresent then kh_abs h else (kh_abs h)(key \<mapsto> kh_vals h' ! unat x)) \<and>
     unat x < unat (n_buckets h') \<and> kh_abs h' key = Some (kh_vals h' ! unat x)"

lemma put_resultI:
  assumes "kh_wf hf h' p" "unat x \<in> live (kh_flags h') (2 ^ p)" "kh_keys h' ! unat x = Some key"
    "r \<noteq> PutFailed" "r = PutPresent \<longleftrightarrow> kh_abs h key \<noteq> None"
    "kh_abs h' = (if r = PutPresent then kh_abs h else (kh_abs h)(key \<mapsto> kh_vals h' ! unat x))"
  shows "put_result hf h key h' x r"
proof -
  have "unat x < 2 ^ p" using assms(2) by (rule live_less)
  moreover have "unat (n_buckets h') = 2 ^ p" using assms(1) by (simp add: kh_wf_def buckets_def)
  moreover have "kh_abs h' key = Some (kh_vals h' ! unat x)"
    unfolding kh_wf_abs(1) [OF assms(1)] using assms(2,3) calculation(2) by auto
  ultimately show ?thesis
    using assms by (auto simp: put_result_def kh_inv_def kh_key_def key_at_def kh_exist_def kh_wf_def live_def nth_ok_def)
qed

lemma put_here_absent:
  assumes wf: "kh_wf hf h p" and ph: "put_here hf h (2 ^ p) key x"
  shows "x \<in> live (kh_flags h) (2 ^ p) \<longleftrightarrow> kh_abs h key \<noteq> None"
proof -
  have nb: "unat (n_buckets h) = 2 ^ p" using wf by (auto simp: kh_wf_def buckets_def)
  show ?thesis
    using ph unfolding kh_wf_abs(2) [OF wf] nb by (auto simp: put_here_def split: if_splits)
qed

lemma kh_put_at_ok:
  assumes wf: "kh_wf hf h p" and room: "card (occ (kh_flags h) (2 ^ p)) < load_limit (2 ^ p)"
    and ph: "put_here hf h (2 ^ p) key (unat x)"
  obtains h' r where "kh_put_at h key x = Inr (h', x, r)" and "put_result hf h key h' x r"
proof -
  let ?N = "2 ^ p :: nat" and ?fl = "kh_flags h" and ?x = "unat x"
  have b: "buckets (n_buckets h) p" and fl: "flags_for ?fl ?N" and len: "?N \<le> length (kh_keys h)"
    and lay: "layout hf ?fl (kh_keys h) ?N"
    and sz: "unat (kh_size h) = card (live ?fl ?N)" and oc: "unat (n_occupied h) = card (occ ?fl ?N)"
    using wf by (auto simp: kh_wf_def)
  have N: "?N \<le> 134217728" using unat_buckets_bounds [OF b] unat_buckets [OF b] by simp
  have x: "?x < ?N" using ph by (simp add: put_here_def)
  have inc: "unat (kh_size h + 1) = Suc (card (live ?fl ?N))" "unat (n_occupied h + 1) = Suc (card (occ ?fl ?N))"
    using unat_inc N card_live_le [of ?fl ?N] card_occ_le [of ?fl ?N] sz oc by simp_all
  note absent = put_here_absent [OF wf ph]
  note result = that
  show ?thesis
  proof (cases "?x \<in> live ?fl ?N")
    case True
    then have r: "kh_put_at h key x = Inr (h, x, PutPresent)"
      using fl x by (auto simp: kh_put_at_def live_def)
    have "put_result hf h key h x PutPresent"
      by (rule put_resultI [OF wf True]) (use True ph absent in \<open>auto simp: put_here_def\<close>)
    then show ?thesis using that r by blast
  next
    case False
    then have miss: "\<forall>i\<in>live ?fl ?N. kh_keys h ! i \<noteq> Some key" and re: "reach hf ?fl ?N key ?x"
      using ph by (auto simp: put_here_def)
    obtain fl' where s: "ac_set_isboth_false ?fl x = Inr fl'" and f: "flags_upd ?fl ?x False False fl'"
      using ac_set_isboth_false_ok [OF fl x] .
    have lv: "live fl' ?N = insert ?x (live ?fl ?N)" and ov: "occ fl' ?N = insert ?x (occ ?fl ?N)"
      using flags_upd_sets [OF f x] by simp_all
    have lay': "layout hf fl' ((kh_keys h)[?x := Some key]) ?N"
      by (rule layout_insert [OF lay x _ _ re f]) (use x len miss in auto)
    have finish: thesis
      if r: "kh_put_at h key x = Inr (h', x, rr)" and wf': "kh_wf hf h' p"
        and k: "kh_keys h' = (kh_keys h)[?x := Some key]" and v: "kh_vals h' = kh_vals h"
        and fe: "kh_flags h' = fl'" and rr: "rr \<noteq> PutFailed" "rr \<noteq> PutPresent" for h' rr
    proof -
      have a: "kh_abs h' = (kh_abs h)(key \<mapsto> kh_vals h ! ?x)"
        by (rule filled_abs [OF wf wf' x k v _ False miss]) (use f fe in simp)
      have "put_result hf h key h' x rr"
        by (rule put_resultI [OF wf']) (use x len k lv fe rr a v absent False in simp_all)
      with r show thesis by (rule result)
    qed
    show ?thesis
    proof (cases "emp ?fl ?x")
      case True
      let ?h' = "h\<lparr>kh_keys := (kh_keys h)[?x := Some key], kh_flags := fl',
        kh_size := kh_size h + 1, n_occupied := n_occupied h + 1\<rparr>"
      have no: "?x \<notin> occ ?fl ?N" using True by (simp add: occ_def)
      have "kh_wf hf ?h' p"
        using wf inc lv ov lay' False no room flags_upd_for [OF f] by (simp add: kh_wf_def)
      moreover have "kh_put_at h key x = Inr (?h', x, PutNew)"
        using True fl x len s by (simp add: kh_put_at_def)
      ultimately show ?thesis using finish by simp
    next
      case ne: False
      let ?h' = "h\<lparr>kh_keys := (kh_keys h)[?x := Some key], kh_flags := fl', kh_size := kh_size h + 1\<rparr>"
      have "occ fl' ?N = occ ?fl ?N" using ov ne x by (auto simp: occ_def)
      then have "kh_wf hf ?h' p"
        using wf inc lv lay' False flags_upd_for [OF f] by (simp add: kh_wf_def)
      moreover have "kh_put_at h key x = Inr (?h', x, PutDeleted)"
        using ne False fl x len s by (simp add: kh_put_at_def live_def)
      ultimately show ?thesis using finish by simp
    qed
  qed
qed

text \<open>Removal.\<close>

lemma kh_del_ok:
  assumes wf: "kh_wf hf h p" and x: "unat x \<in> live (kh_flags h) (2 ^ p)" and k: "kh_keys h ! unat x = Some key"
  obtains h' where "kh_del h x = Inr h'" and "kh_wf hf h' p" and "kh_abs h' = (kh_abs h)(key := None)"
    and "n_buckets h' = n_buckets h" "kh_keys h' = kh_keys h" "kh_vals h' = kh_vals h"
    "live (kh_flags h') (2 ^ p) = live (kh_flags h) (2 ^ p) - {unat x}"
proof -
  let ?N = "2 ^ p :: nat" and ?fl = "kh_flags h"
  have b: "buckets (n_buckets h) p" and fl: "flags_for ?fl ?N"
    and lay: "layout hf ?fl (kh_keys h) ?N" and sz: "unat (kh_size h) = card (live ?fl ?N)"
    using wf by (auto simp: kh_wf_def)
  have nb: "unat (n_buckets h) = ?N" using b by (simp add: buckets_def)
  have xl: "unat x < ?N" using live_less [OF x] .
  have ne: "x \<noteq> n_buckets h" using xl nb by auto
  obtain fl' where s: "ac_set_isdel_true ?fl x = Inr fl'"
    and f: "flags_upd ?fl (unat x) (emp ?fl (unat x)) True fl'"
    using ac_set_isdel_true_ok [OF fl xl] .
  have em: "\<not> emp ?fl (unat x)" "\<not> del ?fl (unat x)" using x by (auto simp: live_def)
  have lv: "live fl' ?N = live ?fl ?N - {unat x}" and ov: "occ fl' ?N = occ ?fl ?N"
    using flags_upd_sets [OF f xl] em xl by (auto simp: occ_def)
  let ?h' = "h\<lparr>kh_flags := fl', kh_size := kh_size h - 1\<rparr>"
  have pos: "0 < card (live ?fl ?N)" using x by (auto simp: card_gt_0_iff)
  have wf': "kh_wf hf ?h' p"
    using wf sz pos lv ov x layout_delete [OF lay xl f] flags_upd_for [OF f] unat_dec [of "kh_size h"]
    by (simp add: kh_wf_def card_Diff_singleton)
  have "kh_abs ?h' j = ((kh_abs h)(key := None)) j" for j
  proof -
    have "kh_abs ?h' j = Some v \<longleftrightarrow> ((kh_abs h)(key := None)) j = Some v" for v
    proof -
      have "(\<exists>i\<in>live ?fl ?N - {unat x}. kh_keys h ! i = Some j \<and> kh_vals h ! i = v) \<longleftrightarrow>
          j \<noteq> key \<and> (\<exists>i\<in>live ?fl ?N. kh_keys h ! i = Some j \<and> kh_vals h ! i = v)"
        using k layout_inj [OF lay _ x] by (metis Diff_iff option.inject singletonD singletonI)
      then show ?thesis
        using kh_wf_abs(1) [OF wf', of j v] kh_wf_abs(1) [OF wf, of j v] nb lv by simp
    qed
    then show ?thesis by (metis not_None_eq)
  qed
  then have "kh_abs ?h' = (kh_abs h)(key := None)" by (rule ext)
  moreover have "kh_del h x = Inr ?h'" using ne fl xl em s by (simp add: kh_del_def)
  ultimately show ?thesis using that wf' lv by simp
qed

section \<open>Rehashing in place\<close>

text \<open>The entries stored in the buckets of a set, as a multiset.\<close>

definition ents :: "nat set \<Rightarrow> 'k option list \<Rightarrow> 'v option list \<Rightarrow> ('k \<times> 'v option) multiset" where
  "ents A ks vs = image_mset (\<lambda>i. (the (ks ! i), vs ! i)) (mset_set A)"

lemma ents_empty [simp]: "ents {} ks vs = {#}"
  by (simp add: ents_def)

lemma size_ents: "size (ents A ks vs) = card A"
  by (simp add: ents_def)

lemma in_ents: "finite A \<Longrightarrow> (k, v) \<in># ents A ks vs \<longleftrightarrow> (\<exists>i\<in>A. the (ks ! i) = k \<and> vs ! i = v)"
  by (auto simp: ents_def)

lemma ents_other: "finite A \<Longrightarrow> i \<notin> A \<Longrightarrow> ents A (ks[i := k]) (vs[i := v]) = ents A ks vs"
  unfolding ents_def by (rule image_mset_cong) (metis elem_mset_set nth_list_update_neq)

lemma ents_insert:
  "finite A \<Longrightarrow> i \<notin> A \<Longrightarrow> i < length ks \<Longrightarrow> i < length vs \<Longrightarrow>
    ents (insert i A) (ks[i := Some k]) (vs[i := v]) = add_mset (k, v) (ents A ks vs)"
  using ents_other [of A i ks "Some k" vs v] by (simp add: ents_def)

lemma ents_remove:
  "finite A \<Longrightarrow> i \<in> A \<Longrightarrow> ents A ks vs = add_mset (the (ks ! i), vs ! i) (ents (A - {i}) ks vs)"
  by (simp add: ents_def mset_set.remove)

lemma ents_cong:
  "(\<And>i. i \<in> A \<Longrightarrow> ks ! i = ks' ! i \<and> vs ! i = vs' ! i) \<Longrightarrow> ents A ks vs = ents A ks' vs'"
  unfolding ents_def by (rule image_mset_cong) (metis elem_mset_set mset_set.infinite empty_not_add_mset in_multiset_in_set ex_in_conv set_mset_empty)

lemma inj_on_mset_set:
  assumes "finite A" and "\<And>x. count (image_mset f (mset_set A)) x \<le> 1"
  shows "inj_on f A"
proof (rule inj_onI, rule ccontr)
  fix i j
  assume i: "i \<in> A" and j: "j \<in> A" and e: "f i = f j" and ne: "i \<noteq> j"
  have "mset_set A = add_mset i (add_mset j (mset_set (A - {i} - {j})))"
    using assms(1) i j ne by (simp add: mset_set.remove)
  then have "count (image_mset f (mset_set A)) (f i) \<ge> 2" using e by simp
  with assms(2) [of "f i"] show False by simp
qed

lemma count_inj_image:
  assumes "finite A" and "inj_on f A"
  shows "count (image_mset f (mset_set A)) x \<le> 1"
  using assms by (simp add: image_mset_mset_set count_mset_set')

lemma kh_abs_ents:
  assumes "kh_wf hf h p"
  shows "kh_abs h k = Some v \<longleftrightarrow> (k, v) \<in># ents (live (kh_flags h) (2 ^ p)) (kh_keys h) (kh_vals h)"
proof -
  have nb: "unat (n_buckets h) = 2 ^ p" using assms by (auto simp: kh_wf_def buckets_def)
  show ?thesis
    unfolding kh_wf_abs(1) [OF assms] nb in_ents [OF finite_live]
    using layout_key [OF kh_wf_layout [OF assms]] nb by (metis option.sel)
qed

lemma kh_wf_distinct:
  assumes "kh_wf hf h p"
  shows "count (image_mset fst (ents (live (kh_flags h) (2 ^ p)) (kh_keys h) (kh_vals h))) x \<le> 1"
proof -
  have lay: "layout hf (kh_flags h) (kh_keys h) (2 ^ p)" using assms by (simp add: kh_wf_def)
  have "inj_on (\<lambda>i. the (kh_keys h ! i)) (live (kh_flags h) (2 ^ p))"
    by (rule inj_onI) (metis lay layout_inj layout_key option.sel)
  then show ?thesis
    using count_inj_image [OF finite_live] by (simp add: ents_def image_mset.compositionality comp_def)
qed

text \<open>What holds between the rounds of the rehash: \<open>M\<close> are all entries, \<open>hand\<close> those being moved.\<close>

definition rinv :: "('k \<Rightarrow> u32) \<Rightarrow> nat \<Rightarrow> nat \<Rightarrow> ('k \<times> 'v option) multiset \<Rightarrow> ('k \<times> 'v option) multiset
    \<Rightarrow> ('k, 'v) rehash \<Rightarrow> bool" where
  "rinv hf ON NN M hand r \<longleftrightarrow>
     flags_for (r_of r) ON \<and> flags_for (r_nf r) NN \<and>
     ON \<le> length (r_keys r) \<and> NN \<le> length (r_keys r) \<and> ON \<le> length (r_vals r) \<and> NN \<le> length (r_vals r) \<and>
     (\<forall>i<NN. \<not> del (r_nf r) i) \<and> live (r_of r) ON \<inter> live (r_nf r) NN = {} \<and>
     (\<forall>i\<in>live (r_of r) ON. \<exists>k. r_keys r ! i = Some k) \<and>
     (\<forall>i\<in>live (r_nf r) NN. \<exists>k. r_keys r ! i = Some k \<and> reach hf (r_nf r) NN k i) \<and>
     ents (live (r_of r) ON) (r_keys r) (r_vals r) + ents (live (r_nf r) NN) (r_keys r) (r_vals r) + hand = M"

lemma rinv_occ: "rinv hf ON NN M hand r \<Longrightarrow> occ (r_nf r) NN = live (r_nf r) NN"
  by (auto simp: rinv_def occ_def live_def)

lemma rinv_size: "rinv hf ON NN M hand r \<Longrightarrow>
    card (live (r_of r) ON) + card (live (r_nf r) NN) + size hand = size M"
  unfolding rinv_def by (metis size_ents size_union)

lemma find_empty_ok:
  assumes b: "buckets nnb p" and fl: "flags_for nf (2 ^ p)"
    and u: "u < 2 ^ p" "emp nf (probe_at (2 ^ p) H u)"
  shows "unat i = probe_at (2 ^ p) H (unat step) \<Longrightarrow> (\<forall>s<unat step. \<not> emp nf (probe_at (2 ^ p) H s)) \<Longrightarrow>
    2 ^ p \<le> fuel + unat step \<Longrightarrow>
    \<exists>j t. find_empty nf (nnb - 1) fuel i step = Inr j \<and> t < 2 ^ p \<and> unat j = probe_at (2 ^ p) H t \<and>
      emp nf (unat j) \<and> (\<forall>s<t. \<not> emp nf (probe_at (2 ^ p) H s))"
proof (induction fuel arbitrary: i step)
  case 0
  then show ?case using u by auto
next
  case (Suc fuel)
  have "\<not> u < unat step" using Suc(3) u(2) by blast
  then have s: "unat step < 2 ^ p" using u(1) by simp
  have i: "unat i < 2 ^ p" unfolding Suc(2) by (simp add: probe_at_less)
  show ?case
  proof (cases "emp nf (unat i)")
    case True
    then show ?thesis using fl i s Suc(2,3) by auto
  next
    case False
    note nx = unat_probe_step [OF b s Suc(2)]
    have "\<exists>j t. find_empty nf (nnb - 1) fuel ((i + (step + 1)) AND (nnb - 1)) (step + 1) = Inr j \<and>
      t < 2 ^ p \<and> unat j = probe_at (2 ^ p) H t \<and> emp nf (unat j) \<and> (\<forall>s<t. \<not> emp nf (probe_at (2 ^ p) H s))"
      by (rule Suc.IH) (use nx Suc(2-4) False in \<open>auto simp: less_Suc_eq\<close>)
    then show ?thesis using fl i False by (simp add: Let_def)
  qed
qed

lemma find_empty_reach:
  assumes b: "buckets nnb p" and r: "rinv hf ON (2 ^ p) M hand r"
    and sz: "size M \<le> 2 ^ p" and hand: "0 < size hand"
  obtains i where "find_empty (r_nf r) (nnb - 1) (unat nnb) (hf key AND (nnb - 1)) 0 = Inr i"
    and "unat i < 2 ^ p" and "emp (r_nf r) (unat i)" and "reach hf (r_nf r) (2 ^ p) key (unat i)"
proof -
  have "card (occ (r_nf r) (2 ^ p)) < 2 ^ p"
    using rinv_size [OF r] rinv_occ [OF r] sz hand by simp
  then obtain u where u: "u < 2 ^ p" "emp (r_nf r) (probe_at (2 ^ p) (unat (hf key)) u)"
    using empty_bucket by metis
  have fl: "flags_for (r_nf r) (2 ^ p)" using r by (simp add: rinv_def)
  have "\<exists>j t. find_empty (r_nf r) (nnb - 1) (unat nnb) (hf key AND (nnb - 1)) 0 = Inr j \<and> t < 2 ^ p \<and>
      unat j = probe_at (2 ^ p) (unat (hf key)) t \<and> emp (r_nf r) (unat j) \<and>
      (\<forall>s<t. \<not> emp (r_nf r) (probe_at (2 ^ p) (unat (hf key)) s))"
    by (rule find_empty_ok [OF b fl u])
      (use b in \<open>simp_all add: unat_and_bucket_mask [OF b] probe_at_0 buckets_def\<close>)
  then obtain j t where j: "find_empty (r_nf r) (nnb - 1) (unat nnb) (hf key AND (nnb - 1)) 0 = Inr j"
      "t < 2 ^ p" "unat j = probe_at (2 ^ p) (unat (hf key)) t" "emp (r_nf r) (unat j)"
      "\<forall>s<t. \<not> emp (r_nf r) (probe_at (2 ^ p) (unat (hf key)) s)" by blast
  have "reach hf (r_nf r) (2 ^ p) key (unat j)" using j by (auto simp: reach_def)
  moreover have "unat j < 2 ^ p" unfolding j(3) by (simp add: probe_at_less)
  ultimately show ?thesis using that j(1,4) by blast
qed

text \<open>Placing the entry in hand, with and without kicking out the one that lies there.\<close>

lemma rinv_place:
  assumes r: "rinv hf ON NN M {#(key, val)#} r"
    and i: "i < NN" "emp (r_nf r) i" "reach hf (r_nf r) NN key i" and free: "i \<notin> live (r_of r) ON"
    and nf: "flags_upd (r_nf r) i False False nf"
  shows "rinv hf ON NN M {#} (r\<lparr>r_nf := nf, r_keys := (r_keys r)[i := Some key], r_vals := (r_vals r)[i := val]\<rparr>)"
proof -
  have lv: "live nf NN = insert i (live (r_nf r) NN)" using flags_upd_sets [OF nf i(1)] by simp
  have nl: "i \<notin> live (r_nf r) NN" using i(2) by (simp add: live_def)
  have il: "i < length (r_keys r)" "i < length (r_vals r)" using r i(1) by (auto simp: rinv_def)
  have mono: "reach hf nf NN k j" if "reach hf (r_nf r) NN k j" for k j
    using that by (rule reach_mono) (use nf in \<open>auto simp: flags_upd_def\<close>)
  have keys: "\<exists>k. (r_keys r)[i := Some key] ! j = Some k \<and> reach hf nf NN k j" if "j \<in> live nf NN" for j
    using that mono i(3) il r nl by (cases "j = i") (auto simp: lv rinv_def)
  have ents: "ents (live (r_of r) ON) ((r_keys r)[i := Some key]) ((r_vals r)[i := val]) +
      ents (live nf NN) ((r_keys r)[i := Some key]) ((r_vals r)[i := val]) = M"
    using r unfolding lv ents_insert [OF finite_live nl il] ents_other [OF finite_live free]
    by (simp add: rinv_def)
  have dl: "\<forall>j<NN. \<not> del nf j" using r nf by (auto simp: rinv_def flags_upd_def)
  have old: "\<exists>k. (r_keys r)[i := Some key] ! j = Some k" if "j \<in> live (r_of r) ON" for j
    using that r free by (cases "j = i") (auto simp: rinv_def)
  have dis: "live (r_of r) ON \<inter> live nf NN = {}" using r free by (auto simp: rinv_def lv)
  show ?thesis
    using r keys old ents dl dis flags_upd_for [OF nf] by (simp add: rinv_def)
qed

lemma rinv_kick:
  assumes r: "rinv hf ON NN M {#(key, val)#} r"
    and i: "i < NN" "emp (r_nf r) i" "reach hf (r_nf r) NN key i" and kick: "i \<in> live (r_of r) ON"
    and nf: "flags_upd (r_nf r) i False False nf" and ofl: "flags_upd (r_of r) i False True ofl"
    and tmp: "r_keys r ! i = Some tmpk"
  shows "rinv hf ON NN M {#(tmpk, r_vals r ! i)#}
    (r\<lparr>r_of := ofl, r_nf := nf, r_keys := (r_keys r)[i := Some key], r_vals := (r_vals r)[i := val]\<rparr>)"
proof -
  let ?r = "r\<lparr>r_of := ofl\<rparr>"
  have lo: "live ofl ON = live (r_of r) ON - {i}"
    using flags_upd_sets [OF ofl] live_less [OF kick] by simp
  have "ents (live (r_of r) ON) (r_keys r) (r_vals r) =
      add_mset (tmpk, r_vals r ! i) (ents (live ofl ON) (r_keys r) (r_vals r))"
    using ents_remove [OF finite_live kick, of "r_keys r" "r_vals r"] tmp lo by simp
  then have "rinv hf ON NN (M - {#(tmpk, r_vals r ! i)#}) {#(key, val)#} ?r"
    using r lo flags_upd_for [OF ofl] by (auto simp: rinv_def)
  from rinv_place [OF this i(1), of nf] have "rinv hf ON NN (M - {#(tmpk, r_vals r ! i)#}) {#}
    (?r\<lparr>r_nf := nf, r_keys := (r_keys r)[i := Some key], r_vals := (r_vals r)[i := val]\<rparr>)"
    using i(2,3) lo nf by simp
  moreover have "(tmpk, r_vals r ! i) \<in># M"
    using r kick tmp in_ents [OF finite_live, of tmpk "r_vals r ! i" "r_of r" ON "r_keys r" "r_vals r"]
    unfolding rinv_def by (metis option.sel union_iff)
  ultimately show ?thesis by (simp add: rinv_def insert_DiffM2)
qed

lemma kick_loop_ok:
  assumes b: "buckets nnb p" and sz: "size M \<le> 2 ^ p"
  shows "rinv hf (unat onb) (2 ^ p) M {#(key, val)#} r \<Longrightarrow> card (live (r_of r) (unat onb)) < fuel \<Longrightarrow>
    \<exists>r'. kick_loop hf onb nnb fuel r key val = Inr r' \<and> rinv hf (unat onb) (2 ^ p) M {#} r' \<and>
      live (r_of r') (unat onb) \<subseteq> live (r_of r) (unat onb)"
proof (induction fuel arbitrary: r key val)
  case 0
  then show ?case by simp
next
  case (Suc fuel)
  let ?ON = "unat onb"
  have fo: "flags_for (r_of r) ?ON" and fn: "flags_for (r_nf r) (2 ^ p)"
    and len: "2 ^ p \<le> length (r_keys r)" "2 ^ p \<le> length (r_vals r)"
    using Suc(2) by (auto simp: rinv_def)
  obtain i where f: "find_empty (r_nf r) (nnb - 1) (unat nnb) (hf key AND (nnb - 1)) 0 = Inr i"
    and i: "unat i < 2 ^ p" "emp (r_nf r) (unat i)" "reach hf (r_nf r) (2 ^ p) key (unat i)"
    by (rule find_empty_reach [OF b Suc(2) sz]) simp_all
  obtain nf where s: "ac_set_isempty_false (r_nf r) i = Inr nf"
    and "flags_upd (r_nf r) (unat i) False (del (r_nf r) (unat i)) nf"
    using ac_set_isempty_false_ok [OF fn i(1)] .
  then have nf: "flags_upd (r_nf r) (unat i) False False nf"
    using Suc(2) i(1) by (simp add: rinv_def)
  have kt: "kick_test (r_of r) onb i = Inr (unat i \<in> live (r_of r) ?ON)"
    using fo by (simp add: kick_test_def live_def word_less_nat_alt)
  show ?case
  proof (cases "unat i \<in> live (r_of r) ?ON")
    case False
    have "kick_loop hf onb nnb (Suc fuel) r key val = Inr (r\<lparr>r_nf := nf,
        r_keys := (r_keys r)[unat i := Some key], r_vals := (r_vals r)[unat i := val]\<rparr>)"
      using f s kt False i(1) len by (simp add: Let_def)
    then show ?thesis using rinv_place [OF Suc(2) i False nf] by simp
  next
    case True
    obtain tmpk where t: "r_keys r ! unat i = Some tmpk" using Suc(2) True by (auto simp: rinv_def)
    have io: "unat i < ?ON" using live_less [OF True] .
    obtain ofl where so: "ac_set_isdel_true (r_of r) i = Inr ofl"
      and "flags_upd (r_of r) (unat i) (emp (r_of r) (unat i)) True ofl"
      using ac_set_isdel_true_ok [OF fo io] .
    then have ofl: "flags_upd (r_of r) (unat i) False True ofl" using True by (simp add: live_def)
    let ?r = "r\<lparr>r_of := ofl, r_nf := nf, r_keys := (r_keys r)[unat i := Some key],
      r_vals := (r_vals r)[unat i := val]\<rparr>"
    have lo: "live ofl ?ON = live (r_of r) ?ON - {unat i}" using flags_upd_sets [OF ofl io] by simp
    have e: "kick_loop hf onb nnb (Suc fuel) r key val = kick_loop hf onb nnb fuel ?r tmpk (r_vals r ! unat i)"
      using f s kt True i(1) len t so by (simp add: Let_def key_at_def)
    have "card (live ofl ?ON) < fuel"
      using Suc(3) True unfolding lo by (simp add: card_Diff_singleton) (metis card_gt_0_iff empty_iff finite_live less_imp_diff_less less_Suc_eq_le diff_less Suc_pred zero_less_one not_less_eq order_less_le_trans)
    then have "\<exists>r'. kick_loop hf onb nnb fuel ?r tmpk (r_vals r ! unat i) = Inr r' \<and>
        rinv hf ?ON (2 ^ p) M {#} r' \<and> live (r_of r') ?ON \<subseteq> live (r_of ?r) ?ON"
      by (intro Suc.IH [OF rinv_kick [OF Suc(2) i True nf ofl t]]) simp
    then show ?thesis unfolding e using lo by auto
  qed
qed

lemma rehash_bucket_ok:
  assumes b: "buckets nnb p" and sz: "size M \<le> 2 ^ p"
    and r: "rinv hf (unat onb) (2 ^ p) M {#} r" and j: "unat j < unat onb"
  obtains r' where "rehash_bucket hf onb nnb r j = Inr r'" and "rinv hf (unat onb) (2 ^ p) M {#} r'"
    and "live (r_of r') (unat onb) \<subseteq> live (r_of r) (unat onb) - {unat j}"
proof -
  let ?ON = "unat onb"
  have fo: "flags_for (r_of r) ?ON" and len: "?ON \<le> length (r_keys r)" "?ON \<le> length (r_vals r)"
    using r by (auto simp: rinv_def)
  show ?thesis
  proof (cases "unat j \<in> live (r_of r) ?ON")
    case False
    then have "rehash_bucket hf onb nnb r j = Inr r"
      using fo j by (auto simp: rehash_bucket_def live_def)
    then show ?thesis using that r False by simp
  next
    case True
    obtain key where k: "r_keys r ! unat j = Some key" using r True by (auto simp: rinv_def)
    obtain ofl where so: "ac_set_isdel_true (r_of r) j = Inr ofl"
      and "flags_upd (r_of r) (unat j) (emp (r_of r) (unat j)) True ofl"
      using ac_set_isdel_true_ok [OF fo j] .
    then have ofl: "flags_upd (r_of r) (unat j) False True ofl" using True by (simp add: live_def)
    let ?r = "r\<lparr>r_of := ofl\<rparr>" and ?v = "r_vals r ! unat j"
    have lo: "live ofl ?ON = live (r_of r) ?ON - {unat j}" using flags_upd_sets [OF ofl j] by simp
    have "ents (live (r_of r) ?ON) (r_keys r) (r_vals r) =
        add_mset (key, ?v) (ents (live ofl ?ON) (r_keys r) (r_vals r))"
      using ents_remove [OF finite_live True, of "r_keys r" "r_vals r"] k lo by simp
    then have ri: "rinv hf ?ON (2 ^ p) M {#(key, ?v)#} ?r"
      using r lo flags_upd_for [OF ofl] by (auto simp: rinv_def)
    have "card (live ofl ?ON) < card (live (r_of r) ?ON)"
      unfolding lo using True by (intro psubset_card_mono) auto
    then have "card (live (r_of ?r) ?ON) < ?ON" using card_live_le [of "r_of r" ?ON] by simp
    from kick_loop_ok [OF b sz ri this] obtain r' where
      "kick_loop hf onb nnb ?ON ?r key ?v = Inr r'" "rinv hf ?ON (2 ^ p) M {#} r'"
      "live (r_of r') ?ON \<subseteq> live ofl ?ON" by auto
    moreover have "rehash_bucket hf onb nnb r j = kick_loop hf onb nnb ?ON ?r key ?v"
      using fo j True len k so by (auto simp: rehash_bucket_def live_def key_at_def)
    ultimately show ?thesis using that lo by simp
  qed
qed

lemma rehash_loop_ok:
  assumes b: "buckets nnb p" and sz: "size M \<le> 2 ^ p"
  shows "rinv hf (unat onb) (2 ^ p) M {#} r \<Longrightarrow> unat j + fuel = unat onb \<Longrightarrow>
    live (r_of r) (unat onb) \<inter> {..<unat j} = {} \<Longrightarrow>
    \<exists>r'. rehash_loop hf onb nnb fuel r j = Inr r' \<and> rinv hf (unat onb) (2 ^ p) M {#} r' \<and>
      live (r_of r') (unat onb) = {}"
proof (induction fuel arbitrary: r j)
  case 0
  then have "j = onb" by (simp add: word_unat_eq_iff)
  moreover have "live (r_of r) (unat onb) = {}" using 0 by (auto simp: live_def)
  ultimately show ?case using 0(1) by simp
next
  case (Suc fuel)
  have j: "unat j < unat onb" using Suc(3) by simp
  then have ne: "j \<noteq> onb" by auto
  have "unat onb < 2 ^ LENGTH(32)" by (rule unsigned_less)
  then have s: "unat (j + 1) = Suc (unat j)"
    using j by (simp add: unat_word_ariths)
  obtain r' where r': "rehash_bucket hf onb nnb r j = Inr r'" "rinv hf (unat onb) (2 ^ p) M {#} r'"
    "live (r_of r') (unat onb) \<subseteq> live (r_of r) (unat onb) - {unat j}"
    by (rule rehash_bucket_ok [OF b sz Suc(2) j])
  have "live (r_of r') (unat onb) \<inter> {..<unat (j + 1)} = {}"
    using r'(3) Suc(4) unfolding s lessThan_Suc by blast
  from Suc.IH [OF r'(2) _ this] show ?case using s Suc(3) ne r'(1) by simp
qed

section \<open>Resizing keeps the map\<close>

definition all_ents :: "('k, 'v) khash \<Rightarrow> ('k \<times> 'v option) multiset" where
  "all_ents h = ents (live (kh_flags h) (unat (n_buckets h))) (kh_keys h) (kh_vals h)"

lemma kh_inv_ents:
  assumes "kh_inv hf h"
  shows "kh_abs h k = Some v \<longleftrightarrow> (k, v) \<in># all_ents h"
    and "count (image_mset fst (all_ents h)) x \<le> 1"
    and "size (all_ents h) = unat (kh_size h)"
    and "\<forall>i\<in>live (kh_flags h) (unat (n_buckets h)). \<exists>k. kh_keys h ! i = Some k"
    and "flags_for (kh_flags h) (unat (n_buckets h))"
    and "unat (n_buckets h) \<le> length (kh_keys h)" and "unat (n_buckets h) \<le> length (kh_vals h)"
proof -
  have z: "live (kh_flags h) 0 = {}" by (simp add: live_def)
  consider "n_buckets h = 0" "kh_size h = 0" | p where "kh_wf hf h p" "unat (n_buckets h) = 2 ^ p"
    using assms by (auto simp: kh_inv_def kh_wf_def buckets_def)
  then have "(kh_abs h k = Some v \<longleftrightarrow> (k, v) \<in># all_ents h) \<and>
      count (image_mset fst (all_ents h)) x \<le> 1 \<and> size (all_ents h) = unat (kh_size h) \<and>
      (\<forall>i\<in>live (kh_flags h) (unat (n_buckets h)). \<exists>k. kh_keys h ! i = Some k) \<and>
      flags_for (kh_flags h) (unat (n_buckets h)) \<and>
      unat (n_buckets h) \<le> length (kh_keys h) \<and> unat (n_buckets h) \<le> length (kh_vals h)"
  proof cases
    case 1
    then show ?thesis by (simp add: all_ents_def z kh_abs_unallocated flags_for_def)
  next
    case 2
    then show ?thesis
      using kh_abs_ents [OF 2(1)] kh_wf_distinct [OF 2(1)] layout_key [OF kh_wf_layout [OF 2(1)]]
      by (simp add: all_ents_def kh_wf_def size_ents)
  qed
  then show "kh_abs h k = Some v \<longleftrightarrow> (k, v) \<in># all_ents h"
    "count (image_mset fst (all_ents h)) x \<le> 1" "size (all_ents h) = unat (kh_size h)"
    "\<forall>i\<in>live (kh_flags h) (unat (n_buckets h)). \<exists>k. kh_keys h ! i = Some k"
    "flags_for (kh_flags h) (unat (n_buckets h))"
    "unat (n_buckets h) \<le> length (kh_keys h)" "unat (n_buckets h) \<le> length (kh_vals h)"
    by blast+
qed

lemma live_empty_flags: "buckets n p \<Longrightarrow> live (empty_flags n) (2 ^ p) = {}"
  using empty_flags_at(1) by (auto simp: live_def)

lemma kh_rehash_ok:
  assumes inv: "kh_inv hf h" and b: "buckets nnb p" and sz: "unat (kh_size h) < load_limit (2 ^ p)"
    and len: "2 ^ p \<le> length (kh_keys h)" "2 ^ p \<le> length (kh_vals h)"
    and shrink: "n_buckets h > nnb \<Longrightarrow> keys_ok a \<and> vals_ok a"
  obtains h' where "kh_rehash hf a h nnb = Inr h'" and "kh_wf hf h' p" and "kh_abs h' = kh_abs h"
    and "card (occ (kh_flags h') (2 ^ p)) < load_limit (2 ^ p)" and "kh_size h' = kh_size h"
proof -
  let ?ON = "unat (n_buckets h)" and ?N = "2 ^ p :: nat" and ?M = "all_ents h"
  note I = kh_inv_ents [OF inv]
  let ?r = "\<lparr>r_of = kh_flags h, r_nf = empty_flags nnb, r_keys = kh_keys h, r_vals = kh_vals h\<rparr>"
  have N: "4 \<le> ?N" using b power_ge_2 by (simp add: buckets_def)
  have nnb: "unat nnb = ?N" using b by (rule unat_buckets)
  have r0: "rinv hf ?ON ?N ?M {#} ?r"
    using I(4-7) len flags_for_empty [OF b] empty_flags_at(2) [OF b] live_empty_flags [OF b]
    by (simp add: rinv_def all_ents_def)
  have szM: "size ?M \<le> ?N" using I(3) sz load_limit_less [OF N] by simp
  obtain r where r: "rehash_loop hf (n_buckets h) nnb ?ON ?r 0 = Inr r"
    and ri: "rinv hf ?ON ?N ?M {#} r" and nil: "live (r_of r) ?ON = {}"
    using rehash_loop_ok [OF b szM r0, of 0 ?ON] by auto
  let ?ks = "if n_buckets h > nnb then realloc_down (keys_ok a) (r_keys r) nnb else r_keys r"
  let ?vs = "if n_buckets h > nnb then realloc_down (vals_ok a) (r_vals r) nnb else r_vals r"
  let ?h' = "h\<lparr>kh_keys := ?ks, kh_vals := ?vs, kh_flags := r_nf r, n_buckets := nnb,
    n_occupied := kh_size h, upper_bound := ucast (COMPUTE_SIZE nnb)\<rparr>"
  have ml: "?N \<le> length (r_keys r)" "?N \<le> length (r_vals r)" "flags_for (r_nf r) ?N"
    using ri by (auto simp: rinv_def)
  have ks: "?ks ! i = r_keys r ! i" if "i < ?N" for i
    using that shrink by (simp add: realloc_down_def nnb)
  have vs: "?vs ! i = r_vals r ! i" if "i < ?N" for i
    using that shrink by (simp add: realloc_down_def nnb)
  have kl: "?N \<le> length ?ks" "?N \<le> length ?vs"
    using ml shrink by (auto simp: realloc_down_def nnb)
  have M: "?M = ents (live (r_nf r) ?N) (r_keys r) (r_vals r)"
    using ri nil by (simp add: rinv_def)
  have M': "ents (live (r_nf r) ?N) ?ks ?vs = ?M"
    unfolding M by (rule ents_cong) (use ks vs live_less in blast)
  have card: "card (live (r_nf r) ?N) = unat (kh_size h)"
    using I(3) M by (simp add: size_ents)
  have "count (image_mset (\<lambda>i. the (r_keys r ! i)) (mset_set (live (r_nf r) ?N))) x \<le> 1" for x
    using I(2) [of x] unfolding M by (simp add: ents_def image_mset.compositionality comp_def)
  then have inj: "inj_on (\<lambda>i. the (r_keys r ! i)) (live (r_nf r) ?N)"
    by (rule inj_on_mset_set [OF finite_live])
  have "inj_on ((!) ?ks) (live (r_nf r) ?N)"
  proof (rule inj_onI)
    fix i j assume ij: "i \<in> live (r_nf r) ?N" "j \<in> live (r_nf r) ?N" and e: "?ks ! i = ?ks ! j"
    have "r_keys r ! i = r_keys r ! j"
      using e unfolding ks [OF live_less [OF ij(1)]] ks [OF live_less [OF ij(2)]] .
    with inj ij show "i = j" by (simp add: inj_on_def)
  qed
  moreover have "\<exists>k. ?ks ! i = Some k \<and> reach hf (r_nf r) ?N k i" if "i \<in> live (r_nf r) ?N" for i
    using ri that ks [OF live_less [OF that]] by (auto simp: rinv_def)
  ultimately have lay: "layout hf (r_nf r) ?ks ?N"
    unfolding layout_def by blast
  have wf: "kh_wf hf ?h' p"
    using b ml kl lay card sz rinv_occ [OF ri] unat_COMPUTE_SIZE [OF b] by (simp add: kh_wf_def)
  have "kh_abs ?h' k = kh_abs h k" for k
  proof -
    have "kh_abs ?h' k = Some v \<longleftrightarrow> kh_abs h k = Some v" for v
      unfolding kh_abs_ents [OF wf] I(1) using M' by simp
    then show ?thesis by (metis not_None_eq)
  qed
  then have "kh_abs ?h' = kh_abs h" by (rule ext)
  moreover have "kh_rehash hf a h nnb = Inr ?h'"
    using r by (simp add: kh_rehash_def Let_def)
  ultimately show ?thesis using that wf card sz rinv_occ [OF ri] by simp
qed

text \<open>Growing the arrays does not touch the entries.\<close>

lemma nth_realloc_up: "i < length xs \<Longrightarrow> i < unat n \<Longrightarrow> realloc_up xs n ! i = xs ! i"
  by (simp add: realloc_up_def nth_append)

lemma length_realloc_up: "length (realloc_up xs n) = unat n"
  by (simp add: realloc_up_def)

lemma kh_abs_realloc:
  assumes inv: "kh_inv hf h" and n: "n_buckets h \<le> n"
    and ks: "ks = kh_keys h \<or> ks = realloc_up (kh_keys h) n"
    and vs: "vs = kh_vals h \<or> vs = realloc_up (kh_vals h) n"
  shows "kh_inv hf (h\<lparr>kh_keys := ks, kh_vals := vs\<rparr>)"
    and "kh_abs (h\<lparr>kh_keys := ks, kh_vals := vs\<rparr>) = kh_abs h"
proof -
  note I = kh_inv_ents [OF inv]
  have le: "unat (n_buckets h) \<le> unat n" using n by (simp add: word_le_nat_alt)
  have k: "ks ! i = kh_keys h ! i" if "i < unat (n_buckets h)" for i
    using ks that I(6) le by (auto intro: nth_realloc_up)
  have v: "vs ! i = kh_vals h ! i" if "i < unat (n_buckets h)" for i
    using vs that I(7) le by (auto intro: nth_realloc_up)
  have l: "unat (n_buckets h) \<le> length ks" "unat (n_buckets h) \<le> length vs"
    using ks vs I(6,7) le by (auto simp: length_realloc_up)
  have lay: "layout hf (kh_flags h) ks (unat (n_buckets h))"
    if "layout hf (kh_flags h) (kh_keys h) (unat (n_buckets h))"
    using that k unfolding layout_def live_def inj_on_def by auto
  show "kh_inv hf (h\<lparr>kh_keys := ks, kh_vals := vs\<rparr>)"
    using inv l lay by (auto simp: kh_inv_def kh_wf_def buckets_def)
  have "kh_live (h\<lparr>kh_keys := ks, kh_vals := vs\<rparr>) = kh_live h" by (simp add: kh_live_def)
  then have "kh_entries (h\<lparr>kh_keys := ks, kh_vals := vs\<rparr>) = kh_entries h"
    unfolding kh_entries_def using k v by (auto simp: set_kh_live live_def)
  then show "kh_abs (h\<lparr>kh_keys := ks, kh_vals := vs\<rparr>) = kh_abs h" by (simp add: kh_abs_def)
qed

definition kalloc_ok :: "kalloc \<Rightarrow> bool" where
  "kalloc_ok a \<longleftrightarrow> flags_ok a \<and> keys_ok a \<and> vals_ok a"

lemma kh_resize_ok:
  assumes inv: "kh_inv hf h" and b: "buckets nnb p"
    and nnb: "nnb = (if kroundup32 n0 < 4 then 4 else kroundup32 n0)"
    and sz: "unat (kh_size h) < load_limit (2 ^ p)"
    and shrink: "n_buckets h > nnb \<Longrightarrow> keys_ok a \<and> vals_ok a"
    and len: "n_buckets h \<ge> nnb \<Longrightarrow> 2 ^ p \<le> length (kh_keys h) \<and> 2 ^ p \<le> length (kh_vals h)"
  obtains h' ok where "kh_resize hf a h n0 = Inr (h', ok)" and "kh_inv hf h'" and "kh_abs h' = kh_abs h"
    and "ok \<longrightarrow> kh_wf hf h' p \<and> card (occ (kh_flags h') (2 ^ p)) < load_limit (2 ^ p)"
    and "kalloc_ok a \<longrightarrow> ok" and "kh_size h' = kh_size h"
proof -
  have go: "\<not> kh_size h \<ge> ucast (COMPUTE_SIZE nnb)"
    using sz unat_COMPUTE_SIZE [OF b] by (simp add: word_le_nat_alt)
  have n: "unat nnb = 2 ^ p" using b by (rule unat_buckets)
  let ?h1 = "h\<lparr>kh_keys := realloc_up (kh_keys h) nnb\<rparr>"
  let ?h2 = "?h1\<lparr>kh_vals := realloc_up (kh_vals h) nnb\<rparr>"
  note res = that
  have rehash: thesis
    if r: "kh_resize hf a h n0 = obind (kh_rehash hf a g nnb) (\<lambda>h. Inr (h, True))"
      and g: "kh_inv hf g" "kh_abs g = kh_abs h" "kh_size g = kh_size h" "n_buckets g = n_buckets h"
      and l: "2 ^ p \<le> length (kh_keys g)" "2 ^ p \<le> length (kh_vals g)" for g
  proof -
    have sz': "unat (kh_size g) < load_limit (2 ^ p)" and shrink': "n_buckets g > nnb \<Longrightarrow> keys_ok a \<and> vals_ok a"
      using sz shrink g by simp_all
    obtain h' where h': "kh_rehash hf a g nnb = Inr h'" "kh_wf hf h' p" "kh_abs h' = kh_abs g"
      "card (occ (kh_flags h') (2 ^ p)) < load_limit (2 ^ p)" "kh_size h' = kh_size g"
      by (rule kh_rehash_ok [OF g(1) b sz' l shrink'])
    show thesis
      by (rule res [of h' True]) (use r h' g in \<open>auto simp: kh_inv_def\<close>)
  qed
  show ?thesis
  proof (cases "flags_ok a")
    case False
    then have "kh_resize hf a h n0 = Inr (h, False)"
      using go unfolding kh_resize_def nnb Let_def by simp
    then show ?thesis using False inv res by (simp add: kalloc_ok_def)
  next
    case fl: True
    show ?thesis
    proof (cases "n_buckets h < nnb")
      case False
      have "kh_resize hf a h n0 = obind (kh_rehash hf a h nnb) (\<lambda>h. Inr (h, True))"
        using go fl False unfolding kh_resize_def nnb Let_def by simp
      then show ?thesis by (rule rehash) (use inv len False in simp_all)
    next
      case up: True
      then have le: "n_buckets h \<le> nnb" by simp
      show ?thesis
      proof (cases "keys_ok a")
        case False
        then have "kh_resize hf a h n0 = Inr (h, False)"
          using go fl up unfolding kh_resize_def nnb Let_def by simp
        then show ?thesis using False inv res by (simp add: kalloc_ok_def)
      next
        case k: True
        show ?thesis
        proof (cases "vals_ok a")
          case False
          then have r: "kh_resize hf a h n0 = Inr (?h1, False)"
            using go fl up k unfolding kh_resize_def nnb Let_def by simp
          have "kh_inv hf ?h1" "kh_abs ?h1 = kh_abs h"
            using kh_abs_realloc [OF inv le, of "realloc_up (kh_keys h) nnb" "kh_vals h"] by simp_all
          then show ?thesis using False r res by (simp add: kalloc_ok_def)
        next
          case v: True
          have i2: "kh_inv hf ?h2" "kh_abs ?h2 = kh_abs h"
            using kh_abs_realloc [OF inv le, of "realloc_up (kh_keys h) nnb" "realloc_up (kh_vals h) nnb"]
            by simp_all
          have "kh_resize hf a h n0 = obind (kh_rehash hf a ?h2 nnb) (\<lambda>h. Inr (h, True))"
            using go fl up k v unfolding kh_resize_def nnb Let_def by simp
          then show ?thesis by (rule rehash) (use i2 n in \<open>simp_all add: length_realloc_up\<close>)
        qed
      qed
    qed
  qed
qed

text \<open>How many entries a table may hold for the next insertion to be certain of a place.\<close>

definition kh_capacity :: nat where
  "kh_capacity = 2 ^ 26"

lemma kh_make_room_ok:
  assumes inv: "kh_inv hf h" and cap: "unat (kh_size h) < kh_capacity"
  obtains h' ok where "kh_make_room hf a h = Inr (h', ok)" and "kh_inv hf h'" and "kh_abs h' = kh_abs h"
    and "ok \<longrightarrow> (\<exists>p. kh_wf hf h' p \<and> card (occ (kh_flags h') (2 ^ p)) < load_limit (2 ^ p))"
    and "kalloc_ok a \<longrightarrow> ok" and "kh_size h' = kh_size h"
proof -
  note res = that
  have two: "unat (push_bit 1 (kh_size h)) = 2 * unat (kh_size h)"
    using cap unfolding unsigned_push_bit_eq by (simp add: kh_capacity_def take_bit_eq_mod push_bit_eq_mult)
  have b2: "buckets 4 2" by (simp add: buckets_def)
  have resized: thesis
    if "kh_make_room hf a h = kh_resize hf a h n" and "kh_resize hf a h n = Inr (h', ok)"
      and "kh_inv hf h'" and "kh_abs h' = kh_abs h"
      and "ok \<longrightarrow> kh_wf hf h' p \<and> card (occ (kh_flags h') (2 ^ p)) < load_limit (2 ^ p)"
      and "kalloc_ok a \<longrightarrow> ok" and "kh_size h' = kh_size h" for n h' ok p
    by (rule res [of h' ok]) (use that in auto)
  show ?thesis
  proof (cases "n_buckets h = 0")
    case True
    then have z: "kh_size h = 0" "n_occupied h = 0" "upper_bound h = 0"
      using inv kh_wf_nonzero by (auto simp: kh_inv_def)
    have e: "kh_make_room hf a h = kh_resize hf a h 1" using True z by (simp add: kh_make_room_def)
    have k1: "kroundup32 1 = 1" by (simp add: kroundup32_def)
    have s: "unat (kh_size h) < load_limit (2 ^ 2)" and up: "\<not> n_buckets h > 4" "\<not> n_buckets h \<ge> 4"
      and n4: "4 = (if kroundup32 1 < 4 then 4 else kroundup32 1)"
      using z True k1 by (simp_all add: load_limit_def)
    show ?thesis
      by (rule kh_resize_ok [OF inv b2 n4 s, of a]) (use up resized [OF e] in blast)+
  next
    case False
    then obtain q where wf: "kh_wf hf h q" using inv by (auto simp: kh_inv_def)
    have b: "buckets (n_buckets h) q" and len: "2 ^ q \<le> length (kh_keys h) \<and> 2 ^ q \<le> length (kh_vals h)"
      and ub: "unat (upper_bound h) = load_limit (2 ^ q)"
      and oc: "unat (n_occupied h) = card (occ (kh_flags h) (2 ^ q))"
      and ocl: "card (occ (kh_flags h) (2 ^ q)) \<le> load_limit (2 ^ q)"
      and sz: "unat (kh_size h) = card (live (kh_flags h) (2 ^ q))"
      using wf by (auto simp: kh_wf_def)
    have N: "4 \<le> (2::nat) ^ q" using b power_ge_2 by (simp add: buckets_def)
    have n: "unat (n_buckets h) = 2 ^ q" using b by (rule unat_buckets)
    have big: "\<not> n_buckets h < 4" using N n by (simp add: word_less_nat_alt)
    show ?thesis
    proof (cases "n_occupied h \<ge> upper_bound h")
      case False
      then have "kh_make_room hf a h = Inr (h, True)" by (simp add: kh_make_room_def)
      moreover have "card (occ (kh_flags h) (2 ^ q)) < load_limit (2 ^ q)"
        using False ub oc by (simp add: word_le_nat_alt)
      ultimately show ?thesis using res inv wf by blast
    next
      case full: True
      show ?thesis
      proof (cases "n_buckets h > push_bit 1 (kh_size h)")
        case True
        then have e: "kh_make_room hf a h = kh_resize hf a h (n_buckets h - 1)"
          using full by (simp add: kh_make_room_def)
        have "unat (kh_size h) < load_limit (2 ^ q)"
          using True two n by (intro load_limit_half [OF N]) (simp add: word_less_nat_alt)
        then show ?thesis
          by (rule kh_resize_ok [OF inv b, of "n_buckets h - 1" a, rotated])
            (use kroundup32_down [OF b] big len resized [OF e] in \<open>simp; fail | blast\<close>)+
      next
        case dense: False
        then have e: "kh_make_room hf a h = kh_resize hf a h (n_buckets h + 1)"
          using full by (simp add: kh_make_room_def)
        have "2 ^ q < (2::nat) ^ 27"
          using dense two n cap by (simp add: word_less_nat_alt kh_capacity_def)
        then have q: "q < 27" by (metis power_less_imp_less_exp one_less_numeral_iff semiring_norm(76))
        note bS = buckets_Suc [OF q b]
        have "unat (kh_size h) \<le> load_limit (2 ^ q)"
          using sz ocl card_mono [OF finite_occ live_subset_occ, of "kh_flags h" "2 ^ q"] by simp
        then have s: "unat (kh_size h) < load_limit (2 ^ Suc q)"
          using load_limit_double [OF N] by simp
        have big': "\<not> (2 ^ Suc q :: u32) < 4" and up: "n_buckets h < 2 ^ Suc q"
          using N n unat_buckets [OF bS] by (simp_all add: word_less_nat_alt)
        have nz: "2 ^ Suc q = (if kroundup32 (n_buckets h + 1) < 4 then 4 else kroundup32 (n_buckets h + 1))"
          using kroundup32_up [OF b] big' by simp
        show ?thesis
          by (rule kh_resize_ok [OF inv bS nz s, of a]) (use up resized [OF e] in \<open>simp; fail | blast\<close>)+
      qed
    qed
  qed
qed

lemma kh_put_ok:
  assumes inv: "kh_inv hf h" and cap: "unat (kh_size h) < kh_capacity"
  obtains h' x where "kh_put hf a h key = Inr (h', x, PutFailed)" and "\<not> kalloc_ok a"
    and "kh_inv hf h'" and "kh_abs h' = kh_abs h" and "x = n_buckets h'"
  | h' x r where "kh_put hf a h key = Inr (h', x, r)" and "put_result hf h key h' x r"
proof -
  obtain g ok where g: "kh_make_room hf a h = Inr (g, ok)" "kh_inv hf g" "kh_abs g = kh_abs h"
    "ok \<longrightarrow> (\<exists>p. kh_wf hf g p \<and> card (occ (kh_flags g) (2 ^ p)) < load_limit (2 ^ p))" "kalloc_ok a \<longrightarrow> ok"
    "kh_size g = kh_size h"
    by (rule kh_make_room_ok [OF inv cap, of a])
  show ?thesis
  proof (cases ok)
    case False
    then show ?thesis using g that(1) by (simp add: kh_put_def)
  next
    case True
    then obtain p where wf: "kh_wf hf g p" and room: "card (occ (kh_flags g) (2 ^ p)) < load_limit (2 ^ p)"
      using g(4) by blast
    obtain x where x: "kh_put_site hf g key = Inr x" "put_here hf g (2 ^ p) key (unat x)"
      by (rule kh_put_site_ok [OF wf])
    obtain h' r where h': "kh_put_at g key x = Inr (h', x, r)" "put_result hf g key h' x r"
      by (rule kh_put_at_ok [OF wf room x(2)])
    have "put_result hf h key h' x r" using h'(2) unfolding put_result_def g(3) .
    then show ?thesis using that(2) g(1) True x(1) h'(1) by (simp add: kh_put_def)
  qed
qed

section \<open>The interface of the table\<close>

text \<open>What a client of the table may rely on: \<open>abs\<close> is the map, \<open>points s i k\<close> that the iterator
  \<open>i\<close> stands at the entry of \<open>k\<close>, \<open>room\<close> that the table is not at its maximal size.\<close>

locale hash_table =
  fixes inv :: "'s \<Rightarrow> bool"
    and abs :: "'s \<Rightarrow> 'k \<Rightarrow> 'v option option"
    and points :: "'s \<Rightarrow> 'i \<Rightarrow> 'k \<Rightarrow> bool"
    and room :: "'s \<Rightarrow> bool"
    and get :: "'s \<Rightarrow> 'k \<Rightarrow> 'i outcome"
    and end_of :: "'s \<Rightarrow> 'i"
    and val :: "'s \<Rightarrow> 'i \<Rightarrow> 'v outcome"
    and put :: "kalloc \<Rightarrow> 's \<Rightarrow> 'k \<Rightarrow> ('s \<times> 'i \<times> put_ret) outcome"
    and set_val :: "'s \<Rightarrow> 'i \<Rightarrow> 'v \<Rightarrow> 's outcome"
    and del :: "'s \<Rightarrow> 'i \<Rightarrow> 's outcome"
  assumes get_law: "inv s \<Longrightarrow> \<exists>i. get s k = Inr i \<and> (if abs s k = None then i = end_of s else points s i k)"
    and points_law: "inv s \<Longrightarrow> points s i k \<Longrightarrow> i \<noteq> end_of s \<and> abs s k \<noteq> None"
    and val_law: "inv s \<Longrightarrow> points s i k \<Longrightarrow> abs s k = Some (Some v) \<Longrightarrow> val s i = Inr v"
    and put_law: "inv s \<Longrightarrow> room s \<Longrightarrow> \<exists>s' i r. put a s k = Inr (s', i, r) \<and> inv s' \<and>
      (if r = PutFailed then \<not> kalloc_ok a \<and> abs s' = abs s
       else points s' i k \<and> (r = PutPresent \<longleftrightarrow> abs s k \<noteq> None) \<and>
         (if r = PutPresent then abs s' = abs s else (\<exists>w. abs s' = (abs s)(k \<mapsto> w))))"
    and set_val_law: "inv s \<Longrightarrow> points s i k \<Longrightarrow>
      \<exists>s'. set_val s i v = Inr s' \<and> inv s' \<and> abs s' = (abs s)(k \<mapsto> Some v) \<and> points s' i k"
    and del_law: "inv s \<Longrightarrow> points s i k \<Longrightarrow> \<exists>s'. del s i = Inr s' \<and> inv s' \<and> abs s' = (abs s)(k := None)"
begin

lemma get_missing: "inv s \<Longrightarrow> abs s k = None \<Longrightarrow> get s k = Inr (end_of s)"
  using get_law [of s k] by auto

lemma get_present:
  assumes "inv s" and "abs s k \<noteq> None"
  obtains i where "get s k = Inr i" and "points s i k" and "i \<noteq> end_of s"
  using get_law [OF assms(1), of k] assms(2) points_law [OF assms(1)] by auto

lemma lookup_val:
  assumes "inv s" and "abs s k = Some (Some v)"
  shows "obind (get s k) (\<lambda>i. if i = end_of s then Inr None else obind (val s i) (\<lambda>v. Inr (Some v))) = Inr (Some v)"
proof -
  obtain i where "get s k = Inr i" "points s i k" "i \<noteq> end_of s"
    by (rule get_present [OF assms(1)]) (use assms(2) in auto)
  then show ?thesis using val_law [OF assms(1) _ assms(2)] by simp
qed

lemma lookup_none:
  "inv s \<Longrightarrow> abs s k = None \<Longrightarrow>
    obind (get s k) (\<lambda>i. if i = end_of s then Inr None else obind (val s i) (\<lambda>v. Inr (Some v))) = Inr None"
  using get_missing by simp

text \<open>Insertion of a value under a key, as the clients do it.\<close>

lemma put_set_val:
  assumes "inv s" and "room s" and "put a s k = Inr (s1, i, r)" and "r \<noteq> PutFailed"
  obtains s2 where "set_val s1 i v = Inr s2" and "inv s2" and "abs s2 = (abs s)(k \<mapsto> Some v)" and "points s2 i k"
proof -
  have p: "inv s1" "points s1 i k" "abs s1 = abs s \<or> (\<exists>w. abs s1 = (abs s)(k \<mapsto> w))"
    using put_law [OF assms(1,2), of a k] assms(3,4) by (auto split: if_splits)
  obtain s2 where "set_val s1 i v = Inr s2" "inv s2" "abs s2 = (abs s1)(k \<mapsto> Some v)" "points s2 i k"
    using set_val_law [OF p(1,2)] by blast
  then show ?thesis using that p(3) by auto
qed

lemma put_total:
  assumes "inv s" and "room s" and "kalloc_ok a"
  obtains s1 i r where "put a s k = Inr (s1, i, r)" and "r \<noteq> PutFailed"
  using put_law [OF assms(1,2), of a k] assms(3) by (auto split: if_splits)

lemma get_del:
  assumes "inv s"
  obtains s' where "obind (get s k) (\<lambda>i. if i = end_of s then Inr s else del s i) = Inr s'"
    and "inv s'" and "abs s' = (abs s)(k := None)"
proof (cases "abs s k")
  case None
  then have "(abs s)(k := None) = abs s" by (simp add: fun_upd_idem)
  then show ?thesis using that [of s] get_missing [OF assms None] assms by simp
next
  case (Some w)
  then obtain i where i: "get s k = Inr i" "points s i k" "i \<noteq> end_of s"
    using get_present [OF assms] by auto
  then show ?thesis using del_law [OF assms i(2)] that by auto
qed

end

definition kh_points :: "('k, 'v) khash \<Rightarrow> u32 \<Rightarrow> 'k \<Rightarrow> bool" where
  "kh_points h x k \<longleftrightarrow> unat x \<in> live (kh_flags h) (unat (n_buckets h)) \<and> kh_keys h ! unat x = Some k"

definition kh_room :: "('k, 'v) khash \<Rightarrow> bool" where
  "kh_room h \<longleftrightarrow> unat (kh_size h) < kh_capacity"

lemma kh_inv_cases:
  assumes "kh_inv hf h"
  obtains "n_buckets h = 0" "kh_abs h = Map.empty" | p where "kh_wf hf h p" "unat (n_buckets h) = 2 ^ p"
  using assms kh_abs_unallocated by (auto simp: kh_inv_def kh_wf_def buckets_def)

lemma kh_points_wf:
  assumes "kh_inv hf h" and "kh_points h x k"
  obtains p where "kh_wf hf h p" "unat (n_buckets h) = 2 ^ p" "unat x \<in> live (kh_flags h) (2 ^ p)"
    "kh_keys h ! unat x = Some k" "kh_abs h k = Some (kh_vals h ! unat x)"
proof (rule kh_inv_cases [OF assms(1)])
  assume "n_buckets h = 0"
  then show ?thesis using assms(2) by (simp add: kh_points_def live_def)
next
  fix p assume p: "kh_wf hf h p" "unat (n_buckets h) = 2 ^ p"
  then have "kh_abs h k = Some (kh_vals h ! unat x)"
    unfolding kh_wf_abs(1) [OF p(1)] using assms(2) by (auto simp: kh_points_def)
  then show ?thesis using that p assms(2) by (simp add: kh_points_def)
qed

lemma kh_set_val_ok:
  assumes wf: "kh_wf hf h p" and x: "unat x \<in> live (kh_flags h) (2 ^ p)" and k: "kh_keys h ! unat x = Some k"
  obtains h' where "kh_set_val h x v = Inr h'" "kh_wf hf h' p" "kh_abs h' = (kh_abs h)(k \<mapsto> Some v)"
    "kh_flags h' = kh_flags h" "kh_keys h' = kh_keys h" "n_buckets h' = n_buckets h"
proof -
  have l: "unat x < length (kh_vals h)" using live_less [OF x] wf by (auto simp: kh_wf_def)
  have nb: "unat (n_buckets h) = 2 ^ p" and lay: "layout hf (kh_flags h) (kh_keys h) (2 ^ p)"
    using wf by (auto simp: kh_wf_def buckets_def)
  let ?h' = "h\<lparr>kh_vals := (kh_vals h)[unat x := Some v]\<rparr>"
  have wf': "kh_wf hf ?h' p" using wf by (simp add: kh_wf_def)
  have "kh_abs ?h' j = ((kh_abs h)(k \<mapsto> Some v)) j" for j
  proof -
    have "kh_abs ?h' j = Some w \<longleftrightarrow> ((kh_abs h)(k \<mapsto> Some v)) j = Some w" for w
    proof (cases "j = k")
      case True
      have "(\<exists>i\<in>live (kh_flags h) (2 ^ p). kh_keys h ! i = Some k \<and> (kh_vals h)[unat x := Some v] ! i = w) \<longleftrightarrow>
          Some v = w"
        using x k l layout_inj [OF lay _ x] by (metis nth_list_update_eq)
      then show ?thesis
        using True kh_wf_abs(1) [OF wf', of k w] nb by simp
    next
      case False
      have "(kh_vals h)[unat x := Some v] ! i = kh_vals h ! i" if "kh_keys h ! i = Some j" for i
        using that k False by (metis nth_list_update_neq option.inject)
      then have "(\<exists>i\<in>live (kh_flags h) (2 ^ p). kh_keys h ! i = Some j \<and> (kh_vals h)[unat x := Some v] ! i = w) \<longleftrightarrow>
          (\<exists>i\<in>live (kh_flags h) (2 ^ p). kh_keys h ! i = Some j \<and> kh_vals h ! i = w)" by auto
      then show ?thesis
        using False kh_wf_abs(1) [OF wf', of j w] kh_wf_abs(1) [OF wf, of j w] nb by simp
    qed
    then show ?thesis by (metis not_None_eq)
  qed
  then have "kh_abs ?h' = (kh_abs h)(k \<mapsto> Some v)" by (rule ext)
  moreover have "kh_set_val h x v = Inr ?h'" using l by (simp add: kh_set_val_def)
  ultimately show ?thesis using that wf' by simp
qed

interpretation kh: hash_table "kh_inv hf" kh_abs kh_points kh_room "kh_get hf" kh_end kh_val
    "kh_put hf" kh_set_val kh_del for hf :: "'k \<Rightarrow> u32"
proof
  fix h :: "('k, 'v) khash" and k
  assume inv: "kh_inv hf h"
  show "\<exists>i. kh_get hf h k = Inr i \<and> (if kh_abs h k = None then i = kh_end h else kh_points h i k)"
  proof (rule kh_inv_cases [OF inv])
    assume "n_buckets h = 0" "kh_abs h = Map.empty"
    then show ?thesis by (simp add: kh_get_def kh_end_def)
  next
    fix p assume p: "kh_wf hf h p" "unat (n_buckets h) = 2 ^ p"
    obtain x where x: "kh_get hf h k = Inr x"
      and "unat x \<in> live (kh_flags h) (2 ^ p) \<and> kh_keys h ! unat x = Some k \<or>
       x = n_buckets h \<and> (\<forall>i\<in>live (kh_flags h) (2 ^ p). kh_keys h ! i \<noteq> Some k)"
      by (rule kh_get_wf [OF p(1)])
    then show ?thesis
      using kh_wf_abs(2) [OF p(1), of k] p(2) by (auto simp: kh_points_def kh_end_def)
  qed
next
  fix h :: "('k, 'v) khash" and x k
  assume inv: "kh_inv hf h" and pt: "kh_points h x k"
  show "x \<noteq> kh_end h \<and> kh_abs h k \<noteq> None"
    by (rule kh_points_wf [OF inv pt]) (auto simp: kh_end_def live_def)
next
  fix h :: "('k, 'v) khash" and x k v
  assume inv: "kh_inv hf h" and pt: "kh_points h x k" and v: "kh_abs h k = Some (Some v)"
  show "kh_val h x = Inr v"
  proof (rule kh_points_wf [OF inv pt])
    fix p assume p: "kh_wf hf h p" "unat x \<in> live (kh_flags h) (2 ^ p)" "kh_abs h k = Some (kh_vals h ! unat x)"
    have "unat x < length (kh_vals h)" using live_less [OF p(2)] p(1) by (auto simp: kh_wf_def)
    moreover have "kh_vals h ! unat x = Some v" using p(3) v by simp
    ultimately show ?thesis by (simp add: kh_val_def key_at_def)
  qed
next
  fix h :: "('k, 'v) khash" and a k
  assume inv: "kh_inv hf h" and room: "kh_room h"
  then have cap: "unat (kh_size h) < kh_capacity" by (simp add: kh_room_def)
  show "\<exists>s' i r. kh_put hf a h k = Inr (s', i, r) \<and> kh_inv hf s' \<and>
      (if r = PutFailed then \<not> kalloc_ok a \<and> kh_abs s' = kh_abs h
       else kh_points s' i k \<and> (r = PutPresent \<longleftrightarrow> kh_abs h k \<noteq> None) \<and>
         (if r = PutPresent then kh_abs s' = kh_abs h else (\<exists>w. kh_abs s' = (kh_abs h)(k \<mapsto> w))))"
  proof (rule kh_put_ok [OF inv cap, of a k])
    fix h' x r
    assume r: "kh_put hf a h k = Inr (h', x, r)" "put_result hf h k h' x r"
    have "kh_points h' x k"
    proof (rule kh_inv_cases [of hf h'])
      show "kh_inv hf h'" using r(2) by (simp add: put_result_def)
      assume "n_buckets h' = 0"
      then show ?thesis using r(2) by (simp add: put_result_def)
    next
      fix p assume "kh_wf hf h' p" "unat (n_buckets h') = 2 ^ p"
      then show ?thesis using r(2)
        by (auto simp: put_result_def kh_points_def kh_key_def key_at_def kh_exist_def kh_wf_def
            live_def nth_ok_def split: option.splits)
    qed
    then show ?thesis using r by (auto simp: put_result_def)
  qed auto
next
  fix h :: "('k, 'v) khash" and x k v
  assume inv: "kh_inv hf h" and pt: "kh_points h x k"
  show "\<exists>s'. kh_set_val h x v = Inr s' \<and> kh_inv hf s' \<and> kh_abs s' = (kh_abs h)(k \<mapsto> Some v) \<and> kh_points s' x k"
  proof (rule kh_points_wf [OF inv pt])
    fix p assume p: "kh_wf hf h p" "unat (n_buckets h) = 2 ^ p" "unat x \<in> live (kh_flags h) (2 ^ p)"
      "kh_keys h ! unat x = Some k"
    show ?thesis
      by (rule kh_set_val_ok [OF p(1,3,4), of v]) (use p in \<open>auto simp: kh_inv_def kh_points_def\<close>)
  qed
next
  fix h :: "('k, 'v) khash" and x k
  assume inv: "kh_inv hf h" and pt: "kh_points h x k"
  show "\<exists>s'. kh_del h x = Inr s' \<and> kh_inv hf s' \<and> kh_abs s' = (kh_abs h)(k := None)"
  proof (rule kh_points_wf [OF inv pt])
    fix p assume p: "kh_wf hf h p" "unat x \<in> live (kh_flags h) (2 ^ p)" "kh_keys h ! unat x = Some k"
    show ?thesis
      by (rule kh_del_ok [OF p]) (auto simp: kh_inv_def)
  qed
qed

section \<open>The table as a whole\<close>

lemma kh_wf_size:
  assumes "kh_wf hf h p"
  shows "unat (kh_size h) = card (dom (kh_abs h))"
proof -
  let ?L = "live (kh_flags h) (2 ^ p)"
  have nb: "unat (n_buckets h) = 2 ^ p" and lay: "layout hf (kh_flags h) (kh_keys h) (2 ^ p)"
    and sz: "unat (kh_size h) = card ?L"
    using assms by (auto simp: kh_wf_def buckets_def)
  have "k \<in> dom (kh_abs h) \<longleftrightarrow> k \<in> (\<lambda>i. the (kh_keys h ! i)) ` ?L" for k
    using kh_wf_abs(2) [OF assms, of k] nb layout_key [OF lay] by (force simp: domIff)
  then have "dom (kh_abs h) = (\<lambda>i. the (kh_keys h ! i)) ` ?L" by blast
  moreover have "inj_on (\<lambda>i. the (kh_keys h ! i)) ?L"
    by (rule inj_onI) (metis lay layout_inj layout_key option.sel)
  ultimately show ?thesis using sz by (simp add: card_image)
qed

lemma kh_inv_size: "kh_inv hf h \<Longrightarrow> unat (kh_size h) = card (dom (kh_abs h))"
  using kh_wf_size kh_abs_unallocated by (fastforce simp: kh_inv_def)

lemma kh_inv_init: "kh_inv hf kh_init" and kh_abs_init: "kh_abs kh_init = Map.empty"
  by (simp_all add: kh_inv_def kh_init_def kh_abs_unallocated)

lemma kh_inv_finite: "kh_inv hf h \<Longrightarrow> finite (dom (kh_abs h))"
  by (simp add: kh_abs_def finite_dom_map_of)

text \<open>The operations of a client and what they mean for the map. \<open>a\<close> tells which allocations fail.\<close>

datatype ('k, 'v) kh_op = KhInsert 'k 'v kalloc | KhRemove 'k

fun kh_apply :: "('k \<Rightarrow> u32) \<Rightarrow> ('k, 'v) kh_op \<Rightarrow> ('k, 'v) khash \<Rightarrow> ('k, 'v) khash outcome" where
  "kh_apply hf (KhInsert k v a) h = obind (kh_put hf a h k) (\<lambda>(h, x, ret).
     if ret = PutFailed then Inr h else kh_set_val h x v)"
| "kh_apply hf (KhRemove k) h = obind (kh_get hf h k) (\<lambda>x.
     if x = kh_end h then Inr h else kh_del h x)"

fun kh_run :: "('k \<Rightarrow> u32) \<Rightarrow> ('k, 'v) kh_op list \<Rightarrow> ('k, 'v) khash \<Rightarrow> ('k, 'v) khash outcome" where
  "kh_run hf [] h = Inr h"
| "kh_run hf (x # xs) h = obind (kh_apply hf x h) (kh_run hf xs)"

fun map_apply :: "('k, 'v) kh_op \<Rightarrow> ('k \<rightharpoonup> 'v option) \<Rightarrow> ('k \<rightharpoonup> 'v option)" where
  "map_apply (KhInsert k v a) m = m(k \<mapsto> Some v)"
| "map_apply (KhRemove k) m = m(k := None)"

fun op_alloc_ok :: "('k, 'v) kh_op \<Rightarrow> bool" where
  "op_alloc_ok (KhInsert k v a) \<longleftrightarrow> kalloc_ok a"
| "op_alloc_ok (KhRemove k) \<longleftrightarrow> True"

lemma kh_apply_refines:
  assumes inv: "kh_inv hf h" and room: "kh_room h" and a: "op_alloc_ok x"
  obtains h' where "kh_apply hf x h = Inr h'" and "kh_inv hf h'" and "kh_abs h' = map_apply x (kh_abs h)"
proof (cases x)
  case (KhInsert k v al)
  then have "kalloc_ok al" using a by simp
  then obtain s1 i r where p: "kh_put hf al h k = Inr (s1, i, r)" "r \<noteq> PutFailed"
    by (rule kh.put_total [OF inv room])
  obtain s2 where "kh_set_val s1 i v = Inr s2" "kh_inv hf s2" "kh_abs s2 = (kh_abs h)(k \<mapsto> Some v)" "kh_points s2 i k"
    by (rule kh.put_set_val [OF inv room p])
  then show ?thesis using that p KhInsert by simp
next
  case (KhRemove k)
  obtain s' where "obind (kh_get hf h k) (\<lambda>i. if i = kh_end h then Inr h else kh_del h i) = Inr s'"
    "kh_inv hf s'" "kh_abs s' = (kh_abs h)(k := None)"
    by (rule kh.get_del [OF inv])
  then show ?thesis using that KhRemove by simp
qed

lemma card_dom_map_apply: "finite (dom m) \<Longrightarrow> card (dom (map_apply x m)) \<le> Suc (card (dom m))"
proof (cases x)
  case (KhInsert k v a)
  then show "finite (dom m) \<Longrightarrow> ?thesis" by (simp add: card_insert_le_m1 card_insert_if)
next
  case (KhRemove k)
  then show "finite (dom m) \<Longrightarrow> ?thesis" by simp (meson card_Diff1_le le_SucI)
qed

lemma kh_run_refines:
  "kh_inv hf h \<Longrightarrow> card (dom (kh_abs h)) + length xs \<le> kh_capacity \<Longrightarrow> list_all op_alloc_ok xs \<Longrightarrow>
    \<exists>h'. kh_run hf xs h = Inr h' \<and> kh_inv hf h' \<and> kh_abs h' = fold map_apply xs (kh_abs h)"
proof (induction xs arbitrary: h)
  case Nil
  then show ?case by simp
next
  case (Cons x xs)
  have "kh_room h" using Cons.prems kh_inv_size [OF Cons.prems(1)] by (simp add: kh_room_def)
  moreover have "op_alloc_ok x" using Cons.prems(3) by simp
  ultimately obtain h1 where h1: "kh_apply hf x h = Inr h1" "kh_inv hf h1" "kh_abs h1 = map_apply x (kh_abs h)"
    by (rule kh_apply_refines [OF Cons.prems(1)])
  have "card (dom (kh_abs h1)) + length xs \<le> kh_capacity"
    using Cons.prems(2) card_dom_map_apply [OF kh_inv_finite [OF Cons.prems(1)], of x] h1(3) by simp
  from Cons.IH [OF h1(2) this] Cons.prems(3) h1 show ?case by simp
qed

text \<open>
  C17. Starting from the empty table, every sequence of fewer than \<open>2 ^ 26\<close> insertions and
  removals, whatever the hash function does, completes without a fault and without running out
  of the fuel of any probing, kicking or rehashing loop; afterwards a lookup of any key finds
  exactly what the same sequence leaves in a finite map, and \<open>kh_size\<close> is its number of keys.
\<close>
theorem khash_refines_map:
  assumes "length xs \<le> kh_capacity" and "list_all op_alloc_ok xs"
  shows "\<exists>h. kh_run khash_func xs kh_init = Inr h \<and>
    (\<forall>k. case fold map_apply xs Map.empty k of
        None \<Rightarrow> kh_get khash_func h k = Inr (kh_end h)
      | Some v \<Rightarrow> (\<exists>x. kh_get khash_func h k = Inr x \<and> x \<noteq> kh_end h \<and> kh_points h x k \<and>
          (\<forall>w. v = Some w \<longrightarrow> kh_val h x = Inr w))) \<and>
    unat (kh_size h) = card (dom (fold map_apply xs Map.empty))"
proof -
  obtain h where h: "kh_run khash_func xs kh_init = Inr h" "kh_inv khash_func h"
      "kh_abs h = fold map_apply xs Map.empty"
    using kh_run_refines [OF kh_inv_init, of xs] assms by (auto simp: kh_abs_init)
  have "case kh_abs h k of None \<Rightarrow> kh_get khash_func h k = Inr (kh_end h)
      | Some v \<Rightarrow> (\<exists>x. kh_get khash_func h k = Inr x \<and> x \<noteq> kh_end h \<and> kh_points h x k \<and>
          (\<forall>w. v = Some w \<longrightarrow> kh_val h x = Inr w))" for k
  proof (cases "kh_abs h k")
    case None
    then show ?thesis using kh.get_missing [OF h(2)] by simp
  next
    case (Some v)
    then obtain x where "kh_get khash_func h k = Inr x" "kh_points h x k" "x \<noteq> kh_end h"
      using kh.get_present [OF h(2)] by auto
    then show ?thesis using Some kh.val_law [OF h(2)] by auto
  qed
  then show ?thesis using h kh_inv_size [OF h(2)] by auto
qed

theorem khash_refines_map_witness:
  "\<exists>h. kh_run kh_int_hash_func [KhInsert 7 (1::nat) \<lparr>flags_ok = True, keys_ok = True, vals_ok = True\<rparr>,
      KhInsert 11 2 \<lparr>flags_ok = True, keys_ok = True, vals_ok = True\<rparr>, KhRemove 7] kh_init = Inr h \<and>
    kh_get kh_int_hash_func h 7 = Inr (kh_end h) \<and> (\<exists>x. kh_get kh_int_hash_func h 11 = Inr x \<and> kh_val h x = Inr 2)"
proof -
  let ?xs = "[KhInsert 7 (1::nat) \<lparr>flags_ok = True, keys_ok = True, vals_ok = True\<rparr>,
      KhInsert 11 2 \<lparr>flags_ok = True, keys_ok = True, vals_ok = True\<rparr>, KhRemove 7]"
  obtain h where r: "kh_run kh_int_hash_func ?xs kh_init = Inr h"
    and a: "\<forall>k. case fold map_apply ?xs Map.empty k of
        None \<Rightarrow> kh_get kh_int_hash_func h k = Inr (kh_end h)
      | Some v \<Rightarrow> (\<exists>x. kh_get kh_int_hash_func h k = Inr x \<and> x \<noteq> kh_end h \<and> kh_points h x k \<and>
          (\<forall>w. v = Some w \<longrightarrow> kh_val h x = Inr w))"
    using khash_refines_map [of ?xs kh_int_hash_func] by (auto simp: kh_capacity_def kalloc_ok_def)
  show ?thesis using r spec [OF a, of 7] spec [OF a, of 11] by auto
qed

text \<open>
  An insertion that cannot allocate reports -1 and leaves the map as it was, even when the key array
  had already been enlarged; it fails only then. Otherwise the iterator it returns stands at the key,
  the return code tells whether the key was there, and no other key changes.
\<close>
theorem khash_put_outcomes:
  assumes "kh_inv khash_func h" and "unat (kh_size h) < kh_capacity"
  shows "\<exists>h' x ret. kh_put khash_func a h key = Inr (h', x, ret) \<and> kh_inv khash_func h' \<and>
    (ret = PutFailed \<longrightarrow> \<not> kalloc_ok a \<and> kh_abs h' = kh_abs h \<and> x = kh_end h') \<and>
    (ret \<noteq> PutFailed \<longrightarrow> kh_key h' x = Inr key \<and> (ret = PutPresent \<longleftrightarrow> key \<in> dom (kh_abs h)) \<and>
      (\<forall>k. k \<noteq> key \<longrightarrow> kh_abs h' k = kh_abs h k) \<and> key \<in> dom (kh_abs h'))"
  by (rule kh_put_ok [OF assms, of a key])
    (auto simp: put_result_def kh_inv_def kh_end_def domIff split: if_splits)

theorem khash_put_outcomes_witness:
  "\<exists>h' x ret. kh_put kh_int_hash_func \<lparr>flags_ok = True, keys_ok = True, vals_ok = False\<rparr>
      (kh_init :: (u32, nat) khash) 3 = Inr (h', x, ret) \<and> kh_inv kh_int_hash_func h'"
  using khash_put_outcomes [OF kh_inv_init, where khash_func = kh_int_hash_func and
      a = "\<lparr>flags_ok = True, keys_ok = True, vals_ok = False\<rparr>" and key = 3]
  by (auto simp: kh_init_def kh_capacity_def)

text \<open>
  The load limit \<open>COMPUTE_SIZE\<close>, the floating point expression \<open>n * 0.77 + 0.5\<close> rewritten for
  integers, is exactly the floor of \<open>(77 n + 50) / 100\<close> for every number of buckets from 4 to
  \<open>2 ^ 27\<close>, and is below it; at \<open>2 ^ 28\<close> buckets the 64-bit product wraps and the limit is too small.
\<close>
theorem khash_load_limit:
  "(\<forall>p\<in>set [2..<28]. unat (COMPUTE_SIZE (2 ^ p)) = (77 * 2 ^ p + 50) div 100 \<and>
      unat (COMPUTE_SIZE (2 ^ p)) < 2 ^ p) \<and>
    unat (COMPUTE_SIZE (2 ^ 28)) \<noteq> (77 * 2 ^ 28 + 50) div 100 \<and>
    unat (COMPUTE_SIZE (2 ^ 28)) < 2 ^ 27"
  by (simp add: COMPUTE_SIZE_def DIV_100_def)

theorem khash_load_limit_witness:
  "unat (COMPUTE_SIZE (2 ^ 5)) = 25"
proof -
  have "(5::nat) \<in> set [2..<28]" by simp
  with khash_load_limit have "unat (COMPUTE_SIZE (2 ^ 5)) = (77 * 2 ^ 5 + 50) div 100" by blast
  then show ?thesis by simp
qed

end
