(* ===== verification/SocketTable.thy ===== *)
theory SocketTable
  imports Khash
begin

text \<open>
  The bookkeeping of the socket server,
  \<open>remote-drivers/picotcp-socket-sync/server/picoserver_client.c\<close> with its structures
  (\<open>picoserver_client.h\<close>, \<open>picoserver_socket.h\<close>): per client a hash table from socket numbers to
  socket structures and a set of sockets with events, and one table from \<open>struct pico_socket\<close>
  addresses to socket structures.

  Socket structures live in an explicit store, since the tables alias them and \<open>free\<close> matters:
  reading a pointer that the store does not hold is a fault. A \<open>seL4_Word\<close> is a \<open>u64\<close>; a C \<open>int\<close>
  socket number is its 32 bits, the key of the tables, and its sign is read with \<open>sint\<close>.

  The invariant \<open>tables_inv\<close> says that the tables describe one bijection: socket \<open>fd\<close> of client
  \<open>c\<close> in \<open>c\<close>'s table is the structure that the address table finds from its PicoTCP socket.
\<close>

section \<open>Structures\<close>

type_synonym ptr = u64

record picoserver_socket_async =
  rx_pending_queue :: ptr
  rx_pending_queue_end :: ptr
  tx_pending_queue :: ptr
  tx_pending_queue_end :: ptr

record picoserver_socket =
  protocol :: u16
  client_id :: cint
  socket_fd :: cint
  pico_socket :: ptr
  events :: u16
  async_transport :: "picoserver_socket_async option"

record picoserver_client =
  bump_index :: u32
  socket_table :: "(u32, ptr) khash"
  socket_event_set :: "(u32, unit) khash"

record tables =
  num_clients :: cint
  clients :: "picoserver_client list"
  socket_addr_table :: "(u64, ptr) khash"
  heap :: "ptr \<Rightarrow> picoserver_socket option"

record picoserver_event =
  ev_socket_fd :: cint
  ev_events :: u16
  ev_num_left :: cint

definition deref :: "(ptr \<Rightarrow> 'a option) \<Rightarrow> ptr \<Rightarrow> 'a outcome" where
  "deref m p = (if p = 0 then Inl NullDeref else case m p of None \<Rightarrow> Inl UseAfterFree | Some x \<Rightarrow> Inr x)"

definition free_ptr :: "(ptr \<Rightarrow> 'a option) \<Rightarrow> ptr \<Rightarrow> (ptr \<Rightarrow> 'a option) outcome" where
  "free_ptr m p = (if p = 0 then Inr m
     else case m p of None \<Rightarrow> Inl UseAfterFree | Some x \<Rightarrow> Inr (m(p := None)))"

definition get_client :: "tables \<Rightarrow> u64 \<Rightarrow> picoserver_client outcome" where
  "get_client st cid = nth_ok (clients st) (unat cid)"

definition set_client :: "tables \<Rightarrow> u64 \<Rightarrow> picoserver_client \<Rightarrow> tables" where
  "set_client st cid c = st\<lparr>clients := (clients st)[unat cid := c]\<rparr>"

abbreviation int_get :: "(u32, 'v) khash \<Rightarrow> u32 \<Rightarrow> u32 outcome" where
  "int_get \<equiv> kh_get kh_int_hash_func"

abbreviation int_put :: "kalloc \<Rightarrow> (u32, 'v) khash \<Rightarrow> u32 \<Rightarrow> ((u32, 'v) khash \<times> u32 \<times> put_ret) outcome" where
  "int_put \<equiv> kh_put kh_int_hash_func"

abbreviation addr_get :: "(u64, 'v) khash \<Rightarrow> u64 \<Rightarrow> u32 outcome" where
  "addr_get \<equiv> kh_get kh_int64_hash_func"

abbreviation addr_put :: "kalloc \<Rightarrow> (u64, 'v) khash \<Rightarrow> u64 \<Rightarrow> ((u64, 'v) khash \<times> u32 \<times> put_ret) outcome" where
  "addr_put \<equiv> kh_put kh_int64_hash_func"

section \<open>Operations\<close>

text \<open>The loop of \<open>find_free_id\<close>; the result is the identifier and the new \<open>bump_index\<close>.\<close>

fun free_id_loop :: "(u32, ptr) khash \<Rightarrow> u32 \<Rightarrow> u32 \<Rightarrow> nat \<Rightarrow> u32 \<Rightarrow> (u32 \<times> u32) outcome" where
  "free_id_loop h bump old_index 0 cur = Inl OutOfFuel"
| "free_id_loop h bump old_index (Suc fuel) cur =
     obind (int_get h cur) (\<lambda>iter.
     if iter = kh_end h then Inr (cur, cur + 1)
     else
       let cur = cur + 1;
           cur = (if cur = 0x80000000 then 1 else cur)
       in if old_index = cur then Inr (0, bump)
          else free_id_loop h bump old_index fuel cur)"

definition find_free_id :: "tables \<Rightarrow> u64 \<Rightarrow> (tables \<times> u32) outcome" where
  "find_free_id st cid =
     obind (get_client st cid) (\<lambda>c.
     obind (free_id_loop (socket_table c) (bump_index c) (bump_index c)
        (unat (kh_size (socket_table c)) + 2) (bump_index c)) (\<lambda>(cur, bump).
     Inr (set_client st cid (c\<lparr>bump_index := bump\<rparr>), cur)))"

definition picoserver_clients_init :: "cint \<Rightarrow> tables" where
  "picoserver_clients_init n =
     \<lparr>num_clients = n,
      clients = replicate (nat (sint n)) \<lparr>bump_index = 1, socket_table = kh_init, socket_event_set = kh_init\<rparr>,
      socket_addr_table = kh_init, heap = Map.empty\<rparr>"

definition client_get_num_sockets :: "tables \<Rightarrow> u64 \<Rightarrow> u32 outcome" where
  "client_get_num_sockets st cid = obind (get_client st cid) (\<lambda>c. Inr (kh_size (socket_table c)))"

text \<open>\<open>None\<close> is the null pointer.\<close>

definition client_get_socket :: "tables \<Rightarrow> u64 \<Rightarrow> cint \<Rightarrow> ptr option outcome" where
  "client_get_socket st cid socket_id =
     obind (get_client st cid) (\<lambda>c.
     obind (int_get (socket_table c) socket_id) (\<lambda>k.
     if k = kh_end (socket_table c) then Inr None
     else obind (kh_val (socket_table c) k) (\<lambda>p. Inr (Some p))))"

definition client_get_socket_by_addr :: "tables \<Rightarrow> u64 \<Rightarrow> ptr option outcome" where
  "client_get_socket_by_addr st addr =
     obind (addr_get (socket_addr_table st) addr) (\<lambda>k.
     if k = kh_end (socket_addr_table st) then Inr None
     else obind (kh_val (socket_addr_table st) k) (\<lambda>p. Inr (Some p)))"

text \<open>The branch of \<open>client_put_socket\<close> for a reused \<open>struct pico_socket\<close>: \<open>kh_del\<close> gets the
  descriptor where it wants an iterator.\<close>

definition invalidate_old :: "tables \<Rightarrow> u64 \<Rightarrow> ptr \<Rightarrow> u64 \<Rightarrow> tables outcome" where
  "invalidate_old st cid old_socket addr =
     obind (deref (heap st) old_socket) (\<lambda>old.
     if pico_socket old \<noteq> addr then Inl Fatal
     else
       let old_socket_fd = socket_fd old in
       obind (get_client st cid) (\<lambda>c.
       obind (int_get (socket_table c) old_socket_fd) (\<lambda>socket_iter.
       obind (ensure (socket_iter \<noteq> kh_end (socket_table c)) Fatal) (\<lambda>_.
       obind (kh_del (socket_table c) old_socket_fd) (\<lambda>t.
       obind (free_ptr (heap st) old_socket) (\<lambda>hp.
       obind (int_get (socket_event_set c) old_socket_fd) (\<lambda>ev_iter.
       obind (if ev_iter \<noteq> kh_end (socket_event_set c) then kh_del (socket_event_set c) ev_iter
              else Inr (socket_event_set c)) (\<lambda>es.
       Inr (set_client (st\<lparr>heap := hp\<rparr>) cid (c\<lparr>socket_table := t, socket_event_set := es\<rparr>))))))))))"

definition client_put_socket :: "kalloc \<Rightarrow> kalloc \<Rightarrow> tables \<Rightarrow> u64 \<Rightarrow> ptr \<Rightarrow> (tables \<times> cint) outcome" where
  "client_put_socket a1 a2 st cid new_socket =
     obind (ensure (cid < scast (num_clients st)) Fatal) (\<lambda>_.
     obind (ensure (new_socket \<noteq> 0) Fatal) (\<lambda>_.
     obind (find_free_id st cid) (\<lambda>(st, free_id).
     if free_id = 0 then Inr (st, -1)
     else
       obind (get_client st cid) (\<lambda>c.
       obind (int_put a1 (socket_table c) free_id) (\<lambda>(t, socket_iter, ret).
       if ret = PutFailed then Inr (set_client st cid (c\<lparr>socket_table := t\<rparr>), -1)
       else if ret = PutPresent then Inl Fatal
       else
         obind (kh_set_val t socket_iter new_socket) (\<lambda>t.
         obind (deref (heap st) new_socket) (\<lambda>new.
         obind (addr_put a2 (socket_addr_table st) (pico_socket new)) (\<lambda>(at, addr_iter, ret).
         if ret = PutFailed then
           obind (kh_del t socket_iter) (\<lambda>t.
           Inr (set_client (st\<lparr>socket_addr_table := at\<rparr>) cid (c\<lparr>socket_table := t\<rparr>), -1))
         else
           let st = set_client (st\<lparr>socket_addr_table := at\<rparr>) cid (c\<lparr>socket_table := t\<rparr>) in
           obind (if ret = PutPresent
                  then obind (kh_val at addr_iter) (\<lambda>old. invalidate_old st cid old (pico_socket new))
                  else Inr st) (\<lambda>st.
           obind (kh_set_val (socket_addr_table st) addr_iter new_socket) (\<lambda>at.
           Inr (st\<lparr>socket_addr_table := at\<rparr>, free_id)))))))))))"

text \<open>\<open>pico_socket_close\<close> is a call of the stack; its argument is returned for the caller's trace.\<close>

definition client_delete_socket :: "tables \<Rightarrow> u64 \<Rightarrow> cint \<Rightarrow> (tables \<times> u64 option \<times> cint) outcome" where
  "client_delete_socket st cid socket_id =
     obind (get_client st cid) (\<lambda>c.
     obind (int_get (socket_table c) socket_id) (\<lambda>socket_iter.
     if socket_iter = kh_end (socket_table c) then Inr (st, None, -1)
     else
       obind (kh_val (socket_table c) socket_iter) (\<lambda>p.
       obind (deref (heap st) p) (\<lambda>s.
       obind (addr_get (socket_addr_table st) (pico_socket s)) (\<lambda>addr_iter.
       obind (ensure (addr_iter \<noteq> kh_end (socket_addr_table st)) Fatal) (\<lambda>_.
       obind (free_ptr (heap st) p) (\<lambda>hp.
       obind (int_get (socket_event_set c) socket_id) (\<lambda>ev_iter.
       obind (kh_del (socket_table c) socket_iter) (\<lambda>t.
       obind (kh_del (socket_addr_table st) addr_iter) (\<lambda>at.
       obind (if ev_iter \<noteq> kh_end (socket_event_set c) then kh_del (socket_event_set c) ev_iter
              else Inr (socket_event_set c)) (\<lambda>es.
       Inr (set_client (st\<lparr>heap := hp, socket_addr_table := at\<rparr>) cid
              (c\<lparr>socket_table := t, socket_event_set := es\<rparr>), Some (pico_socket s), 0))))))))))))"

text \<open>The search of \<open>client_get_event\<close> for the first bucket in use.\<close>

fun first_event :: "(u32, unit) khash \<Rightarrow> nat \<Rightarrow> u32 \<Rightarrow> ((u32, unit) khash \<times> u32) outcome" where
  "first_event es 0 iter = (if iter < kh_end es then Inl OutOfFuel else Inr (es, 0))"
| "first_event es (Suc fuel) iter =
     (if \<not> iter < kh_end es then Inr (es, 0)
      else obind (kh_exist es iter) (\<lambda>e.
        if e then
          obind (kh_key es iter) (\<lambda>socket_id.
          obind (kh_del es iter) (\<lambda>es. Inr (es, socket_id)))
        else first_event es fuel (iter + 1)))"

definition client_get_event :: "tables \<Rightarrow> u64 \<Rightarrow> picoserver_event \<Rightarrow> (tables \<times> picoserver_event) outcome" where
  "client_get_event st cid ret_event =
     obind (get_client st cid) (\<lambda>c.
     obind (first_event (socket_event_set c) (unat (kh_end (socket_event_set c))) kh_begin) (\<lambda>(es, socket_id).
     let st = set_client st cid (c\<lparr>socket_event_set := es\<rparr>) in
     if socket_id = 0 then Inr (st, ret_event)
     else
       obind (client_get_socket st cid socket_id) (\<lambda>q.
       case q of None \<Rightarrow> Inl Fatal
       | Some p \<Rightarrow>
         obind (deref (heap st) p) (\<lambda>s.
         Inr (st\<lparr>heap := (heap st)(p \<mapsto> s\<lparr>events := 0\<rparr>)\<rparr>,
              \<lparr>ev_socket_fd = socket_id, ev_events = events s, ev_num_left = kh_size es\<rparr>)))))"

definition client_put_event :: "kalloc \<Rightarrow> tables \<Rightarrow> u64 \<Rightarrow> cint \<Rightarrow> u16 \<Rightarrow> (tables \<times> cint) outcome" where
  "client_put_event a st cid socket_id event =
     obind (client_get_socket st cid socket_id) (\<lambda>q.
     case q of None \<Rightarrow> Inr (st, -1)
     | Some p \<Rightarrow>
       obind (deref (heap st) p) (\<lambda>s.
       let st = st\<lparr>heap := (heap st)(p \<mapsto> s\<lparr>events := events s OR event\<rparr>)\<rparr> in
       obind (get_client st cid) (\<lambda>c.
       obind (int_put a (socket_event_set c) socket_id) (\<lambda>(es, x, ret).
       Inr (set_client st cid (c\<lparr>socket_event_set := es\<rparr>), if ret = PutFailed then -1 else 0)))))"

section \<open>What the tables say\<close>

abbreviation fd_tab :: "tables \<Rightarrow> nat \<Rightarrow> u32 \<Rightarrow> ptr option option" where
  "fd_tab st i \<equiv> kh_abs (socket_table (clients st ! i))"

abbreviation ev_tab :: "tables \<Rightarrow> nat \<Rightarrow> u32 \<Rightarrow> unit option option" where
  "ev_tab st i \<equiv> kh_abs (socket_event_set (clients st ! i))"

abbreviation addr_tab :: "tables \<Rightarrow> u64 \<Rightarrow> ptr option option" where
  "addr_tab st \<equiv> kh_abs (socket_addr_table st)"

definition fd_entry :: "tables \<Rightarrow> nat \<Rightarrow> u32 \<Rightarrow> ptr option \<Rightarrow> bool" where
  "fd_entry st i fd w \<longleftrightarrow> fd \<noteq> 0 \<and> (\<exists>p s. w = Some p \<and> p \<noteq> 0 \<and> heap st p = Some s \<and> socket_fd s = fd \<and>
     unat (client_id s) = i \<and> addr_tab st (pico_socket s) = Some (Some p))"

definition addr_entry :: "tables \<Rightarrow> u64 \<Rightarrow> ptr option \<Rightarrow> bool" where
  "addr_entry st a w \<longleftrightarrow> (\<exists>p s. w = Some p \<and> p \<noteq> 0 \<and> heap st p = Some s \<and> pico_socket s = a \<and>
     unat (client_id s) < length (clients st) \<and>
     fd_tab st (unat (client_id s)) (socket_fd s) = Some (Some p))"

definition hashes_inv :: "tables \<Rightarrow> bool" where
  "hashes_inv st \<longleftrightarrow>
     (\<forall>i<length (clients st). kh_inv kh_int_hash_func (socket_table (clients st ! i)) \<and>
        kh_inv kh_int_hash_func (socket_event_set (clients st ! i))) \<and>
     kh_inv kh_int64_hash_func (socket_addr_table st)"

definition tables_inv :: "tables \<Rightarrow> bool" where
  "tables_inv st \<longleftrightarrow> hashes_inv st \<and> 0 \<le> sint (num_clients st) \<and>
     length (clients st) = nat (sint (num_clients st)) \<and>
     (\<forall>i<length (clients st). \<forall>fd w. fd_tab st i fd = Some w \<longrightarrow> fd_entry st i fd w) \<and>
     (\<forall>a w. addr_tab st a = Some w \<longrightarrow> addr_entry st a w) \<and>
     (\<forall>i<length (clients st). dom (ev_tab st i) \<subseteq> dom (fd_tab st i))"

text \<open>The socket that a descriptor denotes.\<close>

definition socket_of :: "tables \<Rightarrow> nat \<Rightarrow> u32 \<Rightarrow> ptr option" where
  "socket_of st i fd = Option.bind (fd_tab st i fd) id"

lemma hashes_invD:
  assumes "hashes_inv st"
  shows "i < length (clients st) \<Longrightarrow> kh_inv kh_int_hash_func (socket_table (clients st ! i))"
    and "i < length (clients st) \<Longrightarrow> kh_inv kh_int_hash_func (socket_event_set (clients st ! i))"
    and "kh_inv kh_int64_hash_func (socket_addr_table st)"
  using assms by (auto simp: hashes_inv_def)

lemma tables_inv_hashes: "tables_inv st \<Longrightarrow> hashes_inv st"
  by (simp add: tables_inv_def)

lemma tables_inv_fd:
  assumes "tables_inv st" "i < length (clients st)" "fd_tab st i fd = Some w"
  obtains p s where "w = Some p" "p \<noteq> 0" "fd \<noteq> 0" "heap st p = Some s" "socket_fd s = fd"
    "unat (client_id s) = i" "addr_tab st (pico_socket s) = Some (Some p)"
  using assms unfolding tables_inv_def fd_entry_def by blast

lemma tables_inv_addr:
  assumes "tables_inv st" "addr_tab st a = Some w"
  obtains p s where "w = Some p" "p \<noteq> 0" "heap st p = Some s" "pico_socket s = a"
    "unat (client_id s) < length (clients st)" "fd_tab st (unat (client_id s)) (socket_fd s) = Some (Some p)"
  using assms unfolding tables_inv_def addr_entry_def by blast

lemma tables_inv_ev:
  "tables_inv st \<Longrightarrow> i < length (clients st) \<Longrightarrow> ev_tab st i fd \<noteq> None \<Longrightarrow> fd_tab st i fd \<noteq> None"
  unfolding tables_inv_def by blast

lemma get_client_ok: "unat cid < length (clients st) \<Longrightarrow> get_client st cid = Inr (clients st ! unat cid)"
  by (simp add: get_client_def)

lemma deref_ok: "p \<noteq> 0 \<Longrightarrow> m p = Some x \<Longrightarrow> deref m p = Inr x"
  by (simp add: deref_def)

lemma set_client_simps [simp]:
  "clients (set_client st cid c) = (clients st)[unat cid := c]" "heap (set_client st cid c) = heap st"
  "socket_addr_table (set_client st cid c) = socket_addr_table st" "num_clients (set_client st cid c) = num_clients st"
  by (simp_all add: set_client_def)

section \<open>Lookups\<close>

lemma client_get_socket_ok:
  assumes inv: "tables_inv st" and c: "unat cid < length (clients st)"
  shows "client_get_socket st cid fd = Inr (socket_of st (unat cid) fd)"
proof -
  note h = hashes_invD(1) [OF tables_inv_hashes [OF inv] c]
  show ?thesis
  proof (cases "fd_tab st (unat cid) fd")
    case None
    then show ?thesis
      using kh.lookup_none [OF h] by (simp add: client_get_socket_def get_client_ok [OF c] socket_of_def)
  next
    case (Some w)
    then obtain p where "fd_tab st (unat cid) fd = Some (Some p)"
      using tables_inv_fd [OF inv c] by metis
    then show ?thesis
      using kh.lookup_val [OF h] by (simp add: client_get_socket_def get_client_ok [OF c] socket_of_def)
  qed
qed

lemma client_get_socket_by_addr_ok:
  assumes inv: "tables_inv st"
  shows "client_get_socket_by_addr st a = Inr (Option.bind (addr_tab st a) id)"
proof -
  note h = hashes_invD(3) [OF tables_inv_hashes [OF inv]]
  show ?thesis
  proof (cases "addr_tab st a")
    case None
    then show ?thesis using kh.lookup_none [OF h] by (simp add: client_get_socket_by_addr_def)
  next
    case (Some w)
    then obtain p where "addr_tab st a = Some (Some p)" using tables_inv_addr [OF inv] by metis
    then show ?thesis using kh.lookup_val [OF h] by (simp add: client_get_socket_by_addr_def)
  qed
qed

lemma socket_of_cases:
  assumes inv: "tables_inv st" and i: "i < length (clients st)"
  obtains "socket_of st i fd = None" "fd_tab st i fd = None"
  | p s where "socket_of st i fd = Some p" "fd_tab st i fd = Some (Some p)" "p \<noteq> 0" "fd \<noteq> 0"
      "heap st p = Some s" "socket_fd s = fd" "unat (client_id s) = i"
      "addr_tab st (pico_socket s) = Some (Some p)"
proof (cases "fd_tab st i fd")
  case None
  then show ?thesis using that(1) by (simp add: socket_of_def)
next
  case (Some w)
  obtain p s where "w = Some p" "p \<noteq> 0" "fd \<noteq> 0" "heap st p = Some s" "socket_fd s = fd"
    "unat (client_id s) = i" "addr_tab st (pico_socket s) = Some (Some p)"
    by (rule tables_inv_fd [OF inv i Some])
  then show ?thesis using that(2) Some by (simp add: socket_of_def)
qed

section \<open>Free identifiers\<close>

definition int_max :: nat where
  "int_max = 2 ^ 31 - 1"

lemma mod_shift_inj:
  fixes i j b m :: nat
  assumes "(b + i) mod m = (b + j) mod m" and "i < m" and "j < m"
  shows "i = j"
  using assms
proof (induction i j rule: linorder_wlog)
  case (le i j)
  then have "m dvd (b + j) - (b + i)" by (metis add_le_cancel_left mod_eq_dvd_iff_nat)
  then have "m dvd j - i" by simp
  then show ?case using le by (cases "j - i = 0") (auto dest: dvd_imp_le)
next
  case (sym i j)
  from sym(1) [OF sym(2) [symmetric] sym(4) sym(3)] show ?case by simp
qed

lemma free_id_next:
  fixes cur :: u32
  assumes c: "unat cur = (b + k) mod int_max + 1"
  shows "unat (let cur = cur + 1 in if cur = 0x80000000 then 1 else cur) = (b + Suc k) mod int_max + 1"
proof -
  have m: "(b + k) mod int_max < int_max" by (simp add: int_max_def)
  have s: "unat (cur + 1) = (b + k) mod int_max + 2"
    using c m by (simp add: unat_word_ariths int_max_def)
  have e: "cur + 1 = 0x80000000 \<longleftrightarrow> (b + k) mod int_max = int_max - 1"
    using s by (simp add: word_unat_eq_iff int_max_def)
  have su: "(b + Suc k) mod int_max = (if Suc ((b + k) mod int_max) = int_max then 0 else Suc ((b + k) mod int_max))"
    by (simp add: mod_Suc)
  show ?thesis
    using e s su m by (auto simp: Let_def int_max_def)
qed

lemma free_id_loop_ok:
  assumes inv: "kh_inv kh_int_hash_func h" and room: "kh_room h" and old: "unat old = b + 1" "b < int_max"
  shows "unat cur = (b + k) mod int_max + 1 \<Longrightarrow> (\<forall>j<k. kh_abs h (of_nat ((b + j) mod int_max + 1)) \<noteq> None) \<Longrightarrow>
    k + fuel = unat (kh_size h) + 2 \<Longrightarrow>
    \<exists>c. free_id_loop h bump old fuel cur = Inr (c, c + 1) \<and> kh_abs h c = None \<and> 1 \<le> unat c \<and> unat c \<le> int_max"
proof (induction fuel arbitrary: cur k)
  case (0 cur k)
  have kle: "k \<le> int_max" using 0(3) room by (simp add: kh_room_def kh_capacity_def int_max_def)
  have inj: "inj_on (\<lambda>j. (of_nat ((b + j) mod int_max + 1) :: u32)) {..<k}"
  proof (rule inj_onI)
    fix i j assume ij: "i \<in> {..<k}" "j \<in> {..<k}"
      and e: "(of_nat ((b + i) mod int_max + 1) :: u32) = of_nat ((b + j) mod int_max + 1)"
    have "(b + i) mod int_max < int_max" "(b + j) mod int_max < int_max" by (simp_all add: int_max_def)
    then have "(b + i) mod int_max + 1 < 2 ^ 32" "(b + j) mod int_max + 1 < 2 ^ 32" by (simp_all add: int_max_def)
    then have "(b + i) mod int_max = (b + j) mod int_max"
      using arg_cong [OF e, of unat] unfolding unat_of_nat by simp
    then show "i = j" by (rule mod_shift_inj) (use ij kle in auto)
  qed
  have "(\<lambda>j. (of_nat ((b + j) mod int_max + 1) :: u32)) ` {..<k} \<subseteq> dom (kh_abs h)"
    using 0(2) by (auto simp: domIff)
  then have "k \<le> card (dom (kh_abs h))"
    using card_inj_on_le [OF inj _ kh_inv_finite [OF inv]] by simp
  then show ?case using 0(3) kh_inv_size [OF inv] by simp
next
  case (Suc fuel)
  have cb: "1 \<le> unat cur" "unat cur \<le> int_max"
    unfolding Suc(2) using mod_less_divisor [of int_max "b + k"] by (simp_all add: int_max_def)
  have cn: "of_nat ((b + k) mod int_max + 1) = cur" unfolding Suc(2) [symmetric] by simp
  show ?case
  proof (cases "kh_abs h cur")
    case None
    then show ?thesis using kh.get_missing [OF inv None] cb by simp
  next
    case (Some w)
    then obtain x where x: "int_get h cur = Inr x" "x \<noteq> kh_end h"
      using kh.get_present [OF inv] by (metis option.distinct(1))
    let ?nx = "let cur = cur + 1 in if cur = 0x80000000 then 1 else cur"
    note nx = free_id_next [OF Suc(2)]
    have hit: "\<forall>j<Suc k. kh_abs h (of_nat ((b + j) mod int_max + 1)) \<noteq> None"
      using Suc(3) Some cn by (auto simp: less_Suc_eq)
    have "Suc k < int_max" using Suc(4) room by (simp add: kh_room_def kh_capacity_def int_max_def)
    then have "(b + 0) mod int_max \<noteq> (b + Suc k) mod int_max"
      using mod_shift_inj [of b 0 int_max "Suc k"] by auto
    then have "old \<noteq> ?nx" using nx old by auto
    then have "free_id_loop h bump old (Suc fuel) cur = free_id_loop h bump old fuel ?nx"
      using x by (simp add: Let_def)
    moreover have "Suc k + fuel = unat (kh_size h) + 2" using Suc(4) by simp
    ultimately show ?thesis using Suc.IH [OF nx hit] by simp
  qed
qed

lemma find_free_id_ok:
  assumes inv: "hashes_inv st" and c: "unat cid < length (clients st)"
    and room: "kh_room (socket_table (clients st ! unat cid))"
    and b: "1 \<le> unat (bump_index (clients st ! unat cid))" "unat (bump_index (clients st ! unat cid)) \<le> int_max"
  obtains id where "find_free_id st cid =
      Inr (set_client st cid ((clients st ! unat cid)\<lparr>bump_index := id + 1\<rparr>), id)"
    and "fd_tab st (unat cid) id = None" and "1 \<le> unat id" and "unat id \<le> int_max"
proof -
  let ?c = "clients st ! unat cid"
  let ?b = "unat (bump_index ?c) - 1"
  have b1: "unat (bump_index ?c) = ?b + 1" "?b < int_max" using b by auto
  then have b2: "unat (bump_index ?c) = (?b + 0) mod int_max + 1" by simp
  have "\<exists>id. free_id_loop (socket_table ?c) (bump_index ?c) (bump_index ?c)
      (unat (kh_size (socket_table ?c)) + 2) (bump_index ?c) = Inr (id, id + 1) \<and>
      fd_tab st (unat cid) id = None \<and> 1 \<le> unat id \<and> unat id \<le> int_max"
    by (rule free_id_loop_ok [OF hashes_invD(1) [OF inv c] room b1 b2]) simp_all
  then show ?thesis using that by (auto simp: find_free_id_def get_client_ok [OF c])
qed

section \<open>Effects on the tables\<close>

text \<open>\<open>st'\<close> has the descriptors \<open>F\<close>, the addresses \<open>A\<close>, the event sets \<open>E\<close> and the structures \<open>H\<close>, for the
  same clients as \<open>st\<close>.\<close>

definition tabs_are :: "tables \<Rightarrow> tables \<Rightarrow> (nat \<Rightarrow> u32 \<Rightarrow> ptr option option) \<Rightarrow> (u64 \<Rightarrow> ptr option option)
    \<Rightarrow> (nat \<Rightarrow> u32 \<Rightarrow> unit option option) \<Rightarrow> (ptr \<Rightarrow> picoserver_socket option) \<Rightarrow> bool" where
  "tabs_are st' st F A E H \<longleftrightarrow> hashes_inv st' \<and> num_clients st' = num_clients st \<and>
     length (clients st') = length (clients st) \<and>
     (\<forall>i<length (clients st). fd_tab st' i = F i \<and> ev_tab st' i = E i) \<and>
     addr_tab st' = A \<and> heap st' = H"

lemma tabs_are_refl: "hashes_inv st \<Longrightarrow> tabs_are st st (fd_tab st) (addr_tab st) (ev_tab st) (heap st)"
  by (simp add: tabs_are_def)

lemma hashes_inv_set_client:
  assumes "hashes_inv st" "kh_inv kh_int_hash_func (socket_table c)" "kh_inv kh_int_hash_func (socket_event_set c)"
  shows "hashes_inv (set_client st cid c)"
proof -
  have n: "(clients st)[unat cid := c] ! i = (if unat cid = i then c else clients st ! i)"
    if "i < length (clients st)" for i
    using that by (cases "unat cid = i") auto
  then show ?thesis using assms by (auto simp: hashes_inv_def n)
qed

lemma fd_entryI:
  "fd \<noteq> 0 \<Longrightarrow> p \<noteq> 0 \<Longrightarrow> heap st p = Some s \<Longrightarrow> socket_fd s = fd \<Longrightarrow> unat (client_id s) = i \<Longrightarrow>
    addr_tab st (pico_socket s) = Some (Some p) \<Longrightarrow> fd_entry st i fd (Some p)"
  by (auto simp: fd_entry_def)

lemma addr_entryI:
  "p \<noteq> 0 \<Longrightarrow> heap st p = Some s \<Longrightarrow> pico_socket s = a \<Longrightarrow> unat (client_id s) < length (clients st) \<Longrightarrow>
    fd_tab st (unat (client_id s)) (socket_fd s) = Some (Some p) \<Longrightarrow> addr_entry st a (Some p)"
  by (auto simp: addr_entry_def)

text \<open>Replacing one client's record.\<close>

lemma tabs_are_set_client:
  assumes "tabs_are st' st F A E H" "unat cid < length (clients st)"
    and "kh_inv kh_int_hash_func (socket_table c)" "kh_inv kh_int_hash_func (socket_event_set c)"
    and "kh_abs (socket_table c) = f" "kh_abs (socket_event_set c) = e"
  shows "tabs_are (set_client st' cid c) st (F(unat cid := f)) A (E(unat cid := e)) H"
  using assms hashes_inv_set_client by (auto simp: tabs_are_def nth_list_update)

lemma tabs_are_addr:
  assumes "tabs_are st' st F A E H" "kh_inv kh_int64_hash_func at"
  shows "tabs_are (st'\<lparr>socket_addr_table := at\<rparr>) st F (kh_abs at) E H"
  using assms by (auto simp: tabs_are_def hashes_inv_def)

lemma tabs_are_heap:
  "tabs_are st' st F A E H \<Longrightarrow> tabs_are (st'\<lparr>heap := H'\<rparr>) st F A E H'"
  by (auto simp: tabs_are_def hashes_inv_def)

text \<open>Opening a socket: a fresh structure, a fresh PicoTCP address, a fresh descriptor.\<close>

lemma tables_inv_open:
  assumes inv: "tables_inv st" and c: "i < length (clients st)"
    and p: "p \<noteq> 0" "heap st p = None" and a: "addr_tab st (pico_socket s) = None"
    and fd: "fd_tab st i fd = None" "fd \<noteq> 0" "socket_fd s = fd" "unat (client_id s) = i"
    and t: "tabs_are st' st ((fd_tab st)(i := (fd_tab st i)(fd \<mapsto> Some p)))
      ((addr_tab st)(pico_socket s \<mapsto> Some p)) (ev_tab st) ((heap st)(p \<mapsto> s))"
  shows "tables_inv st'"
proof -
  let ?a = "pico_socket s"
  have h: "hashes_inv st'" "num_clients st' = num_clients st" "length (clients st') = length (clients st)"
    and F: "\<And>j. j < length (clients st) \<Longrightarrow> fd_tab st' j = ((fd_tab st)(i := (fd_tab st i)(fd \<mapsto> Some p))) j"
    and E: "\<And>j. j < length (clients st) \<Longrightarrow> ev_tab st' j = ev_tab st j"
    and A: "addr_tab st' = (addr_tab st)(?a \<mapsto> Some p)" and H: "heap st' = (heap st)(p \<mapsto> s)"
    using t by (auto simp: tabs_are_def)
  have fds: "fd_entry st' j g w" if j: "j < length (clients st)" and w: "fd_tab st' j g = Some w" for j g w
  proof (cases "j = i \<and> g = fd")
    case True
    then have "w = Some p" using w F [OF j] by simp
    then show ?thesis using True fd p A H by (auto intro: fd_entryI)
  next
    case False
    then have "fd_tab st j g = Some w" using w F [OF j] by (auto split: if_splits)
    then obtain q u where q: "w = Some q" "q \<noteq> 0" "g \<noteq> 0" "heap st q = Some u" "socket_fd u = g"
      "unat (client_id u) = j" "addr_tab st (pico_socket u) = Some (Some q)"
      by (rule tables_inv_fd [OF inv j])
    then have "q \<noteq> p" "pico_socket u \<noteq> ?a" using p a by auto
    then show ?thesis using q A H by (auto intro: fd_entryI)
  qed
  have adr: "addr_entry st' b w" if w: "addr_tab st' b = Some w" for b w
  proof (cases "b = ?a")
    case True
    then have "w = Some p" using w A by simp
    moreover have "fd_tab st' (unat (client_id s)) (socket_fd s) = Some (Some p)" using F [OF c] fd by simp
    ultimately show ?thesis using True H p c fd h by (auto intro: addr_entryI)
  next
    case False
    then have "addr_tab st b = Some w" using w A by simp
    then obtain q u where q: "w = Some q" "q \<noteq> 0" "heap st q = Some u" "pico_socket u = b"
      "unat (client_id u) < length (clients st)" "fd_tab st (unat (client_id u)) (socket_fd u) = Some (Some q)"
      by (rule tables_inv_addr [OF inv])
    have "fd_tab st' (unat (client_id u)) (socket_fd u) = Some (Some q)"
      using F [OF q(5)] q(6) fd(1) by auto
    moreover have "q \<noteq> p" using q(3) p by auto
    ultimately show ?thesis using q H h by (auto intro: addr_entryI)
  qed
  have ev: "dom (ev_tab st' j) \<subseteq> dom (fd_tab st' j)" if j: "j < length (clients st)" for j
    using tables_inv_ev [OF inv j] F [OF j] E [OF j] by (auto simp: domIff)
  show ?thesis
    unfolding tables_inv_def using inv h fds adr ev by (simp add: tables_inv_def)
qed

text \<open>Closing one.\<close>

lemma tables_inv_close:
  assumes inv: "tables_inv st" and c: "i < length (clients st)"
    and s: "fd_tab st i fd = Some (Some p)" "heap st p = Some s"
    and t: "tabs_are st' st ((fd_tab st)(i := (fd_tab st i)(fd := None)))
      ((addr_tab st)(pico_socket s := None)) ((ev_tab st)(i := (ev_tab st i)(fd := None))) ((heap st)(p := None))"
  shows "tables_inv st'"
proof -
  let ?a = "pico_socket s"
  have own: "socket_fd s = fd" "unat (client_id s) = i" "addr_tab st ?a = Some (Some p)"
    using tables_inv_fd [OF inv c s(1)] s(2) by (metis option.inject)+
  have h: "hashes_inv st'" "num_clients st' = num_clients st" "length (clients st') = length (clients st)"
    and F: "\<And>j. j < length (clients st) \<Longrightarrow> fd_tab st' j = ((fd_tab st)(i := (fd_tab st i)(fd := None))) j"
    and E: "\<And>j. j < length (clients st) \<Longrightarrow> ev_tab st' j = ((ev_tab st)(i := (ev_tab st i)(fd := None))) j"
    and A: "addr_tab st' = (addr_tab st)(?a := None)" and H: "heap st' = (heap st)(p := None)"
    using t by (auto simp: tabs_are_def)
  have fds: "fd_entry st' j g w" if j: "j < length (clients st)" and w: "fd_tab st' j g = Some w" for j g w
  proof -
    have o: "fd_tab st j g = Some w" "\<not> (j = i \<and> g = fd)" using w F [OF j] by (auto split: if_splits)
    obtain q u where q: "w = Some q" "q \<noteq> 0" "g \<noteq> 0" "heap st q = Some u" "socket_fd u = g"
      "unat (client_id u) = j" "addr_tab st (pico_socket u) = Some (Some q)"
      by (rule tables_inv_fd [OF inv j o(1)])
    have "q \<noteq> p" using q(4-6) o(2) own s(2) by auto
    then have "pico_socket u \<noteq> ?a" using q(7) own(3) by auto
    then show ?thesis using q A H \<open>q \<noteq> p\<close> by (auto intro: fd_entryI)
  qed
  have adr: "addr_entry st' b w" if w: "addr_tab st' b = Some w" for b w
  proof -
    have b: "b \<noteq> ?a" "addr_tab st b = Some w" using w A by (auto split: if_splits)
    obtain q u where q: "w = Some q" "q \<noteq> 0" "heap st q = Some u" "pico_socket u = b"
      "unat (client_id u) < length (clients st)" "fd_tab st (unat (client_id u)) (socket_fd u) = Some (Some q)"
      by (rule tables_inv_addr [OF inv b(2)])
    have qp: "q \<noteq> p" using q(3,4) b(1) s(2) by auto
    then have "\<not> (unat (client_id u) = i \<and> socket_fd u = fd)" using q(6) s(1) by auto
    then have "fd_tab st' (unat (client_id u)) (socket_fd u) = Some (Some q)"
      using F [OF q(5)] q(6) by auto
    then show ?thesis using q H h qp by (auto intro: addr_entryI)
  qed
  have ev: "dom (ev_tab st' j) \<subseteq> dom (fd_tab st' j)" if j: "j < length (clients st)" for j
    using tables_inv_ev [OF inv j] F [OF j] E [OF j] by (auto simp: domIff)
  show ?thesis
    unfolding tables_inv_def using inv h fds adr ev by (simp add: tables_inv_def)
qed

text \<open>Changing neither descriptors nor addresses, only event sets and the fields of a structure that
  the tables do not mention.\<close>

definition same_identity :: "picoserver_socket \<Rightarrow> picoserver_socket \<Rightarrow> bool" where
  "same_identity s s' \<longleftrightarrow> socket_fd s' = socket_fd s \<and> client_id s' = client_id s \<and> pico_socket s' = pico_socket s"

lemma tables_inv_fields:
  assumes inv: "tables_inv st"
    and t: "tabs_are st' st (fd_tab st) (addr_tab st) E H"
    and H: "\<And>p s. heap st p = Some s \<Longrightarrow> \<exists>s'. H p = Some s' \<and> same_identity s s'"
    and E: "\<And>i. i < length (clients st) \<Longrightarrow> dom (E i) \<subseteq> dom (fd_tab st i)"
  shows "tables_inv st'"
proof -
  have h: "hashes_inv st'" "num_clients st' = num_clients st" "length (clients st') = length (clients st)"
    and F: "\<And>j. j < length (clients st) \<Longrightarrow> fd_tab st' j = fd_tab st j \<and> ev_tab st' j = E j"
    and A: "addr_tab st' = addr_tab st" and H': "heap st' = H"
    using t by (auto simp: tabs_are_def)
  have fds: "fd_entry st' j g w" if j: "j < length (clients st)" and w: "fd_tab st' j g = Some w" for j g w
    using w F [OF j] A H' H inv j unfolding tables_inv_def fd_entry_def same_identity_def by metis
  have adr: "addr_entry st' b w" if w: "addr_tab st' b = Some w" for b w
  proof -
    have "addr_tab st b = Some w" using w A by simp
    then obtain q u where q: "w = Some q" "q \<noteq> 0" "heap st q = Some u" "pico_socket u = b"
      "unat (client_id u) < length (clients st)" "fd_tab st (unat (client_id u)) (socket_fd u) = Some (Some q)"
      by (rule tables_inv_addr [OF inv])
    moreover obtain u' where "H q = Some u'" "same_identity u u'" using H q(3) by blast
    ultimately show ?thesis using F [OF q(5)] h H' by (auto simp: addr_entry_def same_identity_def)
  qed
  show ?thesis
    unfolding tables_inv_def using inv h fds adr E F by (auto simp: tables_inv_def)
qed

section \<open>Inserting a socket\<close>

text \<open>The tables have room and the descriptor counter of the client is positive.\<close>

definition roomy :: "tables \<Rightarrow> nat \<Rightarrow> bool" where
  "roomy st i \<longleftrightarrow> kh_room (socket_table (clients st ! i)) \<and> kh_room (socket_event_set (clients st ! i)) \<and>
     kh_room (socket_addr_table st) \<and> 1 \<le> unat (bump_index (clients st ! i)) \<and>
     unat (bump_index (clients st ! i)) \<le> int_max"

lemma tabs_are_client:
  assumes "tabs_are st' st F A E H" "unat cid < length (clients st)"
    and "kh_inv kh_int_hash_func (socket_table c)" "kh_inv kh_int_hash_func (socket_event_set c)"
    and "F' = F(unat cid := kh_abs (socket_table c))" "E' = E(unat cid := kh_abs (socket_event_set c))"
  shows "tabs_are (set_client st' cid c) st F' A E' H"
  using tabs_are_set_client [OF assms(1-4) refl refl] assms(5,6) by simp

lemma client_put_socket_fresh:
  assumes inv: "hashes_inv st" and cid: "cid < scast (num_clients st)" and c: "unat cid < length (clients st)"
    and p: "p \<noteq> 0" "heap st p = Some s" and a: "addr_tab st (pico_socket s) = None"
    and room: "roomy st (unat cid)"
  obtains st' where "client_put_socket a1 a2 st cid p = Inr (st', -1)" "\<not> (kalloc_ok a1 \<and> kalloc_ok a2)"
    "tabs_are st' st (fd_tab st) (addr_tab st) (ev_tab st) (heap st)"
  | st' fd where "client_put_socket a1 a2 st cid p = Inr (st', fd)" "fd_tab st (unat cid) fd = None"
    "1 \<le> unat fd" "unat fd \<le> int_max"
    "tabs_are st' st ((fd_tab st)(unat cid := (fd_tab st (unat cid))(fd \<mapsto> Some p)))
      ((addr_tab st)(pico_socket s \<mapsto> Some p)) (ev_tab st) (heap st)"
proof -
  let ?i = "unat cid" and ?c = "clients st ! unat cid"
  have rooms: "kh_room (socket_table ?c)" "kh_room (socket_addr_table st)"
    "1 \<le> unat (bump_index ?c)" "unat (bump_index ?c) \<le> int_max"
    using room by (auto simp: roomy_def)
  note ht = hashes_invD(1) [OF inv c] and he = hashes_invD(2) [OF inv c] and ha = hashes_invD(3) [OF inv]
  obtain fd where f: "find_free_id st cid = Inr (set_client st cid (?c\<lparr>bump_index := fd + 1\<rparr>), fd)"
    and fr: "fd_tab st ?i fd = None" "1 \<le> unat fd" "unat fd \<le> int_max"
    by (rule find_free_id_ok [OF inv c rooms(1,3,4)])
  have fd0: "fd \<noteq> 0" using fr(2) by auto
  let ?c1 = "?c\<lparr>bump_index := fd + 1\<rparr>" and ?st1 = "set_client st cid (?c\<lparr>bump_index := fd + 1\<rparr>)"
  have g1: "get_client ?st1 cid = Inr ?c1" using c by (simp add: get_client_def)
  have t0: "tabs_are st st (fd_tab st) (addr_tab st) (ev_tab st) (heap st)" using inv by (rule tabs_are_refl)
  have t1: "tabs_are ?st1 st (fd_tab st) (addr_tab st) (ev_tab st) (heap st)"
    by (rule tabs_are_client [OF t0 c]) (use ht he in \<open>simp_all add: fun_eq_iff\<close>)
  note start = client_put_socket_def f g1 ensure_True obind_Inr
  obtain t x ret where pt: "int_put a1 (socket_table ?c) fd = Inr (t, x, ret)" "kh_inv kh_int_hash_func t"
      "if ret = PutFailed then \<not> kalloc_ok a1 \<and> kh_abs t = fd_tab st ?i
       else kh_points t x fd \<and> (ret = PutPresent \<longleftrightarrow> fd_tab st ?i fd \<noteq> None) \<and>
         (if ret = PutPresent then kh_abs t = fd_tab st ?i else (\<exists>w. kh_abs t = (fd_tab st ?i)(fd \<mapsto> w)))"
    using kh.put_law [OF ht rooms(1), of a1 fd] by blast
  show ?thesis
  proof (cases "ret = PutFailed")
    case True
    have "tabs_are (set_client ?st1 cid (?c1\<lparr>socket_table := t\<rparr>)) st (fd_tab st) (addr_tab st) (ev_tab st) (heap st)"
      by (rule tabs_are_client [OF t1 c])
        (use he pt True in \<open>simp_all add: fun_eq_iff\<close>)
    moreover have "client_put_socket a1 a2 st cid p = Inr (set_client ?st1 cid (?c1\<lparr>socket_table := t\<rparr>), -1)"
      using cid p(1) fd0 pt(1) True by (simp add: start)
    ultimately show ?thesis using that(1) pt(3) True by auto
  next
    case False
    then have np: "ret \<noteq> PutPresent" using pt(3) fr(1) by auto
    obtain t2 where t2: "kh_set_val t x p = Inr t2" "kh_inv kh_int_hash_func t2"
      "kh_abs t2 = (fd_tab st ?i)(fd \<mapsto> Some p)" "kh_points t2 x fd"
      by (rule kh.put_set_val [OF ht rooms(1) pt(1) False])
    obtain at y ret2 where pa: "addr_put a2 (socket_addr_table st) (pico_socket s) = Inr (at, y, ret2)"
      "kh_inv kh_int64_hash_func at"
      "if ret2 = PutFailed then \<not> kalloc_ok a2 \<and> kh_abs at = addr_tab st
       else kh_points at y (pico_socket s) \<and> (ret2 = PutPresent \<longleftrightarrow> addr_tab st (pico_socket s) \<noteq> None) \<and>
         (if ret2 = PutPresent then kh_abs at = addr_tab st
          else (\<exists>w. kh_abs at = (addr_tab st)(pico_socket s \<mapsto> w)))"
      using kh.put_law [OF ha rooms(2), of a2 "pico_socket s"] by blast
    have d: "deref (heap st) p = Inr s" using p by (simp add: deref_ok)
    note mid = start pt(1) t2(1) d pa(1)
    show ?thesis
    proof (cases "ret2 = PutFailed")
      case True
      obtain t3 where t3: "kh_del t2 x = Inr t3" "kh_inv kh_int_hash_func t3" "kh_abs t3 = (kh_abs t2)(fd := None)"
        using kh.del_law [OF t2(2,4)] by blast
      have ab: "kh_abs t3 = fd_tab st ?i" unfolding t3(3) t2(3) using fr(1) by (simp add: fun_upd_idem)
      let ?st2 = "set_client (?st1\<lparr>socket_addr_table := at\<rparr>) cid (?c1\<lparr>socket_table := t3\<rparr>)"
      have "tabs_are (?st1\<lparr>socket_addr_table := at\<rparr>) st (fd_tab st) (addr_tab st) (ev_tab st) (heap st)"
        using tabs_are_addr [OF t1 pa(2)] pa(3) True by simp
      then have "tabs_are ?st2 st (fd_tab st) (addr_tab st) (ev_tab st) (heap st)"
        by (rule tabs_are_client [OF _ c])
          (use he t3 ab in \<open>simp_all add: fun_eq_iff\<close>)
      moreover have "client_put_socket a1 a2 st cid p = Inr (?st2, -1)"
        using cid p(1) fd0 False np True t3(1) by (simp add: mid)
      ultimately show ?thesis using that(1) pa(3) True by auto
    next
      case f2: False
      then have np2: "ret2 \<noteq> PutPresent" using pa(3) a by auto
      obtain at2 where at2: "kh_set_val at y p = Inr at2" "kh_inv kh_int64_hash_func at2"
        "kh_abs at2 = (addr_tab st)(pico_socket s \<mapsto> Some p)"
        by (rule kh.put_set_val [OF ha rooms(2) pa(1) f2])
      let ?st2 = "set_client (?st1\<lparr>socket_addr_table := at\<rparr>) cid (?c1\<lparr>socket_table := t2\<rparr>)"
      have "tabs_are ?st2 st ((fd_tab st)(?i := (fd_tab st ?i)(fd \<mapsto> Some p))) (kh_abs at) (ev_tab st) (heap st)"
        by (rule tabs_are_client [OF tabs_are_addr [OF t1 pa(2)] c])
          (use he t2 in \<open>simp_all add: fun_eq_iff\<close>)
      then have t3: "tabs_are (?st2\<lparr>socket_addr_table := at2\<rparr>) st ((fd_tab st)(?i := (fd_tab st ?i)(fd \<mapsto> Some p)))
          ((addr_tab st)(pico_socket s \<mapsto> Some p)) (ev_tab st) (heap st)"
        using tabs_are_addr [OF _ at2(2)] at2(3) by metis
      moreover have "client_put_socket a1 a2 st cid p = Inr (?st2\<lparr>socket_addr_table := at2\<rparr>, fd)"
        using cid p(1) fd0 False np f2 np2 at2(1) by (simp add: mid)
      ultimately show ?thesis using that(2) fr by blast
    qed
  qed
qed

section \<open>Removing a socket\<close>

lemma client_delete_socket_ok:
  assumes inv: "tables_inv st" and c: "unat cid < length (clients st)"
    and s: "fd_tab st (unat cid) fd = Some (Some p)" "heap st p = Some s"
  obtains st' where "client_delete_socket st cid fd = Inr (st', Some (pico_socket s), 0)"
    and "tabs_are st' st ((fd_tab st)(unat cid := (fd_tab st (unat cid))(fd := None)))
      ((addr_tab st)(pico_socket s := None)) ((ev_tab st)(unat cid := (ev_tab st (unat cid))(fd := None)))
      ((heap st)(p := None))"
proof -
  let ?i = "unat cid" and ?c = "clients st ! unat cid" and ?a = "pico_socket s"
  have hv: "hashes_inv st" using inv by (rule tables_inv_hashes)
  note ht = hashes_invD(1) [OF hv c] and he = hashes_invD(2) [OF hv c] and ha = hashes_invD(3) [OF hv]
  have p: "p \<noteq> 0" "addr_tab st ?a = Some (Some p)"
    using tables_inv_fd [OF inv c s(1)] s(2) by (metis option.inject)+
  obtain x where x: "int_get (socket_table ?c) fd = Inr x" "kh_points (socket_table ?c) x fd" "x \<noteq> kh_end (socket_table ?c)"
    using kh.get_present [OF ht, of fd] s(1) by auto
  have xv: "kh_val (socket_table ?c) x = Inr p" by (rule kh.val_law [OF ht x(2) s(1)])
  obtain y where y: "addr_get (socket_addr_table st) ?a = Inr y" "kh_points (socket_addr_table st) y ?a"
      "y \<noteq> kh_end (socket_addr_table st)"
    using kh.get_present [OF ha, of ?a] p(2) by auto
  obtain t where t: "kh_del (socket_table ?c) x = Inr t" "kh_inv kh_int_hash_func t" "kh_abs t = (fd_tab st ?i)(fd := None)"
    using kh.del_law [OF ht x(2)] by blast
  obtain at where at: "kh_del (socket_addr_table st) y = Inr at" "kh_inv kh_int64_hash_func at"
      "kh_abs at = (addr_tab st)(?a := None)"
    using kh.del_law [OF ha y(2)] by blast
  obtain z where z: "int_get (socket_event_set ?c) fd = Inr z"
    using kh.get_law [OF he] by blast
  obtain es where es: "obind (int_get (socket_event_set ?c) fd)
      (\<lambda>i. if i = kh_end (socket_event_set ?c) then Inr (socket_event_set ?c) else kh_del (socket_event_set ?c) i) = Inr es"
    "kh_inv kh_int_hash_func es" "kh_abs es = (ev_tab st ?i)(fd := None)"
    by (rule kh.get_del [OF he])
  have es1: "(if z \<noteq> kh_end (socket_event_set ?c) then kh_del (socket_event_set ?c) z else Inr (socket_event_set ?c)) = Inr es"
    using es(1) z by (simp split: if_splits)
  let ?st' = "set_client (st\<lparr>heap := (heap st)(p := None), socket_addr_table := at\<rparr>) cid
    (?c\<lparr>socket_table := t, socket_event_set := es\<rparr>)"
  have "client_delete_socket st cid fd = Inr (?st', Some ?a, 0)"
    unfolding client_delete_socket_def get_client_ok [OF c] obind_Inr x(1) xv if_not_P [OF x(3)]
    using p(1) s(2) y z t(1) at(1) es1 by (simp add: deref_def free_ptr_def)
  moreover have "tabs_are ?st' st ((fd_tab st)(?i := (fd_tab st ?i)(fd := None)))
      ((addr_tab st)(?a := None)) ((ev_tab st)(?i := (ev_tab st ?i)(fd := None))) ((heap st)(p := None))"
  proof (rule tabs_are_client [OF _ c])
    have "tabs_are (st\<lparr>heap := (heap st)(p := None)\<rparr>) st (fd_tab st) (addr_tab st) (ev_tab st) ((heap st)(p := None))"
      by (rule tabs_are_heap [OF tabs_are_refl [OF hv]])
    from tabs_are_addr [OF this at(2)] show "tabs_are (st\<lparr>heap := (heap st)(p := None), socket_addr_table := at\<rparr>) st
        (fd_tab st) ((addr_tab st)(?a := None)) (ev_tab st) ((heap st)(p := None))"
      using at(3) by simp
  qed (use t es in \<open>simp_all add: fun_eq_iff\<close>)
  ultimately show ?thesis using that by blast
qed

lemma client_delete_socket_none:
  assumes inv: "tables_inv st" and c: "unat cid < length (clients st)" and "fd_tab st (unat cid) fd = None"
  shows "client_delete_socket st cid fd = Inr (st, None, -1)"
  using kh.get_missing [OF hashes_invD(1) [OF tables_inv_hashes [OF inv] c] assms(3)]
  by (simp add: client_delete_socket_def get_client_ok [OF c])

section \<open>Events\<close>

lemma client_put_event_ok:
  assumes inv: "tables_inv st" and c: "unat cid < length (clients st)"
    and room: "kh_room (socket_event_set (clients st ! unat cid))"
    and s: "fd_tab st (unat cid) fd = Some (Some p)" "heap st p = Some s"
  obtains st' r e where "client_put_event a st cid fd ev = Inr (st', r)"
    and "tabs_are st' st (fd_tab st) (addr_tab st) ((ev_tab st)(unat cid := e))
      ((heap st)(p \<mapsto> s\<lparr>events := events s OR ev\<rparr>))"
    and "if r = 0 then e fd \<noteq> None \<and> (\<forall>g. g \<noteq> fd \<longrightarrow> e g = ev_tab st (unat cid) g)
      else r = -1 \<and> \<not> kalloc_ok a \<and> e = ev_tab st (unat cid)"
proof -
  let ?i = "unat cid" and ?c = "clients st ! unat cid"
  have hv: "hashes_inv st" using inv by (rule tables_inv_hashes)
  note ht = hashes_invD(1) [OF hv c] and he = hashes_invD(2) [OF hv c]
  have p: "p \<noteq> 0" using tables_inv_fd [OF inv c s(1)] by (metis option.inject)
  have g: "client_get_socket st cid fd = Inr (Some p)"
    using client_get_socket_ok [OF inv c] s(1) by (simp add: socket_of_def)
  let ?H = "(heap st)(p \<mapsto> s\<lparr>events := events s OR ev\<rparr>)"
  let ?st1 = "st\<lparr>heap := ?H\<rparr>"
  have t1: "tabs_are ?st1 st (fd_tab st) (addr_tab st) (ev_tab st) ?H"
    by (rule tabs_are_heap [OF tabs_are_refl [OF hv]])
  obtain es x ret where e: "int_put a (socket_event_set ?c) fd = Inr (es, x, ret)" "kh_inv kh_int_hash_func es"
      "if ret = PutFailed then \<not> kalloc_ok a \<and> kh_abs es = ev_tab st ?i
       else kh_points es x fd \<and> (ret = PutPresent \<longleftrightarrow> ev_tab st ?i fd \<noteq> None) \<and>
         (if ret = PutPresent then kh_abs es = ev_tab st ?i else (\<exists>w. kh_abs es = (ev_tab st ?i)(fd \<mapsto> w)))"
    using kh.put_law [OF he room, of a fd] by blast
  let ?st' = "set_client ?st1 cid (?c\<lparr>socket_event_set := es\<rparr>)" and ?r = "if ret = PutFailed then -1 else 0 :: cint"
  have "client_put_event a st cid fd ev = Inr (?st', ?r)"
    using g p s(2) e(1) c by (simp add: client_put_event_def deref_def Let_def get_client_def)
  moreover have "tabs_are ?st' st (fd_tab st) (addr_tab st) ((ev_tab st)(?i := kh_abs es)) ?H"
    by (rule tabs_are_client [OF t1 c]) (use ht e in \<open>simp_all add: fun_eq_iff\<close>)
  moreover have "if ?r = 0 then kh_abs es fd \<noteq> None \<and> (\<forall>g. g \<noteq> fd \<longrightarrow> kh_abs es g = ev_tab st ?i g)
      else ?r = -1 \<and> \<not> kalloc_ok a \<and> kh_abs es = ev_tab st ?i"
    using e(3) by (auto split: if_splits)
  ultimately show ?thesis using that by blast
qed

lemma kh_exist_ok:
  assumes "kh_inv hf h" and "x < kh_end h"
  shows "kh_exist h x = Inr (unat x \<in> live (kh_flags h) (unat (n_buckets h)))"
proof -
  have "unat x < unat (n_buckets h)" using assms(2) by (simp add: kh_end_def word_less_nat_alt)
  then show ?thesis
    using kh_inv_ents(5) [OF assms(1)] by (auto simp: kh_exist_def live_def)
qed

lemma first_event_ok:
  assumes inv: "kh_inv kh_int_hash_func es" 
  shows "unat iter + fuel = unat (kh_end es) \<Longrightarrow>
    (\<forall>i\<in>live (kh_flags es) (unat (n_buckets es)). unat iter \<le> i) \<Longrightarrow>
    (kh_abs es = Map.empty \<and> first_event es fuel iter = Inr (es, 0)) \<or>
    (\<exists>es' fd. first_event es fuel iter = Inr (es', fd) \<and> kh_abs es fd \<noteq> None \<and> kh_inv kh_int_hash_func es' \<and>
      kh_abs es' = (kh_abs es)(fd := None))"
proof (induction fuel arbitrary: iter)
  case 0
  then have nl: "live (kh_flags es) (unat (n_buckets es)) = {}"
    by (force simp: kh_end_def dest: live_less)
  have "kh_abs es k = None" for k
    using kh_inv_ents(1) [OF inv, of k] nl by (cases "kh_abs es k") (auto simp: all_ents_def)
  then have "kh_abs es = Map.empty" by (intro ext)
  then show ?case using 0 by (simp add: word_less_nat_alt)
next
  case (Suc fuel)
  have lt: "iter < kh_end es" using Suc(2) by (simp add: word_less_nat_alt)
  show ?case
  proof (cases "unat iter \<in> live (kh_flags es) (unat (n_buckets es))")
    case True
    obtain k where k: "kh_keys es ! unat iter = Some k" using kh_inv_ents(4) [OF inv] True by blast
    then have pt: "kh_points es iter k" using True by (simp add: kh_points_def)
    obtain es' where d: "kh_del es iter = Inr es'" "kh_inv kh_int_hash_func es'" "kh_abs es' = (kh_abs es)(k := None)"
      using kh.del_law [OF inv pt] by blast
    have "kh_key es iter = Inr k"
      using k kh_inv_ents(6) [OF inv] live_less [OF True] by (simp add: kh_key_def key_at_def)
    then have "first_event es (Suc fuel) iter = Inr (es', k)"
      using lt kh_exist_ok [OF inv lt] True d(1) by simp
    then show ?thesis using d(2,3) kh.points_law [OF inv pt] by blast
  next
    case False
    have "unat (kh_end es) < 2 ^ LENGTH(32)" by (rule unsigned_less)
    then have s: "unat (iter + 1) = Suc (unat iter)" using Suc(2) by (simp add: unat_word_ariths)
    have "\<forall>i\<in>live (kh_flags es) (unat (n_buckets es)). unat (iter + 1) \<le> i"
      using Suc(3) False unfolding s by (metis Suc_leI order_le_less)
    from Suc.IH [OF _ this] show ?thesis using Suc(2) s lt kh_exist_ok [OF inv lt] False by simp
  qed
qed

lemma client_get_event_ok:
  assumes inv: "tables_inv st" and c: "unat cid < length (clients st)"
  obtains st' where "ev_tab st (unat cid) = Map.empty" "client_get_event st cid ev0 = Inr (st', ev0)"
      "tabs_are st' st (fd_tab st) (addr_tab st) (ev_tab st) (heap st)"
  | st' fd p s where "ev_tab st (unat cid) fd \<noteq> None" "fd_tab st (unat cid) fd = Some (Some p)" "heap st p = Some s"
      "client_get_event st cid ev0 = Inr (st', \<lparr>ev_socket_fd = fd, ev_events = events s,
         ev_num_left = of_nat (card (dom (ev_tab st (unat cid)) - {fd}))\<rparr>)"
      "tabs_are st' st (fd_tab st) (addr_tab st) ((ev_tab st)(unat cid := (ev_tab st (unat cid))(fd := None)))
        ((heap st)(p \<mapsto> s\<lparr>events := 0\<rparr>))"
proof -
  let ?i = "unat cid" and ?c = "clients st ! unat cid"
  have hv: "hashes_inv st" using inv by (rule tables_inv_hashes)
  note ht = hashes_invD(1) [OF hv c] and he = hashes_invD(2) [OF hv c]
  have "kh_abs (socket_event_set ?c) = Map.empty \<and>
      first_event (socket_event_set ?c) (unat (kh_end (socket_event_set ?c))) kh_begin = Inr (socket_event_set ?c, 0) \<or>
    (\<exists>es' fd. first_event (socket_event_set ?c) (unat (kh_end (socket_event_set ?c))) kh_begin = Inr (es', fd) \<and>
      ev_tab st ?i fd \<noteq> None \<and> kh_inv kh_int_hash_func es' \<and> kh_abs es' = (ev_tab st ?i)(fd := None))"
    by (rule first_event_ok [OF he]) (simp_all add: kh_begin_def)
  then show ?thesis
  proof (elim disjE exE conjE)
    assume e: "kh_abs (socket_event_set ?c) = Map.empty"
      "first_event (socket_event_set ?c) (unat (kh_end (socket_event_set ?c))) kh_begin = Inr (socket_event_set ?c, 0)"
    let ?st' = "set_client st cid (?c\<lparr>socket_event_set := socket_event_set ?c\<rparr>)"
    have "client_get_event st cid ev0 = Inr (?st', ev0)"
      using e(2) by (simp add: client_get_event_def get_client_ok [OF c] Let_def)
    moreover have "tabs_are ?st' st (fd_tab st) (addr_tab st) (ev_tab st) (heap st)"
      by (rule tabs_are_client [OF tabs_are_refl [OF hv] c]) (use ht he in \<open>simp_all add: fun_eq_iff\<close>)
    ultimately show ?thesis using that(1) e(1) by simp
  next
    fix es' fd
    assume e: "first_event (socket_event_set ?c) (unat (kh_end (socket_event_set ?c))) kh_begin = Inr (es', fd)"
      "ev_tab st ?i fd \<noteq> None" "kh_inv kh_int_hash_func es'" "kh_abs es' = (ev_tab st ?i)(fd := None)"
    have "fd_tab st ?i fd \<noteq> None" by (rule tables_inv_ev [OF inv c e(2)])
    then obtain w where "fd_tab st ?i fd = Some w" by auto
    then obtain p s where p: "fd_tab st ?i fd = Some (Some p)" "p \<noteq> 0" "fd \<noteq> 0" "heap st p = Some s"
      using tables_inv_fd [OF inv c] by metis
    let ?st1 = "set_client st cid (?c\<lparr>socket_event_set := es'\<rparr>)"
    have t1: "tabs_are ?st1 st (fd_tab st) (addr_tab st) ((ev_tab st)(?i := (ev_tab st ?i)(fd := None))) (heap st)"
      by (rule tabs_are_client [OF tabs_are_refl [OF hv] c]) (use ht e in \<open>simp_all add: fun_eq_iff\<close>)
    have "tables_inv ?st1"
      by (rule tables_inv_fields [OF inv t1])
        (use tables_inv_ev [OF inv] in \<open>auto simp: same_identity_def domIff split: if_splits\<close>)
    then have g: "client_get_socket ?st1 cid fd = Inr (Some p)"
      using client_get_socket_ok c p(1) by (simp add: socket_of_def)
    have sz: "kh_size es' = of_nat (card (dom (ev_tab st ?i) - {fd}))"
    proof -
      have "card (dom (ev_tab st ?i) - {fd}) = unat (kh_size es')"
        using kh_inv_size [OF e(3)] e(4) by simp
      then show ?thesis by simp
    qed
    have "client_get_event st cid ev0 = Inr (?st1\<lparr>heap := (heap st)(p \<mapsto> s\<lparr>events := 0\<rparr>)\<rparr>,
        \<lparr>ev_socket_fd = fd, ev_events = events s, ev_num_left = of_nat (card (dom (ev_tab st ?i) - {fd}))\<rparr>)"
      using e(1) g p sz by (simp add: client_get_event_def get_client_ok [OF c] Let_def deref_def)
    moreover note tabs_are_heap [OF t1, of "(heap st)(p \<mapsto> s\<lparr>events := 0\<rparr>)"]
    ultimately show ?thesis using that(2) e(2) p by blast
  qed
qed

section \<open>Properties\<close>

text \<open>
  While the counter of a client has not passed \<open>INT_MAX\<close>, the search for a descriptor ends (within
  one round per socket of the client, plus one) with a number that the client does not use, which is
  positive as an \<open>int\<close> and so never the 0 that stands for failure.
\<close>
theorem socket_descriptors_fresh:
  assumes "hashes_inv st" and "unat cid < length (clients st)" and "roomy st (unat cid)"
  shows "\<exists>id st'. find_free_id st cid = Inr (st', id) \<and> fd_tab st (unat cid) id = None \<and> 0 < sint id \<and>
    fd_tab st' (unat cid) = fd_tab st (unat cid) \<and> bump_index (clients st' ! unat cid) = id + 1"
proof -
  obtain id where f: "find_free_id st cid =
      Inr (set_client st cid ((clients st ! unat cid)\<lparr>bump_index := id + 1\<rparr>), id)"
    "fd_tab st (unat cid) id = None" "1 \<le> unat id" "unat id \<le> int_max"
    using find_free_id_ok [OF assms(1,2)] assms(3) unfolding roomy_def by metis
  have "int (unat id) \<le> int int_max" "1 \<le> int (unat id)" using f(3,4) by linarith+
  then have u: "1 \<le> uint id" "uint id < 2 ^ 31" unfolding int_nat_eq of_nat_unat by (simp_all add: int_max_def)
  have "sint id = uint id"
    unfolding sint_uint by (rule signed_take_bit_int_eq_self) (use u in simp_all)
  then have "0 < sint id" using u(1) by simp
  then show ?thesis using f(1,2) assms(2) by simp
qed

lemma free_id_loop_hit:
  assumes "kh_inv kh_int_hash_func h" and "kh_abs h cur = None"
  shows "free_id_loop h bump old (n + 2) cur = Inr (cur, cur + 1)"
  using kh.get_missing [OF assms] by (simp add: numeral_2_eq_2)

text \<open>
  The counter itself is not wrapped: once descriptor \<open>INT_MAX\<close> has been given out, the next call
  gives out \<open>INT_MIN\<close>, a negative descriptor, which every control operation rejects.
\<close>
theorem socket_counter_wraps_negative:
  assumes "hashes_inv st" and "unat cid < length (clients st)"
    and "bump_index (clients st ! unat cid) = 0x7fffffff" and "fd_tab st (unat cid) 0x7fffffff = None"
    and "fd_tab st (unat cid) 0x80000000 = None"
  shows "\<exists>st'. find_free_id st cid = Inr (st', 0x7fffffff) \<and>
    (\<exists>st''. find_free_id st' cid = Inr (st'', 0x80000000)) \<and> sint (0x80000000 :: cint) < 0"
proof -
  let ?c = "clients st ! unat cid"
  note h = hashes_invD(1) [OF assms(1,2)]
  let ?st' = "set_client st cid (?c\<lparr>bump_index := 0x80000000\<rparr>)"
  have one: "find_free_id st cid = Inr (?st', 0x7fffffff)"
    using free_id_loop_hit [OF h assms(4)] assms(3)
    by (simp add: find_free_id_def get_client_ok [OF assms(2)] del: free_id_loop.simps)
  have "get_client ?st' cid = Inr (?c\<lparr>bump_index := 0x80000000\<rparr>)" using assms(2) by (simp add: get_client_def)
  then have two: "find_free_id ?st' cid =
      Inr (set_client ?st' cid (?c\<lparr>bump_index := 0x80000001\<rparr>), 0x80000000)"
    using free_id_loop_hit [OF h assms(5)] by (simp add: find_free_id_def del: free_id_loop.simps)
  show ?thesis using one two by simp
qed

lemma hashes_inv_init: "hashes_inv (picoserver_clients_init n)"
  by (simp add: hashes_inv_def picoserver_clients_init_def kh_inv_init)

lemma tables_inv_init: "0 \<le> sint n \<Longrightarrow> tables_inv (picoserver_clients_init n)"
  using hashes_inv_init [of n]
  by (simp add: tables_inv_def) (simp add: picoserver_clients_init_def kh_abs_init)

theorem socket_descriptors_fresh_witness:
  "\<exists>id st'. find_free_id (picoserver_clients_init 2) 1 = Inr (st', id) \<and> 0 < sint id"
  using socket_descriptors_fresh [OF hashes_inv_init, of 1 2]
  by (auto simp: picoserver_clients_init_def roomy_def kh_room_def kh_init_def kh_capacity_def int_max_def)

theorem socket_counter_wraps_negative_witness:
  "\<exists>st'. find_free_id ((picoserver_clients_init 1)\<lparr>clients :=
      [\<lparr>bump_index = 0x7fffffff, socket_table = kh_init, socket_event_set = kh_init\<rparr>]\<rparr>) 0 = Inr (st', 0x7fffffff)"
  using socket_counter_wraps_negative [of "(picoserver_clients_init 1)\<lparr>clients :=
      [\<lparr>bump_index = 0x7fffffff, socket_table = kh_init, socket_event_set = kh_init\<rparr>]\<rparr>" 0]
  by (auto simp: hashes_inv_def picoserver_clients_init_def kh_inv_init kh_abs_init)

text \<open>\<open>n\<close> polls of one client.\<close>

fun poll_events :: "nat \<Rightarrow> tables \<Rightarrow> u64 \<Rightarrow> (tables \<times> picoserver_event list) outcome" where
  "poll_events 0 st cid = Inr (st, [])"
| "poll_events (Suc n) st cid =
     obind (client_get_event st cid \<lparr>ev_socket_fd = 0, ev_events = 0, ev_num_left = 0\<rparr>) (\<lambda>(st, e).
     obind (poll_events n st cid) (\<lambda>(st, es). Inr (st, e # es)))"

definition flagged :: "tables \<Rightarrow> nat \<Rightarrow> picoserver_event \<Rightarrow> bool" where
  "flagged st i e \<longleftrightarrow> (\<exists>p s. fd_tab st i (ev_socket_fd e) = Some (Some p) \<and> heap st p = Some s \<and> ev_events e = events s)"

lemma poll_events_ok:
  "tables_inv st \<Longrightarrow> unat cid < length (clients st) \<Longrightarrow> card (dom (ev_tab st (unat cid))) = n \<Longrightarrow>
    \<exists>st' es. poll_events n st cid = Inr (st', es) \<and> tables_inv st' \<and> ev_tab st' (unat cid) = Map.empty \<and>
      length (clients st') = length (clients st) \<and> distinct (map ev_socket_fd es) \<and>
      set (map ev_socket_fd es) = dom (ev_tab st (unat cid)) \<and> list_all (flagged st (unat cid)) es"
proof (induction n arbitrary: st)
  case 0
  have "finite (dom (ev_tab st (unat cid)))"
    by (rule kh_inv_finite [OF hashes_invD(2) [OF tables_inv_hashes [OF 0(1)] 0(2)]])
  then show ?case using 0 by simp
next
  case (Suc n)
  let ?i = "unat cid"
  have fin: "finite (dom (ev_tab st ?i))"
    by (rule kh_inv_finite [OF hashes_invD(2) [OF tables_inv_hashes [OF Suc(2)] Suc(3)]])
  obtain st1 fd p s where e: "ev_tab st ?i fd \<noteq> None" "fd_tab st ?i fd = Some (Some p)" "heap st p = Some s"
    "client_get_event st cid \<lparr>ev_socket_fd = 0, ev_events = 0, ev_num_left = 0\<rparr> = Inr (st1,
       \<lparr>ev_socket_fd = fd, ev_events = events s, ev_num_left = of_nat (card (dom (ev_tab st ?i) - {fd}))\<rparr>)"
    and t: "tabs_are st1 st (fd_tab st) (addr_tab st) ((ev_tab st)(?i := (ev_tab st ?i)(fd := None)))
        ((heap st)(p \<mapsto> s\<lparr>events := 0\<rparr>))"
    by (rule client_get_event_ok [OF Suc(2,3), of "\<lparr>ev_socket_fd = 0, ev_events = 0, ev_num_left = 0\<rparr>"])
      (use Suc(4) in \<open>simp; fail | blast\<close>)+
  have inv1: "tables_inv st1"
    by (rule tables_inv_fields [OF Suc(2) t])
      (use tables_inv_ev [OF Suc(2)] e(3) in \<open>auto simp: same_identity_def domIff split: if_splits\<close>)
  have c1: "?i < length (clients st1)" and len: "length (clients st1) = length (clients st)"
    and ev1: "ev_tab st1 ?i = (ev_tab st ?i)(fd := None)" and fd1: "fd_tab st1 ?i = fd_tab st ?i"
    and h1: "heap st1 = (heap st)(p \<mapsto> s\<lparr>events := 0\<rparr>)"
    using t Suc(3) by (auto simp: tabs_are_def)
  have "card (dom (ev_tab st1 ?i)) = n" unfolding ev1 using Suc(4) fin e(1) by (simp add: domIff)
  from Suc.IH [OF inv1 c1 this] obtain st' es where es: "poll_events n st1 cid = Inr (st', es)" "tables_inv st'"
    "ev_tab st' ?i = Map.empty" "length (clients st') = length (clients st1)" "distinct (map ev_socket_fd es)"
    "set (map ev_socket_fd es) = dom (ev_tab st1 ?i)" "list_all (flagged st1 ?i) es" by blast
  have "flagged st ?i x" if x: "x \<in> set es" for x
  proof -
    have ne: "ev_socket_fd x \<noteq> fd" using x es(6) ev1 by auto
    obtain q u where q: "fd_tab st ?i (ev_socket_fd x) = Some (Some q)" "heap st1 q = Some u" "ev_events x = events u"
      using es(7) x fd1 by (auto simp: list_all_iff flagged_def)
    have "q \<noteq> p"
      using tables_inv_fd [OF Suc(2,3) q(1)] tables_inv_fd [OF Suc(2,3) e(2)] ne e(3) by (metis option.inject)
    then show ?thesis using q h1 by (auto simp: flagged_def)
  qed
  let ?e = "\<lparr>ev_socket_fd = fd, ev_events = events s, ev_num_left = of_nat (card (dom (ev_tab st ?i) - {fd}))\<rparr>"
  from \<open>\<And>x. x \<in> set es \<Longrightarrow> flagged st ?i x\<close> have "list_all (flagged st ?i) es" by (simp add: list_all_iff)
  moreover have "fd \<notin> set (map ev_socket_fd es)" "insert fd (set (map ev_socket_fd es)) = dom (ev_tab st ?i)"
    using es(6) ev1 e(1) by auto
  ultimately have "poll_events (Suc n) st cid = Inr (st', ?e # es) \<and> tables_inv st' \<and> ev_tab st' ?i = Map.empty \<and>
      length (clients st') = length (clients st) \<and> distinct (map ev_socket_fd (?e # es)) \<and>
      set (map ev_socket_fd (?e # es)) = dom (ev_tab st ?i) \<and> list_all (flagged st ?i) (?e # es)"
    using e(2-4) es(1-5) len by (simp add: flagged_def)
  then show ?case by (intro exI)
qed

text \<open>
  Polling a client as often as it has sockets with outstanding events returns each of these sockets
  exactly once, with all the event bits raised on it since it was last returned; then nothing is left,
  and another poll reports socket 0. (\<open>client_put_event\<close> raises bits, see C1 below.)
\<close>
theorem socket_events_polled_once:
  assumes "tables_inv st" and "unat cid < length (clients st)" and "n = card (dom (ev_tab st (unat cid)))"
  shows "\<exists>st' es. poll_events n st cid = Inr (st', es) \<and> length es = n \<and> distinct (map ev_socket_fd es) \<and>
    set (map ev_socket_fd es) = dom (ev_tab st (unat cid)) \<and> list_all (flagged st (unat cid)) es \<and>
    (\<exists>st'' es'. poll_events 1 st' cid = Inr (st'', es') \<and> map ev_socket_fd es' = [0])"
proof -
  obtain st' es where e: "poll_events n st cid = Inr (st', es)" "tables_inv st'" "ev_tab st' (unat cid) = Map.empty"
    "length (clients st') = length (clients st)" "distinct (map ev_socket_fd es)"
    "set (map ev_socket_fd es) = dom (ev_tab st (unat cid))" "list_all (flagged st (unat cid)) es"
    using poll_events_ok [OF assms(1,2) assms(3) [symmetric]] by blast
  have c': "unat cid < length (clients st')" using e(4) assms(2) by simp
  have "\<exists>st'' es'. poll_events 1 st' cid = Inr (st'', es') \<and> map ev_socket_fd es' = [0]"
    by (rule client_get_event_ok [OF e(2) c', of "\<lparr>ev_socket_fd = 0, ev_events = 0, ev_num_left = 0\<rparr>"])
      (use e(3) in \<open>auto simp: numeral_eq_Suc\<close>)
  moreover have "length es = n" using distinct_card [OF e(5)] e(6) assms(3) by simp
  ultimately have "poll_events n st cid = Inr (st', es) \<and> length es = n \<and> distinct (map ev_socket_fd es) \<and>
    set (map ev_socket_fd es) = dom (ev_tab st (unat cid)) \<and> list_all (flagged st (unat cid)) es \<and>
    (\<exists>st'' es'. poll_events 1 st' cid = Inr (st'', es') \<and> map ev_socket_fd es' = [0])"
    using e(1,5,6,7) by (intro conjI)
  then show ?thesis by (intro exI)
qed

theorem socket_events_polled_once_witness:
  "\<exists>st' es. poll_events 0 (picoserver_clients_init 1) 0 = Inr (st', es) \<and> es = []"
  using socket_events_polled_once [OF tables_inv_init, of 1 0 0]
  by (auto simp: picoserver_clients_init_def kh_abs_init)

text \<open>Two sockets opened by client 0, the second on the PicoTCP socket of the first; then a lookup of the
  first descriptor, whether its structure is freed, and the two descriptors.\<close>

definition reuse_run :: "tables \<Rightarrow> picoserver_socket \<Rightarrow> picoserver_socket
    \<Rightarrow> (ptr option \<times> bool \<times> cint \<times> cint) outcome" where
  "reuse_run st s1 s2 =
     (let a = \<lparr>flags_ok = True, keys_ok = True, vals_ok = True\<rparr> in
      obind (client_put_socket a a (st\<lparr>heap := [1 \<mapsto> s1]\<rparr>) 0 1) (\<lambda>(st, fd1).
      obind (client_put_socket a a (st\<lparr>heap := [1 \<mapsto> s1\<lparr>socket_fd := fd1\<rparr>, 2 \<mapsto> s2]\<rparr>) 0 2) (\<lambda>(st, fd2).
      obind (client_get_socket st 0 fd1) (\<lambda>q. Inr (q, heap st 1 = None, fd1, fd2)))))"

text \<open>
  When PicoTCP reuses a \<open>struct pico_socket\<close>, the old descriptor is meant to be invalidated, but
  \<open>kh_del\<close> is given the descriptor in place of the iterator just looked up: with descriptor 5 in a
  table of four buckets the entry stays, and the descriptor then denotes freed memory.
\<close>
lemma reused_socket_dangles:
  "reuse_run ((picoserver_clients_init 1)\<lparr>clients :=
       [\<lparr>bump_index = 5, socket_table = kh_init, socket_event_set = kh_init\<rparr>]\<rparr>)
     \<lparr>protocol = 6, client_id = 0, socket_fd = 0, pico_socket = 100, events = 0, async_transport = None\<rparr>
     \<lparr>protocol = 6, client_id = 0, socket_fd = 0, pico_socket = 100, events = 0, async_transport = None\<rparr>
   = Inr (Some 1, True, 5, 6)"
  by code_simp

end
