(* ===== verification/PicoServer.thy ===== *)
theory PicoServer
  imports SocketTable
begin

text \<open>
  The socket server \<open>remote-drivers/picotcp-socket-sync/server/server.c\<close>: the RPC interfaces
  \<open>pico_control\<close>, \<open>pico_send\<close> and \<open>pico_recv\<close>, the callback from the TCP/IP stack, and the asynchronous
  transport, in which clients hand over message buffers through two virtqueues and the server keeps
  the unfinished ones in linked lists threaded through the messages (\<open>tx_msg\<close> in
  \<open>client_include/picoserver_event.h\<close>).

  The stack (PicoTCP), the virtqueue library and the dataport library are not in the repository and
  are parameters (\<open>env\<close>): the stack's answer to a call may depend on all earlier calls, which the
  state records in \<open>trace\<close> with the bytes handed over. Memory shared with clients (the messages) is
  taken to change only by the server's own writes. Every call names the result of its allocations.
  Loops over pending lists take fuel \<open>n\<close>; as many rounds as there are messages are enough.
\<close>

section \<open>Messages, queues and the stack\<close>

record tx_msg =
  m_socket_fd :: cint
  total_len :: u64
  done_len :: u64
  src_addr :: u32
  remote_port :: u16
  next_msg :: ptr
  cookie_save :: u64
  client_cookie :: u64
  m_buf :: "u8 list"

text \<open>A virtqueue seen from the device side: head and address of what the client made available,
  head and length of what was returned.\<close>

record virtqueue =
  vq_avail :: "(u32 \<times> u64) list"
  vq_used :: "(u32 \<times> cint) list"

datatype pico_call =
    PicoOpen u16
  | PicoClose ptr
  | PicoBind ptr u32 u16
  | PicoConnect ptr u32 u16
  | PicoListen ptr cint
  | PicoAccept ptr
  | PicoShutdown ptr cint
  | PicoWrite ptr "u8 list"
  | PicoSend ptr "u8 list"
  | PicoSendto ptr "u8 list" u32 u16
  | PicoRead ptr u64
  | PicoRecv ptr u64
  | PicoRecvfrom ptr u64
  | PicoGetDevice
  | PicoTick

record pico_reply =
  r_ret :: cint
  r_ptr :: ptr
  r_bytes :: "u8 list"
  r_addr :: u32
  r_port :: u16

record pico_env =
  reply :: "pico_call list \<Rightarrow> pico_call \<Rightarrow> pico_reply"
  unwrap_ptr :: "u32 \<Rightarrow> u32 \<Rightarrow> ptr"
  add_used_buf :: "(u32 \<times> cint) list \<Rightarrow> bool"

datatype wakeup = ControlEmit | TxNotify

record server =
  tabs :: tables
  msgs :: "ptr \<Rightarrow> tx_msg option"
  tx_virtqueue :: virtqueue
  rx_virtqueue :: virtqueue
  emit_client :: bool
  emit_client_async :: bool
  trace :: "pico_call list"
  wakeups :: "wakeup list"

definition PICO_PROTO_TCP :: u16 where
  "PICO_PROTO_TCP = 6"

definition PICO_PROTO_UDP :: u16 where
  "PICO_PROTO_UDP = 17"

definition PICO_SOCK_EV_RD :: u16 where
  "PICO_SOCK_EV_RD = 1"

definition PICO_SOCK_EV_WR :: u16 where
  "PICO_SOCK_EV_WR = 2"

text \<open>\<open>short_be\<close> on a little-endian machine.\<close>

definition short_be :: "u16 \<Rightarrow> u16" where
  "short_be w = push_bit 8 w OR drop_bit 8 w"

definition DECODE_DMA_ADDRESS :: "pico_env \<Rightarrow> u64 \<Rightarrow> ptr" where
  "DECODE_DMA_ADDRESS env buf = unwrap_ptr env (ucast (drop_bit 32 buf)) (ucast (buf AND mask 32))"

definition call :: "pico_env \<Rightarrow> server \<Rightarrow> pico_call \<Rightarrow> server \<times> pico_reply" where
  "call env sv c = (sv\<lparr>trace := trace sv @ [c]\<rparr>, reply env (trace sv) c)"

definition set_heap :: "server \<Rightarrow> ptr \<Rightarrow> picoserver_socket \<Rightarrow> server" where
  "set_heap sv p s = sv\<lparr>tabs := (tabs sv)\<lparr>heap := (heap (tabs sv))(p \<mapsto> s)\<rparr>\<rparr>"

definition set_msg :: "server \<Rightarrow> ptr \<Rightarrow> tx_msg \<Rightarrow> server" where
  "set_msg sv p m = sv\<lparr>msgs := (msgs sv)(p \<mapsto> m)\<rparr>"

text \<open>\<open>n\<close> bytes at offset \<open>d\<close> of a buffer, and writing bytes there.\<close>

definition slice :: "u8 list \<Rightarrow> nat \<Rightarrow> nat \<Rightarrow> u8 list outcome" where
  "slice buf d n = (if d + n \<le> length buf then Inr (take n (drop d buf)) else Inl OutOfBounds)"

definition splice :: "u8 list \<Rightarrow> nat \<Rightarrow> u8 list \<Rightarrow> u8 list outcome" where
  "splice buf d bs = (if d + length bs \<le> length buf
     then Inr (take d buf @ bs @ drop (d + length bs) buf) else Inl OutOfBounds)"

section \<open>Common checks\<close>

definition client_check :: "server \<Rightarrow> u64 \<Rightarrow> u64 outcome" where
  "client_check sv sender = obind (ensure (\<not> sender \<ge> scast (num_clients (tabs sv))) Fatal) (\<lambda>_. Inr sender)"

text \<open>\<open>None\<close> stands for the error -1.\<close>

definition server_control_common :: "server \<Rightarrow> u64 \<Rightarrow> cint \<Rightarrow> ptr option outcome" where
  "server_control_common sv cid fd =
     (if sint fd < 0 then Inr None else client_get_socket (tabs sv) cid fd)"

text \<open>\<open>buffer_offset + len\<close> is an \<open>int\<close> addition (it wraps here) and is then compared as a \<open>size_t\<close>.\<close>

definition server_communication_common :: "server \<Rightarrow> u64 \<Rightarrow> cint \<Rightarrow> cint \<Rightarrow> cint \<Rightarrow> u64 \<Rightarrow> (ptr \<times> u64) option outcome" where
  "server_communication_common sv cid fd len buffer_offset buffer_size =
     (if sint fd < 0 \<or> sint len < 0 \<or> sint buffer_offset < 0 then Inr None
      else if scast (buffer_offset + len) > buffer_size then Inr None
      else obind (client_get_socket (tabs sv) cid fd) (\<lambda>q.
        Inr (map_option (\<lambda>p. (p, scast buffer_offset)) q)))"

text \<open>A control call on an existing socket of the caller, with the stack call it makes.\<close>

definition with_socket :: "server \<Rightarrow> u64 \<Rightarrow> cint \<Rightarrow> 'r \<Rightarrow> (u64 \<Rightarrow> ptr \<Rightarrow> picoserver_socket \<Rightarrow> (server \<times> 'r) outcome)
    \<Rightarrow> (server \<times> 'r) outcome" where
  "with_socket sv sender fd err f =
     obind (client_check sv sender) (\<lambda>cid.
     obind (server_control_common sv cid fd) (\<lambda>q.
     case q of None \<Rightarrow> Inr (sv, err)
     | Some p \<Rightarrow> obind (deref (heap (tabs sv)) p) (f cid p)))"

definition call_ret :: "pico_env \<Rightarrow> server \<Rightarrow> pico_call \<Rightarrow> (server \<times> cint) outcome" where
  "call_ret env sv c = (let (sv, r) = call env sv c in Inr (sv, r_ret r))"

section \<open>The control interface\<close>

definition new_socket :: "u64 \<Rightarrow> u16 \<Rightarrow> ptr \<Rightarrow> picoserver_socket" where
  "new_socket cid proto s = \<lparr>protocol = proto, client_id = ucast cid, socket_fd = 0, pico_socket = s,
     events = 0, async_transport = None\<rparr>"

text \<open>Put the structure at \<open>p\<close> into the tables; on failure close the PicoTCP socket and free \<open>p\<close>.\<close>

definition register_socket :: "pico_env \<Rightarrow> kalloc \<Rightarrow> kalloc \<Rightarrow> server \<Rightarrow> u64 \<Rightarrow> ptr \<Rightarrow> picoserver_socket
    \<Rightarrow> (server \<times> cint) outcome" where
  "register_socket env a1 a2 sv cid p s =
     obind (client_put_socket a1 a2 ((tabs sv)\<lparr>heap := (heap (tabs sv))(p \<mapsto> s)\<rparr>) cid p) (\<lambda>(st, ret).
     let sv = sv\<lparr>tabs := st\<rparr> in
     if ret = -1 then
       let (sv, _) = call env sv (PicoClose (pico_socket s)) in
       obind (free_ptr (heap st) p) (\<lambda>hp. Inr (sv\<lparr>tabs := st\<lparr>heap := hp\<rparr>\<rparr>, -1))
     else Inr (set_heap sv p (s\<lparr>socket_fd := ret\<rparr>), ret))"

definition pico_control_open :: "pico_env \<Rightarrow> ptr \<Rightarrow> kalloc \<Rightarrow> kalloc \<Rightarrow> server \<Rightarrow> u64 \<Rightarrow> bool
    \<Rightarrow> (server \<times> cint) outcome" where
  "pico_control_open env p a1 a2 sv sender is_udp =
     obind (client_check sv sender) (\<lambda>cid.
     if p = 0 then Inr (sv, -1)
     else
       let proto = (if is_udp then PICO_PROTO_UDP else PICO_PROTO_TCP);
           (sv, r) = call env sv (PicoOpen proto)
       in if r_ptr r = 0 then Inr (sv, -1)
          else register_socket env a1 a2 sv cid p (new_socket cid proto (r_ptr r)))"

definition pico_control_bind :: "pico_env \<Rightarrow> server \<Rightarrow> u64 \<Rightarrow> cint \<Rightarrow> u32 \<Rightarrow> u16 \<Rightarrow> (server \<times> cint) outcome" where
  "pico_control_bind env sv sender fd local_addr port =
     with_socket sv sender fd (-1) (\<lambda>cid p s.
       call_ret env sv (PicoBind (pico_socket s) local_addr (short_be port)))"

definition pico_control_connect :: "pico_env \<Rightarrow> server \<Rightarrow> u64 \<Rightarrow> cint \<Rightarrow> u32 \<Rightarrow> u16 \<Rightarrow> (server \<times> cint) outcome" where
  "pico_control_connect env sv sender fd server_addr port =
     with_socket sv sender fd (-1) (\<lambda>cid p s.
       call_ret env sv (PicoConnect (pico_socket s) server_addr (short_be port)))"

definition pico_control_listen :: "pico_env \<Rightarrow> server \<Rightarrow> u64 \<Rightarrow> cint \<Rightarrow> cint \<Rightarrow> (server \<times> cint) outcome" where
  "pico_control_listen env sv sender fd backlog =
     with_socket sv sender fd (-1) (\<lambda>cid p s. call_ret env sv (PicoListen (pico_socket s) backlog))"

record picoserver_peer =
  peer_result :: cint
  peer_socket :: cint
  peer_addr :: u32
  peer_port :: u16

definition peer_error :: picoserver_peer where
  "peer_error = \<lparr>peer_result = -1, peer_socket = 0, peer_addr = 0, peer_port = 0\<rparr>"

definition pico_control_accept :: "pico_env \<Rightarrow> ptr \<Rightarrow> kalloc \<Rightarrow> kalloc \<Rightarrow> server \<Rightarrow> u64 \<Rightarrow> cint
    \<Rightarrow> (server \<times> picoserver_peer) outcome" where
  "pico_control_accept env p a1 a2 sv sender fd =
     with_socket sv sender fd peer_error (\<lambda>cid q s.
       let (sv, r) = call env sv (PicoAccept (pico_socket s)) in
       if r_ptr r = 0 then Inr (sv, peer_error)
       else if p = 0 then Inr (fst (call env sv (PicoClose (r_ptr r))), peer_error)
       else obind (register_socket env a1 a2 sv cid p (new_socket cid PICO_PROTO_TCP (r_ptr r))) (\<lambda>(sv, ret).
         if ret = -1 then Inr (sv, peer_error)
         else Inr (sv, \<lparr>peer_result = 0, peer_socket = ret, peer_addr = r_addr r, peer_port = r_port r\<rparr>)))"

definition pico_control_shutdown :: "pico_env \<Rightarrow> server \<Rightarrow> u64 \<Rightarrow> cint \<Rightarrow> cint \<Rightarrow> (server \<times> cint) outcome" where
  "pico_control_shutdown env sv sender fd mode =
     with_socket sv sender fd (-1) (\<lambda>cid p s. call_ret env sv (PicoShutdown (pico_socket s) mode))"

section \<open>Completion and clean-up of asynchronous messages\<close>

definition add_used :: "pico_env \<Rightarrow> virtqueue \<Rightarrow> u64 \<Rightarrow> cint \<Rightarrow> virtqueue" where
  "add_used env vq cookie len =
     (if add_used_buf env (vq_used vq) then vq\<lparr>vq_used := vq_used vq @ [(ucast cookie, len)]\<rparr> else vq)"

definition tx_complete :: "pico_env \<Rightarrow> server \<Rightarrow> u64 \<Rightarrow> cint \<Rightarrow> server" where
  "tx_complete env sv cookie len =
     sv\<lparr>tx_virtqueue := add_used env (tx_virtqueue sv) cookie len, emit_client_async := True\<rparr>"

definition rx_complete :: "pico_env \<Rightarrow> server \<Rightarrow> u64 \<Rightarrow> cint \<Rightarrow> server" where
  "rx_complete env sv cookie len =
     sv\<lparr>rx_virtqueue := add_used env (rx_virtqueue sv) cookie len, emit_client_async := True\<rparr>"

text \<open>Taking the head \<open>m\<close> at \<open>q\<close> off a pending list.\<close>

definition tx_pop :: "picoserver_socket_async \<Rightarrow> ptr \<Rightarrow> tx_msg \<Rightarrow> picoserver_socket_async" where
  "tx_pop at q m = at\<lparr>tx_pending_queue := next_msg m,
     tx_pending_queue_end := (if tx_pending_queue_end at = q then 0 else tx_pending_queue_end at)\<rparr>"

definition rx_pop :: "picoserver_socket_async \<Rightarrow> ptr \<Rightarrow> tx_msg \<Rightarrow> picoserver_socket_async" where
  "rx_pop at q m = at\<lparr>rx_pending_queue := next_msg m,
     rx_pending_queue_end := (if rx_pending_queue_end at = q then 0 else rx_pending_queue_end at)\<rparr>"

definition set_async :: "server \<Rightarrow> ptr \<Rightarrow> picoserver_socket \<Rightarrow> picoserver_socket_async option \<Rightarrow> server" where
  "set_async sv p s at = set_heap sv p (s\<lparr>async_transport := at\<rparr>)"

fun cleanup_tx :: "pico_env \<Rightarrow> nat \<Rightarrow> server \<Rightarrow> picoserver_socket_async \<Rightarrow> (server \<times> picoserver_socket_async) outcome" where
  "cleanup_tx env 0 sv at = (if tx_pending_queue at = 0 then Inr (sv, at) else Inl OutOfFuel)"
| "cleanup_tx env (Suc n) sv at =
     (let q = tx_pending_queue at in
      if q = 0 then Inr (sv, at)
      else if tx_pending_queue_end at = 0 then Inl Fatal
      else obind (deref (msgs sv) q) (\<lambda>m.
        cleanup_tx env n (tx_complete env (set_msg sv q (m\<lparr>done_len := -1\<rparr>)) (cookie_save m) 0) (tx_pop at q m)))"

fun cleanup_rx :: "pico_env \<Rightarrow> nat \<Rightarrow> server \<Rightarrow> picoserver_socket_async \<Rightarrow> (server \<times> picoserver_socket_async) outcome" where
  "cleanup_rx env 0 sv at = (if rx_pending_queue at = 0 then Inr (sv, at) else Inl OutOfFuel)"
| "cleanup_rx env (Suc n) sv at =
     (let q = rx_pending_queue at in
      if q = 0 then Inr (sv, at)
      else if rx_pending_queue_end at = 0 then Inl Fatal
      else obind (deref (msgs sv) q) (\<lambda>m.
        cleanup_rx env n (rx_complete env (set_msg sv q (m\<lparr>done_len := -1\<rparr>)) (cookie_save m) 0) (rx_pop at q m)))"

definition cleanup_async_socket :: "pico_env \<Rightarrow> nat \<Rightarrow> server \<Rightarrow> ptr \<Rightarrow> server outcome" where
  "cleanup_async_socket env n sv p =
     obind (ensure (p \<noteq> 0) Fatal) (\<lambda>_.
     obind (deref (heap (tabs sv)) p) (\<lambda>s.
     case async_transport s of None \<Rightarrow> Inr sv
     | Some at \<Rightarrow>
       obind (cleanup_tx env n sv at) (\<lambda>(sv, at).
       obind (cleanup_rx env n sv at) (\<lambda>(sv, at).
       Inr (set_async sv p s None)))))"

definition pico_control_close :: "pico_env \<Rightarrow> nat \<Rightarrow> server \<Rightarrow> u64 \<Rightarrow> cint \<Rightarrow> (server \<times> cint) outcome" where
  "pico_control_close env n sv sender fd =
     with_socket sv sender fd (-1) (\<lambda>cid p s.
       obind (cleanup_async_socket env n sv p) (\<lambda>sv.
       obind (client_delete_socket (tabs sv) cid fd) (\<lambda>(st, closed, ret).
       let sv = sv\<lparr>tabs := st\<rparr> in
       Inr (case closed of None \<Rightarrow> sv | Some x \<Rightarrow> fst (call env sv (PicoClose x)), ret))))"

definition empty_async :: picoserver_socket_async where
  "empty_async = \<lparr>rx_pending_queue = 0, rx_pending_queue_end = 0, tx_pending_queue = 0, tx_pending_queue_end = 0\<rparr>"

text \<open>\<open>calloc_ok\<close>: whether the transport structure could be allocated.\<close>

definition pico_control_set_async :: "pico_env \<Rightarrow> nat \<Rightarrow> bool \<Rightarrow> server \<Rightarrow> u64 \<Rightarrow> cint \<Rightarrow> bool \<Rightarrow> (server \<times> cint) outcome" where
  "pico_control_set_async env n calloc_ok sv sender fd enabled =
     with_socket sv sender fd (-1) (\<lambda>cid p s.
       if enabled \<and> async_transport s = None then
         if \<not> calloc_ok then Inr (sv, -1) else Inr (set_async sv p s (Some empty_async), 0)
       else if \<not> enabled \<and> async_transport s \<noteq> None then
         obind (cleanup_async_socket env n sv p) (\<lambda>sv. Inr (sv, 0))
       else Inr (sv, 0))"

definition pico_control_event_poll :: "server \<Rightarrow> u64 \<Rightarrow> (server \<times> picoserver_event) outcome" where
  "pico_control_event_poll sv sender =
     obind (client_check sv sender) (\<lambda>cid.
     obind (client_get_event (tabs sv) cid \<lparr>ev_socket_fd = 0, ev_events = 0, ev_num_left = 0\<rparr>) (\<lambda>(st, e).
     Inr (sv\<lparr>tabs := st\<rparr>, e)))"

text \<open>\<open>r_ptr\<close> of the answer is the device, \<open>r_addr\<close> the address of its link.\<close>

definition pico_control_get_ipv4 :: "pico_env \<Rightarrow> server \<Rightarrow> server \<times> cint \<times> u32 option" where
  "pico_control_get_ipv4 env sv =
     (let (sv, r) = call env sv PicoGetDevice in
      if r_ptr r = 0 then (sv, -1, None) else (sv, 0, Some (r_addr r)))"

section \<open>The data interfaces\<close>

text \<open>The send operations, on the client's buffer \<open>buf\<close>; \<open>f\<close> makes the stack call.\<close>

definition send_common :: "pico_env \<Rightarrow> server \<Rightarrow> u64 \<Rightarrow> u8 list \<Rightarrow> cint \<Rightarrow> cint \<Rightarrow> cint
    \<Rightarrow> (ptr \<Rightarrow> u8 list \<Rightarrow> pico_call) \<Rightarrow> (server \<times> cint) outcome" where
  "send_common env sv sender buf fd len buffer_offset f =
     obind (client_check sv sender) (\<lambda>cid.
     obind (server_communication_common sv cid fd len buffer_offset (of_nat (length buf))) (\<lambda>q.
     case q of None \<Rightarrow> Inr (sv, -1)
     | Some (p, off) \<Rightarrow>
       obind (deref (heap (tabs sv)) p) (\<lambda>s.
       obind (slice buf (unat off) (unat len)) (\<lambda>bytes.
       call_ret env sv (f (pico_socket s) bytes)))))"

definition pico_send_write :: "pico_env \<Rightarrow> server \<Rightarrow> u64 \<Rightarrow> u8 list \<Rightarrow> cint \<Rightarrow> cint \<Rightarrow> cint \<Rightarrow> (server \<times> cint) outcome" where
  "pico_send_write env sv sender buf fd len buffer_offset =
     send_common env sv sender buf fd len buffer_offset PicoWrite"

definition pico_send_send :: "pico_env \<Rightarrow> server \<Rightarrow> u64 \<Rightarrow> u8 list \<Rightarrow> cint \<Rightarrow> cint \<Rightarrow> cint \<Rightarrow> (server \<times> cint) outcome" where
  "pico_send_send env sv sender buf fd len buffer_offset =
     send_common env sv sender buf fd len buffer_offset PicoSend"

definition pico_send_sendto :: "pico_env \<Rightarrow> server \<Rightarrow> u64 \<Rightarrow> u8 list \<Rightarrow> cint \<Rightarrow> cint \<Rightarrow> cint \<Rightarrow> u32 \<Rightarrow> u16
    \<Rightarrow> (server \<times> cint) outcome" where
  "pico_send_sendto env sv sender buf fd len buffer_offset dst_addr port =
     send_common env sv sender buf fd len buffer_offset (\<lambda>s bs. PicoSendto s bs dst_addr (short_be port))"

text \<open>The receive operations: the stack writes \<open>r_bytes\<close> of its answer at the offset.\<close>

definition recv_common :: "pico_env \<Rightarrow> server \<Rightarrow> u64 \<Rightarrow> u8 list \<Rightarrow> cint \<Rightarrow> cint \<Rightarrow> cint
    \<Rightarrow> (ptr \<Rightarrow> u64 \<Rightarrow> pico_call) \<Rightarrow> (server \<times> u8 list \<times> pico_reply option) outcome" where
  "recv_common env sv sender buf fd len buffer_offset f =
     obind (client_check sv sender) (\<lambda>cid.
     obind (server_communication_common sv cid fd len buffer_offset (of_nat (length buf))) (\<lambda>q.
     case q of None \<Rightarrow> Inr (sv, buf, None)
     | Some (p, off) \<Rightarrow>
       obind (deref (heap (tabs sv)) p) (\<lambda>s.
       let (sv, r) = call env sv (f (pico_socket s) (scast len)) in
       obind (splice buf (unat off) (r_bytes r)) (\<lambda>buf. Inr (sv, buf, Some r)))))"

definition ret_of :: "pico_reply option \<Rightarrow> cint" where
  "ret_of q = (case q of None \<Rightarrow> -1 | Some r \<Rightarrow> r_ret r)"

definition pico_recv_read :: "pico_env \<Rightarrow> server \<Rightarrow> u64 \<Rightarrow> u8 list \<Rightarrow> cint \<Rightarrow> cint \<Rightarrow> cint
    \<Rightarrow> (server \<times> u8 list \<times> cint) outcome" where
  "pico_recv_read env sv sender buf fd len buffer_offset =
     obind (recv_common env sv sender buf fd len buffer_offset PicoRead) (\<lambda>(sv, buf, q). Inr (sv, buf, ret_of q))"

definition pico_recv_recv :: "pico_env \<Rightarrow> server \<Rightarrow> u64 \<Rightarrow> u8 list \<Rightarrow> cint \<Rightarrow> cint \<Rightarrow> cint
    \<Rightarrow> (server \<times> u8 list \<times> cint) outcome" where
  "pico_recv_recv env sv sender buf fd len buffer_offset =
     obind (recv_common env sv sender buf fd len buffer_offset PicoRecv) (\<lambda>(sv, buf, q). Inr (sv, buf, ret_of q))"

text \<open>The last component: what is stored through \<open>src_addr\<close> and \<open>remote_port\<close>, if anything.\<close>

definition pico_recv_recvfrom :: "pico_env \<Rightarrow> server \<Rightarrow> u64 \<Rightarrow> u8 list \<Rightarrow> cint \<Rightarrow> cint \<Rightarrow> cint
    \<Rightarrow> (server \<times> u8 list \<times> cint \<times> (u32 \<times> u16) option) outcome" where
  "pico_recv_recvfrom env sv sender buf fd len buffer_offset =
     obind (recv_common env sv sender buf fd len buffer_offset PicoRecvfrom) (\<lambda>(sv, buf, q).
     Inr (sv, buf, ret_of q, map_option (\<lambda>r. (r_addr r, short_be (r_port r))) q))"

section \<open>Asynchronous transmission\<close>

text \<open>Hand the rest of a message to the stack.\<close>

definition tx_call :: "pico_env \<Rightarrow> server \<Rightarrow> picoserver_socket \<Rightarrow> tx_msg \<Rightarrow> u64 \<Rightarrow> (server \<times> cint) outcome" where
  "tx_call env sv s m from =
     obind (slice (m_buf m) (unat from) (unat (total_len m - from))) (\<lambda>bs.
     let (sv, r) = call env sv (if protocol s = PICO_PROTO_UDP
           then PicoSendto (pico_socket s) bs (src_addr m) (remote_port m)
           else PicoSend (pico_socket s) bs)
     in Inr (sv, r_ret r))"

fun tx_socket_loop :: "pico_env \<Rightarrow> nat \<Rightarrow> server \<Rightarrow> ptr \<Rightarrow> picoserver_socket \<Rightarrow> picoserver_socket_async \<Rightarrow> server outcome" where
  "tx_socket_loop env 0 sv p s at = (if tx_pending_queue at = 0 then Inr sv else Inl OutOfFuel)"
| "tx_socket_loop env (Suc n) sv p s at =
     (let q = tx_pending_queue at in
      if q = 0 then Inr sv
      else if tx_pending_queue_end at = 0 then Inl Fatal
      else obind (deref (msgs sv) q) (\<lambda>m.
        obind (tx_call env sv s m (done_len m)) (\<lambda>(sv, ret).
        if ret = -1 then
          let at = tx_pop at q m;
              sv = set_async (set_msg sv q (m\<lparr>done_len := -1\<rparr>)) p s (Some at)
          in tx_socket_loop env n (tx_complete env sv (cookie_save m) 0) p s at
        else if scast ret < total_len m - done_len m then
          Inr (set_msg sv q (m\<lparr>done_len := done_len m + scast ret\<rparr>))
        else
          let at = tx_pop at q m;
              sv = set_async (set_msg sv q (m\<lparr>done_len := total_len m\<rparr>)) p s (Some at)
          in tx_socket_loop env n (tx_complete env sv (cookie_save m) (ucast (total_len m))) p s at)))"

definition tx_socket :: "pico_env \<Rightarrow> nat \<Rightarrow> server \<Rightarrow> ptr \<Rightarrow> server outcome" where
  "tx_socket env n sv p =
     (if p = 0 then Inr sv
      else obind (deref (heap (tabs sv)) p) (\<lambda>s.
        if pico_socket s = 0 then Inr sv
        else case async_transport s of None \<Rightarrow> Inr sv | Some at \<Rightarrow> tx_socket_loop env n sv p s at))"

text \<open>Which socket a queued message is for: only sockets of client 0 are looked up. The outer \<open>None\<close> is
  the case of no such socket or one that is not set up for asynchronous use.\<close>

definition async_socket :: "server \<Rightarrow> tx_msg \<Rightarrow> (ptr \<times> picoserver_socket \<times> picoserver_socket_async) option outcome" where
  "async_socket sv m =
     obind (client_get_socket (tabs sv) 0 (m_socket_fd m)) (\<lambda>q.
     case q of None \<Rightarrow> Inr None
     | Some p \<Rightarrow> obind (deref (heap (tabs sv)) p) (\<lambda>s.
         Inr (if pico_socket s = 0 then None
              else map_option (\<lambda>at. (p, s, at)) (async_transport s))))"

definition tx_enqueue :: "server \<Rightarrow> ptr \<Rightarrow> picoserver_socket \<Rightarrow> picoserver_socket_async \<Rightarrow> ptr \<Rightarrow> tx_msg \<Rightarrow> u32
    \<Rightarrow> server outcome" where
  "tx_enqueue sv p s at q m h =
     (if tx_pending_queue_end at = 0 then Inl Fatal
      else obind (deref (msgs sv) (tx_pending_queue_end at)) (\<lambda>e.
        let sv = set_msg sv (tx_pending_queue_end at) (e\<lparr>next_msg := q\<rparr>);
            sv = set_async sv p s (Some (at\<lparr>tx_pending_queue_end := q\<rparr>)) in
        obind (deref (msgs sv) q) (\<lambda>m.
        Inr (set_msg sv q (m\<lparr>next_msg := 0, cookie_save := ucast h\<rparr>)))))"

text \<open>One round of \<open>tx_queue_handle\<close> on the message at \<open>q\<close> with virtqueue head \<open>h\<close>.\<close>

definition tx_queue_msg :: "pico_env \<Rightarrow> server \<Rightarrow> u32 \<Rightarrow> ptr \<Rightarrow> server outcome" where
  "tx_queue_msg env sv h q =
     obind (ensure (q \<noteq> 0) Fatal) (\<lambda>_.
     obind (deref (msgs sv) q) (\<lambda>m.
     obind (ensure (\<not> (total_len m > 1400 \<or> total_len m = 0)) Fatal) (\<lambda>_.
     obind (async_socket sv m) (\<lambda>a.
     case a of None \<Rightarrow> Inr (tx_complete env (set_msg sv q (m\<lparr>done_len := -1\<rparr>)) (ucast h) 0)
     | Some (p, s, at) \<Rightarrow>
       if tx_pending_queue at \<noteq> 0 then tx_enqueue sv p s at q m h
       else obind (tx_call env sv s m 0) (\<lambda>(sv, ret).
         if ret = -1 then Inr (tx_complete env (set_msg sv q (m\<lparr>done_len := -1\<rparr>)) (ucast h) 0)
         else if scast ret < total_len m then
           Inr (set_async (set_msg sv q (m\<lparr>done_len := scast ret, cookie_save := ucast h, next_msg := 0\<rparr>)) p s
             (Some (at\<lparr>tx_pending_queue := q, tx_pending_queue_end := q\<rparr>)))
         else Inr (tx_complete env (set_msg sv q (m\<lparr>done_len := total_len m\<rparr>)) (ucast h) (ucast (total_len m))))))))"

fun tx_queue_loop :: "pico_env \<Rightarrow> (u32 \<times> u64) list \<Rightarrow> server \<Rightarrow> server outcome" where
  "tx_queue_loop env [] sv = Inr (sv\<lparr>tx_virtqueue := (tx_virtqueue sv)\<lparr>vq_avail := []\<rparr>\<rparr>)"
| "tx_queue_loop env ((h, buf) # av) sv =
     obind (tx_queue_msg env (sv\<lparr>tx_virtqueue := (tx_virtqueue sv)\<lparr>vq_avail := av\<rparr>\<rparr>) h (DECODE_DMA_ADDRESS env buf))
       (tx_queue_loop env av)"

definition tx_queue_handle :: "pico_env \<Rightarrow> server \<Rightarrow> server outcome" where
  "tx_queue_handle env sv = tx_queue_loop env (vq_avail (tx_virtqueue sv)) sv"

section \<open>Asynchronous reception\<close>

definition rx_call :: "pico_env \<Rightarrow> server \<Rightarrow> picoserver_socket \<Rightarrow> tx_msg \<Rightarrow> u64 \<Rightarrow> (server \<times> tx_msg \<times> cint) outcome" where
  "rx_call env sv s m from =
     (let (sv, r) = call env sv (if protocol s = PICO_PROTO_UDP
            then PicoRecvfrom (pico_socket s) (total_len m - from)
            else PicoRecv (pico_socket s) (total_len m - from)) in
      obind (splice (m_buf m) (unat from) (r_bytes r)) (\<lambda>buf.
      let m = m\<lparr>m_buf := buf\<rparr>;
          m = (if protocol s = PICO_PROTO_UDP then m\<lparr>src_addr := r_addr r, remote_port := r_port r\<rparr> else m)
      in Inr (sv, m, r_ret r)))"

text \<open>Whether a message has to wait for more: TCP fills it up, UDP takes one datagram.\<close>

definition rx_short :: "picoserver_socket \<Rightarrow> cint \<Rightarrow> u64 \<Rightarrow> bool" where
  "rx_short s ret left \<longleftrightarrow> protocol s = PICO_PROTO_TCP \<and> scast ret < left \<or> protocol s = PICO_PROTO_UDP \<and> ret = 0"

fun rx_socket_loop :: "pico_env \<Rightarrow> nat \<Rightarrow> server \<Rightarrow> ptr \<Rightarrow> picoserver_socket \<Rightarrow> picoserver_socket_async \<Rightarrow> server outcome" where
  "rx_socket_loop env 0 sv p s at = (if rx_pending_queue at = 0 then Inr sv else Inl OutOfFuel)"
| "rx_socket_loop env (Suc n) sv p s at =
     (let q = rx_pending_queue at in
      if q = 0 then Inr sv
      else if rx_pending_queue_end at = 0 then Inl Fatal
      else obind (deref (msgs sv) q) (\<lambda>m0.
        obind (rx_call env sv s m0 (done_len m0)) (\<lambda>(sv, m, ret).
        if ret = -1 then
          let at = rx_pop at q m;
              sv = set_async (set_msg sv q (m\<lparr>done_len := -1\<rparr>)) p s (Some at)
          in Inr (rx_complete env sv (cookie_save m) 0)
        else
          let sv = set_msg sv q (m\<lparr>done_len := done_len m + scast ret\<rparr>) in
          if rx_short s ret (total_len m - done_len m) then Inr sv
          else
            let at = rx_pop at q m;
                sv = set_async sv p s (Some at)
            in rx_socket_loop env n (rx_complete env sv (cookie_save m) (ucast (total_len m))) p s at)))"

definition rx_socket :: "pico_env \<Rightarrow> nat \<Rightarrow> server \<Rightarrow> ptr \<Rightarrow> server outcome" where
  "rx_socket env n sv p =
     (if p = 0 then Inr sv
      else obind (deref (heap (tabs sv)) p) (\<lambda>s.
        if pico_socket s = 0 then Inr sv
        else case async_transport s of None \<Rightarrow> Inr sv | Some at \<Rightarrow> rx_socket_loop env n sv p s at))"

definition rx_enqueue :: "server \<Rightarrow> ptr \<Rightarrow> picoserver_socket \<Rightarrow> picoserver_socket_async \<Rightarrow> ptr \<Rightarrow> tx_msg \<Rightarrow> u32
    \<Rightarrow> server outcome" where
  "rx_enqueue sv p s at q m h =
     (if rx_pending_queue_end at = 0 then Inl Fatal
      else obind (deref (msgs sv) (rx_pending_queue_end at)) (\<lambda>e.
        let sv = set_msg sv (rx_pending_queue_end at) (e\<lparr>next_msg := q\<rparr>);
            sv = set_async sv p s (Some (at\<lparr>rx_pending_queue_end := q\<rparr>)) in
        obind (deref (msgs sv) q) (\<lambda>m.
        Inr (set_msg sv q (m\<lparr>next_msg := 0, cookie_save := ucast h\<rparr>)))))"

definition rx_queue_msg :: "pico_env \<Rightarrow> server \<Rightarrow> u32 \<Rightarrow> ptr \<Rightarrow> server outcome" where
  "rx_queue_msg env sv h q =
     obind (ensure (q \<noteq> 0) Fatal) (\<lambda>_.
     obind (deref (msgs sv) q) (\<lambda>m.
     obind (ensure (\<not> (total_len m > 1400 \<or> total_len m = 0)) Fatal) (\<lambda>_.
     obind (async_socket sv m) (\<lambda>a.
     case a of None \<Rightarrow> Inr (rx_complete env (set_msg sv q (m\<lparr>done_len := -1\<rparr>)) (ucast h) 0)
     | Some (p, s, at) \<Rightarrow>
       if rx_pending_queue at \<noteq> 0 then rx_enqueue sv p s at q m h
       else obind (rx_call env sv s m 0) (\<lambda>(sv, m, ret).
         if ret = -1 then Inr (rx_complete env (set_msg sv q (m\<lparr>done_len := -1\<rparr>)) (ucast h) 0)
         else if rx_short s ret (total_len m) then
           Inr (set_async (set_msg sv q (m\<lparr>done_len := scast ret, cookie_save := ucast h, next_msg := 0\<rparr>)) p s
             (Some (at\<lparr>rx_pending_queue := q, rx_pending_queue_end := q\<rparr>)))
         else Inr (rx_complete env (set_msg sv q (m\<lparr>done_len := scast ret\<rparr>)) (ucast h) ret))))))"

fun rx_queue_loop :: "pico_env \<Rightarrow> (u32 \<times> u64) list \<Rightarrow> server \<Rightarrow> server outcome" where
  "rx_queue_loop env [] sv = Inr (sv\<lparr>rx_virtqueue := (rx_virtqueue sv)\<lparr>vq_avail := []\<rparr>\<rparr>)"
| "rx_queue_loop env ((h, buf) # av) sv =
     obind (rx_queue_msg env (sv\<lparr>rx_virtqueue := (rx_virtqueue sv)\<lparr>vq_avail := av\<rparr>\<rparr>) h (DECODE_DMA_ADDRESS env buf))
       (rx_queue_loop env av)"

definition rx_queue_handle :: "pico_env \<Rightarrow> server \<Rightarrow> server outcome" where
  "rx_queue_handle env sv = rx_queue_loop env (vq_avail (rx_virtqueue sv)) sv"

section \<open>Callbacks\<close>

definition tx_queue_handle_irq :: "pico_env \<Rightarrow> server \<Rightarrow> server outcome" where
  "tx_queue_handle_irq env sv =
     obind (rx_queue_handle env sv) (\<lambda>sv.
     obind (tx_queue_handle env sv) (\<lambda>sv.
     Inr (fst (call env sv PicoTick))))"

text \<open>The callback of the stack; \<open>n\<close> is the fuel of the pending lists, \<open>a\<close> the allocation of the event set.\<close>

definition socket_cb :: "pico_env \<Rightarrow> nat \<Rightarrow> kalloc \<Rightarrow> server \<Rightarrow> u16 \<Rightarrow> ptr \<Rightarrow> server outcome" where
  "socket_cb env n a sv ev addr =
     obind (client_get_socket_by_addr (tabs sv) addr) (\<lambda>q.
     case q of None \<Rightarrow> if addr \<noteq> 0 then Inr sv else Inl NullDeref
     | Some p \<Rightarrow>
       obind (deref (heap (tabs sv)) p) (\<lambda>s.
       obind (if async_transport s \<noteq> None \<and> ev AND PICO_SOCK_EV_RD \<noteq> 0
              then obind (rx_queue_handle env sv) (\<lambda>sv. rx_socket env n sv p) else Inr sv) (\<lambda>sv.
       obind (if async_transport s \<noteq> None \<and> ev AND PICO_SOCK_EV_WR \<noteq> 0
              then obind (tx_queue_handle env sv) (\<lambda>sv. tx_socket env n sv p) else Inr sv) (\<lambda>sv.
       let ev = (if async_transport s \<noteq> None then ev AND NOT (PICO_SOCK_EV_RD OR PICO_SOCK_EV_WR) else ev) in
       if ev = 0 then Inr sv
       else obind (client_put_event a (tabs sv) (scast (client_id s)) (socket_fd s) ev) (\<lambda>(st, ret).
         obind (ensure (ret \<noteq> -1) Fatal) (\<lambda>_.
         Inr (sv\<lparr>tabs := st, emit_client := True\<rparr>)))))))"

definition notify_client :: "server \<Rightarrow> server" where
  "notify_client sv =
     (let sv = (if emit_client sv then sv\<lparr>wakeups := wakeups sv @ [ControlEmit], emit_client := False\<rparr> else sv)
      in if emit_client_async sv then sv\<lparr>wakeups := wakeups sv @ [TxNotify], emit_client_async := False\<rparr> else sv)"

text \<open>Initialisation: the tables, and the handler of the transmit channel, registered only when both
  virtqueues exist. \<open>ids\<close> are the answers of \<open>camkes_virtqueue_get_id_from_name\<close>.\<close>

definition picotcp_socket_sync_server_init :: "cint \<Rightarrow> nat \<Rightarrow> cint \<Rightarrow> cint \<Rightarrow> server \<times> bool" where
  "picotcp_socket_sync_server_init n num_registered tx_id rx_id =
     (\<lparr>tabs = picoserver_clients_init n, msgs = Map.empty, tx_virtqueue = \<lparr>vq_avail = [], vq_used = []\<rparr>,
       rx_virtqueue = \<lparr>vq_avail = [], vq_used = []\<rparr>, emit_client = False, emit_client_async = False,
       trace = [], wakeups = []\<rparr>,
      \<not> num_registered < 2 \<and> \<not> (tx_id = -1 \<or> rx_id = -1))"

section \<open>Pending lists\<close>

fun chain :: "(ptr \<Rightarrow> tx_msg option) \<Rightarrow> ptr \<Rightarrow> ptr list \<Rightarrow> bool" where
  "chain ms q [] \<longleftrightarrow> q = 0"
| "chain ms q (x # xs) \<longleftrightarrow> q = x \<and> x \<noteq> 0 \<and> (\<exists>m. ms x = Some m \<and> chain ms (next_msg m) xs)"

definition plist :: "(ptr \<Rightarrow> tx_msg option) \<Rightarrow> ptr \<Rightarrow> ptr \<Rightarrow> ptr list \<Rightarrow> bool" where
  "plist ms q e xs \<longleftrightarrow> chain ms q xs \<and> distinct xs \<and> e = (if xs = [] then 0 else last xs)"

lemma chain_cong:
  "(\<And>x m. x \<in> set xs \<Longrightarrow> ms x = Some m \<Longrightarrow> \<exists>m'. ms' x = Some m' \<and> next_msg m' = next_msg m) \<Longrightarrow>
    chain ms q xs \<Longrightarrow> chain ms' q xs"
  by (induction xs arbitrary: q) fastforce+

lemma chain_nz: "chain ms q xs \<Longrightarrow> x \<in> set xs \<Longrightarrow> x \<noteq> 0 \<and> ms x \<noteq> None"
  by (induction xs arbitrary: q) auto

lemma plist_cong:
  assumes "\<And>x m. ms x = Some m \<Longrightarrow> \<exists>m'. ms' x = Some m' \<and> next_msg m' = next_msg m" and "plist ms q e xs"
  shows "plist ms' q e xs"
  using assms chain_cong [of xs ms ms' q] unfolding plist_def by blast

lemma plist_Nil: "plist ms q e [] \<longleftrightarrow> q = 0 \<and> e = 0"
  by (auto simp: plist_def)

lemma plist_empty: "plist ms 0 e xs \<Longrightarrow> xs = []"
  by (cases xs) (auto simp: plist_def)

lemma plist_Cons:
  assumes "plist ms q e (x # xs)"
  obtains m where "q = x" "x \<noteq> 0" "e \<noteq> 0" "ms x = Some m"
    "plist ms (next_msg m) (if e = x then 0 else e) xs"
proof -
  obtain m where m: "q = x" "x \<noteq> 0" "ms x = Some m" "chain ms (next_msg m) xs"
    using assms by (auto simp: plist_def)
  have e: "e = last (x # xs)" and d: "distinct (x # xs)" using assms by (auto simp: plist_def)
  have "e \<in> set (x # xs)" unfolding e by (rule last_in_set) simp
  moreover have "chain ms q (x # xs)" using assms by (simp add: plist_def)
  ultimately have "e \<noteq> 0" using chain_nz by blast
  moreover have "plist ms (next_msg m) (if e = x then 0 else e) xs"
  proof (cases "xs = []")
    case True
    then show ?thesis using m e by (simp add: plist_def)
  next
    case False
    then have "e = last xs" "e \<noteq> x" using e d last_in_set [OF False] by auto
    then show ?thesis using m d False by (simp add: plist_def)
  qed
  ultimately show ?thesis using that m by blast
qed

lemma plist_pop_tx:
  assumes "plist ms (tx_pending_queue at) (tx_pending_queue_end at) (x # xs)"
  obtains m where "tx_pending_queue at = x" "x \<noteq> 0" "tx_pending_queue_end at \<noteq> 0" "ms x = Some m"
    "plist ms (tx_pending_queue (tx_pop at x m)) (tx_pending_queue_end (tx_pop at x m)) xs"
  by (rule plist_Cons [OF assms]) (simp add: tx_pop_def that)

lemma plist_pop_rx:
  assumes "plist ms (rx_pending_queue at) (rx_pending_queue_end at) (x # xs)"
  obtains m where "rx_pending_queue at = x" "x \<noteq> 0" "rx_pending_queue_end at \<noteq> 0" "ms x = Some m"
    "plist ms (rx_pending_queue (rx_pop at x m)) (rx_pending_queue_end (rx_pop at x m)) xs"
  by (rule plist_Cons [OF assms]) (simp add: rx_pop_def that)

lemma pop_simps [simp]:
  "rx_pending_queue (tx_pop at q m) = rx_pending_queue at"
  "rx_pending_queue_end (tx_pop at q m) = rx_pending_queue_end at"
  "tx_pending_queue (rx_pop at q m) = tx_pending_queue at"
  "tx_pending_queue_end (rx_pop at q m) = tx_pending_queue_end at"
  by (simp_all add: tx_pop_def rx_pop_def)

lemma server_simps [simp]:
  "tabs (set_msg sv q m) = tabs sv" "msgs (set_msg sv q m) = (msgs sv)(q \<mapsto> m)"
  "trace (set_msg sv q m) = trace sv" "trace (tx_complete env sv c l) = trace sv" "trace (rx_complete env sv c l) = trace sv"
  "tabs (tx_complete env sv c l) = tabs sv" "msgs (tx_complete env sv c l) = msgs sv"
  "tabs (rx_complete env sv c l) = tabs sv" "msgs (rx_complete env sv c l) = msgs sv"
  "tx_virtqueue (set_msg sv q m) = tx_virtqueue sv" "rx_virtqueue (set_msg sv q m) = rx_virtqueue sv"
  "tx_virtqueue (tx_complete env sv c l) = add_used env (tx_virtqueue sv) c l"
  "rx_virtqueue (tx_complete env sv c l) = rx_virtqueue sv"
  "rx_virtqueue (rx_complete env sv c l) = add_used env (rx_virtqueue sv) c l"
  "tx_virtqueue (rx_complete env sv c l) = tx_virtqueue sv"
  "msgs (set_heap sv p s) = msgs sv" "trace (set_heap sv p s) = trace sv"
  "tx_virtqueue (set_heap sv p s) = tx_virtqueue sv" "rx_virtqueue (set_heap sv p s) = rx_virtqueue sv"
  "heap (tabs (set_heap sv p s)) = (heap (tabs sv))(p \<mapsto> s)"
  by (simp_all add: set_msg_def tx_complete_def rx_complete_def set_heap_def)

section \<open>Clean-up\<close>

text \<open>The device's ring has room for every used entry.\<close>

definition ring_room :: "pico_env \<Rightarrow> bool" where
  "ring_room env \<longleftrightarrow> (\<forall>used. add_used_buf env used)"

definition failed_msgs :: "(ptr \<Rightarrow> tx_msg option) \<Rightarrow> ptr list \<Rightarrow> ptr \<Rightarrow> tx_msg option" where
  "failed_msgs ms xs x = (if x \<in> set xs then map_option (\<lambda>m. m\<lparr>done_len := -1\<rparr>) (ms x) else ms x)"

definition cookies :: "(ptr \<Rightarrow> tx_msg option) \<Rightarrow> ptr list \<Rightarrow> u32 list" where
  "cookies ms xs = map (\<lambda>x. ucast (cookie_save (the (ms x)))) xs"

lemma add_used_room: "ring_room env \<Longrightarrow> add_used env vq c l = vq\<lparr>vq_used := vq_used vq @ [(ucast c, l)]\<rparr>"
  by (simp add: add_used_def ring_room_def)

lemma failed_msgs_Nil [simp]: "failed_msgs ms [] = ms"
  by (simp add: failed_msgs_def fun_eq_iff)

lemma failed_msgs_Cons:
  "x \<notin> set xs \<Longrightarrow> ms x = Some m \<Longrightarrow> failed_msgs (ms(x \<mapsto> m\<lparr>done_len := -1\<rparr>)) xs = failed_msgs ms (x # xs)"
  by (auto simp: failed_msgs_def fun_eq_iff)

lemma failed_msgs_next:
  "ms x = Some m \<Longrightarrow> \<exists>m'. failed_msgs ms xs x = Some m' \<and> next_msg m' = next_msg m"
  by (simp add: failed_msgs_def)

lemma cookies_other: "x \<notin> set xs \<Longrightarrow> cookies (ms(x \<mapsto> m)) xs = cookies ms xs"
  by (auto simp: cookies_def)

lemma cleanup_tx_ok:
  assumes room: "ring_room env"
  shows "plist (msgs sv) (tx_pending_queue at) (tx_pending_queue_end at) xs \<Longrightarrow> length xs \<le> n \<Longrightarrow>
    \<exists>sv' at'. cleanup_tx env n sv at = Inr (sv', at') \<and> tabs sv' = tabs sv \<and> trace sv' = trace sv \<and>
      msgs sv' = failed_msgs (msgs sv) xs \<and> rx_virtqueue sv' = rx_virtqueue sv \<and>
      vq_used (tx_virtqueue sv') = vq_used (tx_virtqueue sv) @ map (\<lambda>c. (c, 0)) (cookies (msgs sv) xs) \<and>
      vq_avail (tx_virtqueue sv') = vq_avail (tx_virtqueue sv) \<and>
      rx_pending_queue at' = rx_pending_queue at \<and> rx_pending_queue_end at' = rx_pending_queue_end at"
proof (induction xs arbitrary: n sv at)
  case Nil
  then show ?case by (cases n) (auto simp: plist_Nil cookies_def)
next
  case (Cons x xs)
  obtain k where n: "n = Suc k" "length xs \<le> k" using Cons.prems(2) by (cases n) auto
  obtain m where m: "tx_pending_queue at = x" "x \<noteq> 0" "tx_pending_queue_end at \<noteq> 0" "msgs sv x = Some m"
    and pl: "plist (msgs sv) (tx_pending_queue (tx_pop at x m)) (tx_pending_queue_end (tx_pop at x m)) xs"
    by (rule plist_pop_tx [OF Cons.prems(1)])
  have d: "x \<notin> set xs" using Cons.prems(1) by (simp add: plist_def)
  let ?sv = "tx_complete env (set_msg sv x (m\<lparr>done_len := -1\<rparr>)) (cookie_save m) 0"
  have "plist (msgs ?sv) (tx_pending_queue (tx_pop at x m)) (tx_pending_queue_end (tx_pop at x m)) xs"
    by (rule plist_cong [OF _ pl]) (use m in auto)
  from Cons.IH [OF this n(2)] obtain sv' at' where
    r: "cleanup_tx env k ?sv (tx_pop at x m) = Inr (sv', at')"
    "tabs sv' = tabs ?sv" "trace sv' = trace ?sv" "msgs sv' = failed_msgs (msgs ?sv) xs"
    "rx_virtqueue sv' = rx_virtqueue ?sv"
    "vq_used (tx_virtqueue sv') = vq_used (tx_virtqueue ?sv) @
       map (\<lambda>c. (c, 0)) (cookies (msgs ?sv) xs)"
    "vq_avail (tx_virtqueue sv') = vq_avail (tx_virtqueue ?sv)"
    "rx_pending_queue at' = rx_pending_queue (tx_pop at x m)"
    "rx_pending_queue_end at' = rx_pending_queue_end (tx_pop at x m)"
    by blast
  have "cookies (msgs sv) (x # xs) = ucast (cookie_save m) # cookies (msgs sv) xs"
    using m(4) by (simp add: cookies_def)
  then show ?case
    using r m n d cookies_other [OF d] failed_msgs_Cons [where ms = "msgs sv", OF d m(4)] add_used_room [OF room]
    by (simp add: deref_def Let_def)
qed

lemma cleanup_rx_ok:
  assumes room: "ring_room env"
  shows "plist (msgs sv) (rx_pending_queue at) (rx_pending_queue_end at) xs \<Longrightarrow> length xs \<le> n \<Longrightarrow>
    \<exists>sv' at'. cleanup_rx env n sv at = Inr (sv', at') \<and> tabs sv' = tabs sv \<and> trace sv' = trace sv \<and>
      msgs sv' = failed_msgs (msgs sv) xs \<and> tx_virtqueue sv' = tx_virtqueue sv \<and>
      vq_used (rx_virtqueue sv') = vq_used (rx_virtqueue sv) @ map (\<lambda>c. (c, 0)) (cookies (msgs sv) xs) \<and>
      vq_avail (rx_virtqueue sv') = vq_avail (rx_virtqueue sv)"
proof (induction xs arbitrary: n sv at)
  case Nil
  then show ?case by (cases n) (auto simp: plist_Nil cookies_def)
next
  case (Cons x xs)
  obtain k where n: "n = Suc k" "length xs \<le> k" using Cons.prems(2) by (cases n) auto
  obtain m where m: "rx_pending_queue at = x" "x \<noteq> 0" "rx_pending_queue_end at \<noteq> 0" "msgs sv x = Some m"
    and pl: "plist (msgs sv) (rx_pending_queue (rx_pop at x m)) (rx_pending_queue_end (rx_pop at x m)) xs"
    by (rule plist_pop_rx [OF Cons.prems(1)])
  have d: "x \<notin> set xs" using Cons.prems(1) by (simp add: plist_def)
  let ?sv = "rx_complete env (set_msg sv x (m\<lparr>done_len := -1\<rparr>)) (cookie_save m) 0"
  have "plist (msgs ?sv) (rx_pending_queue (rx_pop at x m)) (rx_pending_queue_end (rx_pop at x m)) xs"
    by (rule plist_cong [OF _ pl]) (use m in auto)
  from Cons.IH [OF this n(2)] obtain sv' at' where
    r: "cleanup_rx env k ?sv (rx_pop at x m) = Inr (sv', at')"
    "tabs sv' = tabs ?sv" "trace sv' = trace ?sv" "msgs sv' = failed_msgs (msgs ?sv) xs"
    "tx_virtqueue sv' = tx_virtqueue ?sv"
    "vq_used (rx_virtqueue sv') = vq_used (rx_virtqueue ?sv) @
       map (\<lambda>c. (c, 0)) (cookies (msgs ?sv) xs)"
    "vq_avail (rx_virtqueue sv') = vq_avail (rx_virtqueue ?sv)" by blast
  have "cookies (msgs sv) (x # xs) = ucast (cookie_save m) # cookies (msgs sv) xs"
    using m(4) by (simp add: cookies_def)
  then show ?case
    using r m n d cookies_other [OF d] failed_msgs_Cons [where ms = "msgs sv", OF d m(4)] add_used_room [OF room]
    by (simp add: deref_def Let_def)
qed

section \<open>The invariant of the server\<close>

definition async_ok :: "(ptr \<Rightarrow> tx_msg option) \<Rightarrow> nat \<Rightarrow> picoserver_socket_async \<Rightarrow> bool" where
  "async_ok ms n at \<longleftrightarrow>
     (\<exists>xs. plist ms (tx_pending_queue at) (tx_pending_queue_end at) xs \<and> length xs \<le> n) \<and>
     (\<exists>ys. plist ms (rx_pending_queue at) (rx_pending_queue_end at) ys \<and> length ys \<le> n)"

definition server_inv :: "nat \<Rightarrow> server \<Rightarrow> bool" where
  "server_inv n sv \<longleftrightarrow> tables_inv (tabs sv) \<and>
     (\<forall>p s at. heap (tabs sv) p = Some s \<longrightarrow> async_transport s = Some at \<longrightarrow> async_ok (msgs sv) n at)"

definition valid_client :: "server \<Rightarrow> u64 \<Rightarrow> bool" where
  "valid_client sv cid \<longleftrightarrow> cid < scast (num_clients (tabs sv))"

lemma valid_client_index:
  assumes "tables_inv (tabs sv)" and "valid_client sv cid"
  shows "unat cid < length (clients (tabs sv))"
proof -
  let ?n = "num_clients (tabs sv)"
  have n: "0 \<le> sint ?n" "length (clients (tabs sv)) = nat (sint ?n)"
    using assms(1) by (auto simp: tables_inv_def)
  have lt: "sint ?n < 2 ^ 31" using sint_lt [of ?n] by simp
  have "uint (scast ?n :: u64) = sint ?n"
    unfolding scast_eq uint_word_of_int_eq using n(1) lt by (simp add: take_bit_int_eq_self)
  then have "unat (scast ?n :: u64) = nat (sint ?n)"
    by (metis nat_uint_eq)
  then show ?thesis using assms(2) n(2) by (simp add: valid_client_def word_less_nat_alt)
qed

lemma client_check_ok: "valid_client sv cid \<Longrightarrow> client_check sv cid = Inr cid"
  by (simp add: client_check_def valid_client_def not_le)

lemma async_ok_cong:
  assumes "\<And>x m. ms x = Some m \<Longrightarrow> \<exists>m'. ms' x = Some m' \<and> next_msg m' = next_msg m" and "async_ok ms n at"
  shows "async_ok ms' n at"
  using assms plist_cong [of ms ms'] unfolding async_ok_def by blast

lemma server_inv_trace [simp]: "server_inv n (sv\<lparr>trace := t\<rparr>) = server_inv n sv"
  by (simp add: server_inv_def)

lemma call_simps [simp]:
  "tabs (fst (call env sv c)) = tabs sv" "msgs (fst (call env sv c)) = msgs sv"
  "trace (fst (call env sv c)) = trace sv @ [c]" "server_inv n (fst (call env sv c)) = server_inv n sv"
  by (simp_all add: call_def)

text \<open>Sockets of a client, as PicoTCP sees them.\<close>

definition owns :: "server \<Rightarrow> u64 \<Rightarrow> ptr \<Rightarrow> bool" where
  "owns sv cid a \<longleftrightarrow> (\<exists>fd p s. fd_tab (tabs sv) (unat cid) fd = Some (Some p) \<and>
     heap (tabs sv) p = Some s \<and> pico_socket s = a)"

lemma with_socket_ok:
  assumes inv: "server_inv n sv" and v: "valid_client sv cid"
  obtains "with_socket sv cid fd err f = Inr (sv, err)"
  | p s where "with_socket sv cid fd err f = f cid p s" "fd_tab (tabs sv) (unat cid) fd = Some (Some p)"
      "heap (tabs sv) p = Some s" "p \<noteq> 0" "0 \<le> sint fd" "owns sv cid (pico_socket s)" "socket_fd s = fd"
proof (cases "sint fd < 0")
  case True
  then show ?thesis
    using that(1) client_check_ok [OF v] by (simp add: with_socket_def server_control_common_def)
next
  case False
  have t: "tables_inv (tabs sv)" using inv by (simp add: server_inv_def)
  note c = valid_client_index [OF t v]
  note e = client_get_socket_ok [OF t c, of fd]
  show ?thesis
  proof (cases rule: socket_of_cases [OF t c, of fd])
    case 1
    then show ?thesis
      using that(1) client_check_ok [OF v] False e by (simp add: with_socket_def server_control_common_def)
  next
    case (2 p s)
    then have "with_socket sv cid fd err f = f cid p s"
      using client_check_ok [OF v] False e by (simp add: with_socket_def server_control_common_def deref_def)
    moreover have "owns sv cid (pico_socket s)" using 2 unfolding owns_def by blast
    ultimately show ?thesis using that(2) 2 False by simp
  qed
qed

text \<open>Registering a new socket.\<close>

lemma register_socket_ok:
  assumes inv: "server_inv n sv" and v: "valid_client sv cid" and p: "p \<noteq> 0" "heap (tabs sv) p = None"
    and s: "addr_tab (tabs sv) (pico_socket s) = None" "unat (client_id s) = unat cid" "async_transport s = None"
    and room: "roomy (tabs sv) (unat cid)"
  obtains sv' where "register_socket env a1 a2 sv cid p s = Inr (sv', -1)" "server_inv n sv'"
      "trace sv' = trace sv @ [PicoClose (pico_socket s)]" "\<not> (kalloc_ok a1 \<and> kalloc_ok a2)"
      "heap (tabs sv') = heap (tabs sv)" "addr_tab (tabs sv') = addr_tab (tabs sv)"
  | sv' fd where "register_socket env a1 a2 sv cid p s = Inr (sv', fd)" "server_inv n sv'"
      "trace sv' = trace sv" "1 \<le> unat fd" "unat fd \<le> int_max" "fd_tab (tabs sv) (unat cid) fd = None"
      "tabs_are (tabs sv') (tabs sv)
        ((fd_tab (tabs sv))(unat cid := (fd_tab (tabs sv) (unat cid))(fd \<mapsto> Some p)))
        ((addr_tab (tabs sv))(pico_socket s \<mapsto> Some p)) (ev_tab (tabs sv)) ((heap (tabs sv))(p \<mapsto> s\<lparr>socket_fd := fd\<rparr>))"
proof -
  let ?st = "tabs sv"
  have t: "tables_inv ?st" using inv by (simp add: server_inv_def)
  note c = valid_client_index [OF t v]
  let ?st1 = "?st\<lparr>heap := (heap ?st)(p \<mapsto> s)\<rparr>"
  have h1: "hashes_inv ?st1" using tables_inv_hashes [OF t] by (simp add: hashes_inv_def)
  have v1: "cid < scast (num_clients ?st1)" using v by (simp add: valid_client_def)
  have c1: "unat cid < length (clients ?st1)" using c by simp
  have p1: "heap ?st1 p = Some s" by simp
  have s1: "addr_tab ?st1 (pico_socket s) = None" using s(1) by simp
  have r1: "roomy ?st1 (unat cid)" using room by (simp add: roomy_def)
  show ?thesis
  proof (rule client_put_socket_fresh [OF h1 v1 c1 p(1) p1 s1 r1, of a1 a2])
    fix st'
    assume r: "client_put_socket a1 a2 ?st1 cid p = Inr (st', -1)" "\<not> (kalloc_ok a1 \<and> kalloc_ok a2)"
      and ta: "tabs_are st' ?st1 (fd_tab ?st1) (addr_tab ?st1) (ev_tab ?st1) (heap ?st1)"
    have hp: "heap st' = (heap ?st)(p \<mapsto> s)" using ta by (simp add: tabs_are_def)
    have restored: "((heap ?st)(p \<mapsto> s))(p := None) = heap ?st" using p(2) by (auto simp: fun_eq_iff)
    let ?sv' = "(fst (call env (sv\<lparr>tabs := st'\<rparr>) (PicoClose (pico_socket s))))\<lparr>tabs := st'\<lparr>heap := heap ?st\<rparr>\<rparr>"
    have "tabs_are (st'\<lparr>heap := heap ?st\<rparr>) ?st (fd_tab ?st) (addr_tab ?st) (ev_tab ?st) (heap ?st)"
      using ta by (auto simp: tabs_are_def hashes_inv_def)
    then have t': "tables_inv (st'\<lparr>heap := heap ?st\<rparr>)"
      by (rule tables_inv_fields [OF t]) (use t in \<open>auto simp: same_identity_def tables_inv_def\<close>)
    have e: "register_socket env a1 a2 sv cid p s = Inr (?sv', -1)"
      using r(1) p(1) hp restored by (simp add: register_socket_def Let_def call_def free_ptr_def)
    have "server_inv n ?sv'" using inv t' by (simp add: server_inv_def)
    moreover have "addr_tab st' = addr_tab ?st" using ta by (simp add: tabs_are_def)
    ultimately show ?thesis using that(1) e r(2) by simp
  next
    fix st' fd
    assume r: "client_put_socket a1 a2 ?st1 cid p = Inr (st', fd)" "fd_tab ?st1 (unat cid) fd = None"
        "1 \<le> unat fd" "unat fd \<le> int_max"
      and ta: "tabs_are st' ?st1 ((fd_tab ?st1)(unat cid := (fd_tab ?st1 (unat cid))(fd \<mapsto> Some p)))
        ((addr_tab ?st1)(pico_socket s \<mapsto> Some p)) (ev_tab ?st1) (heap ?st1)"
    let ?s = "s\<lparr>socket_fd := fd\<rparr>"
    let ?sv' = "set_heap (sv\<lparr>tabs := st'\<rparr>) p ?s"
    have "unat (-1 :: u32) = 4294967295" by (simp add: unsigned_minus_1_eq_mask mask_eq_exp_minus_1)
    then have fd: "fd \<noteq> 0" "fd \<noteq> -1" using r(3,4) by (auto simp: int_max_def)
    have hp: "heap st' = (heap ?st)(p \<mapsto> s)" using ta by (simp add: tabs_are_def)
    have ta': "tabs_are (tabs ?sv') ?st ((fd_tab ?st)(unat cid := (fd_tab ?st (unat cid))(fd \<mapsto> Some p)))
        ((addr_tab ?st)(pico_socket s \<mapsto> Some p)) (ev_tab ?st) ((heap ?st)(p \<mapsto> ?s))"
      using ta hp by (auto simp: tabs_are_def hashes_inv_def set_heap_def)
    have t': "tables_inv (tabs ?sv')"
      by (rule tables_inv_open [OF t c p, of ?s]) (use s r fd ta' in simp_all)
    have "server_inv n ?sv'" using inv t' hp s(3) by (auto simp: server_inv_def)
    moreover have "register_socket env a1 a2 sv cid p s = Inr (?sv', fd)"
      using r(1) fd by (simp add: register_socket_def Let_def)
    moreover have "trace ?sv' = trace sv" by simp
    moreover have "fd_tab ?st (unat cid) fd = None" using r(2) by simp
    ultimately show ?thesis using that(2) ta' r(3,4) by blast
  qed
qed

section \<open>Requests\<close>

datatype request =
    ReqOpen bool ptr kalloc kalloc
  | ReqBind cint u32 u16
  | ReqConnect cint u32 u16
  | ReqListen cint cint
  | ReqAccept cint ptr kalloc kalloc
  | ReqShutdown cint cint
  | ReqClose cint
  | ReqSetAsync cint bool bool
  | ReqPoll
  | ReqWrite "u8 list" cint cint cint
  | ReqSend "u8 list" cint cint cint
  | ReqSendto "u8 list" cint cint cint u32 u16
  | ReqRead "u8 list" cint cint cint
  | ReqRecv "u8 list" cint cint cint
  | ReqRecvfrom "u8 list" cint cint cint

definition state_of :: "(server \<times> 'r) outcome \<Rightarrow> server outcome" where
  "state_of r = obind r (\<lambda>(sv, _). Inr sv)"

text \<open>The effect of one request of client \<open>cid\<close> on the server, the results left out.\<close>

fun serve :: "pico_env \<Rightarrow> nat \<Rightarrow> u64 \<Rightarrow> request \<Rightarrow> server \<Rightarrow> server outcome" where
  "serve env n cid (ReqOpen is_udp p a1 a2) sv = state_of (pico_control_open env p a1 a2 sv cid is_udp)"
| "serve env n cid (ReqBind fd addr port) sv = state_of (pico_control_bind env sv cid fd addr port)"
| "serve env n cid (ReqConnect fd addr port) sv = state_of (pico_control_connect env sv cid fd addr port)"
| "serve env n cid (ReqListen fd backlog) sv = state_of (pico_control_listen env sv cid fd backlog)"
| "serve env n cid (ReqAccept fd p a1 a2) sv = state_of (pico_control_accept env p a1 a2 sv cid fd)"
| "serve env n cid (ReqShutdown fd mode) sv = state_of (pico_control_shutdown env sv cid fd mode)"
| "serve env n cid (ReqClose fd) sv = state_of (pico_control_close env n sv cid fd)"
| "serve env n cid (ReqSetAsync fd enabled calloc_ok) sv =
     state_of (pico_control_set_async env n calloc_ok sv cid fd enabled)"
| "serve env n cid ReqPoll sv = state_of (pico_control_event_poll sv cid)"
| "serve env n cid (ReqWrite buf fd len off) sv = state_of (pico_send_write env sv cid buf fd len off)"
| "serve env n cid (ReqSend buf fd len off) sv = state_of (pico_send_send env sv cid buf fd len off)"
| "serve env n cid (ReqSendto buf fd len off addr port) sv =
     state_of (pico_send_sendto env sv cid buf fd len off addr port)"
| "serve env n cid (ReqRead buf fd len off) sv = state_of (pico_recv_read env sv cid buf fd len off)"
| "serve env n cid (ReqRecv buf fd len off) sv = state_of (pico_recv_recv env sv cid buf fd len off)"
| "serve env n cid (ReqRecvfrom buf fd len off) sv = state_of (pico_recv_recvfrom env sv cid buf fd len off)"

text \<open>Documented behaviour of what the server relies on: the allocator hands out unused memory, the
  stack opens sockets that are not open yet and returns no more bytes than asked for, a buffer is no
  longer than half the address space.\<close>

fun request_ok :: "server \<Rightarrow> request \<Rightarrow> bool" where
  "request_ok sv (ReqOpen is_udp p a1 a2) \<longleftrightarrow> heap (tabs sv) p = None"
| "request_ok sv (ReqAccept fd p a1 a2) \<longleftrightarrow> heap (tabs sv) p = None"
| "request_ok sv (ReqWrite buf fd len off) \<longleftrightarrow> length buf < 2 ^ 63"
| "request_ok sv (ReqSend buf fd len off) \<longleftrightarrow> length buf < 2 ^ 63"
| "request_ok sv (ReqSendto buf fd len off addr port) \<longleftrightarrow> length buf < 2 ^ 63"
| "request_ok sv (ReqRead buf fd len off) \<longleftrightarrow> length buf < 2 ^ 63"
| "request_ok sv (ReqRecv buf fd len off) \<longleftrightarrow> length buf < 2 ^ 63"
| "request_ok sv (ReqRecvfrom buf fd len off) \<longleftrightarrow> length buf < 2 ^ 63"
| "request_ok sv r \<longleftrightarrow> True"

fun opens :: "pico_call \<Rightarrow> bool" where
  "opens (PicoOpen p) \<longleftrightarrow> True"
| "opens (PicoAccept s) \<longleftrightarrow> True"
| "opens c \<longleftrightarrow> False"

fun asked :: "pico_call \<Rightarrow> u64" where
  "asked (PicoRead s n) = n"
| "asked (PicoRecv s n) = n"
| "asked (PicoRecvfrom s n) = n"
| "asked c = 0"

definition stack_ok :: "pico_env \<Rightarrow> server \<Rightarrow> bool" where
  "stack_ok env sv \<longleftrightarrow> (\<forall>c. opens c \<longrightarrow> addr_tab (tabs sv) (r_ptr (reply env (trace sv) c)) = None) \<and>
     (\<forall>tr c. length (r_bytes (reply env tr c)) \<le> unat (asked c))"

fun call_target :: "pico_call \<Rightarrow> ptr option" where
  "call_target (PicoOpen p) = None"
| "call_target (PicoClose s) = Some s"
| "call_target (PicoBind s a p) = Some s"
| "call_target (PicoConnect s a p) = Some s"
| "call_target (PicoListen s b) = Some s"
| "call_target (PicoAccept s) = Some s"
| "call_target (PicoShutdown s m) = Some s"
| "call_target (PicoWrite s bs) = Some s"
| "call_target (PicoSend s bs) = Some s"
| "call_target (PicoSendto s bs a p) = Some s"
| "call_target (PicoRead s n) = Some s"
| "call_target (PicoRecv s n) = Some s"
| "call_target (PicoRecvfrom s n) = Some s"
| "call_target PicoGetDevice = None"
| "call_target PicoTick = None"

text \<open>A call made for client \<open>cid\<close> names no socket, one of the client's, or one that the stack has just
  handed out for this request.\<close>

definition allowed :: "pico_env \<Rightarrow> server \<Rightarrow> u64 \<Rightarrow> pico_call \<Rightarrow> bool" where
  "allowed env sv cid c \<longleftrightarrow> (case call_target c of None \<Rightarrow> True
     | Some a \<Rightarrow> owns sv cid a \<or> (\<exists>c'. opens c' \<and> a = r_ptr (reply env (trace sv) c')))"

definition served :: "pico_env \<Rightarrow> nat \<Rightarrow> server \<Rightarrow> u64 \<Rightarrow> server outcome \<Rightarrow> bool" where
  "served env n sv cid r \<longleftrightarrow> (\<exists>sv' cs. r = Inr sv' \<and> server_inv n sv' \<and> trace sv' = trace sv @ cs \<and>
     list_all (allowed env sv cid) cs)"

lemma servedI: "r = Inr sv' \<Longrightarrow> server_inv n sv' \<Longrightarrow> trace sv' = trace sv @ cs \<Longrightarrow>
    list_all (allowed env sv cid) cs \<Longrightarrow> served env n sv cid r"
  by (auto simp: served_def)

lemma served_same: "server_inv n sv \<Longrightarrow> served env n sv cid (Inr sv)"
  by (rule servedI [where cs = "[]"]) simp_all

lemma served_call: "server_inv n sv \<Longrightarrow> call_target c = Some a \<Longrightarrow> owns sv cid a \<Longrightarrow>
    served env n sv cid (state_of (call_ret env sv c))"
  by (rule servedI [where sv' = "fst (call env sv c)" and cs = "[c]"])
    (simp_all add: call_ret_def state_of_def allowed_def, simp add: call_def)

lemma call_fst_snd: "call env sv c = (fst (call env sv c), reply env (trace sv) c)"
  by (simp add: call_def)

lemma register_served:
  assumes inv: "server_inv n sv" and v: "valid_client sv cid" and p: "p \<noteq> 0" "heap (tabs sv) p = None"
    and a: "addr_tab (tabs sv) (r_ptr (reply env (trace sv) c)) = None" and c: "opens c" "allowed env sv cid c"
    and room: "roomy (tabs sv) (unat cid)"
  obtains sv' ret where "register_socket env a1 a2 (fst (call env sv c)) cid p
      (new_socket cid proto (r_ptr (reply env (trace sv) c))) = Inr (sv', ret)"
    and "served env n sv cid (Inr sv')"
proof -
  let ?sv = "fst (call env sv c)" and ?s = "new_socket cid proto (r_ptr (reply env (trace sv) c))"
  have t: "tables_inv (tabs sv)" using inv by (simp add: server_inv_def)
  have i: "server_inv n ?sv" and vv: "valid_client ?sv cid" and pp: "heap (tabs ?sv) p = None"
    using inv v p by (simp_all add: valid_client_def)
  have "unat cid < nat (sint (num_clients (tabs sv)))"
    using valid_client_index [OF t v] t by (simp add: tables_inv_def)
  moreover have "sint (num_clients (tabs sv)) < 2 ^ 31" using sint_lt [of "num_clients (tabs sv)"] by simp
  ultimately have "int (unat cid) < 2 ^ 31" unfolding zless_nat_eq_int_zless by linarith
  then have "int (unat cid) < int (2 ^ 31)" unfolding of_nat_power of_nat_numeral .
  then have lt: "unat cid < 2 ^ 31" by (simp only: of_nat_less_iff)
  have "unat (ucast cid :: cint) = unat cid"
    unfolding unsigned_ucast_eq using lt by (simp add: take_bit_nat_eq_self)
  then have s: "addr_tab (tabs ?sv) (pico_socket ?s) = None" "unat (client_id ?s) = unat cid" "async_transport ?s = None"
    using a by (simp_all add: new_socket_def)
  have r: "roomy (tabs ?sv) (unat cid)" using room by simp
  have al: "allowed env sv cid (PicoClose (pico_socket ?s))"
    using c(1) by (auto simp: allowed_def new_socket_def)
  show ?thesis
  proof (rule register_socket_ok [OF i vv p(1) pp s r, of env a1 a2])
    fix sv' assume "register_socket env a1 a2 ?sv cid p ?s = Inr (sv', -1)" "server_inv n sv'"
      "trace sv' = trace ?sv @ [PicoClose (pico_socket ?s)]"
    then show ?thesis
      by (intro that [of sv' "-1"] servedI [where cs = "[c, PicoClose (pico_socket ?s)]"]) (use c al in simp_all)
  next
    fix sv' fd assume "register_socket env a1 a2 ?sv cid p ?s = Inr (sv', fd)" "server_inv n sv'" "trace sv' = trace ?sv"
    then show ?thesis
      by (intro that [of sv' fd] servedI [where cs = "[c]"]) (use c in simp_all)
  qed
qed

lemma open_served:
  assumes inv: "server_inv n sv" and v: "valid_client sv cid" and st: "stack_ok env sv"
    and p: "heap (tabs sv) p = None" and room: "roomy (tabs sv) (unat cid)"
  shows "served env n sv cid (state_of (pico_control_open env p a1 a2 sv cid is_udp))"
proof (cases "p = 0")
  case True
  then show ?thesis using client_check_ok [OF v] served_same [OF inv] by (simp add: pico_control_open_def state_of_def)
next
  case False
  let ?proto = "if is_udp then PICO_PROTO_UDP else PICO_PROTO_TCP"
  let ?c = "PicoOpen ?proto"
  have al: "allowed env sv cid ?c" by (simp add: allowed_def)
  have a: "addr_tab (tabs sv) (r_ptr (reply env (trace sv) ?c)) = None" using st by (simp add: stack_ok_def)
  show ?thesis
  proof (cases "r_ptr (reply env (trace sv) ?c) = 0")
    case True
    show ?thesis
      by (rule servedI [where sv' = "fst (call env sv ?c)" and cs = "[?c]"])
        (use inv al True False client_check_ok [OF v] in \<open>simp_all add: pico_control_open_def state_of_def call_def Let_def\<close>)
  next
    case nz: False
    obtain sv' ret where "register_socket env a1 a2 (fst (call env sv ?c)) cid p
        (new_socket cid ?proto (r_ptr (reply env (trace sv) ?c))) = Inr (sv', ret)" "served env n sv cid (Inr sv')"
      by (rule register_served [OF inv v False p a _ al room]) simp
    then show ?thesis
      using False nz client_check_ok [OF v] by (simp add: pico_control_open_def state_of_def Let_def call_def)
  qed
qed

lemma accept_served:
  assumes inv: "server_inv n sv" and v: "valid_client sv cid" and st: "stack_ok env sv"
    and p: "heap (tabs sv) p = None" and room: "roomy (tabs sv) (unat cid)"
  shows "served env n sv cid (state_of (pico_control_accept env p a1 a2 sv cid fd))"
  unfolding pico_control_accept_def
proof (rule with_socket_ok [OF inv v, of fd peer_error])
  fix f :: "u64 \<Rightarrow> ptr \<Rightarrow> picoserver_socket \<Rightarrow> (server \<times> picoserver_peer) outcome"
  assume "with_socket sv cid fd peer_error f = Inr (sv, peer_error)"
  then show "served env n sv cid (state_of (with_socket sv cid fd peer_error f))"
    using served_same [OF inv] by (simp add: state_of_def)
next
  fix q s
  let ?f = "\<lambda>cid q s.
       let (sv, r) = call env sv (PicoAccept (pico_socket s)) in
       if r_ptr r = 0 then Inr (sv, peer_error)
       else if p = 0 then Inr (fst (call env sv (PicoClose (r_ptr r))), peer_error)
       else obind (register_socket env a1 a2 sv cid p (new_socket cid PICO_PROTO_TCP (r_ptr r))) (\<lambda>(sv, ret).
         if ret = -1 then Inr (sv, peer_error)
         else Inr (sv, \<lparr>peer_result = 0, peer_socket = ret, peer_addr = r_addr r, peer_port = r_port r\<rparr>))"
  assume w: "with_socket sv cid fd peer_error ?f = ?f cid q s" and o: "owns sv cid (pico_socket s)"
  let ?c = "PicoAccept (pico_socket s)"
  let ?r = "reply env (trace sv) ?c" and ?sv = "fst (call env sv ?c)"
  have al: "allowed env sv cid ?c" using o by (simp add: allowed_def)
  have al2: "allowed env sv cid (PicoClose (r_ptr ?r))" unfolding allowed_def
    by (simp, rule disjI2, rule exI [of _ ?c]) simp
  have a: "addr_tab (tabs sv) (r_ptr ?r) = None" using st by (simp add: stack_ok_def)
  consider "r_ptr ?r = 0" | "r_ptr ?r \<noteq> 0" "p = 0" | "r_ptr ?r \<noteq> 0" "p \<noteq> 0" by blast
  then show "served env n sv cid (state_of (with_socket sv cid fd peer_error ?f))"
  proof cases
    case 1
    show ?thesis unfolding w
      by (rule servedI [where sv' = ?sv and cs = "[?c]"]) (use inv al 1 in \<open>simp_all add: state_of_def call_def\<close>)
  next
    case 2
    show ?thesis unfolding w
      by (rule servedI [where sv' = "fst (call env ?sv (PicoClose (r_ptr ?r)))" and cs = "[?c, PicoClose (r_ptr ?r)]"])
        (use inv al al2 2 in \<open>simp_all add: state_of_def call_def\<close>)
  next
    case 3
    obtain sv' ret where r: "register_socket env a1 a2 ?sv cid p (new_socket cid PICO_PROTO_TCP (r_ptr ?r)) = Inr (sv', ret)"
      "served env n sv cid (Inr sv')"
      by (rule register_served [OF inv v 3(2) p a _ al room]) simp
    then show ?thesis unfolding w using 3 by (simp add: state_of_def Let_def call_def)
  qed
qed

lemma control_served:
  assumes inv: "server_inv n sv" and v: "valid_client sv cid"
    and f: "\<And>p s. fd_tab (tabs sv) (unat cid) fd = Some (Some p) \<Longrightarrow> heap (tabs sv) p = Some s \<Longrightarrow> p \<noteq> 0 \<Longrightarrow>
      0 \<le> sint fd \<Longrightarrow> owns sv cid (pico_socket s) \<Longrightarrow> socket_fd s = fd \<Longrightarrow> served env n sv cid (state_of (f cid p s))"
  shows "served env n sv cid (state_of (with_socket sv cid fd err f))"
proof (rule with_socket_ok [OF inv v, of fd err f])
  assume "with_socket sv cid fd err f = Inr (sv, err)"
  then show ?thesis using served_same [OF inv] by (simp add: state_of_def)
next
  fix p s
  assume "with_socket sv cid fd err f = f cid p s" "fd_tab (tabs sv) (unat cid) fd = Some (Some p)"
    "heap (tabs sv) p = Some s" "p \<noteq> 0" "0 \<le> sint fd" "owns sv cid (pico_socket s)" "socket_fd s = fd"
  then show ?thesis using f by simp
qed

lemma cleanup_async_socket_ok:
  assumes room: "ring_room env" and p: "p \<noteq> 0" "heap (tabs sv) p = Some s"
    and at: "async_transport s = Some at"
    and xs: "plist (msgs sv) (tx_pending_queue at) (tx_pending_queue_end at) xs" "length xs \<le> n"
    and ys: "plist (msgs sv) (rx_pending_queue at) (rx_pending_queue_end at) ys" "length ys \<le> n"
  obtains sv' where "cleanup_async_socket env n sv p = Inr sv'" "trace sv' = trace sv"
    "tabs sv' = (tabs sv)\<lparr>heap := (heap (tabs sv))(p \<mapsto> s\<lparr>async_transport := None\<rparr>)\<rparr>"
    "msgs sv' = failed_msgs (failed_msgs (msgs sv) xs) ys"
    "vq_used (tx_virtqueue sv') = vq_used (tx_virtqueue sv) @ map (\<lambda>c. (c, 0)) (cookies (msgs sv) xs)"
    "vq_used (rx_virtqueue sv') = vq_used (rx_virtqueue sv) @ map (\<lambda>c. (c, 0)) (cookies (msgs sv) ys)"
proof -
  obtain sv1 at1 where t: "cleanup_tx env n sv at = Inr (sv1, at1)" "tabs sv1 = tabs sv" "trace sv1 = trace sv"
    "msgs sv1 = failed_msgs (msgs sv) xs" "rx_virtqueue sv1 = rx_virtqueue sv"
    "vq_used (tx_virtqueue sv1) = vq_used (tx_virtqueue sv) @ map (\<lambda>c. (c, 0)) (cookies (msgs sv) xs)"
    "rx_pending_queue at1 = rx_pending_queue at" "rx_pending_queue_end at1 = rx_pending_queue_end at"
    using cleanup_tx_ok [OF room xs] by blast
  have y1: "plist (msgs sv1) (rx_pending_queue at1) (rx_pending_queue_end at1) ys"
    unfolding t(4,7,8) by (rule plist_cong [OF failed_msgs_next ys(1)])
  obtain sv2 at2 where r: "cleanup_rx env n sv1 at1 = Inr (sv2, at2)" "tabs sv2 = tabs sv1" "trace sv2 = trace sv1"
    "msgs sv2 = failed_msgs (msgs sv1) ys" "tx_virtqueue sv2 = tx_virtqueue sv1"
    "vq_used (rx_virtqueue sv2) = vq_used (rx_virtqueue sv1) @ map (\<lambda>c. (c, 0)) (cookies (msgs sv1) ys)"
    using cleanup_rx_ok [OF room y1 ys(2)] by blast
  have ck: "cookies (msgs sv1) ys = cookies (msgs sv) ys"
    using chain_nz [of "msgs sv" "rx_pending_queue at" ys] ys(1)
    unfolding t(4) cookies_def plist_def by (fastforce simp: failed_msgs_def)
  show ?thesis
    by (rule that [of "set_async sv2 p s None"])
      (use p at t r ck in \<open>simp_all add: cleanup_async_socket_def deref_def set_async_def\<close>,
       simp add: set_heap_def)
qed

lemma server_inv_async:
  assumes "server_inv n sv" "heap (tabs sv) p = Some s" "async_transport s = Some at"
  obtains xs ys where "plist (msgs sv) (tx_pending_queue at) (tx_pending_queue_end at) xs" "length xs \<le> n"
    "plist (msgs sv) (rx_pending_queue at) (rx_pending_queue_end at) ys" "length ys \<le> n"
  using assms unfolding server_inv_def async_ok_def by blast

lemma cleanup_inv:
  assumes inv: "server_inv n sv" and room: "ring_room env" and p: "p \<noteq> 0" "heap (tabs sv) p = Some s"
  obtains sv' where "cleanup_async_socket env n sv p = Inr sv'" "server_inv n sv'" "trace sv' = trace sv"
    "tabs sv' = (tabs sv)\<lparr>heap := (heap (tabs sv))(p \<mapsto> s\<lparr>async_transport := None\<rparr>)\<rparr>"
proof (cases "async_transport s")
  case None
  then have "s\<lparr>async_transport := None\<rparr> = s" by simp
  then have "(heap (tabs sv))(p \<mapsto> s\<lparr>async_transport := None\<rparr>) = heap (tabs sv)"
    using p(2) by (simp add: fun_upd_idem)
  then show ?thesis
    using that [of sv] None p inv by (simp add: cleanup_async_socket_def deref_def)
next
  case (Some at)
  obtain xs ys where q: "plist (msgs sv) (tx_pending_queue at) (tx_pending_queue_end at) xs" "length xs \<le> n"
    "plist (msgs sv) (rx_pending_queue at) (rx_pending_queue_end at) ys" "length ys \<le> n"
    by (rule server_inv_async [OF inv p(2) Some])
  obtain sv' where r: "cleanup_async_socket env n sv p = Inr sv'" "trace sv' = trace sv"
    "tabs sv' = (tabs sv)\<lparr>heap := (heap (tabs sv))(p \<mapsto> s\<lparr>async_transport := None\<rparr>)\<rparr>"
    "msgs sv' = failed_msgs (failed_msgs (msgs sv) xs) ys"
    by (rule cleanup_async_socket_ok [OF room p Some q])
  have t: "tables_inv (tabs sv)" using inv by (simp add: server_inv_def)
  have "tabs_are (tabs sv') (tabs sv) (fd_tab (tabs sv)) (addr_tab (tabs sv)) (ev_tab (tabs sv))
      ((heap (tabs sv))(p \<mapsto> s\<lparr>async_transport := None\<rparr>))"
    unfolding r(3) by (rule tabs_are_heap [OF tabs_are_refl [OF tables_inv_hashes [OF t]]])
  then have "tables_inv (tabs sv')"
    by (rule tables_inv_fields [OF t])
      (use p t in \<open>auto simp: same_identity_def tables_inv_def\<close>)
  moreover have "async_ok (msgs sv') n a" if "async_ok (msgs sv) n a" for a
    by (rule async_ok_cong [OF _ that]) (auto simp: r(4) failed_msgs_def)
  ultimately have "server_inv n sv'"
    using inv unfolding server_inv_def r(3) by (auto split: if_splits)
  then show ?thesis using that r by blast
qed

lemma close_served:
  assumes inv: "server_inv n sv" and v: "valid_client sv cid" and room: "ring_room env"
  shows "served env n sv cid (state_of (pico_control_close env n sv cid fd))"
  unfolding pico_control_close_def
proof (rule control_served [OF inv v])
  fix p s
  assume fd: "fd_tab (tabs sv) (unat cid) fd = Some (Some p)" and p: "heap (tabs sv) p = Some s" "p \<noteq> 0"
    and o: "owns sv cid (pico_socket s)"
  obtain sv1 where c1: "cleanup_async_socket env n sv p = Inr sv1" "server_inv n sv1" "trace sv1 = trace sv"
    "tabs sv1 = (tabs sv)\<lparr>heap := (heap (tabs sv))(p \<mapsto> s\<lparr>async_transport := None\<rparr>)\<rparr>"
    by (rule cleanup_inv [OF inv room p(2,1)])
  have t1: "tables_inv (tabs sv1)" using c1(2) by (simp add: server_inv_def)
  have v1: "valid_client sv1 cid" using v by (simp add: valid_client_def c1(4))
  note cx = valid_client_index [OF t1 v1]
  have f1: "fd_tab (tabs sv1) (unat cid) fd = Some (Some p)" using fd by (simp add: c1(4))
  have p1: "heap (tabs sv1) p = Some (s\<lparr>async_transport := None\<rparr>)" by (simp add: c1(4))
  obtain st' where d: "client_delete_socket (tabs sv1) cid fd = Inr (st', Some (pico_socket s), 0)"
    and ta: "tabs_are st' (tabs sv1) ((fd_tab (tabs sv1))(unat cid := (fd_tab (tabs sv1) (unat cid))(fd := None)))
      ((addr_tab (tabs sv1))(pico_socket s := None)) ((ev_tab (tabs sv1))(unat cid := (ev_tab (tabs sv1) (unat cid))(fd := None)))
      ((heap (tabs sv1))(p := None))"
    by (rule client_delete_socket_ok [OF t1 cx f1 p1]) simp
  have t': "tables_inv st'" by (rule tables_inv_close [OF t1 cx f1 p1]) (use ta in simp)
  have hp: "heap st' = (heap (tabs sv1))(p := None)" using ta by (simp add: tabs_are_def)
  let ?sv2 = "fst (call env (sv1\<lparr>tabs := st'\<rparr>) (PicoClose (pico_socket s)))"
  have "server_inv n (sv1\<lparr>tabs := st'\<rparr>)"
    using c1(2) t' unfolding server_inv_def by (auto simp: hp split: if_splits)
  then have i2: "server_inv n ?sv2" by simp
  have "allowed env sv cid (PicoClose (pico_socket s))" using o by (simp add: allowed_def)
  then show "served env n sv cid (state_of (obind (cleanup_async_socket env n sv p) (\<lambda>sv.
       obind (client_delete_socket (tabs sv) cid fd) (\<lambda>(st, closed, ret).
       let sv = sv\<lparr>tabs := st\<rparr> in
       Inr (case closed of None \<Rightarrow> sv | Some x \<Rightarrow> fst (call env sv (PicoClose x)), ret)))))"
    using c1 d i2 by (intro servedI [where sv' = ?sv2 and cs = "[PicoClose (pico_socket s)]"])
      (simp_all add: state_of_def Let_def)
qed

lemma set_async_served:
  assumes inv: "server_inv n sv" and v: "valid_client sv cid" and room: "ring_room env"
  shows "served env n sv cid (state_of (pico_control_set_async env n calloc_ok sv cid fd enabled))"
  unfolding pico_control_set_async_def
proof (rule control_served [OF inv v])
  fix p s
  assume p: "heap (tabs sv) p = Some s" "p \<noteq> 0"
  have t: "tables_inv (tabs sv)" using inv by (simp add: server_inv_def)
  obtain sv1 where c1: "cleanup_async_socket env n sv p = Inr sv1" "server_inv n sv1" "trace sv1 = trace sv"
    by (rule cleanup_inv [OF inv room p(2,1)])
  let ?sv2 = "set_async sv p s (Some empty_async)"
  have "tabs_are (tabs ?sv2) (tabs sv) (fd_tab (tabs sv)) (addr_tab (tabs sv)) (ev_tab (tabs sv))
      ((heap (tabs sv))(p \<mapsto> s\<lparr>async_transport := Some empty_async\<rparr>))"
    using tabs_are_heap [OF tabs_are_refl [OF tables_inv_hashes [OF t]]]
    by (simp add: set_async_def set_heap_def)
  then have "tables_inv (tabs ?sv2)"
    by (rule tables_inv_fields [OF t]) (use p t in \<open>auto simp: same_identity_def tables_inv_def\<close>)
  moreover have "async_ok ms n empty_async" for ms
    unfolding async_ok_def empty_async_def by (auto intro: exI [of _ "[]"] simp: plist_def)
  ultimately have "server_inv n ?sv2"
    using inv unfolding server_inv_def set_async_def by (auto split: if_splits)
  then have "served env n sv cid (Inr ?sv2)" "served env n sv cid (Inr sv1)"
    using c1 by (auto intro!: servedI [where cs = "[]"] simp: set_async_def)
  then show "served env n sv cid (state_of
      (if enabled \<and> async_transport s = None then
         if \<not> calloc_ok then Inr (sv, -1) else Inr (set_async sv p s (Some empty_async), 0)
       else if \<not> enabled \<and> async_transport s \<noteq> None then
         obind (cleanup_async_socket env n sv p) (\<lambda>sv. Inr (sv, 0))
       else Inr (sv, 0)))"
    using c1(1) served_same [OF inv] by (simp add: state_of_def)
qed

lemma poll_served:
  assumes inv: "server_inv n sv" and v: "valid_client sv cid"
  shows "served env n sv cid (state_of (pico_control_event_poll sv cid))"
proof -
  have t: "tables_inv (tabs sv)" using inv by (simp add: server_inv_def)
  note c = valid_client_index [OF t v]
  let ?e = "\<lparr>ev_socket_fd = 0, ev_events = 0, ev_num_left = 0\<rparr>"
  show ?thesis
  proof (rule client_get_event_ok [OF t c, of ?e])
    fix st' assume r: "client_get_event (tabs sv) cid ?e = Inr (st', ?e)"
      and ta: "tabs_are st' (tabs sv) (fd_tab (tabs sv)) (addr_tab (tabs sv)) (ev_tab (tabs sv)) (heap (tabs sv))"
    have "tables_inv st'"
      by (rule tables_inv_fields [OF t ta]) (use t in \<open>auto simp: same_identity_def tables_inv_def\<close>)
    then have "server_inv n (sv\<lparr>tabs := st'\<rparr>)" using inv ta by (auto simp: server_inv_def tabs_are_def)
    then show ?thesis using r client_check_ok [OF v]
      by (intro servedI [where sv' = "sv\<lparr>tabs := st'\<rparr>" and cs = "[]"])
        (simp_all add: pico_control_event_poll_def state_of_def)
  next
    fix st' g p s
    assume f: "fd_tab (tabs sv) (unat cid) g = Some (Some p)" "heap (tabs sv) p = Some s"
      and r: "client_get_event (tabs sv) cid ?e = Inr (st', \<lparr>ev_socket_fd = g, ev_events = events s,
         ev_num_left = of_nat (card (dom (ev_tab (tabs sv) (unat cid)) - {g}))\<rparr>)"
      and ta: "tabs_are st' (tabs sv) (fd_tab (tabs sv)) (addr_tab (tabs sv))
        ((ev_tab (tabs sv))(unat cid := (ev_tab (tabs sv) (unat cid))(g := None)))
        ((heap (tabs sv))(p \<mapsto> s\<lparr>events := 0\<rparr>))"
    have "tables_inv st'"
      by (rule tables_inv_fields [OF t ta])
        (use t f tables_inv_ev [OF t] in \<open>auto simp: same_identity_def domIff split: if_splits\<close>)
    then have "server_inv n (sv\<lparr>tabs := st'\<rparr>)"
      using inv ta f by (auto simp: server_inv_def tabs_are_def split: if_splits)
    then show ?thesis using r client_check_ok [OF v]
      by (intro servedI [where sv' = "sv\<lparr>tabs := st'\<rparr>" and cs = "[]"])
        (simp_all add: pico_control_event_poll_def state_of_def)
  qed
qed

section \<open>Bounds of the data interfaces\<close>

lemma unat_nonneg:
  assumes "0 \<le> sint (w :: cint)"
  shows "unat (scast w :: u64) = unat w" and "unat w < 2 ^ 31" and "sint w = int (unat w)"
proof -
  have lt: "sint w < 2 ^ 31" using sint_lt [of w] by simp
  have u: "sint w = uint w"
  proof -
    have "sint w = take_bit 32 (sint w)" using assms lt by (simp add: take_bit_int_eq_self)
    also have "\<dots> = uint w"
      using uint_word_of_int_eq [where ?'a = 32, of "sint w"] by simp
    finally show ?thesis .
  qed
  have "uint (scast w :: u64) = uint w"
    unfolding scast_eq uint_word_of_int_eq using assms lt u by (simp add: take_bit_int_eq_self)
  then show "unat (scast w :: u64) = unat w" by (metis nat_uint_eq)
  show "sint w = int (unat w)" using u by simp
  have "int (unat w) < int (2 ^ 31)" using lt u by simp
  then show "unat w < 2 ^ 31" by (simp only: of_nat_less_iff)
qed

lemma unat_neg:
  assumes "sint (w :: cint) < 0"
  shows "2 ^ 63 \<le> unat (scast w :: u64)"
proof -
  have ge: "- (2 ^ 31) \<le> sint w" using sint_ge [of w] by simp
  have "uint (scast w :: u64) = sint w mod 2 ^ 64"
    unfolding scast_eq uint_word_of_int_eq by (simp add: take_bit_eq_mod)
  also have "\<dots> = (sint w + 2 ^ 64) mod 2 ^ 64" by simp
  also have "\<dots> = sint w + 2 ^ 64" by (rule mod_pos_pos_trivial) (use assms ge in simp_all)
  finally have "int (2 ^ 63) \<le> int (unat (scast w :: u64))" using ge by simp
  then show ?thesis by (simp only: of_nat_le_iff)
qed

lemma server_communication_common_ok:
  assumes t: "tables_inv (tabs sv)" and c: "unat cid < length (clients (tabs sv))" and len: "length buf < 2 ^ 63"
  obtains "server_communication_common sv cid fd n off (of_nat (length buf)) = Inr None"
  | p s where "server_communication_common sv cid fd n off (of_nat (length buf)) = Inr (Some (p, scast off))"
      "fd_tab (tabs sv) (unat cid) fd = Some (Some p)" "heap (tabs sv) p = Some s" "p \<noteq> 0"
      "unat (scast off :: u64) + unat n \<le> length buf" "unat (scast n :: u64) = unat n"
      "owns sv cid (pico_socket s)"
proof -
  have bl: "unat (of_nat (length buf) :: u64) = length buf"
    unfolding unat_of_nat using len by simp
  show ?thesis
  proof (cases "sint fd < 0 \<or> sint n < 0 \<or> sint off < 0 \<or> scast (off + n) > (of_nat (length buf) :: u64)")
    case True
    then show ?thesis using that(1) by (auto simp: server_communication_common_def)
  next
    case False
    then have nn: "0 \<le> sint n" "0 \<le> sint off" by auto
    have small: "unat (scast (off + n) :: u64) \<le> length buf"
      using False bl by (simp add: word_less_nat_alt not_less)
    have "0 \<le> sint (off + n)"
      using unat_neg [of "off + n"] small len by (meson leI le_trans not_le)
    then have "unat (scast (off + n) :: u64) = unat (off + n)" by (rule unat_nonneg)
    moreover have "unat (off + n) = unat off + unat n"
      using unat_nonneg(2) [OF nn(1)] unat_nonneg(2) [OF nn(2)] by (simp add: unat_word_ariths)
    ultimately have fits: "unat (scast off :: u64) + unat n \<le> length buf"
      using small unat_nonneg(1) [OF nn(2)] by simp
    note e = client_get_socket_ok [OF t c, of fd]
    show ?thesis
    proof (cases rule: socket_of_cases [OF t c, of fd])
      case 1
      then show ?thesis using that(1) False e by (simp add: server_communication_common_def)
    next
      case (2 p s)
      then have "server_communication_common sv cid fd n off (of_nat (length buf)) = Inr (Some (p, scast off))"
        using False e by (simp add: server_communication_common_def)
      moreover have "owns sv cid (pico_socket s)" using 2 unfolding owns_def by blast
      ultimately show ?thesis using that(2) 2 fits unat_nonneg(1) [OF nn(1)] by blast
    qed
  qed
qed

lemma send_served:
  assumes inv: "server_inv n sv" and v: "valid_client sv cid" and len: "length buf < 2 ^ 63"
    and f: "\<And>a bs. call_target (f a bs) = Some a"
  shows "served env n sv cid (state_of (send_common env sv cid buf fd l off f))"
proof -
  have t: "tables_inv (tabs sv)" using inv by (simp add: server_inv_def)
  note c = valid_client_index [OF t v]
  show ?thesis
  proof (rule server_communication_common_ok [OF t c len, of fd l off])
    assume "server_communication_common sv cid fd l off (of_nat (length buf)) = Inr None"
    then show ?thesis using client_check_ok [OF v] served_same [OF inv] by (simp add: send_common_def state_of_def)
  next
    fix p s
    assume q: "server_communication_common sv cid fd l off (of_nat (length buf)) = Inr (Some (p, scast off))"
      "heap (tabs sv) p = Some s" "p \<noteq> 0" "unat (scast off :: u64) + unat l \<le> length buf" "owns sv cid (pico_socket s)"
    then have "state_of (send_common env sv cid buf fd l off f) =
        state_of (call_ret env sv (f (pico_socket s) (take (unat l) (drop (unat (scast off :: u64)) buf))))"
      using client_check_ok [OF v] by (simp add: send_common_def deref_def slice_def)
    then show ?thesis using served_call [OF inv f q(5)] by simp
  qed
qed

lemma recv_served:
  assumes inv: "server_inv n sv" and v: "valid_client sv cid" and len: "length buf < 2 ^ 63"
    and f: "\<And>a k. call_target (f a k) = Some a" "\<And>a k. asked (f a k) = k" and st: "stack_ok env sv"
  obtains sv' buf' q where "recv_common env sv cid buf fd l off f = Inr (sv', buf', q)"
    "served env n sv cid (Inr sv')" "length buf' = length buf"
proof -
  have t: "tables_inv (tabs sv)" using inv by (simp add: server_inv_def)
  note c = valid_client_index [OF t v]
  show ?thesis
  proof (rule server_communication_common_ok [OF t c len, of fd l off])
    assume "server_communication_common sv cid fd l off (of_nat (length buf)) = Inr None"
    then show ?thesis
      using that client_check_ok [OF v] served_same [OF inv] by (simp add: recv_common_def)
  next
    fix p s
    assume q: "server_communication_common sv cid fd l off (of_nat (length buf)) = Inr (Some (p, scast off))"
      "heap (tabs sv) p = Some s" "p \<noteq> 0" "unat (scast off :: u64) + unat l \<le> length buf"
      "unat (scast l :: u64) = unat l" "owns sv cid (pico_socket s)"
    let ?c = "f (pico_socket s) (scast l)" and ?o = "unat (scast off :: u64)"
    let ?r = "reply env (trace sv) ?c"
    have "length (r_bytes ?r) \<le> unat l" using st q(5) f(2) by (metis stack_ok_def)
    then have fits: "?o + length (r_bytes ?r) \<le> length buf" using q(4) by simp
    have "recv_common env sv cid buf fd l off f = Inr (fst (call env sv ?c),
        take ?o buf @ r_bytes ?r @ drop (?o + length (r_bytes ?r)) buf, Some ?r)"
      using client_check_ok [OF v] q fits by (simp add: recv_common_def deref_def splice_def call_def)
    moreover have "served env n sv cid (Inr (fst (call env sv ?c)))"
      by (rule servedI [where sv' = "fst (call env sv ?c)" and cs = "[?c]"])
        (use inv q(6) f in \<open>simp_all add: allowed_def\<close>)
    ultimately show ?thesis using that fits by simp
  qed
qed

text \<open>Every request.\<close>

lemma serve_served:
  assumes inv: "server_inv n sv" and v: "valid_client sv cid" and st: "stack_ok env sv" and rg: "ring_room env"
    and r: "request_ok sv req" and room: "roomy (tabs sv) (unat cid)"
  shows "served env n sv cid (serve env n cid req sv)"
proof (cases req)
  case (ReqOpen u p a1 a2)
  then show ?thesis using open_served [OF inv v st _ room] r by simp
next
  case (ReqAccept fd p a1 a2)
  then show ?thesis using accept_served [OF inv v st _ room] r by simp
next
  case (ReqBind fd a p)
  show ?thesis unfolding ReqBind serve.simps pico_control_bind_def
    by (rule control_served [OF inv v]) (auto intro: served_call [OF inv])
next
  case (ReqConnect fd a p)
  show ?thesis unfolding ReqConnect serve.simps pico_control_connect_def
    by (rule control_served [OF inv v]) (auto intro: served_call [OF inv])
next
  case (ReqListen fd b)
  show ?thesis unfolding ReqListen serve.simps pico_control_listen_def
    by (rule control_served [OF inv v]) (auto intro: served_call [OF inv])
next
  case (ReqShutdown fd m)
  show ?thesis unfolding ReqShutdown serve.simps pico_control_shutdown_def
    by (rule control_served [OF inv v]) (auto intro: served_call [OF inv])
next
  case (ReqClose fd)
  then show ?thesis using close_served [OF inv v rg] by simp
next
  case (ReqSetAsync fd e c)
  then show ?thesis using set_async_served [OF inv v rg] by simp
next
  case ReqPoll
  then show ?thesis using poll_served [OF inv v] by simp
next
  case (ReqWrite buf fd l off)
  then show ?thesis using send_served [OF inv v] r by (simp add: pico_send_write_def)
next
  case (ReqSend buf fd l off)
  then show ?thesis using send_served [OF inv v] r by (simp add: pico_send_send_def)
next
  case (ReqSendto buf fd l off a p)
  then show ?thesis using send_served [OF inv v] r by (simp add: pico_send_sendto_def)
next
  case (ReqRead buf fd l off)
  then have b: "length buf < 2 ^ 63" using r by simp
  show ?thesis
    by (rule recv_served [OF inv v b _ _ st, of PicoRead fd l off])
      (simp_all add: ReqRead pico_recv_read_def state_of_def)
next
  case (ReqRecv buf fd l off)
  then have b: "length buf < 2 ^ 63" using r by simp
  show ?thesis
    by (rule recv_served [OF inv v b _ _ st, of PicoRecv fd l off])
      (simp_all add: ReqRecv pico_recv_recv_def state_of_def)
next
  case (ReqRecvfrom buf fd l off)
  then have b: "length buf < 2 ^ 63" using r by simp
  show ?thesis
    by (rule recv_served [OF inv v b _ _ st, of PicoRecvfrom fd l off])
      (simp_all add: ReqRecvfrom pico_recv_recvfrom_def state_of_def)
qed

section \<open>Properties of the request interfaces\<close>



definition sample_env :: pico_env where
  "sample_env = \<lparr>reply = \<lambda>tr c. \<lparr>r_ret = 0, r_ptr = 100, r_bytes = [], r_addr = 0, r_port = 0\<rparr>,
     unwrap_ptr = \<lambda>i off. 0, add_used_buf = \<lambda>used. True\<rparr>"

lemma sample_init:
  "server_inv n (fst (picotcp_socket_sync_server_init 2 2 0 1))"
  "valid_client (fst (picotcp_socket_sync_server_init 2 2 0 1)) 1"
  "stack_ok sample_env (fst (picotcp_socket_sync_server_init 2 2 0 1))" "ring_room sample_env"
  "roomy (tabs (fst (picotcp_socket_sync_server_init 2 2 0 1))) (unat (1 :: u64))"
  "heap (tabs (fst (picotcp_socket_sync_server_init 2 2 0 1))) p = None"
  using tables_inv_init [of 2]
  by (simp_all add: server_inv_def picotcp_socket_sync_server_init_def valid_client_def stack_ok_def
      sample_env_def ring_room_def picoserver_clients_init_def kh_abs_init roomy_def kh_room_def kh_init_def
      kh_capacity_def int_max_def kh_abs_unallocated)

lemma tables_inv_any_heap:
  "tables_inv st \<Longrightarrow> \<forall>i<length (clients st). fd_tab st i = Map.empty \<Longrightarrow> addr_tab st = Map.empty \<Longrightarrow>
    tables_inv (st\<lparr>heap := H\<rparr>)"
  by (auto simp: tables_inv_def hashes_inv_def)

lemma sample_tabs:
  "\<forall>i<length (clients (tabs (fst (picotcp_socket_sync_server_init n 2 0 1)))).
     fd_tab (tabs (fst (picotcp_socket_sync_server_init n 2 0 1))) i = Map.empty"
  "addr_tab (tabs (fst (picotcp_socket_sync_server_init n 2 0 1))) = Map.empty"
  by (simp_all add: picotcp_socket_sync_server_init_def picoserver_clients_init_def kh_abs_init)





text \<open>
  C21. Closing a socket, or switching it back to synchronous use, finishes every message still pending
  on it, in both directions and in order: each is marked failed and its virtqueue entry returned once
  with length 0, before the structure is released.
\<close>
theorem pico_close_returns_pending:
  assumes "server_inv n sv" and "ring_room env" and "heap (tabs sv) p = Some s" and "p \<noteq> 0"
    and "async_transport s = Some at"
  shows "\<exists>sv' xs ys. cleanup_async_socket env n sv p = Inr sv' \<and>
    chain (msgs sv) (tx_pending_queue at) xs \<and> chain (msgs sv) (rx_pending_queue at) ys \<and>
    vq_used (tx_virtqueue sv') = vq_used (tx_virtqueue sv) @ map (\<lambda>c. (c, 0)) (cookies (msgs sv) xs) \<and>
    vq_used (rx_virtqueue sv') = vq_used (rx_virtqueue sv) @ map (\<lambda>c. (c, 0)) (cookies (msgs sv) ys) \<and>
    (\<forall>x\<in>set (xs @ ys). \<exists>m. msgs sv' x = Some m \<and> done_len m = -1) \<and>
    (\<exists>s'. heap (tabs sv') p = Some s' \<and> async_transport s' = None)"
proof -
  obtain xs ys where q: "plist (msgs sv) (tx_pending_queue at) (tx_pending_queue_end at) xs" "length xs \<le> n"
    "plist (msgs sv) (rx_pending_queue at) (rx_pending_queue_end at) ys" "length ys \<le> n"
    by (rule server_inv_async [OF assms(1,3,5)])
  obtain sv' where r: "cleanup_async_socket env n sv p = Inr sv'"
    "tabs sv' = (tabs sv)\<lparr>heap := (heap (tabs sv))(p \<mapsto> s\<lparr>async_transport := None\<rparr>)\<rparr>"
    "msgs sv' = failed_msgs (failed_msgs (msgs sv) xs) ys"
    "vq_used (tx_virtqueue sv') = vq_used (tx_virtqueue sv) @ map (\<lambda>c. (c, 0)) (cookies (msgs sv) xs)"
    "vq_used (rx_virtqueue sv') = vq_used (rx_virtqueue sv) @ map (\<lambda>c. (c, 0)) (cookies (msgs sv) ys)"
    by (rule cleanup_async_socket_ok [OF assms(2,4,3,5) q])
  have ch: "chain (msgs sv) (tx_pending_queue at) xs" "chain (msgs sv) (rx_pending_queue at) ys"
    using q by (auto simp: plist_def)
  have "\<exists>m. msgs sv' x = Some m \<and> done_len m = -1" if "x \<in> set (xs @ ys)" for x
  proof -
    have "msgs sv x \<noteq> None" using that chain_nz [OF ch(1)] chain_nz [OF ch(2)] by auto
    then show ?thesis using that by (auto simp: r(3) failed_msgs_def)
  qed
  then show ?thesis using r ch by auto
qed

theorem pico_close_returns_pending_witness:
  "\<exists>sv'. cleanup_async_socket sample_env 3 (set_heap (fst (picotcp_socket_sync_server_init 2 2 0 1)) 8
      ((new_socket 1 PICO_PROTO_TCP 100)\<lparr>async_transport := Some empty_async\<rparr>)) 8 = Inr sv' \<and>
    vq_used (tx_virtqueue sv') = []"
proof -
  let ?s = "(new_socket 1 PICO_PROTO_TCP 100)\<lparr>async_transport := Some empty_async\<rparr>"
  let ?sv0 = "fst (picotcp_socket_sync_server_init 2 2 0 1)"
  let ?sv = "set_heap ?sv0 8 ?s"
  have "tables_inv (tabs ?sv)"
    using sample_init(1) [of 3] sample_tabs tables_inv_any_heap by (simp add: server_inv_def set_heap_def)
  then have "server_inv 3 ?sv"
    by (auto simp: server_inv_def async_ok_def empty_async_def plist_def picotcp_socket_sync_server_init_def
        picoserver_clients_init_def intro: exI [of _ "[]"] split: if_splits)
  from pico_close_returns_pending [OF this sample_init(4), of 8 ?s empty_async]
  obtain sv' xs where r: "cleanup_async_socket sample_env 3 ?sv 8 = Inr sv'" "chain (msgs ?sv) 0 xs"
    "vq_used (tx_virtqueue sv') = vq_used (tx_virtqueue ?sv) @ map (\<lambda>c. (c, 0)) (cookies (msgs ?sv) xs)"
    by (auto simp: empty_async_def)
  have "xs = []" using r(2) by (cases xs) auto
  then show ?thesis using r by (simp add: cookies_def picotcp_socket_sync_server_init_def)
qed

section \<open>Transmission as a stream\<close>

definition msg_ok :: "(ptr \<Rightarrow> tx_msg option) \<Rightarrow> ptr \<Rightarrow> bool" where
  "msg_ok ms x \<longleftrightarrow> (\<exists>m. ms x = Some m \<and> unat (done_len m) \<le> unat (total_len m) \<and>
     unat (total_len m) \<le> length (m_buf m) \<and> unat (total_len m) \<le> 1400)"

text \<open>The bytes of a message that are still to be sent, and those of a pending list.\<close>

definition rest_of :: "tx_msg \<Rightarrow> u8 list" where
  "rest_of m = drop (unat (done_len m)) (take (unat (total_len m)) (m_buf m))"

definition pending_bytes :: "(ptr \<Rightarrow> tx_msg option) \<Rightarrow> ptr list \<Rightarrow> u8 list" where
  "pending_bytes ms xs = concat (map (\<lambda>x. rest_of (the (ms x))) xs)"

text \<open>The bytes that the stack accepts for socket \<open>a\<close> in the calls \<open>cs\<close> made after \<open>tr\<close>.\<close>

fun accepted :: "pico_env \<Rightarrow> ptr \<Rightarrow> pico_call list \<Rightarrow> pico_call list \<Rightarrow> u8 list" where
  "accepted env a tr [] = []"
| "accepted env a tr (c # cs) =
     (case c of PicoSend s bs \<Rightarrow> if s = a then take (unat (r_ret (reply env tr c))) bs else [] | _ \<Rightarrow> []) @
     accepted env a (tr @ [c]) cs"

text \<open>The stack reports how many of the bytes it took, and no error.\<close>

definition stack_sends :: "pico_env \<Rightarrow> ptr \<Rightarrow> bool" where
  "stack_sends env a \<longleftrightarrow> (\<forall>tr bs. 0 \<le> sint (r_ret (reply env tr (PicoSend a bs))) \<and>
     unat (r_ret (reply env tr (PicoSend a bs))) \<le> length bs)"

lemma rest_of_advance: "unat d = unat (done_len m) + k \<Longrightarrow> rest_of (m\<lparr>done_len := d\<rparr>) = drop k (rest_of m)"
  by (simp add: rest_of_def add.commute)

lemma pending_bytes_Cons: "pending_bytes ms (x # xs) = rest_of (the (ms x)) @ pending_bytes ms xs"
  by (simp add: pending_bytes_def)

lemma pending_bytes_other: "x \<notin> set xs \<Longrightarrow> pending_bytes (ms(x \<mapsto> m)) xs = pending_bytes ms xs"
  unfolding pending_bytes_def by (rule arg_cong [where f = concat]) auto

lemma tx_call_ok:
  assumes m: "unat (done_len m) \<le> unat (total_len m)" "unat (total_len m) \<le> length (m_buf m)"
    and tcp: "protocol s \<noteq> PICO_PROTO_UDP"
  shows "tx_call env sv s m (done_len m) =
    Inr (fst (call env sv (PicoSend (pico_socket s) (rest_of m))),
         r_ret (reply env (trace sv) (PicoSend (pico_socket s) (rest_of m))))"
    and "length (rest_of m) = unat (total_len m) - unat (done_len m)"
    and "unat (total_len m - done_len m) = unat (total_len m) - unat (done_len m)"
proof -
  show d: "unat (total_len m - done_len m) = unat (total_len m) - unat (done_len m)"
    using m(1) by (simp add: unat_sub word_le_nat_alt)
  show "length (rest_of m) = unat (total_len m) - unat (done_len m)"
    using m(2) by (simp add: rest_of_def)
  have "slice (m_buf m) (unat (done_len m)) (unat (total_len m - done_len m)) = Inr (rest_of m)"
    using m by (simp add: slice_def d rest_of_def take_drop)
  then show "tx_call env sv s m (done_len m) =
    Inr (fst (call env sv (PicoSend (pico_socket s) (rest_of m))),
         r_ret (reply env (trace sv) (PicoSend (pico_socket s) (rest_of m))))"
    using tcp by (simp add: tx_call_def call_def)
qed

definition tx_streamed :: "pico_env \<Rightarrow> server \<Rightarrow> ptr \<Rightarrow> picoserver_socket \<Rightarrow> ptr list \<Rightarrow> server \<Rightarrow> bool" where
  "tx_streamed env sv p s xs sv' \<longleftrightarrow> (\<exists>cs zs ys at. trace sv' = trace sv @ cs \<and> xs = zs @ ys \<and>
     pending_bytes (msgs sv) xs = accepted env (pico_socket s) (trace sv) cs @ pending_bytes (msgs sv') ys \<and>
     vq_used (tx_virtqueue sv') = vq_used (tx_virtqueue sv) @
       map (\<lambda>x. (ucast (cookie_save (the (msgs sv x))), ucast (total_len (the (msgs sv x))))) zs \<and>
     heap (tabs sv') p = Some (s\<lparr>async_transport := Some at\<rparr>) \<and>
     plist (msgs sv') (tx_pending_queue at) (tx_pending_queue_end at) ys \<and> list_all (msg_ok (msgs sv')) ys)"

lemma tx_socket_loop_streams:
  assumes room: "ring_room env" and st: "stack_sends env (pico_socket s)" and tcp: "protocol s \<noteq> PICO_PROTO_UDP"
  shows "plist (msgs sv) (tx_pending_queue at) (tx_pending_queue_end at) xs \<Longrightarrow> length xs \<le> n \<Longrightarrow>
    list_all (msg_ok (msgs sv)) xs \<Longrightarrow> heap (tabs sv) p = Some (s\<lparr>async_transport := Some at\<rparr>) \<Longrightarrow>
    \<exists>sv'. tx_socket_loop env n sv p s at = Inr sv' \<and> tx_streamed env sv p s xs sv'"
proof (induction xs arbitrary: n sv at)
  case Nil
  then have "tx_socket_loop env n sv p s at = Inr sv" by (cases n) (simp_all add: plist_Nil)
  moreover have "tx_streamed env sv p s [] sv"
    unfolding tx_streamed_def using Nil
    by (intro exI [of _ "[]"] exI [of _ at] conjI) (simp_all add: pending_bytes_def)
  ultimately show ?case by blast
next
  case (Cons x xs)
  obtain k where n: "n = Suc k" "length xs \<le> k" using Cons.prems(2) by (cases n) auto
  obtain m where m: "tx_pending_queue at = x" "x \<noteq> 0" "tx_pending_queue_end at \<noteq> 0" "msgs sv x = Some m"
    and pl: "plist (msgs sv) (tx_pending_queue (tx_pop at x m)) (tx_pending_queue_end (tx_pop at x m)) xs"
    by (rule plist_pop_tx [OF Cons.prems(1)])
  have d: "x \<notin> set xs" using Cons.prems(1) by (simp add: plist_def)
  have ok: "unat (done_len m) \<le> unat (total_len m)" "unat (total_len m) \<le> length (m_buf m)" "unat (total_len m) \<le> 1400"
    using Cons.prems(3) m(4) by (auto simp: msg_ok_def)
  let ?c = "PicoSend (pico_socket s) (rest_of m)"
  let ?r = "r_ret (reply env (trace sv) ?c)" and ?sv = "fst (call env sv ?c)"
  note tc = tx_call_ok(1) [OF ok(1,2) tcp, of env sv] tx_call_ok(2,3) [OF ok(1,2) tcp]
  have r: "0 \<le> sint ?r" "unat ?r \<le> length (rest_of m)" using st by (auto simp: stack_sends_def)
  have nm: "?r \<noteq> -1" using r(1) by auto
  have lt: "(scast ?r < total_len m - done_len m) \<longleftrightarrow> unat ?r < length (rest_of m)"
    using unat_nonneg(1) [OF r(1)] tc(2,3) by (simp add: word_less_nat_alt)
  have tv [simp]: "tx_virtqueue ?sv = tx_virtqueue sv" by (simp add: call_def)
  show ?case
  proof (cases "unat ?r < length (rest_of m)")
    case True
    let ?m = "m\<lparr>done_len := done_len m + scast ?r\<rparr>"
    let ?sv' = "set_msg ?sv x ?m"
    have u: "unat (done_len m + scast ?r) = unat (done_len m) + unat ?r"
      using ok(3) True tc(2) unat_nonneg(1) [OF r(1)] by (simp add: unat_word_ariths)
    have e: "tx_socket_loop env n sv p s at = Inr ?sv'"
      using n m tc(1) nm lt True by (simp add: deref_def Let_def)
    have "rest_of ?m = drop (unat ?r) (rest_of m)" by (rule rest_of_advance [OF u])
    then have rs: "rest_of m = take (unat ?r) (rest_of m) @ rest_of ?m" by simp
    have pb: "pending_bytes (msgs sv) (x # xs) =
        accepted env (pico_socket s) (trace sv) [?c] @ pending_bytes (msgs ?sv') (x # xs)"
      using rs m(4) by (simp add: pending_bytes_Cons pending_bytes_other [OF d] del: append_assoc)
    have "plist (msgs ?sv') (tx_pending_queue at) (tx_pending_queue_end at) (x # xs)"
      by (rule plist_cong [OF _ Cons.prems(1)]) (use m in auto)
    moreover have "list_all (msg_ok (msgs ?sv')) (x # xs)"
      using Cons.prems(3) ok u True tc(2) d by (auto simp: list_all_iff msg_ok_def)
    moreover have "heap (tabs ?sv') p = Some (s\<lparr>async_transport := Some at\<rparr>)" using Cons.prems(4) by simp
    ultimately have "tx_streamed env sv p s (x # xs) ?sv'"
      unfolding tx_streamed_def using pb
      by (intro exI [of _ "[?c]"] exI [of _ "[]"] exI [of _ "x # xs"] exI [of _ at] conjI) simp_all
    then show ?thesis using e by blast
  next
    case False
    let ?at = "tx_pop at x m" and ?m = "m\<lparr>done_len := total_len m\<rparr>"
    let ?sv1 = "set_async (set_msg ?sv x ?m) p s (Some ?at)"
    let ?sv2 = "tx_complete env ?sv1 (cookie_save m) (ucast (total_len m))"
    have full: "accepted env (pico_socket s) (trace sv) [?c] = rest_of m" using False by simp
    have e: "tx_socket_loop env n sv p s at = tx_socket_loop env k ?sv2 p s ?at"
      using n m tc(1) nm lt False by (simp add: deref_def Let_def)
    have ms2: "msgs ?sv2 = (msgs sv)(x \<mapsto> ?m)" by (simp add: set_async_def)
    have pl2: "plist (msgs ?sv2) (tx_pending_queue ?at) (tx_pending_queue_end ?at) xs"
      unfolding ms2 by (rule plist_cong [OF _ pl]) (use m in auto)
    have ok2: "list_all (msg_ok (msgs ?sv2)) xs"
      using Cons.prems(3) d unfolding ms2 by (auto simp: list_all_iff msg_ok_def)
    have h2: "heap (tabs ?sv2) p = Some (s\<lparr>async_transport := Some ?at\<rparr>)" by (simp add: set_async_def)
    obtain sv' where l: "tx_socket_loop env k ?sv2 p s ?at = Inr sv'" and ts: "tx_streamed env ?sv2 p s xs sv'"
      using Cons.IH [OF pl2 n(2) ok2 h2] by blast
    from ts obtain cs zs ys a' where t: "trace sv' = trace ?sv2 @ cs" "xs = zs @ ys"
      "pending_bytes (msgs ?sv2) xs = accepted env (pico_socket s) (trace ?sv2) cs @ pending_bytes (msgs sv') ys"
      "vq_used (tx_virtqueue sv') = vq_used (tx_virtqueue ?sv2) @
         map (\<lambda>x. (ucast (cookie_save (the (msgs ?sv2 x))), ucast (total_len (the (msgs ?sv2 x))))) zs"
      "heap (tabs sv') p = Some (s\<lparr>async_transport := Some a'\<rparr>)"
      "plist (msgs sv') (tx_pending_queue a') (tx_pending_queue_end a') ys" "list_all (msg_ok (msgs sv')) ys"
      unfolding tx_streamed_def by blast
    have tr2: "trace ?sv2 = trace sv @ [?c]" by (simp add: set_async_def)
    have "accepted env (pico_socket s) (trace sv) (?c # cs) =
        rest_of m @ accepted env (pico_socket s) (trace ?sv2) cs"
      using full tr2 by simp
    moreover have "pending_bytes (msgs sv) (x # xs) = rest_of m @ pending_bytes (msgs ?sv2) xs"
      unfolding ms2 using m(4) by (simp add: pending_bytes_Cons pending_bytes_other [OF d])
    ultimately have pb: "pending_bytes (msgs sv) (x # xs) =
        accepted env (pico_socket s) (trace sv) (?c # cs) @ pending_bytes (msgs sv') ys"
      using t(3) by simp
    have zs: "\<forall>z\<in>set zs. msgs ?sv2 z = msgs sv z" using d t(2) unfolding ms2 by auto
    have us: "vq_used (tx_virtqueue sv') = vq_used (tx_virtqueue sv) @
       map (\<lambda>x. (ucast (cookie_save (the (msgs sv x))), ucast (total_len (the (msgs sv x))))) (x # zs)"
      using t(4) zs m(4) add_used_room [OF room] by (simp add: set_async_def)
    have "tx_streamed env sv p s (x # xs) sv'"
      unfolding tx_streamed_def using pb us t tr2
      by (intro exI [of _ "?c # cs"] exI [of _ "x # zs"] exI [of _ ys] exI [of _ a'] conjI) simp_all
    then show ?thesis using e l by simp
  qed
qed


definition sample_tx :: server where
  "sample_tx = (let sv = fst (picotcp_socket_sync_server_init 1 2 0 1) in
     (set_heap sv 8 ((new_socket 0 PICO_PROTO_TCP 100)\<lparr>async_transport :=
        Some (empty_async\<lparr>tx_pending_queue := 4, tx_pending_queue_end := 4\<rparr>)\<rparr>))
     \<lparr>msgs := [4 \<mapsto> \<lparr>m_socket_fd = 1, total_len = 3, done_len = 1, src_addr = 0, remote_port = 0, next_msg = 0,
        cookie_save = 9, client_cookie = 0, m_buf = [10, 11, 12, 13]\<rparr>]\<rparr>)"


section \<open>Taking messages from the virtqueue\<close>

lemma chain_append:
  assumes "chain ms q xs" and "xs \<noteq> []" and "distinct xs" and "y \<notin> set xs" and "y \<noteq> 0"
    and "ms (last xs) = Some e" and "next_msg my = 0"
  shows "chain (ms(last xs \<mapsto> e\<lparr>next_msg := y\<rparr>, y \<mapsto> my)) q (xs @ [y])"
  using assms
proof (induction xs arbitrary: q)
  case Nil
  then show ?case by simp
next
  case (Cons x xs)
  obtain m where m: "q = x" "x \<noteq> 0" "ms x = Some m" "chain ms (next_msg m) xs" using Cons.prems(1) by auto
  show ?case
  proof (cases "xs = []")
    case True
    then show ?thesis using Cons.prems m by auto
  next
    case False
    have "chain (ms(last xs \<mapsto> e\<lparr>next_msg := y\<rparr>, y \<mapsto> my)) (next_msg m) (xs @ [y])"
      by (rule Cons.IH [OF m(4) False]) (use Cons.prems False in auto)
    moreover have "last xs \<noteq> x" "y \<noteq> x" using Cons.prems False last_in_set [OF False] by auto
    then have "(ms(last xs \<mapsto> e\<lparr>next_msg := y\<rparr>, y \<mapsto> my)) x = Some m" using m(3) by simp
    ultimately show ?thesis using m(1,2) False unfolding append_Cons chain.simps by auto
  qed
qed

lemma plist_append:
  assumes "plist ms q e xs" and "xs \<noteq> []" and "y \<notin> set xs" and "y \<noteq> 0" and "ms e = Some me" and "next_msg my = 0"
  shows "plist (ms(e \<mapsto> me\<lparr>next_msg := y\<rparr>, y \<mapsto> my)) q y (xs @ [y])"
  using assms chain_append [of ms q xs y me my] by (auto simp: plist_def)

lemma plist_last: "plist ms q e xs \<Longrightarrow> xs \<noteq> [] \<Longrightarrow> e \<in> set xs \<and> e \<noteq> 0 \<and> ms e \<noteq> None"
  using chain_nz [of ms q xs e] by (auto simp: plist_def)

lemma pending_bytes_link:
  assumes "ms e = Some me" and "y \<notin> set xs" and "y \<noteq> e"
  shows "pending_bytes (ms(e \<mapsto> me\<lparr>next_msg := z\<rparr>, y \<mapsto> my)) (xs @ [y]) = pending_bytes ms xs @ rest_of my"
proof -
  have "rest_of (the ((ms(e \<mapsto> me\<lparr>next_msg := z\<rparr>, y \<mapsto> my)) x)) = rest_of (the (ms x))" if "x \<in> set xs" for x
    using that assms by (auto simp: rest_of_def)
  then have "map (\<lambda>x. rest_of (the ((ms(e \<mapsto> me\<lparr>next_msg := z\<rparr>, y \<mapsto> my)) x))) xs =
      map (\<lambda>x. rest_of (the (ms x))) xs" by (rule map_cong [OF refl])
  then show ?thesis unfolding pending_bytes_def map_append concat_append by (simp only:) simp
qed

lemma async_socket_ok:
  assumes inv: "server_inv n sv" and c: "0 < length (clients (tabs sv))"
  obtains "async_socket sv m = Inr None"
  | p s at where "async_socket sv m = Inr (Some (p, s, at))" "heap (tabs sv) p = Some s" "p \<noteq> 0"
      "pico_socket s \<noteq> 0" "async_transport s = Some at" "fd_tab (tabs sv) 0 (m_socket_fd m) = Some (Some p)"
proof -
  have t: "tables_inv (tabs sv)" using inv by (simp add: server_inv_def)
  have c0: "unat (0 :: u64) < length (clients (tabs sv))" using c by simp
  note e = client_get_socket_ok [OF t c0, of "m_socket_fd m", unfolded unsigned_0]
  show ?thesis
  proof (cases rule: socket_of_cases [OF t c, of "m_socket_fd m"])
    case 1
    then show ?thesis using that(1) e by (simp add: async_socket_def)
  next
    case (2 p s)
    show ?thesis
    proof (cases "pico_socket s = 0 \<or> async_transport s = None")
      case True
      then show ?thesis using that(1) e 2 by (auto simp: async_socket_def deref_def)
    next
      case False
      then obtain at where "async_transport s = Some at" by auto
      then show ?thesis using that(2) e 2 False by (simp add: async_socket_def deref_def)
    qed
  qed
qed

text \<open>The two ends of a message taken from the transmit queue: returned at once, or pending on the
  socket it names.\<close>

definition tx_returned :: "server \<Rightarrow> u32 \<Rightarrow> server \<Rightarrow> bool" where
  "tx_returned sv h sv' \<longleftrightarrow> (\<exists>l. vq_used (tx_virtqueue sv') = vq_used (tx_virtqueue sv) @ [(h, l)]) \<and>
     tabs sv' = tabs sv"

definition tx_queued :: "server \<Rightarrow> u32 \<Rightarrow> ptr \<Rightarrow> tx_msg \<Rightarrow> server \<Rightarrow> bool" where
  "tx_queued sv h q m sv' \<longleftrightarrow> vq_used (tx_virtqueue sv') = vq_used (tx_virtqueue sv) \<and>
     (\<exists>p s at at' xs m'. fd_tab (tabs sv) 0 (m_socket_fd m) = Some (Some p) \<and> heap (tabs sv) p = Some s \<and>
        async_transport s = Some at \<and> plist (msgs sv) (tx_pending_queue at) (tx_pending_queue_end at) xs \<and>
        heap (tabs sv') = (heap (tabs sv))(p \<mapsto> s\<lparr>async_transport := Some at'\<rparr>) \<and>
        plist (msgs sv') (tx_pending_queue at') (tx_pending_queue_end at') (xs @ [q]) \<and>
        msgs sv' q = Some m' \<and> cookie_save m' = ucast h \<and>
        (xs \<noteq> [] \<longrightarrow> pending_bytes (msgs sv') (xs @ [q]) = pending_bytes (msgs sv) xs @ rest_of m))"

lemma tx_queue_msg_ok:
  assumes inv: "server_inv n sv" and c: "0 < length (clients (tabs sv))" and room: "ring_room env"
    and q: "q \<noteq> 0" "msgs sv q = Some m" and len: "1 \<le> unat (total_len m)" "unat (total_len m) \<le> 1400"
      "unat (total_len m) \<le> length (m_buf m)"
    and new: "\<And>p s at xs. heap (tabs sv) p = Some s \<Longrightarrow> async_transport s = Some at \<Longrightarrow>
      plist (msgs sv) (tx_pending_queue at) (tx_pending_queue_end at) xs \<Longrightarrow> q \<notin> set xs"
  shows "\<exists>sv'. tx_queue_msg env sv h q = Inr sv' \<and> (tx_returned sv h sv' \<or> tx_queued sv h q m sv')"
proof -
  have tl: "\<not> (total_len m > 1400 \<or> total_len m = 0)"
    using len(1,2) by (auto simp: word_less_nat_alt)
  have uh: "ucast (ucast h :: u64) = h" by (rule bit_word_eqI) (simp add: bit_simps)
  note start = tx_queue_msg_def deref_def
  have fin: "\<exists>sv'. Inr (tx_complete env (set_msg (sv\<lparr>trace := tr\<rparr>) q m') (ucast h) l) = Inr sv' \<and>
      (tx_returned sv h sv' \<or> tx_queued sv h q m sv')" for tr m' l
    by (auto simp: tx_returned_def add_used_room [OF room] uh)
  have fin0: "\<exists>sv'. Inr (tx_complete env (set_msg sv q m') (ucast h) l) = Inr sv' \<and>
      (tx_returned sv h sv' \<or> tx_queued sv h q m sv')" for m' l
    using fin [of "trace sv" m' l] by simp
  show ?thesis
  proof (rule async_socket_ok [OF inv c, of m])
    assume "async_socket sv m = Inr None"
    then show ?thesis using q tl fin0 by (simp add: start)
  next
    fix p s at
    assume a: "async_socket sv m = Inr (Some (p, s, at))" "heap (tabs sv) p = Some s"
      "async_transport s = Some at" "fd_tab (tabs sv) 0 (m_socket_fd m) = Some (Some p)"
    obtain xs where xs: "plist (msgs sv) (tx_pending_queue at) (tx_pending_queue_end at) xs"
      by (rule server_inv_async [OF inv a(2,3)])
    note qx = new [OF a(2,3) xs]
    show ?thesis
    proof (cases "xs = []")
      case False
      obtain me where e: "tx_pending_queue_end at \<in> set xs" "tx_pending_queue_end at \<noteq> 0"
          "msgs sv (tx_pending_queue_end at) = Some me" using plist_last [OF xs False] by auto
      have nz: "tx_pending_queue at \<noteq> 0" using xs False by (metis plist_empty)
      have ne: "tx_pending_queue_end at \<noteq> q" using e(1) qx by auto
      let ?m' = "m\<lparr>next_msg := 0, cookie_save := ucast h\<rparr>" and ?at = "at\<lparr>tx_pending_queue_end := q\<rparr>"
      let ?sv' = "set_msg (set_async (set_msg sv (tx_pending_queue_end at) (me\<lparr>next_msg := q\<rparr>)) p s (Some ?at)) q ?m'"
      have r: "tx_queue_msg env sv h q = Inr ?sv'"
        using q tl a(1) nz e ne by (simp add: start tx_enqueue_def Let_def set_async_def)
      have "plist (msgs ?sv') (tx_pending_queue ?at) (tx_pending_queue_end ?at) (xs @ [q])"
        using plist_append [OF xs False qx q(1) e(3), of ?m'] by (simp add: set_async_def)
      moreover have "pending_bytes (msgs ?sv') (xs @ [q]) = pending_bytes (msgs sv) xs @ rest_of m"
        using pending_bytes_link [where ms = "msgs sv", OF e(3) qx ne [symmetric], where z = q and my = ?m'] by (simp add: set_async_def rest_of_def)
      ultimately have "tx_queued sv h q m ?sv'"
        unfolding tx_queued_def using a xs
        by (intro conjI exI [of _ p] exI [of _ s] exI [of _ at] exI [of _ ?at] exI [of _ xs] exI [of _ ?m'])
          (simp_all add: set_async_def)
      then show ?thesis using r by blast
    next
      case True
      have z: "tx_pending_queue at = 0" using xs True by (simp add: plist_Nil)
      let ?bs = "take (unat (total_len m)) (m_buf m)"
      let ?c = "if protocol s = PICO_PROTO_UDP then PicoSendto (pico_socket s) ?bs (src_addr m) (remote_port m)
           else PicoSend (pico_socket s) ?bs"
      let ?r = "r_ret (reply env (trace sv) ?c)" and ?sv = "sv\<lparr>trace := trace sv @ [?c]\<rparr>"
      have tc: "tx_call env sv s m 0 = Inr (?sv, ?r)"
        using len(3) by (simp add: tx_call_def slice_def call_def)
      consider "?r = -1" | "?r \<noteq> -1" "scast ?r < total_len m" | "?r \<noteq> -1" "\<not> scast ?r < total_len m" by blast
      then show ?thesis
      proof cases
        case 1
        then have "tx_queue_msg env sv h q = Inr (tx_complete env (set_msg ?sv q (m\<lparr>done_len := -1\<rparr>)) (ucast h) 0)"
          unfolding start using q tl a(1) z tc by simp
        then show ?thesis using fin by metis
      next
        case 2
        let ?m' = "m\<lparr>done_len := scast ?r, cookie_save := ucast h, next_msg := 0\<rparr>"
        let ?at = "at\<lparr>tx_pending_queue := q, tx_pending_queue_end := q\<rparr>"
        let ?sv' = "set_async (set_msg ?sv q ?m') p s (Some ?at)"
        have "tx_queue_msg env sv h q = Inr ?sv'" unfolding start using q tl a(1) z tc 2 by simp
        moreover have "tx_queued sv h q m ?sv'"
          unfolding tx_queued_def using a xs True q
          by (intro conjI exI [of _ p] exI [of _ s] exI [of _ at] exI [of _ ?at] exI [of _ "[]"] exI [of _ ?m'])
            (simp_all add: set_async_def plist_def)
        ultimately show ?thesis by blast
      next
        case 3
        then have "tx_queue_msg env sv h q =
            Inr (tx_complete env (set_msg ?sv q (m\<lparr>done_len := total_len m\<rparr>)) (ucast h) (ucast (total_len m)))"
          unfolding start using q tl a(1) z tc by simp
        then show ?thesis using fin by metis
      qed
    qed
  qed
qed

text \<open>
  A message that client 0 makes available for transmission is dealt with exactly once: either its
  virtqueue entry is returned and no socket changes, or it is appended to the pending list of the socket it names,
  with the entry kept for later, and nothing is returned. Behind other messages it adds to the stream the
  bytes from its \<open>done_len\<close> on: the value the client left there is used as it is.
\<close>
theorem pico_tx_message_once:
  assumes "server_inv n sv" and "0 < length (clients (tabs sv))" and "ring_room env"
    and "q \<noteq> 0" and "msgs sv q = Some m" and "1 \<le> unat (total_len m)" and "unat (total_len m) \<le> 1400"
    and "unat (total_len m) \<le> length (m_buf m)"
    and "\<forall>p s at xs. heap (tabs sv) p = Some s \<longrightarrow> async_transport s = Some at \<longrightarrow>
      plist (msgs sv) (tx_pending_queue at) (tx_pending_queue_end at) xs \<longrightarrow> q \<notin> set xs"
  shows "\<exists>sv'. tx_queue_msg env sv h q = Inr sv' \<and> (tx_returned sv h sv' \<noteq> tx_queued sv h q m sv')"
proof -
  obtain sv' where r: "tx_queue_msg env sv h q = Inr sv'" "tx_returned sv h sv' \<or> tx_queued sv h q m sv'"
    using tx_queue_msg_ok [OF assms(1-8), of h] assms(9) by blast
  moreover have "\<not> (tx_returned sv h sv' \<and> tx_queued sv h q m sv')"
    by (auto simp: tx_returned_def tx_queued_def)
  ultimately show ?thesis by blast
qed

theorem pico_tx_message_once_witness:
  "\<exists>sv'. tx_queue_msg sample_env ((fst (picotcp_socket_sync_server_init 1 2 0 1))\<lparr>msgs :=
      [4 \<mapsto> \<lparr>m_socket_fd = 1, total_len = 3, done_len = 0, src_addr = 0, remote_port = 0, next_msg = 0,
        cookie_save = 0, client_cookie = 0, m_buf = [10, 11, 12, 13]\<rparr>]\<rparr>) 6 4 = Inr sv'"
proof -
  let ?sv = "(fst (picotcp_socket_sync_server_init 1 2 0 1))\<lparr>msgs :=
      [4 \<mapsto> \<lparr>m_socket_fd = 1, total_len = 3, done_len = 0, src_addr = 0, remote_port = 0, next_msg = 0,
        cookie_save = 0, client_cookie = 0, m_buf = [10, 11, 12, 13]\<rparr>]\<rparr>"
  have h: "heap (tabs ?sv) = Map.empty" "0 < length (clients (tabs ?sv))"
    by (simp_all add: picotcp_socket_sync_server_init_def picoserver_clients_init_def)
  have "server_inv 3 ?sv"
    using tables_inv_init [of 1] by (simp add: server_inv_def picotcp_socket_sync_server_init_def picoserver_clients_init_def)
  from pico_tx_message_once [OF this h(2) sample_init(4), of 4 "\<lparr>m_socket_fd = 1, total_len = 3, done_len = 0,
    src_addr = 0, remote_port = 0, next_msg = 0, cookie_save = 0, client_cookie = 0, m_buf = [10, 11, 12, 13]\<rparr>" 6]
  show ?thesis using h(1) by auto
qed

section \<open>Reception\<close>

lemma rx_call_ok:
  assumes "length (r_bytes (reply env (trace sv) (PicoRecvfrom (pico_socket s) (total_len m)))) \<le> length (m_buf m)"
    and "protocol s = PICO_PROTO_UDP"
  obtains m' where "rx_call env sv s m 0 = Inr (fst (call env sv (PicoRecvfrom (pico_socket s) (total_len m))), m',
      r_ret (reply env (trace sv) (PicoRecvfrom (pico_socket s) (total_len m))))"
    "total_len m' = total_len m" "done_len m' = done_len m" "cookie_save m' = cookie_save m" "next_msg m' = next_msg m"
proof -
  let ?r = "reply env (trace sv) (PicoRecvfrom (pico_socket s) (total_len m))"
  show ?thesis
    by (rule that [of "m\<lparr>m_buf := r_bytes ?r @ drop (length (r_bytes ?r)) (m_buf m), src_addr := r_addr ?r,
        remote_port := r_port ?r\<rparr>"]) (use assms in \<open>simp_all add: rx_call_def splice_def call_def Let_def\<close>)
qed

lemma rx_lengths:
  assumes "ring_room env" and "heap (tabs sv) p = Some s" and "p \<noteq> 0" and "pico_socket s \<noteq> 0"
    and "protocol s = PICO_PROTO_UDP" and "async_transport s = Some at" and "msgs sv q = Some m" and "q \<noteq> 0"
    and "done_len m = 0" and "r = reply env (trace sv) (PicoRecvfrom (pico_socket s) (total_len m))"
    and "length (r_bytes r) \<le> length (m_buf m)" and "r_ret r \<noteq> -1" and "r_ret r \<noteq> 0"
  shows "plist (msgs sv) (rx_pending_queue at) (rx_pending_queue_end at) [q] \<Longrightarrow>
      \<exists>sv' m'. rx_socket env 1 sv p = Inr sv' \<and> msgs sv' q = Some m' \<and> done_len m' = scast (r_ret r) \<and>
        vq_used (rx_virtqueue sv') = vq_used (rx_virtqueue sv) @ [(ucast (cookie_save m), ucast (total_len m))]"
    and "rx_pending_queue at = 0 \<Longrightarrow> async_socket sv m = Inr (Some (p, s, at)) \<Longrightarrow> 1 \<le> total_len m \<Longrightarrow>
      total_len m \<le> 1400 \<Longrightarrow>
      \<exists>sv' m'. rx_queue_msg env sv h q = Inr sv' \<and> msgs sv' q = Some m' \<and> done_len m' = scast (r_ret r) \<and>
        vq_used (rx_virtqueue sv') = vq_used (rx_virtqueue sv) @ [(h, r_ret r)]"
proof -
  let ?c = "PicoRecvfrom (pico_socket s) (total_len m)"
  have uh: "ucast (ucast h :: u64) = h" by (rule bit_word_eqI) (simp add: bit_simps)
  have nt: "PICO_PROTO_UDP \<noteq> PICO_PROTO_TCP" by (simp add: PICO_PROTO_TCP_def PICO_PROTO_UDP_def)
  have sh: "\<not> rx_short s (r_ret r) l" for l using assms(5,13) nt by (simp add: rx_short_def)
  have bl: "length (r_bytes (reply env (trace sv) ?c)) \<le> length (m_buf m)" using assms(10,11) by simp
  obtain m' where rc: "rx_call env sv s m 0 = Inr (fst (call env sv ?c), m', r_ret r)"
    and m': "total_len m' = total_len m" "done_len m' = done_len m" "cookie_save m' = cookie_save m" "next_msg m' = next_msg m"
    by (rule rx_call_ok [OF bl assms(5)]) (simp add: assms(10))
  have rv [simp]: "rx_virtqueue (fst (call env sv ?c)) = rx_virtqueue sv" by (simp add: call_def)
  {
    assume pl: "plist (msgs sv) (rx_pending_queue at) (rx_pending_queue_end at) [q]"
    have z: "next_msg m = 0" "rx_pending_queue at = q" "rx_pending_queue_end at = q"
      using pl assms(7) by (auto simp: plist_def)
    let ?m = "m'\<lparr>done_len := done_len m' + scast (r_ret r)\<rparr>"
    let ?sv' = "rx_complete env (set_async (set_msg (fst (call env sv ?c)) q ?m) p s (Some (rx_pop at q m')))
        (cookie_save m') (ucast (total_len m'))"
    have "rx_socket env 1 sv p = Inr ?sv'"
      using assms z m' rc sh
      by (simp add: rx_socket_def deref_def Let_def rx_pop_def)
    then show "\<exists>sv' m'. rx_socket env 1 sv p = Inr sv' \<and> msgs sv' q = Some m' \<and> done_len m' = scast (r_ret r) \<and>
        vq_used (rx_virtqueue sv') = vq_used (rx_virtqueue sv) @ [(ucast (cookie_save m), ucast (total_len m))]"
      using m' assms(9) by (intro exI [of _ ?sv'] exI [of _ ?m]) (simp add: set_async_def add_used_room [OF assms(1)])
  next
    assume a: "rx_pending_queue at = 0" "async_socket sv m = Inr (Some (p, s, at))" "1 \<le> total_len m" "total_len m \<le> 1400"
    let ?m = "m'\<lparr>done_len := scast (r_ret r)\<rparr>"
    let ?sv' = "rx_complete env (set_msg (fst (call env sv ?c)) q ?m) (ucast h) (r_ret r)"
    have tl: "\<not> (total_len m > 1400 \<or> total_len m = 0)" using a(3,4) by auto
    have "rx_queue_msg env sv h q = Inr ?sv'"
      unfolding rx_queue_msg_def deref_def using assms(7,8,12) a tl rc sh m' by simp
    then show "\<exists>sv' m'. rx_queue_msg env sv h q = Inr sv' \<and> msgs sv' q = Some m' \<and> done_len m' = scast (r_ret r) \<and>
        vq_used (rx_virtqueue sv') = vq_used (rx_virtqueue sv) @ [(h, r_ret r)]"
      by (intro exI [of _ ?sv'] exI [of _ ?m]) (simp add: add_used_room [OF assms(1)] uh)
  }
qed

text \<open>
  A datagram shorter than the buffer that waits for it is reported with two different lengths: received
  by \<open>rx_socket\<close> into a buffer that was already pending, its virtqueue entry is returned with the length
  of the whole buffer, although \<open>done_len\<close> says how much arrived; received at once by
  \<open>rx_queue_handle\<close>, with the length that arrived.
\<close>
theorem pico_rx_reported_length:
  assumes "ring_room env" and "heap (tabs sv) p = Some s" and "p \<noteq> 0" and "pico_socket s \<noteq> 0"
    and "protocol s = PICO_PROTO_UDP" and "async_transport s = Some at" and "msgs sv q = Some m" and "q \<noteq> 0"
    and "done_len m = 0" and "r = reply env (trace sv) (PicoRecvfrom (pico_socket s) (total_len m))"
    and "length (r_bytes r) \<le> length (m_buf m)" and "r_ret r \<noteq> -1" and "r_ret r \<noteq> 0"
  shows "(plist (msgs sv) (rx_pending_queue at) (rx_pending_queue_end at) [q] \<longrightarrow>
      (\<exists>sv' m'. rx_socket env 1 sv p = Inr sv' \<and> msgs sv' q = Some m' \<and> done_len m' = scast (r_ret r) \<and>
        vq_used (rx_virtqueue sv') = vq_used (rx_virtqueue sv) @ [(ucast (cookie_save m), ucast (total_len m))])) \<and>
    (rx_pending_queue at = 0 \<and> async_socket sv m = Inr (Some (p, s, at)) \<and> 1 \<le> total_len m \<and>
      total_len m \<le> 1400 \<longrightarrow>
      (\<exists>sv' m'. rx_queue_msg env sv h q = Inr sv' \<and> msgs sv' q = Some m' \<and> done_len m' = scast (r_ret r) \<and>
        vq_used (rx_virtqueue sv') = vq_used (rx_virtqueue sv) @ [(h, r_ret r)]))"
  using rx_lengths [OF assms] by blast

definition udp_env :: pico_env where
  "udp_env = sample_env\<lparr>reply := \<lambda>tr c. \<lparr>r_ret = 2, r_ptr = 0, r_bytes = [65, 66], r_addr = 7, r_port = 53\<rparr>\<rparr>"

theorem pico_rx_reported_length_witness:
  "\<exists>sv'. rx_socket udp_env 1 ((set_heap (fst (picotcp_socket_sync_server_init 1 2 0 1)) 8
      ((new_socket 0 PICO_PROTO_UDP 100)\<lparr>async_transport :=
        Some (empty_async\<lparr>rx_pending_queue := 4, rx_pending_queue_end := 4\<rparr>)\<rparr>))\<lparr>msgs := [4 \<mapsto>
        \<lparr>m_socket_fd = 1, total_len = 100, done_len = 0, src_addr = 0, remote_port = 0, next_msg = 0,
        cookie_save = 9, client_cookie = 0, m_buf = replicate 100 0\<rparr>]\<rparr>) 8 = Inr sv' \<and>
    vq_used (rx_virtqueue sv') = [(9, 100)]"
proof -
  let ?m = "\<lparr>m_socket_fd = 1, total_len = 100, done_len = 0, src_addr = 0, remote_port = 0, next_msg = 0,
        cookie_save = 9, client_cookie = 0, m_buf = replicate 100 0\<rparr> :: tx_msg"
  let ?at = "empty_async\<lparr>rx_pending_queue := 4, rx_pending_queue_end := 4\<rparr>"
  let ?s = "(new_socket 0 PICO_PROTO_UDP 100)\<lparr>async_transport := Some ?at\<rparr>"
  let ?sv = "(set_heap (fst (picotcp_socket_sync_server_init 1 2 0 1)) 8 ?s)\<lparr>msgs := [4 \<mapsto> ?m]\<rparr>"
  have room: "ring_room udp_env" by (simp add: udp_env_def sample_env_def ring_room_def)
  show ?thesis
    using pico_rx_reported_length [OF room, of ?sv 8 ?s ?at 4 ?m, OF _ _ _ _ _ _ _ _ refl]
    by (auto simp: udp_env_def new_socket_def plist_def picotcp_socket_sync_server_init_def)
qed

end
