(* ===== verification/SingleThreaded.thy ===== *)
theory SingleThreaded
  imports Prelude
begin

text \<open>
  \<open>templates/seL4SingleThreadedComponent.template.c\<close>: the event loop of the components with a single
  thread, the table of notification handlers, the trace points and the initialisation modules, with the
  notification function that \<open>templates/seL4VirtQueues-from.template.c\<close> generates for such components.

  The code of a component (its callbacks, its remote procedures, the interrupt handlers of the CAmkES
  library) is a parameter: on the component's own state \<open>'c\<close> it computes a new state and the list of
  calls it makes to this template, in order. Messages are values of \<open>'m\<close>. What the loop does to the
  outside is recorded in \<open>events\<close>; a run is the processing of a sequence of received messages.
\<close>

section \<open>State\<close>

record handlers =
  h_badge :: u64
  callback_handler :: nat
  h_cookie :: nat
  h_name :: "string option"

record trace_point =
  start_index :: u64
  sum_index :: u64
  count_index :: u64

datatype 'm event =
    Recv                      \<comment> \<open>\<open>seL4_Recv\<close> on the endpoint and the bound notification\<close>
  | Reply 'm                  \<comment> \<open>reply through the capability in the TCB\<close>
  | SendSaved 'm              \<comment> \<open>\<open>seL4_Send\<close> to the saved reply capability\<close>
  | Signal u64                \<comment> \<open>\<open>seL4_Signal\<close>\<close>
  | NotifyCalled u64          \<comment> \<open>call of a generated \<open>notify\<close> function\<close>
  | CallbackCalled nat u64 nat
  | IrqsHandled u64
  | MessageHandled u64 int 'm

text \<open>Calls of the component's code to the template, and its effect on the thread-local flag.\<close>

datatype action =
    RegisterHandler handlers
  | Notify u64
  | ReplyCapInTcb bool

record ('c, 'm) loop_state =
  reg_handlers :: "handlers list"
  trace_points :: "trace_point list"
  ccnt :: "nat \<Rightarrow> u64"
  ccnt_reads :: nat
  signal_to_send :: u64
  reply_cap_in_tcb :: bool
  comp :: 'c
  events :: "'m event list"

type_synonym ('c, 'm) message_handler = "u64 \<Rightarrow> 'm \<Rightarrow> 'c \<Rightarrow> (int \<times> 'm \<times> 'c \<times> action list) outcome"

text \<open>
  The parameters: the component's code, the settings of the template, and two functions of libraries,
  \<open>realloc\<close>, which may fail for a number of handlers, and \<open>camkes_declare_reply_cap\<close>, by its effect on
  \<open>reply_cap_in_tcb\<close>. \<open>num_traces\<close> is \<open>None\<close> when tracing is not enabled.
\<close>

record ('c, 'm) component =
  callback :: "nat \<Rightarrow> u64 \<Rightarrow> nat \<Rightarrow> 'c \<Rightarrow> 'c \<times> action list"
  handle_global_endpoint_irq :: "u64 \<Rightarrow> 'c \<Rightarrow> nat \<times> 'c \<times> action list"
  connections :: "(u64 list \<times> ('c, 'm) message_handler) list"
  notification_base :: u64
  endpoint_base :: u64
  realtime :: bool
  num_traces :: "nat option"
  realloc_ok :: "nat \<Rightarrow> bool"
  declare_reply_cap :: "bool \<Rightarrow> bool"

definition log_event :: "'m event \<Rightarrow> ('c, 'm) loop_state \<Rightarrow> ('c, 'm) loop_state" where
  "log_event e st = st\<lparr>events := events st @ [e]\<rparr>"

section \<open>Handlers, notifications and trace points\<close>

definition single_threaded_component_register_handler ::
    "('c, 'm) component \<Rightarrow> handlers \<Rightarrow> ('c, 'm) loop_state \<Rightarrow> ('c, 'm) loop_state outcome" where
  "single_threaded_component_register_handler C h st =
     obind (ensure (realloc_ok C (length (reg_handlers st) + 1)) Fatal)
       (\<lambda>_. Inr (st\<lparr>reg_handlers := reg_handlers st @ [h]\<rparr>))"

text \<open>
  The \<open>notify\<close> function of a virtqueue: in a component with a single thread the signal is left for the
  event loop, which sends it together with its next receive; an earlier one that still waits is sent.
\<close>

definition notify_deferred :: "u64 \<Rightarrow> ('c, 'm) loop_state \<Rightarrow> ('c, 'm) loop_state" where
  "notify_deferred notification st =
     (let st1 = log_event (NotifyCalled notification) st;
          st2 = (if signal_to_send st1 \<noteq> 0 then log_event (Signal (signal_to_send st1)) st1 else st1)
      in st2\<lparr>signal_to_send := notification\<rparr>)"

definition notify_direct :: "u64 \<Rightarrow> ('c, 'm) loop_state \<Rightarrow> ('c, 'm) loop_state" where
  "notify_direct notification st = log_event (Signal notification) (log_event (NotifyCalled notification) st)"

definition TRACE_START :: "('c, 'm) component \<Rightarrow> nat \<Rightarrow> ('c, 'm) loop_state \<Rightarrow> ('c, 'm) loop_state outcome" where
  "TRACE_START C num st =
     (case num_traces C of
        None \<Rightarrow> Inr st
      | Some NUM_TRACES \<Rightarrow>
          if num < NUM_TRACES then
            obind (nth_ok (trace_points st) num) (\<lambda>p.
              let val = ccnt st (ccnt_reads st)
              in Inr (st\<lparr>ccnt_reads := ccnt_reads st + 1,
                         trace_points := (trace_points st)[num := p\<lparr>start_index := val\<rparr>]\<rparr>))
          else Inr st)"

definition TRACE_END_COUNT ::
    "('c, 'm) component \<Rightarrow> nat \<Rightarrow> nat \<Rightarrow> ('c, 'm) loop_state \<Rightarrow> ('c, 'm) loop_state outcome" where
  "TRACE_END_COUNT C num calls st =
     (case num_traces C of
        None \<Rightarrow> Inr st
      | Some NUM_TRACES \<Rightarrow>
          if num < NUM_TRACES then
            obind (nth_ok (trace_points st) num) (\<lambda>p.
              let val = ccnt st (ccnt_reads st)
              in Inr (st\<lparr>ccnt_reads := ccnt_reads st + 1,
                         trace_points := (trace_points st)
                           [num := p\<lparr>sum_index := sum_index p + (val - start_index p),
                                     count_index := count_index p + of_nat calls\<rparr>]\<rparr>))
          else Inr st)"

abbreviation TRACE_END :: "('c, 'm) component \<Rightarrow> nat \<Rightarrow> ('c, 'm) loop_state \<Rightarrow> ('c, 'm) loop_state outcome" where
  "TRACE_END C num \<equiv> TRACE_END_COUNT C num 1"

definition trace_start :: "('c, 'm) loop_state \<Rightarrow> ('c, 'm) loop_state" where
  "trace_start st =
     st\<lparr>trace_points := map (\<lambda>p. p\<lparr>sum_index := 0, count_index := 0\<rparr>) (trace_points st)\<rparr>"

text \<open>
  The lines that \<open>trace_stop\<close> prints: a name, the number of calls and the cycles of each trace point. A
  handler without a name ends the list.
\<close>

definition trace_name :: "('c, 'm) loop_state \<Rightarrow> nat \<Rightarrow> string option outcome" where
  "trace_name st i =
     (if i = 0 then Inr (Some ''total_endpoint_calls'')
      else if i = 1 then Inr (Some ''total_notifications'')
      else if i = 2 then Inr (Some ''irq_handlers'')
      else obind (nth_ok (reg_handlers st) (i - 3)) (\<lambda>h. Inr (h_name h)))"

fun trace_lines :: "('c, 'm) loop_state \<Rightarrow> nat list \<Rightarrow> (string \<times> u64 \<times> u64) list outcome" where
  "trace_lines st [] = Inr []"
| "trace_lines st (i # is) =
     obind (trace_name st i) (\<lambda>name. case name of
        None \<Rightarrow> Inr []
      | Some s \<Rightarrow> obind (nth_ok (trace_points st) i) (\<lambda>p.
          obind (trace_lines st is) (\<lambda>ls. Inr ((s, count_index p, sum_index p) # ls))))"

definition trace_stop :: "('c, 'm) component \<Rightarrow> ('c, 'm) loop_state \<Rightarrow> (string \<times> u64 \<times> u64) list outcome" where
  "trace_stop C st =
     (case num_traces C of
        None \<Rightarrow> Inr []
      | Some NUM_TRACES \<Rightarrow> trace_lines st [0..<min NUM_TRACES (length (reg_handlers st) + 3)])"

section \<open>Running the component's code\<close>

fun run_action :: "('c, 'm) component \<Rightarrow> action \<Rightarrow> ('c, 'm) loop_state \<Rightarrow> ('c, 'm) loop_state outcome" where
  "run_action C (RegisterHandler h) st = single_threaded_component_register_handler C h st"
| "run_action C (Notify n) st = Inr (notify_deferred n st)"
| "run_action C (ReplyCapInTcb b) st = Inr (st\<lparr>reply_cap_in_tcb := b\<rparr>)"

fun run_actions :: "('c, 'm) component \<Rightarrow> action list \<Rightarrow> ('c, 'm) loop_state \<Rightarrow> ('c, 'm) loop_state outcome" where
  "run_actions C [] st = Inr st"
| "run_actions C (a # as) st = obind (run_action C a st) (run_actions C as)"

definition call_callback ::
    "('c, 'm) component \<Rightarrow> handlers \<Rightarrow> ('c, 'm) loop_state \<Rightarrow> ('c, 'm) loop_state outcome" where
  "call_callback C h st =
     (let (c, as) = callback C (callback_handler h) (h_badge h) (h_cookie h) (comp st)
      in run_actions C as
           (log_event (CallbackCalled (callback_handler h) (h_badge h) (h_cookie h)) (st\<lparr>comp := c\<rparr>)))"

definition handle_irqs ::
    "('c, 'm) component \<Rightarrow> u64 \<Rightarrow> ('c, 'm) loop_state \<Rightarrow> (nat \<times> ('c, 'm) loop_state) outcome" where
  "handle_irqs C badge st =
     (let (num_handlers_called, c, as) = handle_global_endpoint_irq C badge (comp st)
      in obind (run_actions C as (log_event (IrqsHandled badge) (st\<lparr>comp := c\<rparr>)))
           (\<lambda>st1. Inr (num_handlers_called, st1)))"

section \<open>The event loop\<close>

text \<open>
  The loop over the handlers reads their number again in every round, since a callback can register
  another one; \<open>n\<close> is the fuel.
\<close>

fun handler_loop ::
    "('c, 'm) component \<Rightarrow> u64 \<Rightarrow> nat \<Rightarrow> nat \<Rightarrow> ('c, 'm) loop_state \<Rightarrow> ('c, 'm) loop_state outcome" where
  "handler_loop C badge 0 i st = Inl OutOfFuel"
| "handler_loop C badge (Suc n) i st =
     (if i < length (reg_handlers st) then
        let h = reg_handlers st ! i; b = h_badge h
        in obind
             (if badge AND b = b then
                obind (TRACE_START C (i + 3) st) (\<lambda>st1.
                obind (call_callback C h st1) (TRACE_END C (i + 3)))
              else Inr st)
             (handler_loop C badge n (Suc i))
      else Inr st)"

text \<open>The branch of the loop for notifications, to the receive at its end.\<close>

definition notification_branch ::
    "('c, 'm) component \<Rightarrow> nat \<Rightarrow> u64 \<Rightarrow> ('c, 'm) loop_state \<Rightarrow> ('c, 'm) loop_state outcome" where
  "notification_branch C n badge st =
     obind (TRACE_START C 1 st) (\<lambda>st1.
     obind (if badge AND notification_base C = notification_base C then
              obind (TRACE_START C 2 st1) (\<lambda>st2.
              obind (handle_irqs C badge st2) (\<lambda>(num_handlers_called, st3).
              obind (TRACE_END_COUNT C 2 num_handlers_called st3) (\<lambda>st4.
              handler_loop C badge n 0 st4)))
            else Inr st1) (\<lambda>st5.
     obind (TRACE_END C 1 st5) (\<lambda>st6.
       if signal_to_send st6 \<noteq> 0 then
         Inr (log_event Recv ((log_event (Signal (signal_to_send st6)) st6)\<lparr>signal_to_send := 0\<rparr>))
       else Inr (log_event Recv st6))))"

text \<open>\<open>switch (badge)\<close>: the case labels are the badges of the clients of every connection.\<close>

fun find_connection ::
    "(u64 list \<times> ('c, 'm) message_handler) list \<Rightarrow> u64 \<Rightarrow> ('c, 'm) message_handler option" where
  "find_connection [] badge = None"
| "find_connection ((badges, f) # conns) badge =
     (if badge \<in> set badges then Some f else find_connection conns badge)"

definition dispatch_message ::
    "('c, 'm) component \<Rightarrow> u64 \<Rightarrow> 'm \<Rightarrow> ('c, 'm) loop_state \<Rightarrow> (int \<times> 'm \<times> ('c, 'm) loop_state) outcome" where
  "dispatch_message C badge info st =
     (case find_connection (connections C) badge of
        None \<Rightarrow> Inr (-1, info, st)
      | Some handle_message \<Rightarrow>
          let st1 = (if realtime C then st
                     else st\<lparr>reply_cap_in_tcb := declare_reply_cap C (reply_cap_in_tcb st)\<rparr>)
          in obind (handle_message badge info (comp st1)) (\<lambda>(result, info', c, as).
             obind (run_actions C as (st1\<lparr>comp := c\<rparr>)) (\<lambda>st2.
               Inr (result, info', log_event (MessageHandled badge result info') st2))))"

definition send_response ::
    "('c, 'm) component \<Rightarrow> 'm \<Rightarrow> ('c, 'm) loop_state \<Rightarrow> ('c, 'm) loop_state" where
  "send_response C info st =
     (if realtime C then log_event Recv (log_event (Reply info) st)
      else if reply_cap_in_tcb st then
        log_event Recv (log_event (Reply info) (st\<lparr>reply_cap_in_tcb := False\<rparr>))
      else log_event Recv (log_event (SendSaved info) st))"

definition loop_iteration ::
    "('c, 'm) component \<Rightarrow> nat \<Rightarrow> u64 \<times> 'm \<Rightarrow> ('c, 'm) loop_state \<Rightarrow> ('c, 'm) loop_state outcome" where
  "loop_iteration C n msg st =
     (let (badge, info) = msg in
      if badge AND endpoint_base C = endpoint_base C then
        obind (TRACE_START C 0 st) (\<lambda>st1.
        obind (dispatch_message C badge info st1) (\<lambda>(result, info', st2).
        obind (TRACE_END C 0 st2) (\<lambda>st3.
          if result = 1 then Inr (send_response C info' st3)
          else if result = 0 then Inr (log_event Recv st3)
          else notification_branch C n badge st3)))
      else notification_branch C n badge st)"

fun event_loop ::
    "('c, 'm) component \<Rightarrow> nat \<Rightarrow> (u64 \<times> 'm) list \<Rightarrow> ('c, 'm) loop_state \<Rightarrow> ('c, 'm) loop_state outcome" where
  "event_loop C n [] st = Inr st"
| "event_loop C n (m # ms) st = obind (loop_iteration C n m st) (event_loop C n ms)"

text \<open>
  \<open>run\<close> waits for the first message and processes those that arrive. (Binding the notification and
  registering the trace callbacks are calls of libraries.)
\<close>

definition run_component ::
    "('c, 'm) component \<Rightarrow> nat \<Rightarrow> (u64 \<times> 'm) list \<Rightarrow> ('c, 'm) loop_state \<Rightarrow> ('c, 'm) loop_state outcome" where
  "run_component C n ms st = event_loop C n ms (log_event Recv st)"

section \<open>Initialisation\<close>

text \<open>
  \<open>pre_init\<close>: the modules of the three sections and, before the last, the hardware modules of CAmkES. A
  module returns an error, which is only reported, and does what the component's code can do.
\<close>

type_synonym 'c module = "'c \<Rightarrow> int \<times> 'c \<times> action list"

fun call_modules ::
    "('c, 'm) component \<Rightarrow> 'c module list \<Rightarrow> ('c, 'm) loop_state \<Rightarrow> (int list \<times> ('c, 'm) loop_state) outcome" where
  "call_modules C [] st = Inr ([], st)"
| "call_modules C (init_fun # ms) st =
     (let (err, c, as) = init_fun (comp st) in
      obind (run_actions C as (st\<lparr>comp := c\<rparr>)) (\<lambda>st1.
      obind (call_modules C ms st1) (\<lambda>(errs, st2). Inr (if err \<noteq> 0 then err # errs else errs, st2))))"

definition pre_init ::
    "('c, 'm) component \<Rightarrow> 'c module \<Rightarrow> 'c module list \<Rightarrow> 'c module list \<Rightarrow> 'c module \<Rightarrow> 'c module list \<Rightarrow>
     ('c, 'm) loop_state \<Rightarrow> (int list \<times> ('c, 'm) loop_state) outcome" where
  "pre_init C camkes_io_ops env_init pre_init_modules call_hardware_init_modules post_init st =
     call_modules C ([camkes_io_ops] @ env_init @ pre_init_modules @ [call_hardware_init_modules] @ post_init) st"

section \<open>What a run shows\<close>

text \<open>Observations of a run: signals sent, \<open>notify\<close> calls, callbacks called, in order.\<close>

fun signals_of :: "'m event list \<Rightarrow> u64 list" where
  "signals_of [] = []"
| "signals_of (Signal n # es) = n # signals_of es"
| "signals_of (e # es) = signals_of es"

fun notifies_of :: "'m event list \<Rightarrow> u64 list" where
  "notifies_of [] = []"
| "notifies_of (NotifyCalled n # es) = n # notifies_of es"
| "notifies_of (e # es) = notifies_of es"

fun callbacks_of :: "'m event list \<Rightarrow> (nat \<times> u64 \<times> nat) list" where
  "callbacks_of [] = []"
| "callbacks_of (CallbackCalled f b k # es) = (f, b, k) # callbacks_of es"
| "callbacks_of (e # es) = callbacks_of es"

lemma signals_of_append [simp]: "signals_of (xs @ ys) = signals_of xs @ signals_of ys"
  by (induction xs rule: signals_of.induct) simp_all

lemma notifies_of_append [simp]: "notifies_of (xs @ ys) = notifies_of xs @ notifies_of ys"
  by (induction xs rule: notifies_of.induct) simp_all

lemma callbacks_of_append [simp]: "callbacks_of (xs @ ys) = callbacks_of xs @ callbacks_of ys"
  by (induction xs rule: callbacks_of.induct) simp_all

definition pending_signal :: "('c, 'm) loop_state \<Rightarrow> u64 list" where
  "pending_signal st = (if signal_to_send st = 0 then [] else [signal_to_send st])"

text \<open>
  The protocol of replies as an automaton over the events. Its state says which response is owed; every
  event that is out of order leads to \<open>None\<close>.
\<close>

fun reply_next :: "'m event \<Rightarrow> 'm option option \<Rightarrow> 'm option option" where
  "reply_next (MessageHandled b r m) s = (if s = Some None then Some (if r = 1 then Some m else None) else None)"
| "reply_next (Reply m) s = (if s = Some (Some m) then Some None else None)"
| "reply_next (SendSaved m) s = (if s = Some (Some m) then Some None else None)"
| "reply_next Recv s = (if s = Some None then Some None else None)"
| "reply_next (CallbackCalled f b k) s = (if s = Some None then Some None else None)"
| "reply_next e s = s"

definition reply_state :: "'m event list \<Rightarrow> 'm option option" where
  "reply_state es = fold reply_next es (Some None)"

lemma reply_state_append [simp]: "reply_state (es @ fs) = fold reply_next fs (reply_state es)"
  by (simp add: reply_state_def)

text \<open>What the component's code may do, for a class of actions.\<close>

definition component_does :: "(action \<Rightarrow> bool) \<Rightarrow> ('c, 'm) component \<Rightarrow> bool" where
  "component_does A C \<longleftrightarrow>
     (\<forall>f b k c. list_all A (snd (callback C f b k c))) \<and>
     (\<forall>b c. list_all A (snd (snd (handle_global_endpoint_irq C b c)))) \<and>
     (\<forall>(bs, f) \<in> set (connections C). \<forall>b m c r m' c' as.
        f b m c = Inr (r, m', c', as) \<longrightarrow> list_all A as)"

lemma component_does_callback:
  "component_does A C \<Longrightarrow> callback C f b k c = (c', as) \<Longrightarrow> list_all A as"
  unfolding component_does_def by (metis snd_conv)

lemma component_does_irq:
  "component_does A C \<Longrightarrow> handle_global_endpoint_irq C b c = (n, c', as) \<Longrightarrow> list_all A as"
  unfolding component_does_def by (metis snd_conv)

lemma find_connection_member: "find_connection cs badge = Some f \<Longrightarrow> \<exists>bs. (bs, f) \<in> set cs \<and> badge \<in> set bs"
  by (induction cs badge rule: find_connection.induct) (auto split: if_splits)

lemma component_does_message:
  assumes "component_does A C" "find_connection (connections C) badge = Some f"
    and "f b m c = Inr (r, m', c', as)"
  shows "list_all A as"
  using assms find_connection_member [OF assms(2)] by (fastforce simp: component_does_def)

text \<open>
  An invariant of the loop, relative to the response that is owed: a property that the actions of a class
  \<open>allowed\<close> and the loop's own bookkeeping keep holds between any two iterations.
\<close>

locale loop_invariant =
  fixes allowed :: "action \<Rightarrow> bool"
    and P :: "'m option \<Rightarrow> ('c, 'm) loop_state \<Rightarrow> bool"
  assumes act: "allowed a \<Longrightarrow> P p st \<Longrightarrow> run_action C a st = Inr st' \<Longrightarrow> P p st'"
    and bookkeeping: "P p st \<Longrightarrow> length ts = length (trace_points st) \<Longrightarrow>
          P p (st\<lparr>ccnt_reads := reads, trace_points := ts\<rparr>)"
    and component_step: "P p st \<Longrightarrow> P p (st\<lparr>comp := c\<rparr>)"
    and reply_flag: "P p st \<Longrightarrow> P p (st\<lparr>reply_cap_in_tcb := f\<rparr>)"
    and calling: "P None st \<Longrightarrow> P None (log_event (CallbackCalled g b k) st)"
    and irqs: "P None st \<Longrightarrow> P None (log_event (IrqsHandled b) st)"
    and handled: "P None st \<Longrightarrow> P (if r = 1 then Some m else None) (log_event (MessageHandled b r m) st)"
    and replying: "P (Some m) st \<Longrightarrow> P None (log_event (Reply m) st)"
    and sending: "P (Some m) st \<Longrightarrow> P None (log_event (SendSaved m) st)"
    and receiving: "P None st \<Longrightarrow> P None (log_event Recv st)"
    and signalling: "P None st \<Longrightarrow> signal_to_send st \<noteq> 0 \<Longrightarrow>
          P None ((log_event (Signal (signal_to_send st)) st)\<lparr>signal_to_send := 0\<rparr>)"
begin

lemma actions: "list_all allowed as \<Longrightarrow> P p st \<Longrightarrow> run_actions C as st = Inr st' \<Longrightarrow> P p st'"
  by (induction as arbitrary: st) (auto simp: obind_eq_Inr intro: act)

lemma started: "P p st \<Longrightarrow> TRACE_START C num st = Inr st' \<Longrightarrow> P p st'"
  by (auto simp: TRACE_START_def obind_eq_Inr Let_def split: option.splits if_splits intro: bookkeeping)

lemma ended: "P p st \<Longrightarrow> TRACE_END_COUNT C num k st = Inr st' \<Longrightarrow> P p st'"
  by (auto simp: TRACE_END_COUNT_def obind_eq_Inr Let_def split: option.splits if_splits intro: bookkeeping)

lemma called:
  assumes "component_does allowed C" "P None st" "call_callback C h st = Inr st'"
  shows "P None st'"
proof -
  obtain c as where code: "callback C (callback_handler h) (h_badge h) (h_cookie h) (comp st) = (c, as)"
    by fastforce
  have "P None (log_event (CallbackCalled (callback_handler h) (h_badge h) (h_cookie h)) (st\<lparr>comp := c\<rparr>))"
    by (intro calling component_step assms)
  then show ?thesis
    using actions [OF component_does_callback [OF assms(1) code]] assms(3)
    by (simp add: call_callback_def code)
qed

lemma irqs_handled:
  assumes "component_does allowed C" "P None st" "handle_irqs C badge st = Inr (k, st')"
  shows "P None st'"
proof -
  obtain j c as where code: "handle_global_endpoint_irq C badge (comp st) = (j, c, as)"
    by (metis prod_cases3)
  have "P None (log_event (IrqsHandled badge) (st\<lparr>comp := c\<rparr>))"
    by (intro irqs component_step assms)
  then show ?thesis
    using actions [OF component_does_irq [OF assms(1) code]] assms(3)
    by (auto simp: handle_irqs_def code obind_eq_Inr)
qed

lemma handlers_called:
  assumes "component_does allowed C" "P None st" "handler_loop C badge n i st = Inr st'"
  shows "P None st'"
  using assms(2,3)
proof (induction n arbitrary: i st)
  case 0
  then show ?case by simp
next
  case (Suc n)
  show ?case
  proof (cases "i < length (reg_handlers st)")
    case False
    with Suc.prems show ?thesis by simp
  next
    case True
    define h where "h = reg_handlers st ! i"
    obtain st1 where body: "(if badge AND h_badge h = h_badge h then
          obind (TRACE_START C (i + 3) st) (\<lambda>st1. obind (call_callback C h st1) (TRACE_END C (i + 3)))
        else Inr st) = Inr st1" and rest: "handler_loop C badge n (Suc i) st1 = Inr st'"
      using Suc.prems True by (auto simp: obind_eq_Inr Let_def h_def [symmetric])
    have "P None st1"
    proof (cases "badge AND h_badge h = h_badge h")
      case False
      with body Suc.prems(1) show ?thesis by simp
    next
      case True
      then obtain t u where t: "TRACE_START C (i + 3) st = Inr t" and u: "call_callback C h t = Inr u"
        and st1: "TRACE_END C (i + 3) u = Inr st1"
        using body by (auto simp: obind_eq_Inr)
      show ?thesis
        by (intro ended [OF _ st1] called [OF assms(1) _ u] started [OF Suc.prems(1) t])
    qed
    then show ?thesis by (rule Suc.IH) (rule rest)
  qed
qed

lemma irq_round:
  assumes "component_does allowed C" "P None st"
    and "obind (TRACE_START C 2 st) (\<lambda>st2.
         obind (handle_irqs C badge st2) (\<lambda>(k, st3).
         obind (TRACE_END_COUNT C 2 k st3) (\<lambda>st4. handler_loop C badge n 0 st4))) = Inr st'"
  shows "P None st'"
proof -
  obtain st2 k st3 st4 where st2: "TRACE_START C 2 st = Inr st2"
    and st3: "handle_irqs C badge st2 = Inr (k, st3)" and st4: "TRACE_END_COUNT C 2 k st3 = Inr st4"
    and st': "handler_loop C badge n 0 st4 = Inr st'"
    using assms(3) by (auto simp: obind_eq_Inr)
  show ?thesis
    by (intro handlers_called [OF assms(1) _ st'] ended [OF _ st4] irqs_handled [OF assms(1) _ st3]
          started [OF assms(2) st2])
qed

lemma notified:
  assumes "component_does allowed C" "P None st" "notification_branch C n badge st = Inr st'"
  shows "P None st'"
proof -
  obtain st1 where st1: "TRACE_START C 1 st = Inr st1"
    and rest: "obind (if badge AND notification_base C = notification_base C then
                 obind (TRACE_START C 2 st1) (\<lambda>st2.
                 obind (handle_irqs C badge st2) (\<lambda>(k, st3).
                 obind (TRACE_END_COUNT C 2 k st3) (\<lambda>st4. handler_loop C badge n 0 st4)))
               else Inr st1) (\<lambda>st5. obind (TRACE_END C 1 st5) (\<lambda>st6.
       if signal_to_send st6 \<noteq> 0 then
         Inr (log_event Recv ((log_event (Signal (signal_to_send st6)) st6)\<lparr>signal_to_send := 0\<rparr>))
       else Inr (log_event Recv st6))) = Inr st'"
    by (rule obind_eq_InrE [OF assms(3) [unfolded notification_branch_def]])
  obtain st5 where st5: "(if badge AND notification_base C = notification_base C then
                 obind (TRACE_START C 2 st1) (\<lambda>st2.
                 obind (handle_irqs C badge st2) (\<lambda>(k, st3).
                 obind (TRACE_END_COUNT C 2 k st3) (\<lambda>st4. handler_loop C badge n 0 st4)))
               else Inr st1) = Inr st5"
    and rest': "obind (TRACE_END C 1 st5) (\<lambda>st6.
       if signal_to_send st6 \<noteq> 0 then
         Inr (log_event Recv ((log_event (Signal (signal_to_send st6)) st6)\<lparr>signal_to_send := 0\<rparr>))
       else Inr (log_event Recv st6)) = Inr st'"
    by (rule obind_eq_InrE [OF rest])
  obtain st6 where st6: "TRACE_END C 1 st5 = Inr st6"
    and st': "(if signal_to_send st6 \<noteq> 0 then
         Inr (log_event Recv ((log_event (Signal (signal_to_send st6)) st6)\<lparr>signal_to_send := 0\<rparr>))
       else Inr (log_event Recv st6)) = (Inr st' :: ('c, 'm) loop_state outcome)"
    by (rule obind_eq_InrE [OF rest'])
  have "P None st1" by (rule started [OF assms(2) st1])
  then have "P None st5"
    using st5 irq_round [OF assms(1), of st1] by (auto split: if_splits)
  then have "P None st6" by (rule ended [OF _ st6])
  then show ?thesis
    using st' by (auto split: if_splits intro: receiving signalling)
qed

lemma dispatched:
  assumes "component_does allowed C" "P None st"
    and "dispatch_message C badge info st = Inr (r, m, st')"
  shows "P (if r = 1 then Some m else None) st'"
proof (cases "find_connection (connections C) badge")
  case None
  with assms show ?thesis by (auto simp: dispatch_message_def)
next
  case (Some f)
  define st1 where "st1 = (if realtime C then st
     else st\<lparr>reply_cap_in_tcb := declare_reply_cap C (reply_cap_in_tcb st)\<rparr>)"
  have "P None st1" using assms(2) by (simp add: st1_def reply_flag)
  moreover obtain c as st2 where code: "f badge info (comp st1) = Inr (r, m, c, as)"
    and st2: "run_actions C as (st1\<lparr>comp := c\<rparr>) = Inr st2"
    and st': "st' = log_event (MessageHandled badge r m) st2"
    using assms(3) Some by (auto simp: dispatch_message_def st1_def [symmetric] obind_eq_Inr)
  ultimately have "P None st2"
    using actions [OF component_does_message [OF assms(1) Some code]] component_step by blast
  then show ?thesis unfolding st' by (rule handled)
qed

lemma responded: "P (Some m) st \<Longrightarrow> P None (send_response C m st)"
  by (auto simp: send_response_def intro: receiving replying sending reply_flag)

lemma iteration:
  assumes "component_does allowed C" "P None st" "loop_iteration C n (badge, info) st = Inr st'"
  shows "P None st'"
proof (cases "badge AND endpoint_base C = endpoint_base C")
  case False
  with assms show ?thesis by (auto simp: loop_iteration_def intro: notified)
next
  case True
  then obtain st1 r m st2 st3 where st1: "TRACE_START C 0 st = Inr st1"
    and st2: "dispatch_message C badge info st1 = Inr (r, m, st2)" and st3: "TRACE_END C 0 st2 = Inr st3"
    and st': "(if r = 1 then Inr (send_response C m st3) else if r = 0 then Inr (log_event Recv st3)
               else notification_branch C n badge st3) = Inr st'"
    using assms(3) by (auto simp: loop_iteration_def obind_eq_Inr)
  have "P (if r = 1 then Some m else None) st3"
    by (intro ended [OF _ st3] dispatched [OF assms(1) _ st2] started [OF assms(2) st1])
  then show ?thesis
    using st' notified [OF assms(1), of st3] by (auto split: if_splits intro: responded receiving)
qed

lemma loop:
  "component_does allowed C \<Longrightarrow> P None st \<Longrightarrow> event_loop C n ms st = Inr st' \<Longrightarrow> P None st'"
  by (induction ms arbitrary: st) (auto simp: obind_eq_Inr intro: iteration)

lemma modules:
  "\<forall>f \<in> set ms. \<forall>c. list_all allowed (snd (snd (f c))) \<Longrightarrow> P p st \<Longrightarrow>
   call_modules C ms st = Inr (errs, st') \<Longrightarrow> P p st'"
proof (induction ms arbitrary: st errs)
  case Nil
  then show ?case by simp
next
  case (Cons f ms)
  obtain err c as where f: "f (comp st) = (err, c, as)" by (rule prod_cases3)
  with Cons.prems(3) obtain st1 errs1 where st1: "run_actions C as (st\<lparr>comp := c\<rparr>) = Inr st1"
    and rest: "call_modules C ms st1 = Inr (errs1, st')"
    by (auto simp: obind_eq_Inr)
  have "list_all allowed as" using Cons.prems(1) f by (metis list.set_intros(1) snd_conv)
  then have "P p st1" by (rule actions [OF _ component_step [OF Cons.prems(2)] st1])
  then show ?case using Cons.IH [OF _ _ rest] Cons.prems(1) by simp
qed

lemma run:
  "component_does allowed C \<Longrightarrow> P None st \<Longrightarrow> run_component C n ms st = Inr st' \<Longrightarrow> P None st'"
  by (auto simp: run_component_def intro: loop receiving)

end

fun cap_ok :: "action \<Rightarrow> bool" where
  "cap_ok (Notify n) \<longleftrightarrow> n \<noteq> 0"
| "cap_ok a \<longleftrightarrow> True"

fun registers_nothing :: "action \<Rightarrow> bool" where
  "registers_nothing (RegisterHandler h) \<longleftrightarrow> False"
| "registers_nothing a \<longleftrightarrow> True"

definition signals_conserved :: "('c, 'm) loop_state \<Rightarrow> bool" where
  "signals_conserved st \<longleftrightarrow> signals_of (events st) @ pending_signal st = notifies_of (events st)"

definition traces_ok :: "('c, 'm) component \<Rightarrow> ('c, 'm) loop_state \<Rightarrow> bool" where
  "traces_ok C st \<longleftrightarrow> (case num_traces C of None \<Rightarrow> True | Some k \<Rightarrow> k \<le> length (trace_points st))"

lemmas loop_observations =
  log_event_def notify_deferred_def signals_conserved_def pending_signal_def traces_ok_def
  single_threaded_component_register_handler_def obind_eq_Inr Let_def

lemma run_actionE:
  assumes "run_action C a st = Inr st'"
  obtains h where "a = RegisterHandler h" "st' = st\<lparr>reg_handlers := reg_handlers st @ [h]\<rparr>"
  | k where "a = Notify k" "st' = notify_deferred k st"
  | b where "a = ReplyCapInTcb b" "st' = st\<lparr>reply_cap_in_tcb := b\<rparr>"
  using assms
  by (cases a) (auto simp: single_threaded_component_register_handler_def obind_eq_Inr)

interpretation signals: loop_invariant cap_ok "\<lambda>_. signals_conserved"
proof (unfold_locales, goal_cases)
  case (1 a p st C st')
  from 1(3) show ?case
    by (cases rule: run_actionE) (use 1 in \<open>auto simp: loop_observations\<close>)
qed (auto simp: loop_observations)

interpretation replies: loop_invariant "\<lambda>_. True" "\<lambda>p st. reply_state (events st) = Some p"
proof (unfold_locales, goal_cases)
  case (1 a p st C st')
  from 1(3) show ?case
    by (cases rule: run_actionE) (use 1 in \<open>auto simp: loop_observations\<close>)
qed (auto simp: loop_observations)

interpretation table: loop_invariant registers_nothing
  "\<lambda>_ st. reg_handlers st = H \<and> length (trace_points st) = N" for H N
proof (unfold_locales, goal_cases)
  case (1 a p st C st')
  from 1(3) show ?case
    by (cases rule: run_actionE) (use 1 in \<open>auto simp: loop_observations\<close>)
qed (auto simp: loop_observations)

lemma table_traces_ok:
  "length (trace_points st') = length (trace_points st) \<Longrightarrow> traces_ok C st' = traces_ok C st"
  by (simp add: traces_ok_def split: option.splits)

section \<open>Progress\<close>

lemma TRACE_START_ok:
  assumes "traces_ok C st"
  obtains r ts where "TRACE_START C num st = Inr (st\<lparr>ccnt_reads := r, trace_points := ts\<rparr>)"
    "length ts = length (trace_points st)"
proof -
  have "\<exists>r ts. TRACE_START C num st = Inr (st\<lparr>ccnt_reads := r, trace_points := ts\<rparr>) \<and>
      length ts = length (trace_points st)"
  proof (cases "case num_traces C of None \<Rightarrow> False | Some n \<Rightarrow> num < n")
    case True
    with assms show ?thesis
      by (auto simp: TRACE_START_def traces_ok_def Let_def split: option.splits)
        (intro exI conjI, rule refl, simp)
  next
    case False
    then have "TRACE_START C num st = Inr (st\<lparr>ccnt_reads := ccnt_reads st, trace_points := trace_points st\<rparr>)"
      by (auto simp: TRACE_START_def split: option.splits)
    then show ?thesis by blast
  qed
  with that show thesis by blast
qed

lemma TRACE_END_ok:
  assumes "traces_ok C st"
  obtains r ts where "TRACE_END_COUNT C num k st = Inr (st\<lparr>ccnt_reads := r, trace_points := ts\<rparr>)"
    "length ts = length (trace_points st)"
proof -
  have "\<exists>r ts. TRACE_END_COUNT C num k st = Inr (st\<lparr>ccnt_reads := r, trace_points := ts\<rparr>) \<and>
      length ts = length (trace_points st)"
  proof (cases "case num_traces C of None \<Rightarrow> False | Some n \<Rightarrow> num < n")
    case True
    with assms show ?thesis
      by (auto simp: TRACE_END_COUNT_def traces_ok_def Let_def split: option.splits)
        (intro exI conjI, rule refl, simp)
  next
    case False
    then have "TRACE_END_COUNT C num k st = Inr (st\<lparr>ccnt_reads := ccnt_reads st, trace_points := trace_points st\<rparr>)"
      by (auto simp: TRACE_END_COUNT_def split: option.splits)
    then show ?thesis by blast
  qed
  with that show thesis by blast
qed

lemma run_actions_ok:
  assumes "list_all registers_nothing as"
  obtains st' where "run_actions C as st = Inr st'" "callbacks_of (events st') = callbacks_of (events st)"
    "comp st' = comp st"
  using assms
proof (induction as arbitrary: st thesis)
  case Nil
  then show ?case by simp
next
  case (Cons a as)
  have "\<exists>st1. run_action C a st = Inr st1 \<and> callbacks_of (events st1) = callbacks_of (events st) \<and> comp st1 = comp st"
    using Cons.prems(2) by (cases a) (auto simp: notify_deferred_def log_event_def Let_def)
  then show ?case
    using Cons.IH Cons.prems by (metis list.pred_inject(2) obind_Inr run_actions.simps(2))
qed

lemma call_callback_ok:
  assumes "component_does registers_nothing C"
  obtains st' where "call_callback C h st = Inr st'"
    "callbacks_of (events st') = callbacks_of (events st) @ [(callback_handler h, h_badge h, h_cookie h)]"
proof -
  obtain c as where code: "callback C (callback_handler h) (h_badge h) (h_cookie h) (comp st) = (c, as)"
    by fastforce
  show thesis
    by (rule run_actions_ok [OF component_does_callback [OF assms code]])
      (rule that, auto simp: call_callback_def code log_event_def)
qed

lemma handle_irqs_ok:
  assumes "component_does registers_nothing C"
  obtains k st' where "handle_irqs C badge st = Inr (k, st')" "callbacks_of (events st') = callbacks_of (events st)"
proof -
  obtain k c as where code: "handle_global_endpoint_irq C badge (comp st) = (k, c, as)"
    by (metis prod_cases3)
  obtain st' where "run_actions C as (log_event (IrqsHandled badge) (st\<lparr>comp := c\<rparr>)) = Inr st'"
    and "callbacks_of (events st') = callbacks_of (events (log_event (IrqsHandled badge) (st\<lparr>comp := c\<rparr>)))"
    by (rule run_actions_ok [OF component_does_irq [OF assms code]])
  then show thesis
    by (intro that [of k st']) (simp_all add: handle_irqs_def code log_event_def)
qed

definition handler_calls :: "u64 \<Rightarrow> handlers list \<Rightarrow> (nat \<times> u64 \<times> nat) list" where
  "handler_calls badge hs =
     map (\<lambda>h. (callback_handler h, h_badge h, h_cookie h)) (filter (\<lambda>h. badge AND h_badge h = h_badge h) hs)"

lemma handler_calls_Nil [simp]: "handler_calls badge [] = []"
  by (simp add: handler_calls_def)

lemma handler_calls_Cons:
  "handler_calls badge (h # hs) =
     (if badge AND h_badge h = h_badge h then [(callback_handler h, h_badge h, h_cookie h)] else []) @
     handler_calls badge hs"
  by (simp add: handler_calls_def)

lemma handler_step_ok:
  assumes "component_does registers_nothing C" "traces_ok C st"
  obtains st' where
    "(if badge AND h_badge h = h_badge h then
        obind (TRACE_START C j st) (\<lambda>st1. obind (call_callback C h st1) (TRACE_END C j))
      else Inr st) = Inr st'"
    "reg_handlers st' = reg_handlers st" "traces_ok C st'"
    "callbacks_of (events st') = callbacks_of (events st) @ handler_calls badge [h]"
proof (cases "badge AND h_badge h = h_badge h")
  case False
  with that assms show thesis by (simp add: handler_calls_def)
next
  case True
  obtain r ts where st1: "TRACE_START C j st = Inr (st\<lparr>ccnt_reads := r, trace_points := ts\<rparr>)"
    and len: "length ts = length (trace_points st)"
    by (rule TRACE_START_ok [OF assms(2)])
  let ?st1 = "st\<lparr>ccnt_reads := r, trace_points := ts\<rparr>"
  obtain st2 where st2: "call_callback C h ?st1 = Inr st2"
    and calls: "callbacks_of (events st2) = callbacks_of (events st) @ [(callback_handler h, h_badge h, h_cookie h)]"
    by (rule call_callback_ok [OF assms(1), where st = ?st1]) auto
  obtain keep: "reg_handlers st2 = reg_handlers st" "length (trace_points st2) = length (trace_points st)"
    using table.called [OF assms(1) _ st2, where H = "reg_handlers st" and N = "length (trace_points st)"] len
    by auto
  then have ok: "traces_ok C st2" using assms(2) table_traces_ok by blast
  obtain r' ts' where st3: "TRACE_END C j st2 = Inr (st2\<lparr>ccnt_reads := r', trace_points := ts'\<rparr>)"
    and len': "length ts' = length (trace_points st2)"
    by (rule TRACE_END_ok [OF ok])
  show thesis
    by (rule that [where st' = "st2\<lparr>ccnt_reads := r', trace_points := ts'\<rparr>"])
      (use True st1 st2 st3 keep calls ok len' in \<open>auto simp: handler_calls_def traces_ok_def split: option.splits\<close>)
qed

lemma handler_loop_ok:
  assumes "component_does registers_nothing C" "traces_ok C st" "i \<le> length (reg_handlers st)" "length (reg_handlers st) < n + i"
  shows "\<exists>st'. handler_loop C badge n i st = Inr st' \<and>
           callbacks_of (events st') = callbacks_of (events st) @ handler_calls badge (drop i (reg_handlers st))"
  using assms(2-4)
proof (induction n arbitrary: i st)
  case 0
  then show ?case by simp
next
  case (Suc n)
  show ?case
  proof (cases "i < length (reg_handlers st)")
    case False
    then show ?thesis by (simp add: handler_calls_def)
  next
    case True
    define h where "h = reg_handlers st ! i"
    obtain st1 where st1: "(if badge AND h_badge h = h_badge h then
        obind (TRACE_START C (i + 3) st) (\<lambda>st1. obind (call_callback C h st1) (TRACE_END C (i + 3)))
      else Inr st) = Inr st1" and keep: "reg_handlers st1 = reg_handlers st" "traces_ok C st1"
      and calls: "callbacks_of (events st1) = callbacks_of (events st) @ handler_calls badge [h]"
      by (rule handler_step_ok [OF assms(1) Suc.prems(1)])
    have drop: "drop i (reg_handlers st) = h # drop (Suc i) (reg_handlers st)"
      using True by (simp add: h_def Cons_nth_drop_Suc)
    show ?thesis
      using Suc.IH [OF keep(2), of "Suc i"] Suc.prems(3) True st1 keep(1) calls
      by (auto simp: Let_def h_def [symmetric] drop handler_calls_Cons)
  qed
qed

lemma irq_round_ok:
  assumes "component_does registers_nothing C" "traces_ok C st" "length (reg_handlers st) < n"
  obtains st' where
    "obind (TRACE_START C 2 st) (\<lambda>st2.
     obind (handle_irqs C badge st2) (\<lambda>(k, st3).
     obind (TRACE_END_COUNT C 2 k st3) (\<lambda>st4. handler_loop C badge n 0 st4))) = Inr st'"
    "callbacks_of (events st') = callbacks_of (events st) @ handler_calls badge (reg_handlers st)"
proof -
  obtain r ts where st1: "TRACE_START C 2 st = Inr (st\<lparr>ccnt_reads := r, trace_points := ts\<rparr>)"
    and len: "length ts = length (trace_points st)"
    by (rule TRACE_START_ok [OF assms(2)])
  let ?st1 = "st\<lparr>ccnt_reads := r, trace_points := ts\<rparr>"
  obtain k st2 where st2: "handle_irqs C badge ?st1 = Inr (k, st2)"
    and calls: "callbacks_of (events st2) = callbacks_of (events st)"
    by (rule handle_irqs_ok [OF assms(1), where st = ?st1]) auto
  obtain keep: "reg_handlers st2 = reg_handlers st" "length (trace_points st2) = length (trace_points st)"
    using table.irqs_handled [OF assms(1) _ st2, where H = "reg_handlers st" and N = "length (trace_points st)"] len
    by auto
  then have ok: "traces_ok C st2" using assms(2) table_traces_ok by blast
  obtain r' ts' where st3: "TRACE_END_COUNT C 2 k st2 = Inr (st2\<lparr>ccnt_reads := r', trace_points := ts'\<rparr>)"
    and len': "length ts' = length (trace_points st2)"
    by (rule TRACE_END_ok [OF ok])
  let ?st3 = "st2\<lparr>ccnt_reads := r', trace_points := ts'\<rparr>"
  have "traces_ok C ?st3" using ok len' table_traces_ok [of ?st3 st2 C] by simp
  then obtain st' where "handler_loop C badge n 0 ?st3 = Inr st'"
    and "callbacks_of (events st') = callbacks_of (events st2) @ handler_calls badge (reg_handlers st)"
    using handler_loop_ok [OF assms(1), of ?st3 0 n badge] assms(3) keep by auto
  with st1 st2 st3 calls show thesis by (intro that [of st']) simp_all
qed

text \<open>
  A notification is complete, whatever the component's code does short of registering handlers: the loop
  over the handlers ends, and nothing is left in \<open>signal_to_send\<close>.
\<close>

lemma notification_branch_ok:
  assumes code: "component_does registers_nothing C" and ok: "traces_ok C st"
    and fuel: "length (reg_handlers st) < n"
    and badge: "badge AND notification_base C = notification_base C"
  obtains st' where "notification_branch C n badge st = Inr st'"
    "callbacks_of (events st') = callbacks_of (events st) @ handler_calls badge (reg_handlers st)"
    "reg_handlers st' = reg_handlers st" "traces_ok C st'" "signal_to_send st' = 0" "last (events st') = Recv"
proof -
  obtain r ts where st1: "TRACE_START C 1 st = Inr (st\<lparr>ccnt_reads := r, trace_points := ts\<rparr>)"
    and len: "length ts = length (trace_points st)"
    by (rule TRACE_START_ok [OF ok])
  let ?st1 = "st\<lparr>ccnt_reads := r, trace_points := ts\<rparr>"
  let ?H = "reg_handlers st" and ?k = "length (trace_points st)"
  have ok1: "traces_ok C ?st1" using ok len table_traces_ok [of ?st1 st C] by simp
  obtain st5 where st5: "obind (TRACE_START C 2 ?st1) (\<lambda>st2.
     obind (handle_irqs C badge st2) (\<lambda>(k, st3).
     obind (TRACE_END_COUNT C 2 k st3) (\<lambda>st4. handler_loop C badge n 0 st4))) = Inr st5"
    and calls: "callbacks_of (events st5) = callbacks_of (events st) @ handler_calls badge ?H"
    by (rule irq_round_ok [OF code ok1, of n badge]) (use fuel in simp_all)
  obtain keep: "reg_handlers st5 = ?H" "length (trace_points st5) = ?k"
    using table.irq_round [OF code _ st5, where H = ?H and N = ?k] len by auto
  then have ok5: "traces_ok C st5" using ok table_traces_ok by blast
  obtain r' ts' where st6: "TRACE_END C 1 st5 = Inr (st5\<lparr>ccnt_reads := r', trace_points := ts'\<rparr>)"
    and len': "length ts' = length (trace_points st5)"
    by (rule TRACE_END_ok [OF ok5])
  let ?st6 = "st5\<lparr>ccnt_reads := r', trace_points := ts'\<rparr>"
  let ?st' = "if signal_to_send ?st6 \<noteq> 0 then
       log_event Recv ((log_event (Signal (signal_to_send ?st6)) ?st6)\<lparr>signal_to_send := 0\<rparr>)
     else log_event Recv ?st6"
  have "notification_branch C n badge st = Inr ?st'"
    by (simp only: notification_branch_def st1 st5 st6 badge simp_thms if_True obind_Inr) simp
  moreover have "traces_ok C ?st'"
    using ok keep(2) len' table_traces_ok [of ?st' st C] by (simp add: log_event_def)
  ultimately show thesis
    using calls keep by (intro that [of ?st']) (simp_all add: log_event_def)
qed

definition handlers_return :: "('m \<Rightarrow> bool) \<Rightarrow> ('c, 'm) component \<Rightarrow> bool" where
  "handlers_return V C \<longleftrightarrow>
     (\<forall>conn \<in> set (connections C). \<forall>b m c. V m \<longrightarrow> (\<exists>x. snd conn b m c = Inr x))"

lemma handlers_returnD:
  assumes "handlers_return V C" "find_connection (connections C) badge = Some f" "V m"
  obtains r m' c' as where "f b m c = Inr (r, m', c', as)"
proof -
  obtain bs where "(bs, f) \<in> set (connections C)" using find_connection_member [OF assms(2)] by blast
  then obtain x where x: "f b m c = Inr x"
    using bspec [OF assms(1) [unfolded handlers_return_def]] assms(3) by fastforce
  obtain r m' c' as where "x = (r, m', c', as)" by (rule prod_cases4)
  with x show thesis by (intro that) simp
qed

definition ready :: "('c, 'm) component \<Rightarrow> nat \<Rightarrow> ('c, 'm) loop_state \<Rightarrow> bool" where
  "ready C n st \<longleftrightarrow> traces_ok C st \<and> length (reg_handlers st) < n"

lemma ready_same:
  "reg_handlers st' = reg_handlers st \<Longrightarrow> length (trace_points st') = length (trace_points st) \<Longrightarrow>
   ready C n st' = ready C n st"
  unfolding ready_def by (metis table_traces_ok)

lemma dispatch_ok:
  assumes "component_does registers_nothing C" "handlers_return V C" "V info"
  obtains r m st' where "dispatch_message C badge info st = Inr (r, m, st')"
proof (cases "find_connection (connections C) badge")
  case None
  with that show thesis by (simp add: dispatch_message_def)
next
  case (Some f)
  define st1 where "st1 = (if realtime C then st
     else st\<lparr>reply_cap_in_tcb := declare_reply_cap C (reply_cap_in_tcb st)\<rparr>)"
  obtain r m c as where code: "f badge info (comp st1) = Inr (r, m, c, as)"
    by (rule handlers_returnD [OF assms(2) Some assms(3)])
  obtain st2 where "run_actions C as (st1\<lparr>comp := c\<rparr>) = Inr st2"
    by (rule run_actions_ok [OF component_does_message [OF assms(1) Some code]])
  with code Some that show thesis
    by (simp add: dispatch_message_def st1_def [symmetric])
qed

lemma iteration_ok:
  assumes code: "component_does registers_nothing C" and conns: "handlers_return V C"
    and ready: "ready C n st" and "V info"
  obtains st' where "loop_iteration C n (badge, info) st = Inr st'" "ready C n st'"
proof -
  let ?T = "\<lambda>_. \<lambda>t. reg_handlers t = reg_handlers st \<and> length (trace_points t) = length (trace_points st)"
  have branch: "\<exists>st'. notification_branch C n badge t = Inr st'" if t: "?T None t" for t
  proof (cases "badge AND notification_base C = notification_base C")
    case True
    have "traces_ok C t" "length (reg_handlers t) < n"
      using ready t table_traces_ok by (auto simp: ready_def)
    then show ?thesis using notification_branch_ok [OF code _ _ True] by metis
  next
    case False
    have ok: "traces_ok C t" using ready t table_traces_ok by (auto simp: ready_def)
    obtain r ts where st1: "TRACE_START C 1 t = Inr (t\<lparr>ccnt_reads := r, trace_points := ts\<rparr>)"
      and len: "length ts = length (trace_points t)"
      by (rule TRACE_START_ok [OF ok])
    have "traces_ok C (t\<lparr>ccnt_reads := r, trace_points := ts\<rparr>)"
      using ok len by (simp add: traces_ok_def split: option.splits)
    then obtain u where "TRACE_END C 1 (t\<lparr>ccnt_reads := r, trace_points := ts\<rparr>) = Inr u"
      by (rule TRACE_END_ok)
    then show ?thesis using False st1 by (simp add: notification_branch_def)
  qed
  have "\<exists>st'. loop_iteration C n (badge, info) st = Inr st'"
  proof (cases "badge AND endpoint_base C = endpoint_base C")
    case False
    with branch [of st] show ?thesis by (simp add: loop_iteration_def)
  next
    case True
    have "traces_ok C st" using ready by (simp add: ready_def)
    then obtain st1 where st1: "TRACE_START C 0 st = Inr st1" by (rule TRACE_START_ok)
    obtain r m st2 where st2: "dispatch_message C badge info st1 = Inr (r, m, st2)"
      by (rule dispatch_ok [OF code conns assms(4)])
    have "?T None st1" by (rule table.started [OF _ st1]) simp
    then have T2: "?T (if r = 1 then Some m else None) st2" by (rule table.dispatched [OF code _ st2])
    then have "traces_ok C st2" using ready table_traces_ok by (auto simp: ready_def)
    then obtain st3 where st3: "TRACE_END C 0 st2 = Inr st3" by (rule TRACE_END_ok)
    have "?T None st3" by (rule table.ended [OF T2 st3])
    with branch [of st3] True st1 st2 st3 show ?thesis
      by (auto simp: loop_iteration_def)
  qed
  then obtain st' where st': "loop_iteration C n (badge, info) st = Inr st'" by blast
  moreover have "?T None st'" by (rule table.iteration [OF code _ st']) simp
  then have "ready C n st'" using ready ready_same by metis
  ultimately show thesis by (rule that)
qed

lemma event_loop_ok:
  assumes code: "component_does registers_nothing C" and conns: "handlers_return V C"
  shows "ready C n st \<Longrightarrow> \<forall>m \<in> set ms. V (snd m) \<Longrightarrow> \<exists>st'. event_loop C n ms st = Inr st' \<and> ready C n st'"
proof (induction ms arbitrary: st)
  case Nil
  then show ?case by simp
next
  case (Cons m ms)
  obtain badge info where m: "m = (badge, info)" by fastforce
  obtain st1 where "loop_iteration C n (badge, info) st = Inr st1" "ready C n st1"
    by (rule iteration_ok [OF code conns Cons.prems(1), of info badge]) (use Cons.prems(2) m in simp)
  moreover have "\<exists>st'. event_loop C n ms st1 = Inr st' \<and> ready C n st'"
    using calculation(2) Cons.prems(2) by (intro Cons.IH) simp_all
  ultimately show ?case by (simp add: m)
qed

lemma run_component_ok:
  assumes "component_does registers_nothing C" "handlers_return V C" "ready C n st" "\<forall>m \<in> set ms. V (snd m)"
  obtains st' where "run_component C n ms st = Inr st'"
  using event_loop_ok [OF assms(1,2), of n "log_event Recv st" ms] assms(3,4)
    ready_same [of "log_event Recv st" st C n]
  by (auto simp: run_component_def log_event_def)

section \<open>Properties\<close>

text \<open>A component with one connection and two handlers, for the instances of the properties.\<close>

definition demo_component :: "(nat, nat) component" where
  "demo_component =
     \<lparr>callback = (\<lambda>f b k c. (c + k, if f = 1 then [Notify 7] else [])),
      handle_global_endpoint_irq = (\<lambda>b c. (1, c, [])),
      connections = [([256, 257], \<lambda>b m c. Inr (if m = 0 then 0 else 1, m + 1, c, [Notify 9]))],
      notification_base = 1, endpoint_base = 256, realtime = False, num_traces = Some 4,
      realloc_ok = (\<lambda>_. True), declare_reply_cap = (\<lambda>_. True)\<rparr>"

definition demo_loop_state :: "(nat, nat) loop_state" where
  "demo_loop_state =
     \<lparr>reg_handlers = [\<lparr>h_badge = 3, callback_handler = 1, h_cookie = 10, h_name = None\<rparr>,
                      \<lparr>h_badge = 5, callback_handler = 2, h_cookie = 20, h_name = None\<rparr>],
      trace_points = replicate 4 \<lparr>start_index = 0, sum_index = 0, count_index = 0\<rparr>,
      ccnt = of_nat, ccnt_reads = 0, signal_to_send = 0, reply_cap_in_tcb = False, comp = 0, events = []\<rparr>"

lemma demo_component_ok:
  "component_does registers_nothing demo_component" "component_does cap_ok demo_component"
  "handlers_return (\<lambda>_. True) demo_component" "ready demo_component 3 demo_loop_state"
  by (auto simp: component_does_def handlers_return_def ready_def traces_ok_def demo_component_def
        demo_loop_state_def)

text \<open>What a notification leaves, and what a call leaves, in \<open>signal_to_send\<close>.\<close>

lemma notification_branch_sends:
  assumes "notification_branch C n badge st = Inr st'"
  shows "signal_to_send st' = 0"
proof -
  obtain st5 st6 where "(if signal_to_send st6 \<noteq> 0 then
         Inr (log_event Recv ((log_event (Signal (signal_to_send st6)) st6)\<lparr>signal_to_send := 0\<rparr>))
       else Inr (log_event Recv st6)) = (Inr st' :: ('a, 'b) loop_state outcome)"
    using assms unfolding notification_branch_def by (blast elim!: obind_eq_InrE)
  then show ?thesis by (auto simp: log_event_def split: if_splits)
qed

lemma run_actions_signal:
  assumes "list_all cap_ok as" "run_actions C as st = Inr st'"
  shows "signal_to_send st' \<noteq> 0 \<longleftrightarrow> signal_to_send st \<noteq> 0 \<or> (\<exists>k. Notify k \<in> set as)"
  using assms
proof (induction as arbitrary: st)
  case Nil
  then show ?case by simp
next
  case (Cons a as)
  obtain st1 where st1: "run_action C a st = Inr st1" and rest: "run_actions C as st1 = Inr st'"
    using Cons.prems(2) by (auto simp: obind_eq_Inr)
  have "signal_to_send st1 \<noteq> 0 \<longleftrightarrow> signal_to_send st \<noteq> 0 \<or> (\<exists>k. a = Notify k)"
    using st1 Cons.prems(1) by (cases rule: run_actionE) (auto simp: notify_deferred_def log_event_def Let_def)
  with Cons.IH [OF _ rest] Cons.prems(1) show ?case by auto
qed

lemma TRACE_signal [simp]:
  "TRACE_START C k st = Inr st' \<Longrightarrow> signal_to_send st' = signal_to_send st \<and> comp st' = comp st"
  "TRACE_END_COUNT C k j st = Inr st' \<Longrightarrow> signal_to_send st' = signal_to_send st \<and> comp st' = comp st"
  by (auto simp: TRACE_START_def TRACE_END_COUNT_def obind_eq_Inr Let_def split: option.splits if_splits)

lemma signal_log_event [simp]: "signal_to_send (log_event e st) = signal_to_send st"
  by (simp add: log_event_def)

lemma signal_send_response [simp]: "signal_to_send (send_response C m st) = signal_to_send st"
  by (simp add: send_response_def)

lemma dispatch_signal:
  assumes code: "component_does cap_ok C" and f: "find_connection (connections C) badge = Some f"
    and call: "f badge info (comp st) = Inr (r, m, c', as)"
    and step: "dispatch_message C badge info st = Inr (r', m', st')"
  shows "r' = r \<and> (signal_to_send st' \<noteq> 0 \<longleftrightarrow> signal_to_send st \<noteq> 0 \<or> (\<exists>k. Notify k \<in> set as))"
proof -
  let ?st1 = "if realtime C then st else st\<lparr>reply_cap_in_tcb := declare_reply_cap C (reply_cap_in_tcb st)\<rparr>"
  have same: "comp ?st1 = comp st" "signal_to_send (?st1\<lparr>comp := c'\<rparr>) = signal_to_send st" by auto
  obtain t where "run_actions C as (?st1\<lparr>comp := c'\<rparr>) = Inr t" "r' = r"
    and st': "st' = log_event (MessageHandled badge r m) t"
    using step f call by (auto simp: dispatch_message_def obind_eq_Inr Let_def same)
  with run_actions_signal [OF component_does_message [OF code f call], where st = "?st1\<lparr>comp := c'\<rparr>" and st' = t] same(2)
  show ?thesis by (simp add: log_event_def)
qed

definition answers :: "('c, 'm) component \<Rightarrow> u64 \<Rightarrow> 'm \<Rightarrow> 'c \<Rightarrow> action list option" where
  "answers C badge info c =
     (if badge AND endpoint_base C = endpoint_base C then
        case find_connection (connections C) badge of
          None \<Rightarrow> None
        | Some f \<Rightarrow> (case f badge info c of
            Inl e \<Rightarrow> None
          | Inr (result, m, c', as) \<Rightarrow> if result = 0 \<or> result = 1 then Some as else None)
      else None)"

lemma answers_Some:
  "answers C badge info c = Some as \<longleftrightarrow> badge AND endpoint_base C = endpoint_base C \<and>
     (\<exists>f r m c'. find_connection (connections C) badge = Some f \<and> f badge info c = Inr (r, m, c', as) \<and> (r = 0 \<or> r = 1))"
  by (auto simp: answers_def split: option.splits sum.splits prod.splits if_splits)


lemma demo_iteration:
  "\<exists>st'. loop_iteration demo_component 3 (257, 4) demo_loop_state = Inr st' \<and>
     answers demo_component 257 4 (comp demo_loop_state) = Some [Notify 9] \<and> signal_to_send st' = 9"
  by (simp add: loop_iteration_def answers_def dispatch_message_def send_response_def log_event_def
      TRACE_START_def TRACE_END_COUNT_def notify_deferred_def demo_component_def demo_loop_state_def Let_def)


text \<open>
  C23. Over any sequence of messages the loop keeps running, and the signals it has sent, followed by the one
  that waits in \<open>signal_to_send\<close>, are the signals asked for through \<open>notify\<close>, in that order: none is lost,
  repeated or overtaken.
\<close>

theorem single_threaded_signals_conserved:
  assumes "component_does cap_ok C" "component_does registers_nothing C" "handlers_return V C"
    and "ready C n st" "\<forall>m \<in> set ms. V (snd m)" "events st = []" "signal_to_send st = 0"
  shows "\<exists>st'. run_component C n ms st = Inr st' \<and>
    signals_of (events st') @ pending_signal st' = notifies_of (events st')"
proof -
  obtain st' where st': "run_component C n ms st = Inr st'"
    by (rule run_component_ok [OF assms(2-5)])
  have "signals_conserved st" using assms(6,7) by (simp add: signals_conserved_def pending_signal_def)
  from signals.run [OF assms(1) this st'] st' show ?thesis by (auto simp: signals_conserved_def)
qed

theorem single_threaded_signals_conserved_witness:
  "\<exists>st'. run_component demo_component 3 [(257, 4), (7, 0), (256, 0)] demo_loop_state = Inr st' \<and>
    signals_of (events st') @ pending_signal st' = notifies_of (events st')"
  by (rule single_threaded_signals_conserved [OF demo_component_ok(2,1,3,4)])
    (simp_all add: demo_loop_state_def)

text \<open>
  Every message that a connection answers gets exactly one reply, with the message the connection
  produced and before the loop receives again, so that it goes to the sender; a message that a connection
  drops and a notification get none.
\<close>

theorem single_threaded_one_reply:
  assumes "component_does registers_nothing C" "handlers_return V C"
    and "ready C n st" "\<forall>m \<in> set ms. V (snd m)" "events st = []"
  shows "\<exists>st'. run_component C n ms st = Inr st' \<and> reply_state (events st') = Some None"
proof -
  obtain st' where st': "run_component C n ms st = Inr st'"
    by (rule run_component_ok [OF assms(1-4)])
  have "component_does (\<lambda>_. True) C"
    by (simp add: component_does_def list_all_iff split: prod.splits)
  from replies.run [OF this _ st'] st' assms(5) show ?thesis by (simp add: reply_state_def)
qed

theorem single_threaded_one_reply_witness:
  "\<exists>st'. run_component demo_component 3 [(257, 4), (7, 0), (256, 0)] demo_loop_state = Inr st' \<and>
    reply_state (events st') = Some None"
  by (rule single_threaded_one_reply [OF demo_component_ok(1,3,4)]) (simp_all add: demo_loop_state_def)

text \<open>
  C24. A notification calls exactly the handlers all of whose badge bits it carries, each once, in the
  order of their registration and with their own badge and cookie; the loop over them ends, and the
  component waits again with no signal left to send.
\<close>

theorem single_threaded_notification_dispatch:
  assumes "component_does registers_nothing C" "traces_ok C st" "length (reg_handlers st) < n"
    and "badge AND notification_base C = notification_base C"
    and other: "badge AND endpoint_base C \<noteq> endpoint_base C \<or> find_connection (connections C) badge = None"
  shows "\<exists>st'. loop_iteration C n (badge, info) st = Inr st' \<and>
    callbacks_of (events st') = callbacks_of (events st) @
      map (\<lambda>h. (callback_handler h, h_badge h, h_cookie h))
        (filter (\<lambda>h. badge AND h_badge h = h_badge h) (reg_handlers st)) \<and>
    signal_to_send st' = 0 \<and> last (events st') = Recv"
proof (cases "badge AND endpoint_base C = endpoint_base C")
  case False
  obtain st' where "notification_branch C n badge st = Inr st'"
    "callbacks_of (events st') = callbacks_of (events st) @ handler_calls badge (reg_handlers st)"
    "signal_to_send st' = 0" "last (events st') = Recv"
    by (rule notification_branch_ok [OF assms(1-4)])
  with False show ?thesis by (simp add: loop_iteration_def handler_calls_def)
next
  case True
  obtain r ts where st1: "TRACE_START C 0 st = Inr (st\<lparr>ccnt_reads := r, trace_points := ts\<rparr>)"
    and len: "length ts = length (trace_points st)"
    by (rule TRACE_START_ok [OF assms(2)])
  let ?st1 = "st\<lparr>ccnt_reads := r, trace_points := ts\<rparr>"
  have "traces_ok C ?st1" using assms(2) len table_traces_ok [of ?st1 st C] by simp
  then obtain r' ts' where st2: "TRACE_END C 0 ?st1 = Inr (?st1\<lparr>ccnt_reads := r', trace_points := ts'\<rparr>)"
    and len': "length ts' = length (trace_points ?st1)"
    by (rule TRACE_END_ok)
  let ?st2 = "?st1\<lparr>ccnt_reads := r', trace_points := ts'\<rparr>"
  have ok2: "traces_ok C ?st2" using assms(2) len len' table_traces_ok [of ?st2 st C] by simp
  obtain st' where "notification_branch C n badge ?st2 = Inr st'"
    "callbacks_of (events st') = callbacks_of (events ?st2) @ handler_calls badge (reg_handlers ?st2)"
    "signal_to_send st' = 0" "last (events st') = Recv"
    by (rule notification_branch_ok [OF assms(1) ok2 _ assms(4)]) (use assms(3) in simp)
  moreover have "loop_iteration C n (badge, info) st = notification_branch C n badge ?st2"
    using True other st1 st2 by (simp add: loop_iteration_def dispatch_message_def)
  ultimately show ?thesis by (simp add: handler_calls_def)
qed

theorem single_threaded_notification_dispatch_witness:
  "\<exists>st'. loop_iteration demo_component 3 (3, 0) demo_loop_state = Inr st' \<and>
    callbacks_of (events st') = [(1, 3, 10)] \<and> signal_to_send st' = 0"
proof -
  have "traces_ok demo_component demo_loop_state" using demo_component_ok(4) by (simp add: ready_def)
  from single_threaded_notification_dispatch [OF demo_component_ok(1) this, of 3 3 0]
  show ?thesis by (auto simp: demo_component_def demo_loop_state_def)
qed

section \<open>Initialisation\<close>

text \<open>An error of a module stops nothing: the modules of all sections run, in order.\<close>

lemma call_modules_all:
  assumes "\<forall>f \<in> set ms. \<forall>c. list_all registers_nothing (snd (snd (f c)))"
  shows "\<exists>errs st'. call_modules C ms st = Inr (errs, st') \<and>
    comp st' = fold (\<lambda>f c. fst (snd (f c))) ms (comp st)"
  using assms
proof (induction ms arbitrary: st)
  case Nil
  then show ?case by simp
next
  case (Cons f ms)
  obtain err c as where f: "f (comp st) = (err, c, as)" by (rule prod_cases3)
  then have "list_all registers_nothing as" using Cons.prems by (metis list.set_intros(1) snd_conv)
  then obtain st1 where "run_actions C as (st\<lparr>comp := c\<rparr>) = Inr st1" "comp st1 = c"
    by (rule run_actions_ok [where st = "st\<lparr>comp := c\<rparr>"]) auto
  with f Cons.IH [of st1] Cons.prems show ?case by auto
qed

lemma call_modules_append:
  "call_modules C (ms @ ms') st =
     obind (call_modules C ms st) (\<lambda>(errs, st1).
     obind (call_modules C ms' st1) (\<lambda>(errs', st2). Inr (errs @ errs', st2)))"
proof (induction ms arbitrary: st)
  case Nil
  then show ?case by (cases "call_modules C ms' st") auto
next
  case (Cons f ms)
  obtain err c as where f: "f (comp st) = (err, c, as)" by (rule prod_cases3)
  show ?case
  proof (cases "run_actions C as (st\<lparr>comp := c\<rparr>)")
    case (Inl e)
    then show ?thesis by (simp add: f)
  next
    case (Inr st1)
    show ?thesis
    proof (cases "call_modules C ms st1")
      case (Inl e)
      then show ?thesis using Inr Cons [of st1] by (simp add: f)
    next
      case 2: (Inr x)
      obtain errs st2 where x: "x = (errs, st2)" by fastforce
      then show ?thesis
        using Inr 2 Cons [of st1] by (cases "call_modules C ms' st2") (auto simp: f)
    qed
  qed
qed

end
