(* ===== verification/RpcServer.thy ===== *)
theory RpcServer
  imports SingleThreaded
begin

text \<open>
  \<open>templates/seL4RPCNoThreads-to.template.c\<close>: the server side of a remote procedure call connector of a
  component with a single thread, as the function the template generates for a connection, and its place
  in the event loop of \<open>SingleThreaded\<close>.

  Parameters are what the template leaves to CAmkES: the marshalling functions of each method, the
  reading of the method's index, the component's error handler; and the implementations. Messages are in
  the IPC buffer, for which the macros around receiving and replying (\<open>complete_recv\<close> and the like) have
  nothing to do.
\<close>

section \<open>The connection\<close>

datatype rpc_error =
    CE_INVALID_METHOD_INDEX nat nat      \<comment> \<open>upper bound and index\<close>
  | CE_MALFORMED_RPC_PAYLOAD nat u64     \<comment> \<open>size and badge\<close>

datatype error_action = CEA_DISCARD | CEA_IGNORE | CEA_ABORT | CEA_HALT

record rpc_msg =
  msg_length :: nat      \<comment> \<open>in words\<close>
  msg_buf :: "u8 list"

record ('i, 'o) rpc_method =
  m_name :: string
  unmarshal_inputs :: "u8 list \<Rightarrow> nat \<Rightarrow> 'i option"
  marshal_outputs :: "u8 list \<Rightarrow> 'o \<Rightarrow> (nat \<times> u8 list) option"

text \<open>
  The client ends, each with its interface type \<open>'ty\<close> and its badge. An implementation is found by the
  name of the method and can ask for the badge of its caller; marshalling fails with \<open>None\<close>.
\<close>

record ('c, 'ty, 'i, 'o) rpc_server =
  from_types :: "'ty list"
  badges :: "u64 list"
  methods :: "'ty \<Rightarrow> ('i, 'o) rpc_method list"
  implementation :: "string \<Rightarrow> u64 \<Rightarrow> 'i \<Rightarrow> 'c \<Rightarrow> 'o \<times> 'c \<times> action list"
  unmarshal_index :: "nat \<Rightarrow> u8 list \<Rightarrow> nat \<Rightarrow> nat option"
  error_handler :: "rpc_error \<Rightarrow> error_action"
  seL4_MsgMaxLength :: nat

text \<open>\<open>get_sender_id\<close>: the number of the client end that holds the badge, or -1.\<close>

fun sender_index :: "u64 list \<Rightarrow> u64 \<Rightarrow> u64 \<Rightarrow> u64" where
  "sender_index [] i badge = -1"
| "sender_index (b # bs) i badge = (if badge = b then i else sender_index bs (i + 1) badge)"

definition get_sender_id :: "('c, 'ty, 'i, 'o) rpc_server \<Rightarrow> u64 \<Rightarrow> u64" where
  "get_sender_id S badge = sender_index (badges S) 0 badge"

text \<open>\<open>type_dict\<close>: interface types with the numbers of their client ends, in order of appearance.\<close>

fun add_end :: "'ty \<Rightarrow> nat \<Rightarrow> ('ty \<times> nat list) list \<Rightarrow> ('ty \<times> nat list) list" where
  "add_end t i [] = [(t, [i])]"
| "add_end t i ((t', is) # d) = (if t = t' then (t', is @ [i]) # d else (t', is) # add_end t i d)"

fun type_dict :: "'ty list \<Rightarrow> nat \<Rightarrow> ('ty \<times> nat list) list \<Rightarrow> ('ty \<times> nat list) list" where
  "type_dict [] i d = d"
| "type_dict (t # ts) i d = type_dict ts (Suc i) (add_end t i d)"

text \<open>
  \<open>switch\<close> over the badges of each type. With a single type there is no switch, and the badge is not
  looked at.
\<close>

fun type_case :: "u64 list \<Rightarrow> ('ty \<times> nat list) list \<Rightarrow> u64 \<Rightarrow> 'ty option" where
  "type_case bs [] badge = None"
| "type_case bs ((t, is) # d) badge = (if badge \<in> set (map ((!) bs) is) then Some t else type_case bs d badge)"

definition select_type :: "('c, 'ty, 'i, 'o) rpc_server \<Rightarrow> u64 \<Rightarrow> 'ty option" where
  "select_type S badge =
     (case type_dict (from_types S) 0 [] of
        [] \<Rightarrow> None
      | [(t, is)] \<Rightarrow> Some t
      | d \<Rightarrow> type_case (badges S) d badge)"

text \<open>
  \<open>ERR\<close>: the handler decides; only a discarded error leaves the function without a reply. The label after
  the switch, which an ignored error reaches, replies with \<open>length\<close> still 0.
\<close>

definition reply_recv :: "nat \<Rightarrow> u8 list \<Rightarrow> rpc_msg" where
  "reply_recv len buf = \<lparr>msg_length = (len + 7) div 8, msg_buf = buf\<rparr>"

definition rpc_err ::
    "('c, 'ty, 'i, 'o) rpc_server \<Rightarrow> rpc_error \<Rightarrow> rpc_msg \<Rightarrow> 'c \<Rightarrow> (int \<times> rpc_msg \<times> 'c \<times> action list) outcome" where
  "rpc_err S e info c =
     (case error_handler S e of
        CEA_DISCARD \<Rightarrow> Inr (0, info, c, [])
      | CEA_IGNORE \<Rightarrow> Inr (1, reply_recv 0 (msg_buf info), c, [])
      | CEA_ABORT \<Rightarrow> Inl Fatal
      | CEA_HALT \<Rightarrow> Inl Fatal)"

definition call_method ::
    "('c, 'ty, 'i, 'o) rpc_server \<Rightarrow> ('i, 'o) rpc_method \<Rightarrow> u64 \<Rightarrow> rpc_msg \<Rightarrow> 'c \<Rightarrow>
     int \<times> rpc_msg \<times> 'c \<times> action list" where
  "call_method S m badge info c =
     (case unmarshal_inputs m (msg_buf info) (msg_length info * 8) of
        None \<Rightarrow> (0, info, c, [])
      | Some inputs \<Rightarrow>
          let (ret, c', as) = implementation S (m_name m) badge inputs c
          in case marshal_outputs m (msg_buf info) ret of
               None \<Rightarrow> (0, info, c', as)
             | Some (len, buf) \<Rightarrow> (1, reply_recv len buf, c', as))"

definition handle_message :: "('c, 'ty, 'i, 'o) rpc_server \<Rightarrow> ('c, rpc_msg) message_handler" where
  "handle_message S badge info c =
     (let size = msg_length info * 8 in
      obind (ensure (size \<le> seL4_MsgMaxLength S * 8) AssertionFailed) (\<lambda>_.
      case select_type S badge of
        None \<Rightarrow> rpc_err S (CE_MALFORMED_RPC_PAYLOAD size badge) info c
      | Some ty \<Rightarrow>
          let methods_len = length (methods S ty) in
          case (if methods_len \<le> 1 then Some 0 else unmarshal_index S methods_len (msg_buf info) size) of
            None \<Rightarrow> Inr (0, info, c, [])
          | Some call \<Rightarrow>
              if call < methods_len then Inr (call_method S (methods S ty ! call) badge info c)
              else rpc_err S (CE_INVALID_METHOD_INDEX (methods_len - 1) call) info c))"

text \<open>\<open>BADGES_MACRO_X_ITERATOR\<close> and the generated function make a connection of the event loop.\<close>

definition rpc_connection :: "('c, 'ty, 'i, 'o) rpc_server \<Rightarrow> u64 list \<times> ('c, rpc_msg) message_handler" where
  "rpc_connection S = (badges S, handle_message S)"

section \<open>Clients and their interfaces\<close>

text \<open>Every end has a badge of its own.\<close>

definition rpc_wf :: "('c, 'ty, 'i, 'o) rpc_server \<Rightarrow> bool" where
  "rpc_wf S \<longleftrightarrow> length (badges S) = length (from_types S) \<and> distinct (badges S) \<and> length (badges S) < 2 ^ 64"

lemma sender_index_nth:
  "distinct bs \<Longrightarrow> i < length bs \<Longrightarrow> sender_index bs k (bs ! i) = k + of_nat i"
proof (induction bs arbitrary: i k)
  case Nil
  then show ?case by simp
next
  case (Cons b bs)
  then show ?case by (cases i) (auto simp: add.assoc)
qed

lemma get_sender_id_nth: "rpc_wf S \<Longrightarrow> i < length (badges S) \<Longrightarrow> get_sender_id S (badges S ! i) = of_nat i"
  by (simp add: get_sender_id_def rpc_wf_def sender_index_nth)

lemma sender_index_unknown: "badge \<notin> set bs \<Longrightarrow> sender_index bs k badge = -1"
  by (induction bs arbitrary: k) auto

text \<open>The dictionary gives every type the numbers of its ends.\<close>

definition ends_of :: "'ty list \<Rightarrow> nat \<Rightarrow> 'ty \<Rightarrow> nat list" where
  "ends_of ts n t = filter (\<lambda>i. ts ! i = t) [0..<n]"

lemma map_of_add_end:
  "map_of (add_end t i d) = (map_of d)(t \<mapsto> (case map_of d t of None \<Rightarrow> [i] | Some is \<Rightarrow> is @ [i]))"
  by (induction t i d rule: add_end.induct) (auto simp: fun_eq_iff)

definition dict_ok :: "'ty list \<Rightarrow> nat \<Rightarrow> ('ty \<times> nat list) list \<Rightarrow> bool" where
  "dict_ok ts n d \<longleftrightarrow>
     map_of d = (\<lambda>t. if ends_of ts n t = [] then None else Some (ends_of ts n t)) \<and> distinct (map fst d)"

lemma dict_ok_add_end:
  assumes "dict_ok ts n d"
  shows "dict_ok ts (Suc n) (add_end (ts ! n) n d)"
proof -
  have "set (map fst (add_end t i d)) = insert t (set (map fst d))" for t i and d :: "('a \<times> nat list) list"
    by (induction t i d rule: add_end.induct) auto
  then have "distinct (map fst (add_end t i d))" if "distinct (map fst d)"
    for t i and d :: "('a \<times> nat list) list"
    using that by (induction t i d rule: add_end.induct) auto
  with assms show ?thesis
    by (auto simp: dict_ok_def map_of_add_end ends_of_def fun_eq_iff)
qed

lemma type_dict_ok:
  "dict_ok (pre @ ts) (length pre) d \<Longrightarrow> dict_ok (pre @ ts) (length (pre @ ts)) (type_dict ts (length pre) d)"
proof (induction ts arbitrary: pre d)
  case Nil
  then show ?case by simp
next
  case (Cons t ts)
  have "dict_ok ((pre @ [t]) @ ts) (length (pre @ [t])) (add_end t (length pre) d)"
    using dict_ok_add_end [OF Cons.prems] by simp
  from Cons.IH [OF this] show ?case by simp
qed

lemma type_dict_lookup: "dict_ok ts (length ts) (type_dict ts 0 [])"
  using type_dict_ok [of "[]" ts "[]"] by (simp add: dict_ok_def ends_of_def)

lemma type_case_eq:
  assumes "(t, is) \<in> set d" "badge \<in> (!) bs ` set is"
    and "\<forall>p \<in> set d. badge \<in> (!) bs ` set (snd p) \<longrightarrow> fst p = t"
  shows "type_case bs d badge = Some t"
  using assms
proof (induction d)
  case Nil
  then show ?case by simp
next
  case (Cons p d)
  then show ?case by (cases p) auto
qed

lemma type_case_None:
  "\<forall>p \<in> set d. badge \<notin> (!) bs ` set (snd p) \<Longrightarrow> type_case bs d badge = None"
  by (induction d) auto

lemma dict_entry:
  assumes "dict_ok ts n d" "(t, is) \<in> set d"
  shows "set is = {i. i < n \<and> ts ! i = t}"
proof -
  have "map_of d t = Some is" using assms unfolding dict_ok_def by (metis map_of_is_SomeI)
  with assms(1) show ?thesis by (auto simp: dict_ok_def ends_of_def split: if_splits)
qed

lemma dict_has:
  assumes "dict_ok ts n d" "i < n"
  obtains "is" where "(ts ! i, is) \<in> set d"
proof -
  have "ends_of ts n (ts ! i) \<noteq> []" using assms(2) by (auto simp: ends_of_def filter_empty_conv)
  with assms(1) have "map_of d (ts ! i) \<noteq> None" by (simp add: dict_ok_def)
  with that show thesis by (auto dest: map_of_SomeD)
qed

text \<open>A client's badge selects its interface; with several interfaces no other badge selects any.\<close>

lemma select_type_alt:
  "select_type S badge =
     (let d = type_dict (from_types S) 0 [] in
      if d = [] then None else if tl d = [] then Some (fst (hd d)) else type_case (badges S) d badge)"
  by (auto simp: select_type_def Let_def split: list.splits)

lemma select_type_client:
  assumes "rpc_wf S" "i < length (badges S)"
  shows "select_type S (badges S ! i) = Some (from_types S ! i)"
proof -
  define d where "d = type_dict (from_types S) 0 []"
  have wf: "length (badges S) = length (from_types S)" "distinct (badges S)"
    using assms(1) by (auto simp: rpc_wf_def)
  have d: "dict_ok (from_types S) (length (from_types S)) d" by (simp add: d_def type_dict_lookup)
  obtain "is" where "is": "(from_types S ! i, is) \<in> set d"
    using dict_has [OF d] assms(2) wf(1) by metis
  have "type_case (badges S) d (badges S ! i) = Some (from_types S ! i)"
  proof (rule type_case_eq [OF "is"])
    show "badges S ! i \<in> (!) (badges S) ` set is"
      using dict_entry [OF d "is"] assms(2) wf(1) by auto
  next
    show "\<forall>p \<in> set d. badges S ! i \<in> (!) (badges S) ` set (snd p) \<longrightarrow> fst p = from_types S ! i"
      using dict_entry [OF d] wf assms(2) by (fastforce simp: nth_eq_iff_index_eq)
  qed
  moreover have "fst (hd d) = from_types S ! i" if "tl d = []"
    using "is" that by (cases d) auto
  ultimately show ?thesis
    using "is" by (auto simp: select_type_alt d_def [symmetric])
qed

lemma select_type_unknown:
  assumes "rpc_wf S" "badge \<notin> set (badges S)" "\<exists>i < length (from_types S). from_types S ! i \<noteq> from_types S ! 0"
  shows "select_type S badge = None"
proof -
  define d where "d = type_dict (from_types S) 0 []"
  have wf: "length (badges S) = length (from_types S)" using assms(1) by (auto simp: rpc_wf_def)
  have d: "dict_ok (from_types S) (length (from_types S)) d" by (simp add: d_def type_dict_lookup)
  obtain i where i: "i < length (from_types S)" "from_types S ! i \<noteq> from_types S ! 0" using assms(3) by blast
  obtain "is" is0 where "(from_types S ! i, is) \<in> set d" "(from_types S ! 0, is0) \<in> set d"
    using dict_has [OF d] i(1) by (metis gr_zeroI not_less_zero)
  then have "tl d \<noteq> []" using i(2) by (cases d) auto
  moreover have "type_case (badges S) d badge = None"
    using dict_entry [OF d] assms(2) wf by (intro type_case_None) (force simp: in_set_conv_nth)
  ultimately show ?thesis
    by (auto simp: select_type_alt d_def [symmetric])
qed

section \<open>Calls in the event loop\<close>

lemma run_action_events: "run_action C a st = Inr st' \<Longrightarrow> \<exists>es. events st' = events st @ es"
  by (erule run_actionE) (auto simp: notify_deferred_def log_event_def Let_def)

lemma run_actions_events: "run_actions C as st = Inr st' \<Longrightarrow> \<exists>es. events st' = events st @ es"
proof (induction as arbitrary: st)
  case Nil
  then show ?case by simp
next
  case (Cons a as)
  then obtain st1 where st1: "run_action C a st = Inr st1" and rest: "run_actions C as st1 = Inr st'"
    by (auto simp: obind_eq_Inr)
  from run_action_events [OF st1] Cons.IH [OF rest] show ?case by auto
qed

text \<open>One iteration for a message that a connection handles.\<close>

lemma iteration_handled:
  assumes code: "component_does registers_nothing C" and ok: "traces_ok C st"
    and base: "badge AND endpoint_base C = endpoint_base C"
    and f: "find_connection (connections C) badge = Some f"
    and call: "f badge info (comp st) = Inr (r, m, c', as)"
  obtains es st3 where "events st3 = events st @ es @ [MessageHandled badge r m]" "comp st3 = c'"
    "loop_iteration C n (badge, info) st =
       (if r = 1 then Inr (send_response C m st3) else if r = 0 then Inr (log_event Recv st3)
        else notification_branch C n badge st3)"
    "as = [] \<Longrightarrow> es = []"
proof -
  obtain q ts where st1: "TRACE_START C 0 st = Inr (st\<lparr>ccnt_reads := q, trace_points := ts\<rparr>)"
    and len: "length ts = length (trace_points st)"
    by (rule TRACE_START_ok [OF ok])
  define st1 where "st1 = st\<lparr>ccnt_reads := q, trace_points := ts\<rparr>"
  define t where "t = (if realtime C then st1 else st1\<lparr>reply_cap_in_tcb := declare_reply_cap C (reply_cap_in_tcb st1)\<rparr>)"
  have t: "comp t = comp st" "events t = events st" "reg_handlers t = reg_handlers st"
    "length (trace_points t) = length (trace_points st)"
    by (auto simp: t_def st1_def len)
  obtain u where u: "run_actions C as (t\<lparr>comp := c'\<rparr>) = Inr u" and cu: "comp u = c'"
    by (rule run_actions_ok [OF component_does_message [OF code f call], where st = "t\<lparr>comp := c'\<rparr>"]) auto
  obtain es where es: "events u = events st @ es"
    using run_actions_events [OF u] t by auto
  have "reg_handlers u = reg_handlers st \<and> length (trace_points u) = length (trace_points st)"
    by (rule table.actions [OF component_does_message [OF code f call] _ u]) (simp add: t)
  then have "traces_ok C (log_event (MessageHandled badge r m) u)"
    using ok table_traces_ok [of "log_event (MessageHandled badge r m) u" st C] by (simp add: log_event_def)
  then obtain q' ts' where st3: "TRACE_END C 0 (log_event (MessageHandled badge r m) u) =
      Inr ((log_event (MessageHandled badge r m) u)\<lparr>ccnt_reads := q', trace_points := ts'\<rparr>)"
    by (rule TRACE_END_ok)
  have "dispatch_message C badge info st1 = Inr (r, m, log_event (MessageHandled badge r m) u)"
    using call u by (simp add: dispatch_message_def f t_def [symmetric] t(1))
  then have "loop_iteration C n (badge, info) st =
    (let st3 = (log_event (MessageHandled badge r m) u)\<lparr>ccnt_reads := q', trace_points := ts'\<rparr> in
     if r = 1 then Inr (send_response C m st3) else if r = 0 then Inr (log_event Recv st3)
     else notification_branch C n badge st3)"
    using st1 st3 base by (simp add: loop_iteration_def st1_def Let_def)
  moreover have "as = [] \<Longrightarrow> es = []" using u es t by auto
  ultimately show thesis
    using es cu
    by (intro that [of "(log_event (MessageHandled badge r m) u)\<lparr>ccnt_reads := q', trace_points := ts'\<rparr>" es])
      (simp_all add: log_event_def)
qed

lemma events_send_response:
  "\<exists>e \<in> {Reply m, SendSaved m}. events (send_response C m st) = events st @ [e, Recv]"
  by (auto simp: send_response_def log_event_def)

lemma comp_send_response [simp]: "comp (send_response C m st) = comp st"
  by (simp add: send_response_def log_event_def)

text \<open>The implementations that a component with this connection may run.\<close>

abbreviation client_methods :: "('c, 'ty, 'i, 'o) rpc_server \<Rightarrow> nat \<Rightarrow> ('i, 'o) rpc_method list" where
  "client_methods S i \<equiv> methods S (from_types S ! i)"

text \<open>The index of the method that a message asks for.\<close>

definition method_index :: "('c, 'ty, 'i, 'o) rpc_server \<Rightarrow> nat \<Rightarrow> rpc_msg \<Rightarrow> nat option" where
  "method_index S i info =
     (if length (client_methods S i) \<le> 1 then Some 0
      else unmarshal_index S (length (client_methods S i)) (msg_buf info) (msg_length info * 8))"

lemma handle_message_client:
  assumes "rpc_wf S" "i < length (badges S)" "msg_length info \<le> seL4_MsgMaxLength S"
  shows "handle_message S (badges S ! i) info c =
    (case method_index S i info of
       None \<Rightarrow> Inr (0, info, c, [])
     | Some call \<Rightarrow>
         if call < length (client_methods S i)
         then Inr (call_method S (client_methods S i ! call) (badges S ! i) info c)
         else rpc_err S (CE_INVALID_METHOD_INDEX (length (client_methods S i) - 1) call) info c)"
  using assms by (simp add: handle_message_def select_type_client method_index_def Let_def)

section \<open>Properties\<close>

text \<open>A connection with two clients of different interfaces, for the instances.\<close>

definition demo_rpc :: "(nat, string, nat, nat) rpc_server" where
  "demo_rpc =
     \<lparr>from_types = [''Io'', ''Ctl''], badges = [256, 257],
      methods = (\<lambda>ty.
        let m = (\<lambda>name. \<lparr>m_name = name,
              unmarshal_inputs = (\<lambda>buf size. if size < 2 then None else Some (unat (buf ! 1))),
              marshal_outputs = (\<lambda>buf r. Some (1, [of_nat r]))\<rparr>)
        in if ty = ''Io'' then [m ''put'', m ''get''] else [m ''reset'']),
      implementation = (\<lambda>name badge inp c. (c, c + inp, [])),
      unmarshal_index = (\<lambda>n buf size. if size < 1 then None else Some (unat (hd buf))),
      error_handler = (\<lambda>_. CEA_DISCARD), seL4_MsgMaxLength = 120\<rparr>"

definition demo_rpc_component :: "(nat, rpc_msg) component" where
  "demo_rpc_component =
     \<lparr>callback = (\<lambda>f b k c. (c, [])), handle_global_endpoint_irq = (\<lambda>b c. (0, c, [])),
      connections = [rpc_connection demo_rpc], notification_base = 1, endpoint_base = 256,
      realtime = False, num_traces = None, realloc_ok = (\<lambda>_. True), declare_reply_cap = (\<lambda>_. True)\<rparr>"

definition demo_rpc_state :: "(nat, rpc_msg) loop_state" where
  "demo_rpc_state =
     \<lparr>reg_handlers = [], trace_points = [], ccnt = (\<lambda>_. 0), ccnt_reads = 0, signal_to_send = 0,
      reply_cap_in_tcb = False, comp = 5, events = []\<rparr>"

lemma demo_rpc_wf: "rpc_wf demo_rpc"
  by (simp add: rpc_wf_def demo_rpc_def)

lemma demo_rpc_actions: "handle_message demo_rpc b info c = Inr (r, m, c', as) \<Longrightarrow> as = []"
  by (auto simp: handle_message_def rpc_err_def call_method_def demo_rpc_def Let_def obind_eq_Inr
        split: option.splits if_splits)

lemma demo_rpc_component_ok:
  "component_does registers_nothing demo_rpc_component" "traces_ok demo_rpc_component demo_rpc_state"
  by (auto simp: component_does_def demo_rpc_component_def rpc_connection_def traces_ok_def demo_rpc_state_def
        dest: demo_rpc_actions)



text \<open>
  C27. A well-formed call, end to end: the event loop finds the connection, the method whose index the
  message carries runs once on the unmarshalled arguments with the caller's badge, and the marshalled
  result, in whole words, is the reply that precedes the next receive.
\<close>

theorem rpc_call_served:
  assumes "rpc_wf S" and i: "i < length (badges S)" and size: "msg_length info \<le> seL4_MsgMaxLength S"
    and call: "method_index S i info = Some k" and k: "k < length (methods S (from_types S ! i))"
    and inputs: "unmarshal_inputs (methods S (from_types S ! i) ! k) (msg_buf info) (msg_length info * 8) = Some inp"
    and impl: "implementation S (m_name (methods S (from_types S ! i) ! k)) (badges S ! i) inp (comp st) = (ret, c', as)"
    and outp: "marshal_outputs (methods S (from_types S ! i) ! k) (msg_buf info) ret = Some (len, buf)"
    and code: "component_does registers_nothing C" "traces_ok C st"
    and base: "badges S ! i AND endpoint_base C = endpoint_base C"
    and conn: "connections C = rpc_connection S # conns"
  shows "\<exists>st' es reply e. loop_iteration C n (badges S ! i, info) st = Inr st' \<and> comp st' = c' \<and>
    reply = \<lparr>msg_length = (len + 7) div 8, msg_buf = buf\<rparr> \<and> e \<in> {Reply reply, SendSaved reply} \<and>
    events st' = events st @ es @ [MessageHandled (badges S ! i) 1 reply, e, Recv]"
proof -
  let ?b = "badges S ! i" and ?reply = "reply_recv len buf"
  have "find_connection (connections C) ?b = Some (handle_message S)"
    using i by (simp add: conn rpc_connection_def)
  moreover have "handle_message S ?b info (comp st) = Inr (1, ?reply, c', as)"
    using handle_message_client [OF assms(1) i size] call k inputs impl outp by (simp add: call_method_def)
  ultimately obtain es st3 where "events st3 = events st @ es @ [MessageHandled ?b 1 ?reply]" "comp st3 = c'"
    and "loop_iteration C n (?b, info) st = Inr (send_response C ?reply st3)"
    by (rule iteration_handled [OF code base]) (rule that, simp_all)
  moreover obtain e where "e \<in> {Reply ?reply, SendSaved ?reply}"
    "events (send_response C ?reply st3) = events st3 @ [e, Recv]"
    using events_send_response [of ?reply C st3] by blast
  ultimately show ?thesis by (fastforce simp: reply_recv_def)
qed

theorem rpc_call_served_witness:
  "\<exists>st'. loop_iteration demo_rpc_component 1 (256, \<lparr>msg_length = 1, msg_buf = [1, 7]\<rparr>) demo_rpc_state = Inr st' \<and>
    comp st' = 12"
proof -
  let ?m = "\<lparr>m_name = ''get'', unmarshal_inputs = (\<lambda>buf size. if size < 2 then None else Some (unat ((buf :: u8 list) ! 1))),
     marshal_outputs = (\<lambda>buf r. Some (1, [of_nat r]))\<rparr> :: (nat, nat) rpc_method"
  have m: "methods demo_rpc (from_types demo_rpc ! 0) ! 1 = ?m" by (simp add: demo_rpc_def)
  show ?thesis
    using rpc_call_served [OF demo_rpc_wf, of 0 "\<lparr>msg_length = 1, msg_buf = [1, 7]\<rparr>" 1 7 demo_rpc_state 5 12 "[]" 1 "[5]"
        demo_rpc_component "[]" 1] demo_rpc_component_ok
    by (auto simp: demo_rpc_def demo_rpc_component_def demo_rpc_state_def method_index_def)
qed



text \<open>A reply fits into a message if the marshalled result fits into the buffer.\<close>

lemma rpc_reply_fits: "len \<le> seL4_MsgMaxLength S * 8 \<Longrightarrow> msg_length (reply_recv len buf) \<le> seL4_MsgMaxLength S"
  by (simp add: reply_recv_def)

text \<open>A handler that ignores an error makes the caller believe in an empty reply.\<close>

lemma rpc_ignored_error_replies:
  assumes "rpc_wf S" "i < length (badges S)" "msg_length info \<le> seL4_MsgMaxLength S"
    and "method_index S i info = Some k" "length (methods S (from_types S ! i)) \<le> k"
    and "error_handler S (CE_INVALID_METHOD_INDEX (length (methods S (from_types S ! i)) - 1) k) = CEA_IGNORE"
  shows "handle_message S (badges S ! i) info c = Inr (1, \<lparr>msg_length = 0, msg_buf = msg_buf info\<rparr>, c, [])"
  using assms by (simp add: handle_message_client rpc_err_def reply_recv_def)

end
