(* ===== verification/Connectors.thy ===== *)
theory Connectors
  imports GpioServer
begin

text \<open>
  The connector templates that join the components (\<open>templates/\<close>): the notifications and endpoints shared
  by all connections of an instance (\<open>global-endpoint.template.c\<close>), signalling of clients
  (\<open>rpc-signalling.template.c\<close>), shared memory per client (\<open>seL4MultiSharedData-*.template.c\<close>), addresses of
  the Ethernet clients (\<open>seL4Ethdriver-to.template.c\<close>), pin reservations (\<open>seL4GPIOServer-*.template.c\<close>)
  and dataports with capabilities (\<open>seL4SharedDataWithCaps.template.c\<close>).

  A template is a program that runs when the system is built and emits a C function. The first is modelled
  as a function on the state of the build, \<open>Inl\<close> of its exceptions; the second as a function of the
  tables the first computes. Requests to the CAmkES allocators are recorded in order, badges that macros
  of CAmkES assign are fields of the ends.
\<close>

datatype template_error =
    NotGlobalEndpoint
  | ArbitraryEndpointName
  | BadgeIndexError
  | PageSizeError
  | MissingQuery
  | NoSuchPin
  | PinRequestedTwice
  | DuplicateSize

type_synonym 'a rendered = "template_error + 'a"

definition tbind :: "'a rendered \<Rightarrow> ('a \<Rightarrow> 'b rendered) \<Rightarrow> 'b rendered" where
  "tbind m f = (case m of Inl e \<Rightarrow> Inl e | Inr x \<Rightarrow> f x)"

lemma tbind_simps [simp]: "tbind (Inl e) f = Inl e" "tbind (Inr x) f = f x"
  by (simp_all add: tbind_def)

lemma tbind_eq_Inr: "tbind m f = Inr y \<longleftrightarrow> (\<exists>x. m = Inr x \<and> f x = Inr y)"
  by (cases m) simp_all

section \<open>Notifications and endpoints of an instance\<close>

record iface_end =
  ie_instance :: string
  ie_interface :: string
  ie_global_endpoint :: bool         \<comment> \<open>attribute \<open>from_global_endpoint\<close> or \<open>to_global_endpoint\<close>\<close>
  ie_global_rpc_endpoint :: bool
  ie_configured :: "string option"   \<comment> \<open>setting \<open><interface>_global_endpoint\<close> of the instance\<close>
  ie_badge :: u64                    \<comment> \<open>\<open>macros.global_endpoint_badges\<close>\<close>
  ie_rpc_badges :: "u64 list"        \<comment> \<open>\<open>macros.global_rpc_endpoint_badges\<close>\<close>

datatype obj_kind = seL4_NotificationObject | seL4_EndpointObject

record cap_request =
  cap_object :: nat
  cap_read :: bool
  cap_write :: bool
  cap_grantreply :: bool
  cap_badge :: "u64 option"

record build_state =
  stashed :: "string \<Rightarrow> (nat \<times> string) option"
  objects :: "(string \<times> obj_kind \<times> string) list"
  caps :: "cap_request list"

definition empty_build :: build_state where
  "empty_build = \<lparr>stashed = (\<lambda>_. None), objects = [], caps = []\<rparr>"

definition alloc_obj :: "string \<Rightarrow> obj_kind \<Rightarrow> string \<Rightarrow> build_state \<Rightarrow> nat \<times> build_state" where
  "alloc_obj name kind label st = (length (objects st), st\<lparr>objects := objects st @ [(name, kind, label)]\<rparr>)"

definition alloc_cap :: "cap_request \<Rightarrow> build_state \<Rightarrow> cap_request \<times> build_state" where
  "alloc_cap c st = (c, st\<lparr>caps := caps st @ [c]\<rparr>)"

text \<open>The object stashed for an instance, made by the first that asks for it.\<close>

definition shared_object :: "string \<Rightarrow> string \<Rightarrow> obj_kind \<Rightarrow> string \<Rightarrow> build_state \<Rightarrow> nat \<times> build_state" where
  "shared_object stash_name name kind inst st =
     (let maybe = stashed st stash_name;
          st1 = st\<lparr>stashed := (stashed st)(stash_name := None)\<rparr>;
          (obj, owner, st2) = (case maybe of
             None \<Rightarrow> let (obj, st2) = alloc_obj name kind inst st1 in (obj, inst, st2)
           | Some (obj, owner) \<Rightarrow> (obj, owner, st1))
      in (obj, st2\<lparr>stashed := (stashed st2)(stash_name := Some (obj, owner))\<rparr>))"

definition endpoint_name :: "string \<Rightarrow> string" where
  "endpoint_name inst = inst @ ''_global_endpoint''"

definition rpc_endpoint_name :: "string \<Rightarrow> string" where
  "rpc_endpoint_name inst = inst @ ''_global_rpc_endpoint''"

definition notification_stash :: "string \<Rightarrow> string" where
  "notification_stash inst = endpoint_name inst @ ''_global_notification''"

definition rpc_stash :: "string \<Rightarrow> string" where
  "rpc_stash inst = rpc_endpoint_name inst @ ''_global_rpc_endpoint''"

definition allocate_cap :: "iface_end \<Rightarrow> bool \<Rightarrow> build_state \<Rightarrow> (cap_request \<times> build_state) rendered" where
  "allocate_cap e is_reader st =
     (let name = endpoint_name (ie_instance e) in
      if \<not> ie_global_endpoint e then Inl NotGlobalEndpoint
      else if (case ie_configured e of None \<Rightarrow> False | Some n \<Rightarrow> n \<noteq> [] \<and> n \<noteq> name) then Inl ArbitraryEndpointName
      else
        let (obj, st1) = shared_object (notification_stash (ie_instance e)) name seL4_NotificationObject (ie_instance e) st
        in Inr (alloc_cap \<lparr>cap_object = obj, cap_read = is_reader, cap_write = True, cap_grantreply = False,
                           cap_badge = (if is_reader then None else Some (ie_badge e))\<rparr> st1))"

definition allocate_cap_instance :: "string \<Rightarrow> build_state \<Rightarrow> cap_request \<times> build_state" where
  "allocate_cap_instance inst st =
     (let (obj, st1) = shared_object (notification_stash inst) (endpoint_name inst) seL4_NotificationObject inst st
      in alloc_cap \<lparr>cap_object = obj, cap_read = True, cap_write = True, cap_grantreply = False,
                    cap_badge = None\<rparr> st1)"

definition allocate_rpc_endpoint_cap ::
    "iface_end \<Rightarrow> bool \<Rightarrow> nat \<Rightarrow> build_state \<Rightarrow> (cap_request \<times> build_state) rendered" where
  "allocate_rpc_endpoint_cap e is_reader other_index st =
     (if \<not> ie_global_rpc_endpoint e then Inl NotGlobalEndpoint
      else
        let (obj, st1) = shared_object (rpc_stash (ie_instance e)) (rpc_endpoint_name (ie_instance e))
              seL4_EndpointObject (ie_instance e) st;
            cap = \<lparr>cap_object = obj, cap_read = is_reader, cap_write = \<not> is_reader,
                   cap_grantreply = \<not> is_reader, cap_badge = None\<rparr>
        in if is_reader then Inr (alloc_cap cap st1)
           else if other_index < length (ie_rpc_badges e)
             then Inr (alloc_cap (cap\<lparr>cap_badge := Some (ie_rpc_badges e ! other_index)\<rparr>) st1)
           else Inl BadgeIndexError)"

definition allocate_rpc_cap_instance :: "string \<Rightarrow> build_state \<Rightarrow> cap_request \<times> build_state" where
  "allocate_rpc_cap_instance inst st =
     (let (obj, st1) = shared_object (rpc_stash inst) (rpc_endpoint_name inst) seL4_EndpointObject inst st
      in alloc_cap \<lparr>cap_object = obj, cap_read = True, cap_write = False, cap_grantreply = False,
                    cap_badge = None\<rparr> st1)"

text \<open>The requests that the templates of a system make, in the order they are rendered.\<close>

datatype request =
    Cap iface_end bool
  | CapInstance string
  | RpcCap iface_end bool nat
  | RpcCapInstance string

fun serve :: "request \<Rightarrow> build_state \<Rightarrow> (cap_request \<times> build_state) rendered" where
  "serve (Cap e is_reader) st = allocate_cap e is_reader st"
| "serve (CapInstance inst) st = Inr (allocate_cap_instance inst st)"
| "serve (RpcCap e is_reader k) st = allocate_rpc_endpoint_cap e is_reader k st"
| "serve (RpcCapInstance inst) st = Inr (allocate_rpc_cap_instance inst st)"

fun serve_all :: "request list \<Rightarrow> build_state \<Rightarrow> ((request \<times> cap_request) list \<times> build_state) rendered" where
  "serve_all [] st = Inr ([], st)"
| "serve_all (r # rs) st =
     tbind (serve r st) (\<lambda>(c, st1).
     tbind (serve_all rs st1) (\<lambda>(out, st2). Inr ((r, c) # out, st2)))"

section \<open>One object for each instance\<close>

fun requested_instance :: "request \<Rightarrow> string" where
  "requested_instance (Cap e b) = ie_instance e"
| "requested_instance (CapInstance i) = i"
| "requested_instance (RpcCap e b k) = ie_instance e"
| "requested_instance (RpcCapInstance i) = i"

fun requested_kind :: "request \<Rightarrow> obj_kind" where
  "requested_kind (Cap e b) = seL4_NotificationObject"
| "requested_kind (CapInstance i) = seL4_NotificationObject"
| "requested_kind (RpcCap e b k) = seL4_EndpointObject"
| "requested_kind (RpcCapInstance i) = seL4_EndpointObject"

fun request_valid :: "request \<Rightarrow> bool" where
  "request_valid (Cap e b) \<longleftrightarrow> ie_global_endpoint e \<and>
     (ie_configured e = None \<or> ie_configured e = Some [] \<or> ie_configured e = Some (endpoint_name (ie_instance e)))"
| "request_valid (CapInstance i) \<longleftrightarrow> True"
| "request_valid (RpcCap e b k) \<longleftrightarrow> ie_global_rpc_endpoint e \<and> (b \<or> k < length (ie_rpc_badges e))"
| "request_valid (RpcCapInstance i) \<longleftrightarrow> True"

fun stash_of :: "obj_kind \<Rightarrow> string \<Rightarrow> string" where
  "stash_of seL4_NotificationObject inst = notification_stash inst"
| "stash_of seL4_EndpointObject inst = rpc_stash inst"

lemma stash_of_eq: "stash_of k i = stash_of k' i' \<longleftrightarrow> k = k' \<and> i = i'"
proof -
  have "last (notification_stash a) \<noteq> last (rpc_stash b)" for a b
    by (simp add: notification_stash_def rpc_stash_def)
  then have "notification_stash a \<noteq> rpc_stash b" for a b by metis
  then show ?thesis
    by (cases k; cases k')
      (auto simp: notification_stash_def rpc_stash_def endpoint_name_def rpc_endpoint_name_def)
qed

text \<open>
  The invariant of the build: stashed objects exist, with the kind they are stashed for, and no two stash
  names share one.
\<close>

definition build_inv :: "build_state \<Rightarrow> bool" where
  "build_inv st \<longleftrightarrow>
     (\<forall>a obj ow. stashed st a = Some (obj, ow) \<longrightarrow> obj < length (objects st) \<and>
        (\<forall>k i. a = stash_of k i \<longrightarrow> fst (snd (objects st ! obj)) = k)) \<and>
     (\<forall>a b obj ow ow'. stashed st a = Some (obj, ow) \<longrightarrow> stashed st b = Some (obj, ow') \<longrightarrow> a = b)"

lemma build_invD:
  assumes "build_inv st" "stashed st a = Some (obj, ow)"
  shows "obj < length (objects st)" "a = stash_of k i \<Longrightarrow> fst (snd (objects st ! obj)) = k"
    "stashed st b = Some (obj, ow') \<Longrightarrow> b = a"
  using assms unfolding build_inv_def by blast+

lemma build_inv_empty: "build_inv empty_build"
  by (simp add: build_inv_def empty_build_def)

definition grows :: "build_state \<Rightarrow> build_state \<Rightarrow> bool" where
  "grows st st' \<longleftrightarrow> (\<forall>a x. stashed st a = Some x \<longrightarrow> stashed st' a = Some x)"

lemma grows_trans: "grows a b \<Longrightarrow> grows b c \<Longrightarrow> grows a c"
  by (simp add: grows_def)

lemma shared_object_ok:
  assumes inv: "build_inv st" and step: "shared_object (stash_of k i) name k i st = (obj, st')"
  shows "build_inv st' \<and> grows st st' \<and> (\<exists>ow. stashed st' (stash_of k i) = Some (obj, ow)) \<and>
      obj < length (objects st') \<and> fst (snd (objects st' ! obj)) = k"
proof (cases "stashed st (stash_of k i)")
  case None
  then have st': "obj = length (objects st)"
    "st' = st\<lparr>objects := objects st @ [(name, k, i)], stashed := (stashed st)(stash_of k i := Some (obj, i))\<rparr>"
    using step by (auto simp: shared_object_def alloc_obj_def)
  have "build_inv st'"
    unfolding build_inv_def
  proof (intro conjI allI impI)
    fix a o' ow assume a: "stashed st' a = Some (o', ow)"
    show "o' < length (objects st')"
      using a build_invD(1) [OF inv] by (auto simp: st' split: if_splits intro: less_SucI)
    fix k' i' assume "a = stash_of k' i'"
    with a show "fst (snd (objects st' ! o')) = k'"
      using build_invD(1,2) [OF inv] by (auto simp: st' nth_append stash_of_eq split: if_splits)
  next
    fix a b o' ow ow' assume "stashed st' a = Some (o', ow)" "stashed st' b = Some (o', ow')"
    then show "a = b"
      using build_invD(1,3) [OF inv] by (auto simp: st' split: if_splits)
  qed
  then show ?thesis
    using None by (auto simp: st' grows_def)
next
  case (Some x)
  then have "st' = st" "fst x = obj"
    using step by (auto simp: shared_object_def fun_upd_idem split: prod.splits)
  then show ?thesis
    using Some inv build_invD(1,2) [OF inv] by (cases x) (auto simp: grows_def)
qed

lemma serve_ok:
  assumes inv: "build_inv st" and valid: "request_valid r"
  obtains c st' where "serve r st = Inr (c, st')" "build_inv st'" "grows st st'"
    "\<exists>ow. stashed st' (stash_of (requested_kind r) (requested_instance r)) = Some (cap_object c, ow)"
    "cap_object c < length (objects st')"
proof -
  define k i name where kin: "k = requested_kind r" "i = requested_instance r"
    "name = (case k of seL4_NotificationObject \<Rightarrow> endpoint_name i | seL4_EndpointObject \<Rightarrow> rpc_endpoint_name i)"
  obtain obj st1 where step: "shared_object (stash_of k i) name k i st = (obj, st1)" by fastforce
  have post: "build_inv st1" "grows st st1" "\<exists>ow. stashed st1 (stash_of k i) = Some (obj, ow)"
    "obj < length (objects st1)"
    using shared_object_ok [OF inv step] by auto
  have "\<exists>c. cap_object c = obj \<and> serve r st = Inr (c, st1\<lparr>caps := caps st1 @ [c]\<rparr>)"
    using step valid
    by (cases r) (auto simp: kin allocate_cap_def allocate_cap_instance_def allocate_rpc_endpoint_cap_def
        allocate_rpc_cap_instance_def alloc_cap_def Let_def split: option.splits)
  then obtain c where "cap_object c = obj" "serve r st = Inr (c, st1\<lparr>caps := caps st1 @ [c]\<rparr>)" by blast
  then show thesis
    by (intro that [of c "st1\<lparr>caps := caps st1 @ [c]\<rparr>"])
      (use post in \<open>auto simp: build_inv_def grows_def kin(1,2)\<close>)
qed

lemma serve_all_ok:
  assumes "build_inv st" "\<forall>r \<in> set rs. request_valid r"
  shows "\<exists>out st'. serve_all rs st = Inr (out, st') \<and> map fst out = rs \<and> build_inv st' \<and> grows st st' \<and>
    (\<forall>(r, c) \<in> set out. \<exists>ow.
       stashed st' (stash_of (requested_kind r) (requested_instance r)) = Some (cap_object c, ow))"
  using assms
proof (induction rs arbitrary: st)
  case Nil
  then show ?case by (simp add: grows_def)
next
  case (Cons r rs)
  obtain c st1 where r: "serve r st = Inr (c, st1)" "build_inv st1" "grows st st1"
    and stash: "\<exists>ow. stashed st1 (stash_of (requested_kind r) (requested_instance r)) = Some (cap_object c, ow)"
    by (rule serve_ok [OF Cons.prems(1), of r]) (use Cons.prems(2) in auto)
  obtain out st' where rest: "serve_all rs st1 = Inr (out, st')" "map fst out = rs" "build_inv st'" "grows st1 st'"
    and all: "\<forall>(r, c) \<in> set out. \<exists>ow.
       stashed st' (stash_of (requested_kind r) (requested_instance r)) = Some (cap_object c, ow)"
    using Cons.IH [OF r(2)] Cons.prems(2) by auto
  have "\<exists>ow. stashed st' (stash_of (requested_kind r) (requested_instance r)) = Some (cap_object c, ow)"
    using stash rest(4) by (auto simp: grows_def)
  with r rest all grows_trans [OF r(3) rest(4)] show ?case by simp
qed

text \<open>Two ends of two instances, for the instances of the properties.\<close>

definition demo_end :: "string \<Rightarrow> u64 \<Rightarrow> iface_end" where
  "demo_end inst b = \<lparr>ie_instance = inst, ie_interface = ''vq'', ie_global_endpoint = True,
     ie_global_rpc_endpoint = True, ie_configured = None, ie_badge = b, ie_rpc_badges = [b, b + 1]\<rparr>"

text \<open>
  C29. However many connections ask, an instance has one notification and one endpoint: the capabilities
  handed out belong to the same object exactly if they were requested for the same instance and the same
  kind, so a signal to a client's badged capability arrives at the object the client's event loop waits on.
\<close>

theorem connector_one_object_per_instance:
  assumes "\<forall>r \<in> set rs. request_valid r"
  shows "\<exists>out st. serve_all rs empty_build = Inr (out, st) \<and> map fst out = rs \<and>
    (\<forall>r c r' c'. (r, c) \<in> set out \<longrightarrow> (r', c') \<in> set out \<longrightarrow>
       (cap_object c = cap_object c' \<longleftrightarrow>
         requested_instance r = requested_instance r' \<and> requested_kind r = requested_kind r'))"
proof -
  obtain out st where out: "serve_all rs empty_build = Inr (out, st)" "map fst out = rs"
    and inv: "build_inv st"
    and all: "\<forall>(r, c) \<in> set out. \<exists>ow.
       stashed st (stash_of (requested_kind r) (requested_instance r)) = Some (cap_object c, ow)"
    using serve_all_ok [OF build_inv_empty assms] by auto
  have stash: "\<exists>ow. stashed st (stash_of (requested_kind r) (requested_instance r)) = Some (cap_object c, ow)"
    if "(r, c) \<in> set out" for r c
    using bspec [OF all that] by simp
  have "cap_object c = cap_object c' \<longleftrightarrow>
      requested_instance r = requested_instance r' \<and> requested_kind r = requested_kind r'"
    if in_out: "(r, c) \<in> set out" "(r', c') \<in> set out" for r c r' c'
  proof -
    obtain ow ow' where c: "stashed st (stash_of (requested_kind r) (requested_instance r)) = Some (cap_object c, ow)"
      and c': "stashed st (stash_of (requested_kind r') (requested_instance r')) = Some (cap_object c', ow')"
      using stash in_out by blast
    show ?thesis
    proof
      assume "cap_object c = cap_object c'"
      with c' have "stash_of (requested_kind r') (requested_instance r') = stash_of (requested_kind r) (requested_instance r)"
        by (intro build_invD(3) [OF inv c]) simp
      then show "requested_instance r = requested_instance r' \<and> requested_kind r = requested_kind r'"
        by (simp add: stash_of_eq)
    next
      assume "requested_instance r = requested_instance r' \<and> requested_kind r = requested_kind r'"
      with c c' show "cap_object c = cap_object c'" by simp
    qed
  qed
  with out show ?thesis by blast
qed

theorem connector_one_object_per_instance_witness:
  "\<exists>c0 c1 c2 st. serve_all [CapInstance ''drv'', Cap (demo_end ''app'' 2) False, Cap (demo_end ''drv'' 4) False]
      empty_build = Inr ([(CapInstance ''drv'', c0), (Cap (demo_end ''app'' 2) False, c1),
        (Cap (demo_end ''drv'' 4) False, c2)], st) \<and>
    cap_object c2 = cap_object c0 \<and> cap_object c1 \<noteq> cap_object c0"
proof -
  let ?rs = "[CapInstance ''drv'', Cap (demo_end ''app'' 2) False, Cap (demo_end ''drv'' 4) False]"
  have inst: "ie_instance (demo_end x b) = x" for x b by (simp add: demo_end_def)
  have "\<forall>r \<in> set ?rs. request_valid r" by (simp add: demo_end_def)
  from connector_one_object_per_instance [OF this] obtain out st where
    run: "serve_all ?rs empty_build = Inr (out, st)" "map fst out = ?rs" and
    all: "\<forall>r c r' c'. (r, c) \<in> set out \<longrightarrow> (r', c') \<in> set out \<longrightarrow>
       (cap_object c = cap_object c' \<longleftrightarrow>
         requested_instance r = requested_instance r' \<and> requested_kind r = requested_kind r')"
    by (elim exE conjE)
  from run(2) obtain c0 c1 c2 where out: "out = [(?rs ! 0, c0), (?rs ! 1, c1), (?rs ! 2, c2)]"
    by (auto simp: map_eq_Cons_conv)
  have "cap_object c2 = cap_object c0" "cap_object c1 \<noteq> cap_object c0"
    using all [rule_format, of "?rs ! 2" c2 "?rs ! 0" c0] all [rule_format, of "?rs ! 1" c1 "?rs ! 0" c0]
    by (simp_all add: out inst)
  with run(1) out show ?thesis by simp
qed

section \<open>Signalling clients\<close>

text \<open>
  \<open>rpc-signalling.template.c\<close>: a capability to the notification of every client end, and the generated
  lookup table by badge, whose other entries are null. (\<open>seL4Ethdriver-to.template.c\<close> has the same code.)
\<close>

fun signal_caps :: "iface_end list \<Rightarrow> build_state \<Rightarrow> (cap_request list \<times> build_state) rendered" where
  "signal_caps [] st = Inr ([], st)"
| "signal_caps (e # es) st =
     tbind (allocate_cap e False st) (\<lambda>(c, st1).
     tbind (signal_caps es st1) (\<lambda>(cs, st2). Inr (c # cs, st2)))"

definition lookup_table :: "nat list \<Rightarrow> cap_request list \<Rightarrow> cap_request option list" where
  "lookup_table badges cs =
     map (map_of (zip badges cs)) [0..<(if badges = [] then 0 else Suc (last (sort badges)))]"

text \<open>The capability signalled by \<open>emit(badge)\<close>.\<close>

definition emit :: "nat list \<Rightarrow> cap_request list \<Rightarrow> u32 \<Rightarrow> cap_request outcome" where
  "emit badges cs badge =
     (let lookup = lookup_table badges cs in
      obind (ensure (unat badge < length lookup) AssertionFailed) (\<lambda>_.
      case lookup ! unat badge of None \<Rightarrow> Inl AssertionFailed | Some c \<Rightarrow> Inr c))"

definition largest_badge :: "nat list \<Rightarrow> nat" where
  "largest_badge badges = last (sort badges)"

lemma last_sort_max: "b \<in> set bs \<Longrightarrow> b \<le> last (sort bs)"
proof -
  assume "b \<in> set bs"
  then have b: "b \<in> set (sort bs)" by simp
  then have b2: "sort bs \<noteq> []" by (metis empty_iff empty_set)
  obtain i where "i < length (sort bs)" "sort bs ! i = b" using b by (metis in_set_conv_nth)
  then show ?thesis
    using sorted_nth_mono [of "sort bs" i "length (sort bs) - 1"] b2
    by (simp add: last_conv_nth)
qed

lemma emit_map_of:
  assumes "length cs = length badges"
  shows "emit badges cs badge = (case map_of (zip badges cs) (unat badge) of
      None \<Rightarrow> Inl AssertionFailed | Some c \<Rightarrow> Inr c)"
proof (cases "unat badge \<in> set badges")
  case True
  then have "unat badge < Suc (last (sort badges))" "badges \<noteq> []"
    using last_sort_max by (auto simp: less_Suc_eq_le)
  then show ?thesis by (simp add: emit_def lookup_table_def Let_def del: upt_Suc)
next
  case False
  then have "map_of (zip badges cs) (unat badge) = None" using assms by (simp add: map_of_zip_is_None)
  then show ?thesis by (simp add: emit_def lookup_table_def Let_def ensure_def)
qed

lemma signal_caps_ok:
  assumes "build_inv st" "\<forall>e \<in> set es. request_valid (Cap e False)"
  shows "\<exists>cs st'. signal_caps es st = Inr (cs, st') \<and> length cs = length es \<and> build_inv st' \<and> grows st st' \<and>
    (\<forall>i < length es. cap_badge (cs ! i) = Some (ie_badge (es ! i)) \<and>
       (\<exists>ow. stashed st' (notification_stash (ie_instance (es ! i))) = Some (cap_object (cs ! i), ow)))"
  using assms
proof (induction es arbitrary: st)
  case Nil
  then show ?case by (simp add: grows_def)
next
  case (Cons e es)
  obtain c st1 where e: "serve (Cap e False) st = Inr (c, st1)" "build_inv st1" "grows st st1"
    and stash: "\<exists>ow. stashed st1 (notification_stash (ie_instance e)) = Some (cap_object c, ow)"
    by (rule serve_ok [OF Cons.prems(1), of "Cap e False"]) (use Cons.prems(2) in auto)
  have badge: "cap_badge c = Some (ie_badge e)"
    using e(1) by (auto simp: allocate_cap_def alloc_cap_def Let_def split: if_splits prod.splits option.splits)
  obtain cs st' where rest: "signal_caps es st1 = Inr (cs, st')" "length cs = length es" "build_inv st'" "grows st1 st'"
    and all: "\<forall>i < length es. cap_badge (cs ! i) = Some (ie_badge (es ! i)) \<and>
       (\<exists>ow. stashed st' (notification_stash (ie_instance (es ! i))) = Some (cap_object (cs ! i), ow))"
    using Cons.IH [OF e(2)] Cons.prems(2) by auto
  have "\<exists>ow. stashed st' (notification_stash (ie_instance e)) = Some (cap_object c, ow)"
    using stash rest(4) by (auto simp: grows_def)
  with e(1) badge rest all grows_trans [OF e(3) rest(4)] show ?case
    by (auto simp: nth_Cons split: nat.splits)
qed

text \<open>
  \<open>emit\<close> wakes the right client: for the badge of a client end it signals, with the badge that end's
  component expects, the notification that the component's event loop waits on; for any other
  badge the assertion fails, and nothing outside the table is called.
\<close>

theorem connector_emit_wakes_client:
  assumes "distinct badges" "length badges = length es" "\<forall>b \<in> set badges. b < 2 ^ 32"
    and "\<forall>e \<in> set es. request_valid (Cap e False)" "build_inv st"
  shows "\<exists>cs st1. signal_caps es st = Inr (cs, st1) \<and>
    (\<forall>b. unat b \<notin> set badges \<longrightarrow> emit badges cs b = Inl AssertionFailed) \<and>
    (\<forall>i < length es. \<exists>c. emit badges cs (of_nat (badges ! i)) = Inr c \<and>
       cap_badge c = Some (ie_badge (es ! i)) \<and> badges ! i \<le> largest_badge badges \<and>
       cap_object c = cap_object (fst (allocate_cap_instance (ie_instance (es ! i)) st1)))"
proof -
  obtain cs st1 where cs: "signal_caps es st = Inr (cs, st1)" "length cs = length es"
    and all: "\<forall>i < length es. cap_badge (cs ! i) = Some (ie_badge (es ! i)) \<and>
       (\<exists>ow. stashed st1 (notification_stash (ie_instance (es ! i))) = Some (cap_object (cs ! i), ow))"
    using signal_caps_ok [OF assms(5,4)] by blast
  have other: "emit badges cs b = Inl AssertionFailed" if "unat b \<notin> set badges" for b
  proof -
    have none: "map_of (zip badges cs) (unat b) = None" using that cs(2) assms(2) by (simp add: map_of_zip_is_None)
    have "length cs = length badges" using cs(2) assms(2) by simp
    then show ?thesis unfolding emit_map_of [OF \<open>length cs = length badges\<close>] none by simp
  qed
  have "emit badges cs (of_nat (badges ! i)) = Inr (cs ! i)" if i: "i < length es" for i
  proof -
    have "unat (of_nat (badges ! i) :: u32) = badges ! i"
      using assms(2,3) i by (simp add: unat_of_nat take_bit_nat_eq_self_iff)
    moreover have "map_of (zip badges cs) (badges ! i) = Some (cs ! i)"
      using assms(1,2) i cs(2) by (simp add: map_of_zip_nth)
    ultimately show ?thesis using assms(2) cs(2) by (simp add: emit_map_of)
  qed
  moreover have "cap_object (fst (allocate_cap_instance (ie_instance (es ! i)) st1)) = cap_object (cs ! i)"
    if "i < length es" for i
    using all that by (auto simp: allocate_cap_instance_def shared_object_def alloc_cap_def Let_def)
  moreover have "badges ! i \<le> largest_badge badges" if "i < length es" for i
    using that assms(2) by (simp add: largest_badge_def last_sort_max)
  ultimately show ?thesis using cs(1) all other by metis
qed

theorem connector_emit_wakes_client_witness:
  "\<exists>cs st1 c. signal_caps [demo_end ''app'' 2, demo_end ''drv'' 4] empty_build = Inr (cs, st1) \<and>
    emit [3, 1] cs 1 = Inr c \<and> cap_badge c = Some 4 \<and> emit [3, 1] cs 2 = Inl AssertionFailed"
proof -
  have "\<forall>e \<in> set [demo_end ''app'' 2, demo_end ''drv'' 4]. request_valid (Cap e False)" by (simp add: demo_end_def)
  from connector_emit_wakes_client [OF _ _ _ this build_inv_empty, of "[3, 1]"]
  obtain cs st1 where run: "signal_caps [demo_end ''app'' 2, demo_end ''drv'' 4] empty_build = Inr (cs, st1)"
    and bad: "\<forall>b. unat b \<notin> set [3, 1] \<longrightarrow> emit [3, 1] cs b = Inl AssertionFailed"
    and good: "\<forall>i < length [demo_end ''app'' 2, demo_end ''drv'' 4].
       \<exists>c. emit [3, 1] cs (of_nat ([3, 1] ! i)) = Inr c \<and>
         cap_badge c = Some (ie_badge ([demo_end ''app'' 2, demo_end ''drv'' 4] ! i))"
    by fastforce
  from good [rule_format, of 1] obtain c where "emit [3, 1] cs 1 = Inr c" "cap_badge c = Some 4"
    by (auto simp: demo_end_def)
  with run bad [rule_format, of 2] show ?thesis by auto
qed

end
