(* ===== verification/SharedData.thy ===== *)
theory SharedData
  imports Connectors EthDriver
begin

text \<open>
  Memory shared with clients, as the connector templates set it up: one region for each client of a server
  (\<open>seL4MultiSharedData-from.template.c\<close>, \<open>seL4MultiSharedData-to.template.c\<close>), the Ethernet connector built
  on it (\<open>seL4Ethdriver-to.template.c\<close>) as the driver's initialisation sees it, and dataports whose pointers
  can be passed to others (\<open>seL4SharedDataWithCaps.template.c\<close>). \<open>macros.get_page_size\<close> is a parameter; 0 is
  its answer for a size it cannot map.
\<close>

section \<open>A region for each client\<close>

record shm_end =
  shm_client_id :: u64      \<comment> \<open>the badge of the end\<close>
  shm_size :: nat           \<comment> \<open>setting \<open><interface>_shmem_size\<close>, 4096 if there is none\<close>

definition ROUND_UP_PAGE :: "nat \<Rightarrow> nat" where
  "ROUND_UP_PAGE n = (n + 4095) div 4096 * 4096"

text \<open>The server's side: ends whose client has been met already are skipped.\<close>

fun collect_shmems :: "(nat \<Rightarrow> nat) \<Rightarrow> shm_end list \<Rightarrow> u64 set \<Rightarrow> (u64 \<times> nat) list rendered" where
  "collect_shmems page_size [] client_ids = Inr []"
| "collect_shmems page_size (c # cs) client_ids =
     (if shm_client_id c \<notin> client_ids then
        if page_size (shm_size c) = 0 then Inl PageSizeError
        else tbind (collect_shmems page_size cs (insert (shm_client_id c) client_ids)) (\<lambda>shmems.
               Inr ((shm_client_id c, shm_size c) # shmems))
      else collect_shmems page_size cs client_ids)"

text \<open>\<open>buf\<close>, a region named by the client it is shared with, or null.\<close>

definition shm_buf :: "(u64 \<times> nat) list \<Rightarrow> u64 \<Rightarrow> u64 option" where
  "shm_buf shmems cid = (if shmems = [] then None else if cid \<in> set (map fst shmems) then Some cid else None)"

fun shm_buf_size :: "(u64 \<times> nat) list \<Rightarrow> u64 \<Rightarrow> nat" where
  "shm_buf_size [] cid = 0"
| "shm_buf_size ((k, n) # shmems) cid =
     (if cid = k then ROUND_UP_PAGE n else shm_buf_size shmems cid)"

definition shm_num_badges :: "(u64 \<times> nat) list \<Rightarrow> nat" where
  "shm_num_badges shmems = length shmems"

definition shm_enumerate_badge :: "(u64 \<times> nat) list \<Rightarrow> nat \<Rightarrow> u64" where
  "shm_enumerate_badge shmems i = (if i < length shmems then fst (shmems ! i) else -1)"

text \<open>A client's side: its region, under the same name, and the size it may use.\<close>

definition shm_from :: "(nat \<Rightarrow> nat) \<Rightarrow> shm_end \<Rightarrow> (u64 \<times> nat) rendered" where
  "shm_from page_size e =
     (if page_size (shm_size e) = 0 then Inl PageSizeError
      else Inr (shm_client_id e, ROUND_UP_PAGE (shm_size e)))"

text \<open>Whatever the ends, no client is listed twice and none is forgotten.\<close>

lemma collect_shmems_ids:
  "collect_shmems ps cs ids = Inr sh \<Longrightarrow>
     distinct (map fst sh) \<and> set (map fst sh) = shm_client_id ` set cs - ids"
proof (induction cs arbitrary: ids sh)
  case Nil
  then show ?case by simp
next
  case (Cons c cs)
  show ?case
  proof (cases "shm_client_id c \<in> ids")
    case True
    with Cons show ?thesis by (metis (no_types, lifting) Diff_insert_absorb Diff_insert2 collect_shmems.simps(2)
        image_insert insert_Diff1 list.simps(15))
  next
    case False
    with Cons.prems obtain sh1 where "collect_shmems ps cs (insert (shm_client_id c) ids) = Inr sh1"
      and sh: "sh = (shm_client_id c, shm_size c) # sh1"
      by (auto simp: tbind_eq_Inr split: if_splits)
    then have "distinct (map fst sh1)" "set (map fst sh1) = shm_client_id ` set cs - insert (shm_client_id c) ids"
      using Cons.IH by blast+
    with sh False show ?thesis by auto
  qed
qed

lemma collect_shmems_distinct:
  "distinct (map shm_client_id cs) \<Longrightarrow> shm_client_id ` set cs \<inter> ids = {} \<Longrightarrow> \<forall>c \<in> set cs. ps (shm_size c) \<noteq> 0 \<Longrightarrow>
   collect_shmems ps cs ids = Inr (map (\<lambda>c. (shm_client_id c, shm_size c)) cs)"
  by (induction cs arbitrary: ids) auto

lemma shm_buf_size_map:
  "distinct (map shm_client_id cs) \<Longrightarrow> c \<in> set cs \<Longrightarrow>
   shm_buf_size (map (\<lambda>c. (shm_client_id c, shm_size c)) cs) (shm_client_id c) = ROUND_UP_PAGE (shm_size c)"
  by (induction cs) (auto, metis image_eqI)

text \<open>
  The server's tables and its clients agree: the numbers below \<open>num_badges\<close> enumerate every client
  once and no other number is a client, each client's badge leads to the region that client has
  mapped, with the same size on both sides, and an unknown badge leads to none.
\<close>

theorem shared_data_both_ends:
  assumes "\<forall>c \<in> set cs. ps (shm_size c) \<noteq> 0" "distinct (map shm_client_id cs)"
  shows "\<exists>sh. collect_shmems ps cs {} = Inr sh \<and> shm_num_badges sh = length cs \<and>
    distinct (map (shm_enumerate_badge sh) [0..<shm_num_badges sh]) \<and>
    set (map (shm_enumerate_badge sh) [0..<shm_num_badges sh]) = shm_client_id ` set cs \<and>
    (\<forall>i \<ge> shm_num_badges sh. shm_enumerate_badge sh i = -1) \<and>
    (\<forall>c \<in> set cs. \<exists>region size. shm_from ps c = Inr (region, size) \<and>
       shm_buf sh (shm_client_id c) = Some region \<and> shm_buf_size sh (shm_client_id c) = size) \<and>
    (\<forall>b. b \<notin> shm_client_id ` set cs \<longrightarrow> shm_buf sh b = None)"
proof -
  define sh where "sh = map (\<lambda>c. (shm_client_id c, shm_size c)) cs"
  have run: "collect_shmems ps cs {} = Inr sh"
    unfolding sh_def by (rule collect_shmems_distinct) (use assms in auto)
  have fst: "map fst sh = map shm_client_id cs" by (simp add: sh_def comp_def)
  have len: "length sh = length cs" by (simp add: sh_def)
  have enum: "map (shm_enumerate_badge sh) [0..<shm_num_badges sh] = map fst sh"
    by (rule nth_equalityI) (simp_all add: shm_num_badges_def shm_enumerate_badge_def)
  have size: "shm_buf_size sh (shm_client_id c) = ROUND_UP_PAGE (shm_size c)" if "c \<in> set cs" for c
    unfolding sh_def by (rule shm_buf_size_map [OF assms(2) that])
  have ids: "set (map fst sh) = shm_client_id ` set cs" by (simp add: fst)
  have buf: "shm_buf sh b = (if b \<in> shm_client_id ` set cs then Some b else None)" for b
    using ids by (cases "sh = []") (simp_all add: shm_buf_def)
  show ?thesis
  proof (intro exI [of _ sh] conjI)
    show "\<forall>c \<in> set cs. \<exists>region size. shm_from ps c = Inr (region, size) \<and>
       shm_buf sh (shm_client_id c) = Some region \<and> shm_buf_size sh (shm_client_id c) = size"
      using assms(1) size buf by (simp add: shm_from_def)
  qed (use run len enum ids buf assms(2) in \<open>simp_all add: fst shm_num_badges_def shm_enumerate_badge_def\<close>)
qed

theorem shared_data_both_ends_witness:
  "\<exists>sh. collect_shmems (\<lambda>n. n) [\<lparr>shm_client_id = 5, shm_size = 4096\<rparr>, \<lparr>shm_client_id = 2, shm_size = 5000\<rparr>] {} = Inr sh \<and>
    shm_num_badges sh = 2 \<and> shm_buf sh 5 = Some 5 \<and> shm_buf_size sh 2 = 8192 \<and> shm_buf sh 3 = None"
proof -
  let ?cs = "[\<lparr>shm_client_id = 5, shm_size = 4096\<rparr>, \<lparr>shm_client_id = 2, shm_size = 5000\<rparr>]"
  obtain sh where "collect_shmems (\<lambda>n. n) ?cs {} = Inr sh" "shm_num_badges sh = length ?cs"
    and both: "\<forall>c \<in> set ?cs. \<exists>region size. shm_from (\<lambda>n. n) c = Inr (region, size) \<and>
       shm_buf sh (shm_client_id c) = Some region \<and> shm_buf_size sh (shm_client_id c) = size"
    and none: "\<forall>b. b \<notin> shm_client_id ` set ?cs \<longrightarrow> shm_buf sh b = None"
    using shared_data_both_ends [of ?cs "\<lambda>n. n"] by auto
  with both none [rule_format, of 3] show ?thesis
    by (auto simp: shm_from_def ROUND_UP_PAGE_def)
qed

section \<open>The Ethernet connector\<close>

text \<open>
  \<open>has_mac\<close> and \<open>get_mac\<close>: addresses by badge. An address that is configured is copied as it is; without
  one, and for an unknown badge, \<open>get_mac\<close> leaves the caller's array alone.
\<close>

fun eth_has_mac :: "(u64 \<times> u8 list option) list \<Rightarrow> u64 \<Rightarrow> bool outcome" where
  "eth_has_mac [] badge = Inl AssertionFailed"
| "eth_has_mac ((b, m) # macs) badge = (if badge = b then Inr (m \<noteq> None) else eth_has_mac macs badge)"

fun eth_get_mac :: "(u64 \<times> u8 list option) list \<Rightarrow> u64 \<Rightarrow> u8 list \<Rightarrow> u8 list outcome" where
  "eth_get_mac [] badge dest = Inr dest"
| "eth_get_mac ((b, None) # macs) badge dest = eth_get_mac macs badge dest"
| "eth_get_mac ((b, Some temp) # macs) badge dest =
     (if badge = b then memcpy dest temp (length temp) else eth_get_mac macs badge dest)"

text \<open>What \<open>server_init\<close> of the driver reads from the connector for its client number \<open>i\<close>.\<close>

definition client_from_connector ::
    "(u64 \<times> nat) list \<Rightarrow> (u64 \<times> u8 list option) list \<Rightarrow> u64 option list \<Rightarrow> nat \<Rightarrow> client_config outcome" where
  "client_from_connector sh macs dma i =
     (let badge = shm_enumerate_badge sh i in
      obind (eth_has_mac macs badge) (\<lambda>has.
      obind (if has then obind (eth_get_mac macs badge (replicate 6 0)) (\<lambda>m. Inr (Some m)) else Inr None) (\<lambda>m.
        Inr \<lparr>cfg_badge = ucast badge, cfg_dataport = replicate (shm_buf_size sh badge) 0,
             cfg_tx_dma = dma, cfg_mac = m\<rparr>)))"

fun clients_from_connector ::
    "(u64 \<times> nat) list \<Rightarrow> (u64 \<times> u8 list option) list \<Rightarrow> u64 option list \<Rightarrow> nat list \<Rightarrow> client_config list outcome" where
  "clients_from_connector sh macs dma [] = Inr []"
| "clients_from_connector sh macs dma (i # is) =
     obind (client_from_connector sh macs dma i) (\<lambda>c.
     obind (clients_from_connector sh macs dma is) (\<lambda>cs. Inr (c # cs)))"

text \<open>The tables of the two templates are in the order of the client ends.\<close>

lemma eth_mac_lookup:
  assumes "distinct bs" "length ms = length bs" "i < length bs"
  shows "eth_has_mac (zip bs ms) (bs ! i) = Inr (ms ! i \<noteq> None)"
    "ms ! i = Some m \<Longrightarrow> eth_get_mac (zip bs ms) (bs ! i) dest = memcpy dest m (length m)"
proof -
  have "eth_has_mac (zip bs ms) (bs ! i) = Inr (ms ! i \<noteq> None) \<and>
    (ms ! i = Some m \<longrightarrow> eth_get_mac (zip bs ms) (bs ! i) dest = memcpy dest m (length m))"
    using assms(2,1,3)
  proof (induction ms bs arbitrary: i rule: list_induct2)
    case Nil
    then show ?case by simp
  next
    case (Cons m' ms b bs)
    then show ?case by (cases i; cases m') auto
  qed
  then show "eth_has_mac (zip bs ms) (bs ! i) = Inr (ms ! i \<noteq> None)"
    "ms ! i = Some m \<Longrightarrow> eth_get_mac (zip bs ms) (bs ! i) dest = memcpy dest m (length m)" by blast+
qed

text \<open>The configuration that the driver finds behind a connector with these ends and addresses.\<close>

definition connector_client :: "u64 option list \<Rightarrow> shm_end \<Rightarrow> u8 list option \<Rightarrow> client_config" where
  "connector_client dma c m =
     \<lparr>cfg_badge = ucast (shm_client_id c), cfg_dataport = replicate (ROUND_UP_PAGE (shm_size c)) 0,
      cfg_tx_dma = dma, cfg_mac = m\<rparr>"

definition addresses_ok :: "u8 list option list \<Rightarrow> bool" where
  "addresses_ok ms \<longleftrightarrow> (\<forall>m. Some m \<in> set ms \<longrightarrow> length m = 6)"

lemma clients_from_connector_list:
  assumes "\<forall>i \<in> set is. client_from_connector sh macs dma i = Inr (f i)"
  shows "clients_from_connector sh macs dma is = Inr (map f is)"
  using assms by (induction "is") simp_all

lemma clients_from_connector_ok:
  assumes "distinct (map shm_client_id cs)" "length ms = length cs" "addresses_ok ms"
  defines "sh \<equiv> map (\<lambda>c. (shm_client_id c, shm_size c)) cs"
  shows "clients_from_connector sh (zip (map shm_client_id cs) ms) dma [0..<shm_num_badges sh] =
    Inr (map2 (connector_client dma) cs ms)"
proof -
  have one: "client_from_connector sh (zip (map shm_client_id cs) ms) dma i =
      Inr (connector_client dma (cs ! i) (ms ! i))" if i: "i < length cs" for i
  proof -
    have badge: "shm_enumerate_badge sh i = map shm_client_id cs ! i"
      using i by (simp add: shm_enumerate_badge_def sh_def)
    have size: "shm_buf_size sh (map shm_client_id cs ! i) = ROUND_UP_PAGE (shm_size (cs ! i))"
      using shm_buf_size_map [OF assms(1), of "cs ! i"] i by (simp add: sh_def)
    have "length m = 6" if "ms ! i = Some m" for m
      using assms(2,3) i that nth_mem [of i ms] by (auto simp: addresses_ok_def)
    then show ?thesis
      using eth_mac_lookup [OF assms(1), of ms i] assms(2) i size
      by (cases "ms ! i") (auto simp: client_from_connector_def badge connector_client_def Let_def)
  qed
  have "clients_from_connector sh (zip (map shm_client_id cs) ms) dma [0..<shm_num_badges sh] =
    Inr (map (\<lambda>i. connector_client dma (cs ! i) (ms ! i)) [0..<length cs])"
    using clients_from_connector_list [of "[0..<length cs]"] one by (simp add: shm_num_badges_def sh_def)
  also have "map (\<lambda>i. connector_client dma (cs ! i) (ms ! i)) [0..<length cs] = map2 (connector_client dma) cs ms"
    by (rule nth_equalityI) (simp_all add: assms(2))
  finally show ?thesis .
qed

lemma ROUND_UP_PAGE_le: "n \<le> ROUND_UP_PAGE n"
proof -
  have "(n + 4095) mod 4096 < 4096" by simp
  then show ?thesis
    using div_mult_mod_eq [of "n + 4095" 4096] by (simp add: ROUND_UP_PAGE_def)
qed



end
