(* ===== verification/Dataport.thy ===== *)
theory Dataport
  imports Connectors EthAsync
begin

text \<open>
  \<open>templates/seL4SharedDataWithCaps.template.c\<close>: a dataport whose frames and pointers can be handed on.
  Pointers travel as the number of the connection with an offset; the other end turns them into its own
  addresses. The asynchronous Ethernet transport packs such pairs into its DMA addresses.
\<close>

section \<open>Size\<close>

record dataport_settings =
  set_size :: "nat option"         \<comment> \<open>\<open>size\<close> of the connection\<close>
  num_to_ends :: nat
  set_to_size :: "nat option"      \<comment> \<open>\<open><interface>_size\<close> of the instance at the \<open>to\<close> end\<close>

definition dataport_size :: "(nat \<Rightarrow> nat) \<Rightarrow> dataport_settings \<Rightarrow> nat rendered" where
  "dataport_size page_size s =
     tbind (if num_to_ends s = 1 then
              (case set_to_size s of
                 None \<Rightarrow> Inr (set_size s)
               | Some n \<Rightarrow> if set_size s \<noteq> None then Inl DuplicateSize else Inr (Some n))
            else Inr (set_size s)) (\<lambda>size.
     let n = (case size of None \<Rightarrow> 4096 | Some n \<Rightarrow> n)
     in if page_size n = 0 then Inl PageSizeError else Inr n)"

section \<open>Pointers\<close>

text \<open>One end: its address in this component, the number of the connection, the size of its type.\<close>

record dataport_end =
  dp_base :: u64
  dp_id :: u32
  dp_type_size :: u64

definition wrap_ptr :: "dataport_end \<Rightarrow> u64 \<Rightarrow> (u32 \<times> u64) option" where
  "wrap_ptr dp ptr =
     (if ptr < dp_base dp \<or> dp_type_size dp \<le> ptr - dp_base dp then None
      else Some (dp_id dp, ptr - dp_base dp))"

definition unwrap_ptr :: "dataport_end \<Rightarrow> u32 \<times> u64 \<Rightarrow> u64" where
  "unwrap_ptr dp p = (if fst p = dp_id dp then dp_base dp + snd p else 0)"

section \<open>Frames\<close>

text \<open>
  The table of the frames' capabilities, and the rights its holder may grant; the two last fields of the
  result are read and write.
\<close>

definition get_nth_frame_cap :: "u64 list \<Rightarrow> nat \<Rightarrow> u64 outcome" where
  "get_nth_frame_cap frame_caps n = nth_ok frame_caps n"

definition get_num_frame_caps :: "u64 list \<Rightarrow> nat" where
  "get_num_frame_caps frame_caps = length frame_caps"

definition get_rights :: "string \<Rightarrow> bool \<times> bool \<times> bool \<times> bool" where
  "get_rights perm = (False, False, CHR ''R'' \<in> set perm, CHR ''W'' \<in> set perm)"

lemma frame_caps_in_range: "n < get_num_frame_caps fs \<Longrightarrow> get_nth_frame_cap fs n = Inr (fs ! n)"
  by (simp add: get_nth_frame_cap_def get_num_frame_caps_def)

section \<open>Properties\<close>

text \<open>A region that does not wrap around the end of the address space.\<close>

definition region_ok :: "dataport_end \<Rightarrow> bool" where
  "region_ok dp \<longleftrightarrow> unat (dp_base dp) + unat (dp_type_size dp) \<le> 2 ^ 64"

definition in_region :: "dataport_end \<Rightarrow> u64 \<Rightarrow> bool" where
  "in_region dp ptr \<longleftrightarrow> unat (dp_base dp) \<le> unat ptr \<and> unat ptr < unat (dp_base dp) + unat (dp_type_size dp)"

lemma unat_offset: "(b::u64) \<le> p \<Longrightarrow> unat (p - b) = unat p - unat b"
  by (simp add: unat_sub)

lemma wrap_ptr_iff: "wrap_ptr dp ptr = (if in_region dp ptr then Some (dp_id dp, ptr - dp_base dp) else None)"
proof (cases "dp_base dp \<le> ptr")
  case True
  then have "dp_type_size dp \<le> ptr - dp_base dp \<longleftrightarrow> unat (dp_type_size dp) \<le> unat ptr - unat (dp_base dp)"
    by (simp add: word_le_nat_alt unat_offset)
  with True show ?thesis by (auto simp: wrap_ptr_def in_region_def word_le_nat_alt word_less_nat_alt)
next
  case False
  then show ?thesis by (auto simp: wrap_ptr_def in_region_def word_le_nat_alt word_less_nat_alt)
qed

lemma unwrap_in_region:
  assumes "region_ok dp" "unat off < unat (dp_type_size dp)"
  shows "in_region dp (dp_base dp + off)" "unat (dp_base dp + off) = unat (dp_base dp) + unat off"
proof -
  have "unat (dp_base dp) + unat off < 2 ^ 64" using assms by (simp add: region_ok_def)
  then show eq: "unat (dp_base dp + off) = unat (dp_base dp) + unat off"
    by (simp add: unat_word_ariths(1))
  then show "in_region dp (dp_base dp + off)" using assms(2) by (simp add: in_region_def)
qed

text \<open>
  C31. A pointer into the region, and no other, can be passed on: the other end of the connection receives
  the address at the same offset in its own mapping, inside its region, and its answer leads back to the
  first pointer; an end of another connection refuses it.
\<close>

theorem dataport_pointer_roundtrip:
  assumes "region_ok dp" "region_ok dp'" "dp_id dp' = dp_id dp" "dp_type_size dp' = dp_type_size dp"
  shows "(wrap_ptr dp ptr = None \<longleftrightarrow> \<not> in_region dp ptr) \<and>
    (in_region dp ptr \<longrightarrow> (\<exists>w. wrap_ptr dp ptr = Some w \<and>
       in_region dp' (unwrap_ptr dp' w) \<and>
       unat (unwrap_ptr dp' w) - unat (dp_base dp') = unat ptr - unat (dp_base dp) \<and>
       (\<exists>w'. wrap_ptr dp' (unwrap_ptr dp' w) = Some w' \<and> unwrap_ptr dp w' = ptr) \<and>
       (\<forall>other. dp_id other \<noteq> dp_id dp \<longrightarrow> unwrap_ptr other w = 0)))"
proof (intro conjI impI)
  show "wrap_ptr dp ptr = None \<longleftrightarrow> \<not> in_region dp ptr" by (simp add: wrap_ptr_iff)
next
  assume inr: "in_region dp ptr"
  let ?off = "ptr - dp_base dp"
  have le: "dp_base dp \<le> ptr" using inr by (simp add: in_region_def word_le_nat_alt)
  then have off: "unat ?off = unat ptr - unat (dp_base dp)" by (rule unat_offset)
  then have "unat ?off < unat (dp_type_size dp')" using inr assms(4) by (auto simp: in_region_def)
  note there = unwrap_in_region [OF assms(2) this]
  have "wrap_ptr dp' (dp_base dp' + ?off) = Some (dp_id dp', ?off)" by (simp add: wrap_ptr_iff there(1))
  then show "\<exists>w. wrap_ptr dp ptr = Some w \<and>
       in_region dp' (unwrap_ptr dp' w) \<and>
       unat (unwrap_ptr dp' w) - unat (dp_base dp') = unat ptr - unat (dp_base dp) \<and>
       (\<exists>w'. wrap_ptr dp' (unwrap_ptr dp' w) = Some w' \<and> unwrap_ptr dp w' = ptr) \<and>
       (\<forall>other. dp_id other \<noteq> dp_id dp \<longrightarrow> unwrap_ptr other w = 0)"
    using inr there off assms(3) by (auto simp: wrap_ptr_iff unwrap_ptr_def)
qed

theorem dataport_pointer_roundtrip_witness:
  "\<exists>w. wrap_ptr \<lparr>dp_base = 0x1000, dp_id = 3, dp_type_size = 4096\<rparr> 0x1840 = Some w \<and>
    unat (unwrap_ptr \<lparr>dp_base = 0x8000, dp_id = 3, dp_type_size = 4096\<rparr> w) - 0x8000 = 0x840"
proof -
  let ?d = "\<lparr>dp_base = 0x1000, dp_id = 3, dp_type_size = 4096\<rparr> :: dataport_end"
  let ?d' = "\<lparr>dp_base = 0x8000, dp_id = 3, dp_type_size = 4096\<rparr> :: dataport_end"
  have "region_ok ?d" "region_ok ?d'" "in_region ?d 0x1840"
    by (simp_all add: region_ok_def in_region_def)
  with dataport_pointer_roundtrip [of ?d ?d' "0x1840"] show ?thesis by auto
qed

text \<open>The other end does not check the offset: any one is added to its own address.\<close>

lemma unwrap_any_offset: "unwrap_ptr dp (dp_id dp, off) = dp_base dp + off"
  by (simp add: unwrap_ptr_def)

text \<open>
  The functions of the dataport library, for a component with this one dataport, as the asynchronous
  Ethernet transport uses them; a packed address reaches the other side at the same offset.
\<close>

definition as_dataports :: "dataport_end \<Rightarrow> dataports" where
  "as_dataports dp =
     \<lparr>dataport_wrap_ptr = (\<lambda>p. case wrap_ptr dp p of None \<Rightarrow> (-1, 0) | Some w \<Rightarrow> w),
      dataport_unwrap_ptr = unwrap_ptr dp, ps_dma_pin = id\<rparr>"

lemma dataport_dma_address:
  assumes "region_ok dp" "region_ok dp'" "dp_id dp' = dp_id dp" "dp_type_size dp' = dp_type_size dp"
    and "in_region dp buf" "unat (dp_type_size dp) \<le> 2 ^ 32"
  shows "DECODE_DMA_ADDRESS (as_dataports dp') (ENCODE_DMA_ADDRESS (as_dataports dp) buf) =
    dp_base dp' + (buf - dp_base dp)"
proof (rule decode_encode_address)
  have le: "dp_base dp \<le> buf" using assms(5) by (simp add: in_region_def word_le_nat_alt)
  show "unat (snd (dataport_wrap_ptr (as_dataports dp) buf)) < 2 ^ 32"
    using assms(5,6) by (auto simp: as_dataports_def wrap_ptr_iff unat_offset [OF le] in_region_def)
  show "dataport_unwrap_ptr (as_dataports dp') (dataport_wrap_ptr (as_dataports dp) buf) =
      dp_base dp' + (buf - dp_base dp)"
    using assms(3,5) by (simp add: as_dataports_def wrap_ptr_iff unwrap_ptr_def)
qed

end
