(* ===== verification/VirtqConnector.thy ===== *)
theory VirtqConnector
  imports Connectors
begin

text \<open>
  \<open>templates/seL4VirtQueues-from.template.c\<close>: how the ends of a virtqueue connection find each other and set
  up their channel, and \<open>templates/seL4MessageQueue-from.template.c\<close>, \<open>seL4MessageQueue-to.template.c\<close>.

  Every end is rendered on its own; what the two then register with the library must fit together. The
  settings of the build are a record; \<open>macros.get_page_size\<close> and \<open>macros.virtqueue_get_client_id\<close> are part
  of it.
\<close>

section \<open>Ends and settings\<close>

datatype vq_error =
    NotOneToEnd
  | NoTopology
  | NoTopologyEntry
  | TopologyKeyError
  | InterfaceNotPresent
  | QueueLengthNotNumber
  | ShmemSizeMismatch
  | ShmemPageSize
  | QueueIdNotNumber
  | EndpointError template_error

type_synonym 'a vq_rendered = "vq_error + 'a"

definition vbind :: "'a vq_rendered \<Rightarrow> ('a \<Rightarrow> 'b vq_rendered) \<Rightarrow> 'b vq_rendered" where
  "vbind m f = (case m of Inl e \<Rightarrow> Inl e | Inr x \<Rightarrow> f x)"

lemma vbind_simps [simp]: "vbind (Inl e) f = Inl e" "vbind (Inr x) f = f x"
  by (simp_all add: vbind_def)

lemma vbind_eq_Inr: "vbind m f = Inr y \<longleftrightarrow> (\<exists>x. m = Inr x \<and> f x = Inr y)"
  by (cases m) simp_all

definition vq_lift :: "'a rendered \<Rightarrow> 'a vq_rendered" where
  "vq_lift m = (case m of Inl e \<Rightarrow> Inl (EndpointError e) | Inr x \<Rightarrow> Inr x)"

lemma vq_lift_eq_Inr: "vq_lift m = Inr x \<longleftrightarrow> m = Inr x"
  by (cases m) (simp_all add: vq_lift_def)

record vq_end =
  ve_end :: iface_end
  ve_type :: string

text \<open>A topology entry, a dictionary with the keys \<open>drv\<close> and \<open>dev\<close>.\<close>

record topology_entry =
  te_drv :: "string option"
  te_dev :: "string option"

record vq_settings =
  num_to_ends :: nat
  from_ends :: "vq_end list"
  topology :: "topology_entry list"
  queue_length :: "nat option"               \<comment> \<open>\<open>None\<close> unless a number; 256 if not set\<close>
  shmem_size :: "string \<Rightarrow> string \<Rightarrow> nat"     \<comment> \<open>by instance and interface; 8192 if not set\<close>
  vq_page_size :: "nat \<Rightarrow> nat"
  vq_client_id :: "vq_end \<Rightarrow> nat option"
  single_threaded :: "string \<Rightarrow> bool"
  disable_optimizations :: "string \<Rightarrow> nat"

definition str_end :: "vq_end \<Rightarrow> string" where
  "str_end e = ie_instance (ve_end e) @ ''.'' @ ie_interface (ve_end e)"

definition is_drv :: "vq_end \<Rightarrow> bool" where
  "is_drv e \<longleftrightarrow> ve_type e = ''VirtQueueDrv''"

definition own_key :: "vq_end \<Rightarrow> topology_entry \<Rightarrow> string option" where
  "own_key me t = (if is_drv me then te_drv t else te_dev t)"

definition other_key :: "vq_end \<Rightarrow> topology_entry \<Rightarrow> string option" where
  "other_key me t = (if is_drv me then te_dev t else te_drv t)"

text \<open>Without a topology the (at most two) ends are joined: \<open>me\<close> under its own key, the other end under the other.\<close>

fun default_entry :: "vq_end \<Rightarrow> vq_end list \<Rightarrow> topology_entry \<Rightarrow> topology_entry" where
  "default_entry me [] t = t"
| "default_entry me (e # es) t =
     default_entry me es
       (if (e = me) = is_drv me then t\<lparr>te_drv := Some (str_end e)\<rparr> else t\<lparr>te_dev := Some (str_end e)\<rparr>)"

definition vq_topology :: "vq_settings \<Rightarrow> vq_end \<Rightarrow> topology_entry list vq_rendered" where
  "vq_topology s me =
     (if topology s = [] then
        if length (from_ends s) > 2 then Inl NoTopology
        else Inr [default_entry me (from_ends s) \<lparr>te_drv = None, te_dev = None\<rparr>]
      else Inr (topology s))"

definition other_name :: "vq_settings \<Rightarrow> vq_end \<Rightarrow> string vq_rendered" where
  "other_name s me =
     vbind (vq_topology s me) (\<lambda>topo.
     if None \<in> set (map (own_key me) topo) then Inl TopologyKeyError else
     case filter (\<lambda>t. own_key me t = Some (str_end me)) topo of
       [t] \<Rightarrow> (case other_key me t of None \<Rightarrow> Inl TopologyKeyError | Some n \<Rightarrow> Inr n)
     | _ \<Rightarrow> Inl NoTopologyEntry)"

text \<open>The loop over the ends keeps the last one with this name.\<close>

definition find_interface :: "vq_end list \<Rightarrow> string \<Rightarrow> vq_end option" where
  "find_interface es name = fold (\<lambda>c found. if str_end c = name then Some c else found) es None"

definition other_interface :: "vq_settings \<Rightarrow> vq_end \<Rightarrow> vq_end vq_rendered" where
  "other_interface s me =
     vbind (other_name s me) (\<lambda>name.
     case find_interface (from_ends s) name of None \<Rightarrow> Inl InterfaceNotPresent | Some c \<Rightarrow> Inr c)"

section \<open>The channel of one end\<close>

datatype vq_role = VIRTQUEUE_DRIVER | VIRTQUEUE_DEVICE

text \<open>What an end registers; \<open>ch_deferred\<close> tells which of the two \<open>notify\<close> functions it has.\<close>

record channel =
  ch_id :: nat
  ch_length :: nat
  ch_size :: nat
  ch_symbol :: string
  ch_notify :: cap_request
  ch_deferred :: bool
  ch_notification :: cap_request
  ch_badge :: u64
  ch_role :: vq_role

definition shmem_symbol :: "vq_end \<Rightarrow> string \<Rightarrow> string" where
  "shmem_symbol me other =
     map (\<lambda>c. if c = CHR ''.'' then CHR ''_'' else c)
       (if is_drv me then str_end me @ ''_'' @ other @ ''_data'' else other @ ''_'' @ str_end me @ ''_data'')"

definition vq_shmem_size :: "vq_settings \<Rightarrow> vq_end \<Rightarrow> nat" where
  "vq_shmem_size s e = shmem_size s (ie_instance (ve_end e)) (ie_interface (ve_end e))"

definition vq_parameters :: "vq_settings \<Rightarrow> vq_end \<Rightarrow> (string \<times> vq_end \<times> nat) vq_rendered" where
  "vq_parameters s me =
     (if num_to_ends s \<noteq> 1 then Inl NotOneToEnd
      else
        vbind (other_name s me) (\<lambda>name.
        vbind (other_interface s me) (\<lambda>other.
        case queue_length s of None \<Rightarrow> Inl QueueLengthNotNumber
        | Some len \<Rightarrow>
            if vq_shmem_size s me \<noteq> vq_shmem_size s other then Inl ShmemSizeMismatch
            else if vq_page_size s (vq_shmem_size s me) = 0 then Inl ShmemPageSize
            else Inr (name, other, len))))"

definition vq_channel ::
    "vq_settings \<Rightarrow> vq_end \<Rightarrow> string \<Rightarrow> nat \<Rightarrow> cap_request \<Rightarrow> cap_request \<Rightarrow> nat \<Rightarrow> channel" where
  "vq_channel s me name len notify notification queue_id =
     \<lparr>ch_id = queue_id, ch_length = len, ch_size = vq_shmem_size s me,
      ch_symbol = shmem_symbol me name, ch_notify = notify,
      ch_deferred = (single_threaded s (ie_instance (ve_end me)) \<and>
        disable_optimizations s (ie_interface (ve_end me)) \<noteq> 1),
      ch_notification = notification, ch_badge = ie_badge (ve_end me),
      ch_role = (if is_drv me then VIRTQUEUE_DRIVER else VIRTQUEUE_DEVICE)\<rparr>"

definition render_virtqueue :: "vq_settings \<Rightarrow> vq_end \<Rightarrow> build_state \<Rightarrow> (channel \<times> build_state) vq_rendered" where
  "render_virtqueue s me st =
     vbind (vq_parameters s me) (\<lambda>(name, other, len).
     vbind (vq_lift (allocate_cap (ve_end other) False st)) (\<lambda>(notify, st1).
     vbind (vq_lift (allocate_cap (ve_end me) True st1)) (\<lambda>(notification, st2).
     case vq_client_id s me of
       None \<Rightarrow> Inl QueueIdNotNumber
     | Some queue_id \<Rightarrow> Inr (vq_channel s me name len notify notification queue_id, st2))))"

section \<open>The two ends agree\<close>

text \<open>The names of the ends of a connection are different, and each end is one of them.\<close>

definition ends_ok :: "vq_settings \<Rightarrow> bool" where
  "ends_ok s \<longleftrightarrow> distinct (map str_end (from_ends s))"

lemma find_interface_fold:
  "fold (\<lambda>c found. if str_end c = name then Some c else found) es x = Some c \<Longrightarrow>
     x = Some c \<or> c \<in> set es \<and> str_end c = name"
  by (induction es arbitrary: x) (auto split: if_splits)

lemma find_interface_Some: "find_interface es name = Some c \<Longrightarrow> c \<in> set es \<and> str_end c = name"
  unfolding find_interface_def by (drule find_interface_fold) simp

lemma other_nameE:
  assumes "other_name s me = Inr name"
  obtains topo t where "vq_topology s me = Inr topo" "filter (\<lambda>t. own_key me t = Some (str_end me)) topo = [t]"
    "other_key me t = Some name"
  using assms by (auto simp: other_name_def vbind_eq_Inr split: if_splits list.splits option.splits)

text \<open>For the two ends of opposite kinds the topology is the same, also the default one.\<close>

lemma default_entry_two:
  assumes "from_ends s = [a, b] \<or> from_ends s = [b, a]" "a \<noteq> b" "is_drv a" "\<not> is_drv b"
  shows "default_entry a (from_ends s) t = \<lparr>te_drv = Some (str_end a), te_dev = Some (str_end b)\<rparr>"
    and "default_entry b (from_ends s) t = \<lparr>te_drv = Some (str_end a), te_dev = Some (str_end b)\<rparr>"
  using assms by (cases t; auto)+

lemma two_ends:
  assumes "distinct es" "length es \<le> 2" "a \<in> set es" "b \<in> set es" "a \<noteq> b"
  shows "es = [a, b] \<or> es = [b, a]"
  using assms by (cases es; cases "tl es") auto

lemma same_topology:
  assumes "ends_ok s" "a \<in> set (from_ends s)" "b \<in> set (from_ends s)" "is_drv a" "\<not> is_drv b"
  shows "vq_topology s a = vq_topology s b"
proof (cases "topology s = [] \<and> length (from_ends s) \<le> 2")
  case True
  have "distinct (from_ends s)" using assms(1) by (simp add: ends_ok_def distinct_map)
  with two_ends [of "from_ends s" a b] True assms
  have two: "from_ends s = [a, b] \<or> from_ends s = [b, a]" by auto
  have "a \<noteq> b" using assms(4,5) by auto
  with default_entry_two [OF two _ assms(4,5)] True show ?thesis by (simp add: vq_topology_def)
next
  case False
  then show ?thesis by (auto simp: vq_topology_def)
qed

text \<open>The relation of having found each other is symmetric.\<close>

lemma other_interface_sym:
  assumes ok: "ends_ok s" and ends: "a \<in> set (from_ends s)" "b \<in> set (from_ends s)"
    and kinds: "is_drv a \<noteq> is_drv b"
    and a: "other_interface s a = Inr b" and b: "other_interface s b = Inr c"
  shows "c = a \<and> other_name s a = Inr (str_end b) \<and> other_name s b = Inr (str_end a)"
proof -
  obtain na where na: "other_name s a = Inr na" and fa: "find_interface (from_ends s) na = Some b"
    using a by (auto simp: other_interface_def vbind_eq_Inr split: option.splits)
  obtain nb where nb: "other_name s b = Inr nb" and fb: "find_interface (from_ends s) nb = Some c"
    using b by (auto simp: other_interface_def vbind_eq_Inr split: option.splits)
  have nab: "na = str_end b" "nb = str_end c" "c \<in> set (from_ends s)"
    using find_interface_Some [OF fa] find_interface_Some [OF fb] by auto
  obtain topo t where topo: "vq_topology s a = Inr topo"
    and t: "filter (\<lambda>t. own_key a t = Some (str_end a)) topo = [t]" "other_key a t = Some na"
    using na by (rule other_nameE)
  obtain topo' t' where topo': "vq_topology s b = Inr topo'"
    and t': "filter (\<lambda>t. own_key b t = Some (str_end b)) topo' = [t']" "other_key b t' = Some nb"
    using nb by (rule other_nameE)
  have same: "topo' = topo"
    using same_topology [OF ok ends] same_topology [OF ok ends(2,1)] kinds topo topo' by (cases "is_drv a") auto
  have "t \<in> set (filter (\<lambda>t. own_key a t = Some (str_end a)) topo)" using t(1) by simp
  then have mem: "t \<in> set topo" "own_key a t = Some (str_end a)" by auto
  have "own_key b t = Some (str_end b)"
    using t(2) kinds by (auto simp: own_key_def other_key_def nab(1))
  with mem(1) have "t \<in> set (filter (\<lambda>t. own_key b t = Some (str_end b)) topo')" by (simp add: same)
  then have "t \<in> set [t']" unfolding t'(1) .
  then have "t' = t" by simp
  then have "nb = str_end a"
    using t'(2) mem(2) kinds by (auto simp: own_key_def other_key_def)
  moreover have "c = a"
    using calculation nab(2,3) ok ends(1) by (auto simp: ends_ok_def distinct_map inj_on_def)
  ultimately show ?thesis using na nb nab by simp
qed

text \<open>The capabilities of an end: one to signal the other, one to wait for it.\<close>

lemma allocate_cap_ok:
  assumes inv: "build_inv st" and step: "allocate_cap e r st = Inr (c, st')"
  shows "build_inv st' \<and> grows st st' \<and> cap_badge c = (if r then None else Some (ie_badge e)) \<and>
    (\<exists>ow. stashed st' (notification_stash (ie_instance e)) = Some (cap_object c, ow))"
proof -
  have "request_valid (Cap e r)"
    using step by (auto simp: allocate_cap_def Let_def split: if_splits option.splits)
  then obtain c' st1 where "serve (Cap e r) st = Inr (c', st1)" "build_inv st1" "grows st st1"
    "\<exists>ow. stashed st1 (stash_of (requested_kind (Cap e r)) (requested_instance (Cap e r))) = Some (cap_object c', ow)"
    by (rule serve_ok [OF inv])
  moreover have "cap_badge c = (if r then None else Some (ie_badge e))"
    using step by (auto simp: allocate_cap_def alloc_cap_def Let_def split: if_splits option.splits prod.splits)
  ultimately show ?thesis using step by simp
qed

lemma render_virtqueueD:
  assumes inv: "build_inv st" and step: "render_virtqueue s me st = Inr (ch, st')"
  obtains other name where "other_interface s me = Inr other" "other_name s me = Inr name"
    "ch_symbol ch = shmem_symbol me name" "queue_length s = Some (ch_length ch)"
    "ch_size ch = vq_shmem_size s me" "vq_shmem_size s other = vq_shmem_size s me"
    "ch_role ch = (if is_drv me then VIRTQUEUE_DRIVER else VIRTQUEUE_DEVICE)"
    "ch_badge ch = ie_badge (ve_end me)" "cap_badge (ch_notify ch) = Some (ie_badge (ve_end other))"
    "\<exists>ow. stashed st' (notification_stash (ie_instance (ve_end other))) = Some (cap_object (ch_notify ch), ow)"
    "\<exists>ow. stashed st' (notification_stash (ie_instance (ve_end me))) = Some (cap_object (ch_notification ch), ow)"
    "build_inv st'" "grows st st'"
proof -
  obtain name other len where params: "vq_parameters s me = Inr (name, other, len)"
    and rest: "vbind (vq_lift (allocate_cap (ve_end other) False st)) (\<lambda>(notify, st1).
     vbind (vq_lift (allocate_cap (ve_end me) True st1)) (\<lambda>(notification, st2).
     case vq_client_id s me of
       None \<Rightarrow> Inl QueueIdNotNumber
     | Some queue_id \<Rightarrow> Inr (vq_channel s me name len notify notification queue_id, st2))) = Inr (ch, st')"
    using step by (auto simp: render_virtqueue_def vbind_eq_Inr [of "vq_parameters s me"])
  have step': "other_name s me = Inr name" "other_interface s me = Inr other" "queue_length s = Some len"
    "vq_shmem_size s me = vq_shmem_size s other"
    using params by (auto simp: vq_parameters_def vbind_eq_Inr split: if_splits option.splits)
  obtain notify st1 notification q where
    c1: "allocate_cap (ve_end other) False st = Inr (notify, st1)"
    and c2: "allocate_cap (ve_end me) True st1 = Inr (notification, st')"
    and ch': "ch = vq_channel s me name len notify notification q"
    using rest by (auto simp: vbind_eq_Inr vq_lift_eq_Inr split: option.splits)
  note ch = ch' [unfolded vq_channel_def]
  have 1: "build_inv st1 \<and> grows st st1 \<and> cap_badge notify = Some (ie_badge (ve_end other)) \<and>
    (\<exists>ow. stashed st1 (notification_stash (ie_instance (ve_end other))) = Some (cap_object notify, ow))"
    using allocate_cap_ok [OF inv c1] by simp
  then have 2: "build_inv st' \<and> grows st1 st' \<and>
    (\<exists>ow. stashed st' (notification_stash (ie_instance (ve_end me))) = Some (cap_object notification, ow))"
    using allocate_cap_ok [OF _ c2] by blast
  then have "\<exists>ow. stashed st' (notification_stash (ie_instance (ve_end other))) = Some (cap_object notify, ow)"
    using 1 unfolding grows_def by blast
  with 1 2 step' grows_trans show thesis
    by (intro that [of other name]) (auto simp: ch)
qed

text \<open>
  C32. The two ends of a virtqueue fit together although each is rendered on its own: if one end, in a
  build where both succeed, has found an end of the opposite kind, that end has found it in return; both map
  the same memory, of the same size, for a queue of the same length, in opposite roles, and each signals the
  notification on which the other waits, with the badge the other expects.
\<close>

theorem virtqueue_ends_agree:
  assumes "ends_ok s" "a \<in> set (from_ends s)" "b \<in> set (from_ends s)" "is_drv a" "\<not> is_drv b"
    and found: "other_interface s a = Inr b" and inv: "build_inv st"
    and a: "render_virtqueue s a st = Inr (ca, st1)" and b: "render_virtqueue s b st1 = Inr (cb, st2)"
  shows "other_interface s b = Inr a \<and> ch_symbol ca = ch_symbol cb \<and> ch_size ca = ch_size cb \<and>
    ch_length ca = ch_length cb \<and> ch_role ca = VIRTQUEUE_DRIVER \<and> ch_role cb = VIRTQUEUE_DEVICE \<and>
    cap_object (ch_notify ca) = cap_object (ch_notification cb) \<and> cap_badge (ch_notify ca) = Some (ch_badge cb) \<and>
    cap_object (ch_notify cb) = cap_object (ch_notification ca) \<and> cap_badge (ch_notify cb) = Some (ch_badge ca)"
proof -
  obtain oa na where A: "other_interface s a = Inr oa" "other_name s a = Inr na"
    "ch_symbol ca = shmem_symbol a na" "queue_length s = Some (ch_length ca)"
    "ch_size ca = vq_shmem_size s a" "vq_shmem_size s oa = vq_shmem_size s a"
    "ch_role ca = (if is_drv a then VIRTQUEUE_DRIVER else VIRTQUEUE_DEVICE)"
    "ch_badge ca = ie_badge (ve_end a)" "cap_badge (ch_notify ca) = Some (ie_badge (ve_end oa))"
    "\<exists>ow. stashed st1 (notification_stash (ie_instance (ve_end oa))) = Some (cap_object (ch_notify ca), ow)"
    "\<exists>ow. stashed st1 (notification_stash (ie_instance (ve_end a))) = Some (cap_object (ch_notification ca), ow)"
    and inv1: "build_inv st1"
    by (rule render_virtqueueD [OF inv a])
  obtain ob nb where B: "other_interface s b = Inr ob" "other_name s b = Inr nb"
    "ch_symbol cb = shmem_symbol b nb" "queue_length s = Some (ch_length cb)"
    "ch_size cb = vq_shmem_size s b" "vq_shmem_size s ob = vq_shmem_size s b"
    "ch_role cb = (if is_drv b then VIRTQUEUE_DRIVER else VIRTQUEUE_DEVICE)"
    "ch_badge cb = ie_badge (ve_end b)" "cap_badge (ch_notify cb) = Some (ie_badge (ve_end ob))"
    "\<exists>ow. stashed st2 (notification_stash (ie_instance (ve_end ob))) = Some (cap_object (ch_notify cb), ow)"
    "\<exists>ow. stashed st2 (notification_stash (ie_instance (ve_end b))) = Some (cap_object (ch_notification cb), ow)"
    and g: "grows st1 st2"
    by (rule render_virtqueueD [OF inv1 b])
  have "oa = b" using A(1) found by simp
  have sym: "ob = a" "na = str_end b" "nb = str_end a"
    using other_interface_sym [OF assms(1-3) _ found B(1)] assms(4,5) A(2) B(2) by auto
  have A': "\<exists>ow. stashed st2 (notification_stash (ie_instance (ve_end b))) = Some (cap_object (ch_notify ca), ow)"
    "\<exists>ow. stashed st2 (notification_stash (ie_instance (ve_end a))) = Some (cap_object (ch_notification ca), ow)"
    using A(10,11) g by (auto simp: grows_def \<open>oa = b\<close>)
  show ?thesis
    using A B A' assms(4,5) by (auto simp: sym \<open>oa = b\<close> shmem_symbol_def)
qed

definition demo_vq_end :: "string \<Rightarrow> string \<Rightarrow> string \<Rightarrow> u64 \<Rightarrow> vq_end" where
  "demo_vq_end inst iface ty b =
     \<lparr>ve_end = \<lparr>ie_instance = inst, ie_interface = iface, ie_global_endpoint = True, ie_global_rpc_endpoint = False,
        ie_configured = None, ie_badge = b, ie_rpc_badges = []\<rparr>, ve_type = ty\<rparr>"

definition demo_vq_settings :: vq_settings where
  "demo_vq_settings =
     \<lparr>num_to_ends = 1,
      from_ends = [demo_vq_end ''a'' ''q'' ''VirtQueueDrv'' 2, demo_vq_end ''b'' ''q'' ''VirtQueueDev'' 4],
      topology = [], queue_length = Some 256, shmem_size = (\<lambda>_ _. 8192), vq_page_size = (\<lambda>_. 4096),
      vq_client_id = (\<lambda>_. Some 1), single_threaded = (\<lambda>_. True), disable_optimizations = (\<lambda>_. 0)\<rparr>"

theorem virtqueue_ends_agree_witness:
  "\<exists>ca cb st1 st2. render_virtqueue demo_vq_settings (demo_vq_end ''a'' ''q'' ''VirtQueueDrv'' 2) empty_build = Inr (ca, st1) \<and>
    render_virtqueue demo_vq_settings (demo_vq_end ''b'' ''q'' ''VirtQueueDev'' 4) st1 = Inr (cb, st2) \<and>
    ch_symbol ca = ch_symbol cb \<and> cap_object (ch_notify ca) = cap_object (ch_notification cb)"
proof -
  let ?a = "demo_vq_end ''a'' ''q'' ''VirtQueueDrv'' 2" and ?b = "demo_vq_end ''b'' ''q'' ''VirtQueueDev'' 4"
  have drv: "is_drv ?a" "\<not> is_drv ?b" by (simp_all add: is_drv_def demo_vq_end_def)
  have str: "str_end ?a = ''a.q''" "str_end ?b = ''b.q''" by (simp_all add: str_end_def demo_vq_end_def)
  have "str_end ?a \<noteq> str_end ?b" unfolding str by simp
  then have neq: "?a \<noteq> ?b" by auto
  have ends: "from_ends demo_vq_settings = [?a, ?b]" by (simp add: demo_vq_settings_def)
  have ok: "ends_ok demo_vq_settings" "?a \<in> set (from_ends demo_vq_settings)" "?b \<in> set (from_ends demo_vq_settings)"
    by (simp_all add: ends_ok_def ends str)
  have topo: "vq_topology demo_vq_settings ?a = Inr [\<lparr>te_drv = Some ''a.q'', te_dev = Some ''b.q''\<rparr>]"
    "vq_topology demo_vq_settings ?b = Inr [\<lparr>te_drv = Some ''a.q'', te_dev = Some ''b.q''\<rparr>]"
    using default_entry_two [of demo_vq_settings ?a ?b, OF _ neq drv] str
    by (simp_all add: vq_topology_def ends) (simp_all add: demo_vq_settings_def)
  have names: "other_name demo_vq_settings ?a = Inr ''b.q''" "other_name demo_vq_settings ?b = Inr ''a.q''"
    by (simp_all add: other_name_def topo own_key_def other_key_def drv str)
  have others: "other_interface demo_vq_settings ?a = Inr ?b" "other_interface demo_vq_settings ?b = Inr ?a"
    by (simp_all add: other_interface_def names find_interface_def ends str)
  have valid: "request_valid (Cap (ve_end ?a) r)" "request_valid (Cap (ve_end ?b) r)" for r
    by (simp_all add: demo_vq_end_def)
  have render: "\<exists>ch st'. render_virtqueue demo_vq_settings e st = Inr (ch, st') \<and> build_inv st'"
    if pair: "e = ?a \<and> other = ?b \<or> e = ?b \<and> other = ?a" and inv: "build_inv st" for e other st
  proof -
    have o: "other_interface demo_vq_settings e = Inr other" "\<exists>n. other_name demo_vq_settings e = Inr n"
      using pair others names by auto
    obtain c1 st1 where 1: "allocate_cap (ve_end other) False st = Inr (c1, st1)" "build_inv st1"
      using serve_ok [OF inv, of "Cap (ve_end other) False"] valid pair by (metis serve.simps(1))
    obtain c2 st2 where "allocate_cap (ve_end e) True st1 = Inr (c2, st2)" "build_inv st2"
      using serve_ok [OF 1(2), of "Cap (ve_end e) True"] valid pair by (metis serve.simps(1))
    with o 1(1) show ?thesis
      by (auto simp: render_virtqueue_def vq_parameters_def demo_vq_settings_def vq_lift_def vq_shmem_size_def)
  qed
  obtain ca st1 where ra: "render_virtqueue demo_vq_settings ?a empty_build = Inr (ca, st1)" "build_inv st1"
    using render [of ?a ?b empty_build] build_inv_empty by blast
  obtain cb st2 where rb: "render_virtqueue demo_vq_settings ?b st1 = Inr (cb, st2)"
    using render [of ?b ?a st1] ra(2) by blast
  from virtqueue_ends_agree [OF ok drv others(1) build_inv_empty ra(1) rb] ra(1) rb show ?thesis by blast
qed

text \<open>
  Replacing the dots makes different pairs of ends share a symbol, and thereby their memory: an end of
  \<open>a\<close> named \<open>b_c\<close> and an end of \<open>a_b\<close> named \<open>c\<close>, for instance.
\<close>

lemma virtqueue_symbol_collision:
  "str_end (demo_vq_end ''a'' ''b_c'' ty b) \<noteq> str_end (demo_vq_end ''a_b'' ''c'' ty b') \<and>
   shmem_symbol (demo_vq_end ''a'' ''b_c'' ''VirtQueueDrv'' b) name =
   shmem_symbol (demo_vq_end ''a_b'' ''c'' ''VirtQueueDrv'' b') name"
  by (simp add: shmem_symbol_def str_end_def demo_vq_end_def is_drv_def)

section \<open>Message queues\<close>

text \<open>
  Sender and receiver are rendered from the same settings of the connection; the queue has twice as many
  entries as messages. \<open>sizeof\<close> of the library's structures are parameters of the size test of the sender.
\<close>

record mq_sizes =
  sizeof_avail :: nat
  sizeof_used :: nat
  sizeof_used_elem :: nat
  sizeof_desc :: nat

definition virtqueue_length :: "nat \<Rightarrow> nat" where
  "virtqueue_length queue_size = 2 * queue_size"

definition queue_total_size :: "mq_sizes \<Rightarrow> nat \<Rightarrow> nat \<Rightarrow> nat" where
  "queue_total_size z type_size queue_size =
     (let n = virtqueue_length queue_size in
      type_size * queue_size + sizeof_avail z + 2 * n + sizeof_used z + sizeof_used_elem z * n + sizeof_desc z * n)"

datatype mq_error = MissingReceiver | SenderMismatch | MqIdNotNumber | QueueTooLarge | RegisterFailed

text \<open>The sender registers with the library, whose answer is the last argument.\<close>

definition mq_sender_init ::
    "mq_sizes \<Rightarrow> nat \<Rightarrow> nat option \<Rightarrow> nat \<Rightarrow> nat \<Rightarrow> nat \<Rightarrow> (nat \<Rightarrow> nat \<Rightarrow> nat \<Rightarrow> int) \<Rightarrow> mq_error + nat \<times> nat" where
  "mq_sender_init z num_to queue_id type_size queue_size shmem register_sender =
     (if num_to \<noteq> 1 then Inl MissingReceiver
      else case queue_id of None \<Rightarrow> Inl MqIdNotNumber
      | Some q \<Rightarrow>
          if shmem < queue_total_size z type_size queue_size then Inl QueueTooLarge
          else if register_sender q (virtqueue_length queue_size) shmem \<noteq> 0 then Inl RegisterFailed
          else Inr (q, virtqueue_length queue_size))"

definition mq_receiver_init ::
    "nat \<Rightarrow> nat option \<Rightarrow> nat \<Rightarrow> nat \<Rightarrow> (nat \<Rightarrow> nat \<Rightarrow> nat \<Rightarrow> int) \<Rightarrow> mq_error + nat \<times> nat" where
  "mq_receiver_init num_from queue_id queue_size shmem register_receiver =
     (if num_from \<noteq> 1 then Inl SenderMismatch
      else case queue_id of None \<Rightarrow> Inl MqIdNotNumber
      | Some q \<Rightarrow>
          if register_receiver q (virtqueue_length queue_size) shmem \<noteq> 0 then Inl RegisterFailed
          else Inr (q, virtqueue_length queue_size))"

definition mq_poll :: "u64 \<Rightarrow> int" where
  "mq_poll badge = (if badge \<noteq> 0 then 1 else 0)"

lemma message_queue_lengths_agree:
  assumes "mq_sender_init z n q ts qs shm f = Inr (i, len)" "mq_receiver_init m r qs shm' g = Inr (j, len')"
  shows "len = len' \<and> ts * qs \<le> shm"
  using assms
  by (auto simp: mq_sender_init_def mq_receiver_init_def queue_total_size_def Let_def split: if_splits option.splits)

end
