(* ===== verification/IrqConnector.thy ===== *)
theory IrqConnector
  imports Connectors
begin

text \<open>
  Interrupts of a component with a single thread: \<open>templates/seL4GlobalAsynchHardwareInterrupt.template.c\<close>,
  which reads one interrupt from the settings of an instance, and
  \<open>templates/seL4DTBHardwareThreadless.template.c\<close>, which sets up the registers and the interrupts of a
  device of the device tree. Both deliver interrupts as badged signals to the notification that all
  connections of the instance share.

  The parsing of device tree nodes, page sizes and the number of frames that back a region come from CAmkES
  and are parameters; slots of capabilities are numbers.
\<close>

section \<open>Settings of an interrupt\<close>

datatype setting = Num int | Str string | OtherSetting

datatype irq_error =
    NotDefined string
  | NotAnInteger string
  | BadTrigger
  | UnknownIrqType
  | IrqEndpointError template_error

type_synonym 'a irq_rendered = "irq_error + 'a"

definition ibind :: "'a irq_rendered \<Rightarrow> ('a \<Rightarrow> 'b irq_rendered) \<Rightarrow> 'b irq_rendered" where
  "ibind m f = (case m of Inl e \<Rightarrow> Inl e | Inr x \<Rightarrow> f x)"

lemma ibind_simps [simp]: "ibind (Inl e) f = Inl e" "ibind (Inr x) f = f x"
  by (simp_all add: ibind_def)

lemma ibind_eq_Inr: "ibind m f = Inr y \<longleftrightarrow> (\<exists>x. m = Inr x \<and> f x = Inr y)"
  by (cases m) simp_all

type_synonym irq_settings = "string \<Rightarrow> setting option"

definition get_int :: "irq_settings \<Rightarrow> string \<Rightarrow> int irq_rendered" where
  "get_int conf attr =
     (case conf attr of
        None \<Rightarrow> Inl (NotDefined attr)
      | Some (Num n) \<Rightarrow> Inr n
      | Some v \<Rightarrow> Inl (NotAnInteger attr))"

datatype trigger = seL4_ARM_IRQ_LEVEL | seL4_ARM_IRQ_EDGE

text \<open>The interrupt object asked for, and the description that is registered with it.\<close>

datatype irq_object =
    SimpleIRQ int
  | ArmIRQ int trigger int              \<comment> \<open>number, trigger, target\<close>
  | IoapicIRQ int int int int int       \<comment> \<open>vector, ioapic, pin, level, polarity\<close>
  | MsiIRQ int int int int int          \<comment> \<open>vector, handle, bus, device, function\<close>

datatype ps_irq =
    PS_INTERRUPT int
  | PS_TRIGGER trigger int int          \<comment> \<open>trigger, cpu, number\<close>
  | PS_IOAPIC int int int int int       \<comment> \<open>ioapic, pin, level, polarity, vector\<close>
  | PS_MSI int int int int int          \<comment> \<open>bus, device, function, handle, vector\<close>

text \<open>Numbers of a device tree's shared interrupts do not count the first 32.\<close>

definition simple_irq :: "irq_settings \<Rightarrow> (irq_object \<times> ps_irq) irq_rendered" where
  "simple_irq conf =
     ibind (get_int conf ''irq_number'') (\<lambda>n.
     let irq = (if conf ''spi_number'' = Some (Num 0) then n + 32 else n)
     in Inr (SimpleIRQ irq, PS_INTERRUPT irq))"

definition arm_irq :: "irq_settings \<Rightarrow> (irq_object \<times> ps_irq) irq_rendered" where
  "arm_irq conf =
     ibind (case conf ''irq_trigger'' of
        None \<Rightarrow> Inr seL4_ARM_IRQ_LEVEL
      | Some v \<Rightarrow> if v = Str ''level'' then Inr seL4_ARM_IRQ_LEVEL
          else if v = Str ''edge'' then Inr seL4_ARM_IRQ_EDGE else Inl BadTrigger) (\<lambda>trigger.
     ibind (get_int conf ''irq_number'') (\<lambda>irq.
     ibind (case conf ''irq_target'' of
        None \<Rightarrow> Inr 0 | Some (Num n) \<Rightarrow> Inr n | Some v \<Rightarrow> Inl (NotAnInteger ''irq_target'')) (\<lambda>target.
       Inr (ArmIRQ irq trigger target, PS_TRIGGER trigger target irq))))"

definition ioapic_irq :: "string \<Rightarrow> irq_settings \<Rightarrow> (irq_object \<times> ps_irq) irq_rendered" where
  "ioapic_irq ty conf =
     ibind (if ty = ''isa'' then Inr (0, 0)
            else if ty = ''pci'' then Inr (1, 1)
            else ibind (get_int conf ''irq_level'') (\<lambda>level.
                 ibind (get_int conf ''irq_polarity'') (\<lambda>polarity. Inr (level, polarity)))) (\<lambda>(level, polarity).
     ibind (get_int conf ''irq_ioapic'') (\<lambda>ioapic.
     ibind (get_int conf ''irq_ioapic_pin'') (\<lambda>pin.
     ibind (get_int conf ''irq_vector'') (\<lambda>vector.
       Inr (IoapicIRQ vector ioapic pin level polarity, PS_IOAPIC ioapic pin level polarity vector)))))"

definition msi_irq :: "irq_settings \<Rightarrow> (irq_object \<times> ps_irq) irq_rendered" where
  "msi_irq conf =
     ibind (get_int conf ''irq_handle'') (\<lambda>handle.
     ibind (get_int conf ''irq_pci_bus'') (\<lambda>bus.
     ibind (get_int conf ''irq_pci_dev'') (\<lambda>dev.
     ibind (get_int conf ''irq_pci_fun'') (\<lambda>fun.
     ibind (get_int conf ''irq_vector'') (\<lambda>vector.
       Inr (MsiIRQ vector handle bus dev fun, PS_MSI bus dev fun handle vector))))))"

definition configured_irq :: "irq_settings \<Rightarrow> (irq_object \<times> ps_irq) irq_rendered" where
  "configured_irq conf =
     (let ty = (case conf ''irq_type'' of None \<Rightarrow> Str ''simple'' | Some v \<Rightarrow> v) in
      if ty = Str ''simple'' then simple_irq conf
      else if ty = Str ''arm'' then arm_irq conf
      else if ty = Str ''ioapic'' then ioapic_irq ''ioapic'' conf
      else if ty = Str ''isa'' then ioapic_irq ''isa'' conf
      else if ty = Str ''pci'' then ioapic_irq ''pci'' conf
      else if ty = Str ''msi'' then msi_irq conf
      else Inl UnknownIrqType)"

section \<open>An interrupt connector\<close>

text \<open>
  The entries for the two ELF sections, \<open>allocated_irqs\<close> and \<open>global_notification_irqs\<close>, and the
  capability the constructor gives to the kernel as the interrupt's notification.
\<close>

record irq_connector =
  ic_object :: irq_object
  ic_irq :: ps_irq
  ic_is_allocated :: bool
  ic_badge :: u64
  ic_notification :: cap_request
  ic_wait :: cap_request

definition render_irq ::
    "iface_end \<Rightarrow> irq_settings \<Rightarrow> build_state \<Rightarrow> (irq_connector \<times> build_state) irq_rendered" where
  "render_irq me conf st =
     (case allocate_cap me False st of
        Inl e \<Rightarrow> Inl (IrqEndpointError e)
      | Inr (origin, st1) \<Rightarrow>
          (case allocate_cap me True st1 of
             Inl e \<Rightarrow> Inl (IrqEndpointError e)
           | Inr (ntfn, st2) \<Rightarrow>
               ibind (configured_irq conf) (\<lambda>(obj, irq).
                 Inr (\<lparr>ic_object = obj, ic_irq = irq, ic_is_allocated = False, ic_badge = ie_badge me,
                       ic_notification = origin, ic_wait = ntfn\<rparr>, st2))))"

text \<open>The constructor; the connector's other functions are not for this kind of connection.\<close>

definition register_connector :: "(cap_request \<Rightarrow> int) \<Rightarrow> irq_connector \<Rightarrow> unit outcome" where
  "register_connector seL4_IRQHandler_SetNotification ic =
     ensure (seL4_IRQHandler_SetNotification (ic_notification ic) = 0) AssertionFailed"

definition irq_poll :: "int outcome" where
  "irq_poll = Inl AssertionFailed"

definition irq_reg_callback :: "int outcome" where
  "irq_reg_callback = Inl AssertionFailed"

section \<open>Devices of the device tree\<close>

datatype dtb_error =
    MissingDTB
  | MissingQueryAttribute
  | InvalidNumberOfPaths
  | MissingPath
  | DtbBadgeIndex

text \<open>The node of the device that is asked for: \<open>dtb\<close>, its \<open>query\<close>, the one path in it.\<close>

definition dtb_node :: "'n option list option option \<Rightarrow> dtb_error + 'n" where
  "dtb_node dtb_config =
     (case dtb_config of None \<Rightarrow> Inl MissingDTB
      | Some None \<Rightarrow> Inl MissingQueryAttribute
      | Some (Some query) \<Rightarrow>
          (case query of
             [Some node] \<Rightarrow> Inr node
           | [None] \<Rightarrow> Inl MissingPath
           | _ \<Rightarrow> Inl InvalidNumberOfPaths))"

text \<open>The table of the frames that back a register region; addresses are offsets of its symbol.\<close>

record dataport_frame =
  fr_paddr :: nat
  fr_cap :: nat
  fr_size :: nat
  fr_vaddr :: nat

definition register_frames :: "nat \<Rightarrow> nat \<Rightarrow> nat list \<Rightarrow> dataport_frame list" where
  "register_frames paddr page_size frame_caps =
     map (\<lambda>(i, cap). \<lparr>fr_paddr = paddr + i * page_size, fr_cap = cap, fr_size = page_size,
                       fr_vaddr = i * page_size\<rparr>)
       (zip [0..<length frame_caps] frame_caps)"

text \<open>One handler for each interrupt of the device, with the badge of its number in the list.\<close>

record dtb_irq =
  di_irq :: ps_irq
  di_badge :: u64
  di_notification :: cap_request

fun dtb_interrupts ::
    "string \<Rightarrow> u64 list \<Rightarrow> nat \<Rightarrow> int list \<Rightarrow> nat \<Rightarrow> build_state \<Rightarrow> dtb_error + dtb_irq list \<times> build_state" where
  "dtb_interrupts inst badges i [] obj st = Inr ([], st)"
| "dtb_interrupts inst badges i (irq # irqs) obj st =
     (if i < length badges then
        let (cap, st1) = alloc_cap \<lparr>cap_object = obj, cap_read = False, cap_write = True, cap_grantreply = False,
              cap_badge = Some (badges ! i)\<rparr> st
        in case dtb_interrupts inst badges (Suc i) irqs obj st1 of
             Inl e \<Rightarrow> Inl e
           | Inr (es, st2) \<Rightarrow>
               Inr (\<lparr>di_irq = PS_INTERRUPT irq, di_badge = badges ! i, di_notification = cap\<rparr> # es, st2)
      else Inl DtbBadgeIndex)"

definition render_dtb_interrupts ::
    "string \<Rightarrow> bool \<Rightarrow> u64 list \<Rightarrow> int list \<Rightarrow> build_state \<Rightarrow> dtb_error + dtb_irq list \<times> build_state" where
  "render_dtb_interrupts inst generate_interrupts badges irqs st =
     (if generate_interrupts then
        let (obj, st1) = shared_object (notification_stash inst) (endpoint_name inst) seL4_NotificationObject inst st
        in dtb_interrupts inst badges 0 irqs obj st1
      else Inr ([], st))"

section \<open>Properties\<close>

text \<open>The interrupt that an object delivers and a description names.\<close>

fun describes :: "ps_irq \<Rightarrow> irq_object \<Rightarrow> bool" where
  "describes (PS_INTERRUPT n) (SimpleIRQ n') \<longleftrightarrow> n = n'"
| "describes (PS_TRIGGER t c n) (ArmIRQ n' t' c') \<longleftrightarrow> t = t' \<and> c = c' \<and> n = n'"
| "describes (PS_IOAPIC i p l q v) (IoapicIRQ v' i' p' l' q') \<longleftrightarrow> i = i' \<and> p = p' \<and> l = l' \<and> q = q' \<and> v = v'"
| "describes (PS_MSI b d f h v) (MsiIRQ v' h' b' d' f') \<longleftrightarrow> b = b' \<and> d = d' \<and> f = f' \<and> h = h' \<and> v = v'"
| "describes _ _ \<longleftrightarrow> False"

lemmas irq_templates = simple_irq_def arm_irq_def ioapic_irq_def msi_irq_def ibind_eq_Inr Let_def

lemma configured_irq_describes: "configured_irq conf = Inr (obj, irq) \<Longrightarrow> describes irq obj"
  by (auto simp: configured_irq_def irq_templates split: if_splits option.splits setting.splits)

lemma render_irq_ok:
  assumes "build_inv st" "request_valid (Cap me False)" "configured_irq conf = Inr (obj, irq)"
  obtains ic st' where "render_irq me conf st = Inr (ic, st')" "ic_object ic = obj" "ic_irq ic = irq"
    "ic_badge ic = ie_badge me" "cap_badge (ic_notification ic) = Some (ie_badge me)" "build_inv st'"
    "\<exists>ow. stashed st' (notification_stash (ie_instance me)) = Some (cap_object (ic_notification ic), ow)"
    "cap_object (ic_wait ic) = cap_object (ic_notification ic)"
proof -
  obtain c1 st1 where 1: "serve (Cap me False) st = Inr (c1, st1)" "build_inv st1" "grows st st1"
    "\<exists>ow. stashed st1 (stash_of (requested_kind (Cap me False)) (requested_instance (Cap me False))) = Some (cap_object c1, ow)"
    by (rule serve_ok [OF assms(1,2)])
  have "request_valid (Cap me True)" using assms(2) by simp
  then obtain c2 st2 where 2: "serve (Cap me True) st1 = Inr (c2, st2)" "build_inv st2" "grows st1 st2"
    "\<exists>ow. stashed st2 (stash_of (requested_kind (Cap me True)) (requested_instance (Cap me True))) = Some (cap_object c2, ow)"
    by (rule serve_ok [OF 1(2)])
  have b: "cap_badge c1 = Some (ie_badge me)"
    using 1(1) by (auto simp: allocate_cap_def alloc_cap_def Let_def split: if_splits option.splits prod.splits)
  have s: "\<exists>ow. stashed st2 (notification_stash (ie_instance me)) = Some (cap_object c1, ow)"
    using 1(4) 2(3) unfolding grows_def by fastforce
  then have "cap_object c2 = cap_object c1" using 2(4) by auto
  with 1(1) 2(1,2) b s assms(3) show thesis
    by (intro that [of "\<lparr>ic_object = obj, ic_irq = irq, ic_is_allocated = False, ic_badge = ie_badge me,
          ic_notification = c1, ic_wait = c2\<rparr>" st2]) (simp_all add: render_irq_def)
qed

lemma dtb_interrupts_ok:
  "i + length irqs \<le> length badges \<Longrightarrow>
   \<exists>es st'. dtb_interrupts inst badges i irqs obj st = Inr (es, st') \<and> length es = length irqs \<and>
     stashed st' = stashed st \<and> objects st' = objects st \<and>
     (\<forall>k < length irqs. di_irq (es ! k) = PS_INTERRUPT (irqs ! k) \<and> di_badge (es ! k) = badges ! (i + k) \<and>
        cap_badge (di_notification (es ! k)) = Some (badges ! (i + k)) \<and> cap_object (di_notification (es ! k)) = obj)"
proof (induction irqs arbitrary: i st)
  case Nil
  then show ?case by simp
next
  case (Cons irq irqs)
  let ?c = "\<lparr>cap_object = obj, cap_read = False, cap_write = True, cap_grantreply = False, cap_badge = Some (badges ! i)\<rparr>"
  let ?st1 = "snd (alloc_cap ?c st)"
  have "Suc i + length irqs \<le> length badges" using Cons.prems by simp
  from Cons.IH [OF this, of ?st1] obtain es st' where
    rest: "dtb_interrupts inst badges (Suc i) irqs obj ?st1 = Inr (es, st')" "length es = length irqs"
      "stashed st' = stashed st" "objects st' = objects st"
    and all: "\<forall>k < length irqs. di_irq (es ! k) = PS_INTERRUPT (irqs ! k) \<and> di_badge (es ! k) = badges ! (Suc i + k) \<and>
        cap_badge (di_notification (es ! k)) = Some (badges ! (Suc i + k)) \<and> cap_object (di_notification (es ! k)) = obj"
    by (auto simp: alloc_cap_def)
  let ?e = "\<lparr>di_irq = PS_INTERRUPT irq, di_badge = badges ! i, di_notification = ?c\<rparr>"
  have "dtb_interrupts inst badges i (irq # irqs) obj st = Inr (?e # es, st')"
    using Cons.prems rest(1) by (simp add: alloc_cap_def)
  moreover have "di_irq ((?e # es) ! k) = PS_INTERRUPT ((irq # irqs) ! k) \<and> di_badge ((?e # es) ! k) = badges ! (i + k) \<and>
      cap_badge (di_notification ((?e # es) ! k)) = Some (badges ! (i + k)) \<and>
      cap_object (di_notification ((?e # es) ! k)) = obj" if "k < length (irq # irqs)" for k
    using all that by (cases k) auto
  ultimately show ?case using rest by (intro exI [of _ "?e # es"] exI [of _ st']) simp
qed

text \<open>
  C33. Interrupts reach the event loop: for an interrupt from the settings, and for each interrupt of a device
  tree node, the kernel is given a capability to the very notification the instance's event loop waits on,
  with the badge under which the interrupt's acknowledgement is registered, and the registered description
  names the interrupt whose object was asked for.
\<close>

theorem irq_reaches_event_loop:
  assumes "build_inv st" "request_valid (Cap me False)" "configured_irq conf = Inr (obj, irq)"
    and "length irqs \<le> length badges"
  shows "\<exists>ic st1 es st2. render_irq me conf st = Inr (ic, st1) \<and> describes (ic_irq ic) (ic_object ic) \<and>
    cap_badge (ic_notification ic) = Some (ic_badge ic) \<and>
    cap_object (ic_notification ic) = cap_object (fst (allocate_cap_instance (ie_instance me) st1)) \<and>
    render_dtb_interrupts (ie_instance me) True badges irqs st1 = Inr (es, st2) \<and>
    map di_irq es = map PS_INTERRUPT irqs \<and> map di_badge es = take (length irqs) badges \<and>
    (\<forall>e \<in> set es. cap_badge (di_notification e) = Some (di_badge e) \<and>
       cap_object (di_notification e) = cap_object (fst (allocate_cap_instance (ie_instance me) st2)))"
proof -
  obtain ic st1 where ic: "render_irq me conf st = Inr (ic, st1)" "ic_object ic = obj" "ic_irq ic = irq"
    "ic_badge ic = ie_badge me" "cap_badge (ic_notification ic) = Some (ie_badge me)"
    "\<exists>ow. stashed st1 (notification_stash (ie_instance me)) = Some (cap_object (ic_notification ic), ow)"
    by (rule render_irq_ok [OF assms(1-3)])
  let ?n = "cap_object (ic_notification ic)"
  have loop: "cap_object (fst (allocate_cap_instance (ie_instance me) t)) = ?n"
    if "\<exists>ow. stashed t (notification_stash (ie_instance me)) = Some (?n, ow)" for t
    using that by (auto simp: allocate_cap_instance_def shared_object_def alloc_cap_def Let_def)
  obtain ow where ow: "stashed st1 (notification_stash (ie_instance me)) = Some (?n, ow)" using ic(6) by blast
  then obtain t where t: "shared_object (notification_stash (ie_instance me)) (endpoint_name (ie_instance me))
      seL4_NotificationObject (ie_instance me) st1 = (?n, t)" "stashed t (notification_stash (ie_instance me)) = Some (?n, ow)"
    by (auto simp: shared_object_def)
  obtain es st2 where es: "dtb_interrupts (ie_instance me) badges 0 irqs ?n t = Inr (es, st2)" "length es = length irqs"
      "stashed st2 = stashed t"
    and all: "\<forall>k < length irqs. di_irq (es ! k) = PS_INTERRUPT (irqs ! k) \<and> di_badge (es ! k) = badges ! k \<and>
        cap_badge (di_notification (es ! k)) = Some (badges ! k) \<and> cap_object (di_notification (es ! k)) = ?n"
    using dtb_interrupts_ok [of 0 irqs badges "ie_instance me" ?n t] assms(4) by auto
  have "render_dtb_interrupts (ie_instance me) True badges irqs st1 = Inr (es, st2)"
    using t(1) es(1) by (simp add: render_dtb_interrupts_def)
  moreover have "map di_irq es = map PS_INTERRUPT irqs" "map di_badge es = take (length irqs) badges"
    using all es(2) assms(4) by (auto intro!: nth_equalityI)
  moreover have "\<forall>e \<in> set es. cap_badge (di_notification e) = Some (di_badge e) \<and>
       cap_object (di_notification e) = cap_object (fst (allocate_cap_instance (ie_instance me) st2))"
    using all es(2,3) t(2) loop [of st2] by (auto simp: in_set_conv_nth)
  moreover have "describes (ic_irq ic) (ic_object ic)"
    using configured_irq_describes [OF assms(3)] ic(2,3) by simp
  ultimately show ?thesis using ic loop [of st1] by (metis (no_types, lifting))
qed

theorem irq_reaches_event_loop_witness:
  "\<exists>ic st1 es st2. render_irq (demo_end ''serial'' 4)
      [''irq_number'' \<mapsto> Num 3, ''spi_number'' \<mapsto> Num 0] empty_build = Inr (ic, st1) \<and>
    ic_irq ic = PS_INTERRUPT 35 \<and> cap_badge (ic_notification ic) = Some 4 \<and>
    render_dtb_interrupts ''serial'' True [8, 16] [40, 41] st1 = Inr (es, st2) \<and> map di_badge es = [8, 16]"
proof -
  let ?conf = "[''irq_number'' \<mapsto> Num 3, ''spi_number'' \<mapsto> Num 0]"
  have valid: "request_valid (Cap (demo_end ''serial'' 4) False)" by (simp add: demo_end_def)
  have conf: "configured_irq ?conf = Inr (SimpleIRQ 35, PS_INTERRUPT 35)"
    by (simp add: configured_irq_def simple_irq_def get_int_def)
  have inst: "ie_instance (demo_end ''serial'' 4) = ''serial''" by (simp add: demo_end_def)
  obtain ic st1 es st2 where r: "render_irq (demo_end ''serial'' 4) ?conf empty_build = Inr (ic, st1)"
    "cap_badge (ic_notification ic) = Some (ic_badge ic)"
    "render_dtb_interrupts ''serial'' True [8, 16] [40, 41] st1 = Inr (es, st2)" "map di_badge es = [8, 16]"
    using irq_reaches_event_loop [OF build_inv_empty valid conf, of "[40, 41]" "[8, 16]"] inst by auto
  moreover have "ic_irq ic = PS_INTERRUPT 35" "ic_badge ic = 4"
    using r(1) conf by (auto simp: render_irq_def ibind_eq_Inr demo_end_def split: sum.splits prod.splits)
  ultimately show ?thesis by auto
qed

text \<open>The frames of a register region lie side by side, in memory and in the address space.\<close>

lemma register_frames_tile:
  assumes "k < length cs"
  shows "fr_paddr (register_frames paddr n cs ! k) = paddr + k * n \<and>
    fr_vaddr (register_frames paddr n cs ! k) = k * n \<and> fr_cap (register_frames paddr n cs ! k) = cs ! k"
  using assms by (simp add: register_frames_def)

end
