(* ===== verification/PinConnector.thy ===== *)
theory PinConnector
  imports Connectors
begin

text \<open>
  \<open>templates/seL4GPIOServer-from.template.c\<close> and \<open>templates/seL4GPIOServer-to.template.c\<close>: how the pins that
  clients ask for become the tables of both sides. The lookups of the server's side over its table are in
  \<open>GpioServer\<close>.
\<close>

section \<open>Requests\<close>

text \<open>The setting \<open><interface>_pins\<close> of a client: the answers to its query, and the pins of the platform.\<close>

record pin_config =
  pin_query :: "int list option list option"
  all_pins :: "int list"

definition desired_pins :: "pin_config \<Rightarrow> int list rendered" where
  "desired_pins cfg =
     (case pin_query cfg of
        None \<Rightarrow> Inl MissingQuery
      | Some [] \<Rightarrow> Inl MissingQuery
      | Some (None # qs) \<Rightarrow> Inl MissingQuery
      | Some (Some pins # qs) \<Rightarrow> Inr pins)"

text \<open>The client's side: its own pins, which must exist, and the terminated table of them.\<close>

definition client_allocated_pins :: "pin_config option \<Rightarrow> int list rendered" where
  "client_allocated_pins cfg =
     (case cfg of
        None \<Rightarrow> Inr []
      | Some c \<Rightarrow> tbind (desired_pins c) (\<lambda>pins.
          if set pins \<subseteq> set (all_pins c) then Inr pins else Inl NoSuchPin))"

definition get_allocated_pins :: "int list \<Rightarrow> int list" where
  "get_allocated_pins pins = pins @ [-1]"

definition num_allocated_pins :: "int list \<Rightarrow> nat" where
  "num_allocated_pins pins = length pins"

text \<open>The server's side, over all client ends; \<open>setdefault\<close> joins the pins of ends with the same badge.\<close>

fun add_pins :: "u64 \<Rightarrow> int list \<Rightarrow> pin_allocation \<Rightarrow> pin_allocation" where
  "add_pins b pins [] = [(b, pins)]"
| "add_pins b pins ((b', pins') # al) = (if b = b' then (b', pins' @ pins) # al else (b', pins') # add_pins b pins al)"

fun allocate_pins ::
    "(u64 \<times> pin_config option) list \<Rightarrow> int list \<Rightarrow> pin_allocation \<Rightarrow> pin_allocation rendered" where
  "allocate_pins [] all_allocated al = Inr al"
| "allocate_pins ((badge, cfg) # ends) all_allocated al =
     (case cfg of
        None \<Rightarrow> allocate_pins ends all_allocated al
      | Some c \<Rightarrow> tbind (desired_pins c) (\<lambda>pins.
          if set pins \<inter> set all_allocated \<noteq> {} then Inl PinRequestedTwice
          else allocate_pins ends (all_allocated @ pins) (add_pins badge pins al)))"

section \<open>The tables\<close>

lemma get_client_pins_map_of:
  "get_client_pins al b = (case map_of al b of None \<Rightarrow> None | Some pins \<Rightarrow> Some (pins @ [-1]))"
  by (induction al b rule: get_client_pins.induct) auto

lemma num_client_pins_map_of:
  "num_client_pins al b = (case map_of al b of None \<Rightarrow> 0 | Some pins \<Rightarrow> length pins)"
  by (induction al b rule: num_client_pins.induct) auto

lemma map_of_add_pins:
  "map_of (add_pins b pins al) = (map_of al)(b \<mapsto> (case map_of al b of None \<Rightarrow> pins | Some ps \<Rightarrow> ps @ pins))"
  by (induction b pins al rule: add_pins.induct) (auto simp: fun_eq_iff)

lemma fst_add_pins: "fst ` set (add_pins b pins al) = insert b (fst ` set al)"
  by (induction b pins al rule: add_pins.induct) auto

text \<open>A pin belongs to one badge at most, all pins of the table are in \<open>all_allocated\<close>.\<close>

definition pins_inv :: "int list \<Rightarrow> pin_allocation \<Rightarrow> bool" where
  "pins_inv all_allocated al \<longleftrightarrow> distinct (map fst al) \<and>
     (\<forall>b pins. map_of al b = Some pins \<longrightarrow> set pins \<subseteq> set all_allocated) \<and>
     (\<forall>b b' pins pins'. map_of al b = Some pins \<longrightarrow> map_of al b' = Some pins' \<longrightarrow> set pins \<inter> set pins' \<noteq> {} \<longrightarrow> b = b')"

lemma pins_inv_empty: "pins_inv [] []"
  by (simp add: pins_inv_def)

lemma distinct_add_pins:
  assumes "distinct (map fst al)"
  shows "distinct (map fst (add_pins b pins al))"
  using assms
proof (induction b pins al rule: add_pins.induct)
  case (2 b pins b' pins' al)
  have "b' \<notin> set (map fst (add_pins b pins al))" if "b \<noteq> b'"
    using that 2(2) by (simp add: fst_add_pins)
  with 2 show ?case by auto
qed simp

lemma pins_inv_add:
  assumes inv: "pins_inv all al" and new: "set pins \<inter> set all = {}"
  shows "pins_inv (all @ pins) (add_pins b pins al)"
proof -
  have sub: "set ps \<subseteq> set all" if "map_of al c = Some ps" for c ps
    using inv that by (simp add: pins_inv_def)
  have dis: "c = d" if "map_of al c = Some ps" "map_of al d = Some qs" "x \<in> set ps" "x \<in> set qs" for c d ps qs x
    using inv that unfolding pins_inv_def by blast
  have own: "x \<in> set pins \<and> c = b \<or> (\<exists>qs. map_of al c = Some qs \<and> x \<in> set qs)"
    if "map_of (add_pins b pins al) c = Some ps" "x \<in> set ps" for c ps x
    using that by (auto simp: map_of_add_pins split: if_splits option.splits)
  show ?thesis
    unfolding pins_inv_def
  proof (intro conjI allI impI)
    show "distinct (map fst (add_pins b pins al))"
      using inv by (simp add: distinct_add_pins pins_inv_def)
  next
    fix c ps assume "map_of (add_pins b pins al) c = Some ps"
    from own [OF this] sub show "set ps \<subseteq> set (all @ pins)" by fastforce
  next
    fix c d ps qs
    assume c: "map_of (add_pins b pins al) c = Some ps" and d: "map_of (add_pins b pins al) d = Some qs"
      and "set ps \<inter> set qs \<noteq> {}"
    then obtain x where "x \<in> set ps" "x \<in> set qs" by blast
    then consider "c = b" "d = b" | "c \<noteq> b \<or> d \<noteq> b" by blast
    then show "c = d"
    proof cases
      case 2
      have old: "x \<notin> set pins" if "map_of al e = Some rs" "x \<in> set rs" for e rs
        using sub [OF that(1)] that(2) new by blast
      have "\<exists>rs. map_of al e = Some rs \<and> x \<in> set rs" if "x \<notin> set pins" "map_of (add_pins b pins al) e = Some rs" "x \<in> set rs" for e rs
        using own that by blast
      moreover have "x \<notin> set pins"
        using 2 own [OF c \<open>x \<in> set ps\<close>] own [OF d \<open>x \<in> set qs\<close>] old by blast
      ultimately show ?thesis
        using dis c d \<open>x \<in> set ps\<close> \<open>x \<in> set qs\<close> by meson
    qed simp
  qed
qed

text \<open>The fold over the ends keeps the tables and only adds to them.\<close>

lemma allocate_pins_inv:
  assumes "allocate_pins ends all al = Inr al'" and "pins_inv all al"
  shows "\<exists>all'. pins_inv all' al'"
  using assms
proof (induction ends all al rule: allocate_pins.induct)
  case (2 badge cfg ends all al)
  then show ?case
    by (auto simp: tbind_def pins_inv_add split: option.splits sum.splits if_splits)
qed auto

lemma allocate_pins_other:
  assumes "allocate_pins ends all al = Inr al'" and "b \<notin> set (map fst ends)"
  shows "map_of al' b = map_of al b"
  using assms
  by (induction ends all al rule: allocate_pins.induct)
    (auto simp: tbind_def map_of_add_pins split: option.splits sum.splits if_splits)

lemma allocate_pins_own:
  assumes "allocate_pins ends all al = Inr al'" and "distinct (map fst ends)" and "b \<notin> set (map fst al) "
    and "(b, Some cfg) \<in> set ends"
  shows "\<exists>pins. desired_pins cfg = Inr pins \<and> map_of al' b = Some pins"
  using assms
proof (induction ends all al rule: allocate_pins.induct)
  case (2 badge c ends all al)
  show ?case
  proof (cases "b = badge")
    case True
    with 2(4,6) have c: "c = Some cfg" by force
    with 2(3) obtain pins where "desired_pins cfg = Inr pins"
      and run: "allocate_pins ends (all @ pins) (add_pins badge pins al) = Inr al'"
      by (auto simp: tbind_def split: sum.splits if_splits)
    moreover have "map_of al b = None"
      using 2(5) by (simp add: map_of_eq_None_iff)
    ultimately show ?thesis
      using allocate_pins_other [OF run, of b] 2(4) True by (simp add: map_of_add_pins)
  next
    case False
    then have "(b, Some cfg) \<in> set ends" using 2(6) by simp
    moreover have "b \<notin> set (map fst (add_pins badge ps al))" for ps
      using 2(5) False by (simp add: fst_add_pins)
    ultimately show ?thesis
      using 2 by (auto simp: tbind_def split: option.splits sum.splits if_splits)
  qed
qed simp

lemma get_pin_assignee_unique:
  assumes "pins_inv all al" and "map_of al b = Some pins" and "pin \<in> set pins"
  shows "get_pin_assignee al pin = b"
  using assms
proof (induction al pin arbitrary: all rule: get_pin_assignee.induct)
  case (2 b' pins' al pin)
  have d: "distinct (map fst ((b', pins') # al))" using 2(2) by (simp add: pins_inv_def)
  have u: "c = d" if "map_of ((b', pins') # al) c = Some ps" "map_of ((b', pins') # al) d = Some qs"
    "pin \<in> set ps" "pin \<in> set qs" for c d ps qs
    using 2(2) that unfolding pins_inv_def by blast
  show ?case
  proof (cases "pin \<in> set pins'")
    case True
    then show ?thesis using u [of b' pins' b pins] 2(3,4) by simp
  next
    case False
    with 2(3,4) have b: "b \<noteq> b'" "map_of al b = Some pins" by (auto split: if_splits)
    have lift: "map_of ((b', pins') # al) c = Some ps" if "map_of al c = Some ps" for c ps
    proof -
      from that have "c \<in> fst ` set al" by (force dest: map_of_SomeD)
      with d that show ?thesis by auto
    qed
    have "pins_inv all al"
      unfolding pins_inv_def
    proof (intro conjI allI impI)
      show "distinct (map fst al)" using d by simp
    next
      fix c ps assume "map_of al c = Some ps"
      from lift [OF this] 2(2) show "set ps \<subseteq> set all" unfolding pins_inv_def by blast
    next
      fix c c' ps ps'
      assume "map_of al c = Some ps" "map_of al c' = Some ps'" "set ps \<inter> set ps' \<noteq> {}"
      with lift 2(2) show "c = c'" unfolding pins_inv_def by meson
    qed
    then show ?thesis using 2(1) [OF False _ b(2) 2(4)] False by simp
  qed
qed simp

section \<open>Both sides agree\<close>

text \<open>
  GPIO pins are handed out exclusively and both sides of the connector know the same tables: when the connector
  renders over client ends of pairwise different badges, each client that configures pins finds at the server, under
  its badge, the same terminated table and count that its own side holds, and the server answers its badge as the
  assignee of each of its pins.
\<close>

theorem pins_exclusive:
  assumes "allocate_pins ends [] [] = Inr al"
    and "distinct (map fst ends)"
    and "(b, Some cfg) \<in> set ends"
    and "client_allocated_pins (Some cfg) = Inr pins"
  shows "get_client_pins al b = Some (get_allocated_pins pins) \<and>
    num_client_pins al b = num_allocated_pins pins \<and>
    (\<forall>pin\<in>set pins. pin \<in> set (all_pins cfg) \<and> get_pin_assignee al pin = b)"
proof -
  obtain all' where "pins_inv all' al"
    using allocate_pins_inv [OF assms(1) pins_inv_empty] ..
  moreover have m: "map_of al b = Some pins"
    using allocate_pins_own [OF assms(1,2) _ assms(3)] assms(4)
    by (auto simp: client_allocated_pins_def tbind_def split: if_splits)
  moreover have "set pins \<subseteq> set (all_pins cfg)"
    using assms(4) by (auto simp: client_allocated_pins_def tbind_def split: sum.splits if_splits)
  ultimately show ?thesis
    using get_pin_assignee_unique [OF _ m]
    by (auto simp: get_client_pins_map_of num_client_pins_map_of get_allocated_pins_def num_allocated_pins_def)
qed

definition sample_pins :: "int list \<Rightarrow> pin_config" where
  "sample_pins pins = \<lparr>pin_query = Some [Some pins], all_pins = [0, 1, 2, 3]\<rparr>"

theorem pins_exclusive_witness:
  "get_client_pins [(1, [0, 2]), (3, [1])] 3 = Some (get_allocated_pins [1]) \<and>
   num_client_pins [(1, [0, 2]), (3, [1])] 3 = num_allocated_pins [1] \<and>
   (\<forall>pin\<in>set [1]. pin \<in> set (all_pins (sample_pins [1])) \<and> get_pin_assignee [(1, [0, 2]), (3, [1])] pin = 3)"
  by (rule pins_exclusive [where ends = "[(1, Some (sample_pins [0, 2])), (2, None), (3, Some (sample_pins [1]))]"])
    (simp_all add: sample_pins_def desired_pins_def client_allocated_pins_def tbind_def)

lemma pins_requested_twice:
  "allocate_pins [(1, Some (sample_pins [0, 2])), (2, Some (sample_pins [2]))] [] [] = Inl PinRequestedTwice"
  by (simp add: sample_pins_def desired_pins_def tbind_def)

end
