(* ===== verification/Notifier.thy ===== *)
theory Notifier
  imports SingleThreaded
begin

text \<open>
  What the handling of a notification by the event loop of \<open>SingleThreaded\<close> computes, on the component's
  own state and on the signals it asks for, and the way all asynchronous drivers of the repository use it:
  an operation that has work for the other side only sets a flag, and a handler registered last, with badge
  0, calls \<open>notify\<close> and clears the flag. The locale \<open>deferred_notifier\<close> states what such a component
  promises; \<open>PicoSystem\<close> and \<open>EthAsyncSystem\<close> interpret it.
\<close>

section \<open>The effect of a notification\<close>

definition notify_requests :: "action list \<Rightarrow> u64 list" where
  "notify_requests as = List.map_filter (\<lambda>a. case a of Notify k \<Rightarrow> Some k | _ \<Rightarrow> None) as"

lemma notify_requests_simps [simp]:
  "notify_requests [] = []"
  "notify_requests (a # as) = (case a of Notify k \<Rightarrow> [k] | _ \<Rightarrow> []) @ notify_requests as"
  "notify_requests (as @ bs) = notify_requests as @ notify_requests bs"
  by (auto simp: notify_requests_def List.map_filter_def split: action.splits)

text \<open>The handlers of the table that the badge selects, one after the other, on the component's state.\<close>

fun handlers_do :: "('c, 'm) component \<Rightarrow> u64 \<Rightarrow> handlers list \<Rightarrow> 'c \<Rightarrow> 'c \<times> u64 list" where
  "handlers_do C badge [] c = (c, [])"
| "handlers_do C badge (h # hs) c =
     (if badge AND h_badge h = h_badge h then
        let (c1, as) = callback C (callback_handler h) (h_badge h) (h_cookie h) c;
            (c2, ks) = handlers_do C badge hs c1
        in (c2, notify_requests as @ ks)
      else handlers_do C badge hs c)"

definition notification_does :: "('c, 'm) component \<Rightarrow> u64 \<Rightarrow> handlers list \<Rightarrow> 'c \<Rightarrow> 'c \<times> u64 list" where
  "notification_does C badge hs c =
     (let (k, c1, as) = handle_global_endpoint_irq C badge c;
          (c2, ks) = handlers_do C badge hs c1
      in (c2, notify_requests as @ ks))"

lemma handlers_do_append:
  "handlers_do C badge (hs @ hs') c =
     (let (c1, ks) = handlers_do C badge hs c; (c2, ks') = handlers_do C badge hs' c1 in (c2, ks @ ks'))"
  by (induction hs arbitrary: c) (auto simp: Let_def split: prod.splits)

text \<open>The parts of the loop's state that matter here, and how its steps act on them.\<close>

definition view :: "('c, 'm) loop_state \<Rightarrow> 'c \<times> u64 list \<times> handlers list" where
  "view st = (comp st, notifies_of (events st), reg_handlers st)"

lemma TRACE_START_view: "TRACE_START C k st = Inr st' \<Longrightarrow> view st' = view st"
  by (cases "num_traces C") (auto simp: TRACE_START_def view_def Let_def elim!: obind_eq_InrE simp del: TRACE_signal split: if_splits)

lemma TRACE_END_view: "TRACE_END_COUNT C k j st = Inr st' \<Longrightarrow> view st' = view st"
  by (cases "num_traces C") (auto simp: TRACE_END_COUNT_def view_def Let_def elim!: obind_eq_InrE simp del: TRACE_signal split: if_splits)

lemmas TRACE_view = TRACE_START_view TRACE_END_view

lemma run_action_view:
  assumes "run_action C a st = Inr st'" "registers_nothing a"
  shows "view st' = (comp st, notifies_of (events st) @ notify_requests [a], reg_handlers st)"
  using assms(1)
  by (cases rule: run_actionE) (use assms(2) in \<open>simp_all add: view_def notify_deferred_def log_event_def Let_def\<close>)

lemma run_actions_view:
  assumes "run_actions C as st = Inr st'" "list_all registers_nothing as"
  shows "view st' = (comp st, notifies_of (events st) @ notify_requests as, reg_handlers st)"
  using assms
proof (induction as arbitrary: st)
  case Nil
  then show ?case by (simp add: view_def)
next
  case (Cons a as)
  obtain st1 where st1: "run_action C a st = Inr st1" and rest: "run_actions C as st1 = Inr st'"
    using Cons.prems(1) by (auto simp: obind_eq_Inr)
  from run_action_view [OF st1] Cons.IH [OF rest] Cons.prems(2) show ?case
    by (simp add: view_def)
qed

lemma call_callback_view:
  assumes "call_callback C h st = Inr st'" "component_does registers_nothing C"
    and "callback C (callback_handler h) (h_badge h) (h_cookie h) (comp st) = (c, as)"
  shows "view st' = (c, notifies_of (events st) @ notify_requests as, reg_handlers st)"
proof -
  have "run_actions C as (log_event (CallbackCalled (callback_handler h) (h_badge h) (h_cookie h)) (st\<lparr>comp := c\<rparr>)) = Inr st'"
    using assms(1,3) by (simp add: call_callback_def)
  from run_actions_view [OF this component_does_callback [OF assms(2,3)]] show ?thesis
    by (simp add: log_event_def)
qed

lemma handle_irqs_view:
  assumes "handle_irqs C badge st = Inr (k, st')" "component_does registers_nothing C"
    and "handle_global_endpoint_irq C badge (comp st) = (j, c, as)"
  shows "view st' = (c, notifies_of (events st) @ notify_requests as, reg_handlers st)"
proof -
  have "run_actions C as (log_event (IrqsHandled badge) (st\<lparr>comp := c\<rparr>)) = Inr st'"
    using assms(1,3) by (auto simp: handle_irqs_def obind_eq_Inr)
  from run_actions_view [OF this component_does_irq [OF assms(2,3)]] show ?thesis
    by (simp add: log_event_def)
qed

lemma handler_loop_view:
  assumes "handler_loop C badge n i st = Inr st'" "component_does registers_nothing C"
    and "handlers_do C badge (drop i (reg_handlers st)) (comp st) = (c, ks)"
  shows "view st' = (c, notifies_of (events st) @ ks, reg_handlers st)"
  using assms(1,3)
proof (induction n arbitrary: i st c ks)
  case 0
  then show ?case by simp
next
  case (Suc n)
  show ?case
  proof (cases "i < length (reg_handlers st)")
    case False
    with Suc.prems show ?thesis by (auto simp: view_def)
  next
    case True
    define h where "h = reg_handlers st ! i"
    have drop: "drop i (reg_handlers st) = h # drop (Suc i) (reg_handlers st)"
      using True by (simp add: h_def Cons_nth_drop_Suc)
    obtain st1 where st1: "(if badge AND h_badge h = h_badge h then
        obind (TRACE_START C (i + 3) st) (\<lambda>st1. obind (call_callback C h st1) (TRACE_END C (i + 3)))
      else Inr st) = Inr st1" and rest: "handler_loop C badge n (Suc i) st1 = Inr st'"
      using Suc.prems(1) True by (auto simp: Let_def h_def [symmetric] obind_eq_Inr split: if_splits)
    show ?thesis
    proof (cases "badge AND h_badge h = h_badge h")
      case False
      with st1 Suc.IH [OF rest] Suc.prems(2) drop show ?thesis by simp
    next
      case True
      obtain c1 as where cb: "callback C (callback_handler h) (h_badge h) (h_cookie h) (comp st) = (c1, as)"
        by fastforce
      obtain ks' where ks': "handlers_do C badge (drop (Suc i) (reg_handlers st)) c1 = (c, ks')"
        and ks: "ks = notify_requests as @ ks'"
        using Suc.prems(2) drop True cb by (auto simp: Let_def split: prod.splits)
      obtain t u where t: "TRACE_START C (i + 3) st = Inr t" and u: "call_callback C h t = Inr u"
        and e: "TRACE_END C (i + 3) u = Inr st1"
        using st1 True by (auto simp: obind_eq_Inr)
      have "view t = view st" by (rule TRACE_view(1) [OF t])
      then have "view u = (c1, notifies_of (events st) @ notify_requests as, reg_handlers st)"
        using call_callback_view [OF u assms(2)] cb by (simp add: view_def)
      then have v: "view st1 = (c1, notifies_of (events st) @ notify_requests as, reg_handlers st)"
        using TRACE_view(2) [OF e] by simp
      from Suc.IH [OF rest, of c ks'] v ks' ks show ?thesis by (simp add: view_def)
    qed
  qed
qed

text \<open>
  Badges for which an iteration of the loop handles a notification: those that carry the bits of the
  notification base and do not belong to a client of a connection.
\<close>

definition is_notification :: "('c, 'm) component \<Rightarrow> u64 \<Rightarrow> bool" where
  "is_notification C badge \<longleftrightarrow> badge AND notification_base C = notification_base C \<and>
     (badge AND endpoint_base C = endpoint_base C \<longrightarrow> find_connection (connections C) badge = None)"

lemma notification_branch_view:
  assumes "notification_branch C n badge st = Inr st'" "component_does registers_nothing C"
    and "badge AND notification_base C = notification_base C"
    and "notification_does C badge (reg_handlers st) (comp st) = (c, ks)"
  shows "view st' = (c, notifies_of (events st) @ ks, reg_handlers st)"
proof -
  obtain st1 st2 j st3 st4 st5 st6 where
    s1: "TRACE_START C 1 st = Inr st1" and s2: "TRACE_START C 2 st1 = Inr st2"
    and s3: "handle_irqs C badge st2 = Inr (j, st3)" and s4: "TRACE_END_COUNT C 2 j st3 = Inr st4"
    and s5: "handler_loop C badge n 0 st4 = Inr st5" and s6: "TRACE_END C 1 st5 = Inr st6"
    and last: "(if signal_to_send st6 \<noteq> 0 then
         Inr (log_event Recv ((log_event (Signal (signal_to_send st6)) st6)\<lparr>signal_to_send := 0\<rparr>))
       else Inr (log_event Recv st6)) = (Inr st' :: ('a, 'b) loop_state outcome)"
    using assms(1) unfolding notification_branch_def if_P [OF assms(3)] by (auto simp only: obind_eq_Inr split_paired_Ex case_prod_conv)
  obtain k c1 as where irq: "handle_global_endpoint_irq C badge (comp st) = (k, c1, as)" by (metis prod_cases3)
  obtain ks' where do: "handlers_do C badge (reg_handlers st) c1 = (c, ks')" and ks: "ks = notify_requests as @ ks'"
    using assms(4) irq by (auto simp: notification_does_def Let_def split: prod.splits)
  have "view st2 = view st" using TRACE_view(1) [OF s1] TRACE_view(1) [OF s2] by simp
  then have "view st3 = (c1, notifies_of (events st) @ notify_requests as, reg_handlers st)"
    using handle_irqs_view [OF s3 assms(2)] irq by (simp add: view_def)
  then have v4: "view st4 = (c1, notifies_of (events st) @ notify_requests as, reg_handlers st)"
    using TRACE_view(2) [OF s4] by simp
  then have "view st5 = (c, notifies_of (events st) @ ks, reg_handlers st)"
    using handler_loop_view [OF s5 assms(2), of c ks'] do ks by (simp add: view_def)
  then have "view st6 = (c, notifies_of (events st) @ ks, reg_handlers st)"
    using TRACE_view(2) [OF s6] by simp
  then show ?thesis using last by (auto simp: view_def log_event_def split: if_splits)
qed

lemma iteration_notifies:
  assumes step: "loop_iteration C n (badge, info) st = Inr st'" and code: "component_does registers_nothing C"
    and badge: "is_notification C badge"
    and does: "notification_does C badge (reg_handlers st) (comp st) = (c, ks)"
  shows "comp st' = c" "notifies_of (events st') = notifies_of (events st) @ ks" "reg_handlers st' = reg_handlers st"
    "signal_to_send st' = 0"
proof -
  have "\<exists>t. view t = view st \<and> notification_branch C n badge t = Inr st'"
  proof (cases "badge AND endpoint_base C = endpoint_base C")
    case False
    with step show ?thesis by (auto simp: loop_iteration_def)
  next
    case True
    with badge have "find_connection (connections C) badge = None" by (simp add: is_notification_def)
    with step True obtain st1 st3 where "TRACE_START C 0 st = Inr st1" "TRACE_END C 0 st1 = Inr st3"
      "notification_branch C n badge st3 = Inr st'"
      by (auto simp: loop_iteration_def dispatch_message_def obind_eq_Inr)
    then show ?thesis using TRACE_view by metis
  qed
  then obtain t where t: "view t = view st" "notification_branch C n badge t = Inr st'" by blast
  have "view st' = (c, notifies_of (events st) @ ks, reg_handlers st)"
    using notification_branch_view [OF t(2) code, of c ks] badge does t(1) by (simp add: is_notification_def view_def)
  then show "comp st' = c" "notifies_of (events st') = notifies_of (events st) @ ks" "reg_handlers st' = reg_handlers st"
    by (simp_all add: view_def)
  show "signal_to_send st' = 0" by (rule notification_branch_sends [OF t(2)])
qed

section \<open>Invariants of the component's own state\<close>

definition component_keeps :: "('c \<Rightarrow> bool) \<Rightarrow> ('c, 'm) component \<Rightarrow> bool" where
  "component_keeps Q C \<longleftrightarrow>
     (\<forall>f b k c. Q c \<longrightarrow> Q (fst (callback C f b k c))) \<and>
     (\<forall>b c. Q c \<longrightarrow> Q (fst (snd (handle_global_endpoint_irq C b c)))) \<and>
     (\<forall>(bs, f) \<in> set (connections C). \<forall>b \<in> set bs. \<forall>m c r m' c' as. Q c \<longrightarrow> f b m c = Inr (r, m', c', as) \<longrightarrow> Q c')"

lemma handlers_do_keeps:
  "component_keeps Q C \<Longrightarrow> Q c \<Longrightarrow> handlers_do C badge hs c = (c', ks) \<Longrightarrow> Q c'"
proof (induction hs arbitrary: c ks)
  case Nil
  then show ?case by simp
next
  case (Cons h hs)
  have "Q (fst (callback C (callback_handler h) (h_badge h) (h_cookie h) c))"
    using Cons.prems by (simp add: component_keeps_def)
  with Cons show ?case by (auto simp: Let_def split: if_splits prod.splits)
qed

lemma notification_keeps:
  assumes "component_keeps Q C" "Q c" "notification_does C badge hs c = (c', ks)"
  shows "Q c'"
proof -
  obtain k c1 as where irq: "handle_global_endpoint_irq C badge c = (k, c1, as)" by (metis prod_cases3)
  with assms(1,2) have "Q c1" unfolding component_keeps_def by (metis fst_conv snd_conv)
  with assms(3) irq show ?thesis
    by (auto simp: notification_does_def Let_def split: prod.splits intro: handlers_do_keeps [OF assms(1)])
qed

lemma iteration_keeps:
  assumes keeps: "component_keeps Q C" and code: "component_does registers_nothing C"
    and step: "loop_iteration C n (badge, info) st = Inr st'" and Q: "Q (comp st)"
  shows "Q (comp st')"
proof -
  have branch: "Q (comp u)" if run: "notification_branch C n badge t = Inr u" and Qt: "Q (comp t)" for t u
  proof (cases "badge AND notification_base C = notification_base C")
    case True
    obtain c ks where does: "notification_does C badge (reg_handlers t) (comp t) = (c, ks)" by fastforce
    from notification_branch_view [OF run code True does] notification_keeps [OF keeps Qt does]
    show ?thesis by (simp add: view_def)
  next
    case False
    obtain t1 t2 where "TRACE_START C 1 t = Inr t1" "TRACE_END C 1 t1 = Inr t2"
      and u: "(if signal_to_send t2 \<noteq> 0 then
         Inr (log_event Recv ((log_event (Signal (signal_to_send t2)) t2)\<lparr>signal_to_send := 0\<rparr>))
       else Inr (log_event Recv t2)) = (Inr u :: ('a, 'b) loop_state outcome)"
      using run unfolding notification_branch_def if_not_P [OF False] by (auto simp only: obind_eq_Inr obind_Inr)
    then have "view t2 = view t" using TRACE_view by metis
    then have "comp u = comp t" using u by (auto simp: view_def log_event_def split: if_splits)
    with Qt show ?thesis by simp
  qed
  show ?thesis
  proof (cases "badge AND endpoint_base C = endpoint_base C")
    case False
    with step Q branch show ?thesis by (auto simp: loop_iteration_def)
  next
    case True
    then obtain st1 r m st2 st3 where st1: "TRACE_START C 0 st = Inr st1"
      and st2: "dispatch_message C badge info st1 = Inr (r, m, st2)" and st3: "TRACE_END C 0 st2 = Inr st3"
      and rest: "(if r = 1 then Inr (send_response C m st3) else if r = 0 then Inr (log_event Recv st3)
        else notification_branch C n badge st3) = Inr st'"
      using step by (auto simp: loop_iteration_def obind_eq_Inr)
    have "Q (comp st1)" using TRACE_signal(1) [OF st1] Q by simp
    then have "Q (comp st2)"
    proof (cases "find_connection (connections C) badge")
      case None
      with st2 \<open>Q (comp st1)\<close> show ?thesis by (simp add: dispatch_message_def)
    next
      case (Some f)
      obtain bs where bs: "(bs, f) \<in> set (connections C)" "badge \<in> set bs" using find_connection_member [OF Some] by blast
      let ?t = "if realtime C then st1 else st1\<lparr>reply_cap_in_tcb := declare_reply_cap C (reply_cap_in_tcb st1)\<rparr>"
      obtain r' m' c as t where call: "f badge info (comp ?t) = Inr (r', m', c, as)"
        and t: "run_actions C as (?t\<lparr>comp := c\<rparr>) = Inr t" and "st2 = log_event (MessageHandled badge r' m') t"
        using st2 Some by (auto simp: dispatch_message_def obind_eq_Inr Let_def)
      moreover have c1: "comp ?t = comp st1" by simp
      moreover have "Q c" using bs call \<open>Q (comp st1)\<close> keeps unfolding c1 component_keeps_def by fastforce
      moreover have "comp t = c"
        using run_actions_view [OF t component_does_message [OF code Some]] call c1 by (simp add: view_def)
      ultimately show ?thesis by (simp add: log_event_def)
    qed
    then have "Q (comp st3)" using TRACE_signal(2) [OF st3] by simp
    with rest branch show ?thesis
      by (auto simp: send_response_def log_event_def split: if_splits)
  qed
qed

lemma event_loop_keeps:
  assumes "component_keeps Q C" "component_does registers_nothing C"
  shows "event_loop C n ms st = Inr st' \<Longrightarrow> Q (comp st) \<Longrightarrow> Q (comp st')"
  by (induction ms arbitrary: st) (auto simp: obind_eq_Inr dest: iteration_keeps [OF assms])

section \<open>Flags that are announced\<close>

text \<open>The flag's handler is the last of the table and registered for every notification.\<close>

definition announced_last :: "('c \<Rightarrow> 'c \<times> action list) \<Rightarrow> ('c, 'm) component \<Rightarrow> handlers list \<Rightarrow> bool" where
  "announced_last notify_cb C H \<longleftrightarrow> H \<noteq> [] \<and> h_badge (last H) = 0 \<and>
     callback C (callback_handler (last H)) 0 (h_cookie (last H)) = notify_cb"

text \<open>
  What a driver with a deferred notification promises: \<open>notify_cb\<close> clears its flag and asks for the signal
  \<open>ntfn\<close> when it was set, unless the code has stopped the component (\<open>failed\<close>).
\<close>

locale deferred_notifier =
  fixes dirty :: "'c \<Rightarrow> bool" and failed :: "'c \<Rightarrow> bool"
    and notify_cb :: "'c \<Rightarrow> 'c \<times> action list" and ntfn :: u64
  assumes clears: "notify_cb c = (c', as) \<Longrightarrow> \<not> dirty c'"
    and asks: "notify_cb c = (c', as) \<Longrightarrow> dirty c \<Longrightarrow> \<not> failed c' \<Longrightarrow> ntfn \<in> set (notify_requests as)"
begin

lemma last_handler_announces:
  assumes "announced_last notify_cb C H" and "notification_does C badge (butlast H) c = (c1, ks1)"
  obtains c2 ks2 where "notification_does C badge H c = (c2, ks1 @ ks2)" "c2 = fst (notify_cb c1)" "\<not> dirty c2"
    "dirty c1 \<Longrightarrow> \<not> failed c2 \<Longrightarrow> ntfn \<in> set ks2"
proof -
  have H: "H = butlast H @ [last H]" using assms(1) by (simp add: announced_last_def)
  obtain c2 as where cb: "notify_cb c1 = (c2, as)" by fastforce
  have "handlers_do C badge [last H] c1 = (c2, notify_requests as)"
    using assms(1) cb by (simp add: announced_last_def)
  then have "notification_does C badge (butlast H @ [last H]) c = (c2, ks1 @ notify_requests as)"
    using assms(2) by (auto simp: notification_does_def handlers_do_append Let_def split: prod.splits)
  then have "notification_does C badge H c = (c2, ks1 @ notify_requests as)"
    using H by simp
  then show thesis using cb clears [OF cb] asks [OF cb] by (intro that) simp_all
qed

lemma announces:
  assumes code: "component_does registers_nothing C" "component_does cap_ok C" "handlers_return V C"
    and st: "ready C n st" "signals_conserved st" and H: "announced_last notify_cb C (reg_handlers st)"
    and ms: "\<forall>m \<in> set ms. V (snd m)" "V info" and badge: "is_notification C badge"
  shows "\<exists>st1 c1 ks1 ks2 st'. event_loop C n ms st = Inr st1 \<and> loop_iteration C n (badge, info) st1 = Inr st' \<and>
    notification_does C badge (butlast (reg_handlers st)) (comp st1) = (c1, ks1) \<and>
    comp st' = fst (notify_cb c1) \<and> \<not> dirty (comp st') \<and> (dirty c1 \<longrightarrow> \<not> failed (comp st') \<longrightarrow> ntfn \<in> set ks2) \<and>
    signals_of (events st') = signals_of (events st1) @ pending_signal st1 @ ks1 @ ks2"
proof -
  obtain st1 where st1: "event_loop C n ms st = Inr st1" and ready: "ready C n st1"
    using event_loop_ok [OF code(1,3) st(1) ms(1)] by blast
  have H1: "reg_handlers st1 = reg_handlers st"
    using table.loop [OF code(1) _ st1, where H = "reg_handlers st" and N = "length (trace_points st)"] by simp
  have sig1: "signals_conserved st1" by (rule signals.loop [OF code(2) st(2) st1])
  obtain st' where st': "loop_iteration C n (badge, info) st1 = Inr st'"
    by (rule iteration_ok [OF code(1,3) ready ms(2)])
  obtain c1 ks1 where c1: "notification_does C badge (butlast (reg_handlers st)) (comp st1) = (c1, ks1)" by fastforce
  obtain c2 ks2 where c2: "notification_does C badge (reg_handlers st) (comp st1) = (c2, ks1 @ ks2)"
    and flag: "c2 = fst (notify_cb c1)" "\<not> dirty c2" "dirty c1 \<Longrightarrow> \<not> failed c2 \<Longrightarrow> ntfn \<in> set ks2"
    by (rule last_handler_announces [OF H c1]) blast
  note view = iteration_notifies [OF st' code(1) badge c2 [folded H1]]
  have "signals_conserved st'" by (rule signals.iteration [OF code(2) sig1 st'])
  then have "signals_of (events st') = signals_of (events st1) @ pending_signal st1 @ ks1 @ ks2"
    using view(2,4) sig1 by (simp add: signals_conserved_def pending_signal_def)
  moreover have "comp st' = fst (notify_cb c1)" "\<not> dirty (comp st')" "dirty c1 \<longrightarrow> \<not> failed (comp st') \<longrightarrow> ntfn \<in> set ks2"
    using flag view(1) by simp_all
  ultimately show ?thesis using st1 st' c1 by blast
qed

end

end
