(* ===== verification/PicoSystem.thy ===== *)
theory PicoSystem
  imports PicoServer Notifier
begin

text \<open>
  The component \<open>PicoServer\<close> (\<open>components/PicoServer/PicoServer.camkes\<close>) put together: the socket server of
  \<open>PicoServer.thy\<close> and the base of the TCP/IP stack,
  \<open>components/modules/picotcp-base/picotcp-init.c\<close>, as handlers and initialisation modules of the event
  loop of \<open>SingleThreaded\<close>.

  The stack calls the server back while it ticks; which sockets it calls for, \<open>stack_events\<close>, is part of
  its behaviour and a parameter, as are the answers of the time server, the other modules of the component
  and its connections. A fault of the component's code stops it: its state is an \<open>outcome\<close>.
\<close>

section \<open>The component's state\<close>

text \<open>Calls to the stack that set up the network, and to the time server.\<close>

datatype setup_call =
    RouteAdd u32 u32 u32          \<comment> \<open>\<open>pico_ipv4_route_add\<close>: address, netmask, gateway\<close>
  | LinkAdd ptr u32 u32           \<comment> \<open>\<open>pico_ipv4_link_add\<close>: device, address, netmask\<close>
  | InitiateDhcp ptr
  | TimerPeriodic int u64

record pico_comp =
  srv :: server
  pico_ms_tick :: u32
  timer_reads :: nat
  multicast_addr :: string
  setup_calls :: "setup_call list"

record pico_params =
  p_env :: pico_env
  p_fuel :: nat
  p_alloc :: kalloc
  stack_events :: "pico_call list \<Rightarrow> (u16 \<times> ptr) list"
  timer_time :: "nat \<Rightarrow> u64"
  eth0 :: ptr
  string_to_ipv4 :: "string \<Rightarrow> u32"
  dhcp_initiates :: bool
  tx_notification :: u64

section \<open>\<open>picotcp-init.c\<close>\<close>

abbreviation NS_IN_MS :: u64 where "NS_IN_MS \<equiv> 1000000"

abbreviation PICO_TICK_MS :: u64 where "PICO_TICK_MS \<equiv> 10"

definition clk_get_time :: "pico_comp \<Rightarrow> cint" where
  "clk_get_time c =
     (let time_in_ms = ucast (pico_ms_tick c) :: u64
      in ucast (time_in_ms AND 0xFFFFFFFF))"

fun socket_cbs :: "pico_params \<Rightarrow> (u16 \<times> ptr) list \<Rightarrow> server \<Rightarrow> server outcome" where
  "socket_cbs P [] sv = Inr sv"
| "socket_cbs P ((ev, addr) # es) sv =
     obind (socket_cb (p_env P) (p_fuel P) (p_alloc P) sv ev addr) (socket_cbs P es)"

definition pico_stack_tick :: "pico_params \<Rightarrow> server \<Rightarrow> server outcome" where
  "pico_stack_tick P sv =
     (let sv1 = fst (call (p_env P) sv PicoTick)
      in socket_cbs P (stack_events P (trace sv1)) sv1)"

definition stack_tick_callback :: "pico_params \<Rightarrow> pico_comp \<Rightarrow> pico_comp outcome" where
  "stack_tick_callback P c =
     (let c1 = c\<lparr>pico_ms_tick := ucast (timer_time P (timer_reads c) div NS_IN_MS),
                 timer_reads := timer_reads c + 1\<rparr>
      in obind (pico_stack_tick P (srv c1)) (\<lambda>sv. Inr (c1\<lparr>srv := sv\<rparr>)))"

text \<open>What DHCP has agreed on; a multicast address is only reported as not implemented.\<close>

datatype dhcp_code = PICO_DHCP_SUCCESS | PICO_DHCP_ERROR | PICO_DHCP_RESET

definition dhcp_callback ::
    "pico_params \<Rightarrow> dhcp_code \<Rightarrow> u32 \<times> u32 \<times> u32 \<Rightarrow> pico_comp \<Rightarrow> pico_comp outcome" where
  "dhcp_callback P code agreed c =
     obind (ensure (code \<noteq> PICO_DHCP_ERROR) Fatal) (\<lambda>_.
       case code of
         PICO_DHCP_SUCCESS \<Rightarrow>
           (case agreed of (address, gateway, netmask) \<Rightarrow>
              Inr (c\<lparr>setup_calls := setup_calls c @ [RouteAdd 0 0 gateway, LinkAdd (eth0 P) address netmask]\<rparr>))
       | _ \<Rightarrow> Inr c)"

definition eth_init_custom_ip :: "pico_params \<Rightarrow> ptr \<Rightarrow> string \<Rightarrow> pico_comp \<Rightarrow> pico_comp" where
  "eth_init_custom_ip P dev ip_addr c =
     (let gw = string_to_ipv4 P ''0.0.0.0'';
          ipaddr = string_to_ipv4 P ip_addr;
          netmask = string_to_ipv4 P ''255.255.255.0''
      in c\<lparr>setup_calls := setup_calls c @ [RouteAdd 0 0 gw, LinkAdd dev ipaddr netmask]\<rparr>)"

section \<open>Handlers and modules\<close>

abbreviation (input) CLIENT_EVENT :: nat where "CLIENT_EVENT \<equiv> 1"

abbreviation (input) NOTIFY_CLIENT :: nat where "NOTIFY_CLIENT \<equiv> 2"

abbreviation (input) STACK_TICK :: nat where "STACK_TICK \<equiv> 3"

definition init_pico_post ::
    "pico_params \<Rightarrow> u64 \<Rightarrow> string \<Rightarrow> string \<Rightarrow> pico_comp outcome module" where
  "init_pico_post P timer_badge ip_addr multicast c =
     (let c1 = obind c (\<lambda>s.
            let s1 = s\<lparr>multicast_addr := multicast\<rparr> in
            if ip_addr \<noteq> [] then Inr (eth_init_custom_ip P (eth0 P) ip_addr s1)
            else obind (ensure (dhcp_initiates P) Fatal) (\<lambda>_.
              Inr (s1\<lparr>setup_calls := setup_calls s1 @ [InitiateDhcp (eth0 P)]\<rparr>)))
      in case c1 of
           Inl e \<Rightarrow> (0, Inl e, [])
         | Inr s \<Rightarrow>
             (0, Inr (s\<lparr>setup_calls := setup_calls s @ [TimerPeriodic 0 (NS_IN_MS * PICO_TICK_MS)]\<rparr>),
              [RegisterHandler \<lparr>h_badge = timer_badge, callback_handler = STACK_TICK, h_cookie = 0,
                                h_name = Some ''pico_server_tick''\<rparr>]))"

text \<open>
  The modules of the socket server (\<open>picotcp_socket_sync_server_init\<close> and the late one), and its handlers.
  The virtqueue's \<open>notify\<close> is the deferred one.
\<close>

definition init_server_pre :: "cint \<Rightarrow> nat \<Rightarrow> cint \<Rightarrow> cint \<Rightarrow> u64 \<Rightarrow> pico_comp outcome module" where
  "init_server_pre n_clients num_registered tx_id rx_id tx_badge c =
     (case c of
        Inl e \<Rightarrow> (0, Inl e, [])
      | Inr s \<Rightarrow>
          let (sv, queues) = picotcp_socket_sync_server_init n_clients num_registered tx_id rx_id
          in (0, Inr (s\<lparr>srv := sv\<rparr>),
              if queues then
                [RegisterHandler \<lparr>h_badge = tx_badge, callback_handler = CLIENT_EVENT, h_cookie = 0,
                                  h_name = Some ''client_event_handler''\<rparr>]
              else []))"

definition picotcp_socket_sync_server_init_late :: "pico_comp outcome module" where
  "picotcp_socket_sync_server_init_late c =
     (0, c, [RegisterHandler \<lparr>h_badge = 0, callback_handler = NOTIFY_CLIENT, h_cookie = 0,
                              h_name = Some ''notify_client''\<rparr>])"

definition client_event :: "pico_params \<Rightarrow> pico_comp \<Rightarrow> pico_comp outcome" where
  "client_event P c =
     obind (tx_queue_handle_irq (p_env P) (srv c)) (\<lambda>sv1.
     obind (socket_cbs P (stack_events P (trace sv1)) sv1) (\<lambda>sv2. Inr (c\<lparr>srv := sv2\<rparr>)))"

definition notify_client_cb :: "pico_params \<Rightarrow> pico_comp outcome \<Rightarrow> pico_comp outcome \<times> action list" where
  "notify_client_cb P c =
     (case c of
        Inl e \<Rightarrow> (Inl e, [])
      | Inr s \<Rightarrow> (Inr (s\<lparr>srv := notify_client (srv s)\<rparr>),
                 if emit_client_async (srv s) then [Notify (tx_notification P)] else []))"

text \<open>The callbacks; \<open>others\<close> are those of the component's other modules, on the server's state.\<close>

definition pico_callback ::
    "pico_params \<Rightarrow> (nat \<Rightarrow> u64 \<Rightarrow> nat \<Rightarrow> server \<Rightarrow> server outcome) \<Rightarrow>
     nat \<Rightarrow> u64 \<Rightarrow> nat \<Rightarrow> pico_comp outcome \<Rightarrow> pico_comp outcome \<times> action list" where
  "pico_callback P others f b k =
     (if f = NOTIFY_CLIENT then notify_client_cb P
      else if f = CLIENT_EVENT then (\<lambda>c. (obind c (client_event P), []))
      else if f = STACK_TICK then (\<lambda>c. (obind c (stack_tick_callback P), []))
      else (\<lambda>c. (obind c (\<lambda>s. obind (others f b k (srv s)) (\<lambda>sv. Inr (s\<lparr>srv := sv\<rparr>))), [])))"

section \<open>The component\<close>

text \<open>
  The rest of the component \<open>C\<close>: its connections, interrupts and settings. The other modules may run before
  and after those of the server, whose late module is the last one.
\<close>

definition pico_component ::
    "pico_params \<Rightarrow> (nat \<Rightarrow> u64 \<Rightarrow> nat \<Rightarrow> server \<Rightarrow> server outcome) \<Rightarrow>
     (pico_comp outcome, 'm) component \<Rightarrow> (pico_comp outcome, 'm) component" where
  "pico_component P others C = C\<lparr>callback := pico_callback P others\<rparr>"

definition boot ::
    "(pico_comp outcome, 'm) component \<Rightarrow> pico_comp outcome module list \<Rightarrow> pico_comp outcome module list \<Rightarrow>
     (pico_comp outcome, 'm) loop_state \<Rightarrow> (int list \<times> (pico_comp outcome, 'm) loop_state) outcome" where
  "boot C before after st =
     call_modules C (before @ after @ [picotcp_socket_sync_server_init_late]) st"

section \<open>Deferred notifications of the socket server\<close>

lemma notify_client_clears [simp]:
  "emit_client (notify_client sv) = False" "emit_client_async (notify_client sv) = False"
  by (simp_all add: notify_client_def)

text \<open>The server as a \<open>deferred_notifier\<close>: the flag of the transmit virtqueue.\<close>

fun queue_dirty :: "pico_comp outcome \<Rightarrow> bool" where
  "queue_dirty (Inl e) \<longleftrightarrow> False"
| "queue_dirty (Inr s) \<longleftrightarrow> emit_client_async (srv s)"

interpretation pico_queue: deferred_notifier queue_dirty "\<lambda>c. \<exists>e. c = Inl e" "notify_client_cb P" "tx_notification P" for P
proof (unfold_locales, goal_cases)
  case (1 c c' as)
  then show ?case by (cases c) (auto simp: notify_client_cb_def)
next
  case (2 c c' as)
  then show ?case by (cases c) (auto simp: notify_client_cb_def)
qed

lemma pico_component_simps [simp]:
  "callback (pico_component P others C) = pico_callback P others"
  "handle_global_endpoint_irq (pico_component P others C) = handle_global_endpoint_irq C"
  "connections (pico_component P others C) = connections C"
  by (simp_all add: pico_component_def)

lemma pico_component_does:
  assumes "component_does A C" "A (Notify (tx_notification P))"
  shows "component_does A (pico_component P others C)"
  using assms by (auto simp: component_does_def pico_callback_def notify_client_cb_def split: sum.splits)

lemma boot_announces:
  assumes "boot (pico_component P others C) before after st = Inr (errs, st')"
  shows "announced_last (notify_client_cb P) (pico_component P others C) (reg_handlers st')"
  using assms unfolding boot_def append_assoc [symmetric] call_modules_append
  by (auto simp: obind_eq_Inr picotcp_socket_sync_server_init_late_def announced_last_def
        single_threaded_component_register_handler_def pico_component_def pico_callback_def)

lemma boot_conserves:
  assumes run: "boot (pico_component P others C) before after st = Inr (errs, st')"
    and mods: "\<forall>f \<in> set (before @ after). \<forall>c. list_all cap_ok (snd (snd (f c)))"
    and st: "events st = []" "signal_to_send st = 0"
  shows "signals_conserved st'"
proof -
  have "\<forall>f \<in> set (before @ after @ [picotcp_socket_sync_server_init_late]). \<forall>c. list_all cap_ok (snd (snd (f c)))"
    using mods by (auto simp: picotcp_socket_sync_server_init_late_def)
  moreover have "signals_conserved st" using st by (simp add: signals_conserved_def pending_signal_def)
  ultimately show ?thesis by (rule signals.modules [OF _ _ run [unfolded boot_def]])
qed

section \<open>Properties\<close>


text \<open>The clock: each tick handler reads the time server once.\<close>

definition tick_handlers :: "u64 \<Rightarrow> handlers list \<Rightarrow> handlers list" where
  "tick_handlers badge hs = filter (\<lambda>h. badge AND h_badge h = h_badge h \<and> callback_handler h = STACK_TICK) hs"

definition clock_at :: "pico_params \<Rightarrow> nat \<Rightarrow> u32" where
  "clock_at P k = ucast (timer_time P k div NS_IN_MS)"

lemma pico_callback_clock:
  assumes "pico_callback P others f b k c = (Inr s', as)"
  obtains s where "c = Inr s"
    "(pico_ms_tick s', timer_reads s') =
       (if f = STACK_TICK then (clock_at P (timer_reads s), timer_reads s + 1) else (pico_ms_tick s, timer_reads s))"
  using assms
  by (cases c) (auto simp: pico_callback_def notify_client_cb_def client_event_def stack_tick_callback_def
      clock_at_def obind_eq_Inr Let_def split: if_splits)

lemma handlers_do_clock:
  assumes "handlers_do (pico_component P others C) badge hs (Inr s) = (Inr s', ks)"
  shows "timer_reads s' = timer_reads s + length (tick_handlers badge hs) \<and>
    pico_ms_tick s' = (if tick_handlers badge hs = [] then pico_ms_tick s else clock_at P (timer_reads s' - 1))"
  using assms
proof (induction hs arbitrary: s ks)
  case Nil
  then show ?case by (simp add: tick_handlers_def)
next
  case (Cons h hs)
  have stuck: "fst (handlers_do (pico_component P others C) badge hs (Inl e)) \<noteq> Inr s'" for e
    by (induction hs) (auto simp: pico_callback_def notify_client_cb_def Let_def)
  show ?case
  proof (cases "badge AND h_badge h = h_badge h")
    case False
    with Cons show ?thesis by (simp add: tick_handlers_def)
  next
    case True
    obtain c1 as where cb: "pico_callback P others (callback_handler h) (h_badge h) (h_cookie h) (Inr s) = (c1, as)"
      by fastforce
    obtain ks' where rest: "handlers_do (pico_component P others C) badge hs c1 = (Inr s', ks')"
      using Cons.prems True cb by (auto simp: Let_def split: prod.splits)
    obtain s1 where s1: "c1 = Inr s1"
    proof (cases c1)
      case (Inl e)
      with rest stuck [of e] show ?thesis by simp
    qed simp
    from pico_callback_clock [OF cb [unfolded s1]]
    have "(pico_ms_tick s1, timer_reads s1) = (if callback_handler h = STACK_TICK
        then (clock_at P (timer_reads s), timer_reads s + 1) else (pico_ms_tick s, timer_reads s))"
      by force
    with Cons.IH [OF rest [unfolded s1]] True show ?thesis
      by (auto simp: tick_handlers_def split: if_splits)
  qed
qed

lemma uint_clock_at: "uint (clock_at P k) = uint (timer_time P k) div 1000000 mod 2 ^ 32"
  unfolding clock_at_def unsigned_ucast_eq by (simp add: take_bit_eq_mod uint_div)

lemma shift_mod:
  fixes v :: int
  assumes "0 \<le> v" "v < 2 ^ 32"
  shows "(v + 2 ^ 31) mod 2 ^ 32 = (if v < 2 ^ 31 then v + 2 ^ 31 else v - 2 ^ 31)"
proof (cases "v < 2 ^ 31")
  case True
  with assms show ?thesis by (simp add: mod_pos_pos_trivial)
next
  case False
  have "(v + 2 ^ 31) mod 2 ^ 32 = (v - 2 ^ 31 + 2 ^ 32) mod 2 ^ 32"
    by (rule arg_cong [where f = "\<lambda>x. x mod 2 ^ 32"]) simp
  also have "\<dots> = v - 2 ^ 31" unfolding mod_add_self2 using assms False by (intro mod_pos_pos_trivial) simp_all
  finally show ?thesis using False by simp
qed

lemma sint_u32: "sint (w :: u32) = (if uint w < 2 ^ 31 then uint w else uint w - 2 ^ 32)"
proof -
  have "sint w = signed_take_bit 31 (uint w)" by (simp add: sint_uint)
  also have "\<dots> = take_bit (Suc 31) (uint w + 2 ^ 31) - 2 ^ 31"
    by (rule signed_take_bit_eq_take_bit_shift)
  also have "take_bit (Suc 31) (uint w + 2 ^ 31) = (uint w + 2 ^ 31) mod 2 ^ 32"
    unfolding take_bit_eq_mod by (rule arg_cong [of _ _ "\<lambda>m. _ mod m"]) simp
  also have "\<dots> = (if uint w < 2 ^ 31 then uint w + 2 ^ 31 else uint w - 2 ^ 31)"
    using uint_lt2p [of w] by (intro shift_mod) simp_all
  finally show ?thesis by (simp split: if_splits)
qed

lemma clk_get_time_eq: "clk_get_time c = pico_ms_tick c"
proof -
  have "(ucast (pico_ms_tick c) :: u64) AND 0xFFFFFFFF = ucast (pico_ms_tick c)"
  proof -
    have "(0xFFFFFFFF :: u64) = mask 32" by (simp add: mask_eq_exp_minus_1)
    moreover have "take_bit 32 (ucast (pico_ms_tick c) :: u64) = ucast (pico_ms_tick c)"
      by (rule bit_word_eqI) (auto simp: bit_simps dest: bit_imp_le_length)
    ultimately show ?thesis by (simp add: take_bit_eq_mask)
  qed
  moreover have "(ucast (ucast (pico_ms_tick c) :: u64) :: cint) = pico_ms_tick c"
    by (rule bit_word_eqI) (auto simp: bit_simps)
  ultimately show ?thesis by (simp add: clk_get_time_def)
qed

text \<open>
  C35. The stack's clock follows the time server: after every notification that carries the badge of a registered
  tick handler, the millisecond counter is the time read at that notification, in milliseconds and modulo
  \<open>2 ^ 32\<close>, and \<open>clk_get_time\<close> returns it, but as a negative number from \<open>2 ^ 31\<close> milliseconds (about 25
  days) on.
\<close>

theorem pico_clock_follows_timer:
  assumes D: "D = pico_component P others C" and code: "component_does registers_nothing C"
    and step: "loop_iteration D n (badge, info) st = Inr st'" and badge: "is_notification D badge"
    and h: "h \<in> set (reg_handlers st)" "callback_handler h = STACK_TICK" "badge AND h_badge h = h_badge h"
    and irq: "fst (snd (handle_global_endpoint_irq C badge (comp st))) = Inr s" and s': "comp st' = Inr s'"
  shows "\<exists>k. timer_reads s \<le> k \<and> timer_reads s' = k + 1 \<and>
    (let ms = uint (timer_time P k) div 1000000 mod 2 ^ 32
     in uint (pico_ms_tick s') = ms \<and> sint (clk_get_time s') = (if ms < 2 ^ 31 then ms else ms - 2 ^ 32))"
proof -
  obtain c ks where does: "notification_does D badge (reg_handlers st) (comp st) = (c, ks)" by fastforce
  have code': "component_does registers_nothing D"
    using code by (simp add: D pico_component_does)
  have c: "c = Inr s'" using iteration_notifies(1) [OF step code' badge does] s' by simp
  obtain j as where irq': "handle_global_endpoint_irq C badge (comp st) = (j, Inr s, as)"
    using irq by (metis prod.collapse)
  obtain ks' where "handlers_do D badge (reg_handlers st) (Inr s) = (Inr s', ks')"
    using does irq' c by (auto simp: notification_does_def D split: prod.splits)
  note clock = handlers_do_clock [OF this [unfolded D]]
  have "tick_handlers badge (reg_handlers st) \<noteq> []"
    using h by (auto simp: tick_handlers_def filter_empty_conv)
  moreover have "timer_reads s \<le> timer_reads s' - 1 \<and> timer_reads s' = timer_reads s' - 1 + 1"
    using clock calculation by (cases "tick_handlers badge (reg_handlers st)") auto
  ultimately show ?thesis
    using clock by (intro exI [of _ "timer_reads s' - 1"])
      (simp add: Let_def uint_clock_at clk_get_time_eq sint_u32)
qed

section \<open>An instance\<close>

definition sample_params :: pico_params where
  "sample_params =
     \<lparr>p_env = sample_env, p_fuel = 3, p_alloc = \<lparr>flags_ok = True, keys_ok = True, vals_ok = True\<rparr>,
      stack_events = (\<lambda>tr. []), timer_time = (\<lambda>k. 3000000000 * of_nat (k + 1)), eth0 = 8,
      string_to_ipv4 = (\<lambda>_. 1), dhcp_initiates = True, tx_notification = 9\<rparr>"

definition sample_rest :: "(pico_comp outcome, unit) component" where
  "sample_rest =
     \<lparr>callback = (\<lambda>f b k c. (c, [])), handle_global_endpoint_irq = (\<lambda>b c. (0, c, [])), connections = [],
      notification_base = 1, endpoint_base = 256, realtime = False, num_traces = None,
      realloc_ok = (\<lambda>_. True), declare_reply_cap = (\<lambda>_. True)\<rparr>"

definition sample_comp :: pico_comp where
  "sample_comp =
     \<lparr>srv = fst (picotcp_socket_sync_server_init 2 2 0 1), pico_ms_tick = 0, timer_reads = 0, multicast_addr = [],
      setup_calls = []\<rparr>"

definition sample_loop :: "(pico_comp outcome, unit) loop_state" where
  "sample_loop =
     \<lparr>reg_handlers = [], trace_points = [], ccnt = of_nat, ccnt_reads = 0, signal_to_send = 0,
      reply_cap_in_tcb = False, comp = Inr sample_comp, events = []\<rparr>"

abbreviation sample_system :: "(pico_comp outcome, unit) component" where
  "sample_system \<equiv> pico_component sample_params (\<lambda>f b k sv. Inr sv) sample_rest"

abbreviation sample_pre :: "pico_comp outcome module" where
  "sample_pre \<equiv> init_server_pre 2 2 0 1 5"

abbreviation sample_post :: "pico_comp outcome module" where
  "sample_post \<equiv> init_pico_post sample_params 3 ''10.0.0.2'' []"

lemma pico_sample_rest_ok:
  "component_does A sample_rest" "handlers_return V sample_rest"
  by (simp_all add: component_does_def handlers_return_def sample_rest_def)

definition sample_booted :: "(pico_comp outcome, unit) loop_state" where
  "sample_booted =
     sample_loop\<lparr>reg_handlers :=
        [\<lparr>h_badge = 5, callback_handler = CLIENT_EVENT, h_cookie = 0, h_name = Some ''client_event_handler''\<rparr>,
         \<lparr>h_badge = 3, callback_handler = STACK_TICK, h_cookie = 0, h_name = Some ''pico_server_tick''\<rparr>,
         \<lparr>h_badge = 0, callback_handler = NOTIFY_CLIENT, h_cookie = 0, h_name = Some ''notify_client''\<rparr>],
       comp := Inr (sample_comp\<lparr>setup_calls := [RouteAdd 0 0 1, LinkAdd 8 1 1, TimerPeriodic 0 10000000]\<rparr>)\<rparr>"

lemma sample_boot: "boot sample_system [sample_pre] [sample_post] sample_loop = Inr ([], sample_booted)"
  by (simp add: boot_def init_server_pre_def init_pico_post_def picotcp_socket_sync_server_init_late_def
      picotcp_socket_sync_server_init_def sample_loop_def sample_booted_def sample_comp_def eth_init_custom_ip_def
      single_threaded_component_register_handler_def sample_params_def pico_component_def sample_rest_def Let_def)

lemma sample_ready:
  "ready sample_system 4 sample_booted" "is_notification sample_system 3" "is_notification sample_system 5"
  by (simp_all add: ready_def traces_ok_def is_notification_def pico_component_def sample_rest_def sample_booted_def)


theorem pico_clock_follows_timer_witness:
  "\<exists>st' s'. loop_iteration sample_system 4 (3, ()) sample_booted = Inr st' \<and> comp st' = Inr s' \<and>
    uint (pico_ms_tick s') = 3000 \<and> sint (clk_get_time s') = 3000"
proof -
  have code: "component_does registers_nothing sample_system"
    by (simp add: pico_component_does pico_sample_rest_ok)
  have conns: "handlers_return (\<lambda>_. True) sample_system"
    by (simp add: handlers_return_def sample_rest_def)
  obtain st' where st': "loop_iteration sample_system 4 (3, ()) sample_booted = Inr st'"
    by (rule iteration_ok [OF code conns sample_ready(1), where info = "()"]) simp_all
  obtain s where s: "comp sample_booted = Inr s" "timer_reads s = 0" by (simp add: sample_booted_def sample_comp_def)
  obtain s' ks where "notification_does sample_system 3 (reg_handlers sample_booted) (comp sample_booted) = (Inr s', ks)"
    and one: "timer_reads s' = 1"
    by (simp add: notification_does_def sample_booted_def sample_rest_def pico_callback_def notify_client_cb_def
        stack_tick_callback_def pico_stack_tick_def sample_params_def sample_comp_def Let_def)
  note run = iteration_notifies [OF st' code sample_ready(2) this(1)]
  let ?h = "\<lparr>h_badge = 3, callback_handler = STACK_TICK, h_cookie = 0, h_name = Some ''pico_server_tick''\<rparr>"
  have h: "?h \<in> set (reg_handlers sample_booted)" "callback_handler ?h = STACK_TICK" "(3 :: u64) AND h_badge ?h = h_badge ?h"
    by (simp_all add: sample_booted_def)
  have irq: "fst (snd (handle_global_endpoint_irq sample_rest 3 (comp sample_booted))) = Inr s"
    using s(1) by (simp add: sample_rest_def)
  obtain k where "timer_reads s' = k + 1" "uint (pico_ms_tick s') = uint (timer_time sample_params k) div 1000000 mod 2 ^ 32"
    "sint (clk_get_time s') = (let ms = uint (timer_time sample_params k) div 1000000 mod 2 ^ 32
       in if ms < 2 ^ 31 then ms else ms - 2 ^ 32)"
    using pico_clock_follows_timer [OF refl pico_sample_rest_ok(1) st' sample_ready(2) h irq run(1)]
    by (auto simp: Let_def)
  moreover from this one have "k = 0" by simp
  ultimately show ?thesis using st' run(1) by (intro exI [of _ st'] exI [of _ s']) (simp add: sample_params_def)
qed

end
