(* ===== verification/EthAsyncSystem.thy ===== *)
theory EthAsyncSystem
  imports EthAsync Notifier
begin

text \<open>
  The two ends of the asynchronous Ethernet transport (\<open>EthAsync\<close>) as parts of components with a single
  thread: the handlers that \<open>remote-drivers/picotcp-ethernet-async/server.c\<close> and \<open>client.c\<close> register run
  in the event loop of \<open>SingleThreaded\<close>, their initialisation functions are modules of it.

  Driver interrupts reach the server through the component's interrupts: \<open>irq_callbacks\<close> are the callbacks
  the driver makes then. Before a notification is handled the client may have moved the shared queues on,
  by \<open>client_moves\<close>. A fault stops the component: its state is an \<open>outcome\<close>.
\<close>

section \<open>The server\<close>

abbreviation (input) QUEUE_EVENT :: nat where "QUEUE_EVENT \<equiv> 1"

abbreviation (input) NOTIFY_OTHER :: nat where "NOTIFY_OTHER \<equiv> 2"

record 'v eth_server_params =
  es_lib :: "'v vq_lib"
  es_dp :: dataports
  es_hw :: eth_hw
  irq_callbacks :: "u64 \<Rightarrow> hw_event list \<Rightarrow> callback list"
  client_moves :: "u64 \<Rightarrow> 'v server_data \<Rightarrow> 'v server_data"
  client_notification :: u64

definition notify_client_cb ::
    "'v eth_server_params \<Rightarrow> 'v server_data outcome \<Rightarrow> 'v server_data outcome \<times> action list" where
  "notify_client_cb P c =
     (case obind c (notify_client (es_lib P) (es_dp P) (es_hw P)) of
        Inl e \<Rightarrow> (Inl e, [])
      | Inr (notified, sv) \<Rightarrow> (Inr sv, if notified then [Notify (client_notification P)] else []))"

definition server_callback ::
    "'v eth_server_params \<Rightarrow> nat \<Rightarrow> u64 \<Rightarrow> nat \<Rightarrow> 'v server_data outcome \<Rightarrow> 'v server_data outcome \<times> action list" where
  "server_callback P f b k =
     (if f = NOTIFY_OTHER then notify_client_cb P
      else (\<lambda>c. (obind c (virt_queue_handle_irq (es_lib P) (es_dp P) (es_hw P)), [])))"

definition server_irqs ::
    "'v eth_server_params \<Rightarrow> u64 \<Rightarrow> 'v server_data outcome \<Rightarrow> nat \<times> 'v server_data outcome \<times> action list" where
  "server_irqs P b c =
     (let c1 = obind c (\<lambda>sv. Inr (client_moves P b sv))
      in (1, obind c1 (\<lambda>sv. run_callbacks (es_lib P) (es_dp P) (irq_callbacks P b (hw_log sv)) sv), []))"

definition eth_server_component ::
    "'v eth_server_params \<Rightarrow> ('v server_data outcome, 'm) component \<Rightarrow> ('v server_data outcome, 'm) component" where
  "eth_server_component P C =
     C\<lparr>callback := server_callback P, handle_global_endpoint_irq := server_irqs P\<rparr>"

text \<open>
  The module of \<open>picotcp_ethernet_async_server_init\<close> with its three handlers. Before it has run there is no
  state: it is the component's first.
\<close>

definition server_init_module ::
    "'v eth_server_params \<Rightarrow> bool \<Rightarrow> bool \<Rightarrow> 'v \<Rightarrow> 'v \<Rightarrow> u8 list \<Rightarrow> u64 \<Rightarrow> u64 \<Rightarrow> 'v server_data outcome module" where
  "server_init_module P alloc_ok found tx_q rx_q mac tx_badge rx_badge c =
     (case picotcp_ethernet_async_server_init (es_lib P) (es_dp P) (es_hw P) alloc_ok found tx_q rx_q mac of
        Inl e \<Rightarrow> (0, Inl e, [])
      | Inr (err, sv) \<Rightarrow>
          (sint err, Inr sv,
           [RegisterHandler \<lparr>h_badge = tx_badge, callback_handler = QUEUE_EVENT, h_cookie = 0, h_name = Some ''tx_event''\<rparr>,
            RegisterHandler \<lparr>h_badge = rx_badge, callback_handler = QUEUE_EVENT, h_cookie = 0, h_name = Some ''rx_event''\<rparr>,
            RegisterHandler \<lparr>h_badge = 0, callback_handler = NOTIFY_OTHER, h_cookie = 0, h_name = Some ''notify_client''\<rparr>]))"

text \<open>
  The client asks for the hardware address by a remote call, which the server's template passes to the
  function that has been registered: at first one that leaves the caller's bytes as they are.
\<close>

datatype get_mac_fn = DefaultGetMac | ClientGetMac

definition register_get_mac_fn :: "get_mac_fn \<Rightarrow> get_mac_fn option" where
  "register_get_mac_fn get_mac = Some get_mac"

definition control_mac :: "get_mac_fn option \<Rightarrow> 'v server_data \<Rightarrow> u8 list \<Rightarrow> u8 list" where
  "control_mac get_mac_dispatch sv bytes =
     (case get_mac_dispatch of
        None \<Rightarrow> bytes
      | Some DefaultGetMac \<Rightarrow> bytes
      | Some ClientGetMac \<Rightarrow> client_get_mac sv)"

lemma return_rx_mac: "return_rx L c len sv = Inr sv' \<Longrightarrow> hw_mac sv' = hw_mac sv"
  by (auto simp: return_rx_def log_hw_def split: option.splits)

lemma drop_rx_mac: "drop_rx L cs sv = Inr sv' \<Longrightarrow> hw_mac sv' = hw_mac sv"
  by (induction cs arbitrary: sv) (auto simp: obind_eq_Inr dest: return_rx_mac)

lemma run_callbacks_mac: "run_callbacks L dp cbs sv = Inr sv' \<Longrightarrow> hw_mac sv' = hw_mac sv"
proof (induction L dp cbs sv rule: run_callbacks.induct)
  case (2 L dp c cbs sv)
  then show ?case by (fastforce simp: obind_eq_Inr eth_tx_complete_def log_hw_def split: option.splits)
next
  case (3 L dp n cbs sv)
  then show ?case by (fastforce simp: obind_eq_Inr eth_allocate_rx_buf_def log_hw_def split: option.splits if_splits)
next
  case (4 L dp cs ls cbs sv)
  then show ?case
    by (fastforce simp: obind_eq_Inr eth_rx_complete_def split: if_splits dest: return_rx_mac drop_rx_mac)
qed simp

text \<open>Once the server's module has run, its client is given the address of the device.\<close>

lemma control_mac_registered:
  assumes "picotcp_ethernet_async_server_init L dp hw alloc_ok found tx_q rx_q mac = Inr (err, sv)" "length mac = 6"
  shows "control_mac (register_get_mac_fn ClientGetMac) sv bytes = mac"
  using assms run_callbacks_mac
  by (fastforce simp: picotcp_ethernet_async_server_init_def control_mac_def register_get_mac_fn_def client_get_mac_def
      obind_eq_Inr Let_def split: if_splits)

fun server_dirty :: "'v server_data outcome \<Rightarrow> bool" where
  "server_dirty (Inl e) \<longleftrightarrow> False"
| "server_dirty (Inr sv) \<longleftrightarrow> s_action sv"

interpretation eth_server: deferred_notifier server_dirty "\<lambda>c. \<exists>e. c = Inl e" "notify_client_cb P" "client_notification P" for P
proof (unfold_locales, goal_cases)
  case (1 c c' as)
  then show ?case by (cases c) (auto simp: notify_client_cb_def notify_client_def obind_def split: sum.splits if_splits)
next
  case (2 c c' as)
  then show ?case by (cases c) (auto simp: notify_client_cb_def notify_client_def obind_def split: sum.splits if_splits)
qed

text \<open>The server keeps its invariant, and so never faults.\<close>

fun server_fine :: "'v vq_view \<Rightarrow> 'v server_data outcome \<Rightarrow> bool" where
  "server_fine V (Inl e) \<longleftrightarrow> False"
| "server_fine V (Inr sv) \<longleftrightarrow> server_inv V sv"

definition surroundings_ok :: "'v vq_view \<Rightarrow> 'v eth_server_params \<Rightarrow> bool" where
  "surroundings_ok V P \<longleftrightarrow> vq_lib_ok (es_lib P) V \<and> hw_ok (es_lib P) (es_dp P) (es_hw P) \<and>
     (\<forall>b sv. callbacks_ok (es_lib P) (es_dp P) (irq_callbacks P b (hw_log sv)) sv) \<and>
     (\<forall>b sv. server_inv V sv \<longrightarrow> server_inv V (client_moves P b sv))"

text \<open>The connections, which tell clients the hardware address, leave the state as it is.\<close>

definition connections_read :: "('c, 'm) component \<Rightarrow> bool" where
  "connections_read C \<longleftrightarrow> (\<forall>(bs, f) \<in> set (connections C). \<forall>b m c r m' c' as. f b m c = Inr (r, m', c', as) \<longrightarrow> c' = c)"

lemma notify_client_step:
  assumes ok: "vq_lib_ok L V" and hw: "hw_ok L dp hw" and inv: "server_inv V sv"
  obtains n sv' where "notify_client L dp hw sv = Inr (n, sv')" "server_inv V sv'"
proof (cases "s_action sv \<and> blocked_tx sv")
  case True
  obtain sv' k where "virt_queue_handle_irq L dp hw sv = Inr sv'" "server_inv V sv'"
    by (rule virt_queue_handle_irq_step [OF ok hw inv])
  with True that show thesis
    by (simp add: notify_client_def server_inv_def tx_outstanding_def rx_outstanding_def)
next
  case False
  with inv that show thesis
    by (cases "s_action sv") (simp_all add: notify_client_def server_inv_def tx_outstanding_def rx_outstanding_def)
qed

lemma server_keeps:
  assumes "surroundings_ok V P" "connections_read C"
  shows "component_keeps (server_fine V) (eth_server_component P C)"
  unfolding component_keeps_def
proof (intro conjI allI impI)
  note s = assms(1) [unfolded surroundings_ok_def]
  fix f b k c assume "server_fine V c"
  then obtain sv where sv: "c = Inr sv" "server_inv V sv" by (cases c) auto
  obtain sv1 k1 where 1: "virt_queue_handle_irq (es_lib P) (es_dp P) (es_hw P) sv = Inr sv1" "server_inv V sv1"
    by (rule virt_queue_handle_irq_step [of "es_lib P" V "es_dp P" "es_hw P" sv]) (use s sv in auto)
  obtain n2 sv2 where 2: "notify_client (es_lib P) (es_dp P) (es_hw P) sv = Inr (n2, sv2)" "server_inv V sv2"
    by (rule notify_client_step [of "es_lib P" V "es_dp P" "es_hw P" sv]) (use s sv in auto)
  show "server_fine V (fst (callback (eth_server_component P C) f b k c))"
    using sv 1 2 by (simp add: eth_server_component_def server_callback_def notify_client_cb_def)
next
  note s = assms(1) [unfolded surroundings_ok_def]
  fix b c assume "server_fine V c"
  then obtain sv where sv: "c = Inr sv" "server_inv V sv" by (cases c) auto
  let ?sv = "client_moves P b sv"
  have "server_inv V ?sv" "callbacks_ok (es_lib P) (es_dp P) (irq_callbacks P b (hw_log ?sv)) ?sv"
    using s sv by simp_all
  from run_callbacks_step [OF _ this] s sv show
    "server_fine V (fst (snd (handle_global_endpoint_irq (eth_server_component P C) b c)))"
    by (auto simp: eth_server_component_def server_irqs_def Let_def)
next
  show "\<forall>(bs, f) \<in> set (connections (eth_server_component P C)). \<forall>b \<in> set bs. \<forall>m c r m' c' as.
      server_fine V c \<longrightarrow> f b m c = Inr (r, m', c', as) \<longrightarrow> server_fine V c'"
    using assms(2) unfolding connections_read_def eth_server_component_def by fastforce
qed

lemma server_component_does:
  assumes "component_does A C" "A (Notify (client_notification P))"
  shows "component_does A (eth_server_component P C)"
  using assms
  by (auto simp: component_does_def eth_server_component_def server_callback_def notify_client_cb_def server_irqs_def Let_def
      split: sum.splits prod.splits)

lemma async_server_init_ok:
  assumes "surroundings_ok V P" "queue_inv V tx_q {#}" "queue_inv V rx_q {#}"
  obtains sv where
    "picotcp_ethernet_async_server_init (es_lib P) (es_dp P) (es_hw P) True True tx_q rx_q mac = Inr (0, sv)" "server_inv V sv"
proof -
  let ?data = "\<lparr>s_tx_virtqueue = tx_q, s_rx_virtqueue = rx_q, s_action = False, blocked_tx = False,
    no_rx_bufs = False, hw_mac = mac, hw_log = []\<rparr>"
  note s = assms(1) [unfolded surroundings_ok_def]
  have "server_inv V ?data"
    using assms(2,3) by (simp add: server_inv_def tx_outstanding_def rx_outstanding_def)
  moreover have "callbacks_ok (es_lib P) (es_dp P) (raw_poll (es_hw P) (hw_log ?data)) ?data"
    using s unfolding hw_ok_def by blast
  ultimately obtain sv where "run_callbacks (es_lib P) (es_dp P) (raw_poll (es_hw P) (hw_log ?data)) ?data = Inr sv" "server_inv V sv"
    using run_callbacks_step [of "es_lib P" V ?data] s by blast
  then show thesis by (intro that [of sv]) (simp_all add: picotcp_ethernet_async_server_init_def)
qed

text \<open>The server's module as the last one that runs.\<close>

lemma server_boot:
  assumes run: "call_modules D (before @ [server_init_module P True True tx_q rx_q mac tb rb]) st0 = Inr (errs, st)"
    and D: "D = eth_server_component P C" and ok: "surroundings_ok V P" "queue_inv V tx_q {#}" "queue_inv V rx_q {#}"
    and mods: "\<forall>f \<in> set before. \<forall>c. list_all cap_ok (snd (snd (f c)))"
    and st0: "events st0 = []" "signal_to_send st0 = 0"
  shows "server_fine V (comp st)" "announced_last (notify_client_cb P) D (reg_handlers st)" "signals_conserved st"
proof -
  obtain sv where sv: "picotcp_ethernet_async_server_init (es_lib P) (es_dp P) (es_hw P) True True tx_q rx_q mac = Inr (0, sv)"
    and inv: "server_inv V sv"
    by (rule async_server_init_ok [OF ok])
  from run show "server_fine V (comp st)" "announced_last (notify_client_cb P) D (reg_handlers st)"
    using inv unfolding call_modules_append
    by (auto simp: obind_eq_Inr server_init_module_def sv announced_last_def D eth_server_component_def
        server_callback_def single_threaded_component_register_handler_def)
  have "\<forall>f \<in> set (before @ [server_init_module P True True tx_q rx_q mac tb rb]). \<forall>c. list_all cap_ok (snd (snd (f c)))"
    using mods by (auto simp: server_init_module_def sv)
  moreover have "signals_conserved st0" using st0 by (simp add: signals_conserved_def pending_signal_def)
  ultimately show "signals_conserved st" by (rule signals.modules [OF _ _ run])
qed

section \<open>The client\<close>

text \<open>
  The client component's stack ticks on the server's signals (\<open>irq_from_ethernet\<close>) and then sends and polls
  through the device: \<open>tick\<close> is what it does to the devices and the shared memory. \<open>d\<close> is the device.
\<close>

record 'v eth_client_params =
  tick :: "'v client_lib \<times> memory \<Rightarrow> ('v client_lib \<times> memory) outcome"
  device :: nat
  server_notification :: u64

definition notify_server_cb ::
    "'v eth_client_params \<Rightarrow> ('v client_lib \<times> memory) outcome \<Rightarrow> ('v client_lib \<times> memory) outcome \<times> action list" where
  "notify_server_cb P c =
     (case obind c (\<lambda>(cl, mem). obind (nth_ok (states cl) (device P)) (\<lambda>st.
             let (notified, st') = notify_server st in Inr (notified, set_dev (device P) st' cl, mem))) of
        Inl e \<Rightarrow> (Inl e, [])
      | Inr (notified, x) \<Rightarrow> (Inr x, if notified then [Notify (server_notification P)] else []))"

definition client_callback ::
    "'v eth_client_params \<Rightarrow> nat \<Rightarrow> u64 \<Rightarrow> nat \<Rightarrow> ('v client_lib \<times> memory) outcome \<Rightarrow>
     ('v client_lib \<times> memory) outcome \<times> action list" where
  "client_callback P f b k =
     (if f = NOTIFY_OTHER then notify_server_cb P else (\<lambda>c. (obind c (tick P), [])))"

text \<open>The modules: \<open>picotcp_ethernet_async_client_init\<close>, which ends with a first \<open>notify\<close>, and the late one.\<close>

definition client_init_module ::
    "'v eth_client_params \<Rightarrow> ('v client_lib \<times> memory \<Rightarrow> (cint \<times> 'v client_lib \<times> memory) outcome) \<Rightarrow> u64 \<Rightarrow>
     ('v client_lib \<times> memory) outcome module" where
  "client_init_module P init tx_badge c =
     (let register = RegisterHandler \<lparr>h_badge = tx_badge, callback_handler = QUEUE_EVENT, h_cookie = 0,
                       h_name = Some ''ethernet_event_handler''\<rparr>
      in case obind c init of
           Inl e \<Rightarrow> (0, Inl e, [])
         | Inr (err, x) \<Rightarrow>
             (sint err, Inr x, if err = 0 then [register, Notify (server_notification P)] else [register]))"

definition client_init_late :: "('v client_lib \<times> memory) outcome module" where
  "client_init_late c =
     (0, c, [RegisterHandler \<lparr>h_badge = 0, callback_handler = NOTIFY_OTHER, h_cookie = 0,
                              h_name = Some ''notify_ethernet''\<rparr>])"

definition eth_client_component ::
    "'v eth_client_params \<Rightarrow> (('v client_lib \<times> memory) outcome, 'm) component \<Rightarrow>
     (('v client_lib \<times> memory) outcome, 'm) component" where
  "eth_client_component P C = C\<lparr>callback := client_callback P\<rparr>"

fun client_dirty :: "nat \<Rightarrow> ('v client_lib \<times> memory) outcome \<Rightarrow> bool" where
  "client_dirty d (Inl e) \<longleftrightarrow> False"
| "client_dirty d (Inr (cl, mem)) \<longleftrightarrow> d < length (states cl) \<and> c_action (states cl ! d)"

interpretation eth_client: deferred_notifier "client_dirty (device P)" "\<lambda>c. \<exists>e. c = Inl e" "notify_server_cb P" "server_notification P" for P
proof (unfold_locales, goal_cases)
  case (1 c c' as)
  then show ?case
    by (cases c) (auto simp: notify_server_cb_def notify_server_def set_dev_def nth_ok_def split: if_splits)
next
  case (2 c c' as)
  then show ?case
    by (cases c) (auto simp: notify_server_cb_def notify_server_def set_dev_def nth_ok_def split: if_splits)
qed

lemma client_component_does:
  assumes "component_does A C" "A (Notify (server_notification P))"
  shows "component_does A (eth_client_component P C)"
  using assms
  by (auto simp: component_does_def eth_client_component_def client_callback_def notify_server_cb_def
      split: sum.splits prod.splits)

lemma client_boot:
  assumes run: "call_modules D (before @ [client_init_late]) st0 = Inr (errs, st)" and D: "D = eth_client_component P C"
    and mods: "\<forall>f \<in> set before. \<forall>c. list_all cap_ok (snd (snd (f c)))"
    and st0: "events st0 = []" "signal_to_send st0 = 0"
  shows "announced_last (notify_server_cb P) D (reg_handlers st)" "signals_conserved st"
proof -
  from run show "announced_last (notify_server_cb P) D (reg_handlers st)"
    unfolding call_modules_append
    by (auto simp: obind_eq_Inr client_init_late_def announced_last_def D eth_client_component_def
        client_callback_def single_threaded_component_register_handler_def)
  have "\<forall>f \<in> set (before @ [client_init_late]). \<forall>c. list_all cap_ok (snd (snd (f c)))"
    using mods by (auto simp: client_init_late_def)
  moreover have "signals_conserved st0" using st0 by (simp add: signals_conserved_def pending_signal_def)
  ultimately show "signals_conserved st" by (rule signals.modules [OF _ _ run])
qed

section \<open>Properties\<close>

text \<open>
  C36. The Ethernet server stays up and keeps its client informed: booted on empty queues, over any messages and
  interrupts it never faults and keeps its queues well formed; and after each notification its \<open>action\<close>
  flag is down when it waits again, and if a frame had been received or transmission had become
  possible again, in this notification or earlier, the client has been signalled before the wait.
\<close>

theorem eth_server_informs_client:
  assumes D: "D = eth_server_component P C" and ok: "surroundings_ok V P" "queue_inv V tx_q {#}" "queue_inv V rx_q {#}"
    and boot: "call_modules D (before @ [server_init_module P True True tx_q rx_q mac tb rb]) st0 = Inr (errs, st)"
    and mods: "\<forall>f \<in> set before. \<forall>c. list_all cap_ok (snd (snd (f c)))"
    and st0: "events st0 = []" "signal_to_send st0 = 0"
    and code: "component_does registers_nothing C" "component_does cap_ok C" "handlers_return W C" "connections_read C"
    and ntfn: "client_notification P \<noteq> 0" and ready: "ready D n st"
    and ms: "\<forall>m \<in> set ms. W (snd m)" "W info" and badge: "is_notification D badge"
  shows "\<exists>st1 sv1 ks1 ks2 st' sv'. event_loop D n ms st = Inr st1 \<and> loop_iteration D n (badge, info) st1 = Inr st' \<and>
    notification_does D badge (butlast (reg_handlers st)) (comp st1) = (Inr sv1, ks1) \<and>
    comp st' = Inr sv' \<and> server_inv V sv' \<and> \<not> s_action sv' \<and>
    (s_action sv1 \<longrightarrow> client_notification P \<in> set ks2) \<and>
    signals_of (events st') = signals_of (events st1) @ pending_signal st1 @ ks1 @ ks2"
proof -
  have does: "component_does registers_nothing D" "component_does cap_ok D" "handlers_return W D"
    using code ntfn by (simp_all add: D server_component_does handlers_return_def) (simp add: eth_server_component_def)
  have keeps: "component_keeps (server_fine V) D" using server_keeps [OF ok(1) code(4)] by (simp add: D)
  note b = server_boot [OF boot D ok mods st0]
  obtain st1 c1 ks1 ks2 st' where run: "event_loop D n ms st = Inr st1" "loop_iteration D n (badge, info) st1 = Inr st'"
    and n: "notification_does D badge (butlast (reg_handlers st)) (comp st1) = (c1, ks1)"
    and clear: "\<not> server_dirty (comp st')"
    and asked: "server_dirty c1 \<longrightarrow> \<not> (\<exists>e. comp st' = Inl e) \<longrightarrow> client_notification P \<in> set ks2"
    and sent: "signals_of (events st') = signals_of (events st1) @ pending_signal st1 @ ks1 @ ks2"
    using eth_server.announces [OF does ready b(3,2) ms badge] by blast
  have fine: "server_fine V (comp st1)" by (rule event_loop_keeps [OF keeps does(1) run(1) b(1)])
  have "server_fine V c1" by (rule notification_keeps [OF keeps fine n])
  then obtain sv1 where sv1: "c1 = Inr sv1" by (cases c1) auto
  have "server_fine V (comp st')" by (rule iteration_keeps [OF keeps does(1) run(2) fine])
  then obtain sv' where "comp st' = Inr sv'" "server_inv V sv'" by (cases "comp st'") auto
  with run n clear asked sent sv1 show ?thesis by auto
qed

text \<open>
  The client's frames are announced to the server: once the component has booted with the transport's late
  module last, then at each notification, if the stack has put frames into the transmit queue or returned
  receive buffers, then or since the last one, the server's notification is signalled before the
  component waits again, and the flag is down.
\<close>

theorem eth_client_informs_server:
  assumes D: "D = eth_client_component P C"
    and boot: "call_modules D (before @ [client_init_late]) st0 = Inr (errs, st)"
    and mods: "\<forall>f \<in> set before. \<forall>c. list_all cap_ok (snd (snd (f c)))"
    and st0: "events st0 = []" "signal_to_send st0 = 0"
    and code: "component_does registers_nothing C" "component_does cap_ok C" "handlers_return W C"
    and ntfn: "server_notification P \<noteq> 0" and ready: "ready D n st"
    and ms: "\<forall>m \<in> set ms. W (snd m)" "W info" and badge: "is_notification D badge"
  shows "\<exists>st1 c1 ks1 ks2 st'. event_loop D n ms st = Inr st1 \<and> loop_iteration D n (badge, info) st1 = Inr st' \<and>
    notification_does D badge (butlast (reg_handlers st)) (comp st1) = (c1, ks1) \<and>
    \<not> client_dirty (device P) (comp st') \<and>
    (\<forall>cl mem. c1 = Inr (cl, mem) \<longrightarrow> client_dirty (device P) c1 \<longrightarrow> server_notification P \<in> set ks2) \<and>
    signals_of (events st') = signals_of (events st1) @ pending_signal st1 @ ks1 @ ks2"
proof -
  have does: "component_does registers_nothing D" "component_does cap_ok D" "handlers_return W D"
    using code ntfn by (simp_all add: D client_component_does handlers_return_def) (simp add: eth_client_component_def)
  note b = client_boot [OF boot D mods st0]
  obtain st1 c1 ks1 ks2 st' where run: "event_loop D n ms st = Inr st1" "loop_iteration D n (badge, info) st1 = Inr st'"
    "notification_does D badge (butlast (reg_handlers st)) (comp st1) = (c1, ks1)"
    and c: "comp st' = fst (notify_server_cb P c1)" and clear: "\<not> client_dirty (device P) (comp st')"
    and asked: "client_dirty (device P) c1 \<longrightarrow> \<not> (\<exists>e. comp st' = Inl e) \<longrightarrow> server_notification P \<in> set ks2"
    and sent: "signals_of (events st') = signals_of (events st1) @ pending_signal st1 @ ks1 @ ks2"
    using eth_client.announces [OF does ready b(2,1) ms badge] by blast
  have "\<not> (\<exists>e. comp st' = Inl e)" if "c1 = Inr (cl, mem)" "client_dirty (device P) c1" for cl mem
    using that c by (simp add: notify_server_cb_def nth_ok_def notify_server_def)
  with run clear asked sent show ?thesis by blast
qed

section \<open>Instances\<close>

definition sample_rest :: "('c, unit) component" where
  "sample_rest =
     \<lparr>callback = (\<lambda>f b k c. (c, [])), handle_global_endpoint_irq = (\<lambda>b c. (0, c, [])), connections = [],
      notification_base = 1, endpoint_base = 256, realtime = False, num_traces = None,
      realloc_ok = (\<lambda>_. True), declare_reply_cap = (\<lambda>_. True)\<rparr>"

definition sample_start :: "'c \<Rightarrow> ('c, unit) loop_state" where
  "sample_start c =
     \<lparr>reg_handlers = [], trace_points = [], ccnt = of_nat, ccnt_reads = 0, signal_to_send = 0,
      reply_cap_in_tcb = False, comp = c, events = []\<rparr>"

lemma async_sample_rest_ok:
  "component_does A sample_rest" "handlers_return W sample_rest" "connections_read sample_rest"
  by (simp_all add: component_does_def handlers_return_def connections_read_def sample_rest_def)

lemma sample_start_ok: "events (sample_start c) = []" "signal_to_send (sample_start c) = 0"
  by (simp_all add: sample_start_def)

text \<open>A server whose driver receives into the first buffer of the queue when it has been handed out.\<close>

definition sample_server :: "list_vq eth_server_params" where
  "sample_server =
     \<lparr>es_lib = list_lib, es_dp = plain_dp, es_hw = one_frame_hw,
      irq_callbacks = (\<lambda>b log. if 0 \<in># rx_held (rev log) then [RxComplete [0] [60]] else [AllocateRx 1500]),
      client_moves = (\<lambda>b sv. sv), client_notification = 6\<rparr>"

lemma sample_server_ok: "surroundings_ok list_view sample_server"
proof -
  have "callbacks_ok list_lib plain_dp (if 0 \<in># rx_held (rev (hw_log sv)) then [RxComplete [0] [60]] else [AllocateRx 1500]) sv" for sv
    by (auto simp: rx_outstanding_def split: sum.splits)
  then show ?thesis
    by (simp add: surroundings_ok_def sample_server_def list_lib_ok one_frame_hw_ok)
qed

lemma empty_vq_inv: "queue_inv list_view empty_vq {#}"
  by (simp add: queue_inv_def empty_vq_def list_view_def list_heads_def)

abbreviation sample_server_system :: "(list_vq server_data outcome, unit) component" where
  "sample_server_system \<equiv> eth_server_component sample_server sample_rest"

definition sample_server_booted :: "(list_vq server_data outcome, unit) loop_state" where
  "sample_server_booted =
     (sample_start (Inl Fatal))\<lparr>comp := Inr (server_of empty_vq empty_vq),
       reg_handlers :=
         [\<lparr>h_badge = 3, callback_handler = QUEUE_EVENT, h_cookie = 0, h_name = Some ''tx_event''\<rparr>,
          \<lparr>h_badge = 5, callback_handler = QUEUE_EVENT, h_cookie = 0, h_name = Some ''rx_event''\<rparr>,
          \<lparr>h_badge = 0, callback_handler = NOTIFY_OTHER, h_cookie = 0, h_name = Some ''notify_client''\<rparr>]\<rparr>"

lemma sample_server_boot:
  "call_modules sample_server_system ([] @ [server_init_module sample_server True True empty_vq empty_vq [] 3 5])
     (sample_start (Inl Fatal)) = Inr ([], sample_server_booted)"
  by (simp add: server_init_module_def picotcp_ethernet_async_server_init_def sample_server_def one_frame_hw_def
      sample_server_booted_def sample_start_def server_of_def single_threaded_component_register_handler_def
      eth_server_component_def sample_rest_def)

lemma sample_server_ready:
  "ready sample_server_system 4 sample_server_booted" "is_notification sample_server_system 3"
  by (simp_all add: ready_def traces_ok_def is_notification_def eth_server_component_def sample_rest_def
      sample_server_booted_def sample_start_def)

theorem eth_server_informs_client_witness:
  "\<exists>st1 sv1 ks1 ks2 st' sv'. event_loop sample_server_system 4 [(5, ()), (3, ())] sample_server_booted = Inr st1 \<and>
    loop_iteration sample_server_system 4 (3, ()) st1 = Inr st' \<and>
    notification_does sample_server_system 3 (butlast (reg_handlers sample_server_booted)) (comp st1) = (Inr sv1, ks1) \<and>
    comp st' = Inr sv' \<and> \<not> s_action sv' \<and> (s_action sv1 \<longrightarrow> 6 \<in> set ks2) \<and>
    signals_of (events st') = signals_of (events st1) @ pending_signal st1 @ ks1 @ ks2"
proof -
  have n: "client_notification sample_server = 6" "client_notification sample_server \<noteq> 0"
    by (simp_all add: sample_server_def)
  have "\<exists>st1 sv1 ks1 ks2 st' sv'. event_loop sample_server_system 4 [(5, ()), (3, ())] sample_server_booted = Inr st1 \<and>
    loop_iteration sample_server_system 4 (3, ()) st1 = Inr st' \<and>
    notification_does sample_server_system 3 (butlast (reg_handlers sample_server_booted)) (comp st1) = (Inr sv1, ks1) \<and>
    comp st' = Inr sv' \<and> server_inv list_view sv' \<and> \<not> s_action sv' \<and>
    (s_action sv1 \<longrightarrow> client_notification sample_server \<in> set ks2) \<and>
    signals_of (events st') = signals_of (events st1) @ pending_signal st1 @ ks1 @ ks2"
    by (rule eth_server_informs_client [OF refl sample_server_ok empty_vq_inv empty_vq_inv sample_server_boot _ sample_start_ok
      async_sample_rest_ok(1,1,2,3) n(2) sample_server_ready(1) _ _ sample_server_ready(2), where W = "\<lambda>_. True"]) simp_all
  then show ?thesis unfolding n by blast
qed

definition sample_client :: "list_vq eth_client_params" where
  "sample_client =
     \<lparr>tick = (\<lambda>(cl, mem). Inr (cl\<lparr>states := map (\<lambda>s. s\<lparr>c_action := True\<rparr>) (states cl)\<rparr>, mem)), device = 0,
      server_notification = 8\<rparr>"

abbreviation sample_client_system :: "((list_vq client_lib \<times> memory) outcome, unit) component" where
  "sample_client_system \<equiv> eth_client_component sample_client sample_rest"

abbreviation sample_client_init :: "(list_vq client_lib \<times> memory) outcome module" where
  "sample_client_init \<equiv> client_init_module sample_client (\<lambda>x. Inr (0, x)) 3"

definition sample_client_booted :: "((list_vq client_lib \<times> memory) outcome, unit) loop_state" where
  "sample_client_booted =
     (sample_start (Inr (client_of 0 [] empty_vq empty_vq, Map.empty)))\<lparr>signal_to_send := 8,
       events := [NotifyCalled 8],
       reg_handlers :=
         [\<lparr>h_badge = 3, callback_handler = QUEUE_EVENT, h_cookie = 0, h_name = Some ''ethernet_event_handler''\<rparr>,
          \<lparr>h_badge = 0, callback_handler = NOTIFY_OTHER, h_cookie = 0, h_name = Some ''notify_ethernet''\<rparr>]\<rparr>"

lemma sample_client_boot:
  "call_modules sample_client_system ([sample_client_init] @ [client_init_late])
     (sample_start (Inr (client_of 0 [] empty_vq empty_vq, Map.empty))) = Inr ([], sample_client_booted)"
  by (simp add: client_init_module_def client_init_late_def sample_client_def sample_client_booted_def sample_start_def
      single_threaded_component_register_handler_def notify_deferred_def log_event_def eth_client_component_def
      sample_rest_def Let_def)

theorem eth_client_informs_server_witness:
  "\<exists>st' ks. loop_iteration sample_client_system 3 (3, ()) sample_client_booted = Inr st' \<and>
    \<not> client_dirty 0 (comp st') \<and> signals_of (events st') = [8] @ ks \<and> 8 \<in> set ks"
proof -
  have mods: "\<forall>f \<in> set [sample_client_init]. \<forall>c. list_all cap_ok (snd (snd (f c)))"
    by (auto simp: client_init_module_def sample_client_def Let_def split: sum.splits prod.splits)
  have n: "server_notification sample_client = 8" "server_notification sample_client \<noteq> 0" "device sample_client = 0"
    by (simp_all add: sample_client_def)
  have ready: "ready sample_client_system 3 sample_client_booted" "is_notification sample_client_system 3"
    by (simp_all add: ready_def traces_ok_def is_notification_def eth_client_component_def sample_rest_def
        sample_client_booted_def sample_start_def)
  have dirty: "\<exists>cl mem. notification_does sample_client_system 3 (butlast (reg_handlers sample_client_booted))
      (comp sample_client_booted) = (Inr (cl, mem), []) \<and> client_dirty 0 (Inr (cl, mem))"
    by (simp add: notification_does_def sample_client_booted_def sample_start_def eth_client_component_def
        sample_rest_def client_callback_def sample_client_def client_of_def)
  from eth_client_informs_server [OF refl sample_client_boot mods sample_start_ok async_sample_rest_ok(1,1,2) n(2) ready(1) _ _ ready(2),
      where ms = "[]" and info = "()" and W = "\<lambda>_. True"]
  obtain st' c1 ks1 ks2 where step: "loop_iteration sample_client_system 3 (3, ()) sample_client_booted = Inr st'"
    and does: "notification_does sample_client_system 3 (butlast (reg_handlers sample_client_booted))
      (comp sample_client_booted) = (c1, ks1)" and clear: "\<not> client_dirty 0 (comp st')"
    and asked: "\<forall>cl mem. c1 = Inr (cl, mem) \<longrightarrow> client_dirty 0 c1 \<longrightarrow> 8 \<in> set ks2"
    and sent: "signals_of (events st') = signals_of (events sample_client_booted) @ pending_signal sample_client_booted @ ks1 @ ks2"
    unfolding n by auto
  with dirty show ?thesis
    by (intro exI [of _ st'] exI [of _ ks2]) (auto simp: sample_client_booted_def pending_signal_def)
qed

end
