(* ===== verification/SerialPlat.thy ===== *)
theory SerialPlat
  imports SerialServer
begin

text \<open>
  \<open>components/SerialServer/src/plat.c\<close>, the serial device below the server of \<open>SerialServer\<close>, and
  \<open>serial_server_irq_handle\<close>, which moves what the device has received into the server.

  The device driver (libplatsupport) is not part of the repository: \<open>'d chardev\<close> holds the functions of a
  \<open>ps_chardevice\<close> that are used, on a device state \<open>'d\<close>. \<open>serial\<close> is \<open>None\<close> while the pointer is NULL. The
  lock and the acknowledgement of the interrupt answer with error codes. Most devices answer \<open>EOF\<close> once
  their receive queue is empty, but nothing makes the loop end that reads until then: it has fuel.
\<close>

section \<open>The device\<close>

abbreviation EOF :: cint where "EOF \<equiv> -1"

record 'd chardev =
  cdev_getchar :: "'d \<Rightarrow> cint \<times> 'd"
  cdev_putchar :: "cint \<Rightarrow> 'd \<Rightarrow> 'd"
  cdev_handle_irq :: "'d \<Rightarrow> 'd"

record ('d, 's) plat_state =
  serial :: "'d option"
  server :: 's

definition plat_pre_init :: "'d option \<Rightarrow> 's \<Rightarrow> ('d, 's) plat_state" where
  "plat_pre_init initialised s = \<lparr>serial = initialised, server = s\<rparr>"

definition plat_serial_putchar :: "'d chardev \<Rightarrow> cint \<Rightarrow> ('d, 's) plat_state \<Rightarrow> ('d, 's) plat_state" where
  "plat_serial_putchar D c p =
     (case serial p of None \<Rightarrow> p | Some d \<Rightarrow> p\<lparr>serial := Some (cdev_putchar D c d)\<rparr>)"

definition serial_putchar :: "'d chardev \<Rightarrow> cint \<Rightarrow> ('d, 's) plat_state \<Rightarrow> ('d, 's) plat_state" where
  "serial_putchar D c = plat_serial_putchar D c"

text \<open>The loop of the interrupt handler.\<close>

fun getchar_loop ::
    "nat \<Rightarrow> 'd chardev \<Rightarrow> (u8 \<Rightarrow> 's \<Rightarrow> 's outcome) \<Rightarrow> 'd \<Rightarrow> 's \<Rightarrow> ('d \<times> 's) outcome" where
  "getchar_loop 0 D handle d s = Inl OutOfFuel"
| "getchar_loop (Suc n) D handle d s =
     (let (data, d1) = cdev_getchar D d
      in if data \<noteq> EOF then obind (handle (ucast data) s) (getchar_loop n D handle d1)
         else Inr (d1, s))"

definition plat_serial_interrupt ::
    "nat \<Rightarrow> 'd chardev \<Rightarrow> (u8 \<Rightarrow> 's \<Rightarrow> 's outcome) \<Rightarrow> ('d, 's) plat_state \<Rightarrow> ('d, 's) plat_state outcome" where
  "plat_serial_interrupt fuel D handle p =
     (case serial p of
        None \<Rightarrow> Inr p
      | Some d \<Rightarrow>
          obind (getchar_loop fuel D handle (cdev_handle_irq D d) (server p)) (\<lambda>(d1, s1).
            Inr (p\<lparr>serial := Some d1, server := s1\<rparr>)))"

section \<open>The interrupt handler\<close>

text \<open>What the lock and the acknowledgement answer, and the order in which they are called.\<close>

datatype irq_call = Lock | Acknowledge | Unlock

definition serial_server_irq_handle ::
    "nat \<Rightarrow> 'd chardev \<Rightarrow> (irq_call \<Rightarrow> cint) \<Rightarrow> ('d, serial_state) plat_state \<Rightarrow>
     (irq_call list \<times> ('d, serial_state) plat_state) outcome" where
  "serial_server_irq_handle fuel D answer p =
     obind (ensure (answer Lock = 0) Fatal) (\<lambda>_.
     obind (plat_serial_interrupt fuel D handle_char p) (\<lambda>p1.
     obind (ensure (answer Acknowledge = 0) Fatal) (\<lambda>_.
     obind (ensure (answer Unlock = 0) Fatal) (\<lambda>_.
       Inr ([Lock, Acknowledge, Unlock], p1)))))"

text \<open>
  Each platform's \<open>plat_post_init\<close> registers the handler for the line of its device and stops the component
  when that fails.
\<close>

definition plat_post_init :: "('i \<Rightarrow> cint) \<Rightarrow> 'i \<Rightarrow> cint outcome" where
  "plat_post_init irq_register irq_info =
     (let serial_irq_id = irq_register irq_info
      in obind (ensure (0 \<le> sint serial_irq_id) Fatal) (\<lambda>_. Inr serial_irq_id))"

section \<open>Reading a device\<close>

text \<open>\<open>reads D cs d d'\<close>: the device answers \<open>cs\<close>, one character after the other, and then \<open>EOF\<close>.\<close>

fun reads :: "'d chardev \<Rightarrow> u8 list \<Rightarrow> 'd \<Rightarrow> 'd \<Rightarrow> bool" where
  "reads D [] d d' \<longleftrightarrow> cdev_getchar D d = (EOF, d')"
| "reads D (c # cs) d d' \<longleftrightarrow> (case cdev_getchar D d of (data, d1) \<Rightarrow> data = ucast c \<and> reads D cs d1 d')"

lemma u8_not_EOF: "(ucast (c :: u8) :: cint) \<noteq> EOF"
proof
  assume "(ucast c :: cint) = EOF"
  then have "bit (ucast c :: cint) 31 \<longleftrightarrow> bit EOF 31" by simp
  then show False by (simp add: bit_unsigned_iff bit_minus_1_iff) (auto dest: bit_imp_le_length)
qed

lemma u8_back: "(ucast (ucast (c :: u8) :: cint) :: u8) = c"
  by (rule bit_word_eqI) (auto simp: bit_simps)

fun each :: "(u8 \<Rightarrow> 's \<Rightarrow> 's outcome) \<Rightarrow> u8 list \<Rightarrow> 's \<Rightarrow> 's outcome" where
  "each handle [] s = Inr s"
| "each handle (c # cs) s = obind (handle c s) (each handle cs)"

lemma each_handle_char: "each handle_char cs s = handle_chars cs s"
  by (induction cs arbitrary: s) (simp_all add: obind_def split: sum.splits)

text \<open>With enough fuel the loop passes the characters that the device holds, in order, and leaves.\<close>

lemma getchar_loop_reads:
  assumes "reads D cs d d'" "length cs < fuel"
  shows "getchar_loop fuel D handle d s = obind (each handle cs s) (\<lambda>s'. Inr (d', s'))"
  using assms
proof (induction cs arbitrary: fuel d s)
  case Nil
  then show ?case by (cases fuel) simp_all
next
  case (Cons c cs)
  obtain n where n: "fuel = Suc n" "length cs < n" using Cons.prems(2) by (cases fuel) auto
  obtain d1 where d1: "cdev_getchar D d = (ucast c, d1)" "reads D cs d1 d'"
    using Cons.prems(1) by (auto split: prod.splits)
  have "getchar_loop fuel D handle d s = obind (handle c s) (getchar_loop n D handle d1)"
    using d1(1) u8_not_EOF [of c] by (simp add: n(1) u8_back)
  also have "\<dots> = obind (each handle (c # cs) s) (\<lambda>s'. Inr (d', s'))"
    by (cases "handle c s") (simp_all add: Cons.IH [OF d1(2) n(2)])
  finally show ?case .
qed

text \<open>A device that always has one more character keeps the loop for ever.\<close>

lemma getchar_loop_stuck:
  assumes "\<And>d. fst (cdev_getchar D d) \<noteq> EOF" "\<And>c s. I s \<Longrightarrow> \<exists>s'. handle c s = Inr s' \<and> I s'" "I s"
  shows "getchar_loop fuel D handle d s = Inl OutOfFuel"
  using assms(3)
proof (induction fuel arbitrary: d s)
  case 0
  then show ?case by simp
next
  case (Suc n)
  obtain data d1 where g: "cdev_getchar D d = (data, d1)" "data \<noteq> EOF"
    using assms(1) [of d] by (cases "cdev_getchar D d") simp
  obtain s' where "handle (ucast data) s = Inr s'" "I s'" using assms(2) Suc.prems by blast
  with g Suc.IH show ?case by simp
qed

lemma handle_char_serial_wf: "serial_wf st \<Longrightarrow> \<exists>st'. handle_char c st = Inr st' \<and> serial_wf st'"
  using handle_char_ok [of st c] out_same_wf by (auto simp: serial_wf_def)

lemma handle_chars_serial_wf: "serial_wf st \<Longrightarrow> \<exists>st'. handle_chars cs st = Inr st' \<and> serial_wf st'"
proof (induction cs arbitrary: st)
  case Nil
  then show ?case by simp
next
  case (Cons c cs)
  from handle_char_serial_wf [OF Cons.prems, of c] Cons.IH show ?case by auto
qed

section \<open>Properties\<close>

text \<open>
  C37. An interrupt of the serial line empties the device: with a device that answers the characters \<open>cs\<close> and
  then \<open>EOF\<close>, the handler locks, gives the server exactly \<open>cs\<close> in order, acknowledges the interrupt
  before it unlocks, and returns with a well-formed server; with an active client and no escape character
  among them, the client receives all of them and no other does. Without a device it changes nothing. A
  device that never answers \<open>EOF\<close> keeps the handler, and the lock with it, for ever.
\<close>

theorem serial_interrupt_drains:
  assumes wf: "serial_wf (server p)" and dev: "serial p = Some d" "reads D cs (cdev_handle_irq D d) d'"
    and fuel: "length cs < fuel" and ok: "answer Lock = 0" "answer Acknowledge = 0" "answer Unlock = 0"
  shows "(\<exists>st'. serial_server_irq_handle fuel D answer p =
      Inr ([Lock, Acknowledge, Unlock], p\<lparr>serial := Some d', server := st'\<rparr>) \<and>
    handle_chars cs (server p) = Inr st' \<and> serial_wf st' \<and>
    (getchar_present (server p) \<and> statemachine (server p) \<in> {0, 1} \<and> active_client (server p) = int k \<and>
       k < length (getchar_clients (server p)) \<and> ESCAPE_CHAR \<notin> set cs \<and>
       length (client_chars k (server p)) + length cs < GETCHAR_BUF \<longrightarrow>
     client_chars k st' = client_chars k (server p) @ cs \<and>
     (\<forall>j < length (getchar_clients (server p)). j \<noteq> k \<longrightarrow> client_chars j st' = client_chars j (server p)))) \<and>
    serial_server_irq_handle fuel' D answer (p\<lparr>serial := None\<rparr>) =
      Inr ([Lock, Acknowledge, Unlock], p\<lparr>serial := None\<rparr>) \<and>
    ((\<forall>e. fst (cdev_getchar D' e) \<noteq> EOF) \<longrightarrow> serial_server_irq_handle fuel' D' answer p = Inl OutOfFuel)"
proof (intro conjI)
  obtain st' where st': "handle_chars cs (server p) = Inr st'" "serial_wf st'"
    using handle_chars_serial_wf [OF wf] by blast
  have "serial_server_irq_handle fuel D answer p =
      Inr ([Lock, Acknowledge, Unlock], p\<lparr>serial := Some d', server := st'\<rparr>)"
    using dev(1) ok st'(1)
    by (simp add: serial_server_irq_handle_def plat_serial_interrupt_def getchar_loop_reads [OF dev(2) fuel] each_handle_char)
  with st' text_delivered [of "server p" k cs] wf
  show "\<exists>st'. serial_server_irq_handle fuel D answer p =
      Inr ([Lock, Acknowledge, Unlock], p\<lparr>serial := Some d', server := st'\<rparr>) \<and>
    handle_chars cs (server p) = Inr st' \<and> serial_wf st' \<and>
    (getchar_present (server p) \<and> statemachine (server p) \<in> {0, 1} \<and> active_client (server p) = int k \<and>
       k < length (getchar_clients (server p)) \<and> ESCAPE_CHAR \<notin> set cs \<and>
       length (client_chars k (server p)) + length cs < GETCHAR_BUF \<longrightarrow>
     client_chars k st' = client_chars k (server p) @ cs \<and>
     (\<forall>j < length (getchar_clients (server p)). j \<noteq> k \<longrightarrow> client_chars j st' = client_chars j (server p)))"
    by (auto simp: serial_wf_def)
  show "serial_server_irq_handle fuel' D answer (p\<lparr>serial := None\<rparr>) =
      Inr ([Lock, Acknowledge, Unlock], p\<lparr>serial := None\<rparr>)"
    using ok by (simp add: serial_server_irq_handle_def plat_serial_interrupt_def)
  show "(\<forall>e. fst (cdev_getchar D' e) \<noteq> EOF) \<longrightarrow> serial_server_irq_handle fuel' D' answer p = Inl OutOfFuel"
  proof
    assume "\<forall>e. fst (cdev_getchar D' e) \<noteq> EOF"
    then have "getchar_loop fuel' D' handle_char (cdev_handle_irq D' d) (server p) = Inl OutOfFuel"
      by (intro getchar_loop_stuck [where I = serial_wf]) (auto simp: wf handle_char_serial_wf)
    with dev(1) ok(1) show "serial_server_irq_handle fuel' D' answer p = Inl OutOfFuel"
      by (simp add: serial_server_irq_handle_def plat_serial_interrupt_def)
  qed
qed

text \<open>A device with a receive queue, and one whose line is stuck.\<close>

definition fifo_dev :: "u8 list chardev" where
  "fifo_dev =
     \<lparr>cdev_getchar = (\<lambda>q. case q of [] \<Rightarrow> (EOF, []) | c # cs \<Rightarrow> (ucast c, cs)),
      cdev_putchar = (\<lambda>c q. q), cdev_handle_irq = (\<lambda>q. q)\<rparr>"

lemma fifo_reads: "reads fifo_dev cs cs []"
  by (induction cs) (simp_all add: fifo_dev_def)

lemma demo_serial_wf: "serial_wf demo_serial"
proof -
  have "out_wf demo_serial"
    using serial_static_wf unfolding serial_wf_def out_wf_def by (simp add: demo_serial_def pre_init_def)
  with demo_serial_ok(1) show ?thesis by (simp add: serial_wf_def)
qed

theorem serial_interrupt_drains_witness:
  "\<exists>st'. serial_server_irq_handle 4 fifo_dev (\<lambda>_. 0) \<lparr>serial = Some [104, 105, 13], server = demo_serial\<rparr> =
      Inr ([Lock, Acknowledge, Unlock], \<lparr>serial = Some [], server = st'\<rparr>) \<and>
    client_chars 0 st' = [104, 105, 13] \<and> client_chars 1 st' = []"
proof -
  let ?p = "\<lparr>serial = Some [104, 105, 13], server = demo_serial\<rparr> :: (u8 list, serial_state) plat_state"
  have wf: "serial_wf (server ?p)" using demo_serial_wf by simp
  have dev: "serial ?p = Some [104, 105, 13]"
    "reads fifo_dev [104, 105, 13] (cdev_handle_irq fifo_dev [104, 105, 13]) []"
    using fifo_reads [of "[104, 105, 13]"] by (simp_all add: fifo_dev_def)
  have "(1 :: nat) < 2" by simp
  with serial_interrupt_drains [OF wf dev, of 4 "\<lambda>_. 0" 0, THEN conjunct1] demo_serial_ok
  show ?thesis by fastforce
qed

end
