(* ===== verification/IospaceDma.thy ===== *)
theory IospaceDma
  imports Prelude "HOL-Library.Char_ord"
begin

text \<open>
  Two modules of components with dynamic allocation:
  \<open>components/modules/dynamic-untyped-allocators\<close>, which sets up the allocators and then runs the
  component's dynamic modules, and one of these, \<open>components/modules/x86-iospace-dma\<close>, which lets a PCI
  device reach the component's DMA frames through the IOMMU.

  The allocators, the address space library and the boot information are not part of the repository: their
  answers are parameters. \<open>sscanf\<close> is modelled for the conversions that are used, as in the C library of
  the system: a number too big for 64 bits is read as the largest one, and stored modulo the size of the
  variable. The variables \<open>bus\<close> and \<open>dev\<close> are not initialised; what they hold is a parameter, too.
\<close>

section \<open>Reading the configuration\<close>

definition blank :: "char \<Rightarrow> bool" where
  "blank c \<longleftrightarrow> c = CHR '' '' \<or> (9 \<le> (of_char c :: nat) \<and> (of_char c :: nat) \<le> 13)"

definition digit :: "char \<Rightarrow> nat option" where
  "digit c =
     (let n = of_char c :: nat
      in if 48 \<le> n \<and> n \<le> 57 then Some (n - 48)
         else if 97 \<le> n \<and> n \<le> 102 then Some (n - 87)
         else if 65 \<le> n \<and> n \<le> 70 then Some (n - 55) else None)"

definition is_digit :: "nat \<Rightarrow> char \<Rightarrow> bool" where
  "is_digit base c \<longleftrightarrow> (case digit c of None \<Rightarrow> False | Some d \<Rightarrow> d < base)"

fun digits_value :: "nat \<Rightarrow> nat \<Rightarrow> string \<Rightarrow> nat" where
  "digits_value base acc [] = acc"
| "digits_value base acc (c # cs) = digits_value base (acc * base + the (digit c)) cs"

definition scan_sign :: "string \<Rightarrow> bool \<times> string" where
  "scan_sign s =
     (case s of c # cs \<Rightarrow> if c = CHR ''-'' then (True, cs) else if c = CHR ''+'' then (False, cs) else (False, s)
      | [] \<Rightarrow> (False, []))"

definition scan_prefix :: "nat \<Rightarrow> string \<Rightarrow> string" where
  "scan_prefix base s =
     (case s of z # x # cs \<Rightarrow> if base = 16 \<and> z = CHR ''0'' \<and> (x = CHR ''x'' \<or> x = CHR ''X'') then cs else s
      | _ \<Rightarrow> s)"

definition scan_int :: "nat \<Rightarrow> string \<Rightarrow> (int \<times> string) option" where
  "scan_int base s =
     (let (neg, s1) = scan_sign (dropWhile blank s);
          s2 = scan_prefix base s1;
          ds = takeWhile (is_digit base) s2;
          v = digits_value base 0 ds
      in if ds = [] then None
         else Some (if 2 ^ 64 \<le> int v then 2 ^ 64 - 1 else if neg then - int v else int v,
                    dropWhile (is_digit base) s2))"

fun expect :: "char \<Rightarrow> string \<Rightarrow> string option" where
  "expect c [] = None"
| "expect c (d # ds) = (if c = d then Some ds else None)"

text \<open>\<open>sscanf(s, "%hx:%x:%x.%d", ...)\<close>: the numbers that are assigned, in order.\<close>

fun scan_all :: "(nat \<times> char option) list \<Rightarrow> string \<Rightarrow> int list" where
  "scan_all [] s = []"
| "scan_all ((base, sep) # fs) s =
     (case scan_int base s of
        None \<Rightarrow> []
      | Some (v, rest) \<Rightarrow>
          v # (case sep of
                 None \<Rightarrow> scan_all fs rest
               | Some c \<Rightarrow> (case expect c rest of None \<Rightarrow> [] | Some rest1 \<Rightarrow> scan_all fs rest1)))"

definition scan_config :: "string \<Rightarrow> int list" where
  "scan_config = scan_all [(16, Some (CHR '':'')), (16, Some (CHR '':'')), (16, Some (CHR ''.'')), (10, None)]"

record iospace_vars =
  iospace_id :: u16
  bus :: cint
  dev :: cint
  func :: cint

definition assigned :: "int list \<Rightarrow> nat \<Rightarrow> 'a::len word \<Rightarrow> 'a word" where
  "assigned vs i x = (if i < length vs then of_int (vs ! i) else x)"

definition assign :: "int list \<Rightarrow> iospace_vars \<Rightarrow> iospace_vars" where
  "assign vs v =
     \<lparr>iospace_id = assigned vs 0 (iospace_id v), bus = assigned vs 1 (bus v), dev = assigned vs 2 (dev v),
      func = assigned vs 3 (func v)\<rparr>"

definition pci_bdf :: "iospace_vars \<Rightarrow> cint" where
  "pci_bdf v = bus v * 256 + dev v * 8 + func v"

section \<open>The IOMMU module\<close>

datatype get_cap_fn = OriginalGetCap | GetDmaFrameCap

record dma_frame =
  df_vaddr :: u64
  df_size :: u64

record iospace_state =
  get_cap :: get_cap_fn
  original_vspace_get_cap :: "get_cap_fn option"
  dma_pinned :: bool
  iospace_mapped :: "dma_frame list"

record iospace_env =
  cspace_alloc :: cint
  get_iospace :: "u16 \<Rightarrow> cint \<Rightarrow> cint"
  make_iommu_dma_alloc :: cint
  dma_alloc_iospace :: "dma_frame \<Rightarrow> cint"

definition get_dma_frame_cap :: "(u64 \<Rightarrow> u64) \<Rightarrow> (u64 \<Rightarrow> u64) \<Rightarrow> u64 \<Rightarrow> u64" where
  "get_dma_frame_cap camkes_dma_get_cptr original vaddr =
     (let cap = camkes_dma_get_cptr vaddr in if cap = 0 then original vaddr else cap)"

definition dma_pin :: "u64 \<Rightarrow> u64 \<Rightarrow> u64" where
  "dma_pin addr len = addr"

text \<open>The capability that the address space of the module answers for an address.\<close>

definition vspace_get_cap :: "(u64 \<Rightarrow> u64) \<Rightarrow> (u64 \<Rightarrow> u64) \<Rightarrow> iospace_state \<Rightarrow> u64 \<Rightarrow> u64" where
  "vspace_get_cap camkes_dma_get_cptr original st =
     (case get_cap st of
        OriginalGetCap \<Rightarrow> original
      | GetDmaFrameCap \<Rightarrow> get_dma_frame_cap camkes_dma_get_cptr original)"

fun map_frames :: "iospace_env \<Rightarrow> dma_frame list \<Rightarrow> iospace_state \<Rightarrow> cint \<times> iospace_state" where
  "map_frames E [] st = (0, st)"
| "map_frames E (f # fs) st =
     (let error = dma_alloc_iospace E f
      in if error \<noteq> 0 then (error, st)
         else map_frames E fs (st\<lparr>iospace_mapped := iospace_mapped st @ [f]\<rparr>))"

fun map_pools :: "iospace_env \<Rightarrow> dma_frame list list \<Rightarrow> iospace_state \<Rightarrow> cint \<times> iospace_state" where
  "map_pools E [] st = (0, st)"
| "map_pools E (p # ps) st =
     (let (error, st1) = map_frames E p st
      in if error \<noteq> 0 then (error, st1) else map_pools E ps st1)"

definition pc99_iospace_setup ::
    "iospace_env \<Rightarrow> cint \<Rightarrow> cint \<Rightarrow> dma_frame list list \<Rightarrow> string \<Rightarrow> iospace_state \<Rightarrow> cint \<times> iospace_state" where
  "pc99_iospace_setup E bus0 dev0 pools iospace_config st =
     (if iospace_config = [] then (0, st)
      else if cspace_alloc E \<noteq> 0 then (cspace_alloc E, st)
      else
        let v = assign (scan_config iospace_config) \<lparr>iospace_id = 0, bus = bus0, dev = dev0, func = 0\<rparr>;
            error = get_iospace E (iospace_id v) (pci_bdf v)
        in if error \<noteq> 0 then (error, st)
           else
             let st1 = st\<lparr>original_vspace_get_cap := Some (get_cap st), get_cap := GetDmaFrameCap\<rparr>
             in if make_iommu_dma_alloc E \<noteq> 0 then (make_iommu_dma_alloc E, st1)
                else
                  let (error, st2) = map_pools E pools st1
                  in if error \<noteq> 0 then (error, st2) else (0, st2\<lparr>dma_pinned := True\<rparr>))"

section \<open>The dynamic modules\<close>

text \<open>
  \<open>init_system\<close>: the allocators, whose first error code is overwritten, and then every module; the error of
  a module is only reported.
\<close>

type_synonym 's dynamic_module = "'s \<Rightarrow> cint \<times> 's"

fun run_modules :: "'s dynamic_module list \<Rightarrow> 's \<Rightarrow> cint list \<times> 's" where
  "run_modules [] s = ([], s)"
| "run_modules (f # fs) s =
     (let (error, s1) = f s; (errors, s2) = run_modules fs s1
      in ((if error \<noteq> 0 then error # errors else errors), s2))"

definition init_system ::
    "bool \<Rightarrow> cint \<Rightarrow> cint \<Rightarrow> 's dynamic_module list \<Rightarrow> 's \<Rightarrow> (cint \<times> cint list \<times> 's) outcome" where
  "init_system allocman add_untypeds_error vspace_error mods s =
     obind (ensure allocman AssertionFailed) (\<lambda>_.
     obind (ensure (vspace_error = 0) AssertionFailed) (\<lambda>_.
       Inr (0, run_modules mods s)))"

section \<open>Printing a configuration\<close>

definition digit_char :: "nat \<Rightarrow> char" where
  "digit_char d = char_of (if d < 10 then 48 + d else 87 + d)"

function show_base :: "nat \<Rightarrow> nat \<Rightarrow> string" where
  "show_base base n =
     (if n < base \<or> base < 2 then [digit_char n] else show_base base (n div base) @ [digit_char (n mod base)])"
  by pat_completeness auto
termination by (relation "measure snd") (auto intro: div_less_dividend)

declare show_base.simps [simp del]

definition show_config :: "nat \<Rightarrow> nat \<Rightarrow> nat \<Rightarrow> nat \<Rightarrow> string" where
  "show_config io b d f =
     show_base 16 io @ '':'' @ show_base 16 b @ '':'' @ show_base 16 d @ ''.'' @ show_base 10 f"

lemma digit_digit_char: "d < 16 \<Longrightarrow> digit (digit_char d) = Some d"
  by (auto simp: digit_def digit_char_def Let_def of_char_of)

lemma digit_char_plain:
  assumes "d < 16"
  shows "\<not> blank (digit_char d)" "digit_char d \<noteq> CHR ''-''" "digit_char d \<noteq> CHR ''+''"
    "digit_char d \<noteq> CHR ''x''" "digit_char d \<noteq> CHR ''X''"
proof -
  have "d \<in> {0..<16}" using assms by simp
  then have "d \<in> set [0..<16]" by simp
  then have "list_all (\<lambda>d. \<not> blank (digit_char d) \<and> digit_char d \<noteq> CHR ''-'' \<and> digit_char d \<noteq> CHR ''+'' \<and>
      digit_char d \<noteq> CHR ''x'' \<and> digit_char d \<noteq> CHR ''X'') [0..<16] \<longrightarrow>
    \<not> blank (digit_char d) \<and> digit_char d \<noteq> CHR ''-'' \<and> digit_char d \<noteq> CHR ''+'' \<and>
      digit_char d \<noteq> CHR ''x'' \<and> digit_char d \<noteq> CHR ''X''"
    by (simp only: list_all_iff Ball_def) blast
  moreover have "list_all (\<lambda>d. \<not> blank (digit_char d) \<and> digit_char d \<noteq> CHR ''-'' \<and> digit_char d \<noteq> CHR ''+'' \<and>
      digit_char d \<noteq> CHR ''x'' \<and> digit_char d \<noteq> CHR ''X'') [0..<16]"
    by code_simp
  ultimately show "\<not> blank (digit_char d)" "digit_char d \<noteq> CHR ''-''" "digit_char d \<noteq> CHR ''+''"
    "digit_char d \<noteq> CHR ''x''" "digit_char d \<noteq> CHR ''X''" by blast+
qed

lemma digits_value_append: "digits_value base acc (s @ t) = digits_value base (digits_value base acc s) t"
  by (induction s arbitrary: acc) simp_all

lemma show_base_ok:
  assumes "2 \<le> base" "base \<le> 16"
  shows "\<exists>ds. show_base base n = map digit_char ds \<and> ds \<noteq> [] \<and> (\<forall>d \<in> set ds. d < base) \<and>
    digits_value base 0 (show_base base n) = n"
proof (induction n rule: less_induct)
  case (less n)
  show ?case
  proof (cases "n < base")
    case True
    with assms show ?thesis
      by (intro exI [of _ "[n]"]) (simp add: show_base.simps [of base n] digit_digit_char)
  next
    case False
    then have "n div base < n" using assms by (intro div_less_dividend) auto
    from less [OF this] obtain ds where ds: "show_base base (n div base) = map digit_char ds" "ds \<noteq> []"
      "\<forall>d \<in> set ds. d < base" "digits_value base 0 (show_base base (n div base)) = n div base" by blast
    have m: "n mod base < base" "n mod base < 16" using assms mod_less_divisor [of base n] by linarith+
    have s: "show_base base n = show_base base (n div base) @ [digit_char (n mod base)]"
      using False assms by (simp add: show_base.simps [of base n])
    from ds m show ?thesis
      by (intro exI [of _ "ds @ [n mod base]"]) (simp add: s digits_value_append digit_digit_char)
  qed
qed

lemma span_all:
  assumes "\<forall>x \<in> set xs. P x" "case ys of [] \<Rightarrow> True | y # _ \<Rightarrow> \<not> P y"
  shows "takeWhile P (xs @ ys) = xs" "dropWhile P (xs @ ys) = ys"
  using assms by (cases ys; induction xs; simp)+

text \<open>Reading back a printed number.\<close>

lemma scan_int_show:
  assumes base: "2 \<le> base" "base \<le> 16" and n: "n < 2 ^ 64"
    and rest: "case rest of [] \<Rightarrow> True | c # _ \<Rightarrow> \<not> is_digit base c \<and> c \<noteq> CHR ''x'' \<and> c \<noteq> CHR ''X''"
  shows "scan_int base (show_base base n @ rest) = Some (int n, rest)"
proof -
  obtain ds where ds: "show_base base n = map digit_char ds" "ds \<noteq> []" "\<forall>d \<in> set ds. d < base"
    "digits_value base 0 (show_base base n) = n"
    using show_base_ok [OF base] by blast
  obtain d es where d: "ds = d # es" using ds(2) by (cases ds) auto
  have plain: "\<And>e. e \<in> set ds \<Longrightarrow> e < 16" using ds(3) base by auto
  have s: "show_base base n @ rest = digit_char d # map digit_char es @ rest" by (simp add: ds(1) d)
  have blank: "dropWhile blank (show_base base n @ rest) = show_base base n @ rest"
    unfolding s using digit_char_plain(1) [OF plain [of d]] by (simp add: d)
  have sign: "scan_sign (show_base base n @ rest) = (False, show_base base n @ rest)"
    unfolding s using digit_char_plain(2,3) [OF plain [of d]] by (simp add: d scan_sign_def)
  have prefix: "scan_prefix base (show_base base n @ rest) = show_base base n @ rest"
  proof (cases es)
    case Nil
    with rest show ?thesis unfolding s by (auto simp: scan_prefix_def split: list.splits)
  next
    case (Cons e fs)
    then have "e \<in> set ds" by (simp add: d)
    with Cons show ?thesis unfolding s using digit_char_plain(4,5) [OF plain [of e]] by (simp add: scan_prefix_def)
  qed
  have all: "\<forall>c \<in> set (show_base base n). is_digit base c"
    using ds(1,3) plain by (auto simp: is_digit_def digit_digit_char)
  have r: "case rest of [] \<Rightarrow> True | c # _ \<Rightarrow> \<not> is_digit base c" using rest by (cases rest) auto
  note span = span_all [OF all r]
  have "show_base base n \<noteq> []" using ds(1,2) by simp
  then show ?thesis
    using n by (simp add: scan_int_def blank sign prefix span ds(4))
qed

lemma scan_config_show:
  assumes "io < 2 ^ 64" "b < 2 ^ 64" "d < 2 ^ 64" "f < 2 ^ 64"
  shows "scan_config (show_config io b d f) = [int io, int b, int d, int f]"
proof -
  have sep: "\<not> is_digit 16 (CHR '':'')" "\<not> is_digit 16 (CHR ''.'')" by code_simp+
  have last: "scan_int 10 (show_base 10 f) = Some (int f, [])"
    using scan_int_show [of 10 f "[]"] assms(4) by simp
  show ?thesis
    using assms sep by (simp add: scan_config_def show_config_def scan_int_show last)
qed

section \<open>What the module sets up\<close>

lemma map_frames_ok:
  "\<forall>f \<in> set fs. dma_alloc_iospace E f = 0 \<Longrightarrow>
   map_frames E fs st = (0, st\<lparr>iospace_mapped := iospace_mapped st @ fs\<rparr>)"
  by (induction fs arbitrary: st) (simp_all add: Let_def)

lemma map_pools_ok:
  "\<forall>f \<in> set (concat ps). dma_alloc_iospace E f = 0 \<Longrightarrow>
   map_pools E ps st = (0, st\<lparr>iospace_mapped := iospace_mapped st @ concat ps\<rparr>)"
  by (induction ps arbitrary: st) (simp_all add: map_frames_ok)

text \<open>The first frame that cannot be mapped stops the loops.\<close>

lemma map_frames_append:
  "map_frames E (fs @ gs) st =
     (let (error, st1) = map_frames E fs st in if error \<noteq> 0 then (error, st1) else map_frames E gs st1)"
  by (induction fs arbitrary: st) (simp_all add: Let_def split: prod.splits)

lemma map_pools_concat: "map_pools E ps st = map_frames E (concat ps) st"
  by (induction ps arbitrary: st) (auto simp: map_frames_append split: prod.splits)

lemma map_frames_fails:
  assumes "\<forall>f \<in> set fs. dma_alloc_iospace E f = 0" "dma_alloc_iospace E g \<noteq> 0"
  shows "map_frames E (fs @ g # gs) st = (dma_alloc_iospace E g, st\<lparr>iospace_mapped := iospace_mapped st @ fs\<rparr>)"
  using assms by (simp add: map_frames_append map_frames_ok Let_def)

lemma assign_config:
  "assign (scan_config (show_config io b d f)) v =
     \<lparr>iospace_id = of_nat io, bus = of_nat b, dev = of_nat d, func = of_nat f\<rparr>"
  if "io < 2 ^ 64" "b < 2 ^ 64" "d < 2 ^ 64" "f < 2 ^ 64"
  unfolding assign_def assigned_def scan_config_show [OF that] by simp

lemma show_config_not_empty: "show_config io b d f \<noteq> []"
  by (simp add: show_config_def)

section \<open>Properties\<close>

text \<open>
  C38. The IOMMU module opens the device that the configuration names: the printed address
  \<open>iospace:bus:dev.fun\<close> is read back exactly, so that the boot information is asked for the I/O space with
  the number \<open>bus * 256 + dev * 8 + fun\<close>, whatever the uninitialised variables held; on success every frame
  of every DMA pool has been mapped once, in order, pinning is the identity and the address space answers
  the DMA capabilities that CAmkES knows; when a frame cannot be mapped its error is returned and exactly
  the frames before it are mapped.
\<close>

theorem iospace_setup_maps_frames:
  assumes range: "io < 2 ^ 16" "b < 256" "d < 32" "f < 8"
    and ok: "cspace_alloc E = 0" "get_iospace E (of_nat io) (of_nat (b * 256 + d * 8 + f)) = 0" "make_iommu_dma_alloc E = 0"
    and st: "get_cap st = OriginalGetCap" "iospace_mapped st = []"
  shows "\<exists>error st'. pc99_iospace_setup E bus0 dev0 pools (show_config io b d f) st = (error, st') \<and>
    vspace_get_cap cptr orig st' = (\<lambda>a. if cptr a = 0 then orig a else cptr a) \<and>
    ((\<forall>x \<in> set (concat pools). dma_alloc_iospace E x = 0) \<longrightarrow>
       error = 0 \<and> iospace_mapped st' = concat pools \<and> dma_pinned st') \<and>
    (\<forall>fs x gs. concat pools = fs @ x # gs \<and> (\<forall>y \<in> set fs. dma_alloc_iospace E y = 0) \<and> dma_alloc_iospace E x \<noteq> 0 \<longrightarrow>
       error = dma_alloc_iospace E x \<and> iospace_mapped st' = fs \<and> dma_pinned st' = dma_pinned st)"
proof -
  let ?v = "\<lparr>iospace_id = of_nat io, bus = of_nat b, dev = of_nat d, func = of_nat f\<rparr>"
  let ?st1 = "st\<lparr>original_vspace_get_cap := Some (get_cap st), get_cap := GetDmaFrameCap\<rparr>"
  have v: "assign (scan_config (show_config io b d f)) w = ?v" for w
    using range by (intro assign_config) simp_all
  have bdf: "pci_bdf ?v = of_nat (b * 256 + d * 8 + f)" by (simp add: pci_bdf_def)
  obtain error st2 where run: "map_frames E (concat pools) ?st1 = (error, st2)" by fastforce
  have keeps: "get_cap t' = get_cap t \<and> dma_pinned t' = dma_pinned t" if "map_frames E fs t = (e, t')" for e fs t t'
    using that by (induction fs arbitrary: t) (auto simp: Let_def split: if_splits)
  have res: "pc99_iospace_setup E bus0 dev0 pools (show_config io b d f) st =
      (error, if error \<noteq> 0 then st2 else st2\<lparr>dma_pinned := True\<rparr>)"
    using ok bdf by (simp add: pc99_iospace_setup_def show_config_not_empty v map_pools_concat run Let_def)
  have "vspace_get_cap cptr orig (if error \<noteq> 0 then st2 else st2\<lparr>dma_pinned := True\<rparr>) =
      (\<lambda>a. if cptr a = 0 then orig a else cptr a)"
    using keeps [OF run] by (auto simp: vspace_get_cap_def get_dma_frame_cap_def Let_def)
  moreover have "error = 0 \<and> iospace_mapped st2 = concat pools" if "\<forall>x \<in> set (concat pools). dma_alloc_iospace E x = 0"
    using run map_frames_ok [OF that, of ?st1] st(2) by auto
  moreover have "error = dma_alloc_iospace E x \<and> iospace_mapped st2 = fs \<and> dma_pinned st2 = dma_pinned st"
    if "concat pools = fs @ x # gs" "\<forall>y \<in> set fs. dma_alloc_iospace E y = 0" "dma_alloc_iospace E x \<noteq> 0" for fs x gs
    using run map_frames_fails [OF that(2,3), of gs ?st1] st(2) that(1) by auto
  ultimately show ?thesis using res by (intro exI conjI) (assumption | force)+
qed

definition sample_env :: iospace_env where
  "sample_env =
     \<lparr>cspace_alloc = 0, get_iospace = (\<lambda>io bdf. if io = 15 \<and> bdf = 0x1FD then 0 else 1),
      make_iommu_dma_alloc = 0, dma_alloc_iospace = (\<lambda>f. if df_size f = 4096 then 0 else 2)\<rparr>"

definition sample_iospace :: iospace_state where
  "sample_iospace =
     \<lparr>get_cap = OriginalGetCap, original_vspace_get_cap = None, dma_pinned = False, iospace_mapped = []\<rparr>"

definition frame :: "u64 \<Rightarrow> dma_frame" where
  "frame a = \<lparr>df_vaddr = a, df_size = 4096\<rparr>"

theorem iospace_setup_maps_frames_witness:
  "\<exists>st'. pc99_iospace_setup sample_env 7 7 [[frame 0, frame 4096], [], [frame 8192]] ''f:1:1f.5'' sample_iospace = (0, st') \<and>
    iospace_mapped st' = [frame 0, frame 4096, frame 8192] \<and> dma_pinned st'"
proof -
  have c: "show_config 15 1 31 5 = ''f:1:1f.5''" by code_simp
  have ok: "cspace_alloc sample_env = 0" "get_iospace sample_env (of_nat 15) (of_nat (1 * 256 + 31 * 8 + 5)) = 0"
    "make_iommu_dma_alloc sample_env = 0"
    by (simp_all add: sample_env_def)
  have st: "get_cap sample_iospace = OriginalGetCap" "iospace_mapped sample_iospace = []"
    by (simp_all add: sample_iospace_def)
  have frames: "\<forall>x \<in> set (concat [[frame 0, frame 4096], [], [frame 8192]]). dma_alloc_iospace sample_env x = 0"
    by (simp add: sample_env_def frame_def)
  have range: "(15 :: nat) < 2 ^ 16" "(1 :: nat) < 256" "(31 :: nat) < 32" "(5 :: nat) < 8" by simp_all
  obtain error st' where "pc99_iospace_setup sample_env 7 7 [[frame 0, frame 4096], [], [frame 8192]]
      (show_config 15 1 31 5) sample_iospace = (error, st')"
    "error = 0 \<and> iospace_mapped st' = concat [[frame 0, frame 4096], [], [frame 8192]] \<and> dma_pinned st'"
    using iospace_setup_maps_frames [OF range ok st, of 7 7 "[[frame 0, frame 4096], [], [frame 8192]]"] frames by blast
  then show ?thesis unfolding c by simp
qed

text \<open>
  A configuration that does not have this form is not noticed: the variables that were not read keep what
  they held, and the device they happen to name is opened.
\<close>

theorem iospace_setup_reads_garbage:
  assumes "cspace_alloc E = 0" "get_iospace E 15 (bus0 * 256 + dev0 * 8) \<noteq> 0"
  shows "pc99_iospace_setup E bus0 dev0 pools ''f 1:1f.5'' st = (get_iospace E 15 (bus0 * 256 + dev0 * 8), st)"
proof -
  have "scan_config ''f 1:1f.5'' = [15]" by code_simp
  then show ?thesis using assms by (simp add: pc99_iospace_setup_def assign_def assigned_def pci_bdf_def Let_def)
qed

text \<open>
  \<open>init_system\<close> reports success, and the other modules run, whatever a dynamic module answers: in particular
  the component starts when its device could not be given access to the DMA frames.
\<close>

lemma run_modules_append:
  "run_modules (fs @ gs) s =
     (let (errors, s1) = run_modules fs s; (errors', s2) = run_modules gs s1 in (errors @ errors', s2))"
  by (induction fs arbitrary: s) (auto simp: Let_def split: prod.splits)

theorem init_system_ignores_modules:
  assumes "run_modules before s = (errors, s1)" "m s1 = (error, s2)" "error \<noteq> 0" "run_modules after s2 = (errors', s3)"
  shows "init_system True add_error 0 (before @ m # after) s = Inr (0, errors @ error # errors', s3)"
  using assms by (simp add: init_system_def run_modules_append)

end
