(* ===== verification/RpcSystem.thy ===== *)
theory RpcSystem
  imports RpcServer Notifier
begin

text \<open>
  A server of resources as a component: remote calls (\<open>RpcServer\<close>) that reach its operations through the event
  loop (\<open>SingleThreaded\<close>), each told the number of the client end that called, which is what the generated
  \<open>get_sender_id\<close> answers. The locale \<open>owned_service\<close> states what the operations of a server promise that
  gives resources to their first user, and proves it of the whole component for arbitrary messages.
\<close>

section \<open>Operations behind a connection\<close>

text \<open>
  \<open>serve k req\<close> is the operation that the unmarshalled request \<open>req\<close> of client \<open>k\<close> calls; requests carry
  the name of their method. It asks for no notification.
\<close>

definition with_service ::
    "(u64 \<Rightarrow> 'i \<Rightarrow> 'c \<Rightarrow> 'o \<times> 'c) \<Rightarrow> ('c, 'ty, 'i, 'o) rpc_server \<Rightarrow> ('c, 'ty, 'i, 'o) rpc_server" where
  "with_service serve S =
     S\<lparr>implementation := (\<lambda>name badge req c. let (ret, c') = serve (get_sender_id S badge) req c in (ret, c', []))\<rparr>"

text \<open>The method and the request that a message of client end \<open>i\<close> amounts to; other messages are dropped.\<close>

definition request :: "('c, 'ty, 'i, 'o) rpc_server \<Rightarrow> nat \<Rightarrow> rpc_msg \<Rightarrow> (('i, 'o) rpc_method \<times> 'i) option" where
  "request S i info =
     (case method_index S i info of
        None \<Rightarrow> None
      | Some call \<Rightarrow>
          if call < length (client_methods S i) then
            map_option (Pair (client_methods S i ! call))
              (unmarshal_inputs (client_methods S i ! call) (msg_buf info) (msg_length info * 8))
          else None)"

text \<open>No error of a message stops the component.\<close>

definition lenient :: "('c, 'ty, 'i, 'o) rpc_server \<Rightarrow> bool" where
  "lenient S \<longleftrightarrow> (\<forall>e. error_handler S e = CEA_DISCARD \<or> error_handler S e = CEA_IGNORE)"

definition fits :: "('c, 'ty, 'i, 'o) rpc_server \<Rightarrow> rpc_msg \<Rightarrow> bool" where
  "fits S info \<longleftrightarrow> msg_length info \<le> seL4_MsgMaxLength S"

lemma lenient_goes_on: "lenient S \<Longrightarrow> error_handler S e \<noteq> CEA_ABORT \<and> error_handler S e \<noteq> CEA_HALT"
  by (metis lenient_def error_action.distinct)

lemma with_service_simps [simp]:
  "badges (with_service serve S) = badges S" "from_types (with_service serve S) = from_types S"
  "methods (with_service serve S) = methods S" "unmarshal_index (with_service serve S) = unmarshal_index S"
  "error_handler (with_service serve S) = error_handler S"
  "seL4_MsgMaxLength (with_service serve S) = seL4_MsgMaxLength S"
  "rpc_wf (with_service serve S) = rpc_wf S" "method_index (with_service serve S) = method_index S"
  by (simp_all add: with_service_def rpc_wf_def method_index_def fun_eq_iff)

definition served_result ::
    "('i, 'o) rpc_method \<Rightarrow> rpc_msg \<Rightarrow> 'o \<times> 'c \<Rightarrow> int \<times> rpc_msg \<times> 'c \<times> action list" where
  "served_result m info r =
     (case marshal_outputs m (msg_buf info) (fst r) of
        None \<Rightarrow> (0, info, snd r, [])
      | Some (len, buf) \<Rightarrow> (1, reply_recv len buf, snd r, []))"

lemma handle_service:
  assumes "rpc_wf S" "i < length (badges S)" "fits S info"
  shows "case request S i info of
      Some (m, req) \<Rightarrow>
        handle_message (with_service serve S) (badges S ! i) info c = Inr (served_result m info (serve (of_nat i) req c))
    | None \<Rightarrow>
        (\<forall>x. handle_message (with_service serve S) (badges S ! i) info c = Inr x \<longrightarrow> (\<exists>r m. x = (r, m, c, []) \<and> r \<in> {0, 1})) \<and>
        (lenient S \<longrightarrow> (\<exists>x. handle_message (with_service serve S) (badges S ! i) info c = Inr x))"
proof -
  have id: "get_sender_id S (badges S ! i) = of_nat i" by (rule get_sender_id_nth [OF assms(1,2)])
  note h = handle_message_client [of "with_service serve S" i info c, simplified, OF assms(1,2) assms(3) [unfolded fits_def]]
  show ?thesis
    unfolding h
    using id lenient_goes_on [of S]
    by (auto simp: request_def call_method_def with_service_def rpc_err_def served_result_def Let_def
        split: option.splits error_action.splits prod.splits)
qed

text \<open>What any message of a client of the connection can do.\<close>

lemma service_step:
  assumes "rpc_wf S" "b \<in> set (badges S)" and run: "handle_message (with_service serve S) b info c = Inr (r, m, c', as)"
  shows "as = [] \<and> r \<in> {0, 1} \<and>
    (c' = c \<or> (\<exists>i < length (badges S). \<exists>req. b = badges S ! i \<and> c' = snd (serve (of_nat i) req c)))"
proof -
  obtain i where i: "i < length (badges S)" "b = badges S ! i" using assms(2) by (metis in_set_conv_nth)
  have size: "fits S info"
    using run by (auto simp: handle_message_def obind_eq_Inr fits_def Let_def)
  from handle_service [OF assms(1) i(1) size, of serve c] run i show ?thesis
    by (auto simp: served_result_def split: option.splits)
qed

lemma service_returns:
  assumes "lenient S" "fits S info"
  shows "\<exists>x. handle_message (with_service serve S) b info c = Inr x"
proof (cases "handle_message (with_service serve S) b info c")
  case (Inl e)
  have err: "rpc_err (with_service serve S) e' info c \<noteq> Inl e" for e'
    using lenient_goes_on [OF assms(1), of e'] by (auto simp: rpc_err_def split: error_action.splits)
  have "handle_message (with_service serve S) b info c \<noteq> Inl e"
    using assms(2) err by (simp add: handle_message_def fits_def Let_def split: option.split)
  with Inl show ?thesis by simp
next
  case (Inr x)
  then show ?thesis by blast
qed

text \<open>A request through the event loop: the operation runs once and its result is the reply.\<close>

lemma iteration_serves:
  assumes wf: "rpc_wf S" and i: "i < length (badges S)" and size: "fits S info" and req: "request S i info = Some (m, req)"
    and code: "component_does registers_nothing D" "traces_ok D st"
    and base: "badges S ! i AND endpoint_base D = endpoint_base D"
    and conn: "find_connection (connections D) (badges S ! i) = Some (handle_message (with_service serve S))"
    and serve: "serve (of_nat i) req (comp st) = (ret, c')"
  obtains st' es where "loop_iteration D n (badges S ! i, info) st = Inr st'" "comp st' = c'" "events st' = events st @ es"
    "\<And>len buf. marshal_outputs m (msg_buf info) ret = Some (len, buf) \<Longrightarrow>
       \<exists>e \<in> {Reply (reply_recv len buf), SendSaved (reply_recv len buf)}.
         es = [MessageHandled (badges S ! i) 1 (reply_recv len buf), e, Recv]"
proof -
  obtain r info' where call: "handle_message (with_service serve S) (badges S ! i) info (comp st) = Inr (r, info', c', [])"
    and r: "r = 0 \<or> r = 1"
    and out: "\<And>len buf. marshal_outputs m (msg_buf info) ret = Some (len, buf) \<Longrightarrow> r = 1 \<and> info' = reply_recv len buf"
    using handle_service [OF wf i size, of serve "comp st"] req serve
    by (cases "marshal_outputs m (msg_buf info) ret") (auto simp: served_result_def)
  obtain st3 where st3: "events st3 = events st @ [MessageHandled (badges S ! i) r info']" "comp st3 = c'"
    and step: "loop_iteration D n (badges S ! i, info) st =
       (if r = 1 then Inr (send_response D info' st3) else if r = 0 then Inr (log_event Recv st3)
        else notification_branch D n (badges S ! i) st3)"
    by (rule iteration_handled [OF code base conn call, of n]) auto
  show thesis
  proof (cases "r = 1")
    case True
    obtain e where "e \<in> {Reply info', SendSaved info'}" "events (send_response D info' st3) = events st3 @ [e, Recv]"
      using events_send_response [of info' D st3] by blast
    with True st3 step out show thesis
      by (intro that [of "send_response D info' st3" "[MessageHandled (badges S ! i) r info', e, Recv]"]) auto
  next
    case False
    with r st3 step out show thesis
      by (intro that [of "log_event Recv st3" "[MessageHandled (badges S ! i) r info', Recv]"])
        (auto simp: log_event_def)
  qed
qed

text \<open>A component \<open>C\<close> with one connection more, before its others.\<close>

definition add_connection ::
    "u64 list \<times> ('c, 'm) message_handler \<Rightarrow> ('c, 'm) component \<Rightarrow> ('c, 'm) component" where
  "add_connection conn C = C\<lparr>connections := conn # connections C\<rparr>"

lemma add_connection_simps [simp]:
  "callback (add_connection conn C) = callback C" "connections (add_connection conn C) = conn # connections C"
  "handle_global_endpoint_irq (add_connection conn C) = handle_global_endpoint_irq C"
  "notification_base (add_connection conn C) = notification_base C"
  "endpoint_base (add_connection conn C) = endpoint_base C" "num_traces (add_connection conn C) = num_traces C"
  by (simp_all add: add_connection_def)

lemma service_does:
  assumes "component_does A C"
  shows "component_does A (add_connection (rpc_connection (with_service serve S)) C)"
proof -
  have "as = []" if "handle_message (with_service serve S) b m c = Inr (r, m', c', as)" for b m c r m' c' as
    using that
    by (auto simp: handle_message_def rpc_err_def call_method_def obind_eq_Inr Let_def with_service_def
        split: option.splits if_splits error_action.splits prod.splits)
  with assms show ?thesis by (fastforce simp: component_does_def rpc_connection_def)
qed

lemma service_handlers_return:
  assumes "lenient S" "handlers_return V C" "\<forall>m. V m \<longrightarrow> fits S m"
  shows "handlers_return V (add_connection (rpc_connection (with_service serve S)) C)"
  using assms(2,3) service_returns [OF assms(1)] by (simp add: handlers_return_def rpc_connection_def)

text \<open>A component that does nothing but answer its connections, of which there are none yet.\<close>

definition answers_only :: "('c, 'm) component \<Rightarrow> bool" where
  "answers_only C \<longleftrightarrow> (\<forall>f b k c. callback C f b k c = (c, [])) \<and>
     (\<forall>b c. \<exists>n. handle_global_endpoint_irq C b c = (n, c, [])) \<and> connections C = []"

lemma answers_only_ok:
  assumes "answers_only C"
  shows "component_does A C" "handlers_return V C" "component_keeps Q C"
proof -
  have irq: "snd (handle_global_endpoint_irq C b c) = (c, [])" for b c
    using assms unfolding answers_only_def by (metis snd_conv)
  with assms show "component_does A C" "handlers_return V C" "component_keeps Q C"
    by (simp_all add: answers_only_def component_does_def handlers_return_def component_keeps_def)
qed

section \<open>Servers of resources\<close>

text \<open>
  \<open>about req r\<close>: the request uses resource \<open>r\<close> on behalf of its owner. Clients are numbers of ends; a server
  may need that one number is never used.
\<close>

locale owned_service =
  fixes inv :: "'c \<Rightarrow> bool" and client :: "u64 \<Rightarrow> bool" and owner :: "'c \<Rightarrow> 'r \<Rightarrow> u64 option"
    and serve :: "u64 \<Rightarrow> 'i \<Rightarrow> 'c \<Rightarrow> 'o \<times> 'c" and about :: "'i \<Rightarrow> 'r \<Rightarrow> bool"
  assumes serve_inv: "inv c \<Longrightarrow> client k \<Longrightarrow> inv (snd (serve k req c))"
    and serve_owner: "inv c \<Longrightarrow> client k \<Longrightarrow> owner c r = Some d \<Longrightarrow> owner (snd (serve k req c)) r = Some d"
    and serve_first: "inv c \<Longrightarrow> client k \<Longrightarrow> owner c r = None \<Longrightarrow> owner (snd (serve k req c)) r \<in> {None, Some k}"
    and serve_refused: "inv c \<Longrightarrow> client k \<Longrightarrow> owner c r = Some d \<Longrightarrow> k \<noteq> d \<Longrightarrow> about req r \<Longrightarrow>
      snd (serve k req c) = c"
begin

text \<open>The states that can follow \<open>c0\<close> when there are \<open>n\<close> clients.\<close>

definition follows :: "nat \<Rightarrow> 'c \<Rightarrow> 'c \<Rightarrow> bool" where
  "follows n c0 c \<longleftrightarrow> inv c \<and> (\<forall>r d. owner c0 r = Some d \<longrightarrow> owner c r = Some d) \<and>
     (\<forall>r d. owner c r = Some d \<longrightarrow> owner c0 r = Some d \<or> (\<exists>i < n. d = of_nat i))"

lemma follows_refl: "inv c \<Longrightarrow> follows n c c"
  by (simp add: follows_def)

lemma follows_serve:
  assumes "follows n c0 c" "i < n" "client (of_nat i)"
  shows "follows n c0 (snd (serve (of_nat i) req c))"
proof -
  let ?c = "snd (serve (of_nat i) req c)"
  have inv: "inv c" using assms(1) by (simp add: follows_def)
  have "owner c0 r = Some d \<or> (\<exists>i < n. d = of_nat i)" if "owner ?c r = Some d" for r d
    using that assms serve_owner [OF inv assms(3), of r] serve_first [OF inv assms(3), of r req]
    by (cases "owner c r") (auto simp: follows_def)
  then show ?thesis
    using assms serve_inv [OF inv assms(3)] serve_owner [OF inv assms(3)] by (auto simp: follows_def)
qed

lemma connection_follows:
  assumes wf: "rpc_wf S" and clients: "\<forall>i < length (badges S). client (of_nat i)" and b: "b \<in> set (badges S)"
    and run: "handle_message (with_service serve S) b info c = Inr (r, m, c', as)"
    and c: "follows (length (badges S)) c0 c"
  shows "follows (length (badges S)) c0 c'" "as = []"
  using service_step [OF wf b run] c clients by (auto intro: follows_serve)

text \<open>The whole component over arbitrary messages, with \<open>C\<close> its other parts.\<close>

lemma component_follows:
  assumes "rpc_wf S" "\<forall>i < length (badges S). client (of_nat i)"
    and "component_keeps (follows (length (badges S)) c0) C"
  shows "component_keeps (follows (length (badges S)) c0) (add_connection (rpc_connection (with_service serve S)) C)"
  using assms(3) connection_follows(1) [OF assms(1,2)]
  by (fastforce simp: component_keeps_def rpc_connection_def)

lemma component_runs:
  assumes D: "D = add_connection (rpc_connection (with_service serve S)) C"
    and S: "rpc_wf S" "\<forall>i < length (badges S). client (of_nat i)" "lenient S"
    and C: "\<And>c0. component_keeps (follows (length (badges S)) c0) C" "component_does registers_nothing C"
      "handlers_return V C" "\<forall>m. V m \<longrightarrow> fits S m"
    and st: "ready D n st" "inv (comp st)" and ms: "\<forall>m \<in> set ms. V (snd m)"
  shows "\<exists>st1. event_loop D n ms st = Inr st1 \<and> ready D n st1 \<and> follows (length (badges S)) (comp st) (comp st1)"
proof -
  have does: "component_does registers_nothing D" "handlers_return V D"
    unfolding D by (intro service_does service_handlers_return C S)+
  obtain st1 where run: "event_loop D n ms st = Inr st1" "ready D n st1"
    using event_loop_ok [OF does st(1) ms] by blast
  have "component_keeps (follows (length (badges S)) (comp st)) D"
    unfolding D by (rule component_follows [OF S(1,2) C(1)])
  from event_loop_keeps [OF this does(1) run(1) follows_refl [OF st(2)]] run show ?thesis by blast
qed

text \<open>A request on another client's resource changes nothing, and is answered.\<close>

lemma component_refuses:
  assumes D: "D = add_connection (rpc_connection (with_service serve S)) C"
    and S: "rpc_wf S" "client (of_nat i)" "component_does registers_nothing C"
    and st: "traces_ok D st" "inv (comp st)" and own: "owner (comp st) r = Some d" "of_nat i \<noteq> d"
    and i: "i < length (badges S)" "badges S ! i AND endpoint_base C = endpoint_base C"
    and req: "fits S info" "request S i info = Some (m, req)" "about req r"
  shows "\<exists>st'. loop_iteration D n (badges S ! i, info) st = Inr st' \<and> comp st' = comp st"
proof -
  obtain ret c' where serve: "serve (of_nat i) req (comp st) = (ret, c')" by fastforce
  have "c' = comp st" using serve_refused [OF st(2) S(2) own req(3)] serve by simp
  have code: "component_does registers_nothing D" unfolding D by (rule service_does [OF S(3)])
  have conn: "find_connection (connections D) (badges S ! i) = Some (handle_message (with_service serve S))"
    using i(1) by (simp add: D rpc_connection_def)
  have base: "badges S ! i AND endpoint_base D = endpoint_base D" using i(2) by (simp add: D)
  obtain st' where "loop_iteration D n (badges S ! i, info) st = Inr st'" "comp st' = c'"
    by (rule iteration_serves [OF S(1) i(1) req(1,2) code st(1) base conn serve])
  with \<open>c' = comp st\<close> show ?thesis by blast
qed

text \<open>
  From a state without owners: whoever owns a resource after any messages is a client, stays the owner over any
  further messages, and no other client's request on the resource has an effect.
\<close>

lemma component_protects:
  assumes D: "D = add_connection (rpc_connection (with_service serve S)) C"
    and S: "rpc_wf S" "\<forall>i < length (badges S). client (of_nat i)" "lenient S"
    and C: "\<And>c0. component_keeps (follows (length (badges S)) c0) C" "component_does registers_nothing C"
      "handlers_return V C" "\<forall>m. V m \<longrightarrow> fits S m" "\<forall>b \<in> set (badges S). b AND endpoint_base C = endpoint_base C"
    and st: "ready D n st" "inv (comp st)" "\<forall>r. owner (comp st) r = None" and ms: "\<forall>m \<in> set ms. V (snd m)"
  shows "\<exists>st1. event_loop D n ms st = Inr st1 \<and> ready D n st1 \<and> inv (comp st1) \<and>
    (\<forall>r d. owner (comp st1) r = Some d \<longrightarrow> (\<exists>k < length (badges S). d = of_nat k) \<and>
      (\<forall>ms'. (\<forall>m \<in> set ms'. V (snd m)) \<longrightarrow>
        (\<exists>st2. event_loop D n ms' st1 = Inr st2 \<and> owner (comp st2) r = Some d)) \<and>
      (\<forall>k info m req. k < length (badges S) \<and> of_nat k \<noteq> d \<and> fits S info \<and> request S k info = Some (m, req) \<and>
          about req r \<longrightarrow>
        (\<exists>st2. loop_iteration D n (badges S ! k, info) st1 = Inr st2 \<and> comp st2 = comp st1)))"
proof -
  note runs = component_runs [OF D S C(1-4)]
  obtain st1 where st1: "event_loop D n ms st = Inr st1" "ready D n st1" "follows (length (badges S)) (comp st) (comp st1)"
    using runs [OF st(1,2) ms] by blast
  have inv: "inv (comp st1)" using st1(3) by (simp add: follows_def)
  have client: "\<exists>k < length (badges S). d = of_nat k" if "owner (comp st1) r = Some d" for r d
    using st1(3) that st(3) by (auto simp: follows_def)
  have stays: "\<exists>st2. event_loop D n ms' st1 = Inr st2 \<and> owner (comp st2) r = Some d"
    if "owner (comp st1) r = Some d" "\<forall>m \<in> set ms'. V (snd m)" for r d ms'
    using runs [OF st1(2) inv that(2)] that(1) by (auto simp: follows_def)
  have refused: "\<exists>st2. loop_iteration D n (badges S ! k, info) st1 = Inr st2 \<and> comp st2 = comp st1"
    if "owner (comp st1) r = Some d" "k < length (badges S)" "of_nat k \<noteq> d" "fits S info" "request S k info = Some (m, req)"
      "about req r" for r d k info m req
  proof (rule component_refuses [OF D S(1) _ C(2) _ inv that(1,3,2) _ that(4-6)])
    show "client (of_nat k)" using S(2) that(2) by blast
    show "traces_ok D st1" using st1(2) by (simp add: ready_def)
    show "badges S ! k AND endpoint_base C = endpoint_base C" using C(5) that(2) by simp
  qed
  show ?thesis
    by (rule exI [of _ st1], intro conjI allI impI st1(1,2) inv; (elim conjE)?)
      (rule client stays refused; assumption)+
qed

end

section \<open>Instances\<close>

text \<open>A component without handlers of its own, its state at the start, and one request to it.\<close>

definition quiet :: "('c, rpc_msg) component" where
  "quiet =
     \<lparr>callback = (\<lambda>f b k c. (c, [])), handle_global_endpoint_irq = (\<lambda>b c. (0, c, [])), connections = [],
      notification_base = 1, endpoint_base = 256, realtime = False, num_traces = None,
      realloc_ok = (\<lambda>_. True), declare_reply_cap = (\<lambda>_. True)\<rparr>"

definition start_with :: "'c \<Rightarrow> ('c, rpc_msg) loop_state" where
  "start_with c =
     \<lparr>reg_handlers = [], trace_points = [], ccnt = of_nat, ccnt_reads = 0, signal_to_send = 0,
      reply_cap_in_tcb = False, comp = c, events = []\<rparr>"

lemma quiet_ok: "answers_only quiet" "endpoint_base quiet = 256" "num_traces quiet = None"
  by (simp_all add: answers_only_def quiet_def)

lemma start_ready: "num_traces D = None \<Longrightarrow> ready D 1 (start_with c)"
  by (simp add: ready_def traces_ok_def start_with_def)

lemma first_request:
  assumes D: "D = add_connection (rpc_connection (with_service serve S)) C" and C: "component_does registers_nothing C"
    "num_traces C = None"
    and S: "rpc_wf S" "k < length (badges S)" "badges S ! k AND endpoint_base C = endpoint_base C"
    and req: "fits S info" "request S k info = Some (m, req)" "serve (of_nat k) req c = (ret, c')"
  shows "\<exists>st1. event_loop D n [(badges S ! k, info)] (start_with c) = Inr st1 \<and> comp st1 = c'"
proof -
  have code: "component_does registers_nothing D" unfolding D by (rule service_does [OF C(1)])
  have tr: "traces_ok D (start_with c)" using start_ready [of D c] C(2) by (simp add: ready_def D)
  have conn: "find_connection (connections D) (badges S ! k) = Some (handle_message (with_service serve S))"
    using S(2) by (simp add: D rpc_connection_def)
  have base: "badges S ! k AND endpoint_base D = endpoint_base D" using S(3) by (simp add: D)
  have serve: "serve (of_nat k) req (comp (start_with c)) = (ret, c')" using req(3) by (simp add: start_with_def)
  obtain st1 where "loop_iteration D n (badges S ! k, info) (start_with c) = Inr st1" "comp st1 = c'"
    by (rule iteration_serves [OF S(1,2) req(1,2) code tr base conn serve])
  then show ?thesis by simp
qed

end
