(* ===== verification/ClockSystem.thy ===== *)
theory ClockSystem
  imports ClockServer RpcSystem
begin

text \<open>
  The clock server as a component (\<open>components/ClockServer/ClockServer.camkes\<close>): a single thread, the
  initialisation module of \<open>templates/ClockServer.template.c\<close>, and the connection over which clients reach the
  procedures of \<open>ClockServer\<close> (\<open>seL4RPCNoThreads\<close>, \<open>camkes-include/camkes-ClockServer.h\<close>).

  The interface's description belongs to another repository: the order of its methods and their marshalling
  are parameters of the connection. A fault stops the component: its state is an \<open>outcome\<close>.
\<close>

section \<open>The component\<close>

text \<open>A request is a call of the procedure it is named after, with the arguments the client sent.\<close>

datatype clock_request =
    Init_clock int
  | Set_gate_mode int int
  | Get_freq int
  | Set_freq int u64
  | Register_child int int

datatype clock_reply = ErrorReply int | FreqReply u64

text \<open>The procedures; \<open>client_id\<close> is what \<open>the_clock_get_sender_id\<close> answers.\<close>

fun clock_serve ::
    "('clk, 'hw) clock_sys \<Rightarrow> u64 \<Rightarrow> clock_request \<Rightarrow> ('clk, 'hw) clock_state outcome \<Rightarrow>
     clock_reply \<times> ('clk, 'hw) clock_state outcome" where
  "clock_serve sys client_id req (Inl e) = (ErrorReply 0, Inl e)"
| "clock_serve sys client_id (Init_clock i) (Inr st) =
     (let (error, st1) = the_clock_init_clock sys client_id i st in (ErrorReply error, Inr st1))"
| "clock_serve sys client_id (Set_gate_mode g m) (Inr st) =
     (let (error, st1) = the_clock_set_gate_mode sys g m st in (ErrorReply error, Inr st1))"
| "clock_serve sys client_id (Get_freq i) (Inr st) =
     (case the_clock_get_freq sys client_id i st of
        Inl e \<Rightarrow> (FreqReply 0, Inl e) | Inr (freq, st1) \<Rightarrow> (FreqReply freq, Inr st1))"
| "clock_serve sys client_id (Set_freq i hz) (Inr st) =
     (case the_clock_set_freq sys client_id i hz st of
        Inl e \<Rightarrow> (FreqReply 0, Inl e) | Inr (freq, st1) \<Rightarrow> (FreqReply freq, Inr st1))"
| "clock_serve sys client_id (Register_child p k) (Inr st) =
     (case the_clock_register_child sys client_id p k st of
        Inl e \<Rightarrow> (ErrorReply 0, Inl e) | Inr (error, st1) \<Rightarrow> (ErrorReply error, Inr st1))"

definition clock_component ::
    "('clk, 'hw) clock_sys \<Rightarrow> (('clk, 'hw) clock_state outcome, 'ty, clock_request, clock_reply) rpc_server \<Rightarrow>
     (('clk, 'hw) clock_state outcome, rpc_msg) component \<Rightarrow> (('clk, 'hw) clock_state outcome, rpc_msg) component" where
  "clock_component sys S C = add_connection (rpc_connection (with_service (clock_serve sys) S)) C"

text \<open>\<open>CAMKES_POST_INIT_MODULE_DEFINE(Clock_server_setup, ClockServer_init)\<close>.\<close>

definition Clock_server_setup ::
    "int option \<Rightarrow> int \<Rightarrow> int \<Rightarrow> nat \<Rightarrow> 'hw \<Rightarrow> ('clk, 'hw) clock_state outcome module" where
  "Clock_server_setup plat_error sys_error calloc_error nclocks hw c =
     (case ClockServer_init plat_error sys_error calloc_error nclocks hw of
        Inl e \<Rightarrow> (0, Inl e, [])
      | Inr (error, st) \<Rightarrow> (error, Inr st, []))"

section \<open>Clocks as resources\<close>

fun clock_fine :: "('clk, 'hw) clock_state outcome \<Rightarrow> bool" where
  "clock_fine (Inl e) \<longleftrightarrow> False"
| "clock_fine (Inr st) \<longleftrightarrow> clock_inv st"

fun clock_holder :: "('clk, 'hw) clock_state outcome \<Rightarrow> int \<Rightarrow> u64 option" where
  "clock_holder (Inl e) i = None"
| "clock_holder (Inr st) i = clock_owner st i"

fun clock_about :: "clock_request \<Rightarrow> int \<Rightarrow> bool" where
  "clock_about (Init_clock i) r \<longleftrightarrow> r = i"
| "clock_about (Set_gate_mode g m) r \<longleftrightarrow> False"
| "clock_about (Get_freq i) r \<longleftrightarrow> r = i"
| "clock_about (Set_freq i hz) r \<longleftrightarrow> r = i"
| "clock_about (Register_child p k) r \<longleftrightarrow> r = p \<or> r = k"

text \<open>A request is one of the calls of \<open>clock_do\<close>, and only \<open>Init_clock\<close> gives a clock away.\<close>

fun clock_call :: "u64 \<Rightarrow> clock_request \<Rightarrow> clock_op" where
  "clock_call c (Init_clock i) = InitClock c i"
| "clock_call c (Set_gate_mode g m) = SetGateMode g m"
| "clock_call c (Get_freq i) = GetFreq c i"
| "clock_call c (Set_freq i hz) = SetFreq c i hz"
| "clock_call c (Register_child p k) = RegisterChild c p k"

lemma clock_serve_do: "snd (clock_serve sys k req (Inr st)) = clock_do sys (clock_call k req) st"
  by (cases req) (auto split: sum.splits prod.splits)

lemma clock_serve_first:
  assumes "clock_inv st" "clock_owner st r = None" "clock_do sys (clock_call k req) st = Inr st'"
  shows "clock_owner st' r \<in> {None, Some k}"
proof (cases req)
  case (Init_clock i)
  then have st': "st' = snd (clock_claim k (i, sys) st)" using assms(3) by (simp add: clock_claim_def)
  show ?thesis
    using clk.claim_free [OF assms(1), where c = k and i = r and a = sys]
      clk.claim_other [OF assms(1), where c = k and j = r and i = i and a = sys] assms(2)
    unfolding st' by (cases "r = i") auto
next
  case (Set_gate_mode g m)
  with assms show ?thesis by (auto simp: the_clock_set_gate_mode_def split: prod.splits)
next
  case (Get_freq i)
  with assms show ?thesis by (cases rule: get_freq_cases [OF assms(1), of i k sys]) auto
next
  case (Set_freq i hz)
  with assms show ?thesis by (cases rule: set_freq_cases [OF assms(1), of i k sys hz]) auto
next
  case (Register_child p j)
  with assms show ?thesis by (cases rule: register_child_cases [OF assms(1), of p k j sys]) auto
qed

interpretation clock_service: owned_service clock_fine "\<lambda>_. True" clock_holder "clock_serve sys" clock_about for sys
proof unfold_locales
  fix c :: "('a, 'b) clock_state outcome" and k req r d
  assume "clock_fine c"
  then obtain st where st: "c = Inr st" "clock_inv st" by (cases c) auto
  obtain st' where st': "clock_do sys (clock_call k req) st = Inr st'" "clock_inv st'"
    "\<forall>i d. clock_owner st i = Some d \<longrightarrow> clock_owner st' i = Some d"
    using clock_do_ok [OF st(2)] by blast
  show "clock_fine (snd (clock_serve sys k req c))" using st st' by (simp add: clock_serve_do)
  show "clock_holder (snd (clock_serve sys k req c)) r = Some d" if "clock_holder c r = Some d"
    using that st st' by (simp add: clock_serve_do)
  show "clock_holder (snd (clock_serve sys k req c)) r \<in> {None, Some k}" if "clock_holder c r = None"
    using clock_serve_first [OF st(2) _ st'(1), of r] that st st' by (simp add: clock_serve_do)
  show "snd (clock_serve sys k req c) = c" if "clock_holder c r = Some d" "k \<noteq> d" "clock_about req r"
  proof (cases req)
    case (Init_clock i)
    then show ?thesis using that st
      by (cases rule: clock_init_cases [of i st sys k]) (auto simp: clock_owner_def)
  next
    case (Get_freq i)
    then show ?thesis using that st by (cases rule: get_freq_cases [OF st(2), of i k sys]) auto
  next
    case (Set_freq i hz)
    then show ?thesis using that st by (cases rule: set_freq_cases [OF st(2), of i k sys hz]) auto
  next
    case (Register_child p j)
    then show ?thesis using that st by (cases rule: register_child_cases [OF st(2), of p k j sys]) auto
  qed (use that in simp)
qed

text \<open>The module leaves a table without owners.\<close>

lemma Clock_server_setup_ok:
  assumes "call_modules D [Clock_server_setup plat 0 0 nclocks hw] st0 = Inr (errs, st)" "plat = None \<or> plat = Some 0"
  obtains cs where "comp st = Inr cs" "clock_inv cs" "\<And>i. clock_owner cs i = None" "errs = []"
  using assms
  by (auto simp: Clock_server_setup_def ClockServer_init_def obind_eq_Inr clock_inv_def clock_owner_def
      check_valid_clk_id_def check_clk_initialised_def)

text \<open>A request to set the frequency of one's own clock, through the event loop.\<close>

lemma clock_system_sets:
  assumes D: "D = clock_component sys S C" and C: "answers_only C" and S: "rpc_wf S"
    and st: "traces_ok D st" "comp st = Inr cs" "clock_inv cs"
    and k: "k < length (badges S)" "badges S ! k AND endpoint_base C = endpoint_base C"
    and own: "clock_owner cs i = Some (of_nat k)"
    and req: "fits S info" "request S k info = Some (m, Set_freq i hz)"
  obtains h st2 es where "ce_clk (clock_table cs ! nat i) = Some h"
    "loop_iteration D n (badges S ! k, info) st = Inr st2"
    "comp st2 = Inr (cs\<lparr>clock_hw := snd (clk_set_freq sys h hz (clock_hw cs))\<rparr>)" "events st2 = events st @ es"
    "\<And>len buf. marshal_outputs m (msg_buf info) (FreqReply (fst (clk_set_freq sys h hz (clock_hw cs)))) = Some (len, buf) \<Longrightarrow>
       \<exists>e \<in> {Reply (reply_recv len buf), SendSaved (reply_recv len buf)}.
         es = [MessageHandled (badges S ! k) 1 (reply_recv len buf), e, Recv]"
proof (cases rule: set_freq_cases [OF st(3), of i "of_nat k" sys hz])
  case 1
  with own show thesis by simp
next
  case yes: (2 h)
  have code: "component_does registers_nothing D"
    unfolding D clock_component_def by (rule service_does [OF answers_only_ok(1) [OF C]])
  have conn: "find_connection (connections D) (badges S ! k) = Some (handle_message (with_service (clock_serve sys) S))"
    using k(1) by (simp add: D clock_component_def rpc_connection_def)
  have base: "badges S ! k AND endpoint_base D = endpoint_base D" using k(2) by (simp add: D clock_component_def)
  have serve: "clock_serve sys (of_nat k) (Set_freq i hz) (comp st) =
      (FreqReply (fst (clk_set_freq sys h hz (clock_hw cs))),
       Inr (cs\<lparr>clock_hw := snd (clk_set_freq sys h hz (clock_hw cs))\<rparr>))"
    using yes(3) st(2) by simp
  show thesis
    by (rule iteration_serves [OF S k(1) req code st(1) base conn serve, of n]) (rule that [OF yes(2)])
qed

section \<open>Properties\<close>


text \<open>A board with two clients; a message holds the method's index and the arguments, a byte each.\<close>

definition demo_clock_method :: "string \<Rightarrow> nat \<Rightarrow> (u8 list \<Rightarrow> clock_request) \<Rightarrow> (clock_request, clock_reply) rpc_method" where
  "demo_clock_method name len f =
     \<lparr>m_name = name, unmarshal_inputs = (\<lambda>buf size. if size < len then None else Some (f buf)),
      marshal_outputs = (\<lambda>buf r. case r of ErrorReply e \<Rightarrow> Some (1, [of_int e]) | FreqReply f \<Rightarrow> Some (8, [ucast f]))\<rparr>"

definition demo_clock_rpc :: "((nat, u64 list) clock_state outcome, string, clock_request, clock_reply) rpc_server" where
  "demo_clock_rpc =
     \<lparr>from_types = [''Clock'', ''Clock''], badges = [256, 257],
      methods = (\<lambda>_. [demo_clock_method ''init_clock'' 2 (\<lambda>buf. Init_clock (uint (buf ! 1))),
                      demo_clock_method ''set_freq'' 3 (\<lambda>buf. Set_freq (uint (buf ! 1)) (ucast (buf ! 2)))]),
      implementation = (\<lambda>name b req c. (ErrorReply 0, c, [])),
      unmarshal_index = (\<lambda>n buf size. if size < 1 then None else Some (unat (hd buf))),
      error_handler = (\<lambda>_. CEA_DISCARD), seL4_MsgMaxLength = 120\<rparr>"

abbreviation demo_clock_server :: "((nat, u64 list) clock_state outcome, rpc_msg) component" where
  "demo_clock_server \<equiv> clock_component demo_clocks demo_clock_rpc quiet"

definition ask_init :: rpc_msg where "ask_init = \<lparr>msg_length = 1, msg_buf = [0, 1]\<rparr>"

definition ask_set :: rpc_msg where "ask_set = \<lparr>msg_length = 1, msg_buf = [1, 1, 99]\<rparr>"

lemma demo_clock_rpc_ok:
  "rpc_wf demo_clock_rpc" "lenient demo_clock_rpc" "length (badges demo_clock_rpc) = 2"
  "badges demo_clock_rpc ! 0 = 256" "badges demo_clock_rpc ! 1 = 257"
  "\<forall>b \<in> set (badges demo_clock_rpc). b AND endpoint_base (quiet :: ((nat, u64 list) clock_state outcome, rpc_msg) component) =
     endpoint_base (quiet :: ((nat, u64 list) clock_state outcome, rpc_msg) component)"
  by (simp_all add: rpc_wf_def lenient_def demo_clock_rpc_def quiet_ok)

lemma demo_clock_requests:
  "fits demo_clock_rpc ask_init" "fits demo_clock_rpc ask_set"
  "\<exists>m. request demo_clock_rpc 0 ask_init = Some (m, Init_clock 1)"
  "\<exists>m. request demo_clock_rpc 1 ask_set = Some (m, Set_freq 1 99)"
  by (simp_all add: fits_def request_def method_index_def demo_clock_rpc_def ask_init_def ask_set_def demo_clock_method_def)

lemma demo_clock_taken:
  "\<exists>st1 cs. event_loop demo_clock_server 1 [(256, ask_init)] (start_with (Inr demo_clock_state)) = Inr st1 \<and>
     comp st1 = Inr cs \<and> clock_owner cs 1 = Some 0"
proof -
  obtain m where m: "request demo_clock_rpc 0 ask_init = Some (m, Init_clock 1)" using demo_clock_requests(3) by blast
  obtain ret cs where serve: "clock_serve demo_clocks (of_nat 0) (Init_clock 1) (Inr demo_clock_state) = (ret, Inr cs)"
    and own: "clock_owner cs 1 = Some 0"
    by (simp add: the_clock_init_clock_def check_valid_clk_id_def check_clk_initialised_def
        demo_clock_state_def demo_clocks_def set_clk_def clock_owner_def)
  have zero: "0 < length (badges demo_clock_rpc)" by (simp add: demo_clock_rpc_ok)
  from first_request [where C = quiet and n = 1, OF clock_component_def answers_only_ok(1) [OF quiet_ok(1)] quiet_ok(3)
      demo_clock_rpc_ok(1) zero _ demo_clock_requests(1) m serve] own
  show ?thesis by (auto simp: demo_clock_rpc_ok quiet_ok)
qed


end
