(* ===== verification/GpioSystem.thy ===== *)
theory GpioSystem
  imports GpioServer RpcSystem
begin

text \<open>
  The GPIO and multiplexer server as a component (\<open>components/GPIOMUXServer/GPIOMUXServer.camkes\<close>): a single
  thread, the initialisation modules of \<open>templates/GPIOServer.template.c\<close> and \<open>MUXServer.template.c\<close>, and a
  connection for each of the two interfaces of \<open>GpioServer\<close>. The pins' hardware and the multiplexer's are
  one hardware state. A fault stops the component: its state is an \<open>outcome\<close>.

  The server marks a free pin with the owner -1, and \<open>get_sender_id\<close> answers -1 to a badge that no client has.
  That the two never meet is a fact about the component, not about the server alone.
\<close>

section \<open>The component\<close>

datatype gpio_request =
    Init_pin int int
  | Set_level int int
  | Read_level int

datatype mux_request =
    Feature_enable int int
  | Feature_disable int

fun gpio_serve ::
    "('gpio, 'hw) gpio_sys \<Rightarrow> pin_allocation \<Rightarrow> u64 \<Rightarrow> gpio_request \<Rightarrow> ('gpio, 'hw) gpio_state outcome \<Rightarrow>
     int \<times> ('gpio, 'hw) gpio_state outcome" where
  "gpio_serve sys al client_id req (Inl e) = (0, Inl e)"
| "gpio_serve sys al client_id (Init_pin i dir) (Inr st) =
     (let (error, st1) = the_gpio_init_pin sys al client_id i dir st in (error, Inr st1))"
| "gpio_serve sys al client_id (Set_level i level) (Inr st) =
     (let (error, st1) = the_gpio_set_level sys client_id i level st in (error, Inr st1))"
| "gpio_serve sys al client_id (Read_level i) (Inr st) =
     (let (ret, st1) = the_gpio_read_level sys client_id i st in (ret, Inr st1))"

fun mux_serve ::
    "'hw mux_sys \<Rightarrow> u64 \<Rightarrow> mux_request \<Rightarrow> ('gpio, 'hw) gpio_state outcome \<Rightarrow>
     int \<times> ('gpio, 'hw) gpio_state outcome" where
  "mux_serve mux client_id req (Inl e) = (0, Inl e)"
| "mux_serve mux client_id (Feature_enable feature dir) (Inr st) =
     (let (error, hw) = the_mux_feature_enable mux feature dir (gpio_hw st) in (error, Inr (st\<lparr>gpio_hw := hw\<rparr>)))"
| "mux_serve mux client_id (Feature_disable feature) (Inr st) =
     (let (error, hw) = the_mux_feature_disable mux feature (gpio_hw st) in (error, Inr (st\<lparr>gpio_hw := hw\<rparr>)))"

definition gpiomux_component ::
    "('gpio, 'hw) gpio_sys \<Rightarrow> pin_allocation \<Rightarrow> 'hw mux_sys \<Rightarrow>
     (('gpio, 'hw) gpio_state outcome, 'ty, gpio_request, int) rpc_server \<Rightarrow>
     (('gpio, 'hw) gpio_state outcome, 'ty, mux_request, int) rpc_server \<Rightarrow>
     (('gpio, 'hw) gpio_state outcome, rpc_msg) component \<Rightarrow> (('gpio, 'hw) gpio_state outcome, rpc_msg) component" where
  "gpiomux_component sys al mux S M C =
     add_connection (rpc_connection (with_service (gpio_serve sys al) S))
       (add_connection (rpc_connection (with_service (mux_serve mux) M)) C)"

text \<open>
  \<open>CAMKES_POST_INIT_MODULE_DEFINE(gpio_server_setup, gpio_component_init)\<close>. The error of a module is only
  reported. When the GPIO subsystem fails the table stays empty; when the table cannot be allocated its size
  has already been set, and the first request for a pin dereferences NULL.
\<close>

definition gpio_server_setup ::
    "int \<Rightarrow> int \<Rightarrow> nat \<Rightarrow> 'gpio \<Rightarrow> 'hw \<Rightarrow> ('gpio, 'hw) gpio_state outcome module" where
  "gpio_server_setup sys_error calloc_error max_gpio_id g0 hw c =
     (case gpio_component_init sys_error calloc_error max_gpio_id g0 hw of
        (error, Some st) \<Rightarrow> (error, Inr st, [])
      | (error, None) \<Rightarrow> (error, if sys_error \<noteq> 0 then Inr \<lparr>gpio_table = [], gpio_hw = hw\<rparr> else Inl NullDeref, []))"

definition mux_server_setup ::
    "('hw \<Rightarrow> int \<times> 'hw) option \<Rightarrow> ('hw \<Rightarrow> int \<times> 'hw) \<Rightarrow> ('gpio, 'hw) gpio_state outcome module" where
  "mux_server_setup plat_init sys_init c =
     (case c of
        Inl e \<Rightarrow> (0, Inl e, [])
      | Inr st \<Rightarrow> (let (error, hw) = mux_component_init plat_init sys_init (gpio_hw st)
                  in (error, Inr (st\<lparr>gpio_hw := hw\<rparr>), [])))"

section \<open>Pins as resources\<close>

fun gpio_fine :: "('gpio, 'hw) gpio_state outcome \<Rightarrow> bool" where
  "gpio_fine (Inl e) \<longleftrightarrow> False"
| "gpio_fine (Inr st) \<longleftrightarrow> gpio_inv st"

fun gpio_holder :: "('gpio, 'hw) gpio_state outcome \<Rightarrow> int \<Rightarrow> u64 option" where
  "gpio_holder (Inl e) i = None"
| "gpio_holder (Inr st) i = gpio_owner st i"

fun gpio_about :: "gpio_request \<Rightarrow> int \<Rightarrow> bool" where
  "gpio_about (Init_pin i dir) r \<longleftrightarrow> r = i"
| "gpio_about (Set_level i level) r \<longleftrightarrow> r = i"
| "gpio_about (Read_level i) r \<longleftrightarrow> r = i"

fun gpio_call :: "u64 \<Rightarrow> gpio_request \<Rightarrow> gpio_op" where
  "gpio_call c (Init_pin i dir) = InitPin c i dir"
| "gpio_call c (Set_level i level) = SetLevel c i level"
| "gpio_call c (Read_level i) = ReadLevel c i"

lemma gpio_client_call [simp]: "gpio_client (gpio_call c req) = c"
  by (cases req) simp_all

lemma gpio_serve_do: "snd (gpio_serve sys al k req (Inr st)) = Inr (gpio_do sys al (gpio_call k req) st)"
  by (cases req) (auto split: prod.splits)

lemma gpio_serve_first:
  assumes "gpio_inv st" "k \<noteq> -1" "gpio_owner st r = None"
  shows "gpio_owner (gpio_do sys al (gpio_call k req) st) r \<in> {None, Some k}"
proof (cases req)
  case (Init_pin i dir)
  have claim: "gpio_do sys al (gpio_call k req) st = snd (gpio_claim k (i, dir, al, sys) st)"
    using Init_pin by (simp add: gpio_claim_def)
  show ?thesis
    using gpio.claim_free [OF assms, where a = "(dir, al, sys)"] gpio.claim_other [OF assms(1,2), where j = r and i = i and a = "(dir, al, sys)"]
      assms(3)
    unfolding claim by (cases "r = i") auto
next
  case (Set_level i level)
  then show ?thesis using assms(3) by (simp add: the_gpio_set_level_def Let_def split: prod.splits)
next
  case (Read_level i)
  then show ?thesis using assms(3) by (simp add: the_gpio_read_level_def Let_def split: prod.splits)
qed

interpretation gpio_service: owned_service gpio_fine "\<lambda>c. c \<noteq> -1" gpio_holder "gpio_serve sys al" gpio_about for sys al
proof unfold_locales
  fix c :: "('a, 'b) gpio_state outcome" and k :: u64 and req r d
  assume "gpio_fine c" and k: "k \<noteq> -1"
  then obtain st where st: "c = Inr st" "gpio_inv st" by (cases c) auto
  note do_ok = gpio_do_ok [OF st(2), of "gpio_call k req", unfolded gpio_client_call, OF k, of sys al]
  show "gpio_fine (snd (gpio_serve sys al k req c))" using st do_ok by (simp add: gpio_serve_do)
  show "gpio_holder (snd (gpio_serve sys al k req c)) r = Some d" if "gpio_holder c r = Some d"
    using that st do_ok by (simp add: gpio_serve_do)
  show "gpio_holder (snd (gpio_serve sys al k req c)) r \<in> {None, Some k}" if "gpio_holder c r = None"
    using gpio_serve_first [OF st(2) k, of r] that st by (simp add: gpio_serve_do)
  show "snd (gpio_serve sys al k req c) = c" if "gpio_holder c r = Some d" "k \<noteq> d" "gpio_about req r"
  proof -
    have own: "gpio_owner st r = Some d" using that(1) st(1) by simp
    then have v: "check_valid_gpio_id r st" by (simp add: gpio_owner_def split: if_splits)
    note owns = gpio_owns [OF st(2) v k]
    show ?thesis
    proof (cases req)
      case (Init_pin i dir)
      then show ?thesis using that own st(1)
        by (cases rule: gpio_init_cases [OF st(2) k, of i sys al dir]) auto
    next
      case (Set_level i level)
      then show ?thesis using that own st(1) v owns by (simp add: the_gpio_set_level_def)
    next
      case (Read_level i)
      then show ?thesis using that own st(1) v owns by (simp add: the_gpio_read_level_def)
    qed
  qed
qed

text \<open>The multiplexer's connection does not touch the table of owners.\<close>

lemma mux_keeps:
  assumes M: "rpc_wf M" and C: "answers_only C"
  shows "component_keeps (gpio_service.follows n c0) (add_connection (rpc_connection (with_service (mux_serve mux) M)) C)"
proof -
  have mux: "gpio_service.follows n c0 (snd (mux_serve mux k req c))" if "gpio_service.follows n c0 c" for k req c
  proof (cases c)
    case (Inl e)
    with that show ?thesis by simp
  next
    case (Inr st)
    with that show ?thesis
      by (cases req) (auto simp: gpio_service.follows_def split: prod.splits)
  qed
  have "gpio_service.follows n c0 c'"
    if "handle_message (with_service (mux_serve mux) M) b info c = Inr (r, m, c', as)" "b \<in> set (badges M)"
      "gpio_service.follows n c0 c" for b info c r m c' as
    using service_step [OF M that(2,1)] that(3) mux by auto
  with answers_only_ok(3) [OF C, of "gpio_service.follows n c0"] show ?thesis
    by (fastforce simp: component_keeps_def rpc_connection_def)
qed

text \<open>No client's number is the mark of a free pin.\<close>

lemma client_number: "rpc_wf S \<Longrightarrow> i < length (badges S) \<Longrightarrow> (of_nat i :: u64) \<noteq> -1"
proof
  assume "rpc_wf S" "i < length (badges S)" "(of_nat i :: u64) = -1"
  then have "(of_nat (Suc i) :: u64) = 0" by simp
  then have "2 ^ 64 dvd Suc i" by (simp only: word_of_nat_eq_0_iff) simp
  moreover have "Suc i < 2 ^ 64" using \<open>rpc_wf S\<close> \<open>i < length (badges S)\<close> by (auto simp: rpc_wf_def)
  ultimately show False by (auto dest: dvd_imp_le)
qed

lemma gpio_no_owner: "\<forall>e \<in> set (gpio_table st). \<not> ge_initialised e \<Longrightarrow> gpio_owner st i = None"
  by (auto simp: gpio_owner_def check_valid_gpio_id_def check_pin_initialised_def split: if_splits)

lemma gpiomux_setup_ok:
  assumes "call_modules D [gpio_server_setup 0 0 max_id g0 hw, mux_server_setup plat_init sys_init] st0 = Inr (errs, st)"
  obtains gs where "comp st = Inr gs" "gpio_inv gs" "\<forall>i. gpio_owner gs i = None"
proof -
  obtain hw' where "comp st = Inr \<lparr>gpio_table = replicate (max_id + 1) \<lparr>ge_initialised = False, ge_owner = -1, ge_gpio = g0\<rparr>,
      gpio_hw = hw'\<rparr>"
    using assms
    by (auto simp: gpio_server_setup_def mux_server_setup_def gpio_component_init_def obind_eq_Inr split: prod.splits if_splits)
  then show thesis by (rule that) (auto simp: gpio_inv_def intro!: gpio_no_owner)
qed

section \<open>Properties\<close>

lemma gpiomux_does:
  "answers_only C \<Longrightarrow> component_does A (add_connection (rpc_connection (with_service (mux_serve mux) M)) C)"
  by (intro service_does answers_only_ok)

text \<open>A request to read one's own pin, through the event loop.\<close>

lemma gpiomux_reads:
  assumes D: "D = gpiomux_component sys al mux S M C" and C: "answers_only C" and S: "rpc_wf S"
    and st: "traces_ok D st" "comp st = Inr gs" "gpio_inv gs"
    and k: "k < length (badges S)" "badges S ! k AND endpoint_base C = endpoint_base C"
    and own: "gpio_owner gs i = Some (of_nat k)"
    and req: "fits S info" "request S k info = Some (m, Read_level i)"
    and get: "gpio_get sys (ge_gpio (gpio_table gs ! nat i)) (gpio_hw gs) = (ret, hw')"
  obtains st2 es where "loop_iteration D n (badges S ! k, info) st = Inr st2"
    "comp st2 = Inr (gs\<lparr>gpio_hw := hw'\<rparr>)" "events st2 = events st @ es"
    "\<And>len buf. marshal_outputs m (msg_buf info) ret = Some (len, buf) \<Longrightarrow>
       \<exists>e \<in> {Reply (reply_recv len buf), SendSaved (reply_recv len buf)}.
         es = [MessageHandled (badges S ! k) 1 (reply_recv len buf), e, Recv]"
proof -
  have v: "check_valid_gpio_id i gs" using own by (simp add: gpio_owner_def split: if_splits)
  have serve: "gpio_serve sys al (of_nat k) (Read_level i) (comp st) = (ret, Inr (gs\<lparr>gpio_hw := hw'\<rparr>))"
    using v gpio_owns [OF st(3) v client_number [OF S k(1)]] own st(2) get by (simp add: the_gpio_read_level_def)
  have code: "component_does registers_nothing D"
    unfolding D gpiomux_component_def by (intro service_does gpiomux_does C)
  have conn: "find_connection (connections D) (badges S ! k) = Some (handle_message (with_service (gpio_serve sys al) S))"
    using k(1) by (simp add: D gpiomux_component_def rpc_connection_def)
  have base: "badges S ! k AND endpoint_base D = endpoint_base D" using k(2) by (simp add: D gpiomux_component_def)
  show thesis
    by (rule iteration_serves [OF S k(1) req code st(1) base conn serve, of n]) (rule that)
qed


text \<open>A board with two clients of the pins and one of the multiplexer; messages as in \<open>ClockSystem\<close>.\<close>

definition demo_pins_method :: "string \<Rightarrow> nat \<Rightarrow> (u8 list \<Rightarrow> 'i) \<Rightarrow> ('i, int) rpc_method" where
  "demo_pins_method name len f =
     \<lparr>m_name = name, unmarshal_inputs = (\<lambda>buf size. if size < len then None else Some (f buf)),
      marshal_outputs = (\<lambda>buf r. Some (1, [of_int r]))\<rparr>"

definition demo_pins_rpc :: "u64 list \<Rightarrow> ('i, int) rpc_method list \<Rightarrow> ('c, string, 'i, int) rpc_server" where
  "demo_pins_rpc bs ms =
     \<lparr>from_types = map (\<lambda>_. ''Interface'') bs, badges = bs, methods = (\<lambda>_. ms),
      implementation = (\<lambda>name b req c. (0, c, [])),
      unmarshal_index = (\<lambda>n buf size. if size < 1 then None else Some (unat (hd buf))),
      error_handler = (\<lambda>_. CEA_IGNORE), seL4_MsgMaxLength = 120\<rparr>"

definition demo_pins :: "((nat, int list) gpio_state outcome, string, gpio_request, int) rpc_server" where
  "demo_pins = demo_pins_rpc [256, 257]
     [demo_pins_method ''init_pin'' 3 (\<lambda>buf. Init_pin (uint (buf ! 1)) (uint (buf ! 2))),
      demo_pins_method ''set_level'' 3 (\<lambda>buf. Set_level (uint (buf ! 1)) (uint (buf ! 2)))]"

definition demo_mux_rpc :: "((nat, int list) gpio_state outcome, string, mux_request, int) rpc_server" where
  "demo_mux_rpc = demo_pins_rpc [258] [demo_pins_method ''feature_disable'' 2 (\<lambda>buf. Feature_disable (uint (buf ! 1)))]"

definition demo_mux :: "int list mux_sys" where
  "demo_mux = \<lparr>mux_feature_enable = (\<lambda>f d hw. (0, hw)), mux_feature_disable = (\<lambda>f hw. (0, hw))\<rparr>"

abbreviation demo_gpiomux :: "((nat, int list) gpio_state outcome, rpc_msg) component" where
  "demo_gpiomux \<equiv> gpiomux_component demo_gpio [] demo_mux demo_pins demo_mux_rpc quiet"

definition ask_pin :: rpc_msg where "ask_pin = \<lparr>msg_length = 1, msg_buf = [0, 3, 0]\<rparr>"

definition ask_level :: rpc_msg where "ask_level = \<lparr>msg_length = 1, msg_buf = [1, 3, 1]\<rparr>"

lemma demo_pins_ok:
  "rpc_wf demo_pins" "lenient demo_pins" "rpc_wf demo_mux_rpc" "lenient demo_mux_rpc"
  "badges demo_pins = [256, 257]"
  "\<forall>b \<in> set (badges demo_pins). b AND endpoint_base (quiet :: ((nat, int list) gpio_state outcome, rpc_msg) component) =
     endpoint_base (quiet :: ((nat, int list) gpio_state outcome, rpc_msg) component)"
  by (simp_all add: rpc_wf_def lenient_def demo_pins_def demo_mux_rpc_def demo_pins_rpc_def quiet_ok)

lemma demo_pins_requests:
  "fits demo_pins ask_pin" "fits demo_pins ask_level" "fits demo_mux_rpc ask_pin"
  "\<exists>m. request demo_pins 0 ask_pin = Some (m, Init_pin 3 0)" "\<exists>m. request demo_pins 1 ask_level = Some (m, Set_level 3 1)"
  by (simp_all add: fits_def request_def method_index_def demo_pins_def demo_mux_rpc_def demo_pins_rpc_def ask_pin_def ask_level_def demo_pins_method_def)

lemma demo_pin_taken:
  "\<exists>st1 gs. event_loop demo_gpiomux 1 [(256, ask_pin)] (start_with (Inr demo_gpio_state)) = Inr st1 \<and>
     comp st1 = Inr gs \<and> gpio_owner gs 3 = Some 0"
proof -
  obtain m where m: "request demo_pins 0 ask_pin = Some (m, Init_pin 3 0)" using demo_pins_requests(4) by blast
  obtain ret gs where serve: "gpio_serve demo_gpio [] (of_nat 0) (Init_pin 3 0) (Inr demo_gpio_state) = (ret, Inr gs)"
    and own: "gpio_owner gs 3 = Some 0"
    by (simp add: gpio_owner_def check_valid_gpio_id_def check_pin_initialised_def the_gpio_init_pin_def
        check_client_owns_pin_def demo_gpio_state_def demo_gpio_def)
  have zero: "0 < length (badges demo_pins)" by (simp add: demo_pins_ok)
  let ?C = "add_connection (rpc_connection (with_service (mux_serve demo_mux) demo_mux_rpc)) quiet"
  have C: "num_traces ?C = None" "badges demo_pins ! 0 AND endpoint_base ?C = endpoint_base ?C"
    by (simp_all add: quiet_ok demo_pins_ok)
  from first_request [where C = ?C and n = 1, OF gpiomux_component_def gpiomux_does [OF quiet_ok(1)] C(1)
      demo_pins_ok(1) zero C(2) demo_pins_requests(1) m serve] own
  show ?thesis by (auto simp: demo_pins_ok)
qed


end
