(* ===== verification/ClientInit.thy ===== *)
theory ClientInit
  imports ClockServer GpioServer BpmpServer
begin

text \<open>
  The templates that are rendered into the clients of the clock, reset, GPIO, multiplexer and BPMP servers
  (\<open>templates/*-client.template.c\<close> of these components): a wrapper object, named after the connection, and a
  module that fills it with the remote calls of the client library and registers it for the component's
  drivers. As for the templates of connectors, rendering and the module it writes are functions of their own.

  \<open>ps_interface_register\<close> answers with an error; what the libraries' initialisation functions answer is
  computed by \<open>ClockServer\<close>, \<open>GpioServer\<close> and \<open>BpmpServer\<close>.
\<close>

section \<open>Rendering\<close>

datatype ps_interface = PS_CLOCK_INTERFACE | PS_RESET_INTERFACE | PS_GPIO_INTERFACE | TX2_BPMP_INTERFACE

text \<open>The symbols of a rendered file: the object it declares, the one it fills, the one it registers.\<close>

record rendered_client =
  declares :: string
  fills :: string
  registers :: "(ps_interface \<times> string) option"

definition wrapper_of :: "string \<Rightarrow> string" where
  "wrapper_of connection_name = connection_name @ ''_server_wrapper''"

definition clock_client :: "string \<Rightarrow> rendered_client" where
  "clock_client connection_name =
     \<lparr>declares = wrapper_of connection_name, fills = wrapper_of connection_name,
      registers = Some (PS_CLOCK_INTERFACE, ''clock_server_wrapper'')\<rparr>"

definition reset_client :: "string \<Rightarrow> rendered_client" where
  "reset_client connection_name =
     \<lparr>declares = wrapper_of connection_name, fills = wrapper_of connection_name,
      registers = Some (PS_RESET_INTERFACE, ''reset_server_wrapper'')\<rparr>"

definition gpio_client_file :: "string \<Rightarrow> rendered_client" where
  "gpio_client_file connection_name =
     \<lparr>declares = wrapper_of connection_name, fills = wrapper_of connection_name,
      registers = Some (PS_GPIO_INTERFACE, ''gpio_server_wrapper'')\<rparr>"

definition mux_client :: "string \<Rightarrow> rendered_client" where
  "mux_client connection_name =
     \<lparr>declares = wrapper_of connection_name, fills = wrapper_of connection_name, registers = None\<rparr>"

definition bpmp_client :: "string \<Rightarrow> rendered_client" where
  "bpmp_client connection_name =
     \<lparr>declares = wrapper_of connection_name, fills = wrapper_of connection_name,
      registers = Some (TX2_BPMP_INTERFACE, wrapper_of connection_name)\<rparr>"

text \<open>A file whose symbols are all declared compiles.\<close>

definition compiles :: "rendered_client \<Rightarrow> bool" where
  "compiles r \<longleftrightarrow> fills r = declares r \<and> (case registers r of None \<Rightarrow> True | Some (_, s) \<Rightarrow> s = declares r)"

section \<open>The modules\<close>

text \<open>The registered interfaces of a component, each with the object behind it.\<close>

type_synonym 'd registry = "(ps_interface \<times> 'd) list"

definition register_interface ::
    "(ps_interface \<Rightarrow> int) \<Rightarrow> ps_interface \<Rightarrow> 'd \<Rightarrow> 'd registry \<Rightarrow> int \<times> 'd registry" where
  "register_interface ps_interface_register i d reg =
     (let error = ps_interface_register i in if error \<noteq> 0 then (error, reg) else (0, reg @ [(i, d)]))"

definition ClockServer_client_init ::
    "(ps_interface \<Rightarrow> int) \<Rightarrow> int + 's clockserver_data \<Rightarrow> 's clockserver_data registry \<Rightarrow>
     int \<times> 's clockserver_data registry" where
  "ClockServer_client_init ps_register init reg =
     (case init of Inl error \<Rightarrow> (error, reg) | Inr d \<Rightarrow> register_interface ps_register PS_CLOCK_INTERFACE d reg)"

definition ResetServer_client_init ::
    "(ps_interface \<Rightarrow> int) \<Rightarrow> int \<times> 'h reset_sys option \<Rightarrow> 'h reset_sys registry \<Rightarrow> int \<times> 'h reset_sys registry" where
  "ResetServer_client_init ps_register init reg =
     (case init of
        (error, Some d) \<Rightarrow> if error \<noteq> 0 then (error, reg) else register_interface ps_register PS_RESET_INTERFACE d reg
      | (error, None) \<Rightarrow> (error, reg))"

definition GPIOServer_client_init ::
    "(ps_interface \<Rightarrow> int) \<Rightarrow> int + 's gpiomuxserver_gpio_data \<Rightarrow> 's gpiomuxserver_gpio_data registry \<Rightarrow>
     int \<times> 's gpiomuxserver_gpio_data registry" where
  "GPIOServer_client_init ps_register init reg =
     (case init of Inl error \<Rightarrow> (error, reg) | Inr d \<Rightarrow> register_interface ps_register PS_GPIO_INTERFACE d reg)"

definition MUXServer_client_init :: "int + 's gpiomuxserver_mux_data \<Rightarrow> int" where
  "MUXServer_client_init init = (case init of Inl error \<Rightarrow> error | Inr d \<Rightarrow> 0)"

definition BPMPServer_client_init :: "(ps_interface \<Rightarrow> int) \<Rightarrow> int \<Rightarrow> 'd \<Rightarrow> 'd registry \<Rightarrow> int \<times> 'd registry" where
  "BPMPServer_client_init ps_register init_error d reg =
     (if init_error \<noteq> 0 then (-1, reg)
      else let (error, reg1) = register_interface ps_register TX2_BPMP_INTERFACE d reg
           in if error \<noteq> 0 then (-1, reg) else (0, reg1))"

section \<open>What clients are given\<close>

text \<open>Only one name lets the files of three of the servers compile; the BPMP server's always does.\<close>

lemma client_files_compile:
  "compiles (clock_client c) \<longleftrightarrow> c = ''clock''"
  "compiles (reset_client c) \<longleftrightarrow> c = ''reset''"
  "compiles (gpio_client_file c) \<longleftrightarrow> c = ''gpio''"
  "compiles (mux_client c)" "compiles (bpmp_client c)"
proof -
  have "(''clock_server_wrapper'' = c @ ''_server_wrapper'') = (''clock'' @ ''_server_wrapper'' = c @ ''_server_wrapper'')"
    "(''reset_server_wrapper'' = c @ ''_server_wrapper'') = (''reset'' @ ''_server_wrapper'' = c @ ''_server_wrapper'')"
    "(''gpio_server_wrapper'' = c @ ''_server_wrapper'') = (''gpio'' @ ''_server_wrapper'' = c @ ''_server_wrapper'')"
    by simp_all
  then show "compiles (clock_client c) \<longleftrightarrow> c = ''clock''" "compiles (reset_client c) \<longleftrightarrow> c = ''reset''"
    "compiles (gpio_client_file c) \<longleftrightarrow> c = ''gpio''" "compiles (mux_client c)" "compiles (bpmp_client c)"
    unfolding append_same_eq
    by (auto simp: compiles_def clock_client_def reset_client_def gpio_client_file_def mux_client_def bpmp_client_def wrapper_of_def)
qed

text \<open>
  A clock client's driver that asks the registry for a clock interface is given the server's procedures, and
  nothing when the library or the registration fails.
\<close>

lemma clock_client_registers:
  "ClockServer_client_init ps_register (clockserver_interface_init io_ops (Some f1) (Some f2) (Some f3) (Some f4) (Some f5) cs) [] =
     (if \<not> io_ops \<or> \<not> cs then (- 22, [])
      else if ps_register PS_CLOCK_INTERFACE \<noteq> 0 then (ps_register PS_CLOCK_INTERFACE, [])
      else (0, [(PS_CLOCK_INTERFACE, \<lparr>clockserver_init_clock = f1, clockserver_set_gate_mode = f2, clockserver_get_freq = f3,
        clockserver_set_freq = f4, clockserver_register_child = f5\<rparr>)]))"
  by (simp add: ClockServer_client_init_def clockserver_interface_init_def register_interface_def Let_def)

end
