(* ===== verification/Platform.thy ===== *)
theory Platform
  imports SerialServer SerialVq TimeServer BpmpServer
begin

text \<open>
  The platform parts of the servers and what is left of their start: the frequency of the time stamp counter
  (\<open>components/TimeServer/src/plat/pc99/plat.c\<close>), the modules that start the Ethernet devices
  (\<open>components/Ethdriver/src/plat\<close>), the real time clock (\<open>components/RTC\<close>), the BPMP server's module, and the
  serial server's heartbeat thread. The drivers and platform libraries are parameters.
\<close>

section \<open>The time stamp counter\<close>

record tsc_state =
  tsc_frequency :: u64
  tsc_freq_hint :: u64

text \<open>
  The hooks of \<open>plat/pc99\<close>. The first argument of \<open>tsc_pre_init\<close> is \<open>None\<close> when the component was built without
  a \<open>camkes_make_simple\<close>, and otherwise the frequency that the boot information gives.
\<close>

definition tsc_pre_init :: "u64 option \<Rightarrow> tsc_state" where
  "tsc_pre_init simple =
     (let f = (case simple of None \<Rightarrow> 0 | Some f \<Rightarrow> f) in \<lparr>tsc_frequency = f, tsc_freq_hint = f\<rparr>)"

definition tsc_post_init :: "u64 \<Rightarrow> tsc_state \<Rightarrow> tsc_state" where
  "tsc_post_init pit t = (if tsc_frequency t = 0 then t\<lparr>tsc_frequency := pit\<rparr> else t)"

definition the_timer_tsc_frequency :: "tsc_state \<Rightarrow> u64" where
  "the_timer_tsc_frequency t = tsc_frequency t"

text \<open>
  \<open>post_init\<close> of the time server with these hooks around the timer's initialisation: \<open>ltimer_init\<close> is given the
  hint, \<open>pit\<close> measures the counter with the initialised timer.
\<close>

definition pc99_post_init ::
    "'tm tm_ops \<Rightarrow> int \<Rightarrow> nat \<Rightarrow> bool \<Rightarrow> (u64 \<Rightarrow> 'tm option) \<Rightarrow> ('tm \<Rightarrow> u64) \<Rightarrow> u64 option \<Rightarrow>
     ('tm time_state \<times> tsc_state) outcome" where
  "pc99_post_init ops tpc largest_badge alloc_ok ltimer_init pit simple =
     obind (ensure alloc_ok Fatal) (\<lambda>_.
       let t = tsc_pre_init simple
       in case ltimer_init (tsc_freq_hint t) of
            None \<Rightarrow> Inl Fatal
          | Some tm0 \<Rightarrow>
              let t1 = tsc_post_init (pit tm0) t
              in obind (post_init ops tpc largest_badge True tm0) (\<lambda>st. Inr (st, t1)))"

text \<open>
  The frequency clients are told is that of the boot information when it has one, else the measured one; and it
  is what the timer was told except when it was told 0.
\<close>

lemma pc99_frequency:
  assumes "pc99_post_init ops tpc largest_badge alloc_ok ltimer_init pit simple = Inr (st, t)"
  shows "the_timer_tsc_frequency t =
      (case simple of Some f \<Rightarrow> if f \<noteq> 0 then f else pit (the (ltimer_init 0)) | None \<Rightarrow> pit (the (ltimer_init 0)))"
    and "tsc_freq_hint t \<in> {0, the_timer_tsc_frequency t}"
  using assms
  by (auto simp: pc99_post_init_def obind_eq_Inr tsc_pre_init_def tsc_post_init_def the_timer_tsc_frequency_def Let_def
      split: option.splits if_splits)

text \<open>The rest of the start does not depend on the platform.\<close>

lemma pc99_post_init_server:
  assumes "ltimer_init (tsc_freq_hint (tsc_pre_init simple)) = Some tm0"
  shows "map_sum id fst (pc99_post_init ops tpc largest_badge alloc_ok ltimer_init pit simple) =
    post_init ops tpc largest_badge alloc_ok tm0"
  using assms
  by (cases "post_init ops tpc largest_badge True tm0"; cases alloc_ok)
    (simp_all add: pc99_post_init_def Let_def obind_def ensure_def post_init_def)

section \<open>Ethernet devices\<close>

record ioapic_irq =
  ioapic :: nat
  pin :: nat
  level :: nat
  polarity :: nat
  vector :: nat

record intel_config =
  bar0 :: u64
  prom_mode :: u8
  num_irqs :: nat
  irq_info :: "ioapic_irq list"

text \<open>
  \<open>82574.c\<close> and \<open>82580.c\<close> differ only in the driver they call, \<open>driver_init\<close>. The configuration is allocated
  without a check of the result.
\<close>

definition ethif_init :: "(intel_config \<Rightarrow> 'hw \<Rightarrow> int \<times> 'hw) \<Rightarrow> u64 \<Rightarrow> cint \<Rightarrow> bool \<Rightarrow> 'hw \<Rightarrow> (int \<times> 'hw) outcome" where
  "ethif_init driver_init EthDriver promiscuous_mode calloc_ok hw =
     obind (ensure calloc_ok NullDeref) (\<lambda>_.
       let (error, hw1) = driver_init
             \<lparr>bar0 = EthDriver, prom_mode = ucast promiscuous_mode, num_irqs = 1,
              irq_info = [\<lparr>ioapic = 0, pin = 20, level = 1, polarity = 1, vector = 20\<rparr>]\<rparr> hw
       in obind (ensure (error = 0) Fatal) (\<lambda>_. Inr (0, hw1)))"

definition pc99_init_device ::
    "int \<Rightarrow> (intel_config \<Rightarrow> 'hw \<Rightarrow> int \<times> 'hw) \<Rightarrow> u64 \<Rightarrow> cint \<Rightarrow> bool \<Rightarrow> 'hw \<Rightarrow> (int \<times> 'hw) outcome" where
  "pc99_init_device ps_calloc_error driver_init EthDriver promiscuous_mode calloc_ok hw =
     (if ps_calloc_error \<noteq> 0 then Inr (ps_calloc_error, hw)
      else obind (ethif_init driver_init EthDriver promiscuous_mode calloc_ok hw) (\<lambda>(error, hw1).
        if error \<noteq> 0 then Inr (error, hw1) else Inr (0, hw1)))"

definition zynq7000_init_device :: "('hw \<Rightarrow> int \<times> 'hw) \<Rightarrow> 'hw \<Rightarrow> int \<times> 'hw" where
  "zynq7000_init_device clock_sys_init hw = clock_sys_init hw"

text \<open>
  The device is promiscuous when the attribute's lowest byte is not 0, so not for every setting that is not 0.
\<close>

lemma pc99_promiscuous: "(ucast (mode :: cint) :: u8) = 0 \<longleftrightarrow> 256 dvd uint mode"
  by (simp add: word_uint_eq_iff unsigned_ucast_eq take_bit_eq_mod dvd_eq_mod_eq_0)

lemma pc99_init_device_outcome:
  "pc99_init_device e driver_init b mode calloc_ok hw = Inr (error, hw1) \<longleftrightarrow>
     e \<noteq> 0 \<and> error = e \<and> hw1 = hw \<or>
     e = 0 \<and> calloc_ok \<and> error = 0 \<and>
       driver_init \<lparr>bar0 = b, prom_mode = ucast mode, num_irqs = 1,
         irq_info = [\<lparr>ioapic = 0, pin = 20, level = 1, polarity = 1, vector = 20\<rparr>]\<rparr> hw = (0, hw1)"
  by (auto simp: pc99_init_device_def ethif_init_def obind_eq_Inr ensure_def Let_def split: prod.splits if_splits)

section \<open>The real time clock\<close>

text \<open>Both errors are asserted to be 0; \<open>rtc_get_time_date_reg\<close> gives an error and the date.\<close>

definition rtc_time_date :: "int \<Rightarrow> int \<times> 'date \<Rightarrow> 'date outcome" where
  "rtc_time_date io_port_error answer =
     obind (ensure (io_port_error = 0) AssertionFailed) (\<lambda>_.
       let (error, time_date) = answer
       in obind (ensure (error = 0) AssertionFailed) (\<lambda>_. Inr time_date))"

section \<open>The BPMP server's module\<close>

text \<open>The server talks to the first device that is registered; \<open>found\<close> is what \<open>ps_interface_find\<close> passes on.\<close>

definition bpmp_server_init :: "int \<Rightarrow> 'h \<Rightarrow> 'h bpmp_server \<Rightarrow> (int \<times> 'h bpmp_server) outcome" where
  "bpmp_server_init find_error found sv =
     (if find_error \<noteq> 0 then Inl Fatal else Inr (0, sv\<lparr>bpmp := found\<rparr>))"

section \<open>The serial server's threads\<close>

text \<open>\<open>post_init\<close>: a failure to set the virtqueues up is only reported. The result is whether it was.\<close>

definition serial_post_init :: "nat \<Rightarrow> int \<Rightarrow> int \<Rightarrow> bool" where
  "serial_post_init num_registered_virtqueue_channels read_error write_error =
     (num_registered_virtqueue_channels > 0 \<and> virtqueue_init read_error write_error \<noteq> 0)"

text \<open>\<open>run\<close>, for the first \<open>n\<close> notifications of the timer.\<close>

fun run :: "nat \<Rightarrow> serial_state \<Rightarrow> serial_state outcome" where
  "run 0 st = Inr st"
| "run (Suc n) st = obind (timer_callback st) (run n)"

text \<open>The heartbeat never stops the thread and loses nothing.\<close>

lemma run_kept: "serial_wf st \<Longrightarrow> \<exists>st'. run n st = Inr st' \<and> serial_wf st' \<and> (\<forall>b < STREAMS. stream b st' = stream b st)"
proof (induction n arbitrary: st)
  case (Suc n)
  obtain st1 where st1: "timer_callback st = Inr st1" "kept st st1"
    using timer_callback_ok Suc.prems by (auto simp: serial_wf_def)
  have post: "op_post Tick st st1" by (rule kept_op [OF Suc.prems st1(2)]) simp
  with Suc.IH [of st1] show ?case by (auto simp: st1(1) op_post_def)
qed simp

end
