(* ===== verification/Spec2Isabelle.thy ===== *)
theory Spec2Isabelle
  imports EthDriver EthInterface EthAsync SerialServer SerialVq TimeServer ClockServer GpioServer FileServer PciConfig BenchUtiliz BpmpServer PicoServer
    SingleThreaded RpcServer Connectors SharedData Dataport VirtqConnector IrqConnector PinConnector PicoSystem EthAsyncSystem SerialPlat IospaceDma
    ClockSystem GpioSystem ClientInit Platform
begin

text \<open>
  A model of the global components, CAmkES components that share a device or a service among several
  client components, together with the client libraries and remote drivers that use them. Paths are
  below \<open>src/\<close>.

  \<^bold>\<open>The program.\<close> Every server is single threaded: an operation, which is a call from a client, an
  interrupt or a callback of a driver, runs to its end before the next starts, and clients are told
  apart by the badge of their calls. So a server is modelled as a state record and one function for
  each operation, and its behaviour as the runs of sequences of operations by arbitrary clients.

  \<^bold>\<open>Theories.\<close>
  \<^item> \<open>Prelude\<close>: machine integers, faults and outcomes, arrays, facts on lists and multisets.
  \<^item> \<open>Ring\<close>: the ring buffers of the Ethernet driver and the serial server, with the locale of what
    they promise.
  \<^item> \<open>EthDriver\<close> (\<open>components/Ethdriver/src/ethdriver.c\<close>): the shared Ethernet driver, its pool of receive
    buffers, the pending frames of each client, reception, transmission and initialisation. No buffer
    is lost or used twice, nothing faults, and frames reach the clients they are addressed to.
  \<^item> \<open>EthInterface\<close> (\<open>components/PicoServer/src/eth_interface.c\<close>): the TCP/IP server's device on top of this
    driver; polls and sends through both.
  \<^item> \<open>EthAsync\<close> (\<open>remote-drivers/picotcp-ethernet-async\<close>): the client and the server of the asynchronous
    Ethernet transport, alone and composed over the shared queues. Buffers are conserved under every
    interleaving, frames are sent in order, both loops end.
  \<^item> \<open>SerialServer\<close> (\<open>components/SerialServer/src/serial.c\<close>): output of 24 streams with coalescing and
    colours, the escape state machine of the input. No character is lost, every operation succeeds.
  \<^item> \<open>SerialVq\<close> (\<open>components/SerialServer/src/server_virtqueue.c\<close>): its asynchronous requests.
  \<^item> \<open>TimeServer\<close> (\<open>components/TimeServer/src/time_server.c\<close>): timeouts of clients, as a refinement of
    sets of pending timeouts.
  \<^item> \<open>Ownership\<close>, \<open>ClockServer\<close>, \<open>GpioServer\<close> (\<open>components/ClockServer\<close>, \<open>components/GPIOMUXServer\<close>): the
    servers of clocks, pins and multiplexers with their client libraries. \<open>Ownership\<close> holds the locale
    of resources that belong to their first user; both servers interpret it.
  \<^item> \<open>FileServer\<close> (\<open>components/FileServer\<close>): the server and the client library's system calls; the two
    together are equivalent to a single read of the file.
  \<^item> \<open>PciConfig\<close> (\<open>components/PCIConfigIO/src/pci.c\<close>): access to the PCI configuration space.
  \<^item> \<open>BenchUtiliz\<close> (\<open>components/BenchUtiliz\<close>): idle time from samples of a wrapping counter.
  \<^item> \<open>BpmpServer\<close> (\<open>plat_components/tx2/BPMPServer\<close>, \<open>components/ResetServer\<close>): calls of the power management
    processor and reset lines, through server and client library.
  \<^item> \<open>Khash\<close> (\<open>remote-drivers/picotcp-socket-sync/server/khash.h\<close>): the hash table with its packed flags,
    probing and rehashing in place, as a refinement of finite maps; the locale \<open>hash_table\<close> states what
    its users rely on and is interpreted on the table.
  \<^item> \<open>SocketTable\<close> (\<open>picoserver_client.c\<close>, \<open>picoserver_socket.h\<close>): the socket tables of the TCP/IP server's
    clients over these hash tables: descriptors, lookups, events.
  \<^item> \<open>PicoServer\<close> (\<open>server.c\<close> of the same directory): the remote procedures, the stack's callback, and the
    asynchronous transmit and receive queues.
  \<^item> \<open>SingleThreaded\<close> (\<open>templates/seL4SingleThreadedComponent.template.c\<close>): the event loop that all single
    threaded components run, over the component's code as a parameter: notification handlers, remote calls,
    replies, the deferred signal, trace points. The locale \<open>loop_invariant\<close> states what a step must keep so
    that a whole run keeps it; it is interpreted for signals, replies and the handler table.
  \<^item> \<open>RpcServer\<close> (\<open>templates/seL4RPCNoThreads-to.template.c\<close>): the server's side of remote calls and its
    place in this loop: who called, which method, malformed calls.
  \<^item> \<open>Connectors\<close> (\<open>templates/global-endpoint.template.c\<close>, \<open>rpc-signalling.template.c\<close>): the notification and
    the endpoint that the connections of an instance share, as a state the templates thread through a
    build, and the functions that signal clients.
  \<^item> \<open>SharedData\<close>, \<open>Dataport\<close> (the shared data templates): buffers per client and dataports with
    capabilities; the Ethernet connector started together with the driver of \<open>EthDriver\<close>.
  \<^item> \<open>VirtqConnector\<close>, \<open>IrqConnector\<close>, \<open>PinConnector\<close>: the connectors of virtqueues and message queues, of
    interrupts and device registers, and of GPIO pins: both ends of a connection agree.
  \<^item> \<open>Notifier\<close>: what the loop's handling of a notification does to the component's own state and which
    signals it asks for, and the locale \<open>deferred_notifier\<close> of components that note down work for the other side
    and announce it in a handler registered last.
  \<^item> \<open>PicoSystem\<close> (\<open>components/modules/picotcp-base/picotcp-init.c\<close>): the TCP/IP server's component, with the
    stack's clock and tick and the modules of \<open>PicoServer\<close>, run by the event loop.
  \<^item> \<open>EthAsyncSystem\<close> (the templates of \<open>remote-drivers/picotcp-ethernet-async\<close>): both ends of \<open>EthAsync\<close> run by
    the event loop. \<open>PicoSystem\<close> and this theory interpret \<open>deferred_notifier\<close>: nothing new waits unannounced.
  \<^item> \<open>SerialPlat\<close> (\<open>components/SerialServer/src/plat.c\<close>): the serial device and its interrupt, which feeds
    \<open>SerialServer\<close>.
  \<^item> \<open>IospaceDma\<close> (\<open>components/modules/x86-iospace-dma\<close>, \<open>dynamic-untyped-allocators\<close>): the configuration string of
    the IOMMU module, the mapping of the DMA frames, and the loop over the dynamic modules.
  \<^item> \<open>RpcSystem\<close>: a server whose only connections are those of \<open>RpcServer\<close>, run by the event loop; the locale
    \<open>owned_service\<close> lifts what the procedures promise about the owners of resources to whole runs over
    arbitrary messages.
  \<^item> \<open>ClockSystem\<close>, \<open>GpioSystem\<close> (the components and their module templates): \<open>ClockServer\<close> and \<open>GpioServer\<close>
    behind their connections; both interpret \<open>owned_service\<close>.
  \<^item> \<open>ClientInit\<close> (the client templates of the clock, reset, GPIO, multiplexer and BPMP servers): what they
    render, and the modules that register the client libraries' interfaces.
  \<^item> \<open>Platform\<close>: the time stamp counter and the time server's start on a PC, the modules of the Ethernet
    devices (\<open>components/Ethdriver/src/plat\<close>), \<open>components/RTC\<close>, and the serial server's heartbeat thread.

  \<^bold>\<open>Correspondence.\<close> A C function of the repository is the HOL function of the same name; a suffix or
  prefix distinguishes the few whose names clash. A structure is a record with the structure's fields,
  static variables are fields of the component's state. Results are of type \<open>outcome\<close>: a fault, where the
  C code has undefined behaviour or stops the component, or a value. Integers have their width where
  wrapping or truncation can matter; indices and counters that the invariants keep in range are
  natural numbers. Code outside the repository (device drivers, PicoTCP, the virtqueue, dataport and C
  libraries) is an argument of the definitions; what is relied on is a named predicate with an instance
  that satisfies it.

  \<^bold>\<open>Lemma groups.\<close> Each theory proves first that its operations keep the component's invariant (\<open>eth_inv\<close>,
  \<open>world_inv\<close>, \<open>serial_wf\<close>, \<open>kh_wf\<close>, \<open>tables_inv\<close> and the like) and do not fault, then what they compute,
  then the properties, each preceded by its number.

  \<^bold>\<open>Loops and fuel.\<close> Loops over data are structural recursions. The probing, kicking and searching loops of
  the hash table and of \<open>find_free_id\<close>, the loops over pending messages, the transmit loop of the Ethernet
  server and the client library's read loop carry fuel: the number of buckets, of sockets plus two, of
  messages, of entries of the queue, of bytes asked for plus one. That this is enough is part of
  the theorems: they state results, and \<open>OutOfFuel\<close> is a fault. Two loops need not end, and theorems say so: the
  batch calls of the serial server with a wild \<open>tail\<close>, and its interrupt with a device that is never empty.

  \<^bold>\<open>Templates.\<close> A template is a program that runs when the system is built and writes C code. Its tests and
  loops are modelled as functions from the settings of a connection to an error or to what the written
  code consists of (tables, capabilities, registered entries), and the written functions as functions over
  those tables.

  \<^bold>\<open>Not modelled.\<close> Locks (operations do not overlap), log messages and cache maintenance. Settings of the
  CAmkES descriptions and of the platform headers, which are data of the build. Code that the macros of CAmkES
  produce, such as the marshalling of arguments. The installation of C library hooks (\<open>set_putchar\<close>, the system
  calls of \<open>install_fileserver\<close>), and the parts of \<open>khash.h\<close> that the program does not use (its hash function
  for strings and its second one for integers). Of the components run by the event loop, the TCP/IP server is composed with the
  queues and callbacks of \<open>PicoServer\<close> but not with its remote procedures. Memory that a server shares with a
  client is taken to change only by the modelled code.
\<close>

end
